(* ===== verification/Prelude.thy ===== *)
theory Prelude
  imports Main "HOL-Library.AList" "HOL-Library.List_Lexorder" "HOL-Library.Char_ord"
    "HOL-Library.Product_Lexorder"
begin

text \<open>
  Shared vocabulary of the development.

  Python text is a \<^typ>\<open>string\<close>: a list of code points below 256 (HOL's \<open>char\<close>), so
  \<open>length\<close> and slices count code points as Python does; text outside Latin-1 is not
  represented. Comparison of text is the lexicographic order of code points, which is both
  Python's \<open><\<close> on \<open>str\<close> and SQLite's BINARY collation. A dict is an association list in
  insertion order (\<open>AList.update\<close> overwrites in place or appends, as \<open>d[k] = v\<close> does),
  and an SQLite table is the list of its rows in rowid order.
\<close>

named_theorems table_simps "rewriting of table operations"
named_theorems key_intros "operations that keep a primary key unique"

section \<open>Python text\<close>

type_synonym pystr = string

definition py_space :: "char \<Rightarrow> bool" where
  "py_space c \<longleftrightarrow> (let n = (of_char c :: nat) in
     (9 \<le> n \<and> n \<le> 13) \<or> (28 \<le> n \<and> n \<le> 32) \<or> n = 133 \<or> n = 160)"

definition py_strip :: "pystr \<Rightarrow> pystr" where
  "py_strip s = rev (dropWhile py_space (rev (dropWhile py_space s)))"

definition py_lstrip_at :: "pystr \<Rightarrow> pystr" where
  "py_lstrip_at s = dropWhile (\<lambda>c. c = CHR ''@'') s"

definition lower_char :: "char \<Rightarrow> char" where
  "lower_char c = (let n = (of_char c :: nat) in
     if (65 \<le> n \<and> n \<le> 90) \<or> (192 \<le> n \<and> n \<le> 222 \<and> n \<noteq> 215) then char_of (n + 32) else c)"

definition py_lower :: "pystr \<Rightarrow> pystr" where
  "py_lower s = map lower_char s"

text \<open>Case folding is lowering plus the expansion of the sharp s (code point 223).\<close>

definition py_casefold :: "pystr \<Rightarrow> pystr" where
  "py_casefold s = concat (map (\<lambda>c. if (of_char c :: nat) = 223 then ''ss'' else [lower_char c]) s)"

definition or_default :: "pystr \<Rightarrow> pystr \<Rightarrow> pystr" where
  "or_default s d = (if s = [] then d else s)"

lemma dropWhile_idem [simp]: "dropWhile P (dropWhile P xs) = dropWhile P xs"
  by (induction xs) auto

lemma dropWhile_no_hd: "dropWhile P xs = [] \<or> \<not> P (hd (dropWhile P xs))"
  by (induction xs) auto

lemma dropWhile_fixed: "xs = [] \<or> \<not> P (hd xs) \<Longrightarrow> dropWhile P xs = xs"
  by (cases xs) auto

lemma py_strip_nil [simp]: "py_strip [] = []"
  by (simp add: py_strip_def)

text \<open>\<open>strip\<close> fixes exactly the text with no outer white space.\<close>

lemma py_strip_fixed:
  assumes "s = [] \<or> (\<not> py_space (hd s) \<and> \<not> py_space (last s))"
  shows "py_strip s = s"
proof (cases "s = []")
  case False
  with assms have "dropWhile py_space s = s" "dropWhile py_space (rev s) = rev s"
    by (auto intro!: dropWhile_fixed simp: hd_rev)
  then show ?thesis by (simp add: py_strip_def)
qed simp

lemma last_dropWhile: "dropWhile P xs \<noteq> [] \<Longrightarrow> last (dropWhile P xs) = last xs"
  by (metis last_appendR takeWhile_dropWhile_id)

lemma py_strip_ends:
  "py_strip s = [] \<or> (\<not> py_space (hd (py_strip s)) \<and> \<not> py_space (last (py_strip s)))"
proof (cases "py_strip s = []")
  case False
  let ?l = "dropWhile py_space s"
  let ?r = "dropWhile py_space (rev ?l)"
  from False have r: "?r \<noteq> []" by (simp add: py_strip_def)
  then have l: "?l \<noteq> []" by (metis dropWhile.simps(1) rev.simps(1))
  have "last (py_strip s) = hd ?r" using r by (simp add: py_strip_def last_rev)
  moreover have "\<not> py_space (hd ?r)" using dropWhile_no_hd [of py_space "rev ?l"] r by blast
  moreover have "hd (py_strip s) = last ?r" using r by (simp add: py_strip_def hd_rev)
  moreover have "last ?r = last (rev ?l)" using r by (rule last_dropWhile)
  moreover have "last (rev ?l) = hd ?l" using l by (simp add: last_rev)
  moreover have "\<not> py_space (hd ?l)" using dropWhile_no_hd [of py_space s] l by blast
  ultimately show ?thesis by simp
qed simp

lemma py_strip_idem [simp]: "py_strip (py_strip s) = py_strip s"
  using py_strip_ends by (rule py_strip_fixed)

lemma lower_char_idem [simp]: "lower_char (lower_char c) = lower_char c"
proof -
  have "(of_char c :: nat) < 256" by simp
  then show ?thesis by (auto simp: lower_char_def Let_def)
qed

section \<open>Results that may be an exception\<close>

definition bindE :: "'e + 'a \<Rightarrow> ('a \<Rightarrow> 'e + 'b) \<Rightarrow> 'e + 'b" where
  "bindE m f = (case m of Inl e \<Rightarrow> Inl e | Inr a \<Rightarrow> f a)"

lemma bindE_simps [simp]: "bindE (Inl e) f = Inl e" "bindE (Inr a) f = f a"
  by (simp_all add: bindE_def)

lemma bindE_Inr: "bindE m f = Inr b \<longleftrightarrow> (\<exists>a. m = Inr a \<and> f a = Inr b)"
  by (cases m) auto

section \<open>Tables: rows in rowid order\<close>

text \<open>\<open>UPDATE \<dots> SET f WHERE P\<close>, and the row count the cursor reports.\<close>

definition update_where :: "('r \<Rightarrow> bool) \<Rightarrow> ('r \<Rightarrow> 'r) \<Rightarrow> 'r list \<Rightarrow> 'r list" where
  "update_where P f t = map (\<lambda>r. if P r then f r else r) t"

definition rowcount :: "('r \<Rightarrow> bool) \<Rightarrow> 'r list \<Rightarrow> nat" where
  "rowcount P t = length (filter P t)"

text \<open>\<open>INSERT OR IGNORE\<close>, and \<open>INSERT \<dots> ON CONFLICT(key) DO UPDATE\<close>.\<close>

definition insert_ignore :: "('r \<Rightarrow> 'k) \<Rightarrow> 'r \<Rightarrow> 'r list \<Rightarrow> 'r list" where
  "insert_ignore key r t = (if key r \<in> set (map key t) then t else t @ [r])"

definition upsert :: "('r \<Rightarrow> 'k) \<Rightarrow> 'r \<Rightarrow> ('r \<Rightarrow> 'r) \<Rightarrow> 'r list \<Rightarrow> 'r list" where
  "upsert key r merge t =
     (if key r \<in> set (map key t) then update_where (\<lambda>x. key x = key r) merge t else t @ [r])"

definition unique_on :: "('r \<Rightarrow> 'k) \<Rightarrow> 'r list \<Rightarrow> bool" where
  "unique_on key t \<longleftrightarrow> distinct (map key t)"

text \<open>A row selected by its primary key.\<close>

definition row_by :: "('r \<Rightarrow> 'k) \<Rightarrow> 'k \<Rightarrow> 'r list \<Rightarrow> 'r option" where
  "row_by key k t = List.find (\<lambda>r. key r = k) t"

lemma update_where_simps [simp, table_simps]:
  "update_where P f [] = []"
  "update_where P f (r # t) = (if P r then f r else r) # update_where P f t"
  "length (update_where P f t) = length t"
  by (simp_all add: update_where_def)

lemma row_by_simps [simp, table_simps]:
  "row_by key k [] = None"
  "row_by key k (r # t) = (if key r = k then Some r else row_by key k t)"
  by (simp_all add: row_by_def)

lemma unique_on_simps [simp]:
  "unique_on key []"
  "unique_on key (r # t) \<longleftrightarrow> key r \<notin> key ` set t \<and> unique_on key t"
  by (simp_all add: unique_on_def)

lemma set_update_where: "set (update_where P f t) = {r \<in> set t. \<not> P r} \<union> f ` {r \<in> set t. P r}"
  by (auto simp: update_where_def)

lemma in_update_whereE:
  assumes "x \<in> set (update_where P f t)"
  obtains y where "y \<in> set t" "x = (if P y then f y else y)"
  using assms by (auto simp: update_where_def)

lemma find_holds: "List.find P xs = Some x \<Longrightarrow> x \<in> set xs \<and> P x"
  by (induction xs) (auto split: if_splits)

lemma row_by_Some: "row_by key k t = Some r \<Longrightarrow> r \<in> set t \<and> key r = k"
  by (induction t) (auto split: if_splits)

lemma row_by_None: "row_by key k t = None \<longleftrightarrow> k \<notin> key ` set t"
  by (induction t) auto

lemma row_by_unique:
  "unique_on key t \<Longrightarrow> r \<in> set t \<Longrightarrow> row_by key (key r) t = Some r"
  by (induction t) force+

lemma row_by_append: "row_by key k (t @ u) = (case row_by key k t of None \<Rightarrow> row_by key k u | r \<Rightarrow> r)"
  by (induction t) auto

lemma map_key_update_where:
  assumes "\<And>r. P r \<Longrightarrow> key (f r) = key r"
  shows "map key (update_where P f t) = map key t"
  by (induction t) (auto simp: assms)

lemma update_where_unique [key_intros]:
  "(\<And>r. P r \<Longrightarrow> key (f r) = key r) \<Longrightarrow> unique_on key t \<Longrightarrow> unique_on key (update_where P f t)"
  by (simp add: unique_on_def map_key_update_where)

lemma row_by_update_where:
  assumes "\<And>r. P r \<Longrightarrow> key (f r) = key r"
  shows "row_by key k (update_where P f t) =
    map_option (\<lambda>r. if P r then f r else r) (row_by key k t)"
  by (induction t) (auto simp: assms)

lemma insert_ignore_unique [key_intros]: "unique_on key t \<Longrightarrow> unique_on key (insert_ignore key r t)"
  by (auto simp: insert_ignore_def unique_on_def)

lemma set_insert_ignore: "set t \<subseteq> set (insert_ignore key r t)" "set (insert_ignore key r t) \<subseteq> insert r (set t)"
  by (auto simp: insert_ignore_def)

lemma keys_insert_ignore: "key ` set (insert_ignore key r t) = insert (key r) (key ` set t)"
  by (auto simp: insert_ignore_def)

lemma row_by_insert_ignore:
  "row_by key k (insert_ignore key r t) =
    (case row_by key k t of Some x \<Rightarrow> Some x | None \<Rightarrow> if key r = k then Some r else None)"
  using row_by_None [of key k t] by (auto simp: insert_ignore_def row_by_append split: option.split)

lemma upsert_unique [key_intros]:
  "(\<And>x. key (merge x) = key x) \<Longrightarrow> unique_on key t \<Longrightarrow> unique_on key (upsert key r merge t)"
  by (auto simp: upsert_def unique_on_def map_key_update_where)

lemma keys_upsert:
  assumes "\<And>x. key (merge x) = key x"
  shows "key ` set (upsert key r merge t) = insert (key r) (key ` set t)"
proof -
  have "key ` set (update_where (\<lambda>x. key x = key r) merge t) = key ` set t"
    using map_key_update_where [of "\<lambda>x. key x = key r" key merge t] assms
    by (metis list.set_map)
  then show ?thesis by (auto simp: upsert_def)
qed

lemma set_upsert: "x \<in> set (upsert key r merge t) \<Longrightarrow> x = r \<or> x \<in> set t \<or> (\<exists>y \<in> set t. x = merge y)"
  by (auto simp: upsert_def set_update_where split: if_splits)

lemma upsert_ball [key_intros]:
  "(\<forall>x \<in> set t. P x) \<Longrightarrow> P r \<Longrightarrow> (\<And>x. P x \<Longrightarrow> P (merge x)) \<Longrightarrow> \<forall>x \<in> set (upsert key r merge t). P x"
  by (auto dest!: set_upsert)

text \<open>The upsert contract: the row of the key is merged or inserted, every other row is kept.\<close>

lemma row_by_upsert:
  assumes "\<And>x. key (merge x) = key x"
  shows "row_by key k (upsert key r merge t) =
    (if k = key r then Some (case row_by key k t of None \<Rightarrow> r | Some x \<Rightarrow> merge x)
     else row_by key k t)"
proof (cases "key r \<in> key ` set t")
  case True
  then obtain x where x: "row_by key (key r) t = Some x"
    using row_by_None [of key "key r" t] by auto
  have eq: "row_by key k (upsert key r merge t) =
      map_option (\<lambda>x. if key x = key r then merge x else x) (row_by key k t)"
    using True by (simp add: upsert_def row_by_update_where assms)
  show ?thesis
  proof (cases "row_by key k t")
    case None
    with x eq show ?thesis by auto
  next
    case (Some y)
    with eq row_by_Some [OF Some] show ?thesis by auto
  qed
next
  case False
  then have "row_by key (key r) t = None" by (simp add: row_by_None)
  with False show ?thesis by (auto simp: upsert_def row_by_append split: option.split)
qed

lemma filter_update_keys:
  "\<forall>r \<in> set t. P r \<longrightarrow> key (f r) = key r \<and> (L (f r) \<longrightarrow> L r) \<Longrightarrow>
    key ` set (filter L (update_where P f t)) \<subseteq> key ` set (filter L t)"
  by (induction t) auto

lemma unique_filter_update:
  "\<forall>r \<in> set t. P r \<longrightarrow> key (f r) = key r \<and> (L (f r) \<longrightarrow> L r) \<Longrightarrow> unique_on key (filter L t) \<Longrightarrow>
    unique_on key (filter L (update_where P f t))"
proof (induction t)
  case (Cons r t)
  then have keys: "key ` set (filter L (update_where P f t)) \<subseteq> key ` set (filter L t)"
    by (intro filter_update_keys) simp
  have "unique_on key (filter L (update_where P f t))" using Cons by (auto split: if_splits)
  with keys Cons.prems show ?case by (auto split: if_splits)
qed simp

lemma kept_update_where: "r \<in> set t \<Longrightarrow> \<not> P r \<Longrightarrow> r \<in> set (update_where P f t)"
  by (auto simp: set_update_where)

lemma unique_filter_length:
  assumes "unique_on key (filter L t)"
  shows "length (filter (\<lambda>r. L r \<and> key r = k) t) \<le> 1"
  using assms
proof (induction t)
  case (Cons r t)
  have "filter (\<lambda>x. L x \<and> key x = key r) t = []" if "L r"
    using that Cons.prems by (auto simp: filter_empty_conv image_iff)
  with Cons show ?case by (auto split: if_splits)
qed simp

lemma rowcount_pos: "0 < rowcount P t \<longleftrightarrow> (\<exists>r \<in> set t. P r)"
  by (auto simp: rowcount_def filter_empty_conv)

lemma rowcount_le1: "unique_on key t \<Longrightarrow> rowcount (\<lambda>r. key r = k) t \<le> 1"
  by (induction t) (auto simp: rowcount_def filter_empty_conv image_iff)

section \<open>Runs of a state machine\<close>

text \<open>
  The contract every store of the program has: operations that keep an invariant, as long as
  the caller keeps to legal arguments. A client runs any list of them. An interpretation gives the run theorem for a concrete store.
\<close>

locale guarded_machine =
  fixes step :: "'op \<Rightarrow> 's \<Rightarrow> 's" and inv :: "'s \<Rightarrow> bool" and legal :: "'op \<Rightarrow> bool"
  assumes legal_inv: "legal op \<Longrightarrow> inv s \<Longrightarrow> inv (step op s)"
begin

lemma legal_run: "list_all legal ops \<Longrightarrow> inv s \<Longrightarrow> inv (fold step ops s)"
  by (induction ops arbitrary: s) (auto intro: legal_inv)

end

text \<open>A store that keeps its invariant under every operation, whatever the arguments.\<close>

locale invariant_machine =
  fixes step :: "'op \<Rightarrow> 's \<Rightarrow> 's" and inv :: "'s \<Rightarrow> bool"
  assumes step_inv: "inv s \<Longrightarrow> inv (step op s)"

sublocale invariant_machine \<subseteq> guarded: guarded_machine step inv "\<lambda>_. True"
  by unfold_locales (rule step_inv)

context invariant_machine begin

lemma run_inv: "inv s \<Longrightarrow> inv (fold step ops s)"
  by (rule guarded.legal_run) (simp add: list_all_iff)

end

text \<open>A machine that also carries, per key, a watermark no operation moves backwards.\<close>

locale watermark_machine = invariant_machine step inv
  for step :: "'op \<Rightarrow> 's \<Rightarrow> 's" and inv :: "'s \<Rightarrow> bool" +
  fixes mark :: "'s \<Rightarrow> 'k \<Rightarrow> 't::preorder"
  assumes step_mark: "inv s \<Longrightarrow> mark s k \<le> mark (step op s) k"
begin

lemma run_mark: "inv s \<Longrightarrow> mark s k \<le> mark (fold step ops s) k"
proof (induction ops arbitrary: s)
  case (Cons op ops)
  have "mark s k \<le> mark (step op s) k" using Cons.prems by (rule step_mark)
  also have "\<dots> \<le> mark (fold step ops (step op s)) k" by (rule Cons.IH [OF step_inv [OF Cons.prems]])
  finally show ?case by simp
qed simp

lemma run_mark_split: "inv s \<Longrightarrow> mark (fold step as s) k \<le> mark (fold step (as @ bs) s) k"
  using run_mark [OF run_inv] by simp

end

end
