(* ===== verification/PyTime.thy ===== *)
theory PyTime
  imports Prelude
begin

text \<open>
  UTC instants and the text the program stores for them.

  An aware \<open>datetime\<close> is the number of microseconds since 0001-01-01T00:00:00Z (an \<open>int\<close>, so
  that differences are exact). \<open>isoformat\<close> is \<open>datetime.isoformat()\<close> of a UTC value (the
  fraction is left out when it is 0) and \<open>isoformat_us\<close> is
  \<open>isoformat(timespec="microseconds")\<close>. The stores compare these texts with SQL's \<open><=\<close>
  and \<open>ORDER BY\<close>; the order theorems at the end say that this is the order of the instants.
\<close>

type_synonym instant = int

definition us_per_day :: int where "us_per_day = 86400000000"
definition us_per_s :: int where "us_per_s = 1000000"

definition leap :: "nat \<Rightarrow> bool" where
  "leap y \<longleftrightarrow> y mod 4 = 0 \<and> (y mod 100 \<noteq> 0 \<or> y mod 400 = 0)"

definition year_len :: "nat \<Rightarrow> nat" where
  "year_len y = (if leap y then 366 else 365)"

definition month_len :: "nat \<Rightarrow> nat \<Rightarrow> nat" where
  "month_len y m = (if m = 2 then (if leap y then 29 else 28)
                    else if m \<in> {4, 6, 9, 11} then 30 else 31)"

text \<open>Splitting a day count: subtract whole years, then whole months.\<close>

fun locate :: "(nat \<Rightarrow> nat) \<Rightarrow> nat \<Rightarrow> nat \<Rightarrow> nat \<times> nat" where
  "locate len y d = (if len y = 0 \<or> d < len y then (y, d) else locate len (Suc y) (d - len y))"

declare locate.simps [simp del]

definition civil_of_days :: "nat \<Rightarrow> nat \<times> nat \<times> nat" where
  "civil_of_days n =
     (let (y, r) = locate year_len (400 * (n div 146097) + 1) (n mod 146097);
          (m, d) = locate (month_len y) 1 r
      in (y, m, Suc d))"

definition digit_char :: "nat \<Rightarrow> char" where
  "digit_char d = char_of (48 + d mod 10)"

fun pad :: "nat \<Rightarrow> nat \<Rightarrow> pystr" where
  "pad 0 n = []"
| "pad (Suc k) n = pad k (n div 10) @ [digit_char n]"

definition date_text :: "nat \<Rightarrow> pystr" where
  "date_text n = (let (y, m, d) = civil_of_days n in pad 4 y @ ''-'' @ pad 2 m @ ''-'' @ pad 2 d)"

definition clock_text :: "nat \<Rightarrow> pystr" where
  "clock_text s = pad 2 (s div 3600) @ '':'' @ pad 2 (s mod 3600 div 60) @ '':'' @ pad 2 (s mod 60)"

definition days_of :: "instant \<Rightarrow> nat" where "days_of t = nat (t div us_per_day)"
definition secs_of :: "instant \<Rightarrow> nat" where "secs_of t = nat (t mod us_per_day div us_per_s)"
definition micros_of :: "instant \<Rightarrow> nat" where "micros_of t = nat (t mod us_per_s)"

definition isoformat :: "instant \<Rightarrow> pystr" where
  "isoformat t = date_text (days_of t) @ ''T'' @ clock_text (secs_of t) @
     (if micros_of t = 0 then [] else ''.'' @ pad 6 (micros_of t)) @ ''+00:00''"

definition isoformat_us :: "instant \<Rightarrow> pystr" where
  "isoformat_us t = date_text (days_of t) @ ''T'' @ clock_text (secs_of t) @
     ''.'' @ pad 6 (micros_of t) @ ''+00:00''"

text \<open>The instants a \<open>datetime\<close> can hold: years 1 to 9999 (3652059 days).\<close>

definition valid_instant :: "instant \<Rightarrow> bool" where
  "valid_instant t \<longleftrightarrow> 0 \<le> t \<and> t < 3652059 * us_per_day"

section \<open>Order of rendered numbers\<close>

lemma length_pad [simp]: "length (pad k n) = k"
  by (induction k arbitrary: n) auto

lemma lex_append:
  fixes a b c d :: "char list"
  shows "length a = length b \<Longrightarrow> a @ c < b @ d \<longleftrightarrow> a < b \<or> (a = b \<and> c < d)"
proof (induction a arbitrary: b)
  case (Cons x xs)
  from Cons.prems obtain y ys where b: "b = y # ys" "length xs = length ys" by (cases b) auto
  note IH = Cons.IH [OF b(2)]
  show ?case
    unfolding b(1) append_Cons Cons_less_Cons list.inject by (subst IH) argo
qed simp

lemma lex_append_mono:
  fixes a b c d :: "char list"
  shows "length a = length b \<Longrightarrow> a < b \<Longrightarrow> a @ c < b @ d"
  by (simp add: lex_append)

lemma digit_char_less: "a mod 10 < b mod 10 \<Longrightarrow> digit_char a < digit_char b"
  by (simp add: digit_char_def less_char_def)

lemma div_mod_less:
  fixes a b k :: nat
  assumes "a < b"
  shows "a div k < b div k \<or> (a div k = b div k \<and> a mod k < b mod k)"
proof (cases "a div k = b div k")
  case True
  with assms div_mult_mod_eq [of a k] div_mult_mod_eq [of b k] show ?thesis
    by (metis nat_add_left_cancel_less)
next
  case False
  with assms show ?thesis by (simp add: div_le_mono le_neq_implies_less)
qed

lemma pad_less: "a < b \<Longrightarrow> b < 10 ^ k \<Longrightarrow> pad k a < pad k b"
proof (induction k arbitrary: a b)
  case (Suc k)
  show ?case
  proof (cases "a div 10 = b div 10")
    case True
    with div_mod_less [OF Suc.prems(1), of 10] have "a mod 10 < b mod 10" by simp
    with True show ?thesis by (simp add: lex_append digit_char_less)
  next
    case False
    with div_mod_less [OF Suc.prems(1), of 10] have "a div 10 < b div 10" by simp
    moreover from Suc.prems(2) have "b div 10 < 10 ^ k" by (simp add: less_mult_imp_div_less mult.commute)
    ultimately have "pad k (a div 10) < pad k (b div 10)" by (rule Suc.IH)
    then show ?thesis by (simp add: lex_append)
  qed
qed simp

section \<open>Order of dates\<close>

lemma locate_ge: "y \<le> fst (locate len y d)"
  by (induction len y d rule: locate.induct) (subst locate.simps, auto)

lemma locate_strict:
  "d < e \<Longrightarrow> locate len y d < locate len y e"
proof (induction len y d arbitrary: e rule: locate.induct)
  case (1 len y d)
  show ?case
  proof (cases "len y = 0 \<or> d < len y")
    case True
    show ?thesis
    proof (cases "len y = 0 \<or> e < len y")
      case True
      with \<open>len y = 0 \<or> d < len y\<close> 1 show ?thesis by (subst (1 2) locate.simps) auto
    next
      case False
      then have "locate len y e = locate len (Suc y) (e - len y)" by (subst locate.simps) simp
      with locate_ge [of "Suc y" len "e - len y"] True show ?thesis
        by (subst locate.simps) (auto simp: less_prod_def less_eq_prod_def split: prod.splits)
    qed
  next
    case False
    with \<open>d < e\<close> have "d - len y < e - len y" by linarith
    with False have "locate len (Suc y) (d - len y) < locate len (Suc y) (e - len y)" by (rule "1.IH")
    with False \<open>d < e\<close> show ?thesis by (subst (1 2) locate.simps) auto
  qed
qed

lemma locate_rem: "(\<And>x. 0 < len x) \<Longrightarrow> snd (locate len y d) < len (fst (locate len y d))"
  by (induction len y d rule: locate.induct) (subst (1 2) locate.simps, auto)

lemma locate_bound:
  "d < (\<Sum>i = y..<y + k. len i) \<Longrightarrow> fst (locate len y d) < y + k"
proof (induction k arbitrary: y d)
  case (Suc k)
  have sum: "(\<Sum>i = y..<y + Suc k. len i) = len y + (\<Sum>i = Suc y..<Suc y + k. len i)"
    by (simp add: sum.atLeast_Suc_lessThan)
  show ?case
  proof (cases "len y = 0 \<or> d < len y")
    case True
    then show ?thesis by (subst locate.simps) auto
  next
    case False
    with Suc.prems sum have "d - len y < (\<Sum>i = Suc y..<Suc y + k. len i)" by linarith
    then have "fst (locate len (Suc y) (d - len y)) < Suc y + k" by (rule Suc.IH)
    with False show ?thesis by (subst locate.simps) auto
  qed
qed simp

lemma year_len_period: "year_len (400 * e + j) = year_len j"
proof -
  have "(400 * e + j) mod 4 = j mod 4" "(400 * e + j) mod 100 = j mod 100"
    "(400 * e + j) mod 400 = j mod 400"
    using mod_mult_self2 [of j 4 "100 * e"] mod_mult_self2 [of j 100 "4 * e"]
      mod_mult_self2 [of j 400 e] by (simp_all add: ac_simps)
  then show ?thesis by (simp add: year_len_def leap_def)
qed

lemma year_sum:
  "(\<Sum>i = 400 * e + 1..<400 * e + 1 + k. year_len i) = (\<Sum>j = 1..<1 + k. year_len j)"
proof (induction k)
  case (Suc k)
  have "year_len (400 * e + 1 + k) = year_len (1 + k)"
    using year_len_period [of e "1 + k"] by (simp add: add.assoc)
  with Suc show ?case by simp
qed simp

lemma sum_upt_list: "(\<Sum>j = a..<b. f j) = sum_list (map f [a..<b])"
  by (simp add: sum_list_distinct_conv_sum_set)

lemma leap_iff: "leap y \<longleftrightarrow> (4 dvd y \<and> \<not> 100 dvd y) \<or> 400 dvd y"
proof -
  have "400 dvd y \<Longrightarrow> 4 dvd y" by (rule dvd_trans [of 4 400]) simp
  then show ?thesis by (auto simp: leap_def dvd_eq_mod_eq_0)
qed

lemma year_sum_closed: "(\<Sum>j = 1..<1 + k. year_len j) + k div 100 = 365 * k + k div 4 + k div 400"
proof (induction k)
  case (Suc k)
  have "400 dvd Suc k \<Longrightarrow> 100 dvd Suc k" "100 dvd Suc k \<Longrightarrow> 4 dvd Suc k"
    by (rule dvd_trans [of 100 400], simp, assumption) (rule dvd_trans [of 4 100], simp)
  moreover have div: "Suc k div n = k div n + (if n dvd Suc k then 1 else 0)" for n
    by (simp add: div_Suc dvd_eq_mod_eq_0)
  ultimately have "year_len (Suc k) + Suc k div 100 + k div 4 + k div 400
      = 365 + Suc k div 4 + Suc k div 400 + k div 100"
    unfolding div year_len_def leap_iff by (auto simp del: div_Suc)
  with Suc show ?case by simp
qed simp

lemma year_sum_400: "(\<Sum>j = 1..<1 + 400. year_len j) = 146097"
  using year_sum_closed [of 400] by simp

lemma year_sum_399: "(\<Sum>j = 1..<1 + 399. year_len j) = 145731"
  using year_sum_closed [of 399] by simp

lemma month_sum: "(\<Sum>i = 1..<1 + 12. month_len y i) = year_len y"
  by (simp add: sum_upt_list upt_rec month_len_def year_len_def)

lemma year_pos [simp]: "0 < year_len y" "0 < month_len y m"
  by (simp_all add: year_len_def month_len_def)

lemma civil_year:
  assumes "n mod 146097 < (\<Sum>j = 1..<1 + k. year_len j)"
  shows "fst (civil_of_days n) \<le> 400 * (n div 146097) + k"
proof -
  have "n mod 146097 < (\<Sum>i = 400 * (n div 146097) + 1..<400 * (n div 146097) + 1 + k. year_len i)"
    using assms by (simp only: year_sum)
  from locate_bound [OF this] show ?thesis
    by (auto simp: civil_of_days_def split: prod.splits)
qed

lemma civil_lower: "400 * (n div 146097) < fst (civil_of_days n)"
  using locate_ge [of "400 * (n div 146097) + 1" year_len "n mod 146097"]
  by (auto simp: civil_of_days_def split: prod.splits)

lemma civil_md:
  assumes "civil_of_days n = (y, m, d)"
  shows "m \<le> 12 \<and> d \<le> 31"
proof -
  obtain y' r where l: "locate year_len (400 * (n div 146097) + 1) (n mod 146097) = (y', r)"
    by fastforce
  have "r < year_len y'" using locate_rem [of year_len "400 * (n div 146097) + 1" "n mod 146097"] l
    by simp
  then have "r < (\<Sum>i = 1..<1 + 12. month_len y' i)" by (simp only: month_sum)
  from locate_bound [OF this] assms l have m: "m \<le> 12"
    by (auto simp: civil_of_days_def split: prod.splits)
  have "snd (locate (month_len y') 1 r) < month_len y' (fst (locate (month_len y') 1 r))"
    by (rule locate_rem) simp
  also have "\<dots> \<le> 31" by (simp add: month_len_def)
  finally have "d \<le> 31" using assms l by (auto simp: civil_of_days_def split: prod.splits)
  with m show ?thesis by simp
qed

lemma civil_strict:
  assumes "n < k"
  shows "civil_of_days n < civil_of_days k"
proof (cases "n div 146097 = k div 146097")
  case True
  let ?s = "400 * (k div 146097) + 1"
  from assms True have "n mod 146097 < k mod 146097" by (metis div_mult_mod_eq add_less_cancel_left)
  then have "locate year_len ?s (n mod 146097) < locate year_len ?s (k mod 146097)"
    by (rule locate_strict)
  moreover obtain y r y' r' where l: "locate year_len ?s (n mod 146097) = (y, r)"
      "locate year_len ?s (k mod 146097) = (y', r')"
    by fastforce
  ultimately consider "y < y'" | "y = y'" "r < r'" by (auto simp: le_less)
  then show ?thesis
  proof cases
    case 1
    with l True show ?thesis by (simp add: civil_of_days_def split: prod.splits)
  next
    case 2
    then have "locate (month_len y') 1 r < locate (month_len y') 1 r'" by (intro locate_strict)
    with l True 2 show ?thesis by (auto simp: civil_of_days_def split: prod.splits)
  qed
next
  case False
  with assms have "n div 146097 < k div 146097" by (metis div_le_mono le_neq_implies_less less_imp_le)
  then have "fst (civil_of_days n) < fst (civil_of_days k)"
    using civil_year [of n 400] civil_lower [of k] unfolding year_sum_400 by simp
  then show ?thesis by (cases "civil_of_days n"; cases "civil_of_days k") simp
qed

section \<open>Order of timestamps\<close>

lemma date_year_bound:
  assumes "k < 3652059" "civil_of_days k = (y, m, d)"
  shows "y < 10000"
proof (cases "k div 146097 = 24")
  case True
  then have "k mod 146097 < (\<Sum>j = 1..<1 + 399. year_len j)"
    using assms(1) div_mult_mod_eq [of k 146097] by (simp only: year_sum_399)
  from civil_year [OF this] True assms(2) show ?thesis by simp
next
  case False
  with assms(1) have "k div 146097 < 24" by linarith
  then show ?thesis using civil_year [of k 400] assms(2) unfolding year_sum_400 by simp
qed

lemma date_text_less:
  assumes "n < k" "k < 3652059"
  shows "date_text n < date_text k"
proof -
  obtain y m d y' m' d' where c: "civil_of_days n = (y, m, d)" "civil_of_days k = (y', m', d')"
    by (metis prod_cases3)
  have y': "y' < 10000" using date_year_bound [OF assms(2) c(2)] .
  from civil_strict [OF assms(1)] c consider "y < y'" | "y = y'" "m < m'" | "y = y'" "m = m'" "d < d'"
    by (auto simp: le_less)
  then have "pad 4 y @ ''-'' @ pad 2 m @ ''-'' @ pad 2 d < pad 4 y' @ ''-'' @ pad 2 m' @ ''-'' @ pad 2 d'"
  proof cases
    case 1
    with y' show ?thesis by (intro lex_append_mono pad_less) simp_all
  next
    case 2
    with civil_md [OF c(2)] show ?thesis
      by (simp add: lex_append) (intro disjI1 pad_less, simp_all)
  next
    case 3
    with civil_md [OF c(2)] show ?thesis by (simp add: lex_append pad_less)
  qed
  with c show ?thesis by (simp add: date_text_def)
qed

lemma length_date_text [simp]: "length (date_text n) = 10"
  by (simp add: date_text_def split: prod.splits)

lemma length_clock_text [simp]: "length (clock_text s) = 8"
  by (simp add: clock_text_def)

lemma clock_text_less:
  assumes "a < b" "b < 86400"
  shows "clock_text a < clock_text b"
proof -
  have mm: "x mod 3600 mod 60 = x mod 60" for x :: nat by (simp add: mod_mod_cancel)
  from div_mod_less [OF assms(1), of 3600] consider "a div 3600 < b div 3600"
    | "a div 3600 = b div 3600" "a mod 3600 < b mod 3600" by blast
  then consider "a div 3600 < b div 3600"
    | "a div 3600 = b div 3600" "a mod 3600 div 60 < b mod 3600 div 60"
    | "a div 3600 = b div 3600" "a mod 3600 div 60 = b mod 3600 div 60" "a mod 60 < b mod 60"
    by cases (use div_mod_less [of "a mod 3600" "b mod 3600" 60] in \<open>auto simp: mm\<close>)
  then show ?thesis
  proof cases
    case 1
    have "b div 3600 < 10 ^ 2" using assms(2) by simp
    with 1 show ?thesis unfolding clock_text_def by (intro lex_append_mono pad_less) simp_all
  next
    case 2
    have "b mod 3600 div 60 < 10 ^ 2" by simp
    with 2 have "pad 2 (a mod 3600 div 60) < pad 2 (b mod 3600 div 60)" by (intro pad_less)
    with 2(1) show ?thesis by (simp add: clock_text_def lex_append)
  next
    case 3
    have "b mod 60 < 10 ^ 2" by (rule less_trans [of _ 60]) simp_all
    with 3(3) have "pad 2 (a mod 60) < pad 2 (b mod 60)" by (intro pad_less)
    with 3(1,2) show ?thesis by (simp add: clock_text_def lex_append)
  qed
qed

lemma int_div_mod_less:
  fixes a b k :: int
  assumes "a < b" "0 < k"
  shows "a div k < b div k \<or> (a div k = b div k \<and> a mod k < b mod k)"
proof (cases "a div k = b div k")
  case True
  with assms div_mult_mod_eq [of a k] div_mult_mod_eq [of b k] show ?thesis
    by (metis add_less_cancel_left)
next
  case False
  with assms zdiv_mono1 [of a b k] show ?thesis by simp
qed

lemma mod_day_mod_s: "t mod us_per_day mod us_per_s = t mod us_per_s"
  by (simp add: us_per_day_def us_per_s_def mod_mod_cancel)

lemma instant_split:
  assumes "0 \<le> t" "t < u"
  shows "days_of t < days_of u \<or> days_of t = days_of u \<and>
    (secs_of t < secs_of u \<or> secs_of t = secs_of u \<and> micros_of t < micros_of u)"
proof -
  have pos: "0 \<le> t div us_per_day" "0 \<le> u div us_per_day" "0 < us_per_day" "0 < us_per_s"
    using assms by (simp_all add: us_per_day_def us_per_s_def pos_imp_zdiv_nonneg_iff)
  then have modpos: "0 \<le> x mod us_per_day div us_per_s" "0 \<le> x mod us_per_s" for x
    by (simp_all add: pos_imp_zdiv_nonneg_iff)
  consider "t div us_per_day < u div us_per_day"
    | "t div us_per_day = u div us_per_day" "t mod us_per_day < u mod us_per_day"
    using int_div_mod_less [OF assms(2) pos(3)] by blast
  then show ?thesis
  proof cases
    case 1
    with pos show ?thesis by (simp add: days_of_def)
  next
    case 2
    have "t mod us_per_s < u mod us_per_s \<Longrightarrow> micros_of t < micros_of u"
      "t mod us_per_day div us_per_s < u mod us_per_day div us_per_s \<Longrightarrow> secs_of t < secs_of u"
      unfolding micros_of_def secs_of_def using modpos [of t] by linarith+
    with int_div_mod_less [OF 2(2) pos(4)] 2(1) show ?thesis
      by (auto simp: days_of_def secs_of_def mod_day_mod_s)
  qed
qed

lemma instant_parts_bounds:
  "secs_of t < 86400" "micros_of t < 1000000" "valid_instant t \<Longrightarrow> days_of t < 3652059"
proof -
  have "t mod us_per_day < us_per_day" "t mod us_per_s < us_per_s"
    by (simp_all add: us_per_day_def us_per_s_def)
  then show "secs_of t < 86400" "micros_of t < 1000000"
    by (simp_all add: secs_of_def micros_of_def us_per_day_def us_per_s_def nat_less_iff)
  show "valid_instant t \<Longrightarrow> days_of t < 3652059"
    unfolding valid_instant_def days_of_def us_per_day_def by linarith
qed

lemma isoformat_mono:
  assumes "0 \<le> t" "t < u" "valid_instant u"
  shows "isoformat t < isoformat u" "isoformat_us t < isoformat_us u"
proof -
  have us: "micros_of t < micros_of u \<Longrightarrow> pad 6 (micros_of t) < pad 6 (micros_of u)"
    using instant_parts_bounds(2) [of u] by (simp add: pad_less)
  have tail: "micros_of t < micros_of u \<Longrightarrow>
      (if micros_of t = 0 then [] else ''.'' @ pad 6 (micros_of t)) @ ''+00:00''
      < (if micros_of u = 0 then [] else ''.'' @ pad 6 (micros_of u)) @ ''+00:00''"
    using us by (auto simp: lex_append less_char_def)
  note date = date_text_less [OF _ instant_parts_bounds(3) [OF assms(3)]]
  note clock = clock_text_less [OF _ instant_parts_bounds(1)]
  show "isoformat t < isoformat u"
    using instant_split [OF assms(1,2)] date clock tail
    by (auto simp add: isoformat_def lex_append)
  show "isoformat_us t < isoformat_us u"
    using instant_split [OF assms(1,2)] date clock us
    by (auto simp add: isoformat_us_def lex_append)
qed

lemma isoformat_order:
  assumes "valid_instant t" "valid_instant u"
  shows "isoformat t < isoformat u \<longleftrightarrow> t < u" "isoformat t \<le> isoformat u \<longleftrightarrow> t \<le> u"
    "isoformat_us t < isoformat_us u \<longleftrightarrow> t < u" "isoformat_us t \<le> isoformat_us u \<longleftrightarrow> t \<le> u"
proof -
  have "0 \<le> t" "0 \<le> u" using assms by (simp_all add: valid_instant_def)
  then have "t < u \<Longrightarrow> isoformat t < isoformat u \<and> isoformat_us t < isoformat_us u"
    "u < t \<Longrightarrow> isoformat u < isoformat t \<and> isoformat_us u < isoformat_us t"
    using isoformat_mono [OF _ _ assms(2)] isoformat_mono [OF _ _ assms(1)] by blast+
  then show "isoformat t < isoformat u \<longleftrightarrow> t < u" "isoformat t \<le> isoformat u \<longleftrightarrow> t \<le> u"
    "isoformat_us t < isoformat_us u \<longleftrightarrow> t < u" "isoformat_us t \<le> isoformat_us u \<longleftrightarrow> t \<le> u"
    by (cases t u rule: linorder_cases; fastforce)+
qed

section \<open>Reading a timestamp\<close>

text \<open>
  \<open>datetime.fromisoformat\<close> on extended-format text: a date, then optionally any separator
  and \<open>HH:MM[:SS[.f\<dots>]]\<close>, then optionally \<open>Z\<close> or \<open>+HH:MM\<close> / \<open>-HH:MM\<close>. The value is the
  local reading with the offset, if one was given; \<open>None\<close> is \<open>ValueError\<close>. The basic and
  week-date formats, which the program never writes, are rejected.
\<close>

definition is_digit :: "char \<Rightarrow> bool" where
  "is_digit c \<longleftrightarrow> (let n = (of_char c :: nat) in 48 \<le> n \<and> n \<le> 57)"

definition digit_val :: "char \<Rightarrow> nat" where "digit_val c = of_char c - 48"

fun take_num :: "nat \<Rightarrow> nat \<Rightarrow> pystr \<Rightarrow> (nat \<times> pystr) option" where
  "take_num 0 acc s = Some (acc, s)"
| "take_num (Suc k) acc [] = None"
| "take_num (Suc k) acc (c # s) =
     (if is_digit c then take_num k (10 * acc + digit_val c) s else None)"

definition take_char :: "char \<Rightarrow> pystr \<Rightarrow> pystr option" where
  "take_char c s = (case s of [] \<Rightarrow> None | x # xs \<Rightarrow> if x = c then Some xs else None)"

definition days_of_civil :: "nat \<Rightarrow> nat \<Rightarrow> nat \<Rightarrow> nat" where
  "days_of_civil y m d =
     146097 * ((y - 1) div 400) + sum_list (map year_len [1..<(y - 1) mod 400 + 1])
       + sum_list (map (month_len y) [1..<m]) + (d - 1)"

definition parse_date :: "pystr \<Rightarrow> (nat \<times> pystr) option" where
  "parse_date s =
     Option.bind (take_num 4 0 s) (\<lambda>(y, s).
     Option.bind (take_char CHR ''-'' s) (\<lambda>s.
     Option.bind (take_num 2 0 s) (\<lambda>(m, s).
     Option.bind (take_char CHR ''-'' s) (\<lambda>s.
     Option.bind (take_num 2 0 s) (\<lambda>(d, s).
       if 1 \<le> y \<and> 1 \<le> m \<and> m \<le> 12 \<and> 1 \<le> d \<and> d \<le> month_len y m
       then Some (days_of_civil y m d, s) else None)))))"

definition parse_fraction :: "pystr \<Rightarrow> (nat \<times> pystr) option" where
  "parse_fraction s = (case s of
       [] \<Rightarrow> Some (0, s)
     | c # r \<Rightarrow>
         if c \<noteq> CHR ''.'' then Some (0, s)
         else let ds = takeWhile is_digit r
              in if ds = [] then None
                 else map_option (\<lambda>p. (fst p, drop (length ds) r))
                        (take_num 6 0 (take 6 (ds @ replicate 6 (CHR ''0'')))))"

definition parse_clock :: "pystr \<Rightarrow> (nat \<times> nat \<times> pystr) option" where
  "parse_clock s =
     Option.bind (take_num 2 0 s) (\<lambda>(h, s).
     Option.bind (take_char CHR '':'' s) (\<lambda>s.
     Option.bind (take_num 2 0 s) (\<lambda>(mi, s).
     Option.bind (case take_char CHR '':'' s of None \<Rightarrow> Some (0, 0, s)
                  | Some s \<Rightarrow> Option.bind (take_num 2 0 s) (\<lambda>(sec, s).
                      map_option (\<lambda>(us, s). (sec, us, s)) (parse_fraction s))) (\<lambda>(sec, us, s).
       if h < 24 \<and> mi < 60 \<and> sec < 60 then Some (3600 * h + 60 * mi + sec, us, s) else None))))"

definition parse_offset :: "pystr \<Rightarrow> int option option" where
  "parse_offset s = (case s of
       [] \<Rightarrow> Some None
     | c # r \<Rightarrow>
         if c = CHR ''Z'' then (if r = [] then Some (Some 0) else None)
         else if c = CHR ''+'' \<or> c = CHR ''-'' then
           Option.bind (take_num 2 0 r) (\<lambda>(h, r).
           Option.bind (take_char CHR '':'' r) (\<lambda>r.
           Option.bind (take_num 2 0 r) (\<lambda>(mi, r).
             if r = [] \<and> h < 24 \<and> mi < 60
             then Some (Some ((if c = CHR ''-'' then -1 else 1) * int (3600 * h + 60 * mi) * us_per_s))
             else None)))
         else None)"

definition fromisoformat :: "pystr \<Rightarrow> (int \<times> int option) option" where
  "fromisoformat s =
     Option.bind (parse_date s) (\<lambda>(n, s).
       case s of
         [] \<Rightarrow> Some (int n * us_per_day, None)
       | _ # r \<Rightarrow>
           Option.bind (parse_clock r) (\<lambda>(sec, us, r).
             map_option (\<lambda>off. (int n * us_per_day + int sec * us_per_s + int us, off))
               (parse_offset r)))"

text \<open>The instant of a parsed value; a naive one is read as UTC, as \<open>replace(tzinfo=utc)\<close> does.\<close>

definition as_utc :: "int \<times> int option \<Rightarrow> instant" where
  "as_utc v = fst v - (case snd v of None \<Rightarrow> 0 | Some off \<Rightarrow> off)"

lemma digit_char_props [simp]: "is_digit (digit_char n)" "digit_val (digit_char n) = n mod 10"
  by (simp_all add: is_digit_def digit_val_def digit_char_def)

lemma take_num_append:
  "take_num k acc s = Some (v, []) \<Longrightarrow> take_num (k + j) acc (s @ r) = take_num j v r"
  by (induction k acc s rule: take_num.induct) (auto split: if_splits)

lemma take_num_pad: "n < 10 ^ k \<Longrightarrow> take_num k acc (pad k n @ r) = Some (10 ^ k * acc + n, r)"
proof (induction k arbitrary: n r)
  case (Suc k)
  from Suc.prems have "n div 10 < 10 ^ k" by (simp add: less_mult_imp_div_less mult.commute)
  then have "take_num k acc (pad k (n div 10) @ []) = Some (10 ^ k * acc + n div 10, [])" by (rule Suc.IH)
  from take_num_append [OF this [simplified], of 1 "digit_char n # r"] show ?case by simp
qed simp

lemma locate_sum: "locate len y d = (z, r) \<Longrightarrow> d = (\<Sum>i = y..<z. len i) + r"
proof (induction len y d rule: locate.induct)
  case (1 len y d)
  show ?case
  proof (cases "len y = 0 \<or> d < len y")
    case True
    with "1.prems" show ?thesis by (simp add: locate.simps [of len y d])
  next
    case False
    with "1.prems" have l: "locate len (Suc y) (d - len y) = (z, r)" by (simp add: locate.simps [of len y d])
    from "1.IH" [OF False l] have "d = len y + (\<Sum>i = Suc y..<z. len i) + r" using False by linarith
    moreover have "Suc y \<le> z" using locate_ge [of "Suc y" len "d - len y"] l by simp
    ultimately show ?thesis by (simp add: sum.atLeast_Suc_lessThan)
  qed
qed

lemma civil_round_trip:
  assumes "civil_of_days n = (y, m, d)"
  shows "days_of_civil y m d = n" "1 \<le> y" "1 \<le> m" "1 \<le> d" "d \<le> month_len y m"
proof -
  let ?e = "n div 146097"
  obtain r d' where l: "locate year_len (400 * ?e + 1) (n mod 146097) = (y, r)"
      "locate (month_len y) 1 r = (m, d')" "d = Suc d'"
    using assms by (auto simp: civil_of_days_def split: prod.splits)
  have "n mod 146097 < (\<Sum>j = 1..<1 + 400. year_len j)" unfolding year_sum_400 by simp
  from civil_year [OF this] civil_lower [of n] assms have y: "400 * ?e < y" "y \<le> 400 * ?e + 400" by simp_all
  define k where "k = y - 1 - 400 * ?e"
  with y have k: "k < 400" "y = 400 * ?e + 1 + k" by simp_all
  have ye: "(y - 1) div 400 = ?e" "(y - 1) mod 400 = k" using k by simp_all
  have "n mod 146097 = (\<Sum>i = 400 * ?e + 1..<400 * ?e + 1 + k. year_len i) + r"
    using locate_sum [OF l(1)] k(2) by simp
  then have "n mod 146097 = (\<Sum>j = 1..<1 + k. year_len j) + r" by (simp only: year_sum)
  then have a: "n mod 146097 = sum_list (map year_len [1..<k + 1]) + r"
    by (simp only: sum_upt_list add.commute [of 1 k])
  have b: "r = sum_list (map (month_len y) [1..<m]) + d'"
    using locate_sum [OF l(2)] by (simp add: sum_upt_list)
  show "days_of_civil y m d = n"
    unfolding days_of_civil_def ye using a b l(3) div_mult_mod_eq [of n 146097] by linarith
  show "1 \<le> y" "1 \<le> d" using y l(3) by simp_all
  show "1 \<le> m" using locate_ge [of 1 "month_len y" r] l(2) by simp
  show "d \<le> month_len y m" using locate_rem [of "month_len y" 1 r] l by simp
qed

lemma take_char_Cons [simp]: "take_char c (x # s) = (if x = c then Some s else None)" "take_char c [] = None"
  by (simp_all add: take_char_def)

lemma parse_date_text:
  assumes "n < 3652059"
  shows "parse_date (date_text n @ r) = Some (n, r)"
proof -
  obtain y m d where c: "civil_of_days n = (y, m, d)" by (metis prod_cases3)
  note rt = civil_round_trip [OF c]
  have "y < 10000" using date_year_bound [OF assms c] .
  with c rt civil_md [OF c] show ?thesis
    by (simp add: date_text_def parse_date_def take_num_pad numeral_2_eq_2 [symmetric])
qed

lemma parse_clock_text:
  assumes "sec < 86400" "us < 1000000"
  shows "parse_clock (clock_text sec @ (if us = 0 then [] else ''.'' @ pad 6 us) @ ''+00:00'') =
      Some (sec, us, ''+00:00'')"
    "parse_clock (clock_text sec @ CHR ''.'' # pad 6 us @ ''+00:00'') = Some (sec, us, ''+00:00'')"
proof -
  have digits: "takeWhile is_digit (pad k x @ ''+00:00'') = pad k x" for k x
  proof -
    have "\<forall>c \<in> set (pad k x). is_digit c" by (induction k arbitrary: x) auto
    then have "takeWhile is_digit (pad k x @ ''+00:00'') = pad k x @ takeWhile is_digit ''+00:00''"
      by (simp add: takeWhile_append2)
    then show ?thesis by (simp add: is_digit_def)
  qed
  have ne: "pad 6 us \<noteq> []" using length_pad [of 6 us] by (metis length_0_conv zero_neq_numeral)
  have frac: "parse_fraction (CHR ''.'' # pad 6 us @ ''+00:00'') = Some (us, ''+00:00'')"
    using assms(2) take_num_pad [of us 6 0 "[]"] ne
    by (simp add: parse_fraction_def digits Let_def)
  have mm: "sec mod 3600 mod 60 = sec mod 60" by (simp add: mod_mod_cancel)
  have sum: "3600 * (sec div 3600) + 60 * (sec mod 3600 div 60) + sec mod 60 = sec"
    using mm div_mult_mod_eq [of "sec mod 3600" 60] div_mult_mod_eq [of sec 3600] by linarith
  have b: "sec div 3600 < 24" "sec mod 3600 div 60 < 60" "sec mod 60 < 60"
    using assms(1) by auto
  show two: "parse_clock (clock_text sec @ CHR ''.'' # pad 6 us @ ''+00:00'') = Some (sec, us, ''+00:00'')"
    using b frac sum by (simp add: parse_clock_def clock_text_def take_num_pad)
  show "parse_clock (clock_text sec @ (if us = 0 then [] else ''.'' @ pad 6 us) @ ''+00:00'') =
      Some (sec, us, ''+00:00'')"
  proof (cases "us = 0")
    case True
    have "parse_fraction ''+00:00'' = Some (0, ''+00:00'')" by (simp add: parse_fraction_def)
    with True b sum show ?thesis by (simp add: parse_clock_def clock_text_def take_num_pad)
  next
    case False
    with two show ?thesis by simp
  qed
qed

lemma parse_offset_utc: "parse_offset ''+00:00'' = Some (Some 0)"
  by (simp add: parse_offset_def numeral_2_eq_2 is_digit_def digit_val_def)

lemma instant_parts:
  assumes "0 \<le> t"
  shows "int (days_of t) * us_per_day + int (secs_of t) * us_per_s + int (micros_of t) = t"
proof -
  have "0 \<le> t div us_per_day" "0 \<le> t mod us_per_day div us_per_s" "0 \<le> t mod us_per_s"
    using assms by (simp_all add: us_per_day_def us_per_s_def pos_imp_zdiv_nonneg_iff)
  then have nn: "int (days_of t) = t div us_per_day" "int (micros_of t) = t mod us_per_s"
    "int (secs_of t) = t mod us_per_day div us_per_s"
    by (simp_all add: days_of_def secs_of_def micros_of_def)
  have "t mod us_per_day = t mod us_per_day div us_per_s * us_per_s + t mod us_per_s"
    by (metis div_mult_mod_eq mod_day_mod_s)
  moreover have "t = t div us_per_day * us_per_day + t mod us_per_day" by simp
  ultimately show ?thesis unfolding nn by linarith
qed

lemma fromisoformat_isoformat:
  assumes "valid_instant t"
  shows "fromisoformat (isoformat t) = Some (t, Some 0)" "fromisoformat (isoformat_us t) = Some (t, Some 0)"
proof -
  have "0 \<le> t" using assms by (simp add: valid_instant_def)
  note parts = parse_date_text [OF instant_parts_bounds(3) [OF assms]]
    parse_clock_text [OF instant_parts_bounds(1,2)] parse_offset_utc instant_parts [OF \<open>0 \<le> t\<close>]
  show "fromisoformat (isoformat t) = Some (t, Some 0)"
    unfolding fromisoformat_def isoformat_def by (simp add: parts del: append_assoc)
  show "fromisoformat (isoformat_us t) = Some (t, Some 0)"
    unfolding fromisoformat_def isoformat_us_def by (simp add: parts del: append_assoc)
qed

section \<open>Characters of a timestamp\<close>

definition stamp_char :: "char \<Rightarrow> bool" where
  "stamp_char c \<longleftrightarrow> is_digit c \<or> c \<in> set ''-T:.+''"

lemma pad_digits: "c \<in> set (pad k n) \<Longrightarrow> is_digit c"
  by (induction k arbitrary: n) auto

lemma stamp_literals [simp]: "stamp_char CHR ''-''" "stamp_char CHR ''T''" "stamp_char CHR '':''"
    "stamp_char CHR ''.''" "stamp_char CHR ''+''" "stamp_char CHR ''0''"
  by (simp_all add: stamp_char_def is_digit_def)

lemma stamp_pad [dest]: "c \<in> set (pad k n) \<Longrightarrow> stamp_char c"
  using pad_digits by (simp add: stamp_char_def)

lemma stamp_parts: "c \<in> set (date_text n) \<Longrightarrow> stamp_char c" "c \<in> set (clock_text n) \<Longrightarrow> stamp_char c"
  by (auto simp: date_text_def clock_text_def simp del: pad.simps split: prod.splits)

lemma isoformat_chars:
  "c \<in> set (isoformat t) \<Longrightarrow> stamp_char c" "c \<in> set (isoformat_us t) \<Longrightarrow> stamp_char c"
  by (auto simp: isoformat_def isoformat_us_def simp del: pad.simps split: if_splits dest: stamp_parts)

lemma stamp_char_plain: "stamp_char c \<Longrightarrow> \<not> py_space c \<and> c \<noteq> CHR ''Z''"
  by (auto simp: stamp_char_def is_digit_def py_space_def Let_def)

lemma isoformat_nonempty [simp]: "isoformat t \<noteq> []" "isoformat_us t \<noteq> []"
  by (simp_all add: isoformat_def isoformat_us_def)

lemma isoformat_strip [simp]: "py_strip (isoformat t) = isoformat t" "py_strip (isoformat_us t) = isoformat_us t"
proof -
  have "s \<noteq> [] \<Longrightarrow> \<forall>c \<in> set s. \<not> py_space c \<Longrightarrow> py_strip s = s" for s
    by (rule py_strip_fixed) simp
  then show "py_strip (isoformat t) = isoformat t" "py_strip (isoformat_us t) = isoformat_us t"
    using isoformat_chars stamp_char_plain by (meson isoformat_nonempty)+
qed

end
