(* ===== verification/PyJson.thy ===== *)
theory PyJson
  imports PyTime
begin

text \<open>
  The values \<open>json.loads\<close> returns and the conversions the program applies to untrusted
  ones: truth, \<open>int()\<close>, \<open>str()\<close>, \<open>bool()\<close>, slices of text. Floats are exact
  (\<open>Fin m e\<close> is \<open>m * 2 ^ e\<close>) with the two infinities and NaN, which \<open>json.loads\<close> accepts.
  The shortest decimal
  rendering of a float is a parameter \<open>fr\<close> of \<open>py_str\<close>. \<open>JOpaque\<close> is no JSON value: it
  stands for a Python object inside a dict that \<open>json.dumps\<close> refuses
  (\<open>dataclasses.MISSING\<close>) and that \<open>json.loads\<close> never returns.
\<close>

datatype pyfloat = Fin int int | PosInf | NegInf | NaN

datatype json =
    JNull
  | JBool bool
  | JInt int
  | JFloat pyfloat
  | JStr pystr
  | JList "json list"
  | JObj "(pystr \<times> json) list"
  | JOpaque

datatype py_exc = TypeError | ValueError | OverflowError | AttributeError | IntegrityError

text \<open>\<open>type(exc).__name__\<close>\<close>

fun exc_name :: "py_exc \<Rightarrow> pystr" where
  "exc_name TypeError = ''TypeError''"
| "exc_name ValueError = ''ValueError''"
| "exc_name OverflowError = ''OverflowError''"
| "exc_name AttributeError = ''AttributeError''"
| "exc_name IntegrityError = ''IntegrityError''"

section \<open>Integers and text\<close>

fun nat_text :: "nat \<Rightarrow> pystr" where
  "nat_text n = (if n < 10 then [digit_char n] else nat_text (n div 10) @ [digit_char n])"

declare nat_text.simps [simp del]

definition int_text :: "int \<Rightarrow> pystr" where
  "int_text i = (if i < 0 then CHR ''-'' # nat_text (nat (- i)) else nat_text (nat i))"

definition text_val :: "pystr \<Rightarrow> nat" where
  "text_val s = foldl (\<lambda>acc c. 10 * acc + digit_val c) 0 s"

text \<open>The digit part of \<open>int(text)\<close>: decimal digits, single underscores between digits only.\<close>

fun int_digits :: "pystr \<Rightarrow> pystr option" where
  "int_digits [] = None"
| "int_digits [c] = (if is_digit c then Some [c] else None)"
| "int_digits (c # d # s) =
     (if \<not> is_digit c then None
      else if d = CHR ''_'' then map_option (\<lambda>r. c # r) (int_digits s)
      else map_option (\<lambda>r. c # r) (int_digits (d # s)))"

text \<open>\<open>int(text)\<close>; more than 4300 digits is a \<open>ValueError\<close> too.\<close>

definition int_of_text :: "pystr \<Rightarrow> int option" where
  "int_of_text s =
     (let t = py_strip s;
          (neg, body) = (case t of
              [] \<Rightarrow> (False, [])
            | c # r \<Rightarrow> if c = CHR ''-'' then (True, r) else if c = CHR ''+'' then (False, r)
                       else (False, t))
      in case int_digits body of
           None \<Rightarrow> None
         | Some ds \<Rightarrow> if length ds > 4300 then None
                      else Some (if neg then - int (text_val ds) else int (text_val ds)))"

lemma text_val_snoc: "text_val (s @ [c]) = 10 * text_val s + digit_val c"
  by (simp add: text_val_def)

lemma text_val_nat_text [simp]: "text_val (nat_text n) = n"
proof (induction n rule: nat_text.induct)
  case (1 n)
  show ?case
  proof (cases "n < 10")
    case True
    then show ?thesis by (subst nat_text.simps) (simp add: text_val_def)
  next
    case False
    with 1 have "text_val (nat_text (n div 10)) = n div 10" by simp
    with False show ?thesis by (subst nat_text.simps) (simp add: text_val_snoc)
  qed
qed

lemma nat_text_inj [simp]: "nat_text a = nat_text b \<longleftrightarrow> a = b"
  by (metis text_val_nat_text)

lemma nat_text_digits: "c \<in> set (nat_text n) \<Longrightarrow> is_digit c"
  by (induction n rule: nat_text.induct) (subst (asm) (2) nat_text.simps, auto split: if_splits)

lemma nat_text_not_minus: "nat_text n \<noteq> CHR ''-'' # s"
  using nat_text_digits [of "CHR ''-''" n] by (auto simp: is_digit_def)

lemma int_text_inj [simp]: "int_text i = int_text j \<longleftrightarrow> i = j"
  using nat_text_not_minus nat_text_not_minus [symmetric]
  by (auto simp: int_text_def eq_nat_nat_iff split: if_splits)

section \<open>Truth and conversions\<close>

fun truthy :: "json \<Rightarrow> bool" where
  "truthy JNull = False"
| "truthy (JBool b) = b"
| "truthy (JInt i) = (i \<noteq> 0)"
| "truthy (JFloat (Fin m e)) = (m \<noteq> 0)"
| "truthy (JFloat _) = True"
| "truthy (JStr s) = (s \<noteq> [])"
| "truthy (JList xs) = (xs \<noteq> [])"
| "truthy (JObj kvs) = (kvs \<noteq> [])"
| "truthy JOpaque = True"

definition float_trunc :: "int \<Rightarrow> int \<Rightarrow> int" where
  "float_trunc m e = (if 0 \<le> e then m * 2 ^ nat e else sgn m * (\<bar>m\<bar> div 2 ^ nat (- e)))"

fun py_int :: "json \<Rightarrow> py_exc + int" where
  "py_int JNull = Inl TypeError"
| "py_int (JBool b) = Inr (if b then 1 else 0)"
| "py_int (JInt i) = Inr i"
| "py_int (JFloat (Fin m e)) = Inr (float_trunc m e)"
| "py_int (JFloat NaN) = Inl ValueError"
| "py_int (JFloat _) = Inl OverflowError"
| "py_int (JStr s) = (case int_of_text s of None \<Rightarrow> Inl ValueError | Some i \<Rightarrow> Inr i)"
| "py_int (JList _) = Inl TypeError"
| "py_int (JObj _) = Inl TypeError"
| "py_int JOpaque = Inl TypeError"

text \<open>\<open>repr\<close> of text: the quote is single unless only that quote occurs inside.\<close>

definition hex_char :: "nat \<Rightarrow> char" where
  "hex_char d = (if d < 10 then char_of (48 + d) else char_of (87 + d))"

definition repr_char :: "char \<Rightarrow> char \<Rightarrow> pystr" where
  "repr_char q c = (let n = (of_char c :: nat) in
     if c = q \<or> n = 92 then [char_of (92 :: nat), c]
     else if n = 10 then [char_of (92 :: nat), CHR ''n'']
     else if n = 13 then [char_of (92 :: nat), CHR ''r'']
     else if n = 9 then [char_of (92 :: nat), CHR ''t'']
     else if n < 32 \<or> (127 \<le> n \<and> n \<le> 160) \<or> n = 173
     then [char_of (92 :: nat), CHR ''x'', hex_char (n div 16), hex_char (n mod 16)]
     else [c])"

definition repr_text :: "pystr \<Rightarrow> pystr" where
  "repr_text s = (let sq = char_of (39 :: nat); dq = char_of (34 :: nat);
                      q = (if sq \<in> set s \<and> dq \<notin> set s then dq else sq)
                  in q # concat (map (repr_char q) s) @ [q])"

fun commas :: "pystr list \<Rightarrow> pystr" where
  "commas [] = []"
| "commas [s] = s"
| "commas (s # t # r) = s @ '', '' @ commas (t # r)"

fun py_repr :: "(pyfloat \<Rightarrow> pystr) \<Rightarrow> json \<Rightarrow> pystr" where
  "py_repr fr JNull = ''None''"
| "py_repr fr (JBool b) = (if b then ''True'' else ''False'')"
| "py_repr fr (JInt i) = int_text i"
| "py_repr fr (JFloat f) = fr f"
| "py_repr fr (JStr s) = repr_text s"
| "py_repr fr (JList xs) = ''['' @ commas (map (py_repr fr) xs) @ '']''"
| "py_repr fr (JObj kvs) =
     ''{'' @ commas (map (\<lambda>kv. repr_text (fst kv) @ '': '' @ py_repr fr (snd kv)) kvs) @ ''}''"
| "py_repr fr JOpaque = ''<object>''"

definition py_str :: "(pyfloat \<Rightarrow> pystr) \<Rightarrow> json \<Rightarrow> pystr" where
  "py_str fr v = (case v of JStr s \<Rightarrow> s | _ \<Rightarrow> py_repr fr v)"

text \<open>\<open>value.get(key, default)\<close> of a dict, and \<open>int(x or 0)\<close>.\<close>

type_synonym pydict = "(pystr \<times> json) list"

definition dict_get :: "pydict \<Rightarrow> pystr \<Rightarrow> json \<Rightarrow> json" where
  "dict_get d k dflt = (case map_of d k of None \<Rightarrow> dflt | Some v \<Rightarrow> v)"

definition int_or_zero :: "json \<Rightarrow> py_exc + int" where
  "int_or_zero v = py_int (if truthy v then v else JInt 0)"

text \<open>The idiom \<open>try: int(v or 0) except (TypeError, ValueError): 0\<close>; an \<open>OverflowError\<close> escapes.\<close>

definition guarded_int :: "json \<Rightarrow> py_exc + int" where
  "guarded_int v = (case int_or_zero v of
       Inr i \<Rightarrow> Inr i
     | Inl TypeError \<Rightarrow> Inr 0
     | Inl ValueError \<Rightarrow> Inr 0
     | Inl e \<Rightarrow> Inl e)"

text \<open>Whether \<open>json.dumps\<close> accepts the value.\<close>

fun serializable :: "json \<Rightarrow> bool" where
  "serializable (JList xs) = list_all serializable xs"
| "serializable (JObj kvs) = list_all (\<lambda>kv. serializable (snd kv)) kvs"
| "serializable JOpaque = False"
| "serializable _ = True"

fun is_obj :: "json \<Rightarrow> bool" where
  "is_obj (JObj _) = True"
| "is_obj _ = False"

lemma py_int_exc: "py_int v = Inl e \<Longrightarrow> e \<noteq> TypeError \<Longrightarrow> e \<noteq> ValueError \<Longrightarrow> v = JFloat PosInf \<or> v = JFloat NegInf"
  by (induction v rule: py_int.induct) (auto split: option.splits)

text \<open>The idiom is total except on the two infinities.\<close>

lemma guarded_int_total: "v \<noteq> JFloat PosInf \<Longrightarrow> v \<noteq> JFloat NegInf \<Longrightarrow> \<exists>i. guarded_int v = Inr i"
  using py_int_exc [of "if truthy v then v else JInt 0"]
  by (auto simp: guarded_int_def int_or_zero_def split: sum.splits py_exc.splits if_splits)

lemma guarded_int_inf: "guarded_int (JFloat PosInf) = Inl OverflowError" "guarded_int (JFloat NegInf) = Inl OverflowError"
  by (simp_all add: guarded_int_def int_or_zero_def)

end
