(* ===== verification/Models.thy ===== *)
theory Models
  imports PyJson
begin

text \<open>
  \<open>app/models.py\<close>: media items, updates and drafts, their JSON forms and the coercions of
  their constructors. A field the constructor does not coerce keeps the dynamic value it was
  given (\<^typ>\<open>json\<close>); a coerced one is typed. The rendering of floats and the RFC 2822 date
  parser of the standard library are the two fields of a \<open>pyenv\<close>, passed to the definitions
  that call them.
\<close>

record pyenv =
  float_text :: "pyfloat \<Rightarrow> pystr"
  rfc_date :: "pystr \<Rightarrow> (int \<times> int option) option"

section \<open>Instants from dynamic values\<close>

definition replace_Z :: "pystr \<Rightarrow> pystr" where
  "replace_Z s = concat (map (\<lambda>c. if c = CHR ''Z'' then ''+00:00'' else [c]) s)"

definition ensure_utc :: "pyenv \<Rightarrow> instant \<Rightarrow> json \<Rightarrow> py_exc + instant" where
  "ensure_utc env now v =
     (if truthy v then
        let raw = py_strip (py_str (float_text env) v)
        in case fromisoformat (replace_Z raw) of
             Some p \<Rightarrow> Inr (as_utc p)
           | None \<Rightarrow> (case rfc_date env raw of Some p \<Rightarrow> Inr (as_utc p) | None \<Rightarrow> Inl ValueError)
      else Inr now)"

section \<open>Media items\<close>

record media_item =
  kind :: json
  media_url :: json
  preview_url :: json
  bitrate :: json
  width :: json
  height :: json
  duration_ms :: json
  content_type :: json

text \<open>
  \<open>value.get(k, f.default)\<close> for every field: \<open>kind\<close> and \<open>url\<close> have no default, so what
  \<open>get\<close> falls back to is the sentinel \<open>dataclasses.MISSING\<close>.
\<close>

definition media_from_dict :: "pydict \<Rightarrow> media_item" where
  "media_from_dict d =
     \<lparr>kind = dict_get d ''kind'' JOpaque, media_url = dict_get d ''url'' JOpaque,
      preview_url = dict_get d ''preview_url'' (JStr []), bitrate = dict_get d ''bitrate'' (JInt 0),
      width = dict_get d ''width'' (JInt 0), height = dict_get d ''height'' (JInt 0),
      duration_ms = dict_get d ''duration_ms'' (JInt 0),
      content_type = dict_get d ''content_type'' (JStr [])\<rparr>"

definition media_to_json :: "media_item \<Rightarrow> json" where
  "media_to_json m = JObj
     [(''kind'', kind m), (''url'', media_url m), (''preview_url'', preview_url m),
      (''bitrate'', bitrate m), (''width'', width m), (''height'', height m),
      (''duration_ms'', duration_ms m), (''content_type'', content_type m)]"

text \<open>
  \<open>[MediaItem.from_dict(item) for item in v]\<close>: what iterates, and which items have \<open>get\<close>.
\<close>

fun media_items :: "json list \<Rightarrow> py_exc + media_item list" where
  "media_items [] = Inr []"
| "media_items (v # vs) =
     (case v of
        JObj d \<Rightarrow> (case media_items vs of Inl e \<Rightarrow> Inl e | Inr ms \<Rightarrow> Inr (media_from_dict d # ms))
      | _ \<Rightarrow> Inl AttributeError)"

definition media_list :: "json \<Rightarrow> py_exc + media_item list" where
  "media_list v = (case v of
       JList xs \<Rightarrow> media_items xs
     | JStr s \<Rightarrow> if s = [] then Inr [] else Inl AttributeError
     | JObj d \<Rightarrow> if d = [] then Inr [] else Inl AttributeError
     | _ \<Rightarrow> Inl TypeError)"

section \<open>Updates\<close>

record update =
  upd_id :: pystr
  url :: json
  author :: pystr
  author_name :: json
  body :: json
  created_at :: instant
  conversation_id :: pystr
  reply_to_id :: json
  quoted_id :: json
  quoted_text :: json
  quoted_author :: json
  quoted_media :: "media_item list"
  lang :: json
  media :: "media_item list"
  category :: json
  event_key :: json
  event_title :: json
  source_priority :: json
  is_reply :: json
  raw_query :: json

text \<open>\<open>Update.__post_init__\<close> on the raw values of the coerced fields.\<close>

definition status_url :: "pystr \<Rightarrow> pystr \<Rightarrow> pystr" where
  "status_url a i = ''https://x.com/'' @ a @ ''/status/'' @ i"

definition post_init :: "pyenv \<Rightarrow> json \<Rightarrow> json \<Rightarrow> json \<Rightarrow> update \<Rightarrow> py_exc + update" where
  "post_init env raw_id raw_author raw_conv u = (case raw_author of
       JStr a \<Rightarrow>
         (let auth = py_strip (py_lstrip_at a);
              i = py_str (float_text env) raw_id;
              conv = (if truthy raw_conv then py_str (float_text env) raw_conv else i)
          in Inr (u\<lparr>upd_id := i, author := auth, conversation_id := conv,
                    url := (if \<not> truthy (url u) \<and> auth \<noteq> [] \<and> i \<noteq> []
                            then JStr (status_url auth i) else url u)\<rparr>))
     | _ \<Rightarrow> Inl AttributeError)"

definition update_keys :: "pystr list" where
  "update_keys = [''id'', ''url'', ''author'', ''author_name'', ''text'', ''created_at'',
     ''conversation_id'', ''reply_to_id'', ''quoted_id'', ''quoted_text'', ''quoted_author'',
     ''quoted_media'', ''lang'', ''media'', ''category'', ''event_key'', ''event_title'',
     ''source_priority'', ''is_reply'', ''raw_query'']"

definition update_required :: "pystr list" where
  "update_required = [''id'', ''url'', ''author'', ''author_name'', ''text'']"

definition update_from_dict :: "pyenv \<Rightarrow> instant \<Rightarrow> pydict \<Rightarrow> py_exc + update" where
  "update_from_dict env now d =
     (case ensure_utc env now (dict_get d ''created_at'' JNull) of Inl e \<Rightarrow> Inl e | Inr t \<Rightarrow>
     (case media_list (dict_get d ''media'' (JList [])) of Inl e \<Rightarrow> Inl e | Inr ms \<Rightarrow>
     (case media_list (dict_get d ''quoted_media'' (JList [])) of Inl e \<Rightarrow> Inl e | Inr qms \<Rightarrow>
        if (\<forall>k \<in> set (map fst d). k \<in> set update_keys) \<and>
           (\<forall>k \<in> set update_required. k \<in> set (map fst d))
        then post_init env (dict_get d ''id'' JNull) (dict_get d ''author'' JNull)
               (dict_get d ''conversation_id'' (JStr []))
               \<lparr>upd_id = [], url = dict_get d ''url'' JNull, author = [],
                author_name = dict_get d ''author_name'' JNull, body = dict_get d ''text'' JNull,
                created_at = t, conversation_id = [],
                reply_to_id = dict_get d ''reply_to_id'' (JStr []),
                quoted_id = dict_get d ''quoted_id'' (JStr []),
                quoted_text = dict_get d ''quoted_text'' (JStr []),
                quoted_author = dict_get d ''quoted_author'' (JStr []),
                quoted_media = qms, lang = dict_get d ''lang'' (JStr []), media = ms,
                category = dict_get d ''category'' (JStr ''general''),
                event_key = dict_get d ''event_key'' (JStr []),
                event_title = dict_get d ''event_title'' (JStr []),
                source_priority = dict_get d ''source_priority'' (JInt 100),
                is_reply = dict_get d ''is_reply'' (JBool False),
                raw_query = dict_get d ''raw_query'' (JStr [])\<rparr>
        else Inl TypeError)))"

definition update_to_dict :: "update \<Rightarrow> pydict" where
  "update_to_dict u =
     [(''id'', JStr (upd_id u)), (''url'', url u), (''author'', JStr (author u)),
      (''author_name'', author_name u), (''text'', body u),
      (''created_at'', JStr (isoformat (created_at u))),
      (''conversation_id'', JStr (conversation_id u)), (''reply_to_id'', reply_to_id u),
      (''quoted_id'', quoted_id u), (''quoted_text'', quoted_text u),
      (''quoted_author'', quoted_author u),
      (''quoted_media'', JList (map media_to_json (quoted_media u))), (''lang'', lang u),
      (''media'', JList (map media_to_json (media u))), (''category'', category u),
      (''event_key'', event_key u), (''event_title'', event_title u),
      (''source_priority'', source_priority u), (''is_reply'', is_reply u),
      (''raw_query'', raw_query u)]"

text \<open>\<open>Update.translation_source\<close>; \<open>strip\<close> of a value that is no text is an \<open>AttributeError\<close>.\<close>

definition translation_source :: "pyenv \<Rightarrow> update \<Rightarrow> py_exc + pystr" where
  "translation_source env u = (case (body u, quoted_text u) of
       (JStr t, JStr q) \<Rightarrow>
         (let main = py_strip t; quoted = py_strip q
          in if quoted = [] then Inr main
             else let attribution = (if truthy (quoted_author u)
                    then ''@'' @ py_str (float_text env) (quoted_author u) @ '': '' else [])
                  in Inr (py_strip (main @ [CHR 0x0A, CHR 0x0A] @ ''[QUOTED POST]'' @ [CHR 0x0A] @ attribution @ quoted)))
     | _ \<Rightarrow> Inl AttributeError)"

section \<open>Drafts\<close>

record draft =
  dr_id :: json
  dr_update_id :: json
  dr_event_key :: json
  caption :: json
  mode :: json
  telegram_message_id :: json
  dr_created_at :: json

definition draft_to_dict :: "draft \<Rightarrow> pydict" where
  "draft_to_dict d =
     [(''id'', dr_id d), (''update_id'', dr_update_id d), (''event_key'', dr_event_key d),
      (''caption'', caption d), (''mode'', mode d),
      (''telegram_message_id'', telegram_message_id d), (''created_at'', dr_created_at d)]"

definition draft_from_dict :: "pydict \<Rightarrow> py_exc + draft" where
  "draft_from_dict d =
     (if (\<forall>k \<in> set (map fst d). k \<in> {''id'', ''update_id'', ''event_key'', ''caption'', ''mode'',
            ''telegram_message_id'', ''created_at''}) \<and>
         (\<forall>k \<in> {''id'', ''update_id'', ''event_key'', ''caption''}. k \<in> set (map fst d))
      then Inr \<lparr>dr_id = dict_get d ''id'' JNull, dr_update_id = dict_get d ''update_id'' JNull,
                dr_event_key = dict_get d ''event_key'' JNull, caption = dict_get d ''caption'' JNull,
                mode = dict_get d ''mode'' (JStr ''default''),
                telegram_message_id = dict_get d ''telegram_message_id'' JNull,
                dr_created_at = dict_get d ''created_at'' (JStr [])\<rparr>
      else Inl TypeError)"

section \<open>Event groups\<close>

record event_group =
  group_key :: pystr
  group_category :: pystr
  group_title :: pystr
  updates :: "update list"

text \<open>\<open>min\<close> and \<open>max\<close> raise \<open>ValueError\<close> on an empty group.\<close>

definition started_at :: "event_group \<Rightarrow> py_exc + instant" where
  "started_at g = (case map created_at (updates g) of [] \<Rightarrow> Inl ValueError | t # ts \<Rightarrow> Inr (fold min ts t))"

definition ended_at :: "event_group \<Rightarrow> py_exc + instant" where
  "ended_at g = (case map created_at (updates g) of [] \<Rightarrow> Inl ValueError | t # ts \<Rightarrow> Inr (fold max ts t))"

section \<open>Round trips and well-formedness\<close>

text \<open>What the constructor establishes, and what a reload needs in addition.\<close>

definition wf_update :: "update \<Rightarrow> bool" where
  "wf_update u \<longleftrightarrow> author u = py_strip (author u) \<and>
     (\<not> truthy (url u) \<longrightarrow> author u = [] \<or> upd_id u = [])"

definition reloadable :: "update \<Rightarrow> bool" where
  "reloadable u \<longleftrightarrow> py_lstrip_at (author u) = author u \<and> (conversation_id u = [] \<longrightarrow> upd_id u = [])"

lemma media_round_trip [simp]: "media_to_json m = JObj d \<Longrightarrow> media_from_dict d = m"
  by (auto simp: media_to_json_def media_from_dict_def dict_get_def)

lemma media_items_round_trip [simp]: "media_items (map media_to_json ms) = Inr ms"
  by (induction ms) (auto simp: media_to_json_def media_from_dict_def dict_get_def)

lemma replace_Z_stamp [simp]: "replace_Z (isoformat t) = isoformat t"
proof -
  have "\<forall>c \<in> set s. c \<noteq> CHR ''Z'' \<Longrightarrow> replace_Z s = s" for s
    by (induction s) (auto simp: replace_Z_def)
  then show ?thesis using isoformat_chars(1) stamp_char_plain by blast
qed

lemma ensure_utc_stamp:
  "valid_instant t \<Longrightarrow> ensure_utc env now (JStr (isoformat t)) = Inr t"
  by (simp add: ensure_utc_def py_str_def fromisoformat_isoformat as_utc_def)

lemma post_init_wf: "post_init env i a c u = Inr v \<Longrightarrow> wf_update v"
  by (auto simp: post_init_def wf_update_def Let_def status_url_def split: json.splits if_splits)

lemma from_dict_wf: "update_from_dict env now d = Inr u \<Longrightarrow> wf_update u"
  by (auto simp: update_from_dict_def split: sum.splits if_splits dest: post_init_wf)

lemma post_init_stable:
  assumes "wf_update u" "reloadable u"
  shows "post_init env (JStr (upd_id u)) (JStr (author u)) (JStr (conversation_id u)) u = Inr u"
  using assms by (auto simp: post_init_def wf_update_def reloadable_def py_str_def Let_def)

lemma update_round_trip:
  assumes "wf_update u" "reloadable u" "valid_instant (created_at u)"
  shows "update_from_dict env now (update_to_dict u) = Inr u"
proof -
  have get: "dict_get (update_to_dict u) ''created_at'' JNull = JStr (isoformat (created_at u))"
    "dict_get (update_to_dict u) ''media'' (JList []) = JList (map media_to_json (media u))"
    "dict_get (update_to_dict u) ''quoted_media'' (JList []) = JList (map media_to_json (quoted_media u))"
    by (simp_all add: dict_get_def update_to_dict_def)
  have keys: "map fst (update_to_dict u) = update_keys" by (simp add: update_to_dict_def update_keys_def)
  have req: "\<forall>k \<in> set update_required. k \<in> set update_keys"
    by (simp add: update_required_def update_keys_def)
  have rest: "post_init env (dict_get (update_to_dict u) ''id'' JNull)
      (dict_get (update_to_dict u) ''author'' JNull)
      (dict_get (update_to_dict u) ''conversation_id'' (JStr [])) (u\<lparr>upd_id := [], author := [], conversation_id := []\<rparr>) = Inr u"
    using assms(1,2)
    by (auto simp: dict_get_def update_to_dict_def post_init_def wf_update_def reloadable_def py_str_def Let_def)
  have eta: "u\<lparr>upd_id := a, author := b, conversation_id := c\<rparr> =
      \<lparr>upd_id = a, url = url u, author = b, author_name = author_name u, body = body u,
        created_at = created_at u, conversation_id = c, reply_to_id = reply_to_id u,
        quoted_id = quoted_id u, quoted_text = quoted_text u, quoted_author = quoted_author u,
        quoted_media = quoted_media u, lang = lang u, media = media u, category = category u,
        event_key = event_key u, event_title = event_title u, source_priority = source_priority u,
        is_reply = is_reply u, raw_query = raw_query u\<rparr>" for a b c
    by (cases u) simp
  show ?thesis
    unfolding update_from_dict_def get keys ensure_utc_stamp [OF assms(3)]
    using req rest by (simp add: media_list_def) (simp add: dict_get_def update_to_dict_def eta)
qed

text \<open>A constructed post of the calendar the bot lives in.\<close>

definition sound_post :: "update \<Rightarrow> bool" where
  "sound_post u \<longleftrightarrow> wf_update u \<and> reloadable u \<and> valid_instant (created_at u)"

lemma sound_round_trip: "sound_post u \<Longrightarrow> update_from_dict env now (update_to_dict u) = Inr u"
  by (simp add: sound_post_def update_round_trip)

lemma draft_round_trip: "draft_from_dict (draft_to_dict d) = Inr d"
  by (simp add: draft_from_dict_def draft_to_dict_def dict_get_def)

end
