(* ===== verification/StateStore.thy ===== *)
theory StateStore
  imports Models
begin

text \<open>
  \<open>app/state.py\<close>: the durable JSON state of the bot. \<open>state_data\<close> is \<open>StateStore.data\<close>
  after \<open>_normalize_loaded\<close> (which fixes the type of every field); nested values the
  loader does not check keep their dynamic type. A definition that can raise returns
  \<open>py_exc + \<dots>\<close>. The clock is the argument \<open>now\<close>.
\<close>

section \<open>The state and its file\<close>

record failure =
  fcount :: int
  last_failure_at :: pystr
  error_type :: pystr

record state_data =
  telegram_offset :: int
  telegram_failures :: "(pystr \<times> failure) list"
  last_auto_run :: pystr
  last_auto_attempt :: pystr
  fresh_start_since :: pystr
  fresh_start_run_id :: pystr
  fresh_start_tokens :: "pystr list"
  last_degraded_scan_at :: pystr
  last_x_error_notice :: pystr
  polling_mode_checked :: pystr
  translation_outage_notice :: pystr
  translation_retry_after :: pystr
  translation_outage_streak :: int
  x_scan_failure_streak :: int
  last_failed_sources :: "pystr list"
  last_scan_item_count :: int
  last_scan_group_count :: int
  last_group_failure_count :: int
  last_group_total_count :: int
  last_group_failure_at :: pystr
  seen :: pydict
  archive :: pydict
  sessions :: pydict
  drafts :: pydict
  awaiting :: pydict
  date_requests :: "pydict option"
  pending_delivery :: "pydict list"

definition fresh_state :: state_data where
  "fresh_state =
     \<lparr>telegram_offset = 0, telegram_failures = [], last_auto_run = [], last_auto_attempt = [],
      fresh_start_since = [], fresh_start_run_id = [], fresh_start_tokens = [],
      last_degraded_scan_at = [], last_x_error_notice = [], polling_mode_checked = [],
      translation_outage_notice = [], translation_retry_after = [], translation_outage_streak = 0,
      x_scan_failure_streak = 0, last_failed_sources = [], last_scan_item_count = 0,
      last_scan_group_count = 0, last_group_failure_count = 0, last_group_total_count = 0,
      last_group_failure_at = [], seen = [], archive = [], sessions = [], drafts = [],
      awaiting = [], date_requests = None, pending_delivery = []\<rparr>"

section \<open>Loading\<close>

definition last_n :: "nat \<Rightarrow> 'a list \<Rightarrow> 'a list" where
  "last_n n xs = drop (length xs - n) xs"

text \<open>\<open>str(raw) if isinstance(raw, (str, int, float)) else ""\<close>; \<open>bool\<close> is a subclass of \<open>int\<close>.\<close>

fun scalar_text :: "(pyfloat \<Rightarrow> pystr) \<Rightarrow> json \<Rightarrow> pystr" where
  "scalar_text fr (JStr s) = s"
| "scalar_text fr (JInt i) = py_str fr (JInt i)"
| "scalar_text fr (JBool b) = py_str fr (JBool b)"
| "scalar_text fr (JFloat f) = py_str fr (JFloat f)"
| "scalar_text fr _ = []"

definition text_key :: "(pyfloat \<Rightarrow> pystr) \<Rightarrow> pydict \<Rightarrow> pystr \<Rightarrow> pystr" where
  "text_key fr v k = scalar_text fr (dict_get v k (JStr []))"

definition dict_key :: "pydict \<Rightarrow> pystr \<Rightarrow> pydict \<Rightarrow> pydict" where
  "dict_key v k dflt = (case map_of v k of Some (JObj d) \<Rightarrow> d | _ \<Rightarrow> dflt)"

definition token_text :: "json \<Rightarrow> pystr option" where
  "token_text v = (case v of
       JStr s \<Rightarrow> if py_strip s = [] then None else Some (take 120 s)
     | JInt i \<Rightarrow> Some (take 120 (int_text i))
     | JBool b \<Rightarrow> Some (if b then ''True'' else ''False'')
     | _ \<Rightarrow> None)"

definition load_tokens :: "pydict \<Rightarrow> pystr \<Rightarrow> pystr list" where
  "load_tokens v legacy =
     (let toks = (case map_of v ''fresh_start_tokens'' of
                    Some (JList xs) \<Rightarrow> List.map_filter token_text (last_n 100 xs) | _ \<Rightarrow> [])
      in if legacy \<noteq> [] \<and> legacy \<notin> set toks then last_n 100 (toks @ [legacy]) else toks)"

definition clamp :: "int \<Rightarrow> int \<Rightarrow> int" where
  "clamp hi i = max 0 (min i hi)"

definition load_failure :: "(pyfloat \<Rightarrow> pystr) \<Rightarrow> pydict \<Rightarrow> py_exc + failure" where
  "load_failure fr raw =
     bindE (guarded_int (dict_get raw ''count'' (JInt 0))) (\<lambda>c.
       Inr \<lparr>fcount = clamp 100 c,
            last_failure_at = take 80 (py_str fr (dict_get raw ''last_failure_at'' (JStr []))),
            error_type = take 80 (py_str fr (dict_get raw ''error_type'' (JStr [])))\<rparr>)"

fun load_failures :: "(pyfloat \<Rightarrow> pystr) \<Rightarrow> pydict \<Rightarrow> py_exc + (pystr \<times> failure) list" where
  "load_failures fr [] = Inr []"
| "load_failures fr ((k, JObj raw) # r) =
     bindE (load_failure fr raw) (\<lambda>f. bindE (load_failures fr r) (\<lambda>fs. Inr ((k, f) # fs)))"
| "load_failures fr (_ # r) = load_failures fr r"

definition nonneg_key :: "pydict \<Rightarrow> pystr \<Rightarrow> py_exc + int" where
  "nonneg_key v k = bindE (guarded_int (dict_get v k (JInt 0))) (\<lambda>i. Inr (max 0 i))"

definition streak_key :: "pydict \<Rightarrow> pystr \<Rightarrow> py_exc + int" where
  "streak_key v k = bindE (guarded_int (dict_get v k (JInt 0))) (\<lambda>i. Inr (clamp 1000 i))"

fun obj_fields :: "json \<Rightarrow> pydict option" where
  "obj_fields (JObj d) = Some d"
| "obj_fields _ = None"

definition normalize_loaded :: "(pyfloat \<Rightarrow> pystr) \<Rightarrow> pydict \<Rightarrow> py_exc + state_data" where
  "normalize_loaded fr v =
     bindE (nonneg_key v ''telegram_offset'') (\<lambda>offset.
     bindE (streak_key v ''translation_outage_streak'') (\<lambda>outage.
     bindE (streak_key v ''x_scan_failure_streak'') (\<lambda>scanfail.
     bindE (case map_of v ''telegram_failures'' of
              Some (JObj d) \<Rightarrow> load_failures fr d | _ \<Rightarrow> Inr []) (\<lambda>fails.
     bindE (nonneg_key v ''last_scan_item_count'') (\<lambda>items.
     bindE (nonneg_key v ''last_scan_group_count'') (\<lambda>groups.
     bindE (nonneg_key v ''last_group_failure_count'') (\<lambda>gfail.
     bindE (nonneg_key v ''last_group_total_count'') (\<lambda>gtotal.
       Inr \<lparr>telegram_offset = offset, telegram_failures = fails,
            last_auto_run = text_key fr v ''last_auto_run'',
            last_auto_attempt = text_key fr v ''last_auto_attempt'',
            fresh_start_since = text_key fr v ''fresh_start_since'',
            fresh_start_run_id = text_key fr v ''fresh_start_run_id'',
            fresh_start_tokens = load_tokens v (text_key fr v ''fresh_start_run_id''),
            last_degraded_scan_at = text_key fr v ''last_degraded_scan_at'',
            last_x_error_notice = text_key fr v ''last_x_error_notice'',
            polling_mode_checked = text_key fr v ''polling_mode_checked'',
            translation_outage_notice = text_key fr v ''translation_outage_notice'',
            translation_retry_after = text_key fr v ''translation_retry_after'',
            translation_outage_streak = outage, x_scan_failure_streak = scanfail,
            last_failed_sources = (case map_of v ''last_failed_sources'' of
                Some (JList xs) \<Rightarrow> map (py_str fr) (take 10 xs) | _ \<Rightarrow> []),
            last_scan_item_count = items, last_scan_group_count = groups,
            last_group_failure_count = gfail, last_group_total_count = gtotal,
            last_group_failure_at = text_key fr v ''last_group_failure_at'',
            seen = dict_key v ''seen'' [], archive = dict_key v ''archive'' [],
            sessions = dict_key v ''sessions'' [], drafts = dict_key v ''drafts'' [],
            awaiting = dict_key v ''awaiting'' [],
            date_requests = (case map_of v ''date_requests'' of Some (JObj d) \<Rightarrow> Some d | _ \<Rightarrow> None),
            pending_delivery = (case map_of v ''pending_delivery'' of
                Some (JList xs) \<Rightarrow> List.map_filter obj_fields xs | _ \<Rightarrow> [])\<rparr>))))))))"

text \<open>
  The file the loader finds. A file that cannot be trusted is moved aside (\<open>renamed\<close> says
  whether that worked) and \<open>StateCorruptionError\<close> is raised; it is never overwritten.
\<close>

datatype state_file = NoFile | Unreadable | Malformed | Parsed json

datatype load_error = StateCorruption | Raised py_exc

definition quarantine :: "bool \<Rightarrow> state_file \<Rightarrow> state_file \<times> state_file option" where
  "quarantine renamed f = (if renamed then (NoFile, Some f) else (f, None))"

definition load_state ::
    "(pyfloat \<Rightarrow> pystr) \<Rightarrow> bool \<Rightarrow> state_file \<Rightarrow> (load_error + state_data) \<times> state_file \<times> state_file option" where
  "load_state fr renamed f = (case f of
       NoFile \<Rightarrow> (Inr fresh_state, f, None)
     | Parsed (JObj v) \<Rightarrow> (case normalize_loaded fr v of
           Inl e \<Rightarrow> (Inl (Raised e), f, None)
         | Inr st \<Rightarrow> (Inr st, f, None))
     | _ \<Rightarrow> (Inl StateCorruption, quarantine renamed f))"

section \<open>Operations\<close>

definition id_text :: "pyenv \<Rightarrow> pydict \<Rightarrow> json \<Rightarrow> pystr" where
  "id_text env item dflt = py_str (float_text env) (dict_get item ''id'' dflt)"

text \<open>\<open>apply_fresh_start\<close>: the new state and the number of discarded ids.\<close>

definition discarded_ids :: "pyenv \<Rightarrow> state_data \<Rightarrow> pystr list" where
  "discarded_ids env st =
     filter (\<lambda>i. i \<noteq> []) (map (\<lambda>item. py_strip (id_text env item (JStr []))) (pending_delivery st))"

definition apply_fresh_start ::
    "pyenv \<Rightarrow> pystr \<Rightarrow> instant \<Rightarrow> state_data \<Rightarrow> py_exc + (state_data \<times> nat)" where
  "apply_fresh_start env run_id now st =
     (let token = py_strip run_id in
      if token = [] then Inl ValueError
      else if token \<in> set (fresh_start_tokens st) \<or> fresh_start_run_id st = token then Inr (st, 0)
      else let stamp = isoformat now;
               ids = discarded_ids env st
           in Inr (st\<lparr>seen := fold (\<lambda>i. AList.update i (JStr stamp)) ids (seen st),
                      pending_delivery := [], last_auto_run := stamp, last_auto_attempt := stamp,
                      fresh_start_since := stamp, fresh_start_run_id := token,
                      fresh_start_tokens :=
                        last_n 100 (filter (\<lambda>t. t \<noteq> token) (fresh_start_tokens st) @ [token])\<rparr>,
                   card (set ids)))"

definition record_telegram_failure ::
    "int \<Rightarrow> pystr \<Rightarrow> instant \<Rightarrow> state_data \<Rightarrow> state_data \<times> int" where
  "record_telegram_failure update_id err now st =
     (let key = int_text update_id;
          count = (case map_of (telegram_failures st) key of None \<Rightarrow> 0 | Some f \<Rightarrow> fcount f) + 1
      in (st\<lparr>telegram_failures := AList.update key
               \<lparr>fcount = min count 100, last_failure_at = isoformat now,
                error_type = take 80 (or_default err ''Error'')\<rparr> (telegram_failures st)\<rparr>, count))"

definition clear_telegram_failure :: "int \<Rightarrow> state_data \<Rightarrow> state_data" where
  "clear_telegram_failure update_id st =
     st\<lparr>telegram_failures := AList.delete (int_text update_id) (telegram_failures st)\<rparr>"

definition telegram_failure_count :: "int \<Rightarrow> state_data \<Rightarrow> int" where
  "telegram_failure_count update_id st =
     (case map_of (telegram_failures st) (int_text update_id) of
        None \<Rightarrow> 0 | Some f \<Rightarrow> max 0 (fcount f))"

definition mark_seen :: "update \<Rightarrow> instant \<Rightarrow> state_data \<Rightarrow> state_data" where
  "mark_seen u now st =
     st\<lparr>seen := AList.update (upd_id u) (JStr (isoformat now)) (seen st),
        archive := AList.update (upd_id u) (JObj (update_to_dict u)) (archive st)\<rparr>"

definition is_seen :: "state_data \<Rightarrow> pystr \<Rightarrow> bool" where
  "is_seen st update_id \<longleftrightarrow> update_id \<in> set (map fst (seen st))"

definition archive_put :: "update \<Rightarrow> state_data \<Rightarrow> state_data" where
  "archive_put u st = st\<lparr>archive := AList.update (upd_id u) (JObj (update_to_dict u)) (archive st)\<rparr>"

text \<open>\<open>except (TypeError, ValueError): return None\<close>; any other exception escapes.\<close>

definition caught :: "py_exc \<Rightarrow> bool" where
  "caught e \<longleftrightarrow> e = TypeError \<or> e = ValueError"

definition get_update :: "pyenv \<Rightarrow> instant \<Rightarrow> pystr \<Rightarrow> state_data \<Rightarrow> py_exc + update option" where
  "get_update env now update_id st = (case map_of (archive st) update_id of
       Some (JObj d) \<Rightarrow> (case update_from_dict env now d of
           Inr u \<Rightarrow> Inr (Some u)
         | Inl e \<Rightarrow> if caught e then Inr None else Inl e)
     | _ \<Rightarrow> Inr None)"

definition create_session :: "pystr \<Rightarrow> pydict \<Rightarrow> instant \<Rightarrow> state_data \<Rightarrow> state_data" where
  "create_session session_id payload now st =
     st\<lparr>sessions := AList.update session_id
          (JObj (AList.update ''created_at'' (JStr (isoformat now)) payload)) (sessions st)\<rparr>"

definition get_session :: "pystr \<Rightarrow> state_data \<Rightarrow> pydict option" where
  "get_session session_id st =
     (case map_of (sessions st) session_id of Some (JObj d) \<Rightarrow> Some d | _ \<Rightarrow> None)"

text \<open>Draft ids are text; the model has no state whose draft table has another kind of key.\<close>

definition save_draft :: "draft \<Rightarrow> state_data \<Rightarrow> state_data option" where
  "save_draft d st = (case dr_id d of
       JStr i \<Rightarrow> Some (st\<lparr>drafts := AList.update i (JObj (draft_to_dict d)) (drafts st)\<rparr>)
     | _ \<Rightarrow> None)"

definition get_draft :: "pystr \<Rightarrow> state_data \<Rightarrow> draft option" where
  "get_draft draft_id st = (case map_of (drafts st) draft_id of
       Some (JObj d) \<Rightarrow> (case draft_from_dict d of Inr x \<Rightarrow> Some x | Inl _ \<Rightarrow> None)
     | _ \<Rightarrow> None)"

definition set_awaiting :: "int \<Rightarrow> pystr \<Rightarrow> state_data \<Rightarrow> state_data" where
  "set_awaiting user_id what st = st\<lparr>awaiting := AList.update (int_text user_id) (JStr what) (awaiting st)\<rparr>"

definition pop_awaiting :: "pyenv \<Rightarrow> int \<Rightarrow> state_data \<Rightarrow> pystr \<times> state_data" where
  "pop_awaiting env user_id st =
     (py_str (float_text env) (dict_get (awaiting st) (int_text user_id) (JStr [])),
      st\<lparr>awaiting := AList.delete (int_text user_id) (awaiting st)\<rparr>)"

section \<open>The delivery queue\<close>

definition queue_item :: "bool \<Rightarrow> update \<Rightarrow> pydict" where
  "queue_item force u = AList.update ''force'' (JBool force) (update_to_dict u)"

fun queue_loop :: "bool \<Rightarrow> pystr set \<Rightarrow> update list \<Rightarrow> pydict list \<Rightarrow> pydict list" where
  "queue_loop force existing [] pending = pending"
| "queue_loop force existing (u # us) pending =
     (if upd_id u \<in> existing then queue_loop force existing us pending
      else queue_loop force (insert (upd_id u) existing) us (pending @ [queue_item force u]))"

definition queue_updates :: "pyenv \<Rightarrow> bool \<Rightarrow> update list \<Rightarrow> state_data \<Rightarrow> state_data" where
  "queue_updates env force us st =
     st\<lparr>pending_delivery := queue_loop force
          (set (map (\<lambda>item. id_text env item JNull) (pending_delivery st))) us (pending_delivery st)\<rparr>"

text \<open>
  \<open>pop_pending\<close> scans the whole queue: entries already seen are dropped, so are entries the
  constructor rejects with \<open>TypeError\<close> or \<open>ValueError\<close>; every other entry stays, and the
  first \<open>limit\<close> of them are returned. The queue is written back only when the scan ends.
\<close>

definition decode_item :: "pyenv \<Rightarrow> instant \<Rightarrow> pydict \<Rightarrow> py_exc + (update \<times> bool)" where
  "decode_item env now item =
     bindE (update_from_dict env now (AList.delete ''force'' item)) (\<lambda>u.
       Inr (u, truthy (dict_get item ''force'' (JBool False))))"

definition skips :: "pyenv \<Rightarrow> state_data \<Rightarrow> pydict \<Rightarrow> bool" where
  "skips env st item \<longleftrightarrow>
     (let i = id_text env item (JStr []) in i \<noteq> [] \<and> is_seen st i)"

fun pop_loop :: "pyenv \<Rightarrow> instant \<Rightarrow> state_data \<Rightarrow> nat \<Rightarrow> pydict list \<Rightarrow>
    py_exc + (pydict list \<times> (update \<times> bool) list)" where
  "pop_loop env now st room [] = Inr ([], [])"
| "pop_loop env now st room (item # queue) =
     (if skips env st item then pop_loop env now st room queue
      else case decode_item env now item of
        Inl e \<Rightarrow> if caught e then pop_loop env now st room queue else Inl e
      | Inr r \<Rightarrow> bindE (pop_loop env now st (room - 1) queue) (\<lambda>(remaining, result).
          Inr (item # remaining, if 0 < room then r # result else result)))"

definition pop_pending :: "pyenv \<Rightarrow> instant \<Rightarrow> int \<Rightarrow> state_data \<Rightarrow>
    py_exc + ((update \<times> bool) list \<times> state_data)" where
  "pop_pending env now limit st =
     bindE (pop_loop env now st (nat limit) (pending_delivery st)) (\<lambda>(remaining, result).
       Inr (result, st\<lparr>pending_delivery := remaining\<rparr>))"

section \<open>Pruning and saving\<close>

definition parse_dt :: "pyenv \<Rightarrow> json \<Rightarrow> instant" where
  "parse_dt env v = (case fromisoformat (replace_Z (py_str (float_text env) v)) of
       None \<Rightarrow> 0 | Some p \<Rightarrow> as_utc p)"

definition days :: "int \<Rightarrow> int" where "days n = n * us_per_day"

text \<open>The newest \<open>n\<close> object entries by the text of \<open>created_at\<close> (a stable descending sort).\<close>

definition newest :: "pyenv \<Rightarrow> nat \<Rightarrow> pydict \<Rightarrow> pydict" where
  "newest env n t =
     take n (rev (sort_key (\<lambda>(k, v). case v of
         JObj d \<Rightarrow> py_str (float_text env) (dict_get d ''created_at'' (JStr [])) | _ \<Rightarrow> [])
       (rev (filter (\<lambda>(k, v). is_obj v) t))))"

definition prune :: "pyenv \<Rightarrow> instant \<Rightarrow> state_data \<Rightarrow> state_data" where
  "prune env now st = st\<lparr>
     seen := filter (\<lambda>(k, v). now - days 45 \<le> parse_dt env v) (seen st),
     sessions := filter (\<lambda>(k, v). case v of
         JObj d \<Rightarrow> now - days 2 \<le> parse_dt env (dict_get d ''created_at'' (JStr [])) | _ \<Rightarrow> False)
       (sessions st),
     telegram_failures := filter (\<lambda>(k, f). now - days 2 \<le> parse_dt env (JStr (last_failure_at f)))
       (telegram_failures st),
     archive := (if 30000 < length (archive st) then newest env 30000 (archive st) else archive st),
     drafts := (if 3000 < length (drafts st) then newest env 3000 (drafts st) else drafts st)\<rparr>"

text \<open>\<open>save\<close>: prune, encode (\<open>TypeError\<close> on a value \<open>json.dumps\<close> refuses), replace the file.\<close>

definition failure_json :: "failure \<Rightarrow> json" where
  "failure_json f = JObj [(''count'', JInt (fcount f)), (''last_failure_at'', JStr (last_failure_at f)),
     (''error_type'', JStr (error_type f))]"

definition state_to_dict :: "state_data \<Rightarrow> pydict" where
  "state_to_dict st =
     [(''schema'', JInt 4), (''telegram_offset'', JInt (telegram_offset st)),
      (''telegram_failures'', JObj (map (\<lambda>(k, f). (k, failure_json f)) (telegram_failures st))),
      (''last_auto_run'', JStr (last_auto_run st)),
      (''last_auto_attempt'', JStr (last_auto_attempt st)),
      (''fresh_start_since'', JStr (fresh_start_since st)),
      (''fresh_start_run_id'', JStr (fresh_start_run_id st)),
      (''fresh_start_tokens'', JList (map JStr (fresh_start_tokens st))),
      (''last_degraded_scan_at'', JStr (last_degraded_scan_at st)),
      (''last_x_error_notice'', JStr (last_x_error_notice st)),
      (''polling_mode_checked'', JStr (polling_mode_checked st)),
      (''translation_outage_notice'', JStr (translation_outage_notice st)),
      (''translation_retry_after'', JStr (translation_retry_after st)),
      (''translation_outage_streak'', JInt (translation_outage_streak st)),
      (''x_scan_failure_streak'', JInt (x_scan_failure_streak st)),
      (''last_failed_sources'', JList (map JStr (last_failed_sources st))),
      (''last_scan_item_count'', JInt (last_scan_item_count st)),
      (''last_scan_group_count'', JInt (last_scan_group_count st)),
      (''last_group_failure_count'', JInt (last_group_failure_count st)),
      (''last_group_total_count'', JInt (last_group_total_count st)),
      (''last_group_failure_at'', JStr (last_group_failure_at st)),
      (''seen'', JObj (seen st)), (''archive'', JObj (archive st)), (''sessions'', JObj (sessions st)),
      (''drafts'', JObj (drafts st)), (''awaiting'', JObj (awaiting st)),
      (''pending_delivery'', JList (map JObj (pending_delivery st)))]
     @ (case date_requests st of None \<Rightarrow> [] | Some d \<Rightarrow> [(''date_requests'', JObj d)])"

definition save :: "pyenv \<Rightarrow> instant \<Rightarrow> state_data \<Rightarrow> state_file \<Rightarrow>
    (py_exc + unit) \<times> state_data \<times> state_file" where
  "save env now st f =
     (let st' = prune env now st; v = JObj (state_to_dict st')
      in if serializable v then (Inr (), st', Parsed v) else (Inl TypeError, st', f))"

section \<open>Well-formed states and their round trip\<close>

text \<open>The bounds \<open>_normalize_loaded\<close> enforces.\<close>

definition wf_state :: "state_data \<Rightarrow> bool" where
  "wf_state st \<longleftrightarrow>
     0 \<le> telegram_offset st \<and>
     (\<forall>(k, f) \<in> set (telegram_failures st). 0 \<le> fcount f \<and> fcount f \<le> 100 \<and>
        length (last_failure_at f) \<le> 80 \<and> length (error_type f) \<le> 80) \<and>
     0 \<le> translation_outage_streak st \<and> translation_outage_streak st \<le> 1000 \<and>
     0 \<le> x_scan_failure_streak st \<and> x_scan_failure_streak st \<le> 1000 \<and>
     length (last_failed_sources st) \<le> 10 \<and>
     0 \<le> last_scan_item_count st \<and> 0 \<le> last_scan_group_count st \<and>
     0 \<le> last_group_failure_count st \<and> 0 \<le> last_group_total_count st \<and>
     length (fresh_start_tokens st) \<le> 100 \<and>
     (fresh_start_run_id st \<noteq> [] \<longrightarrow> fresh_start_run_id st \<in> set (fresh_start_tokens st))"

text \<open>
  What the loader makes of the tokens of a fresh start: blank ones are dropped and the others cut to
  120 characters, and the run id is appended again when no token is equal to it any more.
\<close>

definition reloaded_tokens :: "state_data \<Rightarrow> pystr list" where
  "reloaded_tokens st =
     (let toks = map (take 120) (filter (\<lambda>t. py_strip t \<noteq> []) (fresh_start_tokens st)); run = fresh_start_run_id st
      in if run \<noteq> [] \<and> run \<notin> set toks then last_n 100 (toks @ [run]) else toks)"

definition reloaded :: "state_data \<Rightarrow> state_data" where
  "reloaded st = st\<lparr>fresh_start_tokens := reloaded_tokens st\<rparr>"

lemma length_last_n [simp]: "length (last_n n xs) = min n (length xs)"
  by (auto simp: last_n_def)

lemma last_n_all [simp]: "length xs \<le> n \<Longrightarrow> last_n n xs = xs"
  by (simp add: last_n_def)

lemma last_n_snoc: "0 < n \<Longrightarrow> x \<in> set (last_n n (xs @ [x]))"
  by (auto simp: last_n_def)

lemma length_map_filter: "length (List.map_filter f xs) \<le> length xs"
  by (induction xs) (auto simp: map_filter_simps split: option.split)

lemma load_tokens_wf: "length (load_tokens v l) \<le> 100" "l \<noteq> [] \<Longrightarrow> l \<in> set (load_tokens v l)"
proof -
  have "length (List.map_filter token_text (last_n 100 xs)) \<le> 100" for xs
    using length_map_filter [of token_text "last_n 100 xs"] by simp
  then show "length (load_tokens v l) \<le> 100"
    by (auto simp: load_tokens_def Let_def split: option.split json.split)
  show "l \<noteq> [] \<Longrightarrow> l \<in> set (load_tokens v l)"
    by (auto simp: load_tokens_def Let_def last_n_snoc)
qed

lemma load_failures_wf:
  "load_failures fr d = Inr fs \<Longrightarrow> (k, f) \<in> set fs \<Longrightarrow> 0 \<le> fcount f \<and> fcount f \<le> 100 \<and>
     length (last_failure_at f) \<le> 80 \<and> length (error_type f) \<le> 80"
  by (induction fr d arbitrary: fs rule: load_failures.induct)
     (auto simp: bindE_Inr load_failure_def clamp_def)

lemma key_bounds:
  "nonneg_key v k = Inr i \<Longrightarrow> 0 \<le> i" "streak_key v k = Inr i \<Longrightarrow> 0 \<le> i \<and> i \<le> 1000"
  by (auto simp: nonneg_key_def streak_key_def bindE_Inr clamp_def)

lemma failed_sources_bound:
  "length (case m of Some (JList xs) \<Rightarrow> map f (take 10 xs) | _ \<Rightarrow> []) \<le> 10"
  by (simp split: option.split json.split)

lemma normalize_wf:
  assumes "normalize_loaded fr v = Inr st"
  shows "wf_state st"
proof -
  let ?fails = "case map_of v ''telegram_failures'' of Some (JObj d) \<Rightarrow> load_failures fr d | _ \<Rightarrow> Inr []"
  from assms obtain a b c d e f g h where nums:
      "nonneg_key v ''telegram_offset'' = Inr a" "streak_key v ''translation_outage_streak'' = Inr b"
      "streak_key v ''x_scan_failure_streak'' = Inr c" "?fails = Inr d"
      "nonneg_key v ''last_scan_item_count'' = Inr e" "nonneg_key v ''last_scan_group_count'' = Inr f"
      "nonneg_key v ''last_group_failure_count'' = Inr g" "nonneg_key v ''last_group_total_count'' = Inr h"
    and st: "telegram_offset st = a" "translation_outage_streak st = b" "x_scan_failure_streak st = c"
      "telegram_failures st = d" "last_scan_item_count st = e" "last_scan_group_count st = f"
      "last_group_failure_count st = g" "last_group_total_count st = h"
      "last_failed_sources st = (case map_of v ''last_failed_sources'' of
          Some (JList xs) \<Rightarrow> map (py_str fr) (take 10 xs) | _ \<Rightarrow> [])"
      "fresh_start_tokens st = load_tokens v (text_key fr v ''fresh_start_run_id'')"
      "fresh_start_run_id st = text_key fr v ''fresh_start_run_id''"
    unfolding normalize_loaded_def bindE_Inr by fastforce
  have "0 \<le> fcount x \<and> fcount x \<le> 100 \<and> length (last_failure_at x) \<le> 80 \<and> length (error_type x) \<le> 80"
    if "(k, x) \<in> set d" for k x
    using nums(4) that by (auto dest: load_failures_wf split: option.splits json.splits)
  with key_bounds(1) [OF nums(1)] key_bounds(2) [OF nums(2)] key_bounds(2) [OF nums(3)]
    key_bounds(1) [OF nums(5)] key_bounds(1) [OF nums(6)] key_bounds(1) [OF nums(7)]
    key_bounds(1) [OF nums(8)] show ?thesis
    unfolding wf_state_def st using load_tokens_wf failed_sources_bound by auto
qed

lemma py_str_JStr [simp]: "py_str fr (JStr s) = s"
  by (simp add: py_str_def)

lemma guarded_int_JInt [simp]: "guarded_int (JInt i) = Inr i"
  by (simp add: guarded_int_def int_or_zero_def)

lemma map_filter_map_Some: "(\<And>x. x \<in> set xs \<Longrightarrow> f (g x) = Some x) \<Longrightarrow> List.map_filter f (map g xs) = xs"
  by (induction xs) (auto simp: map_filter_simps)

lemma load_failures_round_trip:
  "(\<forall>(k, f) \<in> set fs. 0 \<le> fcount f \<and> fcount f \<le> 100 \<and>
      length (last_failure_at f) \<le> 80 \<and> length (error_type f) \<le> 80) \<Longrightarrow>
   load_failures fr (map (\<lambda>(k, f). (k, failure_json f)) fs) = Inr fs"
  by (induction fs) (auto simp: failure_json_def load_failure_def dict_get_def clamp_def)

lemma load_tokens_reloaded:
  assumes "length (fresh_start_tokens st) \<le> 100" "map_of v ''fresh_start_tokens'' = Some (JList (map JStr (fresh_start_tokens st)))"
  shows "load_tokens v (fresh_start_run_id st) = reloaded_tokens st"
proof -
  have "List.map_filter token_text (map JStr ts) = map (take 120) (filter (\<lambda>t. py_strip t \<noteq> []) ts)" for ts
    by (induction ts) (simp_all add: map_filter_simps token_text_def)
  with assms show ?thesis by (simp add: load_tokens_def reloaded_tokens_def Let_def)
qed

lemma reloaded_stable:
  assumes "wf_state st" "\<forall>t \<in> set (fresh_start_tokens st). py_strip t \<noteq> [] \<and> length t \<le> 120"
  shows "reloaded st = st"
proof -
  have "map (take 120) (filter (\<lambda>t. py_strip t \<noteq> []) (fresh_start_tokens st)) = fresh_start_tokens st"
    using assms(2) by (auto intro!: map_idI simp: filter_id_conv)
  with assms(1) have "reloaded_tokens st = fresh_start_tokens st" by (auto simp: reloaded_tokens_def Let_def wf_state_def)
  then show ?thesis by (simp add: reloaded_def)
qed

lemma state_round_trip:
  assumes "wf_state st"
  shows "normalize_loaded fr (state_to_dict st) = Inr (reloaded st)"
proof -
  let ?v = "state_to_dict st"
  have m [simp]: "map_of ?v ''telegram_failures'' =
        Some (JObj (map (\<lambda>(k, f). (k, failure_json f)) (telegram_failures st)))"
      "map_of ?v ''fresh_start_tokens'' = Some (JList (map JStr (fresh_start_tokens st)))"
      "map_of ?v ''last_failed_sources'' = Some (JList (map JStr (last_failed_sources st)))"
      "map_of ?v ''seen'' = Some (JObj (seen st))" "map_of ?v ''archive'' = Some (JObj (archive st))"
      "map_of ?v ''sessions'' = Some (JObj (sessions st))" "map_of ?v ''drafts'' = Some (JObj (drafts st))"
      "map_of ?v ''awaiting'' = Some (JObj (awaiting st))"
      "map_of ?v ''pending_delivery'' = Some (JList (map JObj (pending_delivery st)))"
      "map_of ?v ''date_requests'' = map_option JObj (date_requests st)"
    by (simp_all add: state_to_dict_def split: option.split)
  have t [simp]: "text_key fr ?v ''last_auto_run'' = last_auto_run st"
      "text_key fr ?v ''last_auto_attempt'' = last_auto_attempt st"
      "text_key fr ?v ''fresh_start_since'' = fresh_start_since st"
      "text_key fr ?v ''fresh_start_run_id'' = fresh_start_run_id st"
      "text_key fr ?v ''last_degraded_scan_at'' = last_degraded_scan_at st"
      "text_key fr ?v ''last_x_error_notice'' = last_x_error_notice st"
      "text_key fr ?v ''polling_mode_checked'' = polling_mode_checked st"
      "text_key fr ?v ''translation_outage_notice'' = translation_outage_notice st"
      "text_key fr ?v ''translation_retry_after'' = translation_retry_after st"
      "text_key fr ?v ''last_group_failure_at'' = last_group_failure_at st"
    by (simp_all add: state_to_dict_def text_key_def dict_get_def)
  have n [simp]: "nonneg_key ?v ''telegram_offset'' = Inr (telegram_offset st)"
      "streak_key ?v ''translation_outage_streak'' = Inr (translation_outage_streak st)"
      "streak_key ?v ''x_scan_failure_streak'' = Inr (x_scan_failure_streak st)"
      "nonneg_key ?v ''last_scan_item_count'' = Inr (last_scan_item_count st)"
      "nonneg_key ?v ''last_scan_group_count'' = Inr (last_scan_group_count st)"
      "nonneg_key ?v ''last_group_failure_count'' = Inr (last_group_failure_count st)"
      "nonneg_key ?v ''last_group_total_count'' = Inr (last_group_total_count st)"
    using assms
    by (simp_all add: state_to_dict_def nonneg_key_def streak_key_def dict_get_def wf_state_def clamp_def)
  have f [simp]: "load_failures fr (map (\<lambda>(k, f). (k, failure_json f)) (telegram_failures st))
      = Inr (telegram_failures st)"
    using assms by (intro load_failures_round_trip) (simp add: wf_state_def)
  have tok [simp]: "load_tokens ?v (fresh_start_run_id st) = reloaded_tokens st"
    using assms by (intro load_tokens_reloaded) (simp_all add: wf_state_def)
  have src [simp]: "map (py_str fr) (take 10 (map JStr (last_failed_sources st))) = last_failed_sources st"
    using assms by (simp add: wf_state_def comp_def)
  have pend [simp]: "List.map_filter obj_fields (map JObj (pending_delivery st)) = pending_delivery st"
    by (rule map_filter_map_Some) simp
  show ?thesis
    unfolding normalize_loaded_def
    by (cases "date_requests st")
      (auto simp add: dict_key_def reloaded_def simp del: map_map take_map intro!: state_data.equality)
qed

section \<open>The delivery queue: what a scan keeps and returns\<close>

definition keeps :: "pyenv \<Rightarrow> instant \<Rightarrow> state_data \<Rightarrow> pydict \<Rightarrow> bool" where
  "keeps env now st item \<longleftrightarrow> \<not> skips env st item \<and> (\<exists>r. decode_item env now item = Inr r)"

lemma pop_loop_spec:
  "pop_loop env now st room queue = Inr (remaining, result) \<Longrightarrow>
     remaining = filter (keeps env now st) queue \<and>
     map Inr result = map (decode_item env now) (take room remaining)"
proof (induction env now st room queue arbitrary: remaining result rule: pop_loop.induct)
  case (2 env now st room item queue)
  show ?case
  proof (cases "skips env st item")
    case True
    with 2 show ?thesis by (simp add: keeps_def)
  next
    case unskipped: False
    show ?thesis
    proof (cases "decode_item env now item")
      case (Inl e)
      with 2 unskipped show ?thesis by (auto simp: keeps_def split: if_splits)
    next
      case (Inr r)
      with 2(4) unskipped obtain rem' res' where rest: "pop_loop env now st (room - 1) queue = Inr (rem', res')"
        and eqs: "remaining = item # rem'" "result = (if 0 < room then r # res' else res')"
        by (auto simp: bindE_Inr)
      from 2(3) [OF unskipped Inr rest] eqs Inr unskipped show ?thesis
        by (cases room) (auto simp: keeps_def)
    qed
  qed
qed simp

lemma pop_loop_blocked:
  assumes "item \<in> set queue" "\<not> skips env st item" "decode_item env now item = Inl e" "\<not> caught e"
  shows "\<exists>e'. pop_loop env now st room queue = Inl e' \<and> \<not> caught e'"
  using assms
proof (induction env now st room queue rule: pop_loop.induct)
  case (2 env now st room item' queue)
  then show ?case by (cases "item = item'") (auto split: sum.split)
qed simp

lemma dict_get_delete_other: "k \<noteq> k' \<Longrightarrow> dict_get (AList.delete k' d) k v = dict_get d k v"
  by (simp add: dict_get_def delete_conv)

lemma post_init_id: "post_init env i a c u = Inr v \<Longrightarrow> upd_id v = py_str (float_text env) i"
  by (auto simp: post_init_def Let_def split: json.splits)

lemma from_dict_id: "update_from_dict env now d = Inr u \<Longrightarrow> upd_id u = id_text env d dflt"
proof -
  assume a: "update_from_dict env now d = Inr u"
  then have "''id'' \<in> set (map fst d)"
    by (auto simp: update_from_dict_def update_required_def split: sum.splits if_splits)
  then obtain v where "map_of d ''id'' = Some v" by (metis list.set_map map_of_eq_None_iff not_Some_eq)
  moreover from a have "upd_id u = py_str (float_text env) (dict_get d ''id'' JNull)"
    by (auto simp: update_from_dict_def dest!: post_init_id split: sum.splits if_splits)
  ultimately show ?thesis by (simp add: id_text_def dict_get_def)
qed

lemma decode_item_id: "decode_item env now item = Inr (u, f) \<Longrightarrow> upd_id u = id_text env item dflt"
  by (auto simp: decode_item_def bindE_Inr id_text_def dict_get_delete_other
      dest!: from_dict_id [where dflt = dflt])

lemma pop_returns_unseen:
  assumes "pop_pending env now limit st = Inr (result, st')" "(u, f) \<in> set result" "upd_id u \<noteq> []"
  shows "\<not> is_seen st (upd_id u)"
proof -
  from assms(1) obtain rem where l: "pop_loop env now st (nat limit) (pending_delivery st) = Inr (rem, result)"
    by (auto simp: pop_pending_def bindE_Inr)
  from assms(2) have "Inr (u, f) \<in> set (map Inr result)" by force
  with pop_loop_spec [OF l] obtain item where "item \<in> set rem" "decode_item env now item = Inr (u, f)"
    by (metis (no_types, lifting) imageE in_set_takeD list.set_map)
  with pop_loop_spec [OF l] have "\<not> skips env st item" "upd_id u = id_text env item (JStr [])"
    by (auto simp: keeps_def dest: decode_item_id)
  with assms(3) show ?thesis by (simp add: skips_def)
qed

lemma queue_item_get:
  "AList.delete ''force'' (queue_item force u) = update_to_dict u"
  "dict_get (queue_item force u) ''force'' (JBool False) = JBool force"
  "id_text env (queue_item force u) dflt = upd_id u"
  by (simp_all add: queue_item_def update_to_dict_def dict_get_def id_text_def)

lemma decode_queue_item:
  "wf_update u \<Longrightarrow> reloadable u \<Longrightarrow> valid_instant (created_at u) \<Longrightarrow>
     decode_item env now (queue_item force u) = Inr (u, force)"
  by (simp add: decode_item_def queue_item_get update_round_trip)

lemma queue_loop_append: "\<exists>added. queue_loop force ex us pending = pending @ added \<and> set added \<subseteq> queue_item force ` set us"
proof (induction force ex us pending rule: queue_loop.induct)
  case (2 force ex u us pending)
  show ?case
  proof (cases "upd_id u \<in> ex")
    case True
    with 2 show ?thesis by (fastforce simp: subset_iff)
  next
    case False
    with 2 obtain added where "queue_loop force (insert (upd_id u) ex) us (pending @ [queue_item force u])
        = (pending @ [queue_item force u]) @ added" "set added \<subseteq> queue_item force ` set us" by blast
    with False show ?thesis by (intro exI [of _ "queue_item force u # added"]) auto
  qed
qed simp

lemma queue_loop_ids:
  "set (map (\<lambda>i. id_text env i JNull) pending) = ex \<Longrightarrow> distinct (map (\<lambda>i. id_text env i JNull) pending) \<Longrightarrow>
     distinct (map (\<lambda>i. id_text env i JNull) (queue_loop force ex us pending)) \<and>
     set (map (\<lambda>i. id_text env i JNull) (queue_loop force ex us pending)) = ex \<union> upd_id ` set us"
proof (induction us arbitrary: ex pending)
  case (Cons u us)
  show ?case
  proof (cases "upd_id u \<in> ex")
    case True
    with Cons.IH [OF Cons.prems] show ?thesis by (simp add: insert_absorb del: set_map)
  next
    case False
    have "set (map (\<lambda>i. id_text env i JNull) (pending @ [queue_item force u])) = insert (upd_id u) ex"
      "distinct (map (\<lambda>i. id_text env i JNull) (pending @ [queue_item force u]))"
      using Cons.prems False by (auto simp: queue_item_get)
    from Cons.IH [OF this] False show ?thesis by (simp del: set_map)
  qed
qed simp

lemma queue_loop_fresh:
  "distinct (map upd_id us) \<Longrightarrow> upd_id ` set us \<inter> ex = {} \<Longrightarrow>
     queue_loop force ex us pending = pending @ map (queue_item force) us"
  by (induction us arbitrary: ex pending) auto

section \<open>Every operation keeps the bounds\<close>

datatype state_op =
    SetOffset nat
  | FreshStart pystr instant
  | RecordFailure int pystr instant
  | ClearFailure int
  | MarkSeen update instant
  | ArchivePut update
  | CreateSession pystr pydict instant
  | SaveDraft draft
  | SetAwaiting int pystr
  | PopAwaiting int
  | QueueUpdates bool "update list"
  | PopPending instant int
  | Prune instant

definition set_offset :: "int \<Rightarrow> state_data \<Rightarrow> state_data" where
  "set_offset v st = st\<lparr>telegram_offset := v\<rparr>"

text \<open>The state after a call; a call that raises leaves it as it was.\<close>

fun state_step :: "pyenv \<Rightarrow> state_op \<Rightarrow> state_data \<Rightarrow> state_data" where
  "state_step env (SetOffset n) st = set_offset (int n) st"
| "state_step env (FreshStart run now) st =
     (case apply_fresh_start env run now st of Inl e \<Rightarrow> st | Inr (st', n) \<Rightarrow> st')"
| "state_step env (RecordFailure i err now) st = fst (record_telegram_failure i err now st)"
| "state_step env (ClearFailure i) st = clear_telegram_failure i st"
| "state_step env (MarkSeen u now) st = mark_seen u now st"
| "state_step env (ArchivePut u) st = archive_put u st"
| "state_step env (CreateSession i d now) st = create_session i d now st"
| "state_step env (SaveDraft d) st = (case save_draft d st of None \<Rightarrow> st | Some st' \<Rightarrow> st')"
| "state_step env (SetAwaiting i k) st = set_awaiting i k st"
| "state_step env (PopAwaiting i) st = snd (pop_awaiting env i st)"
| "state_step env (QueueUpdates force us) st = queue_updates env force us st"
| "state_step env (PopPending now limit) st =
     (case pop_pending env now limit st of Inl e \<Rightarrow> st | Inr (res, st') \<Rightarrow> st')"
| "state_step env (Prune now) st = prune env now st"

lemma length_isoformat: "length (isoformat t) \<le> 32"
  by (simp add: isoformat_def)

lemma set_AList_update: "(k, v) \<in> set (AList.update a b al) \<Longrightarrow> (k, v) = (a, b) \<or> (k, v) \<in> set al"
  by (induction al) (auto split: if_splits)

lemma set_AList_delete: "set (AList.delete a al) \<subseteq> set al"
  by (auto simp: AList.delete_eq)

lemma fresh_start_wf: "wf_state st \<Longrightarrow> apply_fresh_start env run now st = Inr (st', n) \<Longrightarrow> wf_state st'"
  by (auto simp: apply_fresh_start_def wf_state_def Let_def last_n_snoc split: if_splits)

lemma record_failure_wf: "wf_state st \<Longrightarrow> wf_state (fst (record_telegram_failure i err now st))"
  using length_isoformat [of now]
  by (fastforce simp: record_telegram_failure_def wf_state_def Let_def dest!: set_AList_update
      map_of_SomeD split: option.split)

lemma pop_pending_frame:
  "pop_pending env now limit st = Inr (res, st') \<Longrightarrow> \<exists>q. st' = st\<lparr>pending_delivery := q\<rparr>"
  by (auto simp: pop_pending_def bindE_Inr)

lemma state_step_wf: "wf_state st \<Longrightarrow> wf_state (state_step env op st)"
proof (cases op)
  case (FreshStart run now)
  assume "wf_state st"
  then show ?thesis unfolding FreshStart
    by (auto split: sum.split dest: fresh_start_wf)
next
  case (RecordFailure i err now)
  assume "wf_state st"
  then show ?thesis unfolding RecordFailure by (simp add: record_failure_wf)
next
  case (ClearFailure i)
  assume "wf_state st"
  then show ?thesis unfolding ClearFailure
    using set_AList_delete [of "int_text i" "telegram_failures st"]
    by (auto simp: clear_telegram_failure_def wf_state_def)
next
  case (PopPending now limit)
  assume "wf_state st"
  then show ?thesis unfolding PopPending
    by (auto simp: wf_state_def split: sum.split dest!: pop_pending_frame)
next
  case (Prune now)
  assume "wf_state st"
  then show ?thesis unfolding Prune by (auto simp: prune_def wf_state_def)
next
  case (SaveDraft d)
  assume "wf_state st"
  then show ?thesis unfolding SaveDraft by (auto simp: save_draft_def wf_state_def split: json.split)
qed (auto simp: set_offset_def mark_seen_def archive_put_def create_session_def set_awaiting_def
    pop_awaiting_def queue_updates_def wf_state_def)

interpretation store: invariant_machine "state_step env" wf_state for env
  by unfold_locales (rule state_step_wf)

section \<open>Seen marks\<close>

text \<open>
  The interface other components use to ask whether an update was handled: marking makes an
  id seen, and no mark takes another id back.
\<close>

locale seen_registry =
  fixes seen_in :: "'s \<Rightarrow> 'i \<Rightarrow> bool" and mark :: "'u \<Rightarrow> 's \<Rightarrow> 's" and ident :: "'u \<Rightarrow> 'i"
  assumes seen_mark: "seen_in (mark u s) i \<longleftrightarrow> i = ident u \<or> seen_in s i"
begin

lemma seen_marks: "seen_in (fold mark us s) i \<longleftrightarrow> i \<in> ident ` set us \<or> seen_in s i"
  by (induction us arbitrary: s) (auto simp: seen_mark)

end

lemma keys_AList_update: "set (map fst (AList.update k v al)) = insert k (set (map fst al))"
  by (induction al) auto

lemma is_seen_mark: "is_seen (mark_seen u now st) i \<longleftrightarrow> i = upd_id u \<or> is_seen st i"
  unfolding is_seen_def mark_seen_def by (simp add: keys_AList_update del: set_map)

interpretation seen: seen_registry is_seen "\<lambda>u. mark_seen u now" upd_id for now
  by unfold_locales (rule is_seen_mark)

lemma keys_fold_update:
  "set (map fst (fold (\<lambda>i. AList.update i v) ids al)) = set ids \<union> set (map fst al)"
  by (induction ids arbitrary: al) (auto simp: keys_AList_update simp del: set_map)

text \<open>A timestamp written by \<open>mark_seen\<close> is read back by \<open>prune\<close> as the instant it was.\<close>

lemma parse_dt_stamp: "valid_instant t \<Longrightarrow> parse_dt env (JStr (isoformat t)) = t"
  by (simp add: parse_dt_def fromisoformat_isoformat as_utc_def)

lemma prune_fields [simp]:
  "fresh_start_tokens (prune env now st) = fresh_start_tokens st"
  by (simp add: prune_def)

text \<open>Concrete values for the witnesses.\<close>

definition demo_env :: pyenv where
  "demo_env = \<lparr>float_text = (\<lambda>_. ''0.5''), rfc_date = (\<lambda>_. None)\<rparr>"

definition demo_update :: "pystr \<Rightarrow> update" where
  "demo_update i =
     \<lparr>upd_id = i, url = JStr ''u'', author = ''a'', author_name = JStr ''A'', body = JStr ''t'',
      created_at = 0, conversation_id = i, reply_to_id = JStr [], quoted_id = JStr [],
      quoted_text = JStr [], quoted_author = JStr [], quoted_media = [], lang = JStr [], media = [],
      category = JStr ''general'', event_key = JStr [], event_title = JStr [],
      source_priority = JInt 100, is_reply = JBool False, raw_query = JStr []\<rparr>"

lemma demo_update_ok:
  "wf_update (demo_update i)" "i \<noteq> [] \<Longrightarrow> reloadable (demo_update i)"
  "valid_instant (created_at (demo_update i))" "upd_id (demo_update i) = i"
  by (simp_all add: demo_update_def wf_update_def reloadable_def valid_instant_def us_per_day_def
      py_strip_def py_space_def py_lstrip_at_def)

section \<open>Properties\<close>

text \<open>
  C16: What \<open>save\<close> writes (after pruning) the next process loads without an exception and without
  touching the file, and every field is as it was saved but the tokens of fresh starts: blank ones are
  dropped, the others cut to 120 characters, and a longer run id appended again. Tokens that are not
  blank and have at most 120 characters come back too.
\<close>

theorem save_load_round_trip:
  assumes "wf_state st" "save env now st f = (Inr (), st', f')"
  shows "load_state fr renamed f' = (Inr (reloaded st'), f', None) \<and>
    ((\<forall>t \<in> set (fresh_start_tokens st). py_strip t \<noteq> [] \<and> length t \<le> 120) \<longrightarrow> reloaded st' = st')"
proof -
  from assms(2) have st': "st' = prune env now st" "f' = Parsed (JObj (state_to_dict st'))"
    by (auto simp: save_def Let_def split: if_splits)
  have wf: "wf_state st'" using state_step_wf [OF assms(1), of env "Prune now"] st'(1) by simp
  have "fresh_start_tokens st' = fresh_start_tokens st" using st'(1) by simp
  with reloaded_stable [OF wf] st'(2) state_round_trip [OF wf] show ?thesis by (simp add: load_state_def)
qed

text \<open>A state after a fresh start whose run id has 130 characters, with a post in the queue.\<close>

definition long_start :: state_data where
  "long_start = fresh_state\<lparr>fresh_start_run_id := replicate 130 CHR ''r'', fresh_start_tokens := [replicate 130 CHR ''r''],
     last_auto_run := isoformat 0, pending_delivery := [[(''id'', JStr ''7'')]]\<rparr>"

theorem save_load_round_trip_witness:
  "\<exists>st' st2 f'. save demo_env 0 long_start NoFile = (Inr (), st', f') \<and> load_state (float_text demo_env) False f' = (Inr st2, f', None) \<and>
     pending_delivery st2 = [[(''id'', JStr ''7'')]] \<and> fresh_start_tokens st' = [replicate 130 CHR ''r''] \<and>
     fresh_start_tokens st2 = [replicate 120 CHR ''r'', replicate 130 CHR ''r'']"
proof -
  let ?p = "prune demo_env 0 long_start"
  have wf: "wf_state long_start" by (simp add: wf_state_def long_start_def fresh_state_def)
  have saved: "save demo_env 0 long_start NoFile = (Inr (), ?p, Parsed (JObj (state_to_dict ?p)))"
    by (simp add: save_def state_to_dict_def prune_def long_start_def fresh_state_def)
  have "py_strip (replicate 130 CHR ''r'') \<noteq> []" by code_simp
  then have "reloaded_tokens ?p = [replicate 120 CHR ''r'', replicate 130 CHR ''r'']"
    by (simp add: reloaded_tokens_def Let_def) (auto simp: prune_def long_start_def last_n_def)
  with saved save_load_round_trip [OF wf saved, of "float_text demo_env" False] show ?thesis
    by (simp add: reloaded_def) (simp add: long_start_def prune_def)
qed

text \<open>
  An existing file that cannot be trusted is never lost or replaced by an empty state: the
  loader raises, and the content is where it was or in the quarantine file.
\<close>

theorem corrupt_file_kept:
  "load_state fr renamed f = (Inl StateCorruption, f', q) \<Longrightarrow>
     f \<noteq> NoFile \<and> (f' = f \<and> q = None \<or> f' = NoFile \<and> q = Some f)"
  by (auto simp: load_state_def quarantine_def split: state_file.splits json.splits sum.splits if_splits)

theorem corrupt_file_kept_witness:
  "Malformed \<noteq> NoFile \<and> (NoFile = Malformed \<and> Some Malformed = None \<or>
     NoFile = NoFile \<and> Some Malformed = Some Malformed)"
  by (rule corrupt_file_kept [of undefined True]) (simp add: load_state_def quarantine_def)

text \<open>
  \<open>pop_pending\<close> is a peek: the queue afterwards is exactly the entries that are unseen and
  decodable, in order, and the result is the first \<open>limit\<close> of them, decoded. Nothing else of
  the state changes.
\<close>

theorem pop_pending_spec:
  assumes "pop_pending env now limit st = Inr (result, st')"
  shows "st' = st\<lparr>pending_delivery := filter (keeps env now st) (pending_delivery st)\<rparr> \<and>
    map Inr result = map (decode_item env now) (take (nat limit) (pending_delivery st'))"
  using assms by (auto simp: pop_pending_def bindE_Inr dest!: pop_loop_spec)

theorem pop_pending_spec_witness:
  "fresh_state = fresh_state\<lparr>pending_delivery := filter (keeps demo_env 0 fresh_state) (pending_delivery fresh_state)\<rparr> \<and>
    map Inr ([] :: (update \<times> bool) list) =
      map (decode_item demo_env 0) (take (nat 5) (pending_delivery fresh_state))"
  by (rule pop_pending_spec) (simp add: pop_pending_def fresh_state_def)

text \<open>
  At-most-once after a mark: an update that any run of operations marked seen is not returned
  by a later \<open>pop_pending\<close>, whatever is still queued for it.
\<close>

theorem seen_never_redelivered:
  assumes "pop_pending env now limit (fold (\<lambda>u. mark_seen u t) us st) = Inr (result, st')"
    and "(u, f) \<in> set result" "upd_id u \<noteq> []"
  shows "upd_id u \<notin> upd_id ` set us \<and> \<not> is_seen st (upd_id u)"
  using pop_returns_unseen [OF assms] by (simp add: seen.seen_marks)

theorem seen_never_redelivered_witness:
  "upd_id (demo_update ''2'') \<notin> upd_id ` set [demo_update ''1''] \<and>
     \<not> is_seen (queue_updates demo_env False [demo_update ''1'', demo_update ''2''] fresh_state) (upd_id (demo_update ''2''))"
proof (rule seen_never_redelivered [where env = demo_env and now = 0 and limit = 1 and t = 0 and f = False])
  let ?st = "fold (\<lambda>u. mark_seen u 0) [demo_update ''1'']
    (queue_updates demo_env False [demo_update ''1'', demo_update ''2''] fresh_state)"
  have q: "pending_delivery ?st = [queue_item False (demo_update ''1''), queue_item False (demo_update ''2'')]"
    by (simp add: mark_seen_def queue_updates_def fresh_state_def demo_update_ok)
  have s: "is_seen ?st ''1''" "\<not> is_seen ?st ''2''"
    by (simp_all add: is_seen_mark demo_update_ok) (simp add: is_seen_def queue_updates_def fresh_state_def)
  have d: "decode_item demo_env 0 (queue_item False (demo_update ''2'')) = Inr (demo_update ''2'', False)"
    by (rule decode_queue_item) (simp_all add: demo_update_ok)
  show "pop_pending demo_env 0 1 ?st = Inr ([(demo_update ''2'', False)],
      ?st\<lparr>pending_delivery := [queue_item False (demo_update ''2'')]\<rparr>)"
    unfolding pop_pending_def q
    by (simp only: pop_loop.simps skips_def queue_item_get demo_update_ok Let_def s d) simp
qed (simp_all add: demo_update_ok)

text \<open>
  Queue then deliver: fresh, distinct updates put on an empty queue come back from
  \<open>pop_pending\<close> in order, each the update that was queued with its force flag, and stay queued
  until they are seen.
\<close>

theorem queued_updates_delivered:
  assumes "pending_delivery st = []" "distinct (map upd_id us)"
    and "\<forall>u \<in> set us. wf_update u \<and> reloadable u \<and> valid_instant (created_at u) \<and> \<not> is_seen st (upd_id u)"
  shows "pop_pending env now limit (queue_updates env force us st) =
    Inr (map (\<lambda>u. (u, force)) (take (nat limit) us), queue_updates env force us st)"
proof -
  let ?q = "queue_updates env force us st"
  have q: "pending_delivery ?q = map (queue_item force) us"
    using queue_loop_fresh [OF assms(2), of "{}"] assms(1) by (simp add: queue_updates_def)
  have seen: "is_seen ?q i = is_seen st i" for i by (simp add: is_seen_def queue_updates_def)
  have "pop_loop env now ?q room (map (queue_item force) vs) =
      Inr (map (queue_item force) vs, map (\<lambda>u. (u, force)) (take room vs))"
    if "set vs \<subseteq> set us" for room vs
    using that assms(3)
    by (induction vs arbitrary: room)
      (auto simp: skips_def queue_item_get seen decode_queue_item take_Cons' split: nat.split)
  then show ?thesis by (simp add: pop_pending_def q)
qed

theorem queued_updates_delivered_witness:
  "pop_pending demo_env 0 1 (queue_updates demo_env True [demo_update ''1'', demo_update ''2''] fresh_state) =
    Inr (map (\<lambda>u. (u, True)) (take (nat 1) [demo_update ''1'', demo_update ''2'']),
      queue_updates demo_env True [demo_update ''1'', demo_update ''2''] fresh_state)"
proof (rule queued_updates_delivered)
  show "pending_delivery fresh_state = []" by (simp add: fresh_state_def)
  show "distinct (map upd_id [demo_update ''1'', demo_update ''2''])" by (simp add: demo_update_ok)
  have "\<not> is_seen fresh_state i" for i by (simp add: is_seen_def fresh_state_def)
  then show "\<forall>u \<in> set [demo_update ''1'', demo_update ''2'']. wf_update u \<and> reloadable u \<and>
      valid_instant (created_at u) \<and> \<not> is_seen fresh_state (upd_id u)"
    by (simp add: demo_update_ok)
qed

text \<open>
  One malformed row can starve the queue: the scan drops rows whose constructor raises
  \<open>TypeError\<close> or \<open>ValueError\<close>, but a row whose author is no text raises
  \<open>AttributeError\<close>, which escapes \<open>pop_pending\<close> for every limit and leaves the queue as it
  was, so the valid rows behind it are never delivered.
\<close>

theorem poison_row_blocks_queue:
  assumes "update_from_dict env now (AList.delete ''force'' item) = Inl AttributeError"
    and "item \<in> set (pending_delivery st)" "\<not> skips env st item"
  shows "\<exists>e. pop_pending env now limit st = Inl e \<and> state_step env (PopPending now limit) st = st"
proof -
  have "decode_item env now item = Inl AttributeError" using assms(1) by (simp add: decode_item_def)
  then obtain e where "pop_loop env now st (nat limit) (pending_delivery st) = Inl e"
    using pop_loop_blocked [OF assms(2,3), of now AttributeError "nat limit"] by (auto simp: caught_def)
  then show ?thesis by (simp add: pop_pending_def)
qed

definition poison_row :: pydict where
  "poison_row = [(''id'', JStr ''1''), (''url'', JStr ''u''), (''author'', JNull),
     (''author_name'', JNull), (''text'', JStr ''t''), (''created_at'', JStr (isoformat 0))]"

theorem poison_row_blocks_queue_witness:
  "\<exists>e. pop_pending demo_env 0 5 (fresh_state\<lparr>pending_delivery := [poison_row, queue_item False (demo_update ''2'')]\<rparr>) = Inl e \<and>
     state_step demo_env (PopPending 0 5)
       (fresh_state\<lparr>pending_delivery := [poison_row, queue_item False (demo_update ''2'')]\<rparr>) =
     fresh_state\<lparr>pending_delivery := [poison_row, queue_item False (demo_update ''2'')]\<rparr>"
proof (rule poison_row_blocks_queue)
  have "ensure_utc demo_env 0 (JStr (isoformat 0)) = Inr 0"
    by (rule ensure_utc_stamp) (simp add: valid_instant_def us_per_day_def)
  then show "update_from_dict demo_env 0 (AList.delete ''force'' poison_row) = Inl AttributeError"
    by (simp add: update_from_dict_def poison_row_def dict_get_def media_list_def post_init_def
        update_keys_def update_required_def)
  show "\<not> skips demo_env (fresh_state\<lparr>pending_delivery := [poison_row, queue_item False (demo_update ''2'')]\<rparr>) poison_row"
    by (simp add: skips_def is_seen_def fresh_state_def)
qed simp

text \<open>
  Retention: a seen mark survives any number of saves for 45 days, so within that window the
  update cannot be collected again.
\<close>

theorem seen_mark_retained:
  assumes "valid_instant t" "\<forall>now \<in> set nows. now \<le> t + days 45"
  shows "is_seen (fold (prune env) nows (mark_seen u t st)) (upd_id u)"
proof -
  let ?mark = "(upd_id u, JStr (isoformat t))"
  have "?mark \<in> set (seen (mark_seen u t st))"
    by (rule map_of_SomeD) (simp add: mark_seen_def update_conv)
  moreover have "?mark \<in> set (seen s) \<Longrightarrow> ?mark \<in> set (seen (fold (prune env) ns s))"
    if "set ns \<subseteq> set nows" for ns s
    using that
  proof (induction ns arbitrary: s)
    case (Cons n ns)
    then have "n \<le> t + days 45" using assms(2) by simp
    with Cons.prems(1) have "?mark \<in> set (seen (prune env n s))"
      by (simp add: prune_def parse_dt_stamp [OF assms(1)])
    with Cons show ?case by simp
  qed simp
  ultimately have "?mark \<in> set (seen (fold (prune env) nows (mark_seen u t st)))" by blast
  then show ?thesis unfolding is_seen_def by force
qed

theorem seen_mark_retained_witness:
  "is_seen (fold (prune demo_env) [0, days 40] (mark_seen (demo_update ''1'') 0 fresh_state)) (upd_id (demo_update ''1''))"
  by (rule seen_mark_retained) (simp_all add: valid_instant_def days_def us_per_day_def)

text \<open>
  A fresh start happens once per workflow run: it discards the backlog, marks every discarded
  id as seen, records the run, and a second call with the same run id changes nothing.
\<close>

theorem fresh_start_once:
  assumes "apply_fresh_start env run now st = Inr (st', n)"
  shows "apply_fresh_start env run later st' = Inr (st', 0) \<and>
    (\<forall>i. is_seen st' i \<longleftrightarrow> is_seen st i \<or> (st' \<noteq> st \<and> i \<in> set (discarded_ids env st))) \<and>
    (st' \<noteq> st \<longrightarrow> pending_delivery st' = [])"
proof (cases "py_strip run \<in> set (fresh_start_tokens st) \<or> fresh_start_run_id st = py_strip run")
  case True
  with assms show ?thesis by (auto simp: apply_fresh_start_def Let_def split: if_splits)
next
  case False
  let ?t = "py_strip run"
  from assms False have st': "?t \<noteq> []" "fresh_start_run_id st' = ?t" "pending_delivery st' = []"
      "seen st' = fold (\<lambda>i. AList.update i (JStr (isoformat now))) (discarded_ids env st) (seen st)"
    by (auto simp: apply_fresh_start_def Let_def split: if_splits)
  with False have "st' \<noteq> st" by auto
  moreover have "is_seen st' i \<longleftrightarrow> is_seen st i \<or> i \<in> set (discarded_ids env st)" for i
    unfolding is_seen_def st'(4) keys_fold_update by blast
  moreover have "apply_fresh_start env run later st' = Inr (st', 0)"
    using st' by (simp add: apply_fresh_start_def)
  ultimately show ?thesis using st'(3) by blast
qed

theorem fresh_start_once_witness:
  "\<exists>st' n. apply_fresh_start demo_env ''r1'' 0 (queue_updates demo_env False [demo_update ''1''] fresh_state) = Inr (st', n) \<and>
     apply_fresh_start demo_env ''r1'' 7 st' = Inr (st', 0) \<and> is_seen st' ''1''"
proof -
  let ?st = "queue_updates demo_env False [demo_update ''1''] fresh_state"
  have t: "py_strip ''r1'' = ''r1''" by (simp add: py_strip_def py_space_def)
  have p: "pending_delivery ?st = [queue_item False (demo_update ''1'')]"
    by (simp add: queue_updates_def fresh_state_def)
  have d: "discarded_ids demo_env ?st = [''1'']"
    by (simp add: discarded_ids_def p queue_item_get demo_update_ok py_strip_def py_space_def)
  obtain st' n where a: "apply_fresh_start demo_env ''r1'' 0 ?st = Inr (st', n)" "fresh_start_run_id st' = ''r1''"
    by (simp add: apply_fresh_start_def t Let_def queue_updates_def fresh_state_def)
  then have "st' \<noteq> ?st" by (auto simp: queue_updates_def fresh_state_def)
  with fresh_start_once [OF a(1), of 7] a d show ?thesis by auto
qed

end
