(* ===== verification/ReviewInbox.thy ===== *)
theory ReviewInbox
  imports StateStore
begin

text \<open>
  \<open>app/review_inbox.py\<close>: the table \<open>review_inbox\<close> as the list of its rows, primary key
  \<open>draft_id\<close>. The column \<open>updated_at\<close>, which no code reads, is left out. The five values
  \<open>upsert\<close> binds are text, as the dataclasses say; a draft or category of another type is
  outside the model (\<open>None\<close>).
\<close>

record inbox_row =
  draft_id :: pystr
  update_id :: pystr
  status :: pystr
  inbox_category :: pystr
  inbox_source :: pystr
  inbox_created :: pystr

definition valid_statuses :: "pystr set" where
  "valid_statuses = {''pending'', ''ready'', ''rejected''}"

fun text_of :: "json \<Rightarrow> pystr option" where
  "text_of (JStr s) = Some s"
| "text_of _ = None"

definition inbox_row_of :: "draft \<Rightarrow> update option \<Rightarrow> pystr \<Rightarrow> inbox_row option" where
  "inbox_row_of d u st =
     Option.bind (text_of (dr_id d)) (\<lambda>i.
     Option.bind (text_of (dr_update_id d)) (\<lambda>ui.
     Option.bind (text_of (case u of None \<Rightarrow> JStr ''general'' | Some x \<Rightarrow> category x)) (\<lambda>cat.
     Option.bind (text_of (if truthy (dr_created_at d) then dr_created_at d else JStr [])) (\<lambda>c.
       Some \<lparr>draft_id = i, update_id = ui, status = (if st \<in> valid_statuses then st else ''pending''),
             inbox_category = cat, inbox_source = (case u of None \<Rightarrow> [] | Some x \<Rightarrow> author x),
             inbox_created = c\<rparr>))))"

text \<open>\<open>ON CONFLICT(draft_id) DO UPDATE\<close>: the status of an existing row is not in the SET list.\<close>

definition inbox_merge :: "inbox_row \<Rightarrow> inbox_row \<Rightarrow> inbox_row" where
  "inbox_merge ex r =
     r\<lparr>update_id := update_id ex, inbox_category := inbox_category ex, inbox_source := inbox_source ex,
       inbox_created := (if inbox_created ex \<noteq> [] then inbox_created ex else inbox_created r)\<rparr>"

definition inbox_upsert :: "draft \<Rightarrow> update option \<Rightarrow> pystr \<Rightarrow> inbox_row list \<Rightarrow> inbox_row list option" where
  "inbox_upsert d u st t =
     map_option (\<lambda>r. upsert draft_id r (inbox_merge r) t) (inbox_row_of d u st)"

definition set_status :: "pystr \<Rightarrow> pystr \<Rightarrow> inbox_row list \<Rightarrow> bool \<times> inbox_row list" where
  "set_status i st t =
     (if st \<notin> valid_statuses then (False, t)
      else (0 < rowcount (\<lambda>r. draft_id r = i) t,
            update_where (\<lambda>r. draft_id r = i) (\<lambda>r. r\<lparr>status := st\<rparr>) t))"

definition inbox_get :: "pystr \<Rightarrow> inbox_row list \<Rightarrow> inbox_row option" where
  "inbox_get i t = row_by draft_id i t"

text \<open>\<open>_filters\<close> as the conjunction of the conditions it appends.\<close>

definition inbox_filter :: "pystr \<Rightarrow> pystr \<Rightarrow> pystr \<Rightarrow> inbox_row \<Rightarrow> bool" where
  "inbox_filter st cat src r \<longleftrightarrow>
     (st \<in> valid_statuses \<longrightarrow> status r = st) \<and> (cat \<noteq> [] \<longrightarrow> inbox_category r = cat) \<and>
     (src \<noteq> [] \<longrightarrow> inbox_source r = src)"

definition inbox_count :: "pystr \<Rightarrow> pystr \<Rightarrow> pystr \<Rightarrow> inbox_row list \<Rightarrow> int" where
  "inbox_count st cat src t = int (length (filter (inbox_filter st cat src) t))"

text \<open>\<open>list_items\<close>: \<open>ORDER BY created_at DESC, draft_id DESC LIMIT size OFFSET page * size\<close>.\<close>

definition inbox_sorted :: "pystr \<Rightarrow> pystr \<Rightarrow> pystr \<Rightarrow> inbox_row list \<Rightarrow> inbox_row list" where
  "inbox_sorted st cat src t =
     rev (sort_key (\<lambda>r. (inbox_created r, draft_id r)) (filter (inbox_filter st cat src) t))"

definition list_items ::
    "pystr \<Rightarrow> pystr \<Rightarrow> pystr \<Rightarrow> int \<Rightarrow> int \<Rightarrow> inbox_row list \<Rightarrow> inbox_row list \<times> int \<times> int" where
  "list_items st cat src page page_size t =
     (let size = max 1 (min page_size 10);
          total = inbox_count st cat src t;
          pages = max 1 ((total + size - 1) div size);
          pg = max 0 (min page (pages - 1))
      in (take (nat size) (drop (nat (pg * size)) (inbox_sorted st cat src t)), pg, pages))"

text \<open>
  \<open>sync_from_state\<close>: every draft of the state that has no row gets one. Each upsert commits on
  its own, so an exception that is not caught leaves the rows added before it.
\<close>

datatype sync_end = Finished | Escaped py_exc | Untyped

datatype sync_step = Skip | Stop sync_end | Put "inbox_row list"

definition archived_update :: "pyenv \<Rightarrow> instant \<Rightarrow> pydict \<Rightarrow> draft \<Rightarrow> py_exc + update option" where
  "archived_update env now arch dr = (case Option.bind (text_of (dr_update_id dr)) (map_of arch) of
       Some (JObj ud) \<Rightarrow> (case update_from_dict env now ud of
           Inr u \<Rightarrow> Inr (Some u)
         | Inl e \<Rightarrow> if caught e then Inr None else Inl e)
     | _ \<Rightarrow> Inr None)"

definition sync_one :: "pyenv \<Rightarrow> instant \<Rightarrow> pydict \<Rightarrow> json \<Rightarrow> inbox_row list \<Rightarrow> sync_step" where
  "sync_one env now arch raw t = (case raw of
       JObj d \<Rightarrow> (case draft_from_dict d of
           Inl e \<Rightarrow> Skip
         | Inr dr \<Rightarrow>
             if inbox_get (py_str (float_text env) (dr_id dr)) t \<noteq> None then Skip
             else case archived_update env now arch dr of
               Inl e \<Rightarrow> Stop (Escaped e)
             | Inr u \<Rightarrow> (case inbox_upsert dr u ''pending'' t of None \<Rightarrow> Stop Untyped | Some t' \<Rightarrow> Put t'))
     | _ \<Rightarrow> Skip)"

fun sync_loop :: "pyenv \<Rightarrow> instant \<Rightarrow> pydict \<Rightarrow> json list \<Rightarrow> inbox_row list \<Rightarrow> nat \<Rightarrow>
    inbox_row list \<times> nat \<times> sync_end" where
  "sync_loop env now arch [] t added = (t, added, Finished)"
| "sync_loop env now arch (raw # rest) t added = (case sync_one env now arch raw t of
       Skip \<Rightarrow> sync_loop env now arch rest t added
     | Stop fin \<Rightarrow> (t, added, fin)
     | Put t' \<Rightarrow> sync_loop env now arch rest t' (Suc added))"

definition sync_from_state :: "pyenv \<Rightarrow> instant \<Rightarrow> json \<Rightarrow> json \<Rightarrow> inbox_row list \<Rightarrow>
    inbox_row list \<times> nat \<times> sync_end" where
  "sync_from_state env now ds arch t = (case ds of
       JObj d \<Rightarrow> sync_loop env now (case arch of JObj a \<Rightarrow> a | _ \<Rightarrow> []) (map snd d) t 0
     | _ \<Rightarrow> (t, 0, Finished))"

section \<open>Invariant\<close>

definition inbox_inv :: "inbox_row list \<Rightarrow> bool" where
  "inbox_inv t \<longleftrightarrow> unique_on draft_id t \<and> (\<forall>r \<in> set t. status r \<in> valid_statuses)"

lemma inbox_merge_key [simp]: "draft_id (inbox_merge ex r) = draft_id r" "status (inbox_merge ex r) = status r"
  by (simp_all add: inbox_merge_def)

lemma inbox_row_status: "inbox_row_of d u st = Some r \<Longrightarrow> status r \<in> valid_statuses"
  by (auto simp: inbox_row_of_def valid_statuses_def bind_eq_Some_conv split: if_splits)

lemma inbox_upsert_inv:
  assumes "inbox_inv t" "inbox_upsert d u st t = Some t'"
  shows "inbox_inv t'"
proof -
  from assms(2) obtain r where r: "inbox_row_of d u st = Some r" "t' = upsert draft_id r (inbox_merge r) t"
    by (auto simp: inbox_upsert_def)
  have "unique_on draft_id t'" using assms(1) unfolding r(2) inbox_inv_def by (simp add: upsert_unique)
  moreover have "status x \<in> valid_statuses" if "x \<in> set t'" for x
    using set_upsert [OF that [unfolded r(2)]] assms(1) inbox_row_status [OF r(1)]
    by (auto simp: inbox_inv_def)
  ultimately show ?thesis by (simp add: inbox_inv_def)
qed

lemma set_status_inv: "inbox_inv t \<Longrightarrow> inbox_inv (snd (set_status i st t))"
  by (auto simp: inbox_inv_def set_status_def set_update_where intro!: update_where_unique)

lemma inbox_upsert_keeps:
  assumes "inbox_upsert d u st t = Some t'" "row_by draft_id i t = Some r"
  shows "\<exists>r'. row_by draft_id i t' = Some r' \<and> status r' = status r"
  using assms by (auto simp: inbox_upsert_def row_by_upsert)

lemma sync_one_put:
  "sync_one env now arch raw t = Put t' \<Longrightarrow> \<exists>d u. inbox_upsert d u ''pending'' t = Some t'"
  by (auto simp: sync_one_def split: json.splits sum.splits option.splits if_splits)

lemma sync_loop_keeps:
  "inbox_inv t \<Longrightarrow> sync_loop env now arch raws t n = (t', n', fin) \<Longrightarrow>
     inbox_inv t' \<and> (\<forall>i r. row_by draft_id i t = Some r \<longrightarrow>
       (\<exists>r'. row_by draft_id i t' = Some r' \<and> status r' = status r))"
proof (induction env now arch raws t n arbitrary: t' n' fin rule: sync_loop.induct)
  case (2 env now arch raw rest t added)
  show ?case
  proof (cases "sync_one env now arch raw t")
    case (Put t1)
    then obtain d u where "inbox_upsert d u ''pending'' t = Some t1" using sync_one_put by blast
    with 2(2)[OF Put] 2(3,4) Put show ?thesis
      by (fastforce dest: inbox_upsert_inv inbox_upsert_keeps)
  qed (use 2 in auto)
qed auto

section \<open>The view the review queue takes of the inbox\<close>

text \<open>
  What a client of the inbox reads: the pending rows, and whether a draft is pending. The
  contract says that the two agree and that a pending draft is listed once.
\<close>

locale pending_view =
  fixes rows :: "'i \<Rightarrow> 'r list" and did :: "'r \<Rightarrow> 'd" and is_pending :: "'i \<Rightarrow> 'd \<Rightarrow> bool"
    and invar :: "'i \<Rightarrow> bool"
  assumes pending_listed: "is_pending i d \<longleftrightarrow> d \<in> did ` set (rows i)"
    and listed_once: "invar i \<Longrightarrow> distinct (map did (rows i))"
begin

text \<open>A client that inserts one item per listed row, ignoring known ones, enrols every pending draft.\<close>

lemma enrolled:
  assumes "\<And>r. key (mk r) = kf (did r)" "is_pending i d"
  shows "kf d \<in> key ` set (fold (\<lambda>r. insert_ignore key (mk r)) (rows i) items)"
proof -
  have keys: "key ` set (fold (\<lambda>r. insert_ignore key (mk r)) rs items) = (\<lambda>r. kf (did r)) ` set rs \<union> key ` set items"
    for rs items
    by (induction rs arbitrary: items) (auto simp: keys_insert_ignore assms(1))
  show ?thesis using assms(2) unfolding keys pending_listed by auto
qed

end

definition pending_rows :: "inbox_row list \<Rightarrow> inbox_row list" where
  "pending_rows t = sort_key (\<lambda>r. (inbox_created r, draft_id r)) (filter (\<lambda>r. status r = ''pending'') t)"

definition draft_pending :: "inbox_row list \<Rightarrow> pystr \<Rightarrow> bool" where
  "draft_pending t d \<longleftrightarrow> list_ex (\<lambda>r. draft_id r = d \<and> status r = ''pending'') t"

lemma unique_filter: "unique_on key t \<Longrightarrow> unique_on key (filter P t)"
  by (simp add: unique_on_def distinct_map_filter)

lemma unique_sort: "unique_on key t \<Longrightarrow> unique_on key (sort_key f t)"
  by (simp add: unique_on_def distinct_map)

interpretation inbox: pending_view pending_rows draft_id draft_pending inbox_inv
proof
  show "draft_pending t d \<longleftrightarrow> d \<in> draft_id ` set (pending_rows t)" for t d
    by (auto simp: draft_pending_def pending_rows_def list_ex_iff image_iff)
  show "inbox_inv t \<Longrightarrow> distinct (map draft_id (pending_rows t))" for t
    using unique_sort [OF unique_filter] by (auto simp: inbox_inv_def pending_rows_def unique_on_def)
qed

section \<open>Properties\<close>

text \<open>
  The inbox is the authority on review decisions: reconciling it with the draft table adds rows
  and never changes the status of an existing one, however the reconciliation ends.
\<close>

theorem sync_keeps_decisions:
  assumes "inbox_inv t" "sync_from_state env now ds arch t = (t', n, fin)" "inbox_get i t = Some r"
  shows "inbox_inv t' \<and> (\<exists>r'. inbox_get i t' = Some r' \<and> status r' = status r)"
proof (cases ds)
  case (JObj d)
  with assms(2) obtain a where "sync_loop env now a (map snd d) t 0 = (t', n, fin)"
    by (simp add: sync_from_state_def)
  from sync_loop_keeps [OF assms(1) this] assms(3) show ?thesis by (simp add: inbox_get_def)
qed (use assms in \<open>auto simp: sync_from_state_def\<close>)

definition demo_row :: "pystr \<Rightarrow> pystr \<Rightarrow> pystr \<Rightarrow> pystr \<Rightarrow> inbox_row" where
  "demo_row d st src c = \<lparr>draft_id = d, update_id = d, status = st, inbox_category = ''general'',
     inbox_source = src, inbox_created = c\<rparr>"

definition demo_draft :: "pystr \<Rightarrow> draft" where
  "demo_draft i = \<lparr>dr_id = JStr i, dr_update_id = JStr i, dr_event_key = JStr [], caption = JStr ''c'',
     mode = JStr ''default'', telegram_message_id = JNull, dr_created_at = JStr []\<rparr>"

theorem sync_keeps_decisions_witness:
  "\<exists>t' n fin. sync_from_state demo_env 0 (JObj [(''1'', JObj (draft_to_dict (demo_draft ''1''))),
        (''2'', JObj (draft_to_dict (demo_draft ''2'')))]) (JObj []) [demo_row ''1'' ''ready'' ''a'' []] = (t', n, fin) \<and>
     n = 1 \<and> inbox_inv t' \<and> (\<exists>r'. inbox_get ''1'' t' = Some r' \<and> status r' = ''ready'')"
proof -
  let ?t = "[demo_row ''1'' ''ready'' ''a'' []]"
  let ?ds = "JObj [(''1'', JObj (draft_to_dict (demo_draft ''1''))), (''2'', JObj (draft_to_dict (demo_draft ''2'')))]"
  have inv: "inbox_inv ?t" by (simp add: inbox_inv_def demo_row_def valid_statuses_def)
  have get: "inbox_get ''1'' ?t = Some (demo_row ''1'' ''ready'' ''a'' [])"
    by (simp add: inbox_get_def demo_row_def)
  obtain t' where s: "sync_from_state demo_env 0 ?ds (JObj []) ?t = (t', 1, Finished)"
    by (simp add: sync_from_state_def sync_one_def draft_round_trip demo_draft_def inbox_get_def
        demo_row_def archived_update_def inbox_upsert_def inbox_row_of_def)
  from sync_keeps_decisions [OF inv s get] show ?thesis using s by (auto simp: demo_row_def)
qed

lemma concat_pages:
  "0 < k \<Longrightarrow> concat (map (\<lambda>p. take k (drop (p * k) xs)) [0..<n]) = take (n * k) xs"
proof (induction n)
  case (Suc n)
  have "Suc n * k = n * k + k" by simp
  then have "take (Suc n * k) xs = take (n * k) xs @ take k (drop (n * k) xs)" by (simp only: take_add)
  with Suc show ?case by simp
qed simp

text \<open>
  Paging loses and repeats nothing: the pages \<open>0 \<dots> pages - 1\<close> put together are the whole
  filtered list, newest first, and a request beyond the last page gets the last page.
\<close>

theorem pages_cover_inbox:
  assumes "list_items st cat src 0 page_size t = (first_page, pg, pages)"
  shows "concat (map (\<lambda>p. fst (list_items st cat src (int p) page_size t)) [0..<nat pages]) =
      inbox_sorted st cat src t \<and>
    (\<forall>p. pages \<le> p \<longrightarrow> list_items st cat src p page_size t = list_items st cat src (pages - 1) page_size t)"
proof -
  define k where "k = max 1 (min page_size 10)"
  define total where "total = inbox_count st cat src t"
  have k: "0 < nat k" "0 < k" "int (nat k) = k" by (simp_all add: k_def)
  have pages: "pages = max 1 ((total + k - 1) div k)"
    using assms by (simp add: list_items_def Let_def k_def total_def)
  have item: "fst (list_items st cat src (int p) page_size t) =
      take (nat k) (drop (p * nat k) (inbox_sorted st cat src t))" if "p < nat pages" for p
  proof -
    from that have "min (int p) (pages - 1) = int p" by linarith
    then show ?thesis using k(2)
      by (simp add: list_items_def Let_def k_def [symmetric] total_def [symmetric] pages [symmetric]
          nat_mult_distrib)
  qed
  have "total \<le> pages * k"
  proof -
    have "total + k - 1 = (total + k - 1) div k * k + (total + k - 1) mod k" by simp
    moreover have "(total + k - 1) mod k < k" using k(2) by simp
    moreover have "(total + k - 1) div k * k \<le> pages * k" using pages k(2) by (intro mult_right_mono) auto
    ultimately show ?thesis by linarith
  qed
  then have "length (inbox_sorted st cat src t) \<le> nat pages * nat k"
    using pages k by (simp add: inbox_sorted_def total_def inbox_count_def flip: nat_mult_distrib)
  then have all: "take (nat pages * nat k) (inbox_sorted st cat src t) = inbox_sorted st cat src t" by simp
  have "map (\<lambda>p. fst (list_items st cat src (int p) page_size t)) [0..<nat pages] =
      map (\<lambda>p. take (nat k) (drop (p * nat k) (inbox_sorted st cat src t))) [0..<nat pages]"
    by (rule map_cong) (simp_all add: item)
  with concat_pages [OF k(1), of "inbox_sorted st cat src t" "nat pages"] all
  have covered: "concat (map (\<lambda>p. fst (list_items st cat src (int p) page_size t)) [0..<nat pages]) =
      inbox_sorted st cat src t" by (simp only:)
  have "list_items st cat src p page_size t = list_items st cat src (pages - 1) page_size t"
    if "pages \<le> p" for p
    using that by (simp add: list_items_def Let_def k_def [symmetric] total_def [symmetric] pages [symmetric])
  with covered show ?thesis by blast
qed

theorem pages_cover_inbox_witness:
  "concat (map (\<lambda>p. fst (list_items ''pending'' [] [] (int p) 5 [])) [0..<nat 1]) = inbox_sorted ''pending'' [] [] [] \<and>
    list_items ''pending'' [] [] 7 5 [] = list_items ''pending'' [] [] (1 - 1) 5 []"
proof -
  have "list_items ''pending'' [] [] 0 5 [] = ([], 0, 1)" by (simp add: list_items_def inbox_count_def inbox_sorted_def inbox_filter_def)
  from pages_cover_inbox [OF this] show ?thesis by simp
qed

end
