(* ===== verification/SourceQueue.thy ===== *)
theory SourceQueue
  imports ReviewInbox
begin

text \<open>
  \<open>app/source_first_queue.py\<close>: source-first navigation over the review inbox. A
  \<open>review_db\<close> holds the three tables of the store, the inbox table of
  \<open>app/review_inbox.py\<close> and the last finalised completeness attempt per source
  (\<open>None\<close>: none, or no such table). Columns that only record a \<open>CURRENT_TIMESTAMP\<close> are left
  out: nothing reads them. Every public method runs in one transaction.
\<close>

record session_row =
  ses_id :: pystr
  ses_status :: pystr
  active_source :: pystr

record source_row =
  src_session :: pystr
  src_name :: pystr
  src_order :: int
  src_state :: pystr
  retry_count :: nat
  last_retry_status :: pystr
  last_retry_error :: pystr

record item_row =
  item_session :: pystr
  item_draft :: pystr
  item_source :: pystr
  item_created :: pystr

record review_db =
  session_table :: "session_row list"
  source_table :: "source_row list"
  item_table :: "item_row list"
  inbox_table :: "inbox_row list"
  last_proof :: "pystr \<Rightarrow> (pystr \<times> pystr) option"

definition src_key :: "source_row \<Rightarrow> pystr \<times> pystr" where "src_key r = (src_session r, src_name r)"
definition item_key :: "item_row \<Rightarrow> pystr \<times> pystr" where "item_key r = (item_session r, item_draft r)"

definition handle :: "pystr \<Rightarrow> pystr" where
  "handle v = py_casefold (py_lstrip_at (py_strip v))"

definition handle_value :: "pyenv \<Rightarrow> json \<Rightarrow> pystr" where
  "handle_value env v = handle (if truthy v then py_str (float_text env) v else [])"

section \<open>Reads\<close>

text \<open>\<open>_configured_sources\<close>: enabled sources in file order, with their index, first mention wins.\<close>

fun configured_loop :: "pyenv \<Rightarrow> int \<Rightarrow> pystr set \<Rightarrow> pydict list \<Rightarrow> (pystr \<times> int) list" where
  "configured_loop env index known [] = []"
| "configured_loop env index known (raw # rest) =
     (let source = handle_value env (dict_get raw ''handle'' JNull) in
      if \<not> truthy (dict_get raw ''enabled'' (JBool True)) \<or> source = [] \<or> source \<in> known
      then configured_loop env (index + 1) known rest
      else (source, index) # configured_loop env (index + 1) (insert source known) rest)"

definition configured_sources :: "pyenv \<Rightarrow> pydict list \<Rightarrow> (pystr \<times> int) list" where
  "configured_sources env sources = configured_loop env 0 {} sources"

text \<open>\<open>_counts\<close>: the items of a source, and those whose inbox row is pending (a left join).\<close>

definition source_items :: "review_db \<Rightarrow> pystr \<Rightarrow> pystr \<Rightarrow> item_row list" where
  "source_items db sid source =
     filter (\<lambda>q. item_session q = sid \<and> item_source q = source) (item_table db)"

definition pending_items :: "review_db \<Rightarrow> pystr \<Rightarrow> pystr \<Rightarrow> item_row list" where
  "pending_items db sid source =
     filter (\<lambda>q. draft_pending (inbox_table db) (item_draft q)) (source_items db sid source)"

definition counts :: "review_db \<Rightarrow> pystr \<Rightarrow> pystr \<Rightarrow> nat \<times> nat" where
  "counts db sid source = (length (source_items db sid source), length (pending_items db sid source))"

definition pending_count :: "review_db \<Rightarrow> pystr \<Rightarrow> pystr \<Rightarrow> nat" where
  "pending_count db sid source = snd (counts db sid source)"

definition session_sources :: "review_db \<Rightarrow> pystr \<Rightarrow> source_row list" where
  "session_sources db sid =
     sort_key (\<lambda>r. (src_order r, src_name r)) (filter (\<lambda>r. src_session r = sid) (source_table db))"

definition active_session :: "review_db \<Rightarrow> session_row option" where
  "active_session db = List.find (\<lambda>s. ses_status s = ''active'') (session_table db)"

definition session_by :: "review_db \<Rightarrow> pystr \<Rightarrow> session_row option" where
  "session_by db sid = row_by ses_id sid (session_table db)"

section \<open>Writes\<close>

definition set_source_state :: "pystr \<Rightarrow> pystr \<Rightarrow> pystr \<Rightarrow> review_db \<Rightarrow> review_db" where
  "set_source_state sid source st db =
     db\<lparr>source_table := update_where (\<lambda>r. src_key r = (sid, source)) (\<lambda>r. r\<lparr>src_state := st\<rparr>) (source_table db)\<rparr>"

definition set_active_source :: "pystr \<Rightarrow> pystr \<Rightarrow> review_db \<Rightarrow> review_db" where
  "set_active_source sid source db =
     db\<lparr>session_table := update_where (\<lambda>s. ses_id s = sid) (\<lambda>s. s\<lparr>active_source := source\<rparr>) (session_table db)\<rparr>"

definition set_session_status :: "pystr \<Rightarrow> pystr \<Rightarrow> review_db \<Rightarrow> review_db" where
  "set_session_status sid st db =
     db\<lparr>session_table := update_where (\<lambda>s. ses_id s = sid) (\<lambda>s. s\<lparr>ses_status := st\<rparr>) (session_table db)\<rparr>"

definition ensure_source :: "pystr \<Rightarrow> pystr \<Rightarrow> int \<Rightarrow> review_db \<Rightarrow> review_db" where
  "ensure_source sid source order db =
     db\<lparr>source_table := upsert src_key
          \<lparr>src_session = sid, src_name = source, src_order = order, src_state = ''pending'',
           retry_count = 0, last_retry_status = [], last_retry_error = []\<rparr>
          (\<lambda>r. r\<lparr>src_order := order\<rparr>) (source_table db)\<rparr>"

text \<open>\<open>_reconcile_states\<close>: the state of every source of the session, then the active source.\<close>

definition next_state :: "nat \<Rightarrow> pystr \<Rightarrow> pystr" where
  "next_state pending st =
     (if pending = 0 then ''complete'' else if st = ''deferred'' then ''deferred''
      else if st = ''active'' then ''active'' else ''pending'')"

definition reconcile_sources :: "pystr \<Rightarrow> review_db \<Rightarrow> review_db" where
  "reconcile_sources sid db =
     db\<lparr>source_table := update_where (\<lambda>r. src_session r = sid)
          (\<lambda>r. r\<lparr>src_state := next_state (pending_count db sid (src_name r)) (src_state r)\<rparr>) (source_table db)\<rparr>"

definition reconcile_active :: "pystr \<Rightarrow> review_db \<Rightarrow> review_db" where
  "reconcile_active sid db =
     (let active = (case session_by db sid of None \<Rightarrow> [] | Some s \<Rightarrow> handle (active_source s)) in
      if active \<noteq> [] \<and>
         (pending_count db sid active = 0 \<or>
          (case row_by src_key (sid, active) (source_table db) of
             None \<Rightarrow> True | Some r \<Rightarrow> src_state r \<noteq> ''active''))
      then set_active_source sid [] db else db)"

definition reconcile_states :: "pystr \<Rightarrow> review_db \<Rightarrow> review_db" where
  "reconcile_states sid db = reconcile_active sid (reconcile_sources sid db)"

definition eligible :: "review_db \<Rightarrow> pystr \<Rightarrow> source_row \<Rightarrow> bool" where
  "eligible db sid r \<longleftrightarrow> 0 < pending_count db sid (src_name r) \<and> src_state r \<noteq> ''deferred''"

definition unresolved :: "review_db \<Rightarrow> pystr \<Rightarrow> source_row \<Rightarrow> bool" where
  "unresolved db sid r \<longleftrightarrow>
     src_session r = sid \<and> src_state r = ''deferred'' \<and> 0 < pending_count db sid (src_name r)"

definition activate_next :: "pystr \<Rightarrow> review_db \<Rightarrow> review_db" where
  "activate_next sid db = (case session_by db sid of
       None \<Rightarrow> db
     | Some s \<Rightarrow>
         if handle (active_source s) \<noteq> [] then db
         else case List.find (eligible db sid) (session_sources db sid) of
             Some r \<Rightarrow> set_active_source sid (src_name r) (set_source_state sid (src_name r) ''active'' db)
           | None \<Rightarrow>
               if list_ex (unresolved db sid) (source_table db) then db
               else set_session_status sid ''complete'' db)"

section \<open>Public operations\<close>

definition put_item :: "pystr \<Rightarrow> pystr \<Rightarrow> inbox_row \<Rightarrow> item_row list \<Rightarrow> item_row list" where
  "put_item sid source r t = insert_ignore item_key
     \<lparr>item_session = sid, item_draft = draft_id r, item_source = source, item_created = inbox_created r\<rparr> t"

text \<open>The loop over the pending rows, with the dict \<open>known_orders\<close>.\<close>

fun enrol_rows :: "pystr \<Rightarrow> inbox_row list \<Rightarrow> (pystr \<times> int) list \<Rightarrow> review_db \<Rightarrow> review_db" where
  "enrol_rows sid [] orders db = db"
| "enrol_rows sid (r # rs) orders db =
     (let source = or_default (handle (inbox_source r)) ''unknown'' in
      if source \<in> set (map fst orders)
      then enrol_rows sid rs orders (db\<lparr>item_table := put_item sid source r (item_table db)\<rparr>)
      else let order = int (length orders);
               db' = ensure_source sid source order db
           in enrol_rows sid rs (orders @ [(source, order)])
                (db'\<lparr>item_table := put_item sid source r (item_table db')\<rparr>))"

definition unknown_sources :: "(pystr \<times> int) list \<Rightarrow> inbox_row list \<Rightarrow> pystr list" where
  "unknown_sources configured rs =
     sort (remdups (filter (\<lambda>h. h \<noteq> [] \<and> h \<notin> set (map fst configured))
       (map (\<lambda>r. handle (inbox_source r)) rs)))"

definition sync_session :: "(pystr \<times> int) list \<Rightarrow> pystr \<Rightarrow> review_db \<Rightarrow> review_db" where
  "sync_session configured sid db =
     (let rs = pending_rows (inbox_table db);
          unknown = unknown_sources configured rs;
          orders = configured @ zip unknown (map int [length configured..<length configured + length unknown])
      in activate_next sid (reconcile_states sid
           (enrol_rows sid rs orders (fold (\<lambda>(source, order). ensure_source sid source order) orders db))))"

definition sync :: "pystr \<Rightarrow> (pystr \<times> int) list \<Rightarrow> review_db \<Rightarrow> py_exc + (pystr \<times> review_db)" where
  "sync fresh_id configured db = (case active_session db of
       Some s \<Rightarrow> Inr (ses_id s, sync_session configured (ses_id s) db)
     | None \<Rightarrow>
         if pending_rows (inbox_table db) = [] then Inr ([], db)
         else if fresh_id \<in> set (map ses_id (session_table db)) then Inl IntegrityError
         else Inr (fresh_id, sync_session configured fresh_id
                (db\<lparr>session_table := session_table db @
                    [\<lparr>ses_id = fresh_id, ses_status = ''active'', active_source = []\<rparr>]\<rparr>)))"

definition defer_source :: "pystr \<Rightarrow> pystr \<Rightarrow> review_db \<Rightarrow> bool \<times> review_db" where
  "defer_source sid name db =
     (let source = handle name in
      if row_by src_key (sid, source) (source_table db) = None \<or> pending_count db sid source = 0
      then (False, db)
      else (True, activate_next sid
        ((set_source_state sid source ''deferred'' db)\<lparr>session_table :=
            update_where (\<lambda>s. ses_id s = sid)
              (\<lambda>s. s\<lparr>active_source := (if active_source s = source then [] else active_source s)\<rparr>)
              (session_table db)\<rparr>)))"

definition resume_source :: "pystr \<Rightarrow> pystr \<Rightarrow> review_db \<Rightarrow> bool \<times> review_db" where
  "resume_source sid name db =
     (let source = handle name in
      case row_by src_key (sid, source) (source_table db) of
        None \<Rightarrow> (False, db)
      | Some r \<Rightarrow>
          if src_state r \<noteq> ''deferred'' then (False, db)
          else (True, activate_next sid (set_source_state sid source
                 (if 0 < pending_count db sid source then ''pending'' else ''complete'') db)))"

definition begin_retry :: "pystr \<Rightarrow> pystr \<Rightarrow> review_db \<Rightarrow> bool \<times> review_db" where
  "begin_retry sid name db =
     (let source = handle name in
      (0 < rowcount (\<lambda>r. src_key r = (sid, source)) (source_table db),
       db\<lparr>source_table := update_where (\<lambda>r. src_key r = (sid, source))
            (\<lambda>r. r\<lparr>retry_count := retry_count r + 1, last_retry_status := ''running'',
                  last_retry_error := []\<rparr>) (source_table db)\<rparr>))"

definition finish_retry :: "pystr \<Rightarrow> pystr \<Rightarrow> bool \<Rightarrow> pystr \<Rightarrow> review_db \<Rightarrow> bool \<times> review_db" where
  "finish_retry sid name success err db =
     (let source = handle name in
      (0 < rowcount (\<lambda>r. src_key r = (sid, source)) (source_table db),
       db\<lparr>source_table := update_where (\<lambda>r. src_key r = (sid, source))
            (\<lambda>r. r\<lparr>last_retry_status := (if success then ''success'' else ''failed''),
                  last_retry_error := take 160 err\<rparr>) (source_table db)\<rparr>))"

section \<open>The snapshot\<close>

record queue_entry =
  entry_source :: pystr
  entry_order :: int
  entry_state :: pystr
  total_items :: nat
  done_items :: nat
  entry_pending :: nat
  completeness_status :: pystr
  completeness_error :: pystr
  entry_retries :: nat
  entry_retry_status :: pystr

record queue_snapshot =
  snap_session :: pystr
  total_sources :: nat
  snap_active :: pystr
  active_position :: nat
  current_draft_id :: pystr
  current_item_number :: nat
  current_item_total :: nat
  snap_sources :: "queue_entry list"

definition latest_completeness :: "review_db \<Rightarrow> pystr \<Rightarrow> pystr \<times> pystr" where
  "latest_completeness db source = (case last_proof db (handle source) of
       None \<Rightarrow> (''unknown'', [])
     | Some (st, err) \<Rightarrow> (or_default st ''unknown'', take 160 err))"

definition queue_entry_of :: "review_db \<Rightarrow> pystr \<Rightarrow> source_row \<Rightarrow> queue_entry" where
  "queue_entry_of db sid r =
     (let (total, pending) = counts db sid (src_name r); (st, err) = latest_completeness db (src_name r)
      in \<lparr>entry_source = src_name r, entry_order = src_order r, entry_state = src_state r,
          total_items = total, done_items = total - pending, entry_pending = pending,
          completeness_status = st, completeness_error = err, entry_retries = retry_count r,
          entry_retry_status = last_retry_status r\<rparr>)"

fun find_position :: "nat \<Rightarrow> pystr \<Rightarrow> queue_entry list \<Rightarrow> (nat \<times> queue_entry) option" where
  "find_position i source [] = None"
| "find_position i source (e # es) =
     (if entry_source e = source then Some (i, e) else find_position (Suc i) source es)"

definition current_draft :: "review_db \<Rightarrow> pystr \<Rightarrow> pystr \<Rightarrow> pystr" where
  "current_draft db sid source =
     (case sort_key (\<lambda>q. (item_created q, item_draft q)) (pending_items db sid source) of
        [] \<Rightarrow> [] | q # _ \<Rightarrow> item_draft q)"

definition empty_snapshot :: queue_snapshot where
  "empty_snapshot = \<lparr>snap_session = [], total_sources = 0, snap_active = [], active_position = 0,
     current_draft_id = [], current_item_number = 0, current_item_total = 0, snap_sources = []\<rparr>"

definition snapshot :: "pystr \<Rightarrow> review_db \<Rightarrow> queue_snapshot" where
  "snapshot requested db =
     (let sid = (if requested = [] then (case active_session db of None \<Rightarrow> [] | Some s \<Rightarrow> ses_id s)
                 else requested) in
      if sid = [] then empty_snapshot
      else case session_by db sid of
        None \<Rightarrow> empty_snapshot
      | Some s \<Rightarrow>
          (let entries = map (queue_entry_of db sid) (session_sources db sid);
               source = handle (active_source s);
               (pos, num, tot) = (if source = [] then (0, 0, 0)
                 else case find_position 1 source entries of
                     None \<Rightarrow> (0, 0, 0)
                   | Some (i, e) \<Rightarrow> (i, if 0 < entry_pending e then min (total_items e) (done_items e + 1)
                                      else total_items e, total_items e))
           in \<lparr>snap_session = sid, total_sources = length entries, snap_active = source,
               active_position = pos,
               current_draft_id = (if source = [] then [] else current_draft db sid source),
               current_item_number = num, current_item_total = tot, snap_sources = entries\<rparr>))"

definition deferred_sources :: "queue_snapshot \<Rightarrow> pystr list" where
  "deferred_sources s = map entry_source (filter (\<lambda>e. entry_state e = ''deferred'') (snap_sources s))"

section \<open>Invariant\<close>

definition focus :: "review_db \<Rightarrow> pystr \<Rightarrow> pystr option" where
  "focus db sid = map_option active_source (session_by db sid)"

definition clean :: "pystr \<Rightarrow> bool" where "clean h \<longleftrightarrow> handle h = h"

definition keys_unique :: "review_db \<Rightarrow> bool" where
  "keys_unique db \<longleftrightarrow> unique_on ses_id (session_table db) \<and> unique_on src_key (source_table db) \<and>
     unique_on item_key (item_table db) \<and> inbox_inv (inbox_table db)"

definition one_active :: "session_row list \<Rightarrow> bool" where
  "one_active t \<longleftrightarrow> (\<forall>s \<in> set t. \<forall>s' \<in> set t.
     ses_status s = ''active'' \<longrightarrow> ses_status s' = ''active'' \<longrightarrow> ses_id s = ses_id s')"

definition names_clean :: "review_db \<Rightarrow> bool" where
  "names_clean db \<longleftrightarrow> (\<forall>sid x. focus db sid = Some x \<longrightarrow> clean x) \<and>
     (\<forall>r \<in> set (inbox_table db). clean (handle (inbox_source r)))"

text \<open>A source row has a session and a canonical name; its state is \<open>active\<close> only in focus.\<close>

definition row_ok :: "review_db \<Rightarrow> source_row \<Rightarrow> bool" where
  "row_ok db r \<longleftrightarrow> src_name r \<noteq> [] \<and> clean (src_name r) \<and> src_session r \<in> ses_id ` set (session_table db) \<and>
     (src_state r = ''active'' \<longrightarrow> focus db (src_session r) = Some (src_name r))"

definition sources_ok :: "review_db \<Rightarrow> bool" where
  "sources_ok db \<longleftrightarrow> (\<forall>r \<in> set (source_table db). row_ok db r)"

definition items_homed :: "review_db \<Rightarrow> bool" where
  "items_homed db \<longleftrightarrow> (\<forall>q \<in> set (item_table db).
     (item_session q, item_source q) \<in> src_key ` set (source_table db))"

definition queue_inv :: "review_db \<Rightarrow> bool" where
  "queue_inv db \<longleftrightarrow> keys_unique db \<and> one_active (session_table db) \<and> names_clean db \<and> sources_ok db \<and> items_homed db"


text \<open>How the elementary writes act on the views the invariant is stated over.\<close>

lemma session_by_simps [simp]:
  "session_by (set_source_state sid x st db) k = session_by db k"
  "session_by (ensure_source sid x n db) k = session_by db k"
  "session_by (reconcile_sources sid db) k = session_by db k"
  "session_by (db\<lparr>item_table := it\<rparr>) k = session_by db k"
  "session_by (db\<lparr>source_table := st'\<rparr>) k = session_by db k"
  by (simp_all add: session_by_def set_source_state_def ensure_source_def reconcile_sources_def)

lemma focus_simps [simp]:
  "focus (set_source_state sid x st db) k = focus db k"
  "focus (ensure_source sid x n db) k = focus db k"
  "focus (reconcile_sources sid db) k = focus db k"
  "focus (db\<lparr>item_table := it\<rparr>) k = focus db k"
  "focus (db\<lparr>source_table := st'\<rparr>) k = focus db k"
  "focus (set_active_source sid x db) k = (if k = sid then map_option (\<lambda>_. x) (focus db k) else focus db k)"
  "focus (set_session_status sid st db) k = focus db k"
  by (simp_all add: focus_def)
     (auto simp: session_by_def set_active_source_def set_session_status_def row_by_update_where
       option.map_comp comp_def dest: row_by_Some intro!: option.map_cong)

lemma pending_count_cong:
  "item_table db' = item_table db \<Longrightarrow> inbox_table db' = inbox_table db \<Longrightarrow>
    pending_count db' sid x = pending_count db sid x"
  by (simp add: pending_count_def counts_def pending_items_def source_items_def)

lemma table_frames [simp]:
  "item_table (set_source_state sid x st db) = item_table db"
  "inbox_table (set_source_state sid x st db) = inbox_table db"
  "session_table (set_source_state sid x st db) = session_table db"
  "item_table (ensure_source sid x n db) = item_table db"
  "inbox_table (ensure_source sid x n db) = inbox_table db"
  "session_table (ensure_source sid x n db) = session_table db"
  "item_table (reconcile_sources sid db) = item_table db"
  "inbox_table (reconcile_sources sid db) = inbox_table db"
  "session_table (reconcile_sources sid db) = session_table db"
  "item_table (set_active_source sid x db) = item_table db"
  "inbox_table (set_active_source sid x db) = inbox_table db"
  "source_table (set_active_source sid x db) = source_table db"
  "item_table (set_session_status sid st db) = item_table db"
  "inbox_table (set_session_status sid st db) = inbox_table db"
  "source_table (set_session_status sid st db) = source_table db"
  by (simp_all add: set_source_state_def ensure_source_def reconcile_sources_def set_active_source_def
      set_session_status_def)

lemma count_frames [simp]:
  "pending_count (set_source_state sid x st db) k y = pending_count db k y"
  "pending_count (ensure_source sid x n db) k y = pending_count db k y"
  "pending_count (reconcile_sources sid db) k y = pending_count db k y"
  "pending_count (set_active_source sid x db) k y = pending_count db k y"
  "pending_count (set_session_status sid st db) k y = pending_count db k y"
  by (rule pending_count_cong; simp)+

lemma handle_unknown [simp]: "clean ''unknown''" "clean []"
  by (simp_all add: clean_def handle_def py_strip_def py_space_def py_lstrip_at_def py_casefold_def
      lower_char_def)

text \<open>Each write keeps the invariant.\<close>

lemma queue_invD:
  assumes "queue_inv db"
  shows "unique_on ses_id (session_table db)" "unique_on src_key (source_table db)"
    "unique_on item_key (item_table db)" "inbox_inv (inbox_table db)" "one_active (session_table db)"
    "names_clean db" "r \<in> set (source_table db) \<Longrightarrow> row_ok db r" "items_homed db"
  using assms by (simp_all add: queue_inv_def keys_unique_def sources_ok_def)

lemma queue_invI:
  assumes "unique_on ses_id (session_table db)" "unique_on src_key (source_table db)"
    "unique_on item_key (item_table db)" "inbox_inv (inbox_table db)" "one_active (session_table db)"
    "names_clean db" "\<And>r. r \<in> set (source_table db) \<Longrightarrow> row_ok db r" "items_homed db"
  shows "queue_inv db"
  using assms by (simp add: queue_inv_def keys_unique_def sources_ok_def)

lemma one_active_update:
  assumes "one_active t"
    and "\<And>s. ses_id (f s) = ses_id s \<and> (ses_status (f s) = ''active'' \<longrightarrow> ses_status s = ''active'')"
  shows "one_active (update_where P f t)"
  unfolding one_active_def
proof (intro ballI impI)
  fix s s' assume s: "s \<in> set (update_where P f t)" "s' \<in> set (update_where P f t)"
    and act: "ses_status s = ''active''" "ses_status s' = ''active''"
  obtain y where y: "y \<in> set t" "s = (if P y then f y else y)" using s(1) by (rule in_update_whereE)
  obtain y' where y': "y' \<in> set t" "s' = (if P y' then f y' else y')" using s(2) by (rule in_update_whereE)
  have "ses_id y = ses_id y'"
    using assms(1) y(1) y'(1) act assms(2) y(2) y'(2) unfolding one_active_def by metis
  then show "ses_id s = ses_id s'" using y(2) y'(2) assms(2) by simp
qed

lemma homed_mono:
  "items_homed db \<Longrightarrow> item_table db' = item_table db \<Longrightarrow>
    src_key ` set (source_table db) \<subseteq> src_key ` set (source_table db') \<Longrightarrow> items_homed db'"
  unfolding items_homed_def by auto

lemma names_clean_cong:
  "names_clean db \<Longrightarrow> inbox_table db' = inbox_table db \<Longrightarrow>
    (\<And>sid x. focus db' sid = Some x \<Longrightarrow> focus db sid = Some x \<or> clean x) \<Longrightarrow> names_clean db'"
  unfolding names_clean_def by metis

lemma ensure_source_inv:
  assumes "queue_inv db" "x \<noteq> []" "clean x" "sid \<in> ses_id ` set (session_table db)"
  shows "queue_inv (ensure_source sid x n db)"
proof (rule queue_invI)
  let ?db = "ensure_source sid x n db"
  note inv = queue_invD [OF assms(1)]
  have key: "src_key (r\<lparr>src_order := n\<rparr>) = src_key r" for r by (simp add: src_key_def)
  show "row_ok ?db r" if r: "r \<in> set (source_table ?db)" for r
  proof -
    from r consider "r = \<lparr>src_session = sid, src_name = x, src_order = n, src_state = ''pending'',
        retry_count = 0, last_retry_status = [], last_retry_error = []\<rparr>"
      | y where "y \<in> set (source_table db)" "r = y \<or> r = y\<lparr>src_order := n\<rparr>"
      unfolding ensure_source_def by (auto dest!: set_upsert)
    then show ?thesis
    proof cases
      case 1
      then show ?thesis using assms by (simp add: row_ok_def)
    next
      case (2 y)
      with inv(7) [OF 2(1)] show ?thesis by (auto simp: row_ok_def)
    qed
  qed
  show "unique_on src_key (source_table ?db)"
    using inv(2) by (auto simp: ensure_source_def key intro!: upsert_unique)
  have "src_key ` set (source_table db) \<subseteq> src_key ` set (source_table ?db)"
    by (auto simp: ensure_source_def keys_upsert key)
  then show "items_homed ?db" by (intro homed_mono [OF inv(8)]) simp_all
  show "names_clean ?db" using inv(6) by (rule names_clean_cong) simp_all
qed (use queue_invD [OF assms(1)] in simp_all)

lemma source_update_inv:
  assumes "queue_inv db"
    and "\<And>r. r \<in> set (source_table db) \<Longrightarrow> P r \<Longrightarrow> src_key (f r) = src_key r"
    and "\<And>r. r \<in> set (source_table db) \<Longrightarrow> P r \<Longrightarrow> src_state (f r) = ''active'' \<Longrightarrow>
      src_state r = ''active'' \<or> focus db (src_session r) = Some (src_name r)"
  shows "queue_inv (db\<lparr>source_table := update_where P f (source_table db)\<rparr>)"
proof (rule queue_invI)
  let ?db = "db\<lparr>source_table := update_where P f (source_table db)\<rparr>"
  note inv = queue_invD [OF assms(1)]
  have keys: "map src_key (update_where P f (source_table db)) = map src_key (source_table db)"
    using assms(2) by (simp add: update_where_def)
  show "row_ok ?db r" if r: "r \<in> set (source_table ?db)" for r
  proof -
    from r obtain y where y: "y \<in> set (source_table db)" "r = (if P y then f y else y)"
      using in_update_whereE [of r P f "source_table db"] by auto
    from inv(7) [OF y(1)] show ?thesis using assms(2,3) [OF y(1)] y(2)
      by (cases "P y") (auto simp: row_ok_def src_key_def)
  qed
  show "unique_on src_key (source_table ?db)" using inv(2) keys by (simp add: unique_on_def)
  have "src_key ` set (update_where P f (source_table db)) = src_key ` set (source_table db)"
    using keys by (metis list.set_map)
  with inv(8) show "items_homed ?db" by (intro homed_mono [OF inv(8)]) simp_all
  show "names_clean ?db" using inv(6) by (rule names_clean_cong) simp_all
qed (use queue_invD [OF assms(1)] in simp_all)

text \<open>Writing a session row: no source of the session may be left active out of focus.\<close>

lemma session_update_inv:
  assumes "queue_inv db"
    and "\<And>s. ses_id (f s) = ses_id s \<and> (ses_status (f s) = ''active'' \<longrightarrow> ses_status s = ''active'')"
    and "\<And>k x. focus (db\<lparr>session_table := update_where P f (session_table db)\<rparr>) k = Some x \<Longrightarrow>
      focus db k = Some x \<or> clean x"
    and "\<And>r. r \<in> set (source_table db) \<Longrightarrow> src_state r = ''active'' \<Longrightarrow>
      focus db (src_session r) = Some (src_name r) \<Longrightarrow>
      focus (db\<lparr>session_table := update_where P f (session_table db)\<rparr>) (src_session r) = Some (src_name r)"
  shows "queue_inv (db\<lparr>session_table := update_where P f (session_table db)\<rparr>)"
proof (rule queue_invI)
  let ?db = "db\<lparr>session_table := update_where P f (session_table db)\<rparr>"
  note inv = queue_invD [OF assms(1)]
  have ids: "map ses_id (session_table ?db) = map ses_id (session_table db)"
    using assms(2) by (simp add: update_where_def)
  then have idset: "ses_id ` set (session_table ?db) = ses_id ` set (session_table db)" by (metis list.set_map)
  show "row_ok ?db r" if "r \<in> set (source_table ?db)" for r
    using inv(7) [of r] assms(4) [of r] that idset by (simp add: row_ok_def)
  show "unique_on ses_id (session_table ?db)" using inv(1) ids by (simp add: unique_on_def)
  show "one_active (session_table ?db)" using one_active_update [OF inv(5) assms(2)] by simp
  show "names_clean ?db" using inv(6) by (rule names_clean_cong) (use assms(3) in simp_all)
  show "items_homed ?db" using inv(8) by (rule homed_mono) simp_all
qed (use queue_invD [OF assms(1)] in simp_all)

lemma set_active_source_inv:
  assumes "queue_inv db" "clean x"
    and "\<And>r. r \<in> set (source_table db) \<Longrightarrow> src_session r = sid \<Longrightarrow> src_state r = ''active'' \<Longrightarrow> src_name r = x"
  shows "queue_inv (set_active_source sid x db)"
proof -
  have f: "focus (db\<lparr>session_table := update_where (\<lambda>s. ses_id s = sid) (\<lambda>s. s\<lparr>active_source := x\<rparr>)
      (session_table db)\<rparr>) k = (if k = sid then map_option (\<lambda>_. x) (focus db k) else focus db k)" for k
    using focus_simps(6) [of sid x db k] by (simp add: set_active_source_def)
  show ?thesis unfolding set_active_source_def
    by (rule session_update_inv [OF assms(1)]) (use assms(2,3) in \<open>auto simp: f split: if_splits\<close>)
qed

lemma complete_session_inv:
  assumes "queue_inv db"
  shows "queue_inv (set_session_status sid ''complete'' db)"
proof -
  have f: "focus (db\<lparr>session_table := update_where (\<lambda>s. ses_id s = sid) (\<lambda>s. s\<lparr>ses_status := ''complete''\<rparr>)
      (session_table db)\<rparr>) k = focus db k" for k
    using focus_simps(7) [of sid "''complete''" db k] by (simp add: set_session_status_def)
  show ?thesis unfolding set_session_status_def
    by (rule session_update_inv [OF assms]) (auto simp: f)
qed

lemma set_source_state_inv:
  assumes "queue_inv db" "st = ''active'' \<Longrightarrow> focus db sid = Some x"
  shows "queue_inv (set_source_state sid x st db)"
  unfolding set_source_state_def
  by (rule source_update_inv [OF assms(1)]) (use assms(2) in \<open>auto simp: src_key_def\<close>)

lemma focus_clean: "queue_inv db \<Longrightarrow> focus db sid = Some x \<Longrightarrow> handle x = x"
  using queue_invD(6) [of db] by (auto simp: names_clean_def clean_def)

lemma source_in_focus:
  "queue_inv db \<Longrightarrow> r \<in> set (source_table db) \<Longrightarrow> src_state r = ''active'' \<Longrightarrow>
    focus db (src_session r) = Some (src_name r)"
  using queue_invD(7) by (auto simp: row_ok_def)

lemma source_named: "queue_inv db \<Longrightarrow> r \<in> set (source_table db) \<Longrightarrow> src_name r \<noteq> [] \<and> clean (src_name r)"
  using queue_invD(7) by (auto simp: row_ok_def)

lemma reconcile_sources_inv: "queue_inv db \<Longrightarrow> queue_inv (reconcile_sources sid db)"
  unfolding reconcile_sources_def
  by (rule source_update_inv) (auto simp: src_key_def next_state_def split: if_splits)

lemma next_state_cases:
  "(next_state n st = ''complete'' \<longleftrightarrow> n = 0) \<and> next_state n st \<in> {''complete'', ''deferred'', ''active'', ''pending''}"
  by (simp add: next_state_def)

lemma reconciled:
  assumes "r \<in> set (source_table (reconcile_sources sid db))" "src_session r = sid"
  shows "(src_state r = ''complete'' \<longleftrightarrow> pending_count db sid (src_name r) = 0) \<and>
    src_state r \<in> {''complete'', ''deferred'', ''active'', ''pending''}"
proof -
  from assms(1) obtain y where "r = (if src_session y = sid
      then y\<lparr>src_state := next_state (pending_count db sid (src_name y)) (src_state y)\<rparr> else y)"
    by (auto simp: reconcile_sources_def elim: in_update_whereE)
  with assms(2) have "src_name r = src_name y"
    "src_state r = next_state (pending_count db sid (src_name y)) (src_state y)" by (auto split: if_splits)
  then show ?thesis using next_state_cases [of "pending_count db sid (src_name y)" "src_state y"] by metis
qed

text \<open>\<open>_reconcile_states\<close> leaves the focus on an active source with work, or nowhere.\<close>

definition focus_live :: "review_db \<Rightarrow> pystr \<Rightarrow> pystr \<Rightarrow> bool" where
  "focus_live db sid x \<longleftrightarrow> 0 < pending_count db sid x \<and>
     (\<exists>r. row_by src_key (sid, x) (source_table db) = Some r \<and> src_state r = ''active'')"

lemma reconcile_active_eq:
  "queue_inv db \<Longrightarrow> focus db sid = Some x \<Longrightarrow>
    reconcile_active sid db = (if x = [] \<or> focus_live db sid x then db else set_active_source sid [] db)"
  using focus_clean [of db sid x]
  by (auto simp: reconcile_active_def focus_def focus_live_def Let_def split: option.splits)

lemma reconcile_states_inv:
  assumes "queue_inv db"
  shows "queue_inv (reconcile_states sid db)"
proof -
  define db1 where "db1 = reconcile_sources sid db"
  have inv: "queue_inv db1" unfolding db1_def using assms by (rule reconcile_sources_inv)
  show ?thesis
  proof (cases "focus db1 sid")
    case None
    then have "reconcile_active sid db1 = db1"
      by (simp add: reconcile_active_def focus_def)
    with inv show ?thesis by (simp add: reconcile_states_def db1_def)
  next
    case (Some x)
    have live: "focus_live db1 sid x"
      if r: "r \<in> set (source_table db1)" "src_session r = sid" "src_state r = ''active''" for r
    proof -
      have "src_name r = x" using source_in_focus [OF inv r(1,3)] Some r(2) by simp
      moreover have "row_by src_key (sid, src_name r) (source_table db1) = Some r"
        using row_by_unique [OF queue_invD(2) [OF inv] r(1)] r(2) by (simp add: src_key_def)
      ultimately show ?thesis
        using reconciled [OF r(1)[unfolded db1_def] r(2)] r(3) by (auto simp: focus_live_def db1_def)
    qed
    have "queue_inv (set_active_source sid [] db1)" if "\<not> focus_live db1 sid x"
      by (rule set_active_source_inv [OF inv]) (use live that in auto)
    then show ?thesis
      using reconcile_active_eq [OF inv Some] inv by (simp add: reconcile_states_def flip: db1_def)
  qed
qed

lemma set_commute:
  "set_active_source k x (set_source_state sid y st db) = set_source_state sid y st (set_active_source k x db)"
  by (simp add: set_active_source_def set_source_state_def)

lemma session_sources_set [simp]:
  "set (session_sources db sid) = {r \<in> set (source_table db). src_session r = sid}"
  by (simp add: session_sources_def)

lemma activate_next_inv:
  assumes inv: "queue_inv db"
  shows "queue_inv (activate_next sid db)"
proof (cases "\<exists>s r. session_by db sid = Some s \<and> handle (active_source s) = [] \<and>
    List.find (eligible db sid) (session_sources db sid) = Some r")
  case True
  then obtain s r where s: "session_by db sid = Some s" "handle (active_source s) = []"
    and f: "List.find (eligible db sid) (session_sources db sid) = Some r" by blast
  from f have "r \<in> set (session_sources db sid)" by (metis find_Some_iff nth_mem)
  then have r: "r \<in> set (source_table db)" "src_session r = sid" by simp_all
  have fo: "focus db sid = Some []" using s focus_clean [OF inv, of sid "active_source s"] by (simp add: focus_def)
  have none: "src_state y \<noteq> ''active''" if "y \<in> set (source_table db)" "src_session y = sid" for y
    using source_in_focus [OF inv that(1)] source_named [OF inv that(1)] that(2) fo by auto
  have "queue_inv (set_active_source sid (src_name r) db)"
    by (rule set_active_source_inv [OF inv]) (use source_named [OF inv r(1)] none in auto)
  then have "queue_inv (set_source_state sid (src_name r) ''active'' (set_active_source sid (src_name r) db))"
    by (rule set_source_state_inv) (simp add: fo)
  then show ?thesis using s f by (simp add: activate_next_def set_commute)
next
  case False
  then have "activate_next sid db \<in> {db, set_session_status sid ''complete'' db}"
    by (auto simp: activate_next_def split: option.splits)
  then show ?thesis using inv complete_session_inv [OF inv] by auto
qed

section \<open>Enrolment\<close>

definition item_of :: "pystr \<Rightarrow> inbox_row \<Rightarrow> item_row" where
  "item_of sid r = \<lparr>item_session = sid, item_draft = draft_id r,
     item_source = or_default (handle (inbox_source r)) ''unknown'', item_created = inbox_created r\<rparr>"

lemma put_item_of:
  "put_item sid (or_default (handle (inbox_source r)) ''unknown'') r t = insert_ignore item_key (item_of sid r) t"
  by (simp add: put_item_def item_of_def)

lemma enrol_items:
  "item_table (enrol_rows sid rs orders db) =
    fold (\<lambda>r. insert_ignore item_key (item_of sid r)) rs (item_table db)"
  by (induction rs arbitrary: orders db) (simp_all add: Let_def put_item_of)

lemma enrol_frames [simp]:
  "session_table (enrol_rows sid rs orders db) = session_table db"
  "inbox_table (enrol_rows sid rs orders db) = inbox_table db"
  by (induction rs arbitrary: orders db) (simp_all add: Let_def)

lemma source_keys_ensure [simp]:
  "src_key ` set (source_table (ensure_source sid x n db)) = insert (sid, x) (src_key ` set (source_table db))"
proof -
  have key: "src_key (r\<lparr>src_order := n\<rparr>) = src_key r" for r by (simp add: src_key_def)
  show ?thesis unfolding ensure_source_def by (simp add: keys_upsert key) (simp add: src_key_def)
qed

lemma put_item_inv:
  assumes "queue_inv db" "(sid, x) \<in> src_key ` set (source_table db)"
  shows "queue_inv (db\<lparr>item_table := put_item sid x r (item_table db)\<rparr>)"
proof (rule queue_invI)
  let ?db = "db\<lparr>item_table := put_item sid x r (item_table db)\<rparr>"
  note inv = queue_invD [OF assms(1)]
  show "unique_on item_key (item_table ?db)" using inv(3) by (simp add: put_item_def insert_ignore_unique)
  show "items_homed ?db"
    using inv(8) assms(2) by (auto simp: items_homed_def put_item_def insert_ignore_def)
  show "row_ok ?db y" if "y \<in> set (source_table ?db)" for y
    using inv(7) [of y] that by (simp add: row_ok_def)
  show "names_clean ?db" using inv(6) by (rule names_clean_cong) simp_all
qed (use queue_invD [OF assms(1)] in simp_all)

lemma item_name: "clean (handle v) \<Longrightarrow> or_default (handle v) ''unknown'' \<noteq> [] \<and> clean (or_default (handle v) ''unknown'')"
  by (simp add: or_default_def)

lemma enrol_rows_inv:
  "queue_inv db \<Longrightarrow> sid \<in> ses_id ` set (session_table db) \<Longrightarrow>
    (\<And>r. r \<in> set rs \<Longrightarrow> clean (handle (inbox_source r))) \<Longrightarrow>
    (\<And>x. x \<in> fst ` set orders \<Longrightarrow> (sid, x) \<in> src_key ` set (source_table db)) \<Longrightarrow>
    queue_inv (enrol_rows sid rs orders db)"
proof (induction rs arbitrary: orders db)
  case (Cons r rs)
  let ?x = "or_default (handle (inbox_source r)) ''unknown''"
  have x: "?x \<noteq> []" "clean ?x" using item_name Cons.prems(3) [of r] by auto
  show ?case
  proof (cases "?x \<in> fst ` set orders")
    case True
    let ?db = "db\<lparr>item_table := put_item sid ?x r (item_table db)\<rparr>"
    have "queue_inv (enrol_rows sid rs orders ?db)"
      by (rule Cons.IH [OF put_item_inv [OF Cons.prems(1) Cons.prems(4) [OF True]]]) (use Cons.prems in simp_all)
    with True show ?thesis by (simp add: Let_def)
  next
    case False
    let ?db = "ensure_source sid ?x (int (length orders)) db"
    let ?db2 = "?db\<lparr>item_table := put_item sid ?x r (item_table ?db)\<rparr>"
    have "queue_inv ?db" by (rule ensure_source_inv [OF Cons.prems(1) x Cons.prems(2)])
    then have "queue_inv ?db2" by (rule put_item_inv) simp
    then have "queue_inv (enrol_rows sid rs (orders @ [(?x, int (length orders))]) ?db2)"
      by (rule Cons.IH) (use Cons.prems in \<open>auto\<close>)
    with False show ?thesis by (simp add: Let_def)
  qed
qed simp

lemma ensure_all_inv:
  "queue_inv db \<Longrightarrow> sid \<in> ses_id ` set (session_table db) \<Longrightarrow>
    (\<And>x n. (x, n) \<in> set os \<Longrightarrow> x \<noteq> [] \<and> clean x) \<Longrightarrow>
    queue_inv (fold (\<lambda>(source, order). ensure_source sid source order) os db)"
proof (induction os arbitrary: db)
  case (Cons o' os)
  obtain x n where o': "o' = (x, n)" by force
  have "queue_inv (ensure_source sid x n db)"
    using ensure_source_inv Cons.prems(1,2) Cons.prems(3) [of x n] o' by simp
  then have "queue_inv (fold (\<lambda>(source, order). ensure_source sid source order) os (ensure_source sid x n db))"
    by (rule Cons.IH) (use Cons.prems in auto)
  with o' show ?case by simp
qed simp

lemma ensure_all_frames [simp]:
  "session_table (fold (\<lambda>(source, order). ensure_source sid source order) os db) = session_table db"
  "inbox_table (fold (\<lambda>(source, order). ensure_source sid source order) os db) = inbox_table db"
  "item_table (fold (\<lambda>(source, order). ensure_source sid source order) os db) = item_table db"
  by (induction os arbitrary: db) auto

lemma ensure_all_keys:
  "src_key ` set (source_table (fold (\<lambda>(source, order). ensure_source sid source order) os db)) =
    (\<lambda>x. (sid, x)) ` fst ` set os \<union> src_key ` set (source_table db)"
proof (induction os arbitrary: db)
  case (Cons o' os)
  obtain x n where o': "o' = (x, n)" by force
  show ?case by (simp add: o' Cons.IH)
qed simp

definition orders_of :: "(pystr \<times> int) list \<Rightarrow> review_db \<Rightarrow> (pystr \<times> int) list" where
  "orders_of configured db =
     (let unknown = unknown_sources configured (pending_rows (inbox_table db))
      in configured @ zip unknown (map int [length configured..<length configured + length unknown]))"

definition enrolled_db :: "(pystr \<times> int) list \<Rightarrow> pystr \<Rightarrow> review_db \<Rightarrow> review_db" where
  "enrolled_db configured sid db =
     enrol_rows sid (pending_rows (inbox_table db)) (orders_of configured db)
       (fold (\<lambda>(source, order). ensure_source sid source order) (orders_of configured db) db)"

lemma sync_session_eq:
  "sync_session configured sid db = activate_next sid (reconcile_states sid (enrolled_db configured sid db))"
  by (simp add: sync_session_def enrolled_db_def orders_of_def Let_def)

definition config_clean :: "(pystr \<times> int) list \<Rightarrow> bool" where
  "config_clean configured \<longleftrightarrow> (\<forall>x \<in> fst ` set configured. x \<noteq> [] \<and> clean x)"

lemma pending_rows_set: "set (pending_rows t) = {r \<in> set t. status r = ''pending''}"
  by (simp add: pending_rows_def)

lemma inbox_clean: "queue_inv db \<Longrightarrow> r \<in> set (pending_rows (inbox_table db)) \<Longrightarrow> clean (handle (inbox_source r))"
  using queue_invD(6) [of db] by (auto simp: names_clean_def pending_rows_set)

lemma orders_clean:
  assumes "queue_inv db" "config_clean configured" "(x, n) \<in> set (orders_of configured db)"
  shows "x \<noteq> [] \<and> clean x"
proof -
  from assms(3) have "x \<in> fst ` set configured \<or> x \<in> set (unknown_sources configured (pending_rows (inbox_table db)))"
    by (force simp: orders_of_def Let_def dest: set_zip_leftD)
  then show ?thesis using assms(2) inbox_clean [OF assms(1)]
    by (auto simp: config_clean_def unknown_sources_def)
qed

lemma enrolled_db_inv:
  assumes "queue_inv db" "config_clean configured" "sid \<in> ses_id ` set (session_table db)"
  shows "queue_inv (enrolled_db configured sid db)"
  unfolding enrolled_db_def
proof (rule enrol_rows_inv)
  show "queue_inv (fold (\<lambda>(source, order). ensure_source sid source order) (orders_of configured db) db)"
    using ensure_all_inv [OF assms(1,3)] orders_clean [OF assms(1,2)] by blast
qed (use assms(3) inbox_clean [OF assms(1)] in \<open>auto simp: ensure_all_keys\<close>)

lemma sync_session_inv:
  "queue_inv db \<Longrightarrow> config_clean configured \<Longrightarrow> sid \<in> ses_id ` set (session_table db) \<Longrightarrow>
    queue_inv (sync_session configured sid db)"
  by (simp add: sync_session_eq enrolled_db_inv reconcile_states_inv activate_next_inv)

text \<open>A new session: it has no sources yet, and no other session is active.\<close>

lemma new_session_inv:
  assumes inv: "queue_inv db" and "active_session db = None" "fresh \<notin> ses_id ` set (session_table db)"
  shows "queue_inv (db\<lparr>session_table := session_table db @
    [\<lparr>ses_id = fresh, ses_status = ''active'', active_source = []\<rparr>]\<rparr>)" (is "queue_inv ?db")
proof (rule queue_invI)
  note i = queue_invD [OF inv]
  have none: "ses_status s \<noteq> ''active''" if "s \<in> set (session_table db)" for s
    using assms(2) that by (auto simp: active_session_def find_None_iff)
  show "unique_on ses_id (session_table ?db)" using i(1) assms(3) by (simp add: unique_on_def)
  show "one_active (session_table ?db)" using none by (auto simp: one_active_def)
  have f: "focus ?db k = (case focus db k of None \<Rightarrow> if k = fresh then Some [] else None | Some x \<Rightarrow> Some x)" for k
    by (simp add: focus_def session_by_def row_by_append split: option.split)
  show "names_clean ?db" using i(6) by (rule names_clean_cong) (simp_all add: f split: option.splits if_splits)
  show "row_ok ?db r" if "r \<in> set (source_table ?db)" for r
    using i(7) [of r] that by (auto simp: row_ok_def f)
  show "items_homed ?db" using i(8) by (rule homed_mono) simp_all
qed (use queue_invD [OF inv] in simp_all)

lemma active_session_in: "active_session db = Some s \<Longrightarrow> s \<in> set (session_table db) \<and> ses_status s = ''active''"
  by (auto simp: active_session_def find_Some_iff)

lemma sync_inv:
  assumes "queue_inv db" "config_clean configured" "sync fresh configured db = Inr (sid, db')"
  shows "queue_inv db'"
proof (cases "active_session db")
  case (Some s)
  then show ?thesis using assms sync_session_inv [of db configured "ses_id s"] active_session_in [OF Some]
    by (auto simp: sync_def)
next
  case None
  then show ?thesis using assms new_session_inv [OF assms(1) None, of fresh]
    by (auto simp: sync_def intro!: sync_session_inv split: if_splits)
qed

lemma retry_inv:
  "queue_inv db \<Longrightarrow> queue_inv (snd (begin_retry sid x db))"
  "queue_inv db \<Longrightarrow> queue_inv (snd (finish_retry sid x ok err db))"
  by (auto simp: begin_retry_def finish_retry_def Let_def src_key_def intro!: source_update_inv)

lemma resume_inv: "queue_inv db \<Longrightarrow> queue_inv (snd (resume_source sid x db))"
  by (auto simp: resume_source_def Let_def split: option.split intro!: activate_next_inv set_source_state_inv)

definition drop_focus :: "pystr \<Rightarrow> pystr \<Rightarrow> review_db \<Rightarrow> review_db" where
  "drop_focus sid x db = db\<lparr>session_table := update_where (\<lambda>s. ses_id s = sid)
     (\<lambda>s. s\<lparr>active_source := (if active_source s = x then [] else active_source s)\<rparr>) (session_table db)\<rparr>"

lemma defer_source_eq:
  "defer_source sid name db =
     (if row_by src_key (sid, handle name) (source_table db) = None \<or> pending_count db sid (handle name) = 0
      then (False, db)
      else (True, activate_next sid (drop_focus sid (handle name) (set_source_state sid (handle name) ''deferred'' db))))"
  by (simp add: defer_source_def drop_focus_def Let_def set_source_state_def)

lemma drop_focus_frames [simp]:
  "item_table (drop_focus sid x db) = item_table db"
  "inbox_table (drop_focus sid x db) = inbox_table db"
  "source_table (drop_focus sid x db) = source_table db"
  "pending_count (drop_focus sid x db) k y = pending_count db k y"
  "focus (drop_focus sid x db) k =
    (if k = sid then map_option (\<lambda>a. if a = x then [] else a) (focus db k) else focus db k)"
proof -
  have row: "session_by (drop_focus sid x db) k = map_option (\<lambda>s. if ses_id s = sid
      then s\<lparr>active_source := (if active_source s = x then [] else active_source s)\<rparr> else s) (session_by db k)"
    by (simp add: session_by_def drop_focus_def row_by_update_where)
  show "focus (drop_focus sid x db) k =
    (if k = sid then map_option (\<lambda>a. if a = x then [] else a) (focus db k) else focus db k)"
  proof (cases "session_by db k")
    case (Some s)
    then have "ses_id s = k" by (auto simp: session_by_def dest: row_by_Some)
    with Some row show ?thesis by (cases "k = sid") (simp_all add: focus_def)
  qed (auto simp: focus_def row)
next
  show "pending_count (drop_focus sid x db) k y = pending_count db k y"
    by (rule pending_count_cong) (simp_all add: drop_focus_def)
qed (simp_all add: drop_focus_def)

lemma drop_focus_inv:
  assumes "queue_inv db"
    and "\<And>r. r \<in> set (source_table db) \<Longrightarrow> src_key r = (sid, x) \<Longrightarrow> src_state r \<noteq> ''active''"
  shows "queue_inv (drop_focus sid x db)"
proof -
  have f: "focus (db\<lparr>session_table := update_where (\<lambda>s. ses_id s = sid)
     (\<lambda>s. s\<lparr>active_source := (if active_source s = x then [] else active_source s)\<rparr>) (session_table db)\<rparr>) k =
    (if k = sid then map_option (\<lambda>a. if a = x then [] else a) (focus db k) else focus db k)" for k
    using drop_focus_frames(5) [of sid x db k] by (simp only: drop_focus_def)
  show ?thesis unfolding drop_focus_def
    by (rule session_update_inv [OF assms(1)])
       (use assms(2) in \<open>auto simp: f src_key_def split: if_splits\<close>)
qed

lemma defer_inv:
  assumes "queue_inv db"
  shows "queue_inv (snd (defer_source sid name db))"
proof -
  let ?db = "set_source_state sid (handle name) ''deferred'' db"
  have "queue_inv ?db" using assms by (rule set_source_state_inv) simp
  moreover have "src_state r \<noteq> ''active''" if "r \<in> set (source_table ?db)" "src_key r = (sid, handle name)" for r
    using that by (auto simp: set_source_state_def src_key_def elim!: in_update_whereE split: if_splits)
  ultimately have "queue_inv (drop_focus sid (handle name) ?db)" by (rule drop_focus_inv)
  then show ?thesis using assms by (simp add: defer_source_eq activate_next_inv)
qed

lemma inbox_inv_change:
  assumes "queue_inv db" "inbox_inv t" "\<And>r. r \<in> set t \<Longrightarrow> clean (handle (inbox_source r))"
  shows "queue_inv (db\<lparr>inbox_table := t\<rparr>)"
proof (rule queue_invI)
  note i = queue_invD [OF assms(1)]
  have f: "focus (db\<lparr>inbox_table := t\<rparr>) = focus db" by (simp add: fun_eq_iff focus_def session_by_def)
  show "names_clean (db\<lparr>inbox_table := t\<rparr>)" using i(6) assms(3) by (simp add: names_clean_def f)
  show "row_ok (db\<lparr>inbox_table := t\<rparr>) r" if "r \<in> set (source_table (db\<lparr>inbox_table := t\<rparr>))" for r
    using i(7) [of r] that by (simp add: row_ok_def f)
  show "items_homed (db\<lparr>inbox_table := t\<rparr>)" using i(8) by (rule homed_mono) simp_all
qed (use queue_invD [OF assms(1)] assms(2) in simp_all)

section \<open>The store as a machine\<close>

datatype queue_op =
    QSync pystr "pydict list"
  | QDefer pystr pystr
  | QResume pystr pystr
  | QBeginRetry pystr pystr
  | QFinishRetry pystr pystr bool pystr
  | QDecide pystr pystr
  | QDraft draft "update option" pystr

definition queue_step :: "pyenv \<Rightarrow> queue_op \<Rightarrow> review_db \<Rightarrow> review_db" where
  "queue_step env op db = (case op of
       QSync fresh sources \<Rightarrow> (case sync fresh (configured_sources env sources) db of Inl e \<Rightarrow> db | Inr (sid, db') \<Rightarrow> db')
     | QDefer sid x \<Rightarrow> snd (defer_source sid x db)
     | QResume sid x \<Rightarrow> snd (resume_source sid x db)
     | QBeginRetry sid x \<Rightarrow> snd (begin_retry sid x db)
     | QFinishRetry sid x ok err \<Rightarrow> snd (finish_retry sid x ok err db)
     | QDecide d st \<Rightarrow> db\<lparr>inbox_table := snd (set_status d st (inbox_table db))\<rparr>
     | QDraft d u st \<Rightarrow> (case inbox_upsert d u st (inbox_table db) of None \<Rightarrow> db | Some t \<Rightarrow> db\<lparr>inbox_table := t\<rparr>))"

text \<open>Legal arguments: source names that \<open>_handle\<close> maps to a fixed point of it.\<close>

definition queue_legal :: "pyenv \<Rightarrow> queue_op \<Rightarrow> bool" where
  "queue_legal env op \<longleftrightarrow> (case op of
       QSync fresh sources \<Rightarrow> list_all (\<lambda>(x, n). clean x) (configured_sources env sources)
     | QDraft d u st \<Rightarrow> (case u of None \<Rightarrow> True | Some x \<Rightarrow> clean (handle (author x)))
     | _ \<Rightarrow> True)"

lemma configured_named: "(x, n) \<in> set (configured_loop env i known raws) \<Longrightarrow> x \<noteq> []"
  by (induction env i known raws rule: configured_loop.induct) (auto simp: Let_def split: if_splits)

lemma decide_clean:
  "queue_inv db \<Longrightarrow> r \<in> set (snd (set_status d st (inbox_table db))) \<Longrightarrow> clean (handle (inbox_source r))"
  using queue_invD(6) [of db]
  by (auto simp: set_status_def names_clean_def elim!: in_update_whereE split: if_splits)

lemma draft_clean:
  assumes inv: "queue_inv db" and legal: "case u of None \<Rightarrow> True | Some x \<Rightarrow> clean (handle (author x))"
    and up: "inbox_upsert d u st (inbox_table db) = Some t" and r: "r \<in> set t"
  shows "clean (handle (inbox_source r))"
proof -
  from up obtain x where x: "inbox_row_of d u st = Some x" "t = upsert draft_id x (inbox_merge x) (inbox_table db)"
    by (auto simp: inbox_upsert_def)
  have "inbox_source x = (case u of None \<Rightarrow> [] | Some y \<Rightarrow> author y)"
    using x(1) by (auto simp: inbox_row_of_def bind_eq_Some_conv)
  then have "clean (handle (inbox_source x))"
    using legal by (cases u) (simp_all add: clean_def handle_def py_lstrip_at_def py_casefold_def)
  then show ?thesis
    using set_upsert [OF r [unfolded x(2)]] queue_invD(6) [OF inv] by (auto simp: names_clean_def inbox_merge_def)
qed

lemma queue_step_inv:
  assumes "queue_legal env op" "queue_inv db"
  shows "queue_inv (queue_step env op db)"
proof (cases op)
  case (QSync fresh sources)
  have "config_clean (configured_sources env sources)"
    using assms(1) QSync configured_named
    by (fastforce simp: config_clean_def queue_legal_def configured_sources_def list_all_iff)
  then show ?thesis using assms(2) sync_inv QSync by (auto simp: queue_step_def split: sum.split)
next
  case (QDecide d st)
  have "inbox_inv (snd (set_status d st (inbox_table db)))"
    using queue_invD(4) [OF assms(2)] by (rule set_status_inv)
  with QDecide show ?thesis using inbox_inv_change [OF assms(2)] decide_clean [OF assms(2)]
    by (simp add: queue_step_def)
next
  case (QDraft d u st)
  then show ?thesis using assms inbox_upsert_inv [OF queue_invD(4) [OF assms(2)]] draft_clean [OF assms(2)]
    by (auto simp: queue_step_def queue_legal_def intro!: inbox_inv_change split: option.split)
qed (use assms(2) in \<open>simp_all add: queue_step_def defer_inv resume_inv retry_inv\<close>)

interpretation queue: guarded_machine "queue_step env" queue_inv "queue_legal env" for env
  by unfold_locales (rule queue_step_inv)

definition empty_queue :: review_db where
  "empty_queue = \<lparr>session_table = [], source_table = [], item_table = [], inbox_table = [],
     last_proof = (\<lambda>_. None)\<rparr>"

lemma empty_queue_inv: "queue_inv empty_queue"
  by (rule queue_invI)
     (simp_all add: empty_queue_def inbox_inv_def one_active_def names_clean_def items_homed_def
        focus_def session_by_def)

section \<open>Properties\<close>

text \<open>
  C6: One focus: after any sequence of operations on an empty queue whose source names are canonical
  (\<open>_handle\<close> maps the name of every configured source and author to a fixed point of it) there is
  at most one active round, each draft is enrolled at most once in each round, and a source row is in
  state \<open>active\<close> only when it is the one its round points to, so no round has two active sources.
\<close>

theorem one_focus:
  assumes "list_all (queue_legal env) ops" "db = fold (queue_step env) ops empty_queue"
  shows "one_active (session_table db) \<and> unique_on item_key (item_table db) \<and>
    (\<forall>r \<in> set (source_table db). src_state r = ''active'' \<longrightarrow> focus db (src_session r) = Some (src_name r)) \<and>
    (\<forall>r \<in> set (source_table db). \<forall>r' \<in> set (source_table db).
      src_session r = src_session r' \<and> src_state r = ''active'' \<and> src_state r' = ''active'' \<longrightarrow> r = r')"
proof -
  have inv: "queue_inv db" unfolding assms(2) using assms(1) empty_queue_inv by (rule queue.legal_run)
  have "r = r'" if r: "r \<in> set (source_table db)" "r' \<in> set (source_table db)"
    and s: "src_session r = src_session r'" "src_state r = ''active''" "src_state r' = ''active''" for r r'
  proof -
    have "src_key r = src_key r'"
      using source_in_focus [OF inv r(1) s(2)] source_in_focus [OF inv r(2) s(3)] s(1)
      by (simp add: src_key_def)
    then show ?thesis using row_by_unique [OF queue_invD(2) [OF inv]] r by (metis option.inject)
  qed
  then show ?thesis using queue_invD(3,5) [OF inv] source_in_focus [OF inv] by blast
qed

text \<open>The state of the sources after \<open>sync\<close>, before a source is chosen.\<close>

lemma enrolled_items:
  assumes "draft_pending (inbox_table db) d"
  shows "\<exists>q \<in> set (item_table (enrolled_db configured sid db)). item_session q = sid \<and> item_draft q = d"
proof -
  have "(sid, d) \<in> item_key ` set (fold (\<lambda>r. insert_ignore item_key (item_of sid r))
      (pending_rows (inbox_table db)) (item_table db))"
    by (rule inbox.enrolled [where kf = "Pair sid", OF _ assms]) (simp add: item_key_def item_of_def)
  then show ?thesis by (auto simp: enrolled_db_def enrol_items item_key_def)
qed

text \<open>What one activation step does: nothing, the first eligible source, or the end of the round.\<close>

lemma activate_next_cases:
  assumes "queue_inv db" "session_by db sid = Some s"
  obtains
    (busy) "active_source s \<noteq> []" "activate_next sid db = db"
  | (picked) r where "active_source s = []" "List.find (eligible db sid) (session_sources db sid) = Some r"
      "activate_next sid db = set_source_state sid (src_name r) ''active'' (set_active_source sid (src_name r) db)"
  | (wait) "active_source s = []" "list_ex (unresolved db sid) (source_table db)"
      "\<And>r. r \<in> set (session_sources db sid) \<Longrightarrow> \<not> eligible db sid r" "activate_next sid db = db"
  | (finish) "active_source s = []" "\<not> list_ex (unresolved db sid) (source_table db)"
      "\<And>r. r \<in> set (session_sources db sid) \<Longrightarrow> \<not> eligible db sid r"
      "activate_next sid db = set_session_status sid ''complete'' db"
proof -
  have h: "handle (active_source s) = active_source s"
    using focus_clean [OF assms(1), of sid "active_source s"] assms(2) by (simp add: focus_def)
  show ?thesis
  proof (cases "active_source s = []")
    case False
    with h busy assms(2) show ?thesis by (simp add: activate_next_def)
  next
    case True
    show ?thesis
    proof (cases "List.find (eligible db sid) (session_sources db sid)")
      case None
      then have "\<not> eligible db sid r" if "r \<in> set (session_sources db sid)" for r
        using that unfolding find_None_iff by blast
      with None True h assms(2) wait finish show ?thesis
        by (cases "list_ex (unresolved db sid) (source_table db)") (simp_all add: activate_next_def)
    next
      case (Some r)
      with True h assms(2) picked show ?thesis by (simp add: activate_next_def set_commute)
    qed
  qed
qed

lemma pending_count_pos:
  "0 < pending_count db sid x \<longleftrightarrow> (\<exists>q \<in> set (item_table db). item_session q = sid \<and> item_source q = x \<and>
     draft_pending (inbox_table db) (item_draft q))"
  by (auto simp: pending_count_def counts_def pending_items_def source_items_def length_greater_0_conv
      filter_empty_conv simp del: length_greater_0_conv intro: ccontr)

lemma picked_source:
  assumes "List.find (eligible db sid) (session_sources db sid) = Some r"
  shows "r \<in> set (source_table db)" "src_session r = sid" "eligible db sid r"
proof -
  from assms have "r \<in> set (session_sources db sid) \<and> eligible db sid r"
    by (metis find_Some_iff nth_mem)
  then show "r \<in> set (source_table db)" "src_session r = sid" "eligible db sid r" by simp_all
qed

lemma status_frames [simp]:
  "map_option ses_status (session_by (set_active_source sid x db) k) = map_option ses_status (session_by db k)"
  by (cases "session_by db k") (simp_all add: session_by_def set_active_source_def row_by_update_where)

text \<open>The picture after \<open>_reconcile_states\<close>.\<close>

lemma reconcile_frames [simp]:
  "item_table (reconcile_states sid db) = item_table db"
  "inbox_table (reconcile_states sid db) = inbox_table db"
  "source_table (reconcile_states sid db) = source_table (reconcile_sources sid db)"
  "pending_count (reconcile_states sid db) k y = pending_count db k y"
  "map_option ses_status (session_by (reconcile_states sid db) k) = map_option ses_status (session_by db k)"
  by (simp_all add: reconcile_states_def reconcile_active_def Let_def)

lemma reconciled_focus:
  assumes "queue_inv db" "focus (reconcile_states sid db) sid = Some x"
  shows "x = [] \<or> focus_live (reconcile_states sid db) sid x"
proof -
  define db1 where "db1 = reconcile_sources sid db"
  have inv: "queue_inv db1" unfolding db1_def using assms(1) by (rule reconcile_sources_inv)
  have st: "reconcile_states sid db = reconcile_active sid db1" by (simp add: reconcile_states_def db1_def)
  show ?thesis
  proof (cases "focus db1 sid")
    case None
    then have "session_by db1 sid = None" by (simp add: focus_def)
    then have "reconcile_active sid db1 = db1" by (simp add: reconcile_active_def)
    with assms(2) st None show ?thesis by simp
  next
    case (Some y)
    with assms(2) show ?thesis unfolding st reconcile_active_eq [OF inv Some]
      by (auto split: if_splits)
  qed
qed

lemma set_source_state_row:
  "row_by src_key (sid, x) (source_table db) = Some r \<Longrightarrow>
    \<exists>r'. row_by src_key (sid, x) (source_table (set_source_state sid x st db)) = Some r' \<and> src_state r' = st"
  by (auto simp: set_source_state_def row_by_update_where src_key_def dest: row_by_Some)

lemma picked_live:
  assumes "queue_inv db" "List.find (eligible db sid) (session_sources db sid) = Some r"
  shows "focus_live (set_source_state sid (src_name r) ''active'' (set_active_source sid (src_name r) db)) sid (src_name r)"
proof -
  note r = picked_source [OF assms(2)]
  have "row_by src_key (sid, src_name r) (source_table db) = Some r"
    using row_by_unique [OF queue_invD(2) [OF assms(1)] r(1)] r(2) by (simp add: src_key_def)
  then show ?thesis
    using set_source_state_row [of sid "src_name r" "set_active_source sid (src_name r) db" r "''active''"] r(3)
    by (simp add: focus_live_def eligible_def)
qed

text \<open>The rest of a pass after enrolment: focus on live work, or every source with work is deferred.\<close>

definition round_settled :: "review_db \<Rightarrow> pystr \<Rightarrow> bool" where
  "round_settled db sid \<longleftrightarrow> (\<exists>s. session_by db sid = Some s \<and>
     (focus_live db sid (active_source s) \<or>
      active_source s = [] \<and> (\<forall>r \<in> set (source_table db). src_session r = sid \<and>
         0 < pending_count db sid (src_name r) \<longrightarrow> src_state r = ''deferred'')))"

lemma activate_settles:
  assumes inv: "queue_inv db" and s: "session_by db sid = Some s"
    and live: "active_source s = [] \<or> focus_live db sid (active_source s)"
  shows "round_settled (activate_next sid db) sid"
  using inv s
proof (cases rule: activate_next_cases)
  case busy
  with live s show ?thesis by (auto simp: round_settled_def)
next
  case (picked r)
  have "session_by (set_active_source sid (src_name r) db) sid = Some (s\<lparr>active_source := src_name r\<rparr>)"
    using s row_by_Some [of ses_id sid] by (auto simp: session_by_def set_active_source_def row_by_update_where)
  with picked_live [OF inv picked(2)] show ?thesis by (simp add: round_settled_def picked(3))
next
  case wait
  have "src_state r = ''deferred''"
    if "r \<in> set (source_table db)" "src_session r = sid" "0 < pending_count db sid (src_name r)" for r
    using wait(3) [of r] that by (simp add: eligible_def)
  with s wait(1) show ?thesis by (auto simp: round_settled_def wait(4))
next
  case finish
  have "session_by (set_session_status sid ''complete'' db) sid = Some (s\<lparr>ses_status := ''complete''\<rparr>)"
    using s row_by_Some [of ses_id sid] by (auto simp: session_by_def set_session_status_def row_by_update_where)
  moreover have "src_state r = ''deferred''"
    if "r \<in> set (source_table db)" "src_session r = sid" "0 < pending_count db sid (src_name r)" for r
    using finish(3) [of r] that by (simp add: eligible_def)
  ultimately show ?thesis using finish(1) by (simp add: round_settled_def finish(4))
qed

text \<open>A round with pending work is not closed.\<close>

lemma activate_keeps_open:
  assumes inv: "queue_inv db" and s: "session_by db sid = Some s"
    and q: "q \<in> set (item_table db)" "item_session q = sid" "draft_pending (inbox_table db) (item_draft q)"
  shows "map_option ses_status (session_by (activate_next sid db) sid) = Some (ses_status s)"
  using inv s
proof (cases rule: activate_next_cases)
  case finish
  have "(sid, item_source q) \<in> src_key ` set (source_table db)"
    using queue_invD(8) [OF inv] q(1,2) by (auto simp: items_homed_def)
  then obtain r where r: "r \<in> set (source_table db)" "src_session r = sid" "src_name r = item_source q"
    by (auto simp: src_key_def)
  have "0 < pending_count db sid (src_name r)" using q r(3) by (auto simp: pending_count_pos)
  with finish(3) [of r] r have "unresolved db sid r" by (auto simp: eligible_def unresolved_def)
  with finish(2) r(1) show ?thesis by (auto simp: list_ex_iff)
qed (use s in simp_all)

lemma activate_frames [simp]:
  "inbox_table (activate_next sid db) = inbox_table db"
  "item_table (activate_next sid db) = item_table db"
  by (simp_all add: activate_next_def split: option.split)

lemma sync_inbox: "sync fresh configured db = Inr (sid, db') \<Longrightarrow> inbox_table db' = inbox_table db"
  by (auto simp: sync_def sync_session_eq enrolled_db_def split: option.splits if_splits)

text \<open>
  C5: No pending draft is lost: after a \<open>sync\<close> that names a round, every draft pending in the inbox
  is an item of that round, the round is open while one is, and its focus is on an active source
  with pending work unless every source with pending work has been deferred.
\<close>

theorem sync_settles:
  assumes "queue_inv db" "config_clean configured" "sync fresh configured db = Inr (sid, db')"
    "draft_pending (inbox_table db') d"
  shows "(\<exists>q \<in> set (item_table db'). item_session q = sid \<and> item_draft q = d) \<and>
    map_option ses_status (session_by db' sid) = Some ''active'' \<and> round_settled db' sid"
proof -
  obtain db0 s where db0: "queue_inv db0" "session_by db0 sid = Some s" "ses_status s = ''active''"
    "db' = sync_session configured sid db0"
  proof (cases "active_session db")
    case (Some s)
    have "session_by db (ses_id s) = Some s"
      using row_by_unique [OF queue_invD(1) [OF assms(1)]] active_session_in [OF Some]
      by (simp add: session_by_def)
    with that [of db s] assms(1,3) Some active_session_in [OF Some] show thesis by (auto simp: sync_def)
  next
    case None
    let ?db0 = "db\<lparr>session_table := session_table db @
      [\<lparr>ses_id = fresh, ses_status = ''active'', active_source = []\<rparr>]\<rparr>"
    from None assms(3,4) have f: "fresh \<notin> ses_id ` set (session_table db)" "sid = fresh"
      "db' = sync_session configured sid ?db0"
      by (auto simp: sync_def inbox.pending_listed split: if_splits)
    then have "row_by ses_id fresh (session_table db) = None" by (simp add: row_by_None)
    then have "session_by ?db0 sid = Some \<lparr>ses_id = fresh, ses_status = ''active'', active_source = []\<rparr>"
      by (simp add: session_by_def row_by_append f(2))
    with that [OF new_session_inv [OF assms(1) None f(1)]] f(3) show thesis by simp
  qed
  let ?db1 = "enrolled_db configured sid db0"
  let ?db2 = "reconcile_states sid ?db1"
  have db': "db' = activate_next sid ?db2" using db0(4) by (simp add: sync_session_eq)
  have "sid \<in> ses_id ` set (session_table db0)"
    using db0(2) row_by_Some by (fastforce simp: session_by_def)
  then have inv1: "queue_inv ?db1" using db0(1) assms(2) by (simp add: enrolled_db_inv)
  then have inv2: "queue_inv ?db2" by (rule reconcile_states_inv)
  have "session_by ?db1 sid = Some s" using db0(2) by (simp add: session_by_def enrolled_db_def)
  then have "map_option ses_status (session_by ?db2 sid) = Some ''active''" using db0(3) by simp
  then obtain s2 where s2: "session_by ?db2 sid = Some s2" "ses_status s2 = ''active''"
    unfolding map_option_eq_Some by blast
  have live: "active_source s2 = [] \<or> focus_live ?db2 sid (active_source s2)"
    using reconciled_focus [OF inv1] s2(1) by (simp add: focus_def)
  have "inbox_table ?db2 = inbox_table db0" by (simp add: enrolled_db_def)
  with assms(4) have pend: "draft_pending (inbox_table db0) d" "draft_pending (inbox_table ?db2) d"
    by (simp_all add: db')
  obtain q where q: "q \<in> set (item_table ?db2)" "item_session q = sid" "item_draft q = d"
    using enrolled_items [OF pend(1), of configured sid] by auto
  show ?thesis
    using activate_settles [OF inv2 s2(1) live] activate_keeps_open [OF inv2 s2(1) q(1,2)] q pend(2) s2(2)
    by (auto simp: db')
qed

definition demo_queue :: review_db where
  "demo_queue = empty_queue\<lparr>inbox_table :=
     [demo_row ''1'' ''pending'' ''@Beta'' ''2026-01-02'', demo_row ''2'' ''pending'' ''alpha'' ''2026-01-01'',
      demo_row ''3'' ''ready'' ''alpha'' ''2026-01-01'']\<rparr>"

lemma demo_queue_inv: "queue_inv demo_queue"
proof -
  have "clean (handle ''@Beta'')" "clean (handle ''alpha'')" by code_simp+
  then show ?thesis unfolding demo_queue_def
    by (intro inbox_inv_change [OF empty_queue_inv]) (auto simp: demo_row_def inbox_inv_def valid_statuses_def)
qed

theorem sync_settles_witness:
  "\<exists>db'. sync ''s'' [(''beta'', 0), (''alpha'', 1)] demo_queue = Inr (''s'', db') \<and>
     (\<exists>q \<in> set (item_table db'). item_session q = ''s'' \<and> item_draft q = ''1'') \<and> round_settled db' ''s''"
proof -
  obtain db' where s: "sync ''s'' [(''beta'', 0), (''alpha'', 1)] demo_queue = Inr (''s'', db')"
    by (simp add: sync_def demo_queue_def empty_queue_def active_session_def pending_rows_def demo_row_def)
  then have "inbox_table db' = inbox_table demo_queue" by (rule sync_inbox)
  then have "draft_pending (inbox_table db') ''1''"
    by (simp add: demo_queue_def draft_pending_def demo_row_def)
  moreover have "config_clean [(''beta'', 0), (''alpha'', 1)]" by code_simp
  ultimately show ?thesis using sync_settles [OF demo_queue_inv _ s, of "''1''"] s by blast
qed

definition one_draft :: "queue_op list" where
  "one_draft = [QDraft (demo_draft ''1'') (Some (demo_update ''1'')) ''pending'', QSync ''s'' [], QDefer ''s'' ''a'', QResume ''s'' ''a'']"

lemma one_draft_waits:
  "queue_step env (QDraft (demo_draft ''1'') (Some (demo_update ''1'')) ''pending'') empty_queue =
     empty_queue\<lparr>inbox_table := [demo_row ''1'' ''pending'' ''a'' []]\<rparr>"
  by (simp add: queue_step_def inbox_upsert_def inbox_row_of_def demo_draft_def demo_update_def valid_statuses_def
      empty_queue_def demo_row_def upsert_def)

lemma one_draft_enrolled:
  "\<exists>q \<in> set (item_table (fold (queue_step env) one_draft empty_queue)). item_session q = ''s'' \<and> item_draft q = ''1''"
proof -
  let ?db = "empty_queue\<lparr>inbox_table := [demo_row ''1'' ''pending'' ''a'' []]\<rparr>"
  let ?open = "?db\<lparr>session_table := [\<lparr>ses_id = ''s'', ses_status = ''active'', active_source = []\<rparr>]\<rparr>"
  have none: "configured_sources env [] = []" by (simp add: configured_sources_def)
  have "sync ''s'' [] ?db = Inr (''s'', sync_session [] ''s'' ?open)"
    by (simp add: sync_def empty_queue_def active_session_def pending_rows_def demo_row_def)
  then have synced: "queue_step env (QSync ''s'' []) ?db = sync_session [] ''s'' ?open" by (simp add: queue_step_def none)
  have "draft_pending (inbox_table ?open) ''1''" by (simp add: draft_pending_def demo_row_def)
  from enrolled_items [OF this, of "[]" "''s''"] have items:
    "\<exists>q \<in> set (item_table (sync_session [] ''s'' ?open)). item_session q = ''s'' \<and> item_draft q = ''1''"
    by (simp add: sync_session_eq)
  have "item_table (snd (defer_source sid x db)) = item_table db" "item_table (snd (resume_source sid x db)) = item_table db" for sid x db
    by (simp_all add: defer_source_def resume_source_def Let_def split: option.split)
  then have "item_table (queue_step env (QDefer sid x) db) = item_table db" "item_table (queue_step env (QResume sid x) db) = item_table db" for sid x db
    by (simp_all add: queue_step_def)
  moreover have "fold (queue_step env) one_draft empty_queue =
      queue_step env (QResume ''s'' ''a'') (queue_step env (QDefer ''s'' ''a'') (queue_step env (QSync ''s'' []) ?db))"
    by (simp add: one_draft_def one_draft_waits)
  ultimately show ?thesis using items synced by metis
qed

theorem one_focus_witness:
  "\<exists>db. db = fold (queue_step demo_env) one_draft empty_queue \<and> one_active (session_table db) \<and> unique_on item_key (item_table db) \<and>
     (\<exists>q \<in> set (item_table db). item_session q = ''s'' \<and> item_draft q = ''1'')"
proof -
  have "clean (handle ''a'')" by code_simp
  then have l: "list_all (queue_legal demo_env) one_draft"
    by (simp add: queue_legal_def configured_sources_def one_draft_def) (simp add: demo_update_def)
  from one_focus [OF l refl] one_draft_enrolled [of demo_env] show ?thesis by blast
qed

text \<open>The order of sources.\<close>

lemma find_least:
  "sorted (map f xs) \<Longrightarrow> List.find P xs = Some r \<Longrightarrow> y \<in> set xs \<Longrightarrow> P y \<Longrightarrow> f r \<le> f y"
  by (induction xs) (auto split: if_splits)

text \<open>
  Source order is the editorial order: when a round has no focus, the next source is the least
  in (order, name) of those that have pending work and are not deferred.
\<close>

theorem activation_order:
  assumes "queue_inv db" "session_by db sid = Some s" "active_source s = []"
    "r \<in> set (source_table db)" "src_session r = sid" "eligible db sid r"
  shows "\<exists>r0 \<in> set (source_table db). src_session r0 = sid \<and> eligible db sid r0 \<and>
    (src_order r0, src_name r0) \<le> (src_order r, src_name r) \<and>
    focus (activate_next sid db) sid = Some (src_name r0) \<and> focus_live (activate_next sid db) sid (src_name r0)"
  using assms(1,2)
proof (cases rule: activate_next_cases)
  case (picked r0)
  have "(src_order r0, src_name r0) \<le> (src_order r, src_name r)"
    using find_least [OF _ picked(2), of "\<lambda>r. (src_order r, src_name r)" r] assms(4-6)
    by (simp add: session_sources_def)
  moreover have "focus (activate_next sid db) sid = Some (src_name r0)"
    using assms(2) by (simp add: picked(3) focus_def [of db])
  ultimately show ?thesis
    using picked_source [OF picked(2)] picked_live [OF assms(1) picked(2)] by (auto simp: picked(3))
qed (use assms(3-6) in auto)

text \<open>Two rounds for the witnesses: one without a focus, one on its first source with the second deferred.\<close>

definition demo_source :: "pystr \<Rightarrow> int \<Rightarrow> pystr \<Rightarrow> source_row" where
  "demo_source x n st = \<lparr>src_session = ''s'', src_name = x, src_order = n, src_state = st, retry_count = 0,
     last_retry_status = [], last_retry_error = []\<rparr>"

definition demo_idle :: review_db where
  "demo_idle = \<lparr>session_table = [\<lparr>ses_id = ''s'', ses_status = ''active'', active_source = []\<rparr>],
     source_table = [\<lparr>src_session = ''s'', src_name = ''a'', src_order = 0, src_state = ''pending'', retry_count = 0,
       last_retry_status = [], last_retry_error = []\<rparr>, demo_source ''b'' 1 ''deferred''],
     item_table = [\<lparr>item_session = ''s'', item_draft = ''1'', item_source = ''a'', item_created = []\<rparr>],
     inbox_table = [demo_row ''1'' ''pending'' ''a'' []], last_proof = (\<lambda>_. None)\<rparr>"

definition demo_busy :: review_db where
  "demo_busy = demo_idle\<lparr>session_table := [\<lparr>ses_id = ''s'', ses_status = ''active'', active_source = ''a''\<rparr>],
     source_table := [demo_source ''a'' 0 ''active'', demo_source ''b'' 1 ''deferred'']\<rparr>"

lemma demo_clean: "clean ''a''" "clean ''b''" "clean (handle ''a'')"
  by code_simp+

lemma demo_idle_inv: "queue_inv demo_idle"
  by (rule queue_invI)
     (auto simp: demo_idle_def demo_source_def src_key_def item_key_def inbox_inv_def one_active_def names_clean_def
        focus_def session_by_def items_homed_def row_ok_def demo_row_def valid_statuses_def demo_clean split: if_splits)

lemma demo_busy_inv: "queue_inv demo_busy"
  by (rule queue_invI)
     (auto simp: demo_busy_def demo_idle_def demo_source_def src_key_def item_key_def inbox_inv_def one_active_def
        names_clean_def focus_def session_by_def items_homed_def row_ok_def demo_row_def valid_statuses_def
        demo_clean split: if_splits)

text \<open>
  Deferring a source keeps its drafts: the source is marked, loses the focus, keeps its pending
  count, and the round stays open. A refused request changes nothing.
\<close>

theorem defer_keeps_work:
  assumes "queue_inv db" "session_by db sid = Some s" "defer_source sid name db = (ok, db')"
  shows "(if ok then
      (\<exists>r. row_by src_key (sid, handle name) (source_table db') = Some r \<and> src_state r = ''deferred'') \<and>
      0 < pending_count db' sid (handle name) \<and> focus db' sid \<noteq> Some (handle name) \<and>
      map_option ses_status (session_by db' sid) = Some (ses_status s)
    else db' = db)"
proof (cases ok)
  case False
  with assms(3) show ?thesis by (auto simp: defer_source_eq split: if_splits)
next
  case True
  define x where "x = handle name"
  define db1 where "db1 = drop_focus sid x (set_source_state sid x ''deferred'' db)"
  have src: "row_by src_key (sid, x) (source_table db) \<noteq> None" "0 < pending_count db sid x"
    "db' = activate_next sid db1"
    using assms(3) True by (auto simp: defer_source_eq x_def db1_def split: if_splits)
  then obtain r0 where r0: "row_by src_key (sid, x) (source_table db) = Some r0" by blast
  then have "x \<noteq> []" using source_named [OF assms(1), of r0] row_by_Some [OF r0] by (auto simp: src_key_def)
  obtain r where r: "row_by src_key (sid, x) (source_table db1) = Some r" "src_state r = ''deferred''"
    using set_source_state_row [OF r0, of "''deferred''"] by (auto simp: db1_def)
  have inv0: "queue_inv (set_source_state sid x ''deferred'' db)"
    using assms(1) by (rule set_source_state_inv) simp
  have inv: "queue_inv db1" unfolding db1_def using inv0
    by (rule drop_focus_inv)
       (auto simp: set_source_state_def src_key_def elim!: in_update_whereE split: if_splits)
  have pc: "0 < pending_count db1 sid x" using src(2) by (simp add: db1_def)
  obtain s1 where s1: "session_by db1 sid = Some s1" "ses_status s1 = ses_status s" "active_source s1 \<noteq> x"
    using assms(2) row_by_Some [OF assms(2) [unfolded session_by_def]] \<open>x \<noteq> []\<close>
    by (simp add: db1_def drop_focus_def session_by_def row_by_update_where)
  have "(\<exists>r. row_by src_key (sid, x) (source_table db') = Some r \<and> src_state r = ''deferred'') \<and>
      0 < pending_count db' sid x \<and> focus db' sid \<noteq> Some x \<and>
      map_option ses_status (session_by db' sid) = Some (ses_status s)"
    using inv s1(1)
  proof (cases rule: activate_next_cases)
    case (picked y)
    note y = picked_source [OF picked(2)]
    have "src_name y \<noteq> x"
      using row_by_unique [OF queue_invD(2) [OF inv] y(1)] y(2,3) r by (auto simp: src_key_def eligible_def)
    then have "row_by src_key (sid, x) (source_table (set_source_state sid (src_name y) ''active'' db1)) = Some r"
      using r by (auto simp: set_source_state_def row_by_update_where src_key_def dest: row_by_Some)
    with r pc \<open>src_name y \<noteq> x\<close> s1 show ?thesis
      by (simp add: src(3) picked(3) set_commute [symmetric] focus_def [of db1])
  next
    case finish
    have "r \<in> set (source_table db1) \<and> src_key r = (sid, x)" using r(1) by (rule row_by_Some)
    with r(2) pc finish(2) show ?thesis by (auto simp: list_ex_iff unresolved_def src_key_def)
  qed (use s1 r pc in \<open>simp_all add: src(3) focus_def\<close>)
  with True show ?thesis by (simp add: x_def)
qed

theorem activation_order_witness:
  "\<exists>r0 \<in> set (source_table demo_idle). eligible demo_idle ''s'' r0 \<and>
     focus (activate_next ''s'' demo_idle) ''s'' = Some (src_name r0)"
proof -
  let ?s = "\<lparr>ses_id = ''s'', ses_status = ''active'', active_source = []\<rparr>"
  let ?r = "\<lparr>src_session = ''s'', src_name = ''a'', src_order = 0, src_state = ''pending'', retry_count = 0,
    last_retry_status = [], last_retry_error = []\<rparr>"
  have "session_by demo_idle ''s'' = Some ?s" by (simp add: demo_idle_def session_by_def)
  moreover have "?r \<in> set (source_table demo_idle)" by (simp add: demo_idle_def)
  moreover have "eligible demo_idle ''s'' ?r"
    by (simp add: eligible_def demo_idle_def pending_count_pos draft_pending_def demo_row_def)
  ultimately show ?thesis using activation_order [OF demo_idle_inv, of "''s''" ?s ?r] by auto
qed

theorem defer_keeps_work_witness:
  "\<exists>db'. defer_source ''s'' ''@A'' demo_idle = (True, db') \<and> 0 < pending_count db' ''s'' ''a''"
proof -
  have s: "session_by demo_idle ''s'' = Some \<lparr>ses_id = ''s'', ses_status = ''active'', active_source = []\<rparr>"
    by (simp add: demo_idle_def session_by_def)
  have h: "handle ''@A'' = ''a''" by code_simp
  have "0 < pending_count demo_idle ''s'' ''a''"
    by (simp add: demo_idle_def pending_count_pos draft_pending_def demo_row_def)
  then obtain db' where d: "defer_source ''s'' ''@A'' demo_idle = (True, db')"
    by (simp add: defer_source_eq h demo_idle_def src_key_def)
  from defer_keeps_work [OF demo_idle_inv s d] d show ?thesis by (simp add: h)
qed

text \<open>
  Resuming never steals focus: when the round has a focus it stays where it is, a deferred source
  goes back to \<open>pending\<close> (or \<open>complete\<close> without work), and nothing else changes.
\<close>

theorem resume_keeps_focus:
  assumes "queue_inv db" "session_by db sid = Some s" "active_source s \<noteq> []"
    "resume_source sid name db = (ok, db')"
  shows "session_table db' = session_table db \<and> item_table db' = item_table db \<and>
    (ok \<longleftrightarrow> (\<exists>r. row_by src_key (sid, handle name) (source_table db) = Some r \<and> src_state r = ''deferred'')) \<and>
    (\<forall>k. row_by src_key k (source_table db') = (if ok \<and> k = (sid, handle name)
       then map_option (\<lambda>r. r\<lparr>src_state := (if 0 < pending_count db sid (handle name) then ''pending'' else ''complete'')\<rparr>)
         (row_by src_key k (source_table db))
       else row_by src_key k (source_table db)))"
proof -
  define st where "st = (if 0 < pending_count db sid (handle name) then ''pending'' else ''complete'')"
  have inv: "queue_inv (set_source_state sid (handle name) st db)"
    using assms(1) by (rule set_source_state_inv) (simp add: st_def split: if_splits)
  have keep: "activate_next sid (set_source_state sid (handle name) st db) = set_source_state sid (handle name) st db"
    using focus_clean [OF assms(1), of sid "active_source s"] assms(2,3) by (simp add: activate_next_def focus_def)
  have row: "row_by src_key k (source_table (set_source_state sid (handle name) st db)) =
      (if k = (sid, handle name) then map_option (\<lambda>r. r\<lparr>src_state := st\<rparr>) (row_by src_key k (source_table db))
       else row_by src_key k (source_table db))" for k
  proof (cases "row_by src_key k (source_table db)")
    case (Some r)
    then show ?thesis using row_by_Some [OF Some]
      by (cases "k = (sid, handle name)") (auto simp: set_source_state_def row_by_update_where src_key_def)
  qed (auto simp: set_source_state_def row_by_update_where src_key_def)
  show ?thesis
  proof (cases ok)
    case True
    with assms(4) obtain r where r: "row_by src_key (sid, handle name) (source_table db) = Some r"
      "src_state r = ''deferred''" "db' = set_source_state sid (handle name) st db"
      by (auto simp: resume_source_def Let_def keep [unfolded st_def] st_def split: option.splits if_splits)
    with True row show ?thesis unfolding st_def [symmetric] by simp
  next
    case False
    with assms(4) have "db' = db" "\<not> (\<exists>r. row_by src_key (sid, handle name) (source_table db) = Some r \<and>
        src_state r = ''deferred'')"
      by (auto simp: resume_source_def Let_def split: option.splits if_splits)
    with False show ?thesis by simp
  qed
qed

theorem resume_keeps_focus_witness:
  "\<exists>ok db'. resume_source ''s'' ''b'' demo_busy = (ok, db') \<and> ok \<and> session_table db' = session_table demo_busy"
proof -
  have s: "session_by demo_busy ''s'' = Some \<lparr>ses_id = ''s'', ses_status = ''active'', active_source = ''a''\<rparr>"
    by (simp add: demo_busy_def session_by_def)
  have h: "handle ''b'' = ''b''" by code_simp
  obtain ok db' where r: "resume_source ''s'' ''b'' demo_busy = (ok, db')" by force
  have "row_by src_key (''s'', ''b'') (source_table demo_busy) \<noteq> None \<and>
      src_state (the (row_by src_key (''s'', ''b'') (source_table demo_busy))) = ''deferred''"
    by (simp add: demo_busy_def demo_idle_def demo_source_def src_key_def)
  with resume_keeps_focus [OF demo_busy_inv s _ r] r show ?thesis by (auto simp: h)
qed

section \<open>Properties of the snapshot\<close>

lemma find_position_nth:
  "find_position i x es = Some (j, e) \<Longrightarrow> i \<le> j \<and> j - i < length es \<and> es ! (j - i) = e \<and> entry_source e = x"
proof (induction i x es rule: find_position.induct)
  case (2 i x e' es)
  then show ?case by (cases "entry_source e' = x") (auto simp: Suc_diff_le nth_Cons')
qed simp

lemma find_position_found: "e \<in> set es \<Longrightarrow> entry_source e = x \<Longrightarrow> \<exists>j e'. find_position i x es = Some (j, e')"
  by (induction es arbitrary: i) auto

lemma entry_arith:
  "done_items (queue_entry_of db sid r) + entry_pending (queue_entry_of db sid r) = total_items (queue_entry_of db sid r)"
  "entry_source (queue_entry_of db sid r) = src_name r"
  "entry_pending (queue_entry_of db sid r) = pending_count db sid (src_name r)"
proof -
  have "length (pending_items db sid x) \<le> length (source_items db sid x)" for x
    by (simp add: pending_items_def)
  then show "done_items (queue_entry_of db sid r) + entry_pending (queue_entry_of db sid r) =
      total_items (queue_entry_of db sid r)"
    by (simp add: queue_entry_of_def counts_def split: prod.split)
qed (simp_all add: queue_entry_of_def counts_def pending_count_def split: prod.split)

lemma hd_sorted_least: "sort_key f xs = q # qs \<Longrightarrow> y \<in> set xs \<Longrightarrow> f q \<le> f y"
proof -
  assume s: "sort_key f xs = q # qs" and y: "y \<in> set xs"
  have "sorted (map f (q # qs))" using sorted_sort_key [of f xs] by (simp only: s)
  moreover have "y \<in> set (q # qs)" using y by (metis s set_sort)
  ultimately show "f q \<le> f y" by auto
qed

text \<open>
  What the operator sees: the snapshot of the open round shows the focus, the oldest pending
  draft of that source, its place among the sources, an item number within the total, and for
  every source a split of its items into done and pending.
\<close>

theorem snapshot_current:
  assumes "queue_inv db" "active_session db = Some s" "ses_id s \<noteq> []"
    "focus_live db (ses_id s) (active_source s)"
  shows "let v = snapshot [] db; x = active_source s in
    snap_session v = ses_id s \<and> snap_active v = x \<and>
    (\<exists>q \<in> set (pending_items db (ses_id s) x). current_draft_id v = item_draft q \<and>
      (\<forall>q' \<in> set (pending_items db (ses_id s) x). (item_created q, item_draft q) \<le> (item_created q', item_draft q'))) \<and>
    1 \<le> active_position v \<and> active_position v \<le> total_sources v \<and>
    entry_source (snap_sources v ! (active_position v - 1)) = x \<and>
    1 \<le> current_item_number v \<and> current_item_number v \<le> current_item_total v \<and>
    (\<forall>e \<in> set (snap_sources v). done_items e + entry_pending e = total_items e)"
proof -
  define sid x where "sid = ses_id s" and "x = active_source s"
  define es where "es = map (queue_entry_of db sid) (session_sources db sid)"
  have ses: "session_by db sid = Some s"
    using row_by_unique [OF queue_invD(1) [OF assms(1)]] active_session_in [OF assms(2)]
    by (simp add: session_by_def sid_def)
  then have hx: "handle x = x" using focus_clean [OF assms(1), of sid x] by (simp add: focus_def x_def)
  from assms(4) obtain r where r: "row_by src_key (sid, x) (source_table db) = Some r"
    and pc: "0 < pending_count db sid x" by (auto simp: focus_live_def sid_def x_def)
  have rs: "r \<in> set (session_sources db sid)" "src_name r = x" "x \<noteq> []"
    using row_by_Some [OF r] source_named [OF assms(1)] by (auto simp: src_key_def)
  obtain j e where pos: "find_position 1 x es = Some (j, e)"
    using find_position_found [of "queue_entry_of db sid r" es x 1] rs by (auto simp: es_def entry_arith(2))
  note nth = find_position_nth [OF pos]
  have e: "e \<in> set es" using nth by auto
  then obtain y where y: "e = queue_entry_of db sid y" by (auto simp: es_def)
  have ar: "done_items e + entry_pending e = total_items e" "entry_pending e = pending_count db sid x"
    using entry_arith [of db sid y] nth unfolding y by simp_all
  have "pending_items db sid x \<noteq> []" using pc by (auto simp: pending_count_def counts_def)
  then obtain q qs where q: "sort_key (\<lambda>q. (item_created q, item_draft q)) (pending_items db sid x) = q # qs"
    by (metis list.exhaust set_empty set_sort)
  then have "q \<in> set (pending_items db sid x)" by (metis list.set_intros(1) set_sort)
  moreover have "(item_created q, item_draft q) \<le> (item_created q', item_draft q')"
    if "q' \<in> set (pending_items db sid x)" for q' using hd_sorted_least [OF q that] by simp
  moreover have "snapshot [] db = \<lparr>snap_session = sid, total_sources = length es, snap_active = x,
      active_position = j, current_draft_id = item_draft q,
      current_item_number = min (total_items e) (done_items e + 1), current_item_total = total_items e,
      snap_sources = es\<rparr>"
    using ses assms(2,3) rs(3) hx pos pc ar(2)
    by (simp add: snapshot_def sid_def [symmetric] x_def [symmetric] es_def [symmetric] current_draft_def q Let_def)
  moreover have "\<forall>e \<in> set es. done_items e + entry_pending e = total_items e" by (auto simp: es_def entry_arith(1))
  ultimately show ?thesis using nth ar pc unfolding Let_def sid_def [symmetric] x_def [symmetric] by auto
qed

theorem snapshot_current_witness:
  "snap_active (snapshot [] demo_busy) = ''a'' \<and> current_draft_id (snapshot [] demo_busy) = ''1''"
proof -
  let ?s = "\<lparr>ses_id = ''s'', ses_status = ''active'', active_source = ''a''\<rparr>"
  have a: "active_session demo_busy = Some ?s" by (simp add: active_session_def demo_busy_def)
  have "focus_live demo_busy (ses_id ?s) (active_source ?s)"
    by (simp add: focus_live_def demo_busy_def demo_idle_def demo_source_def src_key_def pending_count_pos
        draft_pending_def demo_row_def)
  with snapshot_current [OF demo_busy_inv a] show ?thesis
    by (auto simp: Let_def demo_busy_def demo_idle_def pending_items_def source_items_def)
qed

text \<open>
  Why the names must be canonical: \<open>_handle\<close> is not idempotent. A source stored as \<open>@ x\<close> is
  enrolled as \<open> x\<close> (with the space) and read back as \<open>x\<close>: the round shows a source that does not
  exist and no draft, while one is pending.
\<close>

theorem spaced_handle_hides_draft:
  "case sync ''s'' [] (empty_queue\<lparr>inbox_table := [demo_row ''1'' ''pending'' ''@ x'' []]\<rparr>) of
     Inl e \<Rightarrow> False
   | Inr (sid, db) \<Rightarrow> map entry_pending (snap_sources (snapshot sid db)) = [1] \<and>
       map entry_source (snap_sources (snapshot sid db)) = ['' x''] \<and>
       snap_active (snapshot sid db) = ''x'' \<and> active_position (snapshot sid db) = 0 \<and>
       current_draft_id (snapshot sid db) = []"
  by code_simp

end
