(* ===== verification/SourceLedger.thy ===== *)
theory SourceLedger
  imports StateStore
begin

text \<open>
  \<open>app/source_ledger.py\<close>: the durable completeness ledger, source by source. The tables
  \<open>source_windows\<close> (key: source, window start, window end) and \<open>source_cursors\<close> (key: source)
  are lists of rows; both statements of an operation run in one transaction. The clock
  \<open>_utc_now()\<close> is an argument. Counters are assumed to fit an SQLite INTEGER.
\<close>

datatype window_status = ATTEMPTING | COMPLETE | PARTIAL | UNPROVEN

fun status_value :: "window_status \<Rightarrow> pystr" where
  "status_value ATTEMPTING = ''attempting''"
| "status_value COMPLETE = ''complete''"
| "status_value PARTIAL = ''partial''"
| "status_value UNPROVEN = ''unproven''"

datatype ledger_exc = SourceLedgerError

definition norm_handle :: "pystr \<Rightarrow> pystr" where
  "norm_handle v = py_casefold (py_strip (py_lstrip_at v))"

record window_result =
  source_handle :: pystr
  window_start :: pystr
  window_end :: pystr
  result_status :: window_status
  attempt_id :: pystr
  raw_observation_count :: int
  retained_count :: int
  result_retries :: int
  error_class :: pystr
  error_summary :: pystr
  provider_cursor :: pystr
  proof_kind :: pystr

text \<open>\<open>SourceWindowResult.__post_init__\<close>\<close>

definition window_post_init :: "window_result \<Rightarrow> ledger_exc + window_result" where
  "window_post_init r =
     (let h = norm_handle (source_handle r) in
      if h = [] \<or> window_start r = [] \<or> window_end r = [] then Inl SourceLedgerError
      else Inr (r\<lparr>source_handle := h\<rparr>))"

record window_row =
  w_handle :: pystr
  w_start :: pystr
  w_end :: pystr
  w_status :: pystr
  w_attempt_id :: pystr
  w_raw :: int
  w_retained :: int
  w_retries :: int
  w_error_class :: pystr
  w_error_summary :: pystr
  w_provider_cursor :: pystr
  w_proof_kind :: pystr
  first_attempted_at :: pystr
  last_attempted_at :: pystr
  completed_at :: pystr
  attempt_count :: int

record cursor_row =
  c_handle :: pystr
  complete_through :: pystr
  c_provider_cursor :: pystr
  last_complete_start :: pystr
  last_complete_end :: pystr
  last_status :: pystr
  last_attempt :: pystr
  last_error_class :: pystr
  last_error_summary :: pystr
  cursor_updated_at :: pystr

record ledger =
  windows :: "window_row list"
  cursors :: "cursor_row list"

definition window_key :: "window_row \<Rightarrow> pystr \<times> pystr \<times> pystr" where
  "window_key w = (w_handle w, w_start w, w_end w)"

section \<open>Operations\<close>

definition start_window :: "pystr \<Rightarrow> pystr \<Rightarrow> pystr \<Rightarrow> pystr \<Rightarrow> pystr \<Rightarrow> window_row list \<Rightarrow> window_row list" where
  "start_window now h ws we aid = upsert window_key
     \<lparr>w_handle = h, w_start = ws, w_end = we, w_status = status_value ATTEMPTING, w_attempt_id = aid,
      w_raw = 0, w_retained = 0, w_retries = 0, w_error_class = [], w_error_summary = [],
      w_provider_cursor = [], w_proof_kind = [], first_attempted_at = now, last_attempted_at = now,
      completed_at = [], attempt_count = 1\<rparr>
     (\<lambda>w. w\<lparr>w_status := status_value ATTEMPTING, w_attempt_id := aid, last_attempted_at := now,
        attempt_count := attempt_count w + 1, w_retries := w_retries w + 1,
        w_error_class := [], w_error_summary := []\<rparr>)"

definition start_cursor :: "pystr \<Rightarrow> pystr \<Rightarrow> pystr \<Rightarrow> cursor_row list \<Rightarrow> cursor_row list" where
  "start_cursor now h aid = upsert c_handle
     \<lparr>c_handle = h, complete_through = [], c_provider_cursor = [], last_complete_start = [],
      last_complete_end = [], last_status = status_value ATTEMPTING, last_attempt = aid,
      last_error_class = [], last_error_summary = [], cursor_updated_at = now\<rparr>
     (\<lambda>c. c\<lparr>last_status := status_value ATTEMPTING, last_attempt := aid, cursor_updated_at := now\<rparr>)"

definition start_attempt ::
    "pystr \<Rightarrow> pystr \<Rightarrow> pystr \<Rightarrow> pystr \<Rightarrow> pystr \<Rightarrow> ledger \<Rightarrow> ledger_exc + ledger" where
  "start_attempt now source ws we aid l =
     (let h = norm_handle source in
      if h = [] then Inl SourceLedgerError
      else Inr (l\<lparr>windows := start_window now h ws we aid (windows l),
                  cursors := start_cursor now h aid (cursors l)\<rparr>))"

definition finish_window :: "pystr \<Rightarrow> window_result \<Rightarrow> window_row list \<Rightarrow> window_row list" where
  "finish_window now r =
     (let done = (if result_status r = COMPLETE then now else []);
          row = \<lparr>w_handle = source_handle r, w_start = window_start r, w_end = window_end r,
            w_status = status_value (result_status r), w_attempt_id = attempt_id r,
            w_raw = max 0 (raw_observation_count r), w_retained = max 0 (retained_count r),
            w_retries = max 0 (result_retries r), w_error_class = take 160 (error_class r),
            w_error_summary = take 1000 (error_summary r), w_provider_cursor = take 4096 (provider_cursor r),
            w_proof_kind = take 120 (proof_kind r), first_attempted_at = now, last_attempted_at = now,
            completed_at = done, attempt_count = 1\<rparr>
      in upsert window_key row
           (\<lambda>w. w\<lparr>w_status := w_status row, w_attempt_id := w_attempt_id row, w_raw := w_raw row,
              w_retained := w_retained row, w_retries := max (w_retries w) (w_retries row),
              w_error_class := w_error_class row, w_error_summary := w_error_summary row,
              w_provider_cursor := w_provider_cursor row, w_proof_kind := w_proof_kind row,
              last_attempted_at := now, completed_at := done\<rparr>))"

text \<open>The cursor of a COMPLETE result; the CASE expressions read the row before the update.\<close>

definition advance_cursor :: "pystr \<Rightarrow> window_result \<Rightarrow> cursor_row \<Rightarrow> cursor_row" where
  "advance_cursor now r c =
     (let reached = complete_through c = [] \<or> complete_through c \<le> window_end r;
          passed = complete_through c = [] \<or> complete_through c < window_end r
      in c\<lparr>c_provider_cursor := (if reached then provider_cursor r else c_provider_cursor c),
           last_complete_start := (if reached then window_start r else last_complete_start c),
           last_complete_end := (if reached then window_end r else last_complete_end c),
           complete_through := (if passed then window_end r else complete_through c),
           last_status := status_value (result_status r), last_attempt := attempt_id r,
           last_error_class := [], last_error_summary := [], cursor_updated_at := now\<rparr>)"

definition finish_cursor :: "pystr \<Rightarrow> window_result \<Rightarrow> cursor_row list \<Rightarrow> cursor_row list" where
  "finish_cursor now r =
     (if result_status r = COMPLETE then
        upsert c_handle
          \<lparr>c_handle = source_handle r, complete_through = window_end r, c_provider_cursor = provider_cursor r,
           last_complete_start = window_start r, last_complete_end = window_end r,
           last_status = status_value (result_status r), last_attempt = attempt_id r,
           last_error_class = [], last_error_summary = [], cursor_updated_at = now\<rparr>
          (advance_cursor now r)
      else
        upsert c_handle
          \<lparr>c_handle = source_handle r, complete_through = [], c_provider_cursor = [],
           last_complete_start = [], last_complete_end = [],
           last_status = status_value (result_status r), last_attempt = attempt_id r,
           last_error_class = take 160 (error_class r), last_error_summary = take 1000 (error_summary r),
           cursor_updated_at = now\<rparr>
          (\<lambda>c. c\<lparr>last_status := status_value (result_status r), last_attempt := attempt_id r,
             last_error_class := take 160 (error_class r), last_error_summary := take 1000 (error_summary r),
             cursor_updated_at := now\<rparr>))"

definition finish :: "pystr \<Rightarrow> window_result \<Rightarrow> ledger \<Rightarrow> ledger" where
  "finish now r l = l\<lparr>windows := finish_window now r (windows l), cursors := finish_cursor now r (cursors l)\<rparr>"

definition cursor :: "pystr \<Rightarrow> ledger \<Rightarrow> cursor_row option" where
  "cursor source l = row_by c_handle (norm_handle source) (cursors l)"

definition window :: "pystr \<Rightarrow> pystr \<Rightarrow> pystr \<Rightarrow> ledger \<Rightarrow> window_row option" where
  "window source ws we l = row_by window_key (norm_handle source, ws, we) (windows l)"

definition source_statuses :: "ledger \<Rightarrow> cursor_row list" where
  "source_statuses l = sort_key c_handle (cursors l)"

section \<open>The store as a machine\<close>

datatype ledger_op =
    LStart pystr pystr pystr pystr pystr
  | LFinish pystr window_result

definition ledger_step :: "ledger_op \<Rightarrow> ledger \<Rightarrow> ledger" where
  "ledger_step op l = (case op of
       LStart now source ws we aid \<Rightarrow> (case start_attempt now source ws we aid l of Inl e \<Rightarrow> l | Inr l' \<Rightarrow> l')
     | LFinish now r \<Rightarrow> (case window_post_init r of Inl e \<Rightarrow> l | Inr r' \<Rightarrow> finish now r' l))"

definition window_ok :: "window_row \<Rightarrow> bool" where
  "window_ok w \<longleftrightarrow> 1 \<le> attempt_count w \<and> attempt_count w \<le> w_retries w + 1"

definition cursor_ok :: "cursor_row \<Rightarrow> bool" where
  "cursor_ok c \<longleftrightarrow> last_complete_end c = complete_through c"

definition ledger_inv :: "ledger \<Rightarrow> bool" where
  "ledger_inv l \<longleftrightarrow> unique_on window_key (windows l) \<and> unique_on c_handle (cursors l) \<and>
     (\<forall>c \<in> set (cursors l). cursor_ok c) \<and> (\<forall>w \<in> set (windows l). window_ok w)"

text \<open>The watermark of a (normalised) source: empty until a window of it was complete.\<close>

definition mark :: "ledger \<Rightarrow> pystr \<Rightarrow> pystr" where
  "mark l h = (case row_by c_handle h (cursors l) of None \<Rightarrow> [] | Some c \<Rightarrow> complete_through c)"

lemma nil_least [simp]: "([] :: pystr) \<le> s"
  by (cases s) simp_all

lemma nil_max [simp]: "max ([] :: pystr) s = s" "max s ([] :: pystr) = s"
  by (simp_all add: max_def)

lemma advance_cursor_simps [simp]:
  "c_handle (advance_cursor now r c) = c_handle c"
  "complete_through (advance_cursor now r c) = max (complete_through c) (window_end r)"
  "last_complete_end c = complete_through c \<Longrightarrow>
    last_complete_end (advance_cursor now r c) = max (complete_through c) (window_end r)"
  by (auto simp: advance_cursor_def Let_def max_def)

lemma mark_start: "mark (l\<lparr>windows := ws, cursors := start_cursor now h aid (cursors l)\<rparr>) k = mark l k"
  by (auto simp: mark_def start_cursor_def row_by_upsert split: option.split)

text \<open>How one \<open>finish\<close> moves the watermark: only of its own source, only when COMPLETE.\<close>

lemma mark_finish:
  "mark (finish now r l) k =
    (if k = source_handle r \<and> result_status r = COMPLETE then max (mark l k) (window_end r) else mark l k)"
  by (auto simp: mark_def finish_def finish_cursor_def row_by_upsert split: option.split)

lemma windows_kept:
  assumes "unique_on window_key t" "\<forall>w \<in> set t. window_ok w"
  shows "unique_on window_key (start_window now h ws we aid t) \<and> (\<forall>w \<in> set (start_window now h ws we aid t). window_ok w)"
    "unique_on window_key (finish_window now r t) \<and> (\<forall>w \<in> set (finish_window now r t). window_ok w)"
  unfolding start_window_def finish_window_def Let_def using assms
  by (intro conjI key_intros; auto simp: window_key_def window_ok_def max_def)+

lemma cursors_kept:
  assumes "unique_on c_handle t" "\<forall>c \<in> set t. cursor_ok c"
  shows "unique_on c_handle (start_cursor now h aid t) \<and> (\<forall>c \<in> set (start_cursor now h aid t). cursor_ok c)"
    "unique_on c_handle (finish_cursor now r t) \<and> (\<forall>c \<in> set (finish_cursor now r t). cursor_ok c)"
  unfolding start_cursor_def finish_cursor_def Let_def using assms
  by (cases "result_status r = COMPLETE"; simp only: if_True if_False;
      intro conjI key_intros; simp add: cursor_ok_def)+

lemma start_inv: "ledger_inv l \<Longrightarrow> start_attempt now source ws we aid l = Inr l' \<Longrightarrow> ledger_inv l'"
  using windows_kept(1) [of "windows l"] cursors_kept(1) [of "cursors l"]
  by (auto simp: ledger_inv_def start_attempt_def Let_def split: if_splits)

lemma finish_inv: "ledger_inv l \<Longrightarrow> ledger_inv (finish now r l)"
  using windows_kept(2) [of "windows l"] cursors_kept(2) [of "cursors l"]
  by (simp add: ledger_inv_def finish_def)

lemma ledger_step_inv: "ledger_inv l \<Longrightarrow> ledger_inv (ledger_step op l)"
  by (auto simp: ledger_step_def finish_inv start_inv split: ledger_op.split sum.split)

lemma ledger_step_mark: "mark l k \<le> mark (ledger_step op l) k"
  by (auto simp: ledger_step_def start_attempt_def Let_def mark_start mark_finish split: ledger_op.split sum.splits)

interpretation ledger: watermark_machine ledger_step ledger_inv mark
  by unfold_locales (simp_all add: ledger_step_inv ledger_step_mark)

section \<open>Properties\<close>

text \<open>The abstract ledger: what was proved complete for a source, in the order it was reported.\<close>

fun proved_end :: "pystr \<Rightarrow> ledger_op \<Rightarrow> pystr list" where
  "proved_end h (LStart now source ws we aid) = []"
| "proved_end h (LFinish now r) = (case window_post_init r of
       Inl e \<Rightarrow> []
     | Inr r' \<Rightarrow> if source_handle r' = h \<and> result_status r' = COMPLETE then [window_end r'] else [])"

definition proved_ends :: "pystr \<Rightarrow> ledger_op list \<Rightarrow> pystr list" where
  "proved_ends h ops = concat (map (proved_end h) ops)"

definition empty_ledger :: ledger where "empty_ledger = \<lparr>windows = [], cursors = []\<rparr>"

lemma empty_ledger_simps [simp]: "ledger_inv empty_ledger" "mark empty_ledger h = []"
  by (simp_all add: empty_ledger_def ledger_inv_def mark_def)

lemma mark_step: "mark (ledger_step op l) h = fold max (proved_end h op) (mark l h)"
  by (cases op) (auto simp: ledger_step_def start_attempt_def Let_def mark_start mark_finish max.commute
      split: sum.split)

text \<open>
  C30: Refinement: the watermark of a source is the greatest window end reported COMPLETE for it,
  whatever else was started, retried, left partial, or reported for other sources.
\<close>

theorem watermark_refines:
  "mark (fold ledger_step ops l) h = fold max (proved_ends h ops) (mark l h)"
  by (induction ops arbitrary: l) (simp_all add: proved_ends_def mark_step)

lemma fold_max_isoformat:
  assumes "\<forall>t \<in> set (u # ts). valid_instant t"
  shows "fold max (map isoformat ts) (isoformat u) = isoformat (Max (set (u # ts)))"
  using assms
proof (induction ts arbitrary: u)
  case (Cons t ts)
  have "max (isoformat t) (isoformat u) = isoformat (max u t)"
    using isoformat_order(2) [of u t] isoformat_order(2) [of t u] Cons.prems by (auto simp: max_def)
  moreover have v: "\<forall>x \<in> set (max u t # ts). valid_instant x" using Cons.prems by (simp add: max_def)
  ultimately have "fold max (map isoformat (t # ts)) (isoformat u) = isoformat (Max (set (max u t # ts)))"
    using Cons.IH [OF v] by simp
  also have "Max (set (max u t # ts)) = Max (set (u # t # ts))"
    by (cases "ts = []") (simp_all add: max.assoc)
  finally show ?case .
qed simp

text \<open>
  In the form the runtime writes them, window ends are ISO texts of instants, and the text
  comparison the SQL makes is the order of the instants: the watermark is the latest instant.
\<close>

theorem watermark_is_latest_instant:
  assumes "proved_ends h ops = map isoformat ts" "ts \<noteq> []" "\<forall>t \<in> set ts. valid_instant t"
  shows "mark (fold ledger_step ops empty_ledger) h = isoformat (Max (set ts))"
proof -
  from assms(2) obtain u us where ts: "ts = u # us" by (cases ts) auto
  show ?thesis using fold_max_isoformat [of u us] assms
    by (simp add: watermark_refines ts)
qed

definition demo_result :: "pystr \<Rightarrow> pystr \<Rightarrow> window_status \<Rightarrow> window_result" where
  "demo_result h we st = \<lparr>source_handle = h, window_start = ''0001'', window_end = we, result_status = st,
     attempt_id = ''a'', raw_observation_count = 2, retained_count = 1, result_retries = 0, error_class = [],
     error_summary = [], provider_cursor = ''p'', proof_kind = ''exact''\<rparr>"

lemma norm_demo [simp]: "norm_handle ''x'' = ''x''" "norm_handle ''@X'' = ''x''"
  by code_simp+

theorem watermark_is_latest_instant_witness:
  "mark (fold ledger_step [LFinish ''n'' (demo_result ''@X'' (isoformat 0) COMPLETE),
     LFinish ''n'' (demo_result ''@X'' (isoformat 1000000) PARTIAL)] empty_ledger) ''x'' = isoformat 0"
  (is "mark (fold ledger_step ?ops _) _ = _")
proof -
  have ne: "isoformat t \<noteq> []" for t by (rule isoformat_nonempty)
  have "proved_ends ''x'' ?ops = map isoformat [0]"
    by (simp add: proved_ends_def window_post_init_def demo_result_def Let_def ne)
  then show ?thesis by (subst watermark_is_latest_instant [of _ _ "[0]"]) (simp_all add: valid_instant_def us_per_day_def)
qed

text \<open>The watermark never moves back, over any operations and from any ledger that satisfies the invariant.\<close>

theorem watermark_never_back:
  assumes "ledger_inv l"
  shows "mark (fold ledger_step as l) h \<le> mark (fold ledger_step (as @ bs) l) h \<and> ledger_inv (fold ledger_step (as @ bs) l)"
  using ledger.run_mark_split [OF assms] ledger.run_inv [OF assms] by blast

theorem watermark_never_back_witness:
  "mark (fold ledger_step [LFinish ''n'' (demo_result ''x'' ''2'' COMPLETE)] empty_ledger) ''x'' \<le>
   mark (fold ledger_step ([LFinish ''n'' (demo_result ''x'' ''2'' COMPLETE)] @
     [LFinish ''n'' (demo_result ''x'' ''1'' COMPLETE)]) empty_ledger) ''x''"
  using watermark_never_back [OF empty_ledger_simps(1)] by blast

fun op_source :: "ledger_op \<Rightarrow> pystr" where
  "op_source (LStart now source ws we aid) = norm_handle source"
| "op_source (LFinish now r) = norm_handle (source_handle r)"

fun advances :: "ledger_op \<Rightarrow> bool" where
  "advances (LStart now source ws we aid) = False"
| "advances (LFinish now r) = (result_status r = COMPLETE)"

definition progress_of :: "cursor_row \<Rightarrow> pystr \<times> pystr \<times> pystr \<times> pystr" where
  "progress_of c = (complete_through c, c_provider_cursor c, last_complete_start c, last_complete_end c)"

lemma step_other: "op_source op \<noteq> k \<Longrightarrow> row_by c_handle k (cursors (ledger_step op l)) = row_by c_handle k (cursors l)"
  by (cases op) (auto simp: ledger_step_def start_attempt_def window_post_init_def Let_def finish_def
      start_cursor_def finish_cursor_def row_by_upsert)

lemma step_no_advance:
  "\<not> advances op \<Longrightarrow> row_by c_handle k (cursors l) = Some c \<Longrightarrow>
    \<exists>c'. row_by c_handle k (cursors (ledger_step op l)) = Some c' \<and> progress_of c' = progress_of c"
  by (cases op) (auto simp: ledger_step_def start_attempt_def window_post_init_def Let_def finish_def
      start_cursor_def finish_cursor_def row_by_upsert progress_of_def)

text \<open>
  Sources are independent: operations on other sources leave a source's cursor row exactly as it
  is. A result that is not COMPLETE changes only the last-status fields of its own source.
\<close>

theorem only_own_proof_moves_cursor:
  "row_by c_handle k (cursors l) = Some c \<Longrightarrow> list_all (\<lambda>op. op_source op \<noteq> k \<or> \<not> advances op) ops \<Longrightarrow>
    \<exists>c'. row_by c_handle k (cursors (fold ledger_step ops l)) = Some c' \<and> progress_of c' = progress_of c \<and>
      (list_all (\<lambda>op. op_source op \<noteq> k) ops \<longrightarrow> c' = c)"
proof (induction ops arbitrary: l c)
  case (Cons op ops)
  obtain c1 where c1: "row_by c_handle k (cursors (ledger_step op l)) = Some c1" "progress_of c1 = progress_of c"
    "op_source op \<noteq> k \<longrightarrow> c1 = c"
    using step_other [of op k l] step_no_advance [of op k l c] Cons.prems by fastforce
  with Cons.IH [OF c1(1)] Cons.prems(2) show ?case by auto
qed simp

theorem only_own_proof_moves_cursor_witness:
  "\<exists>c'. row_by c_handle ''x'' (cursors (fold ledger_step [LFinish ''m'' (demo_result ''x'' ''9'' UNPROVEN)]
       (ledger_step (LFinish ''n'' (demo_result ''x'' ''2'' COMPLETE)) empty_ledger))) = Some c' \<and>
     complete_through c' = ''2''"
proof -
  let ?l = "ledger_step (LFinish ''n'' (demo_result ''x'' ''2'' COMPLETE)) empty_ledger"
  obtain c where c: "row_by c_handle ''x'' (cursors ?l) = Some c" "complete_through c = ''2''"
    by (simp add: ledger_step_def window_post_init_def demo_result_def Let_def finish_def finish_cursor_def
        upsert_def empty_ledger_def)
  have "list_all (\<lambda>op. op_source op \<noteq> ''x'' \<or> \<not> advances op) [LFinish ''m'' (demo_result ''x'' ''9'' UNPROVEN)]"
    by (simp add: demo_result_def)
  from only_own_proof_moves_cursor [OF c(1) this] c(2) show ?thesis by (auto simp: progress_of_def)
qed

text \<open>
  The life of one window: an attempt marks it, its result closes it, and the row tells how often
  it was tried. A result that is not COMPLETE clears an earlier completion time.
\<close>

theorem window_life:
  assumes "start_attempt now source ws we aid l = Inr l1" "window_post_init r = Inr r'"
    "source_handle r' = norm_handle source" "window_start r' = ws" "window_end r' = we"
  shows "\<exists>w1 w2. row_by window_key (norm_handle source, ws, we) (windows l1) = Some w1 \<and>
      w_status w1 = ''attempting'' \<and> w_attempt_id w1 = aid \<and>
      attempt_count w1 = (case row_by window_key (norm_handle source, ws, we) (windows l) of
        None \<Rightarrow> 1 | Some w \<Rightarrow> attempt_count w + 1) \<and>
      row_by window_key (norm_handle source, ws, we) (windows (finish later r' l1)) = Some w2 \<and>
      w_status w2 = status_value (result_status r') \<and> attempt_count w2 = attempt_count w1 \<and>
      w_retries w2 = max (w_retries w1) (max 0 (result_retries r')) \<and>
      completed_at w2 = (if result_status r' = COMPLETE then later else [])"
proof -
  define k where "k = (norm_handle source, ws, we)"
  have keys: "(norm_handle source, ws, we) = k" "(source_handle r', window_start r', window_end r') = k"
    using assms(3-5) by (simp_all add: k_def)
  have l1: "windows l1 = start_window now (norm_handle source) ws we aid (windows l)"
    using assms(1) by (auto simp: start_attempt_def Let_def split: if_splits)
  obtain w1 where w1: "row_by window_key k (windows l1) = Some w1" "w_status w1 = ''attempting''"
    "w_attempt_id w1 = aid" "attempt_count w1 = (case row_by window_key k (windows l) of
        None \<Rightarrow> 1 | Some w \<Rightarrow> attempt_count w + 1)"
    by (simp add: l1 start_window_def row_by_upsert window_key_def keys(1) split: option.split)
  moreover obtain w2 where "row_by window_key k (windows (finish later r' l1)) = Some w2"
    "w_status w2 = status_value (result_status r')" "attempt_count w2 = attempt_count w1"
    "w_retries w2 = max (w_retries w1) (max 0 (result_retries r'))"
    "completed_at w2 = (if result_status r' = COMPLETE then later else [])"
    by (simp add: finish_def finish_window_def Let_def row_by_upsert window_key_def keys(2) w1(1))
  ultimately show ?thesis unfolding keys(1) by blast
qed

theorem window_life_witness:
  "\<exists>l1 r'. start_attempt ''n'' ''@X'' ''0001'' ''2'' ''a'' empty_ledger = Inr l1 \<and>
     window_post_init (demo_result ''@X'' ''2'' PARTIAL) = Inr r' \<and>
     (\<exists>w2. row_by window_key (''x'', ''0001'', ''2'') (windows (finish ''m'' r' l1)) = Some w2 \<and> attempt_count w2 = 1)"
proof -
  obtain l1 where l1: "start_attempt ''n'' ''@X'' ''0001'' ''2'' ''a'' empty_ledger = Inr l1"
    by (simp add: start_attempt_def Let_def)
  obtain r' where r': "window_post_init (demo_result ''@X'' ''2'' PARTIAL) = Inr r'"
    "source_handle r' = norm_handle ''@X''" "window_start r' = ''0001''" "window_end r' = ''2''"
    by (simp add: window_post_init_def demo_result_def Let_def)
  from window_life [OF l1 r'(1-4), of "''m''"] l1 r'(1) show ?thesis
    by (auto simp: empty_ledger_def)
qed

end
