(* ===== verification/RawObs.thy ===== *)
theory RawObs
  imports PyJson
begin

text \<open>
  \<open>app/raw_observation.py\<close>: what the provider returned, before any filter. The table
  \<open>raw_observations\<close> holds the latest snapshot per observation key with a counter, the table
  \<open>raw_observation_versions\<close> every distinct snapshot once. SHA-256 is the parameter \<open>H\<close> (text to
  hex digest); the JSON text that is hashed is modelled to the character.
\<close>

datatype raw_exc = RawObservationError

record observation =
  provider :: pystr
  external_post_id :: pystr
  obs_source :: pystr
  source_mode :: pystr
  obs_created_at :: pystr
  obs_text :: pystr
  obs_conversation_id :: pystr
  obs_reply_to_id :: pystr
  obs_quoted_id :: pystr
  obs_quoted_text :: pystr
  obs_quoted_author :: pystr
  obs_lang :: pystr
  media_json :: pystr
  quoted_media_json :: pystr
  post_type :: pystr
  is_retweet :: bool
  obs_is_reply :: bool
  is_quote :: bool
  is_media_only :: bool
  provenance :: pystr
  retrieval_attempt_id :: pystr
  provider_payload_hash :: pystr
  observation_status :: pystr

definition canon_source :: "pystr \<Rightarrow> pystr" where
  "canon_source s = py_casefold (py_strip (py_lstrip_at s))"

definition obs_post_init :: "observation \<Rightarrow> raw_exc + observation" where
  "obs_post_init x =
     (let p = py_casefold (py_strip (provider x)); e = py_strip (external_post_id x);
          s = canon_source (obs_source x)
      in if p = [] \<or> e = [] \<or> s = [] then Inl RawObservationError
         else Inr (x\<lparr>provider := p, external_post_id := e, obs_source := s\<rparr>))"

section \<open>The hashed text\<close>

definition key_text :: "pystr \<Rightarrow> pystr \<Rightarrow> pystr \<Rightarrow> pystr" where
  "key_text p s e = p @ [char_of (31 :: nat)] @ s @ [char_of (31 :: nat)] @ e"

definition observation_key :: "(pystr \<Rightarrow> pystr) \<Rightarrow> observation \<Rightarrow> pystr" where
  "observation_key H x = H (key_text (provider x) (obs_source x) (external_post_id x))"

datatype snap_value = Text pystr | Flag bool

definition snapshot_dict :: "observation \<Rightarrow> (pystr \<times> snap_value) list" where
  "snapshot_dict x =
     [(''provider'', Text (provider x)), (''external_post_id'', Text (external_post_id x)),
      (''source_handle'', Text (obs_source x)), (''source_mode'', Text (source_mode x)),
      (''created_at'', Text (obs_created_at x)), (''text'', Text (obs_text x)),
      (''conversation_id'', Text (obs_conversation_id x)), (''reply_to_id'', Text (obs_reply_to_id x)),
      (''quoted_id'', Text (obs_quoted_id x)), (''quoted_text'', Text (obs_quoted_text x)),
      (''quoted_author'', Text (obs_quoted_author x)), (''lang'', Text (obs_lang x)),
      (''media_json'', Text (media_json x)), (''quoted_media_json'', Text (quoted_media_json x)),
      (''post_type'', Text (post_type x)), (''is_retweet'', Flag (is_retweet x)),
      (''is_reply'', Flag (obs_is_reply x)), (''is_quote'', Flag (is_quote x)),
      (''is_media_only'', Flag (is_media_only x)), (''provenance'', Text (provenance x)),
      (''retrieval_attempt_id'', Text (retrieval_attempt_id x)),
      (''provider_payload_hash'', Text (provider_payload_hash x)),
      (''observation_status'', Text (observation_status x))]"

text \<open>
  \<open>json.dumps(\<dots>, ensure_ascii=False, sort_keys=True, separators=(",", ":"))\<close>: quotes, back
  slashes and control characters are escaped, keys are sorted.
\<close>

definition bslash :: char where "bslash = char_of (92 :: nat)"
definition dquote :: char where "dquote = char_of (34 :: nat)"

definition json_char :: "char \<Rightarrow> pystr" where
  "json_char c = (let n = (of_char c :: nat) in
     if n = 92 \<or> n = 34 then [bslash, c]
     else if n = 10 then [bslash, CHR ''n'']
     else if n = 13 then [bslash, CHR ''r'']
     else if n = 9 then [bslash, CHR ''t'']
     else if n = 12 then [bslash, CHR ''f'']
     else if n = 8 then [bslash, CHR ''b'']
     else if n < 32 then [bslash, CHR ''u'', CHR ''0'', CHR ''0'', hex_char (n div 16), hex_char (n mod 16)]
     else [c])"

definition json_text :: "pystr \<Rightarrow> pystr" where
  "json_text s = dquote # concat (map json_char s) @ [dquote]"

fun json_value :: "snap_value \<Rightarrow> pystr" where
  "json_value (Text s) = json_text s"
| "json_value (Flag b) = (if b then ''true'' else ''false'')"

fun join_commas :: "pystr list \<Rightarrow> pystr" where
  "join_commas [] = []"
| "join_commas [s] = s"
| "join_commas (s # t # r) = s @ '','' @ join_commas (t # r)"

definition canonical_json :: "(pystr \<times> snap_value) list \<Rightarrow> pystr" where
  "canonical_json d =
     ''{'' @ join_commas (map (\<lambda>(k, v). json_text k @ '':'' @ json_value v) (sort_key fst d)) @ ''}''"

definition snapshot_json :: "observation \<Rightarrow> pystr" where
  "snapshot_json x = canonical_json (snapshot_dict x)"

definition snapshot_hash :: "(pystr \<Rightarrow> pystr) \<Rightarrow> observation \<Rightarrow> pystr" where
  "snapshot_hash H x = H (snapshot_json x)"

section \<open>The store\<close>

record obs_row =
  row_key :: pystr
  row_obs :: observation
  row_hash :: pystr
  first_observed :: pystr
  last_observed :: pystr
  observation_count :: nat

record version_row =
  v_key :: pystr
  v_hash :: pystr
  v_observed :: pystr
  v_attempt :: pystr
  v_provenance :: pystr
  v_json :: pystr

record raw_store =
  observations :: "obs_row list"
  versions :: "version_row list"

definition triple :: "observation \<Rightarrow> pystr \<times> pystr \<times> pystr" where
  "triple x = (provider x, external_post_id x, obs_source x)"

definition version_key :: "version_row \<Rightarrow> pystr \<times> pystr" where
  "version_key v = (v_key v, v_hash v)"

text \<open>The update of an existing row keeps its identity columns and its first observation time.\<close>

definition merge_obs :: "observation \<Rightarrow> pystr \<Rightarrow> pystr \<Rightarrow> obs_row \<Rightarrow> obs_row" where
  "merge_obs x h now r =
     r\<lparr>row_obs := x\<lparr>provider := provider (row_obs r), external_post_id := external_post_id (row_obs r),
        obs_source := obs_source (row_obs r)\<rparr>,
       row_hash := h, last_observed := now, observation_count := observation_count r + 1\<rparr>"

text \<open>
  \<open>record\<close>, after \<open>__post_init__\<close>; a second row with the same triple under another key would
  violate the UNIQUE constraint. \<open>now\<close> is \<open>observed_at or _utc_now()\<close>.
\<close>

definition record_obs :: "(pystr \<Rightarrow> pystr) \<Rightarrow> pystr \<Rightarrow> observation \<Rightarrow> raw_store \<Rightarrow> raw_exc + raw_store" where
  "record_obs H now x st =
     (let k = observation_key H x; h = snapshot_hash H x in
      if list_ex (\<lambda>r. triple (row_obs r) = triple x \<and> row_key r \<noteq> k) (observations st)
         \<and> row_by row_key k (observations st) = None
      then Inl RawObservationError
      else Inr (st\<lparr>observations := upsert row_key
            \<lparr>row_key = k, row_obs = x, row_hash = h, first_observed = now, last_observed = now,
             observation_count = 1\<rparr> (merge_obs x h now) (observations st),
          versions := insert_ignore version_key
            \<lparr>v_key = k, v_hash = h, v_observed = now, v_attempt = retrieval_attempt_id x,
             v_provenance = provenance x, v_json = snapshot_json x\<rparr> (versions st)\<rparr>))"

definition obs_get :: "(pystr \<Rightarrow> pystr) \<Rightarrow> pystr \<Rightarrow> pystr \<Rightarrow> pystr \<Rightarrow> raw_store \<Rightarrow> obs_row option" where
  "obs_get H p e s st =
     row_by row_key (H (key_text (py_casefold (py_strip p)) (canon_source s) (py_strip e))) (observations st)"

definition obs_count :: "pystr \<Rightarrow> raw_store \<Rightarrow> nat" where
  "obs_count s st = (if s = [] then length (observations st)
     else length (filter (\<lambda>r. obs_source (row_obs r) = canon_source s) (observations st)))"

definition version_count :: "pystr \<Rightarrow> raw_store \<Rightarrow> nat" where
  "version_count k st = length (filter (\<lambda>v. v_key v = k) (versions st))"

section \<open>The store as a machine\<close>

text \<open>An operation constructs an observation and records it; either step may refuse.\<close>

definition raw_step :: "(pystr \<Rightarrow> pystr) \<Rightarrow> pystr \<times> observation \<Rightarrow> raw_store \<Rightarrow> raw_store" where
  "raw_step H op st = (case obs_post_init (snd op) of
       Inl e \<Rightarrow> st
     | Inr x \<Rightarrow> (case record_obs H (fst op) x st of Inl e \<Rightarrow> st | Inr st' \<Rightarrow> st'))"

definition raw_inv :: "(pystr \<Rightarrow> pystr) \<Rightarrow> raw_store \<Rightarrow> bool" where
  "raw_inv H st \<longleftrightarrow> unique_on row_key (observations st) \<and> unique_on version_key (versions st) \<and>
     (\<forall>r \<in> set (observations st). row_key r = observation_key H (row_obs r) \<and> 1 \<le> observation_count r \<and>
        (row_key r, row_hash r) \<in> version_key ` set (versions st)) \<and>
     (\<forall>v \<in> set (versions st). v_key v \<in> row_key ` set (observations st) \<and> v_hash v = H (v_json v))"

lemma merge_obs_key [simp]: "row_key (merge_obs x h now r) = row_key r"
  by (simp add: merge_obs_def)

lemma merge_obs_id: "observation_key H (row_obs (merge_obs x h now r)) = observation_key H (row_obs r)"
  by (simp add: merge_obs_def observation_key_def)

text \<open>The identity of a row determines its key, so the UNIQUE constraint is never violated.\<close>

lemma record_total: "raw_inv H st \<Longrightarrow> \<exists>st'. record_obs H now x st = Inr st'"
proof -
  assume inv: "raw_inv H st"
  have "row_key r = observation_key H x" if "r \<in> set (observations st)" "triple (row_obs r) = triple x" for r
  proof -
    have "row_key r = observation_key H (row_obs r)" using inv that(1) by (simp add: raw_inv_def)
    with that(2) show ?thesis by (simp add: triple_def observation_key_def)
  qed
  then show ?thesis by (auto simp: record_obs_def Let_def list_ex_iff)
qed

definition obs_entry :: "(pystr \<Rightarrow> pystr) \<Rightarrow> pystr \<Rightarrow> observation \<Rightarrow> obs_row" where
  "obs_entry H now x = \<lparr>row_key = observation_key H x, row_obs = x, row_hash = snapshot_hash H x,
     first_observed = now, last_observed = now, observation_count = 1\<rparr>"

definition version_entry :: "(pystr \<Rightarrow> pystr) \<Rightarrow> pystr \<Rightarrow> observation \<Rightarrow> version_row" where
  "version_entry H now x = \<lparr>v_key = observation_key H x, v_hash = snapshot_hash H x, v_observed = now,
     v_attempt = retrieval_attempt_id x, v_provenance = provenance x, v_json = snapshot_json x\<rparr>"

lemma record_Inr:
  assumes "record_obs H now x st = Inr st'"
  shows "observations st' = upsert row_key (obs_entry H now x) (merge_obs x (snapshot_hash H x) now) (observations st)"
    "versions st' = insert_ignore version_key (version_entry H now x) (versions st)"
  using assms by (auto simp: record_obs_def Let_def obs_entry_def version_entry_def split: if_splits)

lemma record_inv:
  assumes inv: "raw_inv H st" and r: "record_obs H now x st = Inr st'"
  shows "raw_inv H st'"
proof -
  define k h where "k = observation_key H x" and "h = snapshot_hash H x"
  define row v where "row = obs_entry H now x" and "v = version_entry H now x"
  note o' = record_Inr(1) [OF r, folded row_def h_def] and v' = record_Inr(2) [OF r, folded v_def]
  note row_def = row_def [unfolded obs_entry_def, folded k_def h_def]
    and v_def = v_def [unfolded version_entry_def, folded k_def h_def]
  have keys: "row_key ` set (observations st') = insert k (row_key ` set (observations st))"
    unfolding o' by (simp add: keys_upsert row_def)
  have vkeys: "version_key ` set (versions st') = insert (k, h) (version_key ` set (versions st))"
    unfolding v' by (simp add: keys_insert_ignore) (simp add: version_key_def v_def)
  have row_ok: "row_key y = observation_key H (row_obs y) \<and> 1 \<le> observation_count y \<and>
      (row_key y, row_hash y) \<in> version_key ` set (versions st')" if y: "y \<in> set (observations st')" for y
  proof (cases "row_key y = k")
    case True
    from y o' consider "y = row" | z where "z \<in> set (observations st)" "y = z \<or> y = merge_obs x h now z"
      by (auto dest: set_upsert)
    then show ?thesis
    proof cases
      case 1
      then show ?thesis by (simp add: row_def k_def [symmetric] vkeys)
    next
      case (2 z)
      then have "row_key z = k" using True by auto
      moreover have "row_key z = observation_key H (row_obs z)" "1 \<le> observation_count z"
        "(row_key z, row_hash z) \<in> version_key ` set (versions st)"
        using inv 2(1) by (auto simp: raw_inv_def)
      moreover have "row_hash (merge_obs x h now z) = h" "1 \<le> observation_count (merge_obs x h now z)"
        by (simp_all add: merge_obs_def)
      ultimately show ?thesis using 2(2) by (auto simp: vkeys merge_obs_id)
    qed
  next
    case False
    then have "y \<in> set (observations st)"
      using y unfolding o' upsert_def row_def by (auto elim!: in_update_whereE split: if_splits)
    with inv show ?thesis by (auto simp: raw_inv_def vkeys)
  qed
  have ver_ok: "v_key w \<in> row_key ` set (observations st') \<and> v_hash w = H (v_json w)" if "w \<in> set (versions st')" for w
    using that inv set_insert_ignore(2) [of version_key v "versions st"] unfolding v' keys
    by (auto simp: raw_inv_def v_def h_def snapshot_hash_def)
  have "unique_on row_key (observations st')" "unique_on version_key (versions st')"
    using inv unfolding o' v' raw_inv_def by (simp_all add: upsert_unique insert_ignore_unique)
  with row_ok ver_ok show ?thesis unfolding raw_inv_def by blast
qed

lemma raw_step_inv: "raw_inv H st \<Longrightarrow> raw_inv H (raw_step H op st)"
  by (auto simp: raw_step_def record_inv split: sum.split)

interpretation raw: invariant_machine "raw_step H" "raw_inv H" for H
  by unfold_locales (rule raw_step_inv)

section \<open>Properties\<close>

definition empty_raw :: raw_store where "empty_raw = \<lparr>observations = [], versions = []\<rparr>"

lemma empty_raw_inv [simp]: "raw_inv H empty_raw"
  by (simp add: raw_inv_def empty_raw_def)

text \<open>The abstract store: the accepted observations of a key, in order.\<close>

fun accepted :: "(pystr \<Rightarrow> pystr) \<Rightarrow> pystr \<Rightarrow> (pystr \<times> observation) list \<Rightarrow> (pystr \<times> observation) list" where
  "accepted H k [] = []"
| "accepted H k ((now, x) # ops) = (case obs_post_init x of
       Inl e \<Rightarrow> accepted H k ops
     | Inr y \<Rightarrow> if observation_key H y = k then (now, y) # accepted H k ops else accepted H k ops)"

lemma accepted_append: "accepted H k (as @ bs) = accepted H k as @ accepted H k bs"
  by (induction H k as rule: accepted.induct) (auto split: sum.split)

lemma run_raw: "raw_inv H st \<Longrightarrow> raw_inv H (fold (raw_step H) ops st)"
  by (rule raw.run_inv)

lemma raw_step_accept:
  assumes "raw_inv H st" "obs_post_init x = Inr y"
  shows "record_obs H now y st = Inr (raw_step H (now, x) st)"
  using record_total [OF assms(1), of now y] assms(2) by (auto simp: raw_step_def)

text \<open>
  Recording never fails: the database constraint on the identity triple cannot be violated, since
  the key is a function of the triple. So the only refusal is a missing provider, id or source.
\<close>

theorem record_never_refused:
  "(\<exists>st'. record_obs H now x (fold (raw_step H) ops empty_raw) = Inr st' \<and> raw_inv H st') \<and>
   (obs_post_init z = Inl e \<longleftrightarrow> py_strip (provider z) = [] \<or> py_strip (external_post_id z) = [] \<or>
      py_strip (py_lstrip_at (obs_source z)) = [])"
proof -
  have "raw_inv H (fold (raw_step H) ops empty_raw)" by (rule run_raw) simp
  then have "\<exists>st'. record_obs H now x (fold (raw_step H) ops empty_raw) = Inr st' \<and> raw_inv H st'"
    using record_total record_inv by blast
  moreover have fold_nil: "py_casefold s = [] \<longleftrightarrow> s = []" for s by (cases s) (simp_all add: py_casefold_def)
  then have "obs_post_init z = Inl e \<longleftrightarrow> py_strip (provider z) = [] \<or> py_strip (external_post_id z) = [] \<or>
      py_strip (py_lstrip_at (obs_source z)) = []"
    by (cases e) (simp add: obs_post_init_def Let_def canon_source_def)
  ultimately show ?thesis by blast
qed

definition summary :: "(pystr \<Rightarrow> pystr) \<Rightarrow> pystr \<Rightarrow> (pystr \<times> observation) list \<Rightarrow> obs_row option" where
  "summary H k ys = (if ys = [] then None else Some
     \<lparr>row_key = k,
      row_obs = (snd (last ys))\<lparr>provider := provider (snd (hd ys)),
        external_post_id := external_post_id (snd (hd ys)), obs_source := obs_source (snd (hd ys))\<rparr>,
      row_hash = snapshot_hash H (snd (last ys)), first_observed = fst (hd ys),
      last_observed = fst (last ys), observation_count = length ys\<rparr>)"

lemma step_row:
  assumes "raw_inv H st"
  shows "row_by row_key k (observations (raw_step H (now, x) st)) =
    (case obs_post_init x of
       Inr y \<Rightarrow> if observation_key H y = k
         then Some (case row_by row_key k (observations st) of
             None \<Rightarrow> obs_entry H now y | Some r \<Rightarrow> merge_obs y (snapshot_hash H y) now r)
         else row_by row_key k (observations st)
     | Inl e \<Rightarrow> row_by row_key k (observations st))"
proof (cases "obs_post_init x")
  case (Inr y)
  have "row_key (obs_entry H now y) = observation_key H y" by (simp add: obs_entry_def)
  then show ?thesis unfolding record_Inr(1) [OF raw_step_accept [OF assms Inr, of now]]
    by (simp add: Inr row_by_upsert)
qed (simp add: raw_step_def)

text \<open>
  C31: The row of a key is the history of the key in short: the counter is the number of accepted
  observations, the times are those of the first and the last, the content is that of the last
  and the identity that of the first.
\<close>

theorem row_summarises_history:
  "row_by row_key k (observations (fold (raw_step H) ops empty_raw)) = summary H k (accepted H k ops)"
proof (induction ops rule: rev_induct)
  case (snoc op ops)
  obtain now x where op: "op = (now, x)" by force
  have inv: "raw_inv H (fold (raw_step H) ops empty_raw)" by (rule run_raw) simp
  show ?case
  proof (cases "obs_post_init x")
    case (Inr y)
    show ?thesis
    proof (cases "observation_key H y = k")
      case True
      with Inr show ?thesis by (cases "accepted H k ops")
        (simp_all add: op step_row [OF inv] snoc.IH accepted_append summary_def merge_obs_def obs_entry_def)
    next
      case False
      with Inr show ?thesis by (simp add: op step_row [OF inv] snoc.IH accepted_append)
    qed
  qed (simp add: op step_row [OF inv] snoc.IH accepted_append)
qed (simp add: empty_raw_def summary_def)

lemma step_versions:
  assumes "raw_inv H st"
  shows "\<exists>vs. versions (raw_step H (now, x) st) = versions st @ vs"
    "version_key ` set (versions (raw_step H (now, x) st)) = version_key ` set (versions st) \<union>
      (case obs_post_init x of Inl e \<Rightarrow> {} | Inr y \<Rightarrow> {(observation_key H y, snapshot_hash H y)})"
proof -
  have "(\<exists>vs. versions (raw_step H (now, x) st) = versions st @ vs) \<and>
    version_key ` set (versions (raw_step H (now, x) st)) = version_key ` set (versions st) \<union>
      (case obs_post_init x of Inl e \<Rightarrow> {} | Inr y \<Rightarrow> {(observation_key H y, snapshot_hash H y)})"
  proof (cases "obs_post_init x")
    case (Inr y)
    note eq = record_Inr(2) [OF raw_step_accept [OF assms Inr, of now]]
    have "version_key (version_entry H now y) = (observation_key H y, snapshot_hash H y)"
      by (simp add: version_key_def version_entry_def)
    then show ?thesis unfolding eq keys_insert_ignore by (simp add: Inr insert_ignore_def)
  qed (simp add: raw_step_def)
  then show "\<exists>vs. versions (raw_step H (now, x) st) = versions st @ vs"
    "version_key ` set (versions (raw_step H (now, x) st)) = version_key ` set (versions st) \<union>
      (case obs_post_init x of Inl e \<Rightarrow> {} | Inr y \<Rightarrow> {(observation_key H y, snapshot_hash H y)})"
    by blast+
qed

lemma run_versions:
  "raw_inv H st \<Longrightarrow> \<exists>vs. versions (fold (raw_step H) ops st) = versions st @ vs"
proof (induction ops arbitrary: st)
  case (Cons op ops)
  obtain now x where op: "op = (now, x)" by force
  from Cons.IH [OF raw_step_inv [OF Cons.prems]] step_versions(1) [OF Cons.prems, of now x]
  show ?case by (auto simp: op) (metis append.assoc)
qed simp

lemma run_version_keys:
  "version_key ` set (versions (fold (raw_step H) ops empty_raw)) =
    {(k, h). h \<in> snapshot_hash H ` snd ` set (accepted H k ops)}"
proof (induction ops rule: rev_induct)
  case (snoc op ops)
  obtain now x where op: "op = (now, x)" by force
  have inv: "raw_inv H (fold (raw_step H) ops empty_raw)" by (rule run_raw) simp
  show ?case by (cases "obs_post_init x")
    (auto simp: op step_versions(2) [OF inv] snoc.IH accepted_append split: if_splits)
qed (simp add: empty_raw_def)

lemma version_count_card:
  assumes "unique_on version_key (versions st)"
  shows "version_count k st = card {h. (k, h) \<in> version_key ` set (versions st)}"
proof -
  let ?vs = "filter (\<lambda>v. v_key v = k) (versions st)"
  have "distinct (map version_key ?vs)"
    using assms by (simp add: unique_on_def distinct_map_filter)
  moreover have "map version_key ?vs = map (Pair k) (map v_hash ?vs)" by (simp add: version_key_def)
  ultimately have "distinct (map v_hash ?vs)" by (metis distinct_map)
  then have "card (set (map v_hash ?vs)) = length ?vs" using distinct_card by fastforce
  moreover have "set (map v_hash ?vs) = {h. (k, h) \<in> version_key ` set (versions st)}"
    by (auto simp: version_key_def)
  ultimately show ?thesis by (simp add: version_count_def)
qed

lemma run_version_count:
  "version_count k (fold (raw_step H) ops empty_raw) = card (snapshot_hash H ` snd ` set (accepted H k ops))"
proof -
  have inv: "raw_inv H (fold (raw_step H) ops empty_raw)" by (rule run_raw) simp
  then have "unique_on version_key (versions (fold (raw_step H) ops empty_raw))" by (simp add: raw_inv_def)
  then show ?thesis by (simp add: version_count_card run_version_keys)
qed

text \<open>
  Versions are append-only and exact: no operation changes or removes one, and the number of
  versions of a key is the number of distinct snapshot hashes among its accepted observations.
\<close>

theorem versions_exact:
  "version_count k (fold (raw_step H) ops empty_raw) = card (snapshot_hash H ` snd ` set (accepted H k ops)) \<and>
   (\<exists>vs. versions (fold (raw_step H) (ops @ later) empty_raw) = versions (fold (raw_step H) ops empty_raw) @ vs)"
  using run_version_count run_versions [OF run_raw [OF empty_raw_inv], of H later ops] by simp

section \<open>What makes two versions\<close>

text \<open>The escape of a character can be read back, so the JSON text of a text determines it.\<close>

definition unescape_short :: "char \<Rightarrow> char" where
  "unescape_short d =
     (if d = CHR ''n'' then char_of (10 :: nat) else if d = CHR ''r'' then char_of (13 :: nat)
      else if d = CHR ''t'' then char_of (9 :: nat) else if d = CHR ''f'' then char_of (12 :: nat)
      else if d = CHR ''b'' then char_of (8 :: nat) else d)"

definition unhex :: "char \<Rightarrow> char \<Rightarrow> char" where
  "unhex a b = char_of (16 * ((of_char a :: nat) - 48) +
     (if (of_char b :: nat) < 97 then of_char b - 48 else of_char b - 87))"

fun unescape :: "pystr \<Rightarrow> (char \<times> pystr) option" where
  "unescape (c # r) =
     (if c \<noteq> bslash then Some (c, r)
      else case r of
        [] \<Rightarrow> None
      | d # r1 \<Rightarrow> if d \<noteq> CHR ''u'' then Some (unescape_short d, r1)
          else (case r1 of
             z # z' # x # y # r2 \<Rightarrow> Some (unhex x y, r2)
           | _ \<Rightarrow> None))"
| "unescape [] = None"

definition escape_form :: "char \<Rightarrow> bool" where
  "escape_form c = (case json_char c of
       [x] \<Rightarrow> x = c \<and> x \<noteq> bslash \<and> x \<noteq> dquote
     | [x, d] \<Rightarrow> x = bslash \<and> d \<noteq> CHR ''u'' \<and> unescape_short d = c
     | [x, d, z, z', a, b] \<Rightarrow> x = bslash \<and> d = CHR ''u'' \<and> unhex a b = c
     | _ \<Rightarrow> False)"

lemma escape_forms: "escape_form c"
proof -
  define n where "n = (of_char c :: nat)"
  have c: "c = char_of n" by (simp add: n_def)
  have low: "list_all (\<lambda>n. escape_form (char_of n)) [0..<32]"
    by (simp add: upt_rec escape_form_def json_char_def Let_def hex_char_def unhex_def unescape_short_def
        bslash_def dquote_def)
  have quote: "escape_form (char_of (92 :: nat))" "escape_form (char_of (34 :: nat))" by code_simp+
  have "of_char bslash = (92 :: nat)" "of_char dquote = (34 :: nat)"
    by (simp_all add: bslash_def dquote_def)
  moreover have "json_char c = [c]" if "n \<noteq> 92" "n \<noteq> 34" "\<not> n < 32"
    using that by (simp add: json_char_def Let_def n_def [symmetric])
  ultimately have "escape_form c" if "n \<noteq> 92" "n \<noteq> 34" "\<not> n < 32"
    using that by (auto simp: escape_form_def n_def)
  moreover have "escape_form c" if "n < 32" using low that c unfolding list_all_iff by auto
  ultimately show ?thesis using quote c by (cases "n = 92"; cases "n = 34") auto
qed

lemma escape_cases:
  obtains "json_char c = [c]" "c \<noteq> bslash" "c \<noteq> dquote"
  | d where "json_char c = [bslash, d]" "d \<noteq> CHR ''u''" "unescape_short d = c"
  | z z' a b where "json_char c = [bslash, CHR ''u'', z, z', a, b]" "unhex a b = c"
  using escape_forms [of c] unfolding escape_form_def by (auto split: list.splits)

lemma unescape_json_char: "unescape (json_char c @ s) = Some (c, s)"
  by (cases c rule: escape_cases) simp_all

lemma json_char_not_end: "json_char c @ x \<noteq> dquote # y"
proof -
  have "bslash \<noteq> dquote" by (simp add: bslash_def dquote_def)
  then show ?thesis by (cases c rule: escape_cases) simp_all
qed

lemma json_char_cancel: "json_char c @ x = json_char d @ y \<Longrightarrow> c = d \<and> x = y"
  by (metis unescape_json_char option.inject prod.inject)

lemma escaped_inj:
  "concat (map json_char a) @ dquote # x = concat (map json_char b) @ dquote # y \<Longrightarrow> a = b \<and> x = y"
proof (induction a arbitrary: b)
  case Nil
  show ?case
  proof (cases b)
    case (Cons d b')
    with Nil json_char_not_end [of d "concat (map json_char b') @ dquote # y" x] show ?thesis by simp
  qed (use Nil in simp)
next
  case (Cons c a)
  show ?case
  proof (cases b)
    case Nil
    with Cons.prems json_char_not_end [of c "concat (map json_char a) @ dquote # x" y] show ?thesis by simp
  next
    case (Cons d b')
    with Cons.prems json_char_cancel [of c "concat (map json_char a) @ dquote # x" d
        "concat (map json_char b') @ dquote # y"] Cons.IH [of b'] show ?thesis by simp
  qed
qed

lemma json_text_cancel [simp]: "json_text a @ x = json_text b @ y \<longleftrightarrow> a = b \<and> x = y"
  using escaped_inj [of a x b y] by (auto simp: json_text_def)

lemma json_text_inj [simp]: "json_text a = json_text b \<longleftrightarrow> a = b"
  using json_text_cancel [of a "[]" b "[]"] by simp

lemma flag_cancel [simp]: "json_value (Flag a) @ x = json_value (Flag b) @ y \<longleftrightarrow> a = b \<and> x = y"
  by auto

text \<open>The canonical JSON determines every field, so the hash identifies the whole snapshot.\<close>

lemma snapshot_json_inj: "snapshot_json x = snapshot_json y \<longleftrightarrow> x = y"
  for x y :: observation
proof
  assume "snapshot_json x = snapshot_json y"
  then show "x = y" unfolding snapshot_json_def canonical_json_def snapshot_dict_def
    by (simp add: sort_key_def del: json_value.simps(2))
qed simp

lemma accepted_canonical:
  "(t, y) \<in> set (accepted H k ops) \<Longrightarrow> \<exists>x. (t, x) \<in> set ops \<and> obs_post_init x = Inr y"
  by (induction H k ops rule: accepted.induct) (auto split: sum.splits if_splits)

lemma versions_are_distinct_observations_aux:
  assumes "inj H"
  shows "version_count k (fold (raw_step H) ops empty_raw) = card (snd ` set (accepted H k ops))"
proof -
  have "inj (snapshot_hash H)"
    using assms by (auto intro!: injI simp: snapshot_hash_def inj_eq snapshot_json_inj)
  then have "card (snapshot_hash H ` snd ` set (accepted H k ops)) = card (snd ` set (accepted H k ops))"
    by (metis card_image inj_on_subset top_greatest)
  then show ?thesis using run_version_count [of k H ops] by simp
qed

text \<open>
  With a hash that does not collide, the versions of a key are exactly the different observations
  that were accepted under it: every field counts, the retrieval attempt id included.
\<close>

theorem versions_are_distinct_observations:
  assumes "inj H"
  shows "version_count k (fold (raw_step H) ops empty_raw) = card (snd ` set (accepted H k ops))"
  using assms by (rule versions_are_distinct_observations_aux)

definition demo_obs :: observation where
  "demo_obs = \<lparr>provider = ''x'', external_post_id = ''101'', obs_source = ''@Source'', source_mode = ''full_feed'',
     obs_created_at = [], obs_text = ''same'', obs_conversation_id = [], obs_reply_to_id = [], obs_quoted_id = [],
     obs_quoted_text = [], obs_quoted_author = [], obs_lang = [], media_json = ''[]'', quoted_media_json = ''[]'',
     post_type = ''post'', is_retweet = False, obs_is_reply = False, is_quote = False, is_media_only = False,
     provenance = [], retrieval_attempt_id = [], provider_payload_hash = [], observation_status = ''converted''\<rparr>"

lemma demo_obs_init:
  "obs_post_init (demo_obs\<lparr>retrieval_attempt_id := a\<rparr>) = Inr (demo_obs\<lparr>obs_source := ''source'', retrieval_attempt_id := a\<rparr>)"
proof -
  have "py_casefold (py_strip ''x'') = ''x''" "py_strip ''101'' = ''101''" "canon_source ''@Source'' = ''source''"
    by code_simp+
  then show ?thesis by (simp add: obs_post_init_def Let_def demo_obs_def)
qed

theorem versions_are_distinct_observations_witness:
  "inj (id :: pystr \<Rightarrow> pystr) \<and>
   version_count (observation_key id (demo_obs\<lparr>obs_source := ''source''\<rparr>))
     (fold (raw_step id) [(''n'', demo_obs), (''m'', demo_obs)] empty_raw) = 1"
proof -
  let ?y = "demo_obs\<lparr>obs_source := ''source''\<rparr>"
  have i: "obs_post_init demo_obs = Inr ?y" using demo_obs_init [of "[]"] by (simp add: demo_obs_def)
  have a: "accepted id (observation_key id ?y) [(''n'', demo_obs), (''m'', demo_obs)] = [(''n'', ?y), (''m'', ?y)]"
    by (simp add: i)
  have "version_count (observation_key id ?y) (fold (raw_step id) [(''n'', demo_obs), (''m'', demo_obs)] empty_raw) =
      card (snd ` set [(''n'', ?y), (''m'', ?y)])"
    using versions_are_distinct_observations [OF inj_on_id] unfolding a [symmetric] by blast
  also have "\<dots> = 1" by simp
  finally show ?thesis by simp
qed

lemma accepted_rescans:
  assumes "\<And>a. obs_post_init (x\<lparr>retrieval_attempt_id := a\<rparr>) = Inr (y\<lparr>retrieval_attempt_id := a\<rparr>)"
  shows "accepted H (observation_key H y) (map (\<lambda>(now, a). (now, x\<lparr>retrieval_attempt_id := a\<rparr>)) scans) =
    map (\<lambda>(now, a). (now, y\<lparr>retrieval_attempt_id := a\<rparr>)) scans"
  by (induction scans) (auto simp: assms observation_key_def)

text \<open>
  The class promises that repeated scans do not duplicate full payloads. They do when each scan
  has its own retrieval attempt id: the id is part of the hashed snapshot, so \<open>n\<close> scans of one
  unchanged post leave \<open>n\<close> full versions.
\<close>

theorem rescans_duplicate_payload:
  assumes "inj H" "distinct (map snd scans)"
    "\<And>a. obs_post_init (x\<lparr>retrieval_attempt_id := a\<rparr>) = Inr (y\<lparr>retrieval_attempt_id := a\<rparr>)"
  shows "version_count (observation_key H y)
      (fold (raw_step H) (map (\<lambda>(now, a). (now, x\<lparr>retrieval_attempt_id := a\<rparr>)) scans) empty_raw) = length scans"
proof -
  let ?f = "\<lambda>a. y\<lparr>retrieval_attempt_id := a\<rparr>"
  have "inj ?f" by (rule injI) (metis (no_types, lifting) observation.select_convs(21) observation.surjective
      observation.update_convs(21))
  then have "card (?f ` set (map snd scans)) = length scans"
    using assms(2) by (metis card_image distinct_card inj_on_subset length_map top_greatest)
  moreover have "snd ` set (map (\<lambda>(now, a). (now, ?f a)) scans) = ?f ` set (map snd scans)" by force
  ultimately show ?thesis
    by (simp add: versions_are_distinct_observations_aux [OF assms(1)] accepted_rescans [OF assms(3)])
qed

theorem rescans_duplicate_payload_witness:
  "version_count (observation_key id (demo_obs\<lparr>obs_source := ''source''\<rparr>))
     (fold (raw_step id) (map (\<lambda>(now, a). (now, demo_obs\<lparr>retrieval_attempt_id := a\<rparr>))
       [(''n'', ''a1''), (''m'', ''a2''), (''o'', ''a3'')]) empty_raw) = 3"
  by (subst rescans_duplicate_payload) (simp_all add: demo_obs_init)

end
