(* ===== verification/EditorialCore.thy ===== *)
theory EditorialCore
  imports PyTime "HOL-Library.Word"
begin

text \<open>
  \<open>rust/editorial-core/src/lib.rs\<close> and the two requests of \<open>main.rs\<close> the bot makes. Counts are
  \<open>u64\<close>, modelled as 64-bit words: a request with a number outside the range is not parsed and
  answered with \<open>ok: false\<close>. The parser of RFC 3339 timestamps (the chrono crate) is the
  parameter \<open>rfc\<close>.
\<close>

record proof_request =
  pages :: int
  raw_count :: int
  valid_response :: bool
  exhausted :: bool
  resumed :: bool
  lower_boundary :: bool
  failed :: bool

record traversal_proof =
  t_pages :: "64 word"
  t_raw_count :: "64 word"
  t_valid_response :: bool
  t_exhausted :: bool
  t_resumed :: bool
  t_lower_boundary :: bool
  t_failed :: bool

datatype completeness_state = Attempting | Complete | Partial | Unproven

fun state_name :: "completeness_state \<Rightarrow> pystr" where
  "state_name Attempting = ''attempting''"
| "state_name Complete = ''complete''"
| "state_name Partial = ''partial''"
| "state_name Unproven = ''unproven''"

definition state_of_name :: "pystr \<Rightarrow> completeness_state option" where
  "state_of_name s = List.find (\<lambda>c. state_name c = s) [Attempting, Complete, Partial, Unproven]"

definition evaluate_completeness :: "traversal_proof \<Rightarrow> completeness_state" where
  "evaluate_completeness p =
     (if \<not> t_failed p \<and> 0 < t_pages p \<and> t_valid_response p \<and> t_exhausted p \<and> \<not> t_resumed p
         \<and> \<not> t_lower_boundary p then Complete
      else if 0 < t_raw_count p then Partial else Unproven)"

datatype core_error = InvalidTimestamp | CursorOutsideWindow | CursorAdvanceWithoutProof | CursorRegression pystr pystr
  | InvalidQueueTransition

record source_window =
  sw_source :: pystr
  sw_start :: pystr
  sw_end :: pystr
  sw_completeness :: completeness_state
  sw_through :: "pystr option"

definition core_parse :: "(pystr \<Rightarrow> instant option) \<Rightarrow> pystr \<Rightarrow> core_error + instant" where
  "core_parse rfc s = (case rfc s of None \<Rightarrow> Inl InvalidTimestamp | Some t \<Rightarrow> Inr t)"

definition advance_complete_through ::
    "(pystr \<Rightarrow> instant option) \<Rightarrow> source_window \<Rightarrow> pystr \<Rightarrow> core_error + pystr" where
  "advance_complete_through rfc w candidate =
     (if sw_completeness w \<noteq> Complete then Inl CursorAdvanceWithoutProof
      else bindE (core_parse rfc candidate) (\<lambda>c.
           bindE (core_parse rfc (sw_start w)) (\<lambda>a.
           bindE (core_parse rfc (sw_end w)) (\<lambda>b.
             if b \<le> a \<or> c < a \<or> b < c then Inl CursorOutsideWindow
             else (case sw_through w of
                 None \<Rightarrow> Inr candidate
               | Some current \<Rightarrow> bindE (core_parse rfc current) (\<lambda>t.
                   if c < t then Inl (CursorRegression current candidate) else Inr candidate))))))"

section \<open>The requests the engine makes\<close>

text \<open>
  The answer of one process run: \<open>None\<close> is every failure the caller catches (no binary, a crash, a
  timeout, \<open>ok: false\<close>). \<open>up\<close> says whether the process ran at all.
\<close>

definition u64 :: "int \<Rightarrow> 64 word option" where
  "u64 i = (if 0 \<le> i \<and> i < 2 ^ 64 then Some (word_of_int i) else None)"

definition core_evaluate :: "bool \<Rightarrow> proof_request \<Rightarrow> pystr option" where
  "core_evaluate up p =
     (if \<not> up then None
      else Option.bind (u64 (pages p)) (\<lambda>n. Option.bind (u64 (raw_count p)) (\<lambda>r.
        Some (state_name (evaluate_completeness
          \<lparr>t_pages = n, t_raw_count = r, t_valid_response = valid_response p, t_exhausted = exhausted p,
           t_resumed = resumed p, t_lower_boundary = lower_boundary p, t_failed = failed p\<rparr>)))))"

definition core_advance :: "(pystr \<Rightarrow> instant option) \<Rightarrow> bool \<Rightarrow> source_window \<Rightarrow> pystr \<Rightarrow> pystr option" where
  "core_advance rfc up w candidate =
     (if \<not> up then None
      else case advance_complete_through rfc w candidate of Inl e \<Rightarrow> None | Inr t \<Rightarrow> Some t)"

text \<open>
  The contract of the authority: \<open>complete\<close> is only said of a full, fresh, valid and terminated
  traversal; a cursor moves only to the proposed candidate, only for a complete window.
\<close>

definition terminal_proof :: "proof_request \<Rightarrow> bool" where
  "terminal_proof p \<longleftrightarrow> \<not> failed p \<and> 0 < pages p \<and> valid_response p \<and> exhausted p \<and> \<not> resumed p \<and> \<not> lower_boundary p"

locale proof_authority =
  fixes evaluate :: "bool \<Rightarrow> proof_request \<Rightarrow> pystr option"
    and advance :: "bool \<Rightarrow> source_window \<Rightarrow> pystr \<Rightarrow> pystr option"
  assumes evaluate_complete: "evaluate up p = Some ''complete'' \<Longrightarrow> terminal_proof p"
    and evaluate_proved: "terminal_proof p \<Longrightarrow> pages p < 2 ^ 64 \<Longrightarrow> 0 \<le> raw_count p \<Longrightarrow> raw_count p < 2 ^ 64 \<Longrightarrow>
      evaluate True p = Some ''complete''"
    and evaluate_down: "evaluate False p = None"
    and advance_candidate: "advance up w c = Some d \<Longrightarrow> d = c"
    and advance_down: "advance False w c = None"
begin

lemma evaluate_iff:
  assumes "pages p < 2 ^ 64" "0 \<le> raw_count p" "raw_count p < 2 ^ 64"
  shows "evaluate up p = Some ''complete'' \<longleftrightarrow> up \<and> terminal_proof p"
  using assms evaluate_complete evaluate_proved evaluate_down by (cases up) auto

end

lemma u64_pos: "u64 i = Some n \<Longrightarrow> 0 < n \<longleftrightarrow> 0 < i"
proof -
  assume u: "u64 i = Some n"
  then have b: "0 \<le> i" "i < 2 ^ 64" "n = word_of_int i" by (auto simp: u64_def split: if_splits)
  then have "uint n = i" by (simp add: uint_word_of_int_eq take_bit_int_eq_self)
  then show ?thesis by (simp add: word_less_def)
qed

lemma state_name_complete: "state_name c = ''complete'' \<longleftrightarrow> c = Complete"
  by (cases c) simp_all

lemma core_evaluate_complete: "core_evaluate up p = Some ''complete'' \<Longrightarrow> terminal_proof p"
  by (auto simp: core_evaluate_def bind_eq_Some_conv state_name_complete evaluate_completeness_def
      terminal_proof_def u64_pos split: if_splits)

lemma core_evaluate_proved:
  assumes "terminal_proof p" "pages p < 2 ^ 64" "0 \<le> raw_count p" "raw_count p < 2 ^ 64"
  shows "core_evaluate True p = Some ''complete''"
proof -
  obtain n where n: "u64 (pages p) = Some n" using assms(1,2) by (simp add: u64_def terminal_proof_def)
  obtain r where r: "u64 (raw_count p) = Some r" using assms(3,4) by (simp add: u64_def)
  have "0 < n" using u64_pos [OF n] assms(1) by (simp add: terminal_proof_def)
  with n r assms(1) show ?thesis by (simp add: core_evaluate_def evaluate_completeness_def terminal_proof_def)
qed

lemma advance_same: "advance_complete_through rfc w c = Inr d \<Longrightarrow> d = c"
  by (auto simp: advance_complete_through_def bindE_def split: sum.splits option.splits if_splits)

interpretation core: proof_authority core_evaluate "core_advance rfc" for rfc
proof
  show "core_evaluate up p = Some ''complete'' \<Longrightarrow> terminal_proof p" for up p by (rule core_evaluate_complete)
  show "terminal_proof p \<Longrightarrow> pages p < 2 ^ 64 \<Longrightarrow> 0 \<le> raw_count p \<Longrightarrow> raw_count p < 2 ^ 64 \<Longrightarrow>
      core_evaluate True p = Some ''complete''" for p by (rule core_evaluate_proved)
  show "core_evaluate False p = None" for p by (simp add: core_evaluate_def)
  show "core_advance rfc up w c = Some d \<Longrightarrow> d = c" for up w c d
    by (auto simp: core_advance_def dest: advance_same split: if_splits sum.splits)
  show "core_advance rfc False w c = None" for w c by (simp add: core_advance_def)
qed

text \<open>
  The cursor rule of the core: it accepts exactly the candidates inside a complete, non-empty
  window that do not lie before the present cursor, as instants.
\<close>

theorem advance_accepts_iff:
  assumes "rfc candidate = Some c" "rfc (sw_start w) = Some a" "rfc (sw_end w) = Some b"
    "case sw_through w of None \<Rightarrow> True | Some s \<Rightarrow> rfc s = Some t"
  shows "advance_complete_through rfc w candidate = Inr candidate \<longleftrightarrow>
    sw_completeness w = Complete \<and> a < b \<and> a \<le> c \<and> c \<le> b \<and> (sw_through w \<noteq> None \<longrightarrow> t \<le> c)"
  using assms by (auto simp: advance_complete_through_def bindE_def core_parse_def split: option.split)

theorem advance_accepts_iff_witness:
  "advance_complete_through (\<lambda>s. Some (int (length s))) \<lparr>sw_source = ''a'', sw_start = ''1'', sw_end = ''333'',
     sw_completeness = Complete, sw_through = Some ''22''\<rparr> ''333'' = Inr ''333''"
  by (subst advance_accepts_iff [where a = 1 and b = 3 and c = 3 and t = 2]) simp_all

section \<open>The editorial queue of the core\<close>

datatype queue_state = Pending | Reviewing | Deferred | Ready | Skipped

definition transition_queue :: "queue_state \<Rightarrow> queue_state \<Rightarrow> core_error + queue_state" where
  "transition_queue s to =
     (if (s, to) \<in> {(Pending, Reviewing), (Pending, Deferred), (Pending, Skipped), (Reviewing, Ready),
          (Reviewing, Deferred), (Reviewing, Skipped), (Deferred, Pending), (Deferred, Reviewing)} \<or> s = to
      then Inr to else Inl InvalidQueueTransition)"

text \<open>Accepted transitions as a relation, and what a run of them can reach.\<close>

inductive editorial_step :: "queue_state \<Rightarrow> queue_state \<Rightarrow> bool" where
  accept: "transition_queue s to = Inr to \<Longrightarrow> editorial_step s to"

inductive_cases editorial_stepE: "editorial_step s to"

inductive_simps editorial_step_simps: "editorial_step s to"

inductive queue_run :: "queue_state \<Rightarrow> queue_state list \<Rightarrow> queue_state \<Rightarrow> bool" where
  stop: "queue_run s [] s"
| go: "editorial_step s u \<Longrightarrow> queue_run u us v \<Longrightarrow> queue_run s (u # us) v"

lemma terminal_step: "editorial_step s u \<Longrightarrow> s \<in> {Ready, Skipped} \<Longrightarrow> u = s"
  by (auto simp: editorial_step_simps transition_queue_def split: if_splits)

lemma ready_only_reviewed: "editorial_step s Ready \<Longrightarrow> s \<in> {Reviewing, Ready}"
  by (auto simp: editorial_step_simps transition_queue_def split: if_splits)

text \<open>
  A decision is final and never taken unread: \<open>Ready\<close> and \<open>Skipped\<close> are never left, and a run from
  another state that ends in \<open>Ready\<close> passes through \<open>Reviewing\<close>.
\<close>

theorem decisions_final_and_reviewed:
  "queue_run s us v \<Longrightarrow> (s \<in> {Ready, Skipped} \<longrightarrow> v = s) \<and>
    (v = Ready \<and> s \<noteq> Ready \<longrightarrow> Reviewing \<in> set (s # us))"
proof (induction rule: queue_run.induct)
  case (go s u us v)
  then show ?case using terminal_step [OF go(1)] ready_only_reviewed [of s] by (cases "u = Ready") auto
qed simp

theorem decisions_final_and_reviewed_witness:
  "queue_run Pending [Deferred, Reviewing, Ready] Ready \<and> Reviewing \<in> set [Pending, Deferred, Reviewing, Ready]"
proof -
  have r: "queue_run Pending [Deferred, Reviewing, Ready] Ready"
    by (intro queue_run.intros editorial_step.intros) (simp_all add: transition_queue_def)
  with decisions_final_and_reviewed [OF r] show ?thesis by simp
qed

end
