(* ===== verification/Evidence.thy ===== *)
theory Evidence
  imports Models
begin

text \<open>
  The traversal evidence of one source attempt: \<open>app/completeness_evidence.py\<close> (the record and its
  two recorders) and \<open>app/completeness_provider_proof.py\<close> (the structural proof of a provider
  page). The context variable is the argument \<open>ev\<close>. A tweet object is the record of the attributes
  the code reads; the provider's parser and its pagination cursor are arguments.
\<close>

record evidence =
  ev_source :: pystr
  ev_start :: pystr
  ev_end :: pystr
  ev_pages :: int
  ev_raw_count :: int
  observation_ids :: "pystr set"
  expected_window_ids :: "pystr set"
  ev_provider_cursor :: pystr
  ev_exhausted :: bool
  ev_valid_response :: bool
  ev_resumed :: bool
  ev_lower_boundary :: bool
  lower_boundary_proven :: bool
  timeline_order_valid :: bool
  newest_top_level_at :: pystr
  oldest_top_level_at :: pystr
  previous_page_oldest_at :: pystr
  top_level_ids_seen :: "pystr set"

definition fresh_evidence :: "pystr \<Rightarrow> pystr \<Rightarrow> pystr \<Rightarrow> evidence" where
  "fresh_evidence source ws we = \<lparr>ev_source = source, ev_start = ws, ev_end = we, ev_pages = 0,
     ev_raw_count = 0, observation_ids = {}, expected_window_ids = {}, ev_provider_cursor = [],
     ev_exhausted = False, ev_valid_response = False, ev_resumed = False, ev_lower_boundary = False,
     lower_boundary_proven = False, timeline_order_valid = True, newest_top_level_at = [],
     oldest_top_level_at = [], previous_page_oldest_at = [], top_level_ids_seen = {}\<rparr>"

definition record_page :: "int \<Rightarrow> pystr option \<Rightarrow> bool \<Rightarrow> evidence \<Rightarrow> evidence" where
  "record_page n cursor valid ev = ev\<lparr>
     ev_valid_response := (if ev_pages ev = 0 then valid else ev_valid_response ev \<and> valid),
     ev_pages := ev_pages ev + 1, ev_raw_count := ev_raw_count ev + n,
     ev_provider_cursor := take 4096 (case cursor of None \<Rightarrow> [] | Some c \<Rightarrow> c)\<rparr>"

definition record_observation :: "pystr \<Rightarrow> evidence \<Rightarrow> evidence" where
  "record_observation i ev = ev\<lparr>observation_ids := insert i (observation_ids ev)\<rparr>"

section \<open>The structure of a timeline payload\<close>

definition is_prefix :: "pystr \<Rightarrow> pystr \<Rightarrow> bool" where
  "is_prefix p s \<longleftrightarrow> take (length p) s = p"

definition get_text :: "pyenv \<Rightarrow> pydict \<Rightarrow> pystr \<Rightarrow> pystr" where
  "get_text env d k = (let v = dict_get d k (JStr []) in if truthy v then py_str (float_text env) v else [])"

definition post_id :: "pyenv \<Rightarrow> json \<Rightarrow> pystr" where
  "post_id env entry = (case entry of
       JObj d \<Rightarrow> (let v = get_text env d ''entryId'' in
         if is_prefix ''tweet-'' v then py_strip (drop (length ''tweet-'') v) else [])
     | _ \<Rightarrow> [])"

definition timeline_group :: "pyenv \<Rightarrow> json list \<Rightarrow> bool" where
  "timeline_group env items \<longleftrightarrow> list_ex (\<lambda>i. case i of
       JObj d \<Rightarrow> is_prefix ''Timeline'' (py_str (float_text env) (dict_get d ''type'' (JStr [])))
     | _ \<Rightarrow> False) items"

fun instruction_lists :: "pyenv \<Rightarrow> json \<Rightarrow> json list list" where
  "instruction_lists env (JObj d) =
     (case dict_get d ''instructions'' JNull of
        JList items \<Rightarrow> if timeline_group env items then [items] else []
      | _ \<Rightarrow> []) @ concat (map (\<lambda>kv. instruction_lists env (snd kv)) d)"
| "instruction_lists env (JList xs) = concat (map (instruction_lists env) xs)"
| "instruction_lists env _ = []"

fun objects :: "json list \<Rightarrow> pydict list" where
  "objects [] = []"
| "objects (JObj d # xs) = d # objects xs"
| "objects (_ # xs) = objects xs"

definition instructions_of :: "pyenv \<Rightarrow> json \<Rightarrow> pydict list" where
  "instructions_of env payload = concat (map objects (instruction_lists env payload))"

definition pinned_ids :: "pyenv \<Rightarrow> pydict list \<Rightarrow> pystr set" where
  "pinned_ids env is = {i \<in> set (map (\<lambda>d. if get_text env d ''type'' = ''TimelinePinEntry''
     then post_id env (dict_get d ''entry'' JNull) else []) is). i \<noteq> []}"

definition terminated_bottom :: "pyenv \<Rightarrow> pydict list \<Rightarrow> bool" where
  "terminated_bottom env is \<longleftrightarrow> list_ex (\<lambda>d. get_text env d ''type'' = ''TimelineTerminateTimeline'' \<and>
     py_str (float_text env) (dict_get d ''direction'' (JStr [])) = ''Bottom'') is"

definition entry_ids :: "pyenv \<Rightarrow> pydict \<Rightarrow> pystr list" where
  "entry_ids env d = (if get_text env d ''type'' \<noteq> ''TimelineAddEntries'' then []
     else case dict_get d ''entries'' (JList []) of JList es \<Rightarrow> map (post_id env) es | _ \<Rightarrow> [])"

definition ordered_ids :: "pyenv \<Rightarrow> pydict list \<Rightarrow> pystr list" where
  "ordered_ids env is =
     filter (\<lambda>i. i \<noteq> [] \<and> i \<notin> pinned_ids env is) (concat (map (entry_ids env) is))"

section \<open>The structural proof of a page\<close>

record tweet =
  tw_id_str :: pystr
  tw_id :: pystr
  tw_username :: pystr
  tw_date :: "(int \<times> int option) option"

definition tweet_id :: "tweet \<Rightarrow> pystr" where
  "tweet_id t = py_strip (or_default (tw_id_str t) (tw_id t))"

definition tweet_author :: "tweet \<Rightarrow> pystr" where
  "tweet_author t = py_casefold (py_strip (py_lstrip_at (tw_username t)))"

definition tweet_time :: "tweet \<Rightarrow> instant option" where
  "tweet_time t = map_option as_utc (tw_date t)"

definition parse_bound :: "pystr \<Rightarrow> instant option" where
  "parse_bound s = (case fromisoformat (replace_Z s) of
       Some (w, Some off) \<Rightarrow> Some (w - off) | _ \<Rightarrow> None)"

text \<open>The dict \<open>by_id\<close>: the last tweet of an id wins.\<close>

definition by_id :: "tweet list \<Rightarrow> pystr \<Rightarrow> tweet option" where
  "by_id tweets i = (if i = [] then None else List.find (\<lambda>t. tweet_id t = i) (rev tweets))"

text \<open>An own, dated tweet of the page; \<open>None\<close> invalidates the structure.\<close>

definition own_time :: "pystr \<Rightarrow> tweet list \<Rightarrow> pystr \<Rightarrow> instant option" where
  "own_time source tweets i = (case by_id tweets i of
       None \<Rightarrow> None
     | Some t \<Rightarrow> if tweet_author t = source then tweet_time t else None)"

fun ordered_pairs :: "pystr \<Rightarrow> tweet list \<Rightarrow> pystr list \<Rightarrow> (pystr \<times> instant) list" where
  "ordered_pairs source tweets [] = []"
| "ordered_pairs source tweets (i # is) = (case own_time source tweets i of
       None \<Rightarrow> ordered_pairs source tweets is
     | Some t \<Rightarrow> (i, t) # ordered_pairs source tweets is)"

fun descending :: "instant list \<Rightarrow> bool" where
  "descending (a # b # r) \<longleftrightarrow> b \<le> a \<and> descending (b # r)"
| "descending _ \<longleftrightarrow> True"

definition in_window :: "instant \<Rightarrow> instant \<Rightarrow> instant \<Rightarrow> bool" where
  "in_window a b t \<longleftrightarrow> a \<le> t \<and> t < b"

definition pinned_expected :: "pystr \<Rightarrow> instant \<Rightarrow> instant \<Rightarrow> tweet list \<Rightarrow> pystr set \<Rightarrow> pystr set" where
  "pinned_expected source a b tweets pinned =
     {i \<in> pinned. case own_time source tweets i of None \<Rightarrow> False | Some t \<Rightarrow> in_window a b t}"

definition max_time :: "instant list \<Rightarrow> instant" where "max_time ts = fold max ts (hd ts)"
definition min_time :: "instant list \<Rightarrow> instant" where "min_time ts = fold min ts (hd ts)"

definition newest_after :: "pystr \<Rightarrow> instant list \<Rightarrow> pystr" where
  "newest_after old ts = (if ts = [] then old else case parse_bound old of
       None \<Rightarrow> isoformat_us (max_time ts)
     | Some n \<Rightarrow> if n < max_time ts then isoformat_us (max_time ts) else old)"

definition oldest_after :: "pystr \<Rightarrow> instant list \<Rightarrow> pystr" where
  "oldest_after old ts = (if ts = [] then old else case parse_bound old of
       None \<Rightarrow> isoformat_us (min_time ts)
     | Some n \<Rightarrow> if min_time ts < n then isoformat_us (min_time ts) else old)"

definition new_pairs :: "evidence \<Rightarrow> (pystr \<times> instant) list \<Rightarrow> (pystr \<times> instant) list" where
  "new_pairs ev ps = filter (\<lambda>(i, t). i \<notin> top_level_ids_seen ev) ps"

text \<open>The page jumps forward in time: its first new post is newer than the last new one before it.\<close>

definition jumps_back :: "evidence \<Rightarrow> (pystr \<times> instant) list \<Rightarrow> bool" where
  "jumps_back ev ps = (descending (map snd ps) \<and> new_pairs ev ps \<noteq> [] \<and>
     (case parse_bound (previous_page_oldest_at ev) of
        None \<Rightarrow> False | Some prev \<Rightarrow> prev < snd (hd (new_pairs ev ps))))"

definition page_evidence :: "instant \<Rightarrow> instant \<Rightarrow> pystr set \<Rightarrow> (pystr \<times> instant) list \<Rightarrow> evidence \<Rightarrow> evidence" where
  "page_evidence a b pinned_in ps ev =
     (let ts = map snd ps; mono = descending ts; fresh = new_pairs ev ps;
          order = timeline_order_valid ev \<and> mono \<and> \<not> jumps_back ev ps
      in ev\<lparr>expected_window_ids := expected_window_ids ev \<union> fst ` set (filter (\<lambda>(i, t). in_window a b t) ps) \<union> pinned_in,
            timeline_order_valid := order,
            newest_top_level_at := newest_after (newest_top_level_at ev) ts,
            oldest_top_level_at := oldest_after (oldest_top_level_at ev) ts,
            previous_page_oldest_at := (if mono \<and> fresh \<noteq> [] then isoformat_us (snd (last fresh))
              else previous_page_oldest_at ev),
            top_level_ids_seen := top_level_ids_seen ev \<union> fst ` set ps,
            lower_boundary_proven := lower_boundary_proven ev \<or>
              (ts \<noteq> [] \<and> mono \<and> order \<and> list_ex (\<lambda>t. t < a) ts)\<rparr>)"

definition record_structural_proof ::
    "tweet list \<Rightarrow> pystr list \<Rightarrow> pystr set \<Rightarrow> evidence \<Rightarrow> bool \<times> evidence" where
  "record_structural_proof tweets ordered pinned ev =
     (let source = py_casefold (py_strip (py_lstrip_at (ev_source ev)))
      in case (parse_bound (ev_start ev), parse_bound (ev_end ev)) of
           (Some a, Some b) \<Rightarrow>
             if source = [] \<or> b \<le> a then (False, ev)
             else let ps = ordered_pairs source tweets ordered in
               (list_all (\<lambda>i. own_time source tweets i \<noteq> None) ordered \<and> descending (map snd ps)
                  \<and> \<not> jumps_back ev ps,
                page_evidence a b (pinned_expected source a b tweets pinned) ps ev)
         | _ \<Rightarrow> (False, ev))"

text \<open>The verdict of \<open>_provider_page\<close> on a payload: valid, exhausted, and the evidence it leaves.\<close>

definition payload_clean :: "json \<Rightarrow> bool" where
  "payload_clean payload \<longleftrightarrow> (case payload of JObj d \<Rightarrow> \<not> truthy (dict_get d ''errors'' JNull) | _ \<Rightarrow> False)"

definition provider_page ::
    "pyenv \<Rightarrow> json option \<Rightarrow> tweet list \<Rightarrow> pystr option \<Rightarrow> evidence \<Rightarrow> bool \<times> bool \<times> evidence" where
  "provider_page env response tweets next_cursor ev = (case response of None \<Rightarrow> (False, True, ev) | Some payload \<Rightarrow>
     (let is = instructions_of env payload;
          adds = list_ex (\<lambda>d. get_text env d ''type'' = ''TimelineAddEntries'') is;
          bottom = terminated_bottom env is;
          ok = payload_clean payload \<and> (adds \<or> bottom);
          (valid, ev') = (if ok then record_structural_proof tweets (ordered_ids env is) (pinned_ids env is) ev
                          else (False, ev))
      in (valid, valid \<and> (bottom \<or> next_cursor = None \<or> next_cursor = Some []), ev')))"

section \<open>Order across pages\<close>

lemma descending_sorted: "descending ts \<longleftrightarrow> sorted_wrt (\<ge>) ts"
  by (induction ts rule: descending.induct) (auto intro: order_trans)

lemma descending_append:
  "descending (xs @ ys) \<longleftrightarrow> descending xs \<and> descending ys \<and> (xs \<noteq> [] \<and> ys \<noteq> [] \<longrightarrow> hd ys \<le> last xs)"
proof (induction xs)
  case Nil
  show ?case by simp
next
  case (Cons x xs)
  then show ?case by (cases xs; cases ys) auto
qed

lemma descending_filter: "descending (map snd ps) \<Longrightarrow> descending (map snd (filter P ps))"
  by (simp add: descending_sorted sorted_wrt_map sorted_wrt_filter)

lemma replace_Z_stamp_us: "replace_Z (isoformat_us t) = isoformat_us t"
proof -
  have "\<forall>c \<in> set s. c \<noteq> CHR ''Z'' \<Longrightarrow> replace_Z s = s" for s
    by (induction s) (auto simp: replace_Z_def)
  then show ?thesis using isoformat_chars(2) stamp_char_plain by blast
qed

lemma parse_bound_stamp [simp]: "valid_instant t \<Longrightarrow> parse_bound (isoformat_us t) = Some t"
  by (simp add: parse_bound_def fromisoformat_isoformat replace_Z_stamp_us)

lemma parse_bound_nil [simp]: "parse_bound [] = None"
  by code_simp

text \<open>The posts of a traversal in the order they were first seen.\<close>

fun first_seen :: "pystr set \<Rightarrow> (pystr \<times> instant) list list \<Rightarrow> (pystr \<times> instant) list" where
  "first_seen seen [] = []"
| "first_seen seen (ps # pss) = filter (\<lambda>(i, t). i \<notin> seen) ps @ first_seen (seen \<union> fst ` set ps) pss"

lemma first_seen_snoc:
  "first_seen seen (pss @ [ps]) =
    first_seen seen pss @ filter (\<lambda>(i, t). i \<notin> seen \<union> fst ` set (concat pss)) ps"
  by (induction seen pss rule: first_seen.induct) (simp_all add: Un_assoc image_Un)

lemma first_seen_sub: "set (first_seen seen pss) \<subseteq> set (concat pss)"
  by (induction seen pss rule: first_seen.induct) auto

text \<open>What the evidence knows after the pages \<open>pss\<close>.\<close>

definition follows :: "instant \<Rightarrow> instant \<Rightarrow> (pystr \<times> instant) list list \<Rightarrow> evidence \<Rightarrow> bool" where
  "follows a b pss ev \<longleftrightarrow>
     top_level_ids_seen ev = fst ` set (concat pss) \<and>
     (\<forall>(i, t) \<in> set (concat pss). in_window a b t \<longrightarrow> i \<in> expected_window_ids ev) \<and>
     (lower_boundary_proven ev \<longrightarrow> (\<exists>(i, t) \<in> set (concat pss). t < a)) \<and>
     (timeline_order_valid ev \<longrightarrow> descending (map snd (first_seen {} pss)) \<and>
        previous_page_oldest_at ev =
          (if first_seen {} pss = [] then [] else isoformat_us (snd (last (first_seen {} pss)))))"

lemma page_follows:
  assumes f: "follows a b pss ev" and valid: "\<forall>(i, t) \<in> set (concat (pss @ [ps])). valid_instant t"
  shows "follows a b (pss @ [ps]) (page_evidence a b pin ps ev)"
proof -
  let ?ev = "page_evidence a b pin ps ev"
  let ?tr = "first_seen {} pss"
  have seen: "top_level_ids_seen ev = fst ` set (concat pss)" using f by (simp add: follows_def)
  have tr: "first_seen {} (pss @ [ps]) = ?tr @ new_pairs ev ps"
    by (simp add: first_seen_snoc new_pairs_def seen)
  note sub = first_seen_sub [of "{}" pss]
  have order: "descending (map snd (?tr @ new_pairs ev ps)) \<and> previous_page_oldest_at ?ev =
      (if ?tr @ new_pairs ev ps = [] then [] else isoformat_us (snd (last (?tr @ new_pairs ev ps))))"
    if o': "timeline_order_valid ?ev"
  proof -
    from o' have o: "timeline_order_valid ev" "descending (map snd ps)" "\<not> jumps_back ev ps"
      by (simp_all add: page_evidence_def Let_def)
    have d: "descending (map snd ?tr)"
      and prev: "previous_page_oldest_at ev = (if ?tr = [] then [] else isoformat_us (snd (last ?tr)))"
      using f o(1) by (simp_all add: follows_def)
    have n: "descending (map snd (new_pairs ev ps))" using descending_filter [OF o(2)] by (simp add: new_pairs_def)
    have "snd (hd (new_pairs ev ps)) \<le> snd (last ?tr)" if "?tr \<noteq> []" "new_pairs ev ps \<noteq> []"
    proof -
      have "last ?tr \<in> set (concat pss)" using subsetD [OF sub last_in_set [OF that(1)]] .
      then have "last ?tr \<in> set (concat (pss @ [ps]))" by (simp only: concat_append set_append) blast
      with valid have "case last ?tr of (i, t) \<Rightarrow> valid_instant t" by (rule bspec)
      then have "valid_instant (snd (last ?tr))" by (simp add: case_prod_unfold)
      then have "parse_bound (previous_page_oldest_at ev) = Some (snd (last ?tr))" using prev that(1) by simp
      with o(2,3) that(2) show ?thesis by (simp add: jumps_back_def)
    qed
    with d n prev o(2) show ?thesis
      by (auto simp: descending_append page_evidence_def Let_def hd_map last_map)
  qed
  have ex: "expected_window_ids ?ev = expected_window_ids ev \<union> fst ` set (filter (\<lambda>(i, t). in_window a b t) ps) \<union> pin"
    by (simp add: page_evidence_def Let_def)
  have "\<forall>(i, t) \<in> set (concat pss). in_window a b t \<longrightarrow> i \<in> expected_window_ids ev"
    using f by (simp add: follows_def)
  then have "\<forall>(i, t) \<in> set (concat (pss @ [ps])). in_window a b t \<longrightarrow> i \<in> expected_window_ids ?ev"
    unfolding ex by force
  moreover have lb: "lower_boundary_proven ?ev \<longrightarrow> lower_boundary_proven ev \<or> list_ex (\<lambda>t. t < a) (map snd ps)"
    by (auto simp: page_evidence_def Let_def)
  have "lower_boundary_proven ev \<longrightarrow> (\<exists>(i, t) \<in> set (concat pss). t < a)" using f by (simp add: follows_def)
  with lb have "lower_boundary_proven ?ev \<longrightarrow> (\<exists>(i, t) \<in> set (concat (pss @ [ps])). t < a)"
    by (auto simp: list_ex_iff)
  moreover have "top_level_ids_seen ?ev = fst ` set (concat (pss @ [ps]))"
    by (auto simp: page_evidence_def Let_def seen)
  ultimately show ?thesis using order unfolding follows_def tr by simp
qed

type_synonym page = "tweet list \<times> pystr list \<times> pystr set"

definition traverse :: "page list \<Rightarrow> evidence \<Rightarrow> evidence" where
  "traverse pages ev = fold (\<lambda>(tweets, ordered, pinned) ev. snd (record_structural_proof tweets ordered pinned ev)) pages ev"

definition source_of :: "evidence \<Rightarrow> pystr" where
  "source_of ev = py_casefold (py_strip (py_lstrip_at (ev_source ev)))"

definition pairs_of :: "pystr \<Rightarrow> page list \<Rightarrow> (pystr \<times> instant) list list" where
  "pairs_of source pages = map (\<lambda>(tweets, ordered, pinned). ordered_pairs source tweets ordered) pages"

lemma page_evidence_frame [simp]:
  "ev_source (page_evidence a b pin ps ev) = ev_source ev"
  "ev_start (page_evidence a b pin ps ev) = ev_start ev"
  "ev_end (page_evidence a b pin ps ev) = ev_end ev"
  by (simp_all add: page_evidence_def Let_def)

lemma structural_proof_eq:
  assumes "parse_bound (ev_start ev) = Some a" "parse_bound (ev_end ev) = Some b" "a < b" "source_of ev \<noteq> []"
  shows "snd (record_structural_proof tweets ordered pinned ev) =
    page_evidence a b (pinned_expected (source_of ev) a b tweets pinned) (ordered_pairs (source_of ev) tweets ordered) ev"
  using assms by (simp add: record_structural_proof_def source_of_def Let_def)

lemma traverse_follows:
  assumes "parse_bound (ev_start ev0) = Some a" "parse_bound (ev_end ev0) = Some b" "a < b" "source_of ev0 \<noteq> []"
    "follows a b [] ev0"
    "\<forall>(i, t) \<in> set (concat (pairs_of (source_of ev0) pages)). valid_instant t"
  shows "follows a b (pairs_of (source_of ev0) pages) (traverse pages ev0) \<and>
    ev_start (traverse pages ev0) = ev_start ev0 \<and> ev_end (traverse pages ev0) = ev_end ev0 \<and>
    ev_source (traverse pages ev0) = ev_source ev0"
  using assms(6)
proof (induction pages rule: rev_induct)
  case (snoc p pages)
  obtain tweets ordered pinned where p: "p = (tweets, ordered, pinned)" by (metis prod_cases3)
  let ?ev = "traverse pages ev0"
  have IH: "follows a b (pairs_of (source_of ev0) pages) ?ev" "ev_start ?ev = ev_start ev0" "ev_end ?ev = ev_end ev0"
    "ev_source ?ev = ev_source ev0" using snoc by (auto simp: pairs_of_def)
  then have src: "source_of ?ev = source_of ev0" by (simp add: source_of_def)
  have "traverse (pages @ [p]) ev0 = page_evidence a b (pinned_expected (source_of ev0) a b tweets pinned)
      (ordered_pairs (source_of ev0) tweets ordered) ?ev"
    using structural_proof_eq [of ?ev a b tweets ordered pinned] assms(1-4) IH(2,3) src
    by (simp add: traverse_def p)
  moreover have "pairs_of (source_of ev0) (pages @ [p]) =
      pairs_of (source_of ev0) pages @ [ordered_pairs (source_of ev0) tweets ordered]"
    by (simp add: pairs_of_def p)
  ultimately show ?case using page_follows [OF IH(1)] snoc.prems IH by simp
qed (simp add: traverse_def pairs_of_def assms(5))

lemma fresh_follows: "follows a b [] (fresh_evidence s ws we)"
  by (simp add: follows_def fresh_evidence_def)

text \<open>
  C14: What a traversal proves: if the order flag survives every page, the posts were first seen newest
  first across all pages together, every post of the window among them is expected, and a proved
  lower boundary means that a post older than the window start was reached.
\<close>

theorem structural_proof_sound:
  assumes "parse_bound ws = Some a" "parse_bound we = Some b" "a < b"
    "source = py_casefold (py_strip (py_lstrip_at handle))" "source \<noteq> []"
    "\<forall>(i, t) \<in> set (concat (pairs_of source pages)). valid_instant t"
    "ev = traverse pages (fresh_evidence handle ws we)"
  shows "(timeline_order_valid ev \<longrightarrow> descending (map snd (first_seen {} (pairs_of source pages)))) \<and>
    (\<forall>(i, t) \<in> set (concat (pairs_of source pages)). in_window a b t \<longrightarrow> i \<in> expected_window_ids ev) \<and>
    (lower_boundary_proven ev \<longrightarrow> (\<exists>(i, t) \<in> set (concat (pairs_of source pages)). t < a))"
proof -
  have "source_of (fresh_evidence handle ws we) = source" using assms(4) by (simp add: source_of_def fresh_evidence_def)
  then have "follows a b (pairs_of source pages) ev"
    using traverse_follows [of "fresh_evidence handle ws we" a b pages] assms fresh_follows
    by (simp add: fresh_evidence_def)
  then show ?thesis by (simp add: follows_def)
qed

definition demo_tweet :: "pystr \<Rightarrow> instant \<Rightarrow> tweet" where
  "demo_tweet i t = \<lparr>tw_id_str = i, tw_id = [], tw_username = ''Src'', tw_date = Some (t, Some 0)\<rparr>"

theorem structural_proof_sound_witness:
  "''9'' \<in> expected_window_ids (traverse [([demo_tweet ''9'' 5, demo_tweet ''8'' 2], [''9'', ''8''], {})]
     (fresh_evidence ''@src'' (isoformat_us 3) (isoformat_us 9)))"
proof -
  have src: "''src'' = py_casefold (py_strip (py_lstrip_at ''@src''))" by code_simp
  have pairs: "pairs_of ''src'' [([demo_tweet ''9'' 5, demo_tweet ''8'' 2], [''9'', ''8''], {})] = [[(''9'', 5), (''8'', 2)]]"
    by code_simp
  have v: "valid_instant 2" "valid_instant 3" "valid_instant 5" "valid_instant 9" by (simp_all add: valid_instant_def us_per_day_def)
  show ?thesis
    using structural_proof_sound [OF parse_bound_stamp [OF v(2)] parse_bound_stamp [OF v(4)] _ src _ _ refl, of
        "[([demo_tweet ''9'' 5, demo_tweet ''8'' 2], [''9'', ''8''], {})]"] v
    unfolding pairs by (simp add: in_window_def)
qed

text \<open>
  Pinned posts are never boundary witnesses, and a page that the structure proof refuses, or that
  carries errors, is neither valid nor the end of the traversal.
\<close>

theorem pinned_never_ordered:
  "set (ordered_ids env is) \<inter> pinned_ids env is = {} \<and> [] \<notin> set (ordered_ids env is) \<and>
   (provider_page env (Some payload) tweets next ev = (valid, done, ev') \<longrightarrow>
      (done \<longrightarrow> valid) \<and> (valid \<longrightarrow> payload_clean payload) \<and> (\<not> payload_clean payload \<longrightarrow> ev' = ev))"
  by (auto simp: ordered_ids_def provider_page_def Let_def split: prod.splits if_splits)

definition demo_page_env :: pyenv where
  "demo_page_env = \<lparr>float_text = (\<lambda>_. []), rfc_date = (\<lambda>_. None)\<rparr>"

theorem pinned_never_ordered_witness:
  "let p = JObj [(''errors'', JList [JNull])] in
   provider_page demo_page_env (Some p) [] None (fresh_evidence [] [] []) = (False, False, fresh_evidence [] [] [])"
proof -
  obtain v d e where p: "provider_page demo_page_env (Some (JObj [(''errors'', JList [JNull])])) [] None
      (fresh_evidence [] [] []) = (v, d, e)" by (metis prod_cases3)
  have c: "\<not> payload_clean (JObj [(''errors'', JList [JNull])])" by (simp add: payload_clean_def dict_get_def)
  show ?thesis using pinned_never_ordered [of demo_page_env "[]" "JObj [(''errors'', JList [JNull])]" "[]" None
      "fresh_evidence [] [] []" v d e] p c by (cases v; cases d) auto
qed

end
