(* ===== verification/Completeness.thy ===== *)
theory Completeness
  imports Evidence EditorialCore SourceLedger
begin

text \<open>
  \<open>app/completeness_engine.py\<close>: the shadow completeness engine on the connection of the source
  ledger. The tables are lists of rows. The column \<open>evidence\<close> holds a JSON object and is
  modelled as that object (the text is written by \<open>json.dumps\<close> and read by \<open>json.loads\<close>). The
  editorial core is reached through \<open>ev\<close> and \<open>adv\<close>, the two requests of \<open>core_request\<close>, where
  \<open>None\<close> is any of the exceptions the engine catches. Random identifiers and the clock are
  arguments.
\<close>

record attempt_row =
  sequence :: nat
  att_id :: pystr
  run_id :: pystr
  att_source :: pystr
  source_order :: nat
  att_start :: pystr
  att_end :: pystr
  att_status :: pystr
  attempted :: bool
  retry_number :: nat
  att_evidence :: pydict
  att_error :: pystr
  retained :: int
  legacy_status :: pystr
  finalized :: bool
  started_at :: pystr
  finished_at :: pystr
  attempt_number :: nat
  cursor_before :: pystr
  cursor_candidate :: pystr
  cursor_after :: pystr
  cursor_advanced :: bool

record shadow_cursor =
  sc_source :: pystr
  sc_through :: pystr
  sc_attempt :: pystr
  sc_sequence :: nat

record engine =
  attempts :: "attempt_row list"
  shadow :: "shadow_cursor list"
  links :: "(pystr \<times> pystr) list"
  source_ledger :: ledger

section \<open>Timestamps and proof inputs\<close>

text \<open>\<open>utc\<close>: a datetime (wall clock, offset) or a text; naive or unreadable values are refused.\<close>

definition utc :: "(int \<times> int option) + pystr \<Rightarrow> py_exc + pystr" where
  "utc v = (case (case v of Inl d \<Rightarrow> Some d | Inr s \<Rightarrow> fromisoformat (replace_Z s)) of
       Some (w, Some off) \<Rightarrow> if valid_instant (w - off) then Inr (isoformat_us (w - off)) else Inl OverflowError
     | _ \<Rightarrow> Inl ValueError)"

record proof_detail =
  provider_exhausted :: bool
  lower_boundary_observed :: bool
  pd_lower_proven :: bool
  pd_order_valid :: bool
  pd_expected :: "pystr set"
  pd_observed_expected :: "pystr set"
  missing_expected :: "pystr set"
  coverage_complete :: bool
  terminal_proven :: bool
  pd_newest :: pystr
  pd_oldest :: pystr

definition proof_inputs :: "evidence \<Rightarrow> pystr \<Rightarrow> proof_request \<times> proof_detail" where
  "proof_inputs e err =
     (let expected = expected_window_ids e - {[]};
          observed = observation_ids e - {[]};
          missing = expected - observed;
          coverage = missing = {};
          ordered_boundary = lower_boundary_proven e \<and> timeline_order_valid e \<and> coverage;
          terminal = timeline_order_valid e \<and> coverage \<and> (ev_exhausted e \<or> ordered_boundary);
          unresolved = ev_lower_boundary e \<and> \<not> ordered_boundary
      in (\<lparr>pages = max 0 (ev_pages e), raw_count = max 0 (ev_raw_count e),
           valid_response = ev_valid_response e, exhausted = terminal, resumed = ev_resumed e,
           lower_boundary = unresolved, failed = (err \<noteq> [])\<rparr>,
          \<lparr>provider_exhausted = ev_exhausted e, lower_boundary_observed = ev_lower_boundary e,
           pd_lower_proven = lower_boundary_proven e, pd_order_valid = timeline_order_valid e,
           pd_expected = expected, pd_observed_expected = expected \<inter> observed,
           missing_expected = missing, coverage_complete = coverage, terminal_proven = terminal,
           pd_newest = newest_top_level_at e, pd_oldest = oldest_top_level_at e\<rparr>))"

definition unavailable :: pystr where "unavailable = ''EditorialCoreUnavailable''"

definition verdict_metadata :: "pystr \<Rightarrow> evidence \<Rightarrow> proof_detail \<Rightarrow> pystr \<Rightarrow> pystr \<times> pystr" where
  "verdict_metadata st e d err =
     (if st = ''complete'' \<and> provider_exhausted d then (''validated_provider_exhaustion'', ''provider_pagination_exhausted'')
      else if st = ''complete'' \<and> pd_lower_proven d then (''validated_ordered_lower_boundary'', ''window_lower_boundary_crossed'')
      else if err = unavailable then (''unproven_core_unavailable'', ''deterministic_core_unavailable'')
      else if st = ''partial'' then
        (if err \<noteq> [] then (''partial_provider_failure'', take 160 (''provider_failure:'' @ err))
         else if ev_resumed e then (''partial_resumed_checkpoint'', ''resume_continuity_not_proven'')
         else if missing_expected d \<noteq> {} then (''partial_observation_coverage_gap'', ''expected_observation_missing'')
         else if \<not> pd_order_valid d then (''partial_timeline_order_invalid'', ''timeline_order_not_proven'')
         else if \<not> ev_valid_response e then (''partial_invalid_provider_response'', ''provider_response_not_proof_eligible'')
         else (''partial_unproven_termination'', ''terminal_condition_not_proven''))
      else if err \<noteq> [] then (''unproven_provider_failure'', take 160 (''provider_failure:'' @ err))
      else if ev_resumed e then (''unproven_resumed_checkpoint'', ''resume_continuity_not_proven'')
      else if ev_pages e \<le> 0 then (''unproven_no_validated_page'', ''no_validated_provider_page'')
      else if \<not> ev_valid_response e then (''unproven_invalid_provider_response'', ''provider_response_not_proof_eligible'')
      else if \<not> pd_order_valid d then (''unproven_timeline_order_invalid'', ''timeline_order_not_proven'')
      else if missing_expected d \<noteq> {} then (''unproven_observation_coverage_gap'', ''expected_observation_missing'')
      else (''unproven_ambiguous_termination'', ''terminal_condition_not_proven''))"

definition json_ids :: "pystr set \<Rightarrow> json" where
  "json_ids s = JList (map JStr (sorted_list_of_set s))"

definition proof_payload :: "evidence \<Rightarrow> proof_request \<Rightarrow> proof_detail \<Rightarrow> pydict" where
  "proof_payload e p d =
     [(''evidence_version'', JInt 1), (''core_contract_version'', JInt 1),
      (''pages'', JInt (pages p)), (''raw_count'', JInt (raw_count p)),
      (''valid_response'', JBool (valid_response p)), (''exhausted'', JBool (exhausted p)),
      (''resumed'', JBool (resumed p)), (''lower_boundary'', JBool (lower_boundary p)), (''failed'', JBool (failed p)),
      (''provider_exhausted'', JBool (provider_exhausted d)),
      (''lower_boundary_observed'', JBool (lower_boundary_observed d)),
      (''lower_boundary_proven'', JBool (pd_lower_proven d)),
      (''timeline_order_valid'', JBool (pd_order_valid d)),
      (''expected_window_ids'', json_ids (pd_expected d)),
      (''expected_window_count'', JInt (int (card (pd_expected d)))),
      (''observed_expected_count'', JInt (int (card (pd_observed_expected d)))),
      (''missing_expected_ids'', json_ids (missing_expected d)),
      (''expected_coverage_complete'', JBool (coverage_complete d)),
      (''terminal_proven'', JBool (terminal_proven d)),
      (''newest_top_level_at'', JStr (pd_newest d)), (''oldest_top_level_at'', JStr (pd_oldest d)),
      (''pages_completed'', JInt (max 0 (ev_pages e))),
      (''provider_cursor'', JStr (take 4096 (ev_provider_cursor e))),
      (''raw_observation_count'', JInt (int (card (observation_ids e)))),
      (''observation_ids'', json_ids (observation_ids e))]"

section \<open>Attempts\<close>

definition by_attempt :: "pystr \<Rightarrow> engine \<Rightarrow> attempt_row option" where
  "by_attempt i g = row_by att_id i (attempts g)"

definition shadow_of :: "pystr \<Rightarrow> engine \<Rightarrow> shadow_cursor option" where
  "shadow_of s g = row_by sc_source s (shadow g)"

definition through :: "engine \<Rightarrow> pystr \<Rightarrow> pystr" where
  "through g s = (case shadow_of s g of None \<Rightarrow> [] | Some c \<Rightarrow> sc_through c)"

definition update_attempt :: "pystr \<Rightarrow> (attempt_row \<Rightarrow> attempt_row) \<Rightarrow> engine \<Rightarrow> engine" where
  "update_attempt i f g = g\<lparr>attempts := update_where (\<lambda>r. att_id r = i) f (attempts g)\<rparr>"

definition checkpoint_payload :: "evidence \<Rightarrow> pydict" where
  "checkpoint_payload e =
     [(''evidence_version'', JInt 1), (''core_contract_version'', JInt 1),
      (''pages'', JInt (max 0 (ev_pages e))), (''pages_completed'', JInt (max 0 (ev_pages e))),
      (''raw_count'', JInt (max 0 (ev_raw_count e))),
      (''provider_cursor'', JStr (take 4096 (ev_provider_cursor e))),
      (''valid_response'', JBool (ev_valid_response e)),
      (''expected_window_ids'', JList (map JStr (take 5000 (sorted_list_of_set (expected_window_ids e))))),
      (''lower_boundary_proven'', JBool (lower_boundary_proven e)),
      (''timeline_order_valid'', JBool (timeline_order_valid e)),
      (''newest_top_level_at'', JStr (newest_top_level_at e)),
      (''oldest_top_level_at'', JStr (oldest_top_level_at e))]"

definition checkpoint :: "pystr \<Rightarrow> evidence \<Rightarrow> engine \<Rightarrow> engine" where
  "checkpoint i e g = g\<lparr>attempts := update_where (\<lambda>r. att_id r = i \<and> \<not> finalized r)
     (\<lambda>r. r\<lparr>att_evidence := checkpoint_payload e\<rparr>) (attempts g)\<rparr>"

definition link_observation :: "pystr \<Rightarrow> pystr \<Rightarrow> engine \<Rightarrow> engine" where
  "link_observation i p g =
     (if list_ex (\<lambda>r. att_id r = i \<and> \<not> finalized r) (attempts g)
      then g\<lparr>links := insert_ignore id (i, p) (links g)\<rparr> else g)"

text \<open>\<open>plan\<close>: one row per enabled source; the row of a name that was planned already is ignored.\<close>

definition planned_handle :: "pyenv \<Rightarrow> nat \<Rightarrow> pydict \<Rightarrow> pystr" where
  "planned_handle env index raw =
     or_default (py_casefold (py_lstrip_at (py_strip (py_str (float_text env) (dict_get raw ''handle'' (JStr []))))))
       (''invalid-source-'' @ int_text (int index))"

definition next_sequence :: "attempt_row list \<Rightarrow> nat" where
  "next_sequence t = Suc (fold max (map sequence t) 0)"

definition new_attempt :: "nat \<Rightarrow> pystr \<Rightarrow> pystr \<Rightarrow> pystr \<Rightarrow> nat \<Rightarrow> pystr \<Rightarrow> pystr \<Rightarrow> attempt_row" where
  "new_attempt n i run source order ws we =
     \<lparr>sequence = n, att_id = i, run_id = run, att_source = source, source_order = order, att_start = ws,
      att_end = we, att_status = ''unproven'', attempted = False, retry_number = 0, att_evidence = [],
      att_error = ''NotAttempted'', retained = 0, legacy_status = [], finalized = False, started_at = [],
      finished_at = [], attempt_number = 0, cursor_before = [], cursor_candidate = [], cursor_after = [],
      cursor_advanced = False\<rparr>"

definition put_attempt :: "attempt_row \<Rightarrow> attempt_row list \<Rightarrow> attempt_row list" where
  "put_attempt r t =
     (if list_ex (\<lambda>x. att_id x = att_id r \<or> (run_id x = run_id r \<and> att_source x = att_source r)) t
      then t else t @ [r])"

fun plan_loop :: "pyenv \<Rightarrow> (nat \<Rightarrow> pystr) \<Rightarrow> pystr \<Rightarrow> pystr \<Rightarrow> pystr \<Rightarrow> nat \<Rightarrow> pydict list \<Rightarrow>
    attempt_row list \<Rightarrow> attempt_row list" where
  "plan_loop env ids run ws we index [] t = t"
| "plan_loop env ids run ws we index (raw # rest) t =
     plan_loop env ids run ws we (Suc index) rest
       (if truthy (dict_get raw ''enabled'' (JBool True))
        then put_attempt (new_attempt (next_sequence t) (ids index) run (planned_handle env index raw) index ws we) t
        else t)"

definition plan :: "pyenv \<Rightarrow> (nat \<Rightarrow> pystr) \<Rightarrow> pystr \<Rightarrow> pydict list \<Rightarrow> (int \<times> int option) + pystr \<Rightarrow>
    (int \<times> int option) + pystr \<Rightarrow> engine \<Rightarrow> py_exc + engine" where
  "plan env ids run sources start_at end_at g =
     (case utc start_at of Inl e \<Rightarrow> Inl e | Inr ws \<Rightarrow> (case utc end_at of Inl e \<Rightarrow> Inl e | Inr we \<Rightarrow>
        if we \<le> ws then Inl ValueError
        else Inr (g\<lparr>attempts := plan_loop env ids run ws we 0 sources (attempts g)\<rparr>)))"

definition start_source :: "pystr \<Rightarrow> pystr" where
  "start_source s = py_casefold (py_lstrip_at (py_strip s))"

definition prior_attempts :: "attempt_row \<Rightarrow> engine \<Rightarrow> nat" where
  "prior_attempts r g = rowcount (\<lambda>x. att_source x = att_source r \<and> att_start x = att_start r \<and>
     att_end x = att_end r \<and> attempted x) (attempts g)"

definition start :: "pystr \<Rightarrow> pystr \<Rightarrow> pystr \<Rightarrow> engine \<Rightarrow> py_exc + (pystr \<times> engine)" where
  "start now run source g =
     (let s = start_source source in
      case List.find (\<lambda>r. run_id r = run \<and> att_source r = s) (attempts g) of
        None \<Rightarrow> Inl ValueError
      | Some r \<Rightarrow>
          if finalized r \<or> attempted r then Inl ValueError
          else let n = prior_attempts r g in Inr (att_id r, update_attempt (att_id r) (\<lambda>x. x\<lparr>
            attempted := True, att_status := ''attempting'', att_error := [], retry_number := n,
            attempt_number := n + 1, started_at := now, cursor_before := through g s,
            cursor_candidate := att_end r, cursor_after := [], cursor_advanced := False\<rparr>) g))"

section \<open>Finishing an attempt\<close>

definition core_verdict :: "(proof_request \<Rightarrow> pystr option) \<Rightarrow> proof_request \<Rightarrow> pystr \<Rightarrow> pystr \<times> pystr" where
  "core_verdict ev p err = (case ev p of
       Some st \<Rightarrow> if st \<in> {''complete'', ''partial'', ''unproven''} then (st, err) else (''unproven'', unavailable)
     | None \<Rightarrow> (''unproven'', unavailable))"

text \<open>
  The cursor decision of a complete attempt. The fields of the result: the status and error class
  to record, whether the cursor row was written, whether a gap was found, and the cursor table.
\<close>

record cursor_decision =
  cd_status :: pystr
  cd_error :: pystr
  cd_moved :: bool
  cd_gap :: bool
  cd_shadow :: "shadow_cursor list"

definition window_claim :: "attempt_row \<Rightarrow> engine \<Rightarrow> source_window" where
  "window_claim r g = \<lparr>sw_source = att_source r, sw_start = att_start r, sw_end = att_end r,
     sw_completeness = Complete, sw_through = map_option sc_through (shadow_of (att_source r) g)\<rparr>"

definition eligible_cursor :: "attempt_row \<Rightarrow> engine \<Rightarrow> bool" where
  "eligible_cursor r g \<longleftrightarrow> (case shadow_of (att_source r) g of
       None \<Rightarrow> True | Some c \<Rightarrow> sc_through c < att_end r \<and> sc_sequence c < sequence r)"

definition contiguous :: "attempt_row \<Rightarrow> engine \<Rightarrow> bool" where
  "contiguous r g \<longleftrightarrow> (case shadow_of (att_source r) g of None \<Rightarrow> True | Some c \<Rightarrow> att_start r \<le> sc_through c)"

definition write_cursor :: "attempt_row \<Rightarrow> shadow_cursor list \<Rightarrow> shadow_cursor list" where
  "write_cursor r = (let c = \<lparr>sc_source = att_source r, sc_through = att_end r, sc_attempt = att_id r,
       sc_sequence = sequence r\<rparr>
     in upsert sc_source c (\<lambda>x. x\<lparr>sc_through := sc_through c, sc_attempt := sc_attempt c,
          sc_sequence := sc_sequence c\<rparr>))"

definition decide_cursor ::
    "(source_window \<Rightarrow> pystr \<Rightarrow> pystr option) \<Rightarrow> attempt_row \<Rightarrow> pystr \<Rightarrow> pystr \<Rightarrow> engine \<Rightarrow> cursor_decision" where
  "decide_cursor adv r st err g =
     (let stay = \<lparr>cd_status = st, cd_error = err, cd_moved = False, cd_gap = False, cd_shadow = shadow g\<rparr> in
      if st \<noteq> ''complete'' then stay
      else if eligible_cursor r g \<and> contiguous r g then
        (if adv (window_claim r g) (att_end r) = Some (att_end r)
         then stay\<lparr>cd_moved := True, cd_shadow := write_cursor r (shadow g)\<rparr>
         else stay\<lparr>cd_status := ''unproven'', cd_error := unavailable\<rparr>)
      else stay\<lparr>cd_gap := \<not> contiguous r g\<rparr>)"

text \<open>
  The sub-select of the UPDATE reads \<open>source_cursors WHERE source=?\<close>. That table has no column
  \<open>source\<close> (its key is \<open>source_handle\<close>), so the name is the outer row's column, the condition is
  true for every row, and the value is that of the first row of the table.
\<close>

definition legacy_of :: "engine \<Rightarrow> pystr" where
  "legacy_of g = (case cursors (source_ledger g) of [] \<Rightarrow> [] | c # cs \<Rightarrow> last_status c)"

definition final_payload :: "evidence \<Rightarrow> proof_request \<Rightarrow> proof_detail \<Rightarrow> pystr \<times> pystr \<Rightarrow> cursor_decision \<Rightarrow>
    attempt_row \<Rightarrow> pystr \<Rightarrow> bool \<Rightarrow> pydict" where
  "final_payload e p d meta c r after advanced =
     (let (kind, reason) = (if cd_status c = ''complete'' then meta
        else verdict_metadata (cd_status c) e d (cd_error c))
      in proof_payload e p d @ [(''proof_kind'', JStr kind), (''termination_reason'', JStr reason)] @
         (if cd_gap c then [(''cursor_gap'', JBool True)] else []) @
         [(''error_summary'', JStr (take 160 (cd_error c))), (''cursor_before'', JStr (cursor_before r)),
          (''cursor_candidate'', JStr (att_end r)), (''cursor_after'', JStr after),
          (''cursor_advanced'', JBool advanced)])"

definition finish_attempt :: "(proof_request \<Rightarrow> pystr option) \<Rightarrow> (source_window \<Rightarrow> pystr \<Rightarrow> pystr option) \<Rightarrow>
    pystr \<Rightarrow> pystr \<Rightarrow> evidence \<Rightarrow> int \<Rightarrow> pystr \<Rightarrow> engine \<Rightarrow> py_exc + engine" where
  "finish_attempt ev adv now i e kept err g =
     (let (p, d) = proof_inputs e err;
          (st, err1) = core_verdict ev p err;
          meta = verdict_metadata st e d err1
      in case by_attempt i g of
           None \<Rightarrow> Inl ValueError
         | Some r \<Rightarrow>
             if \<not> attempted r then Inl ValueError
             else if finalized r then Inr g
             else let c = decide_cursor adv r st err1 g;
                      after = (case row_by sc_source (att_source r) (cd_shadow c) of
                        None \<Rightarrow> cursor_before r | Some x \<Rightarrow> sc_through x);
                      advanced = (cd_moved c \<and> after \<noteq> cursor_before r)
                  in Inr ((update_attempt i (\<lambda>x. x\<lparr>
                       att_status := cd_status c, att_evidence := final_payload e p d meta c r after advanced,
                       att_error := take 160 (cd_error c), retained := max 0 kept, finalized := True,
                       finished_at := now, cursor_candidate := att_end r, cursor_after := after,
                       cursor_advanced := advanced, legacy_status := legacy_of g\<rparr>) g)\<lparr>shadow := cd_shadow c\<rparr>))"

section \<open>Closing and reporting a run\<close>

definition put_all :: "pydict \<Rightarrow> pydict \<Rightarrow> pydict" where
  "put_all kvs d = fold (\<lambda>(k, v). AList.update k v) kvs d"

definition set_default :: "pystr \<Rightarrow> json \<Rightarrow> pydict \<Rightarrow> pydict" where
  "set_default k v d = (case map_of d k of None \<Rightarrow> d @ [(k, v)] | Some _ \<Rightarrow> d)"

definition close_row :: "pystr \<Rightarrow> pystr \<Rightarrow> engine \<Rightarrow> attempt_row \<Rightarrow> attempt_row" where
  "close_row now reason g r =
     (let err = (if attempted r then reason else ''NotAttempted'');
          prior = (if attempted r then cursor_before r else through g (att_source r))
      in r\<lparr>att_status := ''unproven'', att_error := err,
           att_evidence := put_all
             [(''evidence_version'', JInt 1), (''core_contract_version'', JInt 1),
              (''proof_kind'', JStr (if attempted r then ''unproven_interrupted'' else ''unproven_not_attempted'')),
              (''termination_reason'', JStr (if attempted r then ''attempt_interrupted'' else ''source_not_attempted'')),
              (''error_summary'', JStr (take 160 err)), (''cursor_before'', JStr prior),
              (''cursor_candidate'', JStr (att_end r)), (''cursor_after'', JStr prior),
              (''cursor_advanced'', JBool False)] (att_evidence r),
           finalized := True, finished_at := now, cursor_candidate := att_end r, cursor_after := prior,
           cursor_advanced := False\<rparr>)"

definition close_run :: "pystr \<Rightarrow> pystr \<Rightarrow> pystr \<Rightarrow> engine \<Rightarrow> engine" where
  "close_run now run reason g =
     g\<lparr>attempts := update_where (\<lambda>r. run_id r = run \<and> \<not> finalized r) (close_row now reason g) (attempts g)\<rparr>"

record run_report =
  rep_run :: pystr
  configured :: nat
  rep_attempted :: nat
  rep_complete :: nat
  healthy :: bool
  rep_sources :: "attempt_row list"

definition report_row :: "engine \<Rightarrow> attempt_row \<Rightarrow> attempt_row" where
  "report_row g r =
     (let linked = sort (map snd (filter (\<lambda>l. fst l = att_id r) (links g)));
          d0 = att_evidence r;
          d1 = (if linked = [] then d0 else put_all [(''observation_ids'', JList (map JStr linked)),
                  (''raw_observation_count'', JInt (int (length linked)))] d0)
      in r\<lparr>att_evidence := set_default ''cursor_advanced'' (JBool (cursor_advanced r))
             (set_default ''cursor_after'' (JStr (cursor_after r))
             (set_default ''cursor_candidate'' (JStr (cursor_candidate r))
             (set_default ''cursor_before'' (JStr (cursor_before r))
             (set_default ''evidence_version'' (JInt 1) d1))))\<rparr>)"

definition report :: "pystr \<Rightarrow> engine \<Rightarrow> run_report" where
  "report run g =
     (let rs = map (report_row g)
            (sort_key (\<lambda>r. (source_order r, att_source r)) (filter (\<lambda>r. run_id r = run) (attempts g)))
      in \<lparr>rep_run = run, configured = length rs, rep_attempted = length (filter attempted rs),
          rep_complete = length (filter (\<lambda>r. att_status r = ''complete'') rs),
          healthy = (rs \<noteq> [] \<and> list_all (\<lambda>r. att_status r = ''complete'' \<and> finalized r) rs),
          rep_sources = rs\<rparr>)"

section \<open>The engine as a machine\<close>

datatype engine_op =
    EPlan pyenv "nat \<Rightarrow> pystr" pystr "pydict list" "(int \<times> int option) + pystr" "(int \<times> int option) + pystr"
  | EStart pystr pystr pystr
  | ECheckpoint pystr evidence
  | ELink pystr pystr
  | EFinish bool bool pystr pystr evidence int pystr
  | EClose pystr pystr pystr
  | ELedger ledger_op

text \<open>
  The engine on the real core: \<open>EFinish up up'\<close> carries whether the process can be run for the
  first and for the second request. The production ledger writes the other table.
\<close>

definition engine_step :: "(pystr \<Rightarrow> instant option) \<Rightarrow> engine_op \<Rightarrow> engine \<Rightarrow> engine" where
  "engine_step rfc op g = (case op of
       EPlan env ids run sources a b \<Rightarrow> (case plan env ids run sources a b g of Inl e \<Rightarrow> g | Inr g' \<Rightarrow> g')
     | EStart now run source \<Rightarrow> (case start now run source g of Inl e \<Rightarrow> g | Inr (i, g') \<Rightarrow> g')
     | ECheckpoint i e \<Rightarrow> checkpoint i e g
     | ELink i p \<Rightarrow> link_observation i p g
     | EFinish up up' now i e kept err \<Rightarrow>
         (case finish_attempt (core_evaluate up) (core_advance rfc up') now i e kept err g of Inl x \<Rightarrow> g | Inr g' \<Rightarrow> g')
     | EClose now run reason \<Rightarrow> close_run now run reason g
     | ELedger lop \<Rightarrow> g\<lparr>source_ledger := ledger_step lop (source_ledger g)\<rparr>)"

definition empty_engine :: engine where
  "empty_engine = \<lparr>attempts = [], shadow = [], links = [], source_ledger = empty_ledger\<rparr>"

section \<open>Invariant\<close>

definition ident :: "attempt_row \<Rightarrow> nat \<times> pystr \<times> pystr \<times> pystr \<times> nat \<times> pystr \<times> pystr" where
  "ident r = (sequence r, att_id r, run_id r, att_source r, source_order r, att_start r, att_end r)"

text \<open>One step on the attempt table: rows keep their identity, finalised rows are frozen.\<close>

definition evolves :: "attempt_row list \<Rightarrow> attempt_row list \<Rightarrow> bool" where
  "evolves t t' \<longleftrightarrow> (\<exists>f new. t' = map f t @ new \<and>
     (\<forall>r \<in> set t. ident (f r) = ident r \<and> (finalized r \<longrightarrow> f r = r)))"

lemma evolves_refl [simp]: "evolves t t"
  unfolding evolves_def by (intro exI [of _ id] exI [of _ "[]"]) simp

lemma evolves_trans:
  assumes "evolves t u" "evolves u v"
  shows "evolves t v"
proof -
  from assms obtain f a g b where f: "u = map f t @ a" "\<forall>r \<in> set t. ident (f r) = ident r \<and> (finalized r \<longrightarrow> f r = r)"
    and g: "v = map g u @ b" "\<forall>r \<in> set u. ident (g r) = ident r \<and> (finalized r \<longrightarrow> g r = r)"
    unfolding evolves_def by blast
  have "v = map (g \<circ> f) t @ (map g a @ b)" by (simp add: f(1) g(1))
  moreover have "ident ((g \<circ> f) r) = ident r \<and> (finalized r \<longrightarrow> (g \<circ> f) r = r)" if r: "r \<in> set t" for r
  proof -
    have "f r \<in> set u" by (simp add: f(1) r)
    then have "ident (g (f r)) = ident (f r) \<and> (finalized (f r) \<longrightarrow> g (f r) = f r)" using g(2) by blast
    moreover have "ident (f r) = ident r \<and> (finalized r \<longrightarrow> f r = r)" using f(2) r by blast
    ultimately show ?thesis by (auto simp: comp_def)
  qed
  ultimately show ?thesis unfolding evolves_def by blast
qed

lemma evolvesE:
  assumes "evolves t t'" "r \<in> set t"
  obtains r' where "r' \<in> set t'" "ident r' = ident r" "finalized r \<Longrightarrow> r' = r"
proof -
  from assms(1) obtain f new where f: "t' = map f t @ new"
    "\<forall>r \<in> set t. ident (f r) = ident r \<and> (finalized r \<longrightarrow> f r = r)" unfolding evolves_def by blast
  have "f r \<in> set t'" using assms(2) by (simp add: f(1))
  then show thesis using that f(2) assms(2) by blast
qed

lemma evolves_finalized: "evolves t t' \<Longrightarrow> r \<in> set t \<Longrightarrow> finalized r \<Longrightarrow> r \<in> set t'"
  by (metis evolvesE)

lemma evolves_ident: "evolves t t' \<Longrightarrow> ident ` set t \<subseteq> ident ` set t'"
  by (metis (no_types, lifting) evolvesE image_eqI image_subsetI)

lemma evolves_update_where:
  assumes "\<And>r. r \<in> set t \<Longrightarrow> P r \<Longrightarrow> ident (f r) = ident r \<and> \<not> finalized r"
  shows "evolves t (update_where P f t)"
proof -
  have "update_where P f t = map (\<lambda>r. if P r then f r else r) t @ []" by (simp add: update_where_def)
  moreover have "\<forall>r \<in> set t. ident (if P r then f r else r) = ident r \<and> (finalized r \<longrightarrow> (if P r then f r else r) = r)"
    using assms by simp
  ultimately show ?thesis unfolding evolves_def by blast
qed

lemma evolves_append: "evolves t (t @ new)"
  unfolding evolves_def by (rule exI [of _ id]) simp

lemma evolves_put: "evolves t (put_attempt r t)"
  using evolves_append [of t "[r]"] by (simp add: put_attempt_def)

definition stamped :: "pystr \<Rightarrow> bool" where
  "stamped s \<longleftrightarrow> (\<exists>t. valid_instant t \<and> s = isoformat_us t)"

definition attempt_ok :: "attempt_row \<Rightarrow> bool" where
  "attempt_ok r \<longleftrightarrow> att_start r < att_end r \<and> stamped (att_start r) \<and> stamped (att_end r)"

text \<open>What the evidence of a COMPLETE attempt says.\<close>

definition proved :: "pydict \<Rightarrow> bool" where
  "proved d \<longleftrightarrow> dict_get d ''terminal_proven'' JNull = JBool True \<and> dict_get d ''failed'' JNull = JBool False \<and>
     dict_get d ''valid_response'' JNull = JBool True \<and> dict_get d ''resumed'' JNull = JBool False \<and>
     dict_get d ''lower_boundary'' JNull = JBool False \<and> dict_get d ''missing_expected_ids'' JNull = JList [] \<and>
     dict_get d ''timeline_order_valid'' JNull = JBool True"

definition complete_ok :: "attempt_row \<Rightarrow> bool" where
  "complete_ok r \<longleftrightarrow> (att_status r = ''complete'' \<longrightarrow> finalized r \<and> proved (att_evidence r))"

definition backed :: "attempt_row list \<Rightarrow> shadow_cursor \<Rightarrow> bool" where
  "backed t c \<longleftrightarrow> (\<exists>r \<in> set t. finalized r \<and> att_status r = ''complete'' \<and> att_source r = sc_source c \<and>
     att_end r = sc_through c \<and> att_id r = sc_attempt c \<and> sequence r = sc_sequence c)"

definition engine_inv :: "engine \<Rightarrow> bool" where
  "engine_inv g \<longleftrightarrow> unique_on att_id (attempts g) \<and> (\<forall>r \<in> set (attempts g). attempt_ok r \<and> complete_ok r) \<and>
     unique_on sc_source (shadow g) \<and> (\<forall>c \<in> set (shadow g). backed (attempts g) c)"

lemma backed_evolves: "evolves t t' \<Longrightarrow> backed t c \<Longrightarrow> backed t' c"
  using evolves_finalized unfolding backed_def by blast

lemma ident_window: "ident r = ident r' \<Longrightarrow> attempt_ok r \<longleftrightarrow> attempt_ok r'"
  by (simp add: ident_def attempt_ok_def)

lemma engine_invI:
  assumes "engine_inv g" "evolves (attempts g) (attempts g')" "unique_on att_id (attempts g')"
    "\<And>r. r \<in> set (attempts g') \<Longrightarrow> attempt_ok r \<and> complete_ok r" "shadow g' = shadow g"
  shows "engine_inv g'"
  using assms backed_evolves unfolding engine_inv_def by auto

text \<open>Updates of unfinished rows.\<close>

lemma update_rows_inv:
  assumes inv: "engine_inv g"
    and P: "\<And>r. r \<in> set (attempts g) \<Longrightarrow> P r \<Longrightarrow> ident (f r) = ident r \<and> \<not> finalized r \<and> complete_ok (f r)"
  shows "engine_inv (g\<lparr>attempts := update_where P f (attempts g)\<rparr>)"
proof (rule engine_invI [OF inv])
  let ?t = "update_where P f (attempts g)"
  show "evolves (attempts g) (attempts (g\<lparr>attempts := ?t\<rparr>))" using evolves_update_where P by simp
  have "map att_id ?t = map att_id (attempts g)"
    using P by (simp add: update_where_def ident_def)
  then show "unique_on att_id (attempts (g\<lparr>attempts := ?t\<rparr>))" using inv by (simp add: engine_inv_def unique_on_def)
  fix r assume "r \<in> set (attempts (g\<lparr>attempts := ?t\<rparr>))"
  then obtain y where y: "y \<in> set (attempts g)" "r = (if P y then f y else y)"
    using in_update_whereE [of r P f "attempts g"] by auto
  have "attempt_ok y \<and> complete_ok y" using inv y(1) by (simp add: engine_inv_def)
  then show "attempt_ok r \<and> complete_ok r" using P [OF y(1)] y(2) ident_window [of "f y" y] by auto
qed simp

lemma by_attempt_row: "engine_inv g \<Longrightarrow> by_attempt i g = Some r \<Longrightarrow> x \<in> set (attempts g) \<Longrightarrow> att_id x = i \<Longrightarrow> x = r"
  using row_by_unique [of att_id "attempts g" x] by (simp add: engine_inv_def by_attempt_def)

lemma checkpoint_inv: "engine_inv g \<Longrightarrow> engine_inv (checkpoint i e g)"
  unfolding checkpoint_def
  by (rule update_rows_inv) (auto simp: ident_def complete_ok_def engine_inv_def)

lemma close_inv: "engine_inv g \<Longrightarrow> engine_inv (close_run now run reason g)"
  unfolding close_run_def
  by (rule update_rows_inv) (auto simp: ident_def complete_ok_def close_row_def Let_def)

lemma link_frames [simp]:
  "attempts (link_observation i p g) = attempts g" "shadow (link_observation i p g) = shadow g"
  by (simp_all add: link_observation_def)

lemma link_inv: "engine_inv g \<Longrightarrow> engine_inv (link_observation i p g)"
  by (simp add: engine_inv_def)

lemma start_cases:
  assumes "start now run source g = Inr (i, g')"
  obtains r where "r \<in> set (attempts g)" "run_id r = run" "att_source r = start_source source" "\<not> finalized r"
    "\<not> attempted r" "att_id r = i"
    "g' = update_attempt (att_id r) (\<lambda>x. x\<lparr>attempted := True, att_status := ''attempting'', att_error := [],
       retry_number := prior_attempts r g, attempt_number := prior_attempts r g + 1, started_at := now,
       cursor_before := through g (start_source source), cursor_candidate := att_end r, cursor_after := [],
       cursor_advanced := False\<rparr>) g"
proof -
  obtain r where f: "List.find (\<lambda>r. run_id r = run \<and> att_source r = start_source source) (attempts g) = Some r"
    using assms by (cases "List.find (\<lambda>r. run_id r = run \<and> att_source r = start_source source) (attempts g)")
      (simp_all add: start_def)
  have nf: "\<not> finalized r \<and> \<not> attempted r"
    using assms f by (simp add: start_def split: if_splits)
  then have "start now run source g = Inr (att_id r, update_attempt (att_id r) (\<lambda>x. x\<lparr>attempted := True,
       att_status := ''attempting'', att_error := [], retry_number := prior_attempts r g,
       attempt_number := prior_attempts r g + 1, started_at := now, cursor_before := through g (start_source source),
       cursor_candidate := att_end r, cursor_after := [], cursor_advanced := False\<rparr>) g)"
    using f by (simp add: start_def Let_def)
  with assms have eq: "(i, g') = (att_id r, update_attempt (att_id r) (\<lambda>x. x\<lparr>attempted := True,
       att_status := ''attempting'', att_error := [], retry_number := prior_attempts r g,
       attempt_number := prior_attempts r g + 1, started_at := now, cursor_before := through g (start_source source),
       cursor_candidate := att_end r, cursor_after := [], cursor_advanced := False\<rparr>) g)"
    by (simp only: sum.inject(2))
  note g' = arg_cong [OF eq, of snd, unfolded snd_conv] and i = arg_cong [OF eq, of fst, unfolded fst_conv]
  have mem: "r \<in> set (attempts g) \<and> run_id r = run \<and> att_source r = start_source source"
    using find_holds [OF f] by simp
  show thesis using mem nf by (intro that [of r] i [symmetric] g') simp_all
qed

lemma engine_start_inv:
  assumes inv: "engine_inv g" and s: "start now run source g = Inr (i, g')"
  shows "engine_inv g'"
  using s
proof (cases rule: start_cases)
  case (1 r)
  have same: "x = r" if "x \<in> set (attempts g)" "att_id x = i" for x
    using row_by_unique [of att_id "attempts g"] inv that 1(1,6) unfolding engine_inv_def by (metis option.inject)
  show ?thesis unfolding 1(7) update_attempt_def
    by (rule update_rows_inv [OF inv]) (use same 1(4,6) in \<open>auto simp: ident_def complete_ok_def\<close>)
qed

lemma put_attempt_set: "set (put_attempt r t) \<subseteq> insert r (set t)"
  by (auto simp: put_attempt_def)

lemma put_attempt_unique: "unique_on att_id t \<Longrightarrow> unique_on att_id (put_attempt r t)"
  by (auto simp: put_attempt_def unique_on_def list_ex_iff)

lemma plan_loop_kept:
  assumes "ws < we" "stamped ws" "stamped we"
  shows "unique_on att_id t \<Longrightarrow> \<forall>r \<in> set t. attempt_ok r \<and> complete_ok r \<Longrightarrow>
    evolves t (plan_loop env ids run ws we n raws t) \<and> unique_on att_id (plan_loop env ids run ws we n raws t) \<and>
    (\<forall>r \<in> set (plan_loop env ids run ws we n raws t). attempt_ok r \<and> complete_ok r)"
proof (induction raws arbitrary: n t)
  case (Cons raw rest)
  define t1 where "t1 = (if truthy (dict_get raw ''enabled'' (JBool True))
        then put_attempt (new_attempt (next_sequence t) (ids n) run (planned_handle env n raw) n ws we) t else t)"
  have new: "attempt_ok (new_attempt k i run h n ws we) \<and> complete_ok (new_attempt k i run h n ws we)" for k i h
    using assms by (simp add: new_attempt_def attempt_ok_def complete_ok_def)
  have 1: "evolves t t1" by (simp add: t1_def evolves_put)
  have 2: "unique_on att_id t1" using Cons.prems(1) by (simp add: t1_def put_attempt_unique)
  have 3: "\<forall>r \<in> set t1. attempt_ok r \<and> complete_ok r"
  proof
    fix r assume "r \<in> set t1"
    then consider "r \<in> set t" | k i h where "r = new_attempt k i run h n ws we"
      using put_attempt_set [of "new_attempt (next_sequence t) (ids n) run (planned_handle env n raw) n ws we" t]
      unfolding t1_def by (auto split: if_splits)
    then show "attempt_ok r \<and> complete_ok r" by cases (use Cons.prems(2) new in auto)
  qed
  have "plan_loop env ids run ws we n (raw # rest) t = plan_loop env ids run ws we (Suc n) rest t1"
    by (simp add: t1_def)
  with Cons.IH [OF 2 3, of "Suc n"] evolves_trans [OF 1] show ?case by simp
qed simp

lemma utc_stamped: "utc v = Inr s \<Longrightarrow> stamped s"
  unfolding utc_def stamped_def by (auto split: sum.splits option.splits prod.splits if_splits)

lemma plan_cases:
  assumes "plan env ids run sources a b g = Inr g'"
  obtains ws we where "ws < we" "stamped ws" "stamped we" "utc a = Inr ws" "utc b = Inr we"
    "g' = g\<lparr>attempts := plan_loop env ids run ws we 0 sources (attempts g)\<rparr>"
  using assms utc_stamped by (auto simp: plan_def not_le split: sum.splits if_splits)

lemma plan_inv:
  assumes inv: "engine_inv g" and p: "plan env ids run sources a b g = Inr g'"
  shows "engine_inv g'" "evolves (attempts g) (attempts g')" "shadow g' = shadow g"
proof -
  from p obtain ws we where w: "ws < we" "stamped ws" "stamped we"
    "g' = g\<lparr>attempts := plan_loop env ids run ws we 0 sources (attempts g)\<rparr>" by (rule plan_cases)
  note k = plan_loop_kept [OF w(1-3), of "attempts g" env ids run 0 sources]
  from k inv show e: "evolves (attempts g) (attempts g')" by (simp add: w(4) engine_inv_def)
  show sh: "shadow g' = shadow g" by (simp add: w(4))
  show "engine_inv g'" by (rule engine_invI [OF inv e _ _ sh]) (use k inv in \<open>auto simp: w(4) engine_inv_def\<close>)
qed

section \<open>Finishing keeps the invariant\<close>

lemma final_payload_get:
  assumes "map_of (proof_payload e p d) k = Some v"
  shows "dict_get (final_payload e p d meta c r after adv) k x = v"
proof -
  have "\<exists>rest. final_payload e p d meta c r after adv = proof_payload e p d @ rest"
    unfolding final_payload_def by (simp split: prod.split)
  then obtain rest where "final_payload e p d meta c r after adv = proof_payload e p d @ rest" by blast
  with assms show ?thesis by (simp add: dict_get_def map_add_def)
qed

lemma payload_proved:
  assumes "terminal_proof (fst (proof_inputs e err))"
  shows "proved (final_payload e (fst (proof_inputs e err)) (snd (proof_inputs e err)) meta c r after adv)"
proof -
  have p: "valid_response (fst (proof_inputs e err))" "\<not> resumed (fst (proof_inputs e err))"
    "\<not> lower_boundary (fst (proof_inputs e err))" "\<not> failed (fst (proof_inputs e err))"
    using assms by (simp_all add: terminal_proof_def)
  have d: "terminal_proven (snd (proof_inputs e err))" "missing_expected (snd (proof_inputs e err)) = {}"
    "pd_order_valid (snd (proof_inputs e err))"
    using assms by (auto simp: terminal_proof_def proof_inputs_def Let_def)
  show ?thesis unfolding proved_def
    by (intro conjI; rule final_payload_get) (simp_all add: proof_payload_def p d json_ids_def)
qed

lemma decide_complete:
  "cd_status (decide_cursor adv r st err g) = ''complete'' \<Longrightarrow> st = ''complete''"
  by (auto simp: decide_cursor_def Let_def split: if_splits)

lemma decide_shadow:
  obtains (stay) "cd_shadow (decide_cursor adv r st err g) = shadow g" "\<not> cd_moved (decide_cursor adv r st err g)"
  | (move) "cd_shadow (decide_cursor adv r st err g) = write_cursor r (shadow g)"
    "cd_moved (decide_cursor adv r st err g)" "cd_status (decide_cursor adv r st err g) = ''complete''"
    "eligible_cursor r g" "contiguous r g"
proof (cases "st = ''complete'' \<and> eligible_cursor r g \<and> contiguous r g \<and> adv (window_claim r g) (att_end r) = Some (att_end r)")
  case True
  then show thesis by (intro move) (simp_all add: decide_cursor_def Let_def)
next
  case False
  then show thesis by (intro stay) (auto simp: decide_cursor_def Let_def)
qed

lemma core_verdict_complete: "core_verdict ev p err = (''complete'', err1) \<Longrightarrow> ev p = Some ''complete''"
  by (auto simp: core_verdict_def split: option.splits if_splits)

definition finished_row :: "pystr \<Rightarrow> evidence \<Rightarrow> int \<Rightarrow> pystr \<Rightarrow> pystr \<times> pystr \<Rightarrow> cursor_decision \<Rightarrow> attempt_row \<Rightarrow>
    pystr \<Rightarrow> bool \<Rightarrow> pystr \<Rightarrow> attempt_row \<Rightarrow> attempt_row" where
  "finished_row now e kept err meta c r after advanced legacy x = x\<lparr>
     att_status := cd_status c,
     att_evidence := final_payload e (fst (proof_inputs e err)) (snd (proof_inputs e err)) meta c r after advanced,
     att_error := take 160 (cd_error c), retained := max 0 kept, finalized := True, finished_at := now,
     cursor_candidate := att_end r, cursor_after := after, cursor_advanced := advanced, legacy_status := legacy\<rparr>"

lemma finish_cases:
  assumes "finish_attempt ev adv now i e kept err g = Inr g'"
  obtains (already) r where "by_attempt i g = Some r" "finalized r" "g' = g"
  | (written) r st err1 c meta after advanced where "by_attempt i g = Some r" "attempted r" "\<not> finalized r"
      "core_verdict ev (fst (proof_inputs e err)) err = (st, err1)" "c = decide_cursor adv r st err1 g"
      "after = (case row_by sc_source (att_source r) (cd_shadow c) of None \<Rightarrow> cursor_before r | Some x \<Rightarrow> sc_through x)"
      "advanced = (cd_moved c \<and> after \<noteq> cursor_before r)"
      "g' = (update_attempt i (finished_row now e kept err meta c r after advanced (legacy_of g)) g)\<lparr>shadow := cd_shadow c\<rparr>"
proof -
  obtain p d where pd: "proof_inputs e err = (p, d)" by force
  obtain st err1 where v: "core_verdict ev p err = (st, err1)" by force
  from assms obtain r where r: "by_attempt i g = Some r" "attempted r"
    by (auto simp: finish_attempt_def pd v Let_def split: option.splits if_splits)
  show thesis
  proof (cases "finalized r")
    case True
    have "g' = g" using assms r True by (simp add: finish_attempt_def pd v)
    with r True already show thesis by blast
  next
    case False
    have v': "core_verdict ev (fst (proof_inputs e err)) err = (st, err1)" by (simp add: pd v)
    show thesis
      by (rule written [OF r False v' refl refl refl, where meta = "verdict_metadata st e d err1"])
         (use assms r False in \<open>simp add: finish_attempt_def pd v Let_def finished_row_def [abs_def]\<close>)
  qed
qed

lemma finished_ident [simp]:
  "ident (finished_row now e kept err meta c r after adv leg x) = ident x"
  "finalized (finished_row now e kept err meta c r after adv leg x)"
  "att_status (finished_row now e kept err meta c r after adv leg x) = cd_status c"
  by (simp_all add: finished_row_def ident_def)

definition cursor_row_of :: "attempt_row \<Rightarrow> shadow_cursor" where
  "cursor_row_of r = \<lparr>sc_source = att_source r, sc_through = att_end r, sc_attempt = att_id r, sc_sequence = sequence r\<rparr>"

lemma write_cursor_set: "x \<in> set (write_cursor r t) \<Longrightarrow> x = cursor_row_of r \<or> x \<in> set t"
  unfolding write_cursor_def upsert_def Let_def cursor_row_of_def
  by (auto elim!: in_update_whereE split: if_splits)

lemma write_cursor_unique: "unique_on sc_source t \<Longrightarrow> unique_on sc_source (write_cursor r t)"
  unfolding write_cursor_def Let_def by (rule upsert_unique) simp_all

lemma write_cursor_row:
  "row_by sc_source k (write_cursor r t) = (if k = att_source r then Some (cursor_row_of r) else row_by sc_source k t)"
proof (cases "k = att_source r")
  case True
  then show ?thesis
    by (cases "row_by sc_source k t")
       (auto simp: write_cursor_def Let_def row_by_upsert cursor_row_of_def dest: row_by_Some)
qed (simp add: write_cursor_def Let_def row_by_upsert)

lemma shadow_write_inv:
  assumes inv: "engine_inv g" and r: "r' \<in> set (attempts g)" "finalized r'" "att_status r' = ''complete''" "ident r' = ident r"
  shows "engine_inv (g\<lparr>shadow := write_cursor r (shadow g)\<rparr>)"
proof -
  have "backed (attempts g) (cursor_row_of r)"
    using r unfolding backed_def by (intro bexI [of _ r']) (auto simp: ident_def cursor_row_of_def)
  then have "\<forall>c \<in> set (write_cursor r (shadow g)). backed (attempts g) c"
    using inv write_cursor_set [of _ r "shadow g"] unfolding engine_inv_def by blast
  with inv show ?thesis by (simp add: engine_inv_def write_cursor_unique)
qed

lemma through_write:
  "through (g\<lparr>attempts := t, shadow := write_cursor r (shadow g)\<rparr>) k = (if k = att_source r then att_end r else through g k)"
  by (simp add: through_def shadow_of_def write_cursor_row cursor_row_of_def)

lemma through_cong: "shadow g' = shadow g \<Longrightarrow> through g' k = through g k"
  by (simp add: through_def shadow_of_def)

lemma eligible_through: "eligible_cursor r g \<Longrightarrow> through g (att_source r) \<le> att_end r"
  by (auto simp: eligible_cursor_def through_def split: option.splits)

context proof_authority begin

text \<open>The engine on any authority that keeps the contract.\<close>

lemma finish_kept:
  assumes inv: "engine_inv g" and f: "finish_attempt (evaluate up) (advance up') now i e kept err g = Inr g'"
  shows "engine_inv g'" "evolves (attempts g) (attempts g')" "through g k \<le> through g' k"
    "through g' k \<noteq> through g k \<Longrightarrow> \<exists>r \<in> set (attempts g'). finalized r \<and> att_status r = ''complete'' \<and>
      att_source r = k \<and> att_end r = through g' k \<and> (through g k = [] \<or> att_start r \<le> through g k)"
proof -
  have "engine_inv g' \<and> evolves (attempts g) (attempts g') \<and> through g k \<le> through g' k \<and>
    (through g' k \<noteq> through g k \<longrightarrow> (\<exists>r \<in> set (attempts g'). finalized r \<and> att_status r = ''complete'' \<and>
      att_source r = k \<and> att_end r = through g' k \<and> (through g k = [] \<or> att_start r \<le> through g k)))"
    using f
  proof (cases rule: finish_cases)
    case (written r st err1 c meta after adv)
    define F where "F = finished_row now e kept err meta c r after adv (legacy_of g)"
    define g1 where "g1 = g\<lparr>attempts := update_where (\<lambda>x. att_id x = i) F (attempts g)\<rparr>"
    have g': "g' = g1\<lparr>shadow := cd_shadow c\<rparr>" by (simp add: written(8) g1_def F_def update_attempt_def)
    have r: "r \<in> set (attempts g)" "att_id r = i"
      using row_by_Some written(1) unfolding by_attempt_def by fastforce+
    have okF: "complete_ok (F x)" for x
    proof -
      have "proved (att_evidence (F x))" if "cd_status c = ''complete''"
      proof -
        have "core_verdict (evaluate up) (fst (proof_inputs e err)) err = (''complete'', err1)"
          using that decide_complete written(4,5) by metis
        then have "terminal_proof (fst (proof_inputs e err))" using core_verdict_complete evaluate_complete by blast
        then show ?thesis by (simp add: F_def finished_row_def payload_proved)
      qed
      then show ?thesis by (simp add: complete_ok_def F_def)
    qed
    have ok: "ident (F x) = ident x \<and> \<not> finalized x \<and> complete_ok (F x)" if "x \<in> set (attempts g)" "att_id x = i" for x
    proof -
      have "x = r" using by_attempt_row [OF inv written(1) that] .
      with written(3) okF show ?thesis by (simp add: F_def)
    qed
    have inv1: "engine_inv g1" unfolding g1_def using ok by (rule update_rows_inv [OF inv])
    have ev: "evolves (attempts g) (attempts g')" unfolding g' g1_def using evolves_update_where ok by simp
    have Fr: "F r \<in> set (attempts g1)" "ident (F r) = ident r" "finalized (F r)" "att_status (F r) = cd_status c"
      using r unfolding g1_def by (auto simp: update_where_def F_def)
    show ?thesis
    proof (cases rule: decide_shadow [of "advance up'" r st err1 g])
      case stay
      then have "shadow g' = shadow g" "g' = g1" by (simp_all add: g' g1_def written(5))
      moreover from this(1) have "through g' k = through g k" by (rule through_cong)
      ultimately show ?thesis using inv1 ev by simp
    next
      case move
      then have c: "cd_shadow c = write_cursor r (shadow g)" "cd_status c = ''complete''" by (simp_all add: written(5))
      have g'': "g' = g1\<lparr>shadow := write_cursor r (shadow g1)\<rparr>" by (simp add: g' c(1) g1_def)
      have inv': "engine_inv g'" unfolding g'' using Fr c(2) by (intro shadow_write_inv [OF inv1, of "F r"]) simp_all
      have th: "through g' j = (if j = att_source r then att_end r else through g j)" for j
        unfolding g' g1_def using through_write [where g = g and r = r and k = j] by (simp add: c(1))
      have mono: "through g k \<le> through g' k" using eligible_through [OF move(4)] th by simp
      have touch: "through g (att_source r) = [] \<or> att_start (F r) \<le> through g (att_source r)"
        using move(5) Fr(2) by (auto simp: contiguous_def through_def ident_def split: option.splits)
      have Fr': "F r \<in> set (attempts g')" "finalized (F r)" "att_status (F r) = ''complete''"
        "att_source (F r) = att_source r" "att_end (F r) = att_end r"
        using Fr c(2) by (simp_all add: g' ident_def)
      show ?thesis
      proof (cases "k = att_source r")
        case True
        with Fr' touch th have "\<exists>x \<in> set (attempts g'). finalized x \<and> att_status x = ''complete'' \<and>
          att_source x = k \<and> att_end x = through g' k \<and> (through g k = [] \<or> att_start x \<le> through g k)" by auto
        with inv' ev mono show ?thesis by blast
      next
        case False
        then have "through g' k = through g k" by (simp add: th)
        with inv' ev mono show ?thesis by simp
      qed
    qed
  qed (use inv in simp)
  then show "engine_inv g'" "evolves (attempts g) (attempts g')" "through g k \<le> through g' k"
    "through g' k \<noteq> through g k \<Longrightarrow> \<exists>r \<in> set (attempts g'). finalized r \<and> att_status r = ''complete'' \<and>
      att_source r = k \<and> att_end r = through g' k \<and> (through g k = [] \<or> att_start r \<le> through g k)"
    by blast+
qed

end

text \<open>Every operation of the engine on the real core.\<close>

lemma engine_step_kept:
  assumes inv: "engine_inv g"
  shows "engine_inv (engine_step rfc op g)" (is ?A)
    "evolves (attempts g) (attempts (engine_step rfc op g))" (is ?B)
    "through g k \<le> through (engine_step rfc op g) k" (is ?C)
    "through (engine_step rfc op g) k \<noteq> through g k \<Longrightarrow> \<exists>r \<in> set (attempts (engine_step rfc op g)). finalized r \<and>
      att_status r = ''complete'' \<and> att_source r = k \<and> att_end r = through (engine_step rfc op g) k \<and>
      (through g k = [] \<or> att_start r \<le> through g k)"
proof -
  let ?g = "engine_step rfc op g"
  let ?D = "through ?g k \<noteq> through g k \<longrightarrow> (\<exists>r \<in> set (attempts ?g). finalized r \<and>
      att_status r = ''complete'' \<and> att_source r = k \<and> att_end r = through ?g k \<and>
      (through g k = [] \<or> att_start r \<le> through g k))"
  have frame: "?A \<and> ?B \<and> ?C \<and> ?D" if "engine_inv ?g" "evolves (attempts g) (attempts ?g)" "shadow ?g = shadow g"
  proof -
    have "through ?g k = through g k" using that(3) by (rule through_cong)
    with that(1,2) show ?thesis by simp
  qed
  have "?A \<and> ?B \<and> ?C \<and> ?D"
  proof (cases op)
    case (EPlan env ids run sources a b)
    show ?thesis using inv plan_inv [OF inv, of env ids run sources a b] EPlan
      by (intro frame) (auto simp: engine_step_def split: sum.split)
  next
    case (EStart now run source)
    have "evolves (attempts g) (attempts g') \<and> shadow g' = shadow g" if s: "start now run source g = Inr (i, g')" for i g'
      using s
    proof (cases rule: start_cases)
      case (1 r)
      have "x = r" if "x \<in> set (attempts g)" "att_id x = att_id r" for x
        using row_by_unique [of att_id "attempts g"] inv that 1(1) unfolding engine_inv_def by (metis option.inject)
      then have "evolves (attempts g) (attempts g')" unfolding 1(7) update_attempt_def
        using 1(4) by (simp, intro evolves_update_where) (auto simp: ident_def)
      then show ?thesis by (simp add: 1(7) update_attempt_def)
    qed
    then show ?thesis using inv engine_start_inv [OF inv, of now run source] EStart
      by (intro frame) (auto simp: engine_step_def split: sum.split)
  next
    case (ECheckpoint i e)
    have "evolves (attempts g) (attempts (checkpoint i e g))"
      by (auto simp: checkpoint_def ident_def intro!: evolves_update_where)
    then show ?thesis using checkpoint_inv [OF inv] ECheckpoint
      by (intro frame) (simp_all add: engine_step_def, simp add: checkpoint_def)
  next
    case (ELink i p)
    then show ?thesis using link_inv [OF inv] by (intro frame) (simp_all add: engine_step_def)
  next
    case (EFinish up up' now i e kept err)
    show ?thesis
    proof (cases "finish_attempt (core_evaluate up) (core_advance rfc up') now i e kept err g")
      case (Inl x)
      with EFinish inv show ?thesis by (intro frame) (simp_all add: engine_step_def)
    next
      case (Inr g')
      then have "?g = g'" by (simp add: engine_step_def EFinish)
      with core.finish_kept [OF inv Inr] show ?thesis by blast
    qed
  next
    case (EClose now run reason)
    have "evolves (attempts g) (attempts (close_run now run reason g))"
      by (auto simp: close_run_def close_row_def Let_def ident_def intro!: evolves_update_where)
    then show ?thesis using close_inv [OF inv] EClose
      by (intro frame) (simp_all add: engine_step_def, simp add: close_run_def)
  next
    case (ELedger lop)
    then show ?thesis using inv by (intro frame) (simp_all add: engine_step_def engine_inv_def)
  qed
  then show ?A ?B ?C "through ?g k \<noteq> through g k \<Longrightarrow> \<exists>r \<in> set (attempts ?g). finalized r \<and>
      att_status r = ''complete'' \<and> att_source r = k \<and> att_end r = through ?g k \<and>
      (through g k = [] \<or> att_start r \<le> through g k)"
    by blast+
qed

interpretation engine: watermark_machine "engine_step rfc" engine_inv through for rfc
  by unfold_locales (rule engine_step_kept(1), assumption, rule engine_step_kept(3), assumption)

section \<open>Properties\<close>

lemma empty_engine_inv: "engine_inv empty_engine"
  by (simp add: engine_inv_def empty_engine_def)

lemma run_evolves: "engine_inv g \<Longrightarrow> evolves (attempts g) (attempts (fold (engine_step rfc) ops g))"
proof (induction ops arbitrary: g)
  case (Cons op ops)
  show ?case using evolves_trans [OF engine_step_kept(2) [OF Cons.prems] Cons.IH [OF engine_step_kept(1) [OF Cons.prems]]]
    by simp
qed simp

text \<open>
  C4: A cursor is never ahead of proof: in every reachable state the shadow cursor of a source is the
  end of a finalised COMPLETE attempt of that source, whose evidence says that the traversal
  terminated, in order, valid, not resumed, without an error and with no expected post missing.
\<close>

theorem cursor_backed_by_proof:
  assumes "g = fold (engine_step rfc) ops empty_engine" "c \<in> set (shadow g)"
  shows "\<exists>r \<in> set (attempts g). finalized r \<and> att_status r = ''complete'' \<and> att_source r = sc_source c \<and>
    att_end r = sc_through c \<and> att_start r < att_end r \<and> proved (att_evidence r)"
proof -
  have inv: "engine_inv g" unfolding assms(1) by (rule engine.run_inv [OF empty_engine_inv])
  then obtain r where r: "r \<in> set (attempts g)" "finalized r" "att_status r = ''complete''"
    "att_source r = sc_source c" "att_end r = sc_through c"
    using assms(2) unfolding engine_inv_def backed_def by blast
  with inv show ?thesis unfolding engine_inv_def attempt_ok_def complete_ok_def by blast
qed

text \<open>
  History is frozen: a finalised attempt keeps every field for ever, no attempt disappears or
  changes its window, and the cursor of no source moves back.
\<close>

theorem history_frozen:
  assumes "engine_inv g" "r \<in> set (attempts g)"
  shows "(\<exists>r' \<in> set (attempts (fold (engine_step rfc) ops g)). ident r' = ident r \<and> (finalized r \<longrightarrow> r' = r)) \<and>
    through g k \<le> through (fold (engine_step rfc) ops g) k"
  using run_evolves [OF assms(1)] assms(2) engine.run_mark [OF assms(1)] by (metis evolvesE)

text \<open>
  C13: No gap: whatever happens between two states, every instant by which a cursor moved lies in the
  window of a finalised COMPLETE attempt of that source.
\<close>

theorem cursor_moves_without_gap:
  assumes "engine_inv g" "through g k \<noteq> []"
    "through g k \<le> x" "x < through (fold (engine_step rfc) ops g) k"
  shows "\<exists>r \<in> set (attempts (fold (engine_step rfc) ops g)). finalized r \<and> att_status r = ''complete'' \<and>
    att_source r = k \<and> att_start r \<le> x \<and> x < att_end r"
  using assms
proof (induction ops arbitrary: g)
  case (Cons op ops)
  let ?g = "engine_step rfc op g"
  have inv: "engine_inv ?g" using Cons.prems(1) by (rule engine_step_kept)
  have mono: "through g k \<le> through ?g k" using Cons.prems(1) by (rule engine_step_kept)
  show ?case
  proof (cases "through ?g k \<le> x")
    case True
    have "through ?g k \<noteq> []" using mono Cons.prems(2) by (cases "through ?g k") auto
    then show ?thesis using Cons.IH [OF inv _ True] Cons.prems(4) by simp
  next
    case False
    then have "through ?g k \<noteq> through g k" using Cons.prems(3) by auto
    then obtain r where r: "r \<in> set (attempts ?g)" "finalized r" "att_status r = ''complete''" "att_source r = k"
      "att_end r = through ?g k" "through g k = [] \<or> att_start r \<le> through g k"
      using engine_step_kept(4) [OF Cons.prems(1)] by blast
    have "r \<in> set (attempts (fold (engine_step rfc) ops ?g))"
      using run_evolves [OF inv] r(1,2) by (rule evolves_finalized)
    with r(2-6) False Cons.prems(2,3) show ?thesis by (auto intro!: bexI [of _ r])
  qed
qed simp

section \<open>A concrete run\<close>

definition demo_rfc :: "pystr \<Rightarrow> instant option" where "demo_rfc = parse_bound"

definition demo_evidence :: evidence where
  "demo_evidence = (fresh_evidence ''x'' [] [])\<lparr>ev_pages := 1, ev_raw_count := 1, ev_valid_response := True,
     ev_exhausted := True, observation_ids := {''1''}, expected_window_ids := {''1''}\<rparr>"

definition demo_at :: "int \<Rightarrow> (int \<times> int option) + pystr" where "demo_at t = Inl (t, Some 0)"

definition demo_ops :: "engine_op list" where
  "demo_ops = [EPlan demo_page_env (\<lambda>n. int_text (int n)) ''run'' [[(''handle'', JStr ''@X'')]] (demo_at 0) (demo_at 5),
     EStart ''n'' ''run'' ''x'', EFinish True True ''m'' ''0'' demo_evidence 1 []]"

definition demo_engine :: engine where "demo_engine = fold (engine_step demo_rfc) demo_ops empty_engine"

definition demo_row0 :: attempt_row where
  "demo_row0 = new_attempt 1 ''0'' ''run'' ''x'' 0 (isoformat_us 0) (isoformat_us 5)"

definition demo_row1 :: attempt_row where
  "demo_row1 = demo_row0\<lparr>attempted := True, att_status := ''attempting'', att_error := [], retry_number := 0,
     attempt_number := 1, started_at := ''n'', cursor_before := [], cursor_candidate := isoformat_us 5,
     cursor_after := [], cursor_advanced := False\<rparr>"

lemma demo_stamps [simp]:
  "utc (demo_at 0) = Inr (isoformat_us 0)" "utc (demo_at 5) = Inr (isoformat_us 5)"
  "isoformat_us 0 < isoformat_us 5" "valid_instant 0" "valid_instant 5"
proof -
  show v: "valid_instant 0" "valid_instant 5" by (simp_all add: valid_instant_def us_per_day_def)
  then show "utc (demo_at 0) = Inr (isoformat_us 0)" "utc (demo_at 5) = Inr (isoformat_us 5)"
    by (simp_all add: utc_def demo_at_def)
  show "isoformat_us 0 < isoformat_us 5" using isoformat_order(3) [OF v] by simp
qed

lemma demo_planned: "planned_handle demo_page_env 0 [(''handle'', JStr ''@X'')] = ''x''"
  by code_simp

lemma demo_plan:
  "engine_step demo_rfc (EPlan demo_page_env (\<lambda>n. int_text (int n)) ''run'' [[(''handle'', JStr ''@X'')]]
     (demo_at 0) (demo_at 5)) empty_engine = empty_engine\<lparr>attempts := [demo_row0]\<rparr>"
proof -
  have "int_text 0 = ''0''" by code_simp
  then show ?thesis
    by (simp add: engine_step_def plan_def empty_engine_def next_sequence_def put_attempt_def demo_planned
        demo_row0_def not_le dict_get_def)
qed

lemma demo_source [simp]: "start_source ''x'' = ''x''"
  by code_simp

lemma demo_start:
  "engine_step demo_rfc (EStart ''n'' ''run'' ''x'') (empty_engine\<lparr>attempts := [demo_row0]\<rparr>) =
    empty_engine\<lparr>attempts := [demo_row1]\<rparr>"
  by (simp add: engine_step_def start_def Let_def demo_row0_def demo_row1_def new_attempt_def update_attempt_def
      prior_attempts_def rowcount_def through_def shadow_of_def empty_engine_def)

lemma demo_verdict: "core_verdict (core_evaluate True) (fst (proof_inputs demo_evidence [])) [] = (''complete'', [])"
proof -
  have "terminal_proof (fst (proof_inputs demo_evidence []))"
    by (simp add: proof_inputs_def Let_def terminal_proof_def demo_evidence_def fresh_evidence_def)
  then have "core_evaluate True (fst (proof_inputs demo_evidence [])) = Some ''complete''"
    by (rule core.evaluate_proved) (simp_all add: proof_inputs_def Let_def demo_evidence_def fresh_evidence_def)
  then show ?thesis by (simp add: core_verdict_def)
qed

lemma demo_core: "core_advance demo_rfc True (window_claim demo_row1 (empty_engine\<lparr>attempts := [demo_row1]\<rparr>))
    (isoformat_us 5) = Some (isoformat_us 5)"
  by (simp add: core_advance_def advance_complete_through_def window_claim_def demo_row1_def demo_row0_def
      new_attempt_def shadow_of_def empty_engine_def bindE_def core_parse_def demo_rfc_def)

lemma demo_finish:
  "shadow (engine_step demo_rfc (EFinish True True ''m'' ''0'' demo_evidence 1 []) (empty_engine\<lparr>attempts := [demo_row1]\<rparr>)) =
    [cursor_row_of demo_row1]"
proof -
  obtain p d where pd: "proof_inputs demo_evidence [] = (p, d)" by force
  have "by_attempt ''0'' (empty_engine\<lparr>attempts := [demo_row1]\<rparr>) = Some demo_row1" "attempted demo_row1"
    "\<not> finalized demo_row1" "att_end demo_row1 = isoformat_us 5"
    by (simp_all add: by_attempt_def demo_row1_def demo_row0_def new_attempt_def)
  moreover have "shadow (empty_engine\<lparr>attempts := [demo_row1]\<rparr>) = []" by (simp add: empty_engine_def)
  ultimately show ?thesis using demo_verdict demo_core
    by (simp add: engine_step_def finish_attempt_def pd Let_def decide_cursor_def eligible_cursor_def contiguous_def
        shadow_of_def write_cursor_def upsert_def cursor_row_of_def)
qed

lemma demo_engine_cursor: "shadow demo_engine = [cursor_row_of demo_row1]" "engine_inv demo_engine"
proof -
  have "demo_engine = engine_step demo_rfc (EFinish True True ''m'' ''0'' demo_evidence 1 []) (empty_engine\<lparr>attempts := [demo_row1]\<rparr>)"
    unfolding demo_engine_def demo_ops_def by (simp only: fold_simps comp_apply id_apply demo_plan demo_start)
  then show "shadow demo_engine = [cursor_row_of demo_row1]" using demo_finish by (simp only:)
  show "engine_inv demo_engine" unfolding demo_engine_def by (rule engine.run_inv [OF empty_engine_inv])
qed

theorem cursor_backed_by_proof_witness:
  "\<exists>r \<in> set (attempts demo_engine). finalized r \<and> att_status r = ''complete'' \<and> att_end r = isoformat_us 5 \<and>
     proved (att_evidence r)"
  using cursor_backed_by_proof [of demo_engine demo_rfc demo_ops "cursor_row_of demo_row1"]
  by (auto simp: demo_engine_def demo_engine_cursor(1) [unfolded demo_engine_def] cursor_row_of_def demo_row1_def
      demo_row0_def new_attempt_def)

theorem history_frozen_witness:
  "through demo_engine ''x'' \<le> through (fold (engine_step demo_rfc) [EClose ''n'' ''run'' []] demo_engine) ''x''"
proof -
  obtain r where "r \<in> set (attempts demo_engine)"
    using demo_engine_cursor unfolding engine_inv_def backed_def by auto
  from history_frozen [OF demo_engine_cursor(2) this] show ?thesis by blast
qed

text \<open>A second, contiguous attempt on top of a finished one.\<close>

definition demo_done :: attempt_row where
  "demo_done = demo_row0\<lparr>attempted := True, att_status := ''complete'', finalized := True,
     att_evidence := [(''terminal_proven'', JBool True), (''failed'', JBool False), (''valid_response'', JBool True),
       (''resumed'', JBool False), (''lower_boundary'', JBool False), (''missing_expected_ids'', JList []),
       (''timeline_order_valid'', JBool True)]\<rparr>"

definition demo_next :: attempt_row where
  "demo_next = (new_attempt 2 ''1'' ''run2'' ''x'' 0 (isoformat_us 3) (isoformat_us 9))\<lparr>attempted := True,
     att_status := ''attempting'', cursor_before := isoformat_us 5\<rparr>"

definition demo_two :: engine where
  "demo_two = empty_engine\<lparr>attempts := [demo_done, demo_next], shadow := [cursor_row_of demo_done]\<rparr>"

lemma demo_valid [simp]: "valid_instant 3" "valid_instant 9"
  by (simp_all add: valid_instant_def us_per_day_def)

lemma demo_order [simp]:
  "isoformat_us 3 < isoformat_us 9" "isoformat_us 5 < isoformat_us 9" "isoformat_us 3 \<le> isoformat_us 5"
  using isoformat_order(3) [of 3 9] isoformat_order(3) [of 5 9] isoformat_order(4) [of 3 5] by simp_all

lemma demo_two_parts [simp]:
  "attempts demo_two = [demo_done, demo_next]" "shadow demo_two = [cursor_row_of demo_done]"
  "att_id demo_done = ''0''" "att_id demo_next = ''1''" "att_source demo_done = ''x''" "att_source demo_next = ''x''"
  "att_start demo_done = isoformat_us 0" "att_end demo_done = isoformat_us 5" "sequence demo_done = 1"
  "att_start demo_next = isoformat_us 3" "att_end demo_next = isoformat_us 9" "sequence demo_next = 2"
  "finalized demo_done" "att_status demo_done = ''complete''" "\<not> finalized demo_next" "attempted demo_next"
  "att_status demo_next = ''attempting''" "cursor_before demo_next = isoformat_us 5"
  by (simp_all add: demo_two_def demo_done_def demo_next_def demo_row0_def new_attempt_def)

lemma demo_two_inv: "engine_inv demo_two"
proof -
  have s: "stamped (isoformat_us t)" if "valid_instant t" for t using that by (auto simp: stamped_def)
  have "proved (att_evidence demo_done)" by (simp add: demo_done_def proved_def dict_get_def)
  then have "\<forall>r \<in> set (attempts demo_two). attempt_ok r \<and> complete_ok r"
    by (simp add: attempt_ok_def complete_ok_def s)
  moreover have "backed (attempts demo_two) (cursor_row_of demo_done)" by (simp add: backed_def cursor_row_of_def)
  ultimately show ?thesis by (simp add: engine_inv_def)
qed

lemma demo_two_shadow: "shadow_of ''x'' demo_two = Some (cursor_row_of demo_done)" "through demo_two ''x'' = isoformat_us 5"
  by (simp_all add: shadow_of_def through_def cursor_row_of_def)

section \<open>What finishing decides\<close>

lemma finish_moves:
  assumes inv: "engine_inv g" and r: "by_attempt i g = Some r" "attempted r" "\<not> finalized r"
    and p: "terminal_proof (fst (proof_inputs e err))" "ev_pages e < 2 ^ 64" "ev_raw_count e < 2 ^ 64"
    and ok: "eligible_cursor r g" "contiguous r g"
    and rfc: "\<And>t. valid_instant t \<Longrightarrow> rfc (isoformat_us t) = Some t"
  obtains g' where "finish_attempt (core_evaluate True) (core_advance rfc True) now i e kept err g = Inr g'"
    "shadow g' = write_cursor r (shadow g)" "by_attempt i g' = Some (finished_row now e kept err
       (verdict_metadata ''complete'' e (snd (proof_inputs e err)) err) \<lparr>cd_status = ''complete'', cd_error = err,
         cd_moved = True, cd_gap = False, cd_shadow = write_cursor r (shadow g)\<rparr> r (att_end r)
       (att_end r \<noteq> cursor_before r) (legacy_of g) r)"
proof -
  have mem: "r \<in> set (attempts g)" "att_id r = i"
    using row_by_Some r(1) unfolding by_attempt_def by fastforce+
  obtain a b where w: "att_start r = isoformat_us a" "att_end r = isoformat_us b" "valid_instant a" "valid_instant b"
    "att_start r < att_end r"
    using inv mem(1) unfolding engine_inv_def attempt_ok_def stamped_def by blast
  then have ab: "a < b" using isoformat_order(3) [of a b] by simp
  have cur: "\<exists>t. valid_instant t \<and> sc_through c = isoformat_us t \<and> t < b"
    if c: "shadow_of (att_source r) g = Some c" for c
  proof -
    have "c \<in> set (shadow g)" using c row_by_Some unfolding shadow_of_def by fastforce
    then obtain t where t: "valid_instant t" "sc_through c = isoformat_us t"
      using inv unfolding engine_inv_def backed_def attempt_ok_def stamped_def by metis
    have "sc_through c < att_end r" using ok(1) c by (simp add: eligible_cursor_def)
    with t w isoformat_order(3) [of t b] show ?thesis by auto
  qed
  have "advance_complete_through rfc (window_claim r g) (att_end r) = Inr (att_end r)"
  proof (cases "shadow_of (att_source r) g")
    case None
    then show ?thesis using w ab rfc
      by (simp add: advance_complete_through_def window_claim_def bindE_def core_parse_def)
  next
    case (Some c)
    from cur [OF Some] obtain t where t: "valid_instant t" "sc_through c = isoformat_us t" "t < b" by blast
    with Some show ?thesis using w ab rfc
      by (simp add: advance_complete_through_def window_claim_def bindE_def core_parse_def)
  qed
  then have adv: "core_advance rfc True (window_claim r g) (att_end r) = Some (att_end r)"
    by (simp add: core_advance_def)
  have "core_evaluate True (fst (proof_inputs e err)) = Some ''complete''"
    using p by (intro core.evaluate_proved) (simp_all add: proof_inputs_def Let_def)
  then have v: "core_verdict (core_evaluate True) (fst (proof_inputs e err)) err = (''complete'', err)"
    by (simp add: core_verdict_def)
  have d: "decide_cursor (core_advance rfc True) r ''complete'' err g = \<lparr>cd_status = ''complete'', cd_error = err,
      cd_moved = True, cd_gap = False, cd_shadow = write_cursor r (shadow g)\<rparr>"
    using adv ok by (simp add: decide_cursor_def Let_def)
  obtain q dd where pd: "proof_inputs e err = (q, dd)" by force
  let ?F = "finished_row now e kept err (verdict_metadata ''complete'' e (snd (proof_inputs e err)) err)
    \<lparr>cd_status = ''complete'', cd_error = err, cd_moved = True, cd_gap = False, cd_shadow = write_cursor r (shadow g)\<rparr>
    r (att_end r) (att_end r \<noteq> cursor_before r) (legacy_of g)"
  have f: "finish_attempt (core_evaluate True) (core_advance rfc True) now i e kept err g =
      Inr ((update_attempt i ?F g)\<lparr>shadow := write_cursor r (shadow g)\<rparr>)"
    using v d r by (simp add: finish_attempt_def pd Let_def write_cursor_row cursor_row_of_def finished_row_def [abs_def])
  have id: "att_id (?F x) = att_id x" for x using finished_ident(1) by (simp add: finished_row_def)
  show thesis
  proof (rule that [OF f])
    show "by_attempt i ((update_attempt i ?F g)\<lparr>shadow := write_cursor r (shadow g)\<rparr>) = Some (?F r)"
      using r(1) mem(2) by (simp add: by_attempt_def update_attempt_def row_by_update_where id)
  qed simp
qed

lemma finish_down:
  assumes r: "by_attempt i g = Some r" "attempted r" "\<not> finalized r"
  shows "\<exists>g' r'. finish_attempt (core_evaluate False) adv now i e kept err g = Inr g' \<and> shadow g' = shadow g \<and>
    by_attempt i g' = Some r' \<and> att_status r' = ''unproven'' \<and> att_error r' = unavailable \<and> finalized r'"
proof -
  obtain q dd where pd: "proof_inputs e err = (q, dd)" by force
  have v: "core_verdict (core_evaluate False) q err = (''unproven'', unavailable)"
    by (simp add: core_verdict_def core.evaluate_down)
  have d: "decide_cursor adv r ''unproven'' unavailable g = \<lparr>cd_status = ''unproven'', cd_error = unavailable,
      cd_moved = False, cd_gap = False, cd_shadow = shadow g\<rparr>"
    by (simp add: decide_cursor_def Let_def)
  have mem: "att_id r = i" using row_by_Some r(1) unfolding by_attempt_def by fastforce
  define F where "F = finished_row now e kept err (verdict_metadata ''unproven'' e dd unavailable)
    \<lparr>cd_status = ''unproven'', cd_error = unavailable, cd_moved = False, cd_gap = False, cd_shadow = shadow g\<rparr> r
    (case row_by sc_source (att_source r) (shadow g) of None \<Rightarrow> cursor_before r | Some x \<Rightarrow> sc_through x) False (legacy_of g)"
  have f: "finish_attempt (core_evaluate False) adv now i e kept err g = Inr ((update_attempt i F g)\<lparr>shadow := shadow g\<rparr>)"
    using d r by (simp add: finish_attempt_def pd v Let_def F_def finished_row_def [abs_def])
  have id: "att_id (F x) = att_id x" for x by (simp add: F_def finished_row_def)
  have "by_attempt i ((update_attempt i F g)\<lparr>shadow := shadow g\<rparr>) = Some (F r)"
    using r(1) mem by (simp add: by_attempt_def update_attempt_def row_by_update_where id)
  moreover have "att_status (F r) = ''unproven''" "att_error (F r) = unavailable" "finalized (F r)"
    by (simp_all add: F_def finished_row_def unavailable_def)
  ultimately show ?thesis using f by (intro exI conjI) (assumption | simp add: update_attempt_def)+
qed

text \<open>
  Liveness and safety of one finish: with the core reachable and reading the engine's stamps, a
  proved traversal of the next contiguous window moves the cursor to its end; when the core
  cannot be reached the attempt is closed as unproven and the cursor stays.
\<close>

theorem finish_decides:
  assumes "engine_inv g" "by_attempt i g = Some r" "attempted r" "\<not> finalized r"
    "terminal_proof (fst (proof_inputs e err))" "ev_pages e < 2 ^ 64" "ev_raw_count e < 2 ^ 64"
    "eligible_cursor r g" "contiguous r g" "\<And>t. valid_instant t \<Longrightarrow> rfc (isoformat_us t) = Some t"
  shows "(\<exists>g' r'. finish_attempt (core_evaluate True) (core_advance rfc True) now i e kept err g = Inr g' \<and>
      through g' (att_source r) = att_end r \<and> by_attempt i g' = Some r' \<and> att_status r' = ''complete'' \<and>
      cursor_after r' = att_end r \<and> retained r' = max 0 kept) \<and>
    (\<exists>g' r'. finish_attempt (core_evaluate False) (core_advance rfc True) now i e kept err g = Inr g' \<and>
      through g' (att_source r) = through g (att_source r) \<and> by_attempt i g' = Some r' \<and>
      att_status r' = ''unproven'' \<and> att_error r' = ''EditorialCoreUnavailable'' \<and> finalized r')"
proof
  from finish_moves [OF assms, of now kept] obtain g' where
    g': "finish_attempt (core_evaluate True) (core_advance rfc True) now i e kept err g = Inr g'"
    "shadow g' = write_cursor r (shadow g)" and r': "by_attempt i g' = Some (finished_row now e kept err
       (verdict_metadata ''complete'' e (snd (proof_inputs e err)) err) \<lparr>cd_status = ''complete'', cd_error = err,
         cd_moved = True, cd_gap = False, cd_shadow = write_cursor r (shadow g)\<rparr> r (att_end r)
       (att_end r \<noteq> cursor_before r) (legacy_of g) r)" by blast
  have "through g' (att_source r) = att_end r"
    by (simp add: through_def shadow_of_def g'(2) write_cursor_row cursor_row_of_def)
  with g'(1) r' show "\<exists>g' r'. finish_attempt (core_evaluate True) (core_advance rfc True) now i e kept err g = Inr g' \<and>
      through g' (att_source r) = att_end r \<and> by_attempt i g' = Some r' \<and> att_status r' = ''complete'' \<and>
      cursor_after r' = att_end r \<and> retained r' = max 0 kept"
    by (intro exI conjI) (assumption | simp add: finished_row_def)+
next
  obtain g' r' where g': "finish_attempt (core_evaluate False) (core_advance rfc True) now i e kept err g = Inr g'"
    "shadow g' = shadow g" "by_attempt i g' = Some r'" "att_status r' = ''unproven''" "att_error r' = unavailable" "finalized r'"
    using finish_down [OF assms(2-4), of "core_advance rfc True" now e kept err] by blast
  have "through g' (att_source r) = through g (att_source r)" using g'(2) by (rule through_cong)
  with g' show "\<exists>g' r'. finish_attempt (core_evaluate False) (core_advance rfc True) now i e kept err g = Inr g' \<and>
      through g' (att_source r) = through g (att_source r) \<and> by_attempt i g' = Some r' \<and>
      att_status r' = ''unproven'' \<and> att_error r' = ''EditorialCoreUnavailable'' \<and> finalized r'"
    unfolding unavailable_def by blast
qed

lemma demo_terminal: "terminal_proof (fst (proof_inputs demo_evidence []))" "ev_pages demo_evidence < 2 ^ 64"
    "ev_raw_count demo_evidence < 2 ^ 64"
  by (simp_all add: proof_inputs_def Let_def terminal_proof_def demo_evidence_def fresh_evidence_def)

lemma demo_two_next: "by_attempt ''1'' demo_two = Some demo_next" "eligible_cursor demo_next demo_two"
    "contiguous demo_next demo_two"
  by (simp_all add: by_attempt_def eligible_cursor_def contiguous_def demo_two_shadow cursor_row_of_def)

lemma demo_rfc_stamp: "valid_instant t \<Longrightarrow> demo_rfc (isoformat_us t) = Some t"
  by (simp add: demo_rfc_def)

theorem finish_decides_witness:
  "\<exists>g'. finish_attempt (core_evaluate True) (core_advance demo_rfc True) ''m'' ''1'' demo_evidence 1 [] demo_two = Inr g' \<and>
     through g' ''x'' = isoformat_us 9"
  using finish_decides [OF demo_two_inv demo_two_next(1) _ _ demo_terminal demo_two_next(2,3), of demo_rfc "''m''" 1]
    demo_rfc_stamp by auto

theorem cursor_moves_without_gap_witness:
  "\<exists>r \<in> set (attempts (fold (engine_step demo_rfc) [EFinish True True ''m'' ''1'' demo_evidence 1 []] demo_two)).
     finalized r \<and> att_status r = ''complete'' \<and> att_source r = ''x'' \<and> att_start r \<le> isoformat_us 5 \<and> isoformat_us 5 < att_end r"
proof -
  let ?op = "EFinish True True ''m'' ''1'' demo_evidence 1 []"
  obtain g' where g': "finish_attempt (core_evaluate True) (core_advance demo_rfc True) ''m'' ''1'' demo_evidence 1 [] demo_two = Inr g'"
    "shadow g' = write_cursor demo_next (shadow demo_two)"
    using finish_moves [OF demo_two_inv demo_two_next(1) _ _ demo_terminal demo_two_next(2,3) demo_rfc_stamp, of "''m''" 1]
    by auto
  then have "fold (engine_step demo_rfc) [?op] demo_two = g'" by (simp add: engine_step_def)
  moreover have "through g' ''x'' = isoformat_us 9"
    by (simp add: through_def shadow_of_def g'(2) write_cursor_row cursor_row_of_def del: demo_two_parts(2))
  ultimately show ?thesis
    using cursor_moves_without_gap [OF demo_two_inv, of "''x''" "isoformat_us 5" demo_rfc "[?op]"]
    by (simp add: demo_two_shadow)
qed

section \<open>Every configured source is accounted for\<close>

lemma put_attempt_present:
  assumes "\<forall>x \<in> set t. att_id x \<noteq> att_id r"
  shows "\<exists>x \<in> set (put_attempt r t). run_id x = run_id r \<and> att_source x = att_source r"
  using assms by (auto simp: put_attempt_def list_ex_iff)

lemma put_attempt_ids: "x \<in> set (put_attempt r t) \<Longrightarrow> att_id x = att_id r \<or> x \<in> set t"
  by (auto simp: put_attempt_def split: if_splits)

lemma plan_loop_evolves: "evolves t (plan_loop env ids run ws we n raws t)"
proof (induction raws arbitrary: n t)
  case (Cons raw rest)
  let ?t = "if truthy (dict_get raw ''enabled'' (JBool True))
     then put_attempt (new_attempt (next_sequence t) (ids n) run (planned_handle env n raw) n ws we) t else t"
  have "evolves t ?t" by (simp add: evolves_put)
  from evolves_trans [OF this Cons.IH] show ?case by (simp only: plan_loop.simps)
qed simp

lemma plan_loop_covers:
  assumes "inj ids"
  shows "(\<forall>x \<in> set t. \<forall>k \<ge> n. att_id x \<noteq> ids k) \<Longrightarrow> i < length raws \<Longrightarrow>
    truthy (dict_get (raws ! i) ''enabled'' (JBool True)) \<Longrightarrow>
    \<exists>x \<in> set (plan_loop env ids run ws we n raws t). run_id x = run \<and> att_source x = planned_handle env (n + i) (raws ! i)"
proof (induction raws arbitrary: n t i)
  case (Cons raw rest)
  define t1 where "t1 = (if truthy (dict_get raw ''enabled'' (JBool True))
     then put_attempt (new_attempt (next_sequence t) (ids n) run (planned_handle env n raw) n ws we) t else t)"
  have step: "plan_loop env ids run ws we n (raw # rest) t = plan_loop env ids run ws we (Suc n) rest t1"
    by (simp add: t1_def)
  show ?case
  proof (cases i)
    case 0
    have "\<exists>x \<in> set t1. run_id x = run \<and> att_source x = planned_handle env n raw"
      using put_attempt_present [of t "new_attempt (next_sequence t) (ids n) run (planned_handle env n raw) n ws we"]
        Cons.prems 0 by (auto simp: t1_def new_attempt_def)
    then obtain x where x: "x \<in> set t1" "run_id x = run" "att_source x = planned_handle env n raw" by blast
    obtain y where "y \<in> set (plan_loop env ids run ws we (Suc n) rest t1)" "ident y = ident x"
      using evolvesE [OF plan_loop_evolves x(1)] by blast
    with x step 0 show ?thesis by (auto simp: ident_def)
  next
    case (Suc j)
    have "att_id x \<noteq> ids k" if "x \<in> set t1" "Suc n \<le> k" for x k
    proof -
      have "ids n \<noteq> ids k" using assms that(2) by (auto simp: inj_eq)
      moreover have "att_id x = ids n \<or> x \<in> set t"
        using that(1) put_attempt_ids [of x "new_attempt (next_sequence t) (ids n) run (planned_handle env n raw) n ws we" t]
        by (auto simp: t1_def new_attempt_def split: if_splits)
      ultimately show ?thesis using Cons.prems(1) that(2) by (metis Suc_leD)
    qed
    then show ?thesis using Cons.IH [of t1 "Suc n" j] Cons.prems(2,3) Suc step by simp
  qed
qed simp

lemma close_run_final:
  assumes "r \<in> set (attempts (close_run now run reason g))" "run_id r = run"
  shows "finalized r"
proof -
  have "attempts (close_run now run reason g) =
      update_where (\<lambda>r. run_id r = run \<and> \<not> finalized r) (close_row now reason g) (attempts g)"
    by (simp add: close_run_def)
  with assms(1) have "r \<in> set (update_where (\<lambda>r. run_id r = run \<and> \<not> finalized r) (close_row now reason g) (attempts g))"
    by (simp only:)
  then obtain y where y: "r = (if run_id y = run \<and> \<not> finalized y then close_row now reason g y else y)"
    by (rule in_update_whereE)
  have "run_id (close_row now reason g y) = run_id y" "finalized (close_row now reason g y)"
    by (simp_all add: close_row_def Let_def)
  with y assms(2) show ?thesis by (auto split: if_splits)
qed

lemma report_rows:
  "set (rep_sources (report run g)) = report_row g ` {r \<in> set (attempts g). run_id r = run}"
  by (simp add: report_def Let_def)

lemma report_row_frame [simp]:
  "att_source (report_row g r) = att_source r" "finalized (report_row g r) = finalized r"
  "att_status (report_row g r) = att_status r"
  by (simp_all add: report_row_def Let_def)

text \<open>
  C7: Zero silent misses: whatever happens after a run was planned, once it is closed its report has a
  final verdict for every enabled source of the configuration, including those that were never
  started; and the run is called healthy only if that verdict is COMPLETE for each of them.
\<close>

theorem run_accounts_for_sources:
  assumes "engine_inv g" "inj ids" "\<forall>r \<in> set (attempts g). \<forall>n. att_id r \<noteq> ids n"
    "plan env ids run sources a b g = Inr g1" "i < length sources"
    "truthy (dict_get (sources ! i) ''enabled'' (JBool True))"
    "g2 = close_run now run reason (fold (engine_step rfc) ops g1)"
  shows "\<exists>r \<in> set (rep_sources (report run g2)). att_source r = planned_handle env i (sources ! i) \<and> finalized r \<and>
    (healthy (report run g2) \<longrightarrow> att_status r = ''complete'')"
proof -
  obtain ws we where g1: "g1 = g\<lparr>attempts := plan_loop env ids run ws we 0 sources (attempts g)\<rparr>"
    using assms(4) by (rule plan_cases)
  obtain x where x: "x \<in> set (attempts g1)" "run_id x = run" "att_source x = planned_handle env i (sources ! i)"
    using plan_loop_covers [OF assms(2), of "attempts g" 0 i sources env run ws we] assms(3,5,6) by (auto simp: g1)
  have inv1: "engine_inv g1" using plan_inv [OF assms(1,4)] by blast
  have g2: "g2 = fold (engine_step rfc) (ops @ [EClose now run reason]) g1"
    by (simp add: assms(7) engine_step_def)
  obtain y where y: "y \<in> set (attempts g2)" "ident y = ident x"
    using evolvesE [OF run_evolves [OF inv1] x(1)] g2 by metis
  then have id: "run_id y = run" "att_source y = planned_handle env i (sources ! i)"
    using x by (simp_all add: ident_def)
  have fin: "finalized y" using close_run_final y(1) id(1) assms(7) by blast
  have mem: "report_row g2 y \<in> set (rep_sources (report run g2))" using y(1) id(1) by (auto simp: report_rows)
  have "healthy (report run g2) \<longrightarrow> (\<forall>r \<in> set (rep_sources (report run g2)). att_status r = ''complete'')"
    by (simp add: report_def Let_def list_all_iff)
  with mem have "healthy (report run g2) \<longrightarrow> att_status (report_row g2 y) = ''complete''" by blast
  with id fin show ?thesis by (intro bexI [OF _ mem] conjI) simp_all
qed

theorem run_accounts_for_sources_witness:
  "\<exists>r \<in> set (rep_sources (report ''run'' (close_run ''n'' ''run'' [] (empty_engine\<lparr>attempts := [demo_row0]\<rparr>)))).
     att_source r = ''x'' \<and> finalized r"
proof -
  have ids: "inj (\<lambda>n. int_text (int n))" by (rule injI) simp
  have p: "plan demo_page_env (\<lambda>n. int_text (int n)) ''run'' [[(''handle'', JStr ''@X'')]] (demo_at 0) (demo_at 5) empty_engine
      = Inr (empty_engine\<lparr>attempts := [demo_row0]\<rparr>)"
  proof -
    have "int_text 0 = ''0''" by code_simp
    then show ?thesis by (simp add: plan_def empty_engine_def next_sequence_def put_attempt_def demo_planned
        demo_row0_def not_le dict_get_def)
  qed
  show ?thesis
    using run_accounts_for_sources [OF empty_engine_inv ids _ p, of 0 _ "''n''" "[]" demo_rfc "[]"]
    by (auto simp: empty_engine_def dict_get_def demo_planned)
qed

text \<open>
  The column \<open>legacy_status\<close> is meant to hold the ledger's last status of the attempt's own source.
  Whatever the source, the value stored is that of the first source of the ledger.
\<close>

theorem legacy_status_ignores_source:
  assumes "finish_attempt ev adv now i e kept err g = Inr g'" "by_attempt i g = Some r" "\<not> finalized r"
    "cursors (source_ledger g) = c # cs"
  shows "\<exists>r'. by_attempt i g' = Some r' \<and> att_source r' = att_source r \<and> legacy_status r' = last_status c"
  using assms(1)
proof (cases rule: finish_cases)
  case (written r1 st err1 cd meta after adv1)
  define F where "F = finished_row now e kept err meta cd r1 after adv1 (legacy_of g)"
  have "r1 = r" using written(1) assms(2) by simp
  have id: "att_id r = i" using row_by_Some assms(2) unfolding by_attempt_def by fastforce
  have keep: "att_id (F x) = att_id x" for x by (simp add: F_def finished_row_def)
  have "by_attempt i g' = Some (F r)"
    using assms(2) id by (simp add: written(8) by_attempt_def update_attempt_def row_by_update_where F_def [symmetric] keep)
  then show ?thesis by (simp add: F_def finished_row_def legacy_of_def assms(4))
qed (use assms(2,3) in simp)

definition demo_legacy :: engine where
  "demo_legacy = demo_two\<lparr>source_ledger := fold ledger_step
     [LFinish ''n'' (demo_result ''other'' ''9'' COMPLETE), LFinish ''n'' (demo_result ''x'' ''9'' PARTIAL)] empty_ledger\<rparr>"

theorem legacy_status_ignores_source_witness:
  "map (\<lambda>c. (c_handle c, last_status c)) (cursors (source_ledger demo_legacy)) = [(''other'', ''complete''), (''x'', ''partial'')] \<and>
   (\<exists>g' r'. finish_attempt (core_evaluate False) (\<lambda>w c. None) ''m'' ''1'' demo_evidence 1 [] demo_legacy = Inr g' \<and>
     by_attempt ''1'' g' = Some r' \<and> att_source r' = ''x'' \<and> legacy_status r' = ''complete'')"
proof -
  have "norm_handle ''other'' = ''other''" by code_simp
  then have l: "map (\<lambda>c. (c_handle c, last_status c)) (cursors (source_ledger demo_legacy)) =
      [(''other'', ''complete''), (''x'', ''partial'')]"
    by (simp add: demo_legacy_def ledger_step_def window_post_init_def demo_result_def Let_def finish_def
        finish_cursor_def upsert_def empty_ledger_def)
  then obtain c cs where c: "cursors (source_ledger demo_legacy) = c # cs" "last_status c = ''complete''"
    by (cases "cursors (source_ledger demo_legacy)") auto
  have r: "by_attempt ''1'' demo_legacy = Some demo_next"
    using demo_two_next(1) by (simp add: by_attempt_def demo_legacy_def)
  obtain g' where g': "finish_attempt (core_evaluate False) (\<lambda>w c. None) ''m'' ''1'' demo_evidence 1 [] demo_legacy = Inr g'"
    using finish_down [OF r, of "\<lambda>w c. None" "''m''" demo_evidence 1 "[]"] demo_two_parts(15,16) by blast
  from legacy_status_ignores_source [OF g' r _ c(1)] l g' c(2) show ?thesis by auto
qed

end
