(* ===== verification/FinalEdit.thy ===== *)
theory FinalEdit
  imports PyJson
begin

text \<open>
  \<open>app/final_edit_capture.py\<close>: the private capture of the operator's final edits. The tables
  \<open>final_edit_sessions\<close> and \<open>final_edits\<close> are lists of rows; a row extends the dataclass it is
  read into by the one column that is never copied out, the private body. SHA-256 is the
  parameter \<open>H\<close>, the clock an argument. Calibration metadata, a JSON column, is modelled as the
  object it encodes.
\<close>

definition PENDING_EDIT :: pystr where "PENDING_EDIT = ''pending_edit''"
definition AWAITING :: pystr where "AWAITING = ''awaiting_confirmation''"
definition CONFIRMED :: pystr where "CONFIRMED = ''confirmed_final_edit''"
definition CANCELLED :: pystr where "CANCELLED = ''cancelled''"
definition EXPIRED :: pystr where "EXPIRED = ''expired''"

lemmas state_names = PENDING_EDIT_def AWAITING_def CONFIRMED_def CANCELLED_def EXPIRED_def

definition session_states :: "pystr set" where
  "session_states = {PENDING_EDIT, AWAITING, CONFIRMED, CANCELLED, EXPIRED}"

definition live :: "pystr \<Rightarrow> bool" where "live st \<longleftrightarrow> st = PENDING_EDIT \<or> st = AWAITING"

record edit_session =
  session_id :: pystr
  es_draft :: pystr
  es_update :: pystr
  es_event :: pystr
  es_segment :: pystr
  es_chat_ref :: pystr
  es_draft_fingerprint :: pystr
  es_factual_fingerprint :: pystr
  es_shadow_fingerprint :: pystr
  es_content_type :: pystr
  prompt_message_id :: int
  candidate_fingerprint :: pystr
  es_status :: pystr
  es_created :: pystr
  expires_at :: pystr
  es_updated :: pystr

record session_row = edit_session +
  candidate_body :: "pystr option"

record final_edit =
  final_edit_id :: pystr
  fe_draft :: pystr
  fe_update :: pystr
  fe_event :: pystr
  fe_segment :: pystr
  fe_chat_ref :: pystr
  fe_factual_fingerprint :: pystr
  fe_shadow_fingerprint :: pystr
  fe_draft_fingerprint :: pystr
  final_user_edit_fingerprint :: pystr
  fe_content_type :: pystr
  fe_created :: pystr
  confirmed_at :: pystr
  confirmation_status :: pystr
  edit_provenance :: pystr
  supersedes :: pystr
  revoked :: bool
  active :: bool
  calibration_eligible :: pystr
  calibration_metadata :: pydict

record edit_row = final_edit +
  final_body :: pystr

record edit_store =
  ttl_seconds :: int
  sessions :: "session_row list"
  edits :: "edit_row list"

section \<open>Fingerprints and identifiers\<close>

definition sep :: pystr where "sep = [char_of (31 :: nat)]"

definition fingerprint :: "(pystr \<Rightarrow> pystr) \<Rightarrow> pystr \<Rightarrow> pystr \<Rightarrow> pystr" where
  "fingerprint H namespace v = H (namespace @ sep @ v)"

definition privacy_ref :: "(pystr \<Rightarrow> pystr) \<Rightarrow> pystr \<Rightarrow> pystr \<Rightarrow> pystr" where
  "privacy_ref H namespace v = take 24 (fingerprint H namespace v)"

definition body_fingerprint :: "(pystr \<Rightarrow> pystr) \<Rightarrow> pystr \<Rightarrow> pystr" where
  "body_fingerprint H b = fingerprint H ''final-user-edit-v1'' b"

definition make_session_id :: "(pystr \<Rightarrow> pystr) \<Rightarrow> pystr \<Rightarrow> instant \<Rightarrow> pystr" where
  "make_session_id H d now = ''fes_'' @ take 20 (fingerprint H ''final-edit-session-v1'' (d @ sep @ isoformat now))"

definition make_final_edit_id :: "(pystr \<Rightarrow> pystr) \<Rightarrow> pystr \<Rightarrow> pystr \<Rightarrow> pystr \<Rightarrow> pystr" where
  "make_final_edit_id H d fp at = ''fed_'' @ take 24 (fingerprint H ''final-edit-record-v1'' (d @ sep @ fp @ sep @ at))"

definition open_store :: "int \<Rightarrow> edit_store" where
  "open_store ttl = \<lparr>ttl_seconds = max 60 (min ttl 86400), sessions = [], edits = []\<rparr>"

section \<open>Sessions\<close>

definition update_sessions :: "(session_row \<Rightarrow> bool) \<Rightarrow> (session_row \<Rightarrow> session_row) \<Rightarrow> edit_store \<Rightarrow> nat \<times> edit_store" where
  "update_sessions P f st = (rowcount P (sessions st), st\<lparr>sessions := update_where P f (sessions st)\<rparr>)"

definition close_session :: "pystr \<Rightarrow> instant \<Rightarrow> session_row \<Rightarrow> session_row" where
  "close_session status now s =
     s\<lparr>es_status := status, candidate_body := None, candidate_fingerprint := [], es_updated := isoformat now\<rparr>"

definition expire_stale :: "instant \<Rightarrow> edit_store \<Rightarrow> nat \<times> edit_store" where
  "expire_stale now = update_sessions (\<lambda>s. live (es_status s) \<and> expires_at s \<le> isoformat now) (close_session EXPIRED now)"

definition cancel_session :: "pystr \<Rightarrow> instant \<Rightarrow> edit_store \<Rightarrow> bool \<times> edit_store" where
  "cancel_session i now st =
     (let (n, st') = update_sessions (\<lambda>s. session_id s = i \<and> live (es_status s)) (close_session CANCELLED now) st
      in (0 < n, st'))"

definition cancel_open_for_draft :: "pystr \<Rightarrow> instant \<Rightarrow> edit_store \<Rightarrow> nat \<times> edit_store" where
  "cancel_open_for_draft d now =
     update_sessions (\<lambda>s. es_draft s = d \<and> live (es_status s)) (close_session CANCELLED now)"

definition session_row_by :: "pystr \<Rightarrow> edit_store \<Rightarrow> session_row option" where
  "session_row_by i st = row_by session_id i (sessions st)"

text \<open>\<open>_session\<close>: the dataclass of a row, without the body; an unknown status reads as cancelled.\<close>

definition session_of :: "session_row \<Rightarrow> edit_session" where
  "session_of s = edit_session.truncate (s\<lparr>es_status := (if es_status s \<in> session_states then es_status s else CANCELLED)\<rparr>)"

definition get_session :: "pystr \<Rightarrow> instant option \<Rightarrow> edit_store \<Rightarrow> edit_session option \<times> edit_store" where
  "get_session i expire st =
     (let st' = (case expire of None \<Rightarrow> st | Some now \<Rightarrow> snd (expire_stale now st))
      in (map_option session_of (session_row_by i st'), st'))"

record session_request =
  rq_draft :: pystr
  rq_update :: pystr
  rq_chat_ref :: pystr
  rq_draft_fingerprint :: pystr
  rq_event :: pystr
  rq_segment :: pystr
  rq_factual_fingerprint :: pystr
  rq_shadow_fingerprint :: pystr
  rq_content_type :: pystr

definition new_session :: "(pystr \<Rightarrow> pystr) \<Rightarrow> int \<Rightarrow> session_request \<Rightarrow> instant \<Rightarrow> session_row" where
  "new_session H ttl q now =
     \<lparr>session_id = make_session_id H (rq_draft q) now, es_draft = rq_draft q, es_update = rq_update q,
      es_event = take 80 (rq_event q), es_segment = take 80 (rq_segment q), es_chat_ref = take 64 (rq_chat_ref q),
      es_draft_fingerprint = take 64 (rq_draft_fingerprint q),
      es_factual_fingerprint = take 64 (rq_factual_fingerprint q),
      es_shadow_fingerprint = take 64 (rq_shadow_fingerprint q),
      es_content_type = take 80 (or_default (rq_content_type q) ''general''), prompt_message_id = 0,
      candidate_fingerprint = [], es_status = PENDING_EDIT, es_created = isoformat now,
      expires_at = isoformat (now + ttl * us_per_s), es_updated = isoformat now, candidate_body = None\<rparr>"

text \<open>The housekeeping commits on its own before the insert, which may violate the primary key.\<close>

definition start_session ::
    "(pystr \<Rightarrow> pystr) \<Rightarrow> session_request \<Rightarrow> instant \<Rightarrow> edit_store \<Rightarrow> (py_exc + edit_session option) \<times> edit_store" where
  "start_session H q now st =
     (let st1 = snd (cancel_open_for_draft (rq_draft q) now (snd (expire_stale now st)));
          s = new_session H (ttl_seconds st) q now
      in if session_id s \<in> session_id ` set (sessions st1) then (Inl IntegrityError, st1)
         else let st2 = st1\<lparr>sessions := sessions st1 @ [s]\<rparr>
              in (Inr (fst (get_session (session_id s) None st2)), st2))"

definition set_prompt_message :: "pystr \<Rightarrow> int \<Rightarrow> instant \<Rightarrow> edit_store \<Rightarrow> bool \<times> edit_store" where
  "set_prompt_message i m now st =
     (let (n, st') = update_sessions (\<lambda>s. session_id s = i \<and> es_status s = PENDING_EDIT)
        (\<lambda>s. s\<lparr>prompt_message_id := max 0 m, es_updated := isoformat now\<rparr>) st
      in (0 < n, st'))"

text \<open>\<open>ORDER BY column DESC LIMIT 1\<close>; among equal values the sort is stable.\<close>

definition latest_by :: "('r \<Rightarrow> pystr) \<Rightarrow> 'r list \<Rightarrow> 'r option" where
  "latest_by f rs = (case rs of [] \<Rightarrow> None
     | r # rs \<Rightarrow> Some (foldl (\<lambda>best x. if f best < f x then x else best) r rs))"

definition find_live_by_prompt ::
    "int \<Rightarrow> pystr \<Rightarrow> instant \<Rightarrow> edit_store \<Rightarrow> edit_session option \<times> edit_store" where
  "find_live_by_prompt m chat now st =
     (let st' = snd (expire_stale now st)
      in (map_option session_of (latest_by es_created (filter (\<lambda>s. prompt_message_id s = m \<and>
            es_chat_ref s = chat \<and> es_status s = PENDING_EDIT) (sessions st'))), st'))"

definition max_chars :: nat where "max_chars = 20000"

definition receive_user_text :: "(pystr \<Rightarrow> pystr) \<Rightarrow> pystr \<Rightarrow> pystr \<Rightarrow> pystr \<Rightarrow> pystr \<Rightarrow> instant \<Rightarrow> edit_store \<Rightarrow>
    edit_session option \<times> edit_store" where
  "receive_user_text H i txt fp chat now st =
     (let (found, st1) = get_session i (Some now) st; body = py_strip txt in
      case found of
        None \<Rightarrow> (None, st1)
      | Some s \<Rightarrow>
          if es_status s \<noteq> PENDING_EDIT \<or> es_chat_ref s \<noteq> chat \<or> es_draft_fingerprint s \<noteq> fp
             \<or> body = [] \<or> max_chars < length body then (None, st1)
          else let (n, st2) = update_sessions (\<lambda>s. session_id s = i \<and> es_status s = PENDING_EDIT)
                     (\<lambda>s. s\<lparr>candidate_body := Some body, candidate_fingerprint := body_fingerprint H body,
                        es_status := AWAITING, es_updated := isoformat now\<rparr>) st1
               in if n \<noteq> 1 then (None, st2) else (fst (get_session i None st2), st2))"

definition candidate_text :: "pystr \<Rightarrow> edit_store \<Rightarrow> pystr" where
  "candidate_text i st = (case session_row_by i st of
       None \<Rightarrow> [] | Some s \<Rightarrow> (case candidate_body s of None \<Rightarrow> [] | Some b \<Rightarrow> b))"

definition replace_candidate :: "pystr \<Rightarrow> instant \<Rightarrow> edit_store \<Rightarrow> bool \<times> edit_store" where
  "replace_candidate i now st =
     (let (found, st1) = get_session i (Some now) st in
      case found of
        None \<Rightarrow> (False, st1)
      | Some s \<Rightarrow>
          if es_status s \<noteq> AWAITING then (False, st1)
          else let (n, st2) = update_sessions (\<lambda>s. session_id s = i \<and> es_status s = AWAITING)
                 (\<lambda>s. s\<lparr>candidate_body := None, candidate_fingerprint := [], prompt_message_id := 0,
                    es_status := PENDING_EDIT, expires_at := isoformat (now + ttl_seconds st * us_per_s),
                    es_updated := isoformat now\<rparr>) st1
               in (n = 1, st2))"

section \<open>Confirmed edits\<close>

definition latest_active :: "pystr \<Rightarrow> edit_store \<Rightarrow> edit_row option" where
  "latest_active d st = latest_by confirmed_at (filter (\<lambda>e. fe_draft e = d \<and> active e \<and> \<not> revoked e \<and>
     confirmation_status e = CONFIRMED) (edits st))"

definition edit_by :: "pystr \<Rightarrow> edit_store \<Rightarrow> edit_row option" where
  "edit_by i st = row_by final_edit_id i (edits st)"

definition get_final_edit :: "pystr \<Rightarrow> edit_store \<Rightarrow> final_edit option" where
  "get_final_edit i st = map_option final_edit.truncate (edit_by i st)"

definition final_text :: "pystr \<Rightarrow> edit_store \<Rightarrow> pystr" where
  "final_text i st = (case edit_by i st of None \<Rightarrow> [] | Some e \<Rightarrow> final_body e)"

definition eligible_value :: "pystr \<Rightarrow> pystr" where
  "eligible_value v = (if v \<in> {''undecided'', ''eligible'', ''ineligible''} then v else ''undecided'')"

definition metadata_of :: "json \<Rightarrow> pydict" where
  "metadata_of m = (case m of JObj d \<Rightarrow> d | _ \<Rightarrow> [])"

definition new_edit :: "(pystr \<Rightarrow> pystr) \<Rightarrow> edit_session \<Rightarrow> pystr \<Rightarrow> pystr \<Rightarrow> pystr \<Rightarrow> pydict \<Rightarrow> instant \<Rightarrow> edit_row" where
  "new_edit H s body prev elig meta now =
     (let at = isoformat now; fp = body_fingerprint H body in
      \<lparr>final_edit_id = make_final_edit_id H (es_draft s) fp at, fe_draft = es_draft s, fe_update = es_update s,
       fe_event = es_event s, fe_segment = es_segment s, fe_chat_ref = es_chat_ref s,
       fe_factual_fingerprint = es_factual_fingerprint s, fe_shadow_fingerprint = es_shadow_fingerprint s,
       fe_draft_fingerprint = es_draft_fingerprint s, final_user_edit_fingerprint = fp,
       fe_content_type = es_content_type s, fe_created = es_created s, confirmed_at = at,
       confirmation_status = CONFIRMED, edit_provenance = ''user_confirmed'', supersedes = prev,
       revoked = False, active = True, calibration_eligible = elig, calibration_metadata = meta,
       final_body = body\<rparr>)"

text \<open>The three writes of a confirmation are one transaction: a key violation undoes them all.\<close>

definition confirm_session :: "(pystr \<Rightarrow> pystr) \<Rightarrow> pystr \<Rightarrow> pystr \<Rightarrow> pystr \<Rightarrow> pystr \<Rightarrow> json \<Rightarrow> instant \<Rightarrow> edit_store \<Rightarrow>
    (py_exc + final_edit option) \<times> edit_store" where
  "confirm_session H i fp chat elig meta now st =
     (let (found, st1) = get_session i (Some now) st; body = candidate_text i st1 in
      case found of
        None \<Rightarrow> (Inr None, st1)
      | Some s \<Rightarrow>
          if es_status s \<noteq> AWAITING \<or> es_chat_ref s \<noteq> chat \<or> es_draft_fingerprint s \<noteq> fp \<or> body = []
             \<or> body_fingerprint H body \<noteq> candidate_fingerprint s then (Inr None, st1)
          else if \<not> serializable (JObj (metadata_of meta)) then (Inl TypeError, st1)
          else let prev = (case latest_active (es_draft s) st1 of None \<Rightarrow> [] | Some e \<Rightarrow> final_edit_id e);
                   e = new_edit H s body prev (eligible_value (or_default elig ''undecided'')) (metadata_of meta) now;
                   es1 = (if prev = [] then edits st1
                     else update_where (\<lambda>e. final_edit_id e = prev) (\<lambda>e. e\<lparr>active := False\<rparr>) (edits st1))
               in if final_edit_id e \<in> final_edit_id ` set es1 then (Inl IntegrityError, st1)
                  else let st2 = st1\<lparr>edits := es1 @ [e],
                         sessions := update_where (\<lambda>x. session_id x = session_id s)
                           (\<lambda>x. x\<lparr>es_status := CONFIRMED, candidate_body := None, es_updated := isoformat now\<rparr>)
                           (sessions st1)\<rparr>
                       in (Inr (get_final_edit (final_edit_id e) st2), st2))"

definition update_calibration_metadata :: "pystr \<Rightarrow> pystr \<Rightarrow> json \<Rightarrow> edit_store \<Rightarrow> (py_exc + bool) \<times> edit_store" where
  "update_calibration_metadata i elig meta st =
     (if \<not> serializable (JObj (metadata_of meta)) then (Inl TypeError, st)
      else (Inr (rowcount (\<lambda>e. final_edit_id e = i) (edits st) = 1),
            st\<lparr>edits := update_where (\<lambda>e. final_edit_id e = i)
              (\<lambda>e. e\<lparr>calibration_eligible := eligible_value elig, calibration_metadata := metadata_of meta\<rparr>) (edits st)\<rparr>))"

definition revoke_final_edit :: "pystr \<Rightarrow> edit_store \<Rightarrow> bool \<times> edit_store" where
  "revoke_final_edit i st =
     (rowcount (\<lambda>e. final_edit_id e = i) (edits st) = 1,
      st\<lparr>edits := update_where (\<lambda>e. final_edit_id e = i) (\<lambda>e. e\<lparr>revoked := True, active := False\<rparr>) (edits st)\<rparr>)"

definition counted :: "edit_row \<Rightarrow> bool" where
  "counted e \<longleftrightarrow> active e \<and> \<not> revoked e \<and> confirmation_status e = CONFIRMED \<and> edit_provenance e = ''user_confirmed''"

definition confirmed_real_final_edit_count :: "edit_store \<Rightarrow> nat" where
  "confirmed_real_final_edit_count st = length (filter counted (edits st))"

definition confirmed_counts_by_content_type :: "edit_store \<Rightarrow> (pystr \<times> nat) list" where
  "confirmed_counts_by_content_type st =
     map (\<lambda>c. (c, length (filter (\<lambda>e. counted e \<and> fe_content_type e = c) (edits st))))
       (sort (remdups (map fe_content_type (filter counted (edits st)))))"

section \<open>Metadata for generic state\<close>

definition session_metadata :: "pystr \<Rightarrow> edit_store \<Rightarrow> pydict" where
  "session_metadata i st = (case fst (get_session i None st) of
       None \<Rightarrow> []
     | Some s \<Rightarrow>
         [(''version'', JInt 1), (''mode'', JStr ''capture_only''), (''session_id'', JStr (session_id s)),
          (''draft_id'', JStr (es_draft s)), (''update_id'', JStr (es_update s)), (''event_id'', JStr (es_event s)),
          (''segment_id'', JStr (es_segment s)), (''review_chat_ref'', JStr (es_chat_ref s)),
          (''authoritative_review_draft_fingerprint'', JStr (es_draft_fingerprint s)),
          (''original_factual_fingerprint'', JStr (es_factual_fingerprint s)),
          (''shadow_style_candidate_fingerprint'', JStr (es_shadow_fingerprint s)),
          (''candidate_fingerprint'', JStr (candidate_fingerprint s)), (''content_type'', JStr (es_content_type s)),
          (''status'', JStr (es_status s)), (''created_at'', JStr (es_created s)), (''expires_at'', JStr (expires_at s)),
          (''text_persisted_in_generic_state'', JBool False), (''auto_learn'', JBool False)])"

definition record_metadata :: "final_edit \<Rightarrow> pydict" where
  "record_metadata e =
     [(''version'', JInt 1), (''mode'', JStr ''capture_only''), (''final_edit_id'', JStr (final_edit_id e)),
      (''draft_id'', JStr (fe_draft e)), (''update_id'', JStr (fe_update e)), (''event_id'', JStr (fe_event e)),
      (''segment_id'', JStr (fe_segment e)), (''review_chat_ref'', JStr (fe_chat_ref e)),
      (''original_factual_fingerprint'', JStr (fe_factual_fingerprint e)),
      (''shadow_style_candidate_fingerprint'', JStr (fe_shadow_fingerprint e)),
      (''authoritative_review_draft_fingerprint'', JStr (fe_draft_fingerprint e)),
      (''final_user_edit_fingerprint'', JStr (final_user_edit_fingerprint e)),
      (''content_type'', JStr (fe_content_type e)), (''created_at'', JStr (fe_created e)),
      (''confirmed_at'', JStr (confirmed_at e)), (''confirmation_status'', JStr (confirmation_status e)),
      (''edit_provenance'', JStr (edit_provenance e)), (''supersedes_final_edit_id'', JStr (supersedes e)),
      (''revoked'', JBool (revoked e)), (''active'', JBool (active e)),
      (''calibration_eligible'', JStr (calibration_eligible e)),
      (''calibration_metadata'', JObj (calibration_metadata e)),
      (''text_persisted_in_generic_state'', JBool False), (''auto_learn'', JBool False)]"

definition forbidden_keys :: "pystr set" where
  "forbidden_keys = {''final_body'', ''candidate_body'', ''final_user_text'', ''factual_text'', ''candidate_text''}"

fun metadata_contains_private_body :: "json \<Rightarrow> bool" where
  "metadata_contains_private_body (JObj d) =
     list_ex (\<lambda>kv. fst kv \<in> forbidden_keys \<or> metadata_contains_private_body (snd kv)) d"
| "metadata_contains_private_body (JList xs) = list_ex metadata_contains_private_body xs"
| "metadata_contains_private_body _ = False"

section \<open>The store as a machine\<close>

datatype edit_op =
    Start session_request instant
  | SetPrompt pystr int instant
  | FindPrompt int pystr instant
  | Receive pystr pystr pystr pystr instant
  | Replace pystr instant
  | Cancel pystr instant
  | CancelDraft pystr instant
  | Expire instant
  | Confirm pystr pystr pystr pystr json instant
  | UpdateMetadata pystr pystr json
  | Revoke pystr

fun edit_step :: "(pystr \<Rightarrow> pystr) \<Rightarrow> edit_op \<Rightarrow> edit_store \<Rightarrow> edit_store" where
  "edit_step H (Start q now) st = snd (start_session H q now st)"
| "edit_step H (SetPrompt i m now) st = snd (set_prompt_message i m now st)"
| "edit_step H (FindPrompt m chat now) st = snd (find_live_by_prompt m chat now st)"
| "edit_step H (Receive i txt fp chat now) st = snd (receive_user_text H i txt fp chat now st)"
| "edit_step H (Replace i now) st = snd (replace_candidate i now st)"
| "edit_step H (Cancel i now) st = snd (cancel_session i now st)"
| "edit_step H (CancelDraft d now) st = snd (cancel_open_for_draft d now st)"
| "edit_step H (Expire now) st = snd (expire_stale now st)"
| "edit_step H (Confirm i fp chat elig meta now) st = snd (confirm_session H i fp chat elig meta now st)"
| "edit_step H (UpdateMetadata i elig meta) st = snd (update_calibration_metadata i elig meta st)"
| "edit_step H (Revoke i) st = snd (revoke_final_edit i st)"

text \<open>A body the store accepts: non-empty, stripped, of at most 20000 characters.\<close>

definition body_ok :: "pystr \<Rightarrow> bool" where
  "body_ok b \<longleftrightarrow> b \<noteq> [] \<and> length b \<le> max_chars \<and> py_strip b = b"

text \<open>A session holds a body exactly while it awaits confirmation, with that body's fingerprint.\<close>

definition session_ok :: "(pystr \<Rightarrow> pystr) \<Rightarrow> session_row \<Rightarrow> bool" where
  "session_ok H s \<longleftrightarrow> es_status s \<in> session_states \<and> (case candidate_body s of
       None \<Rightarrow> es_status s \<noteq> AWAITING
     | Some b \<Rightarrow> es_status s = AWAITING \<and> candidate_fingerprint s = body_fingerprint H b \<and> body_ok b)"

definition edit_ok :: "(pystr \<Rightarrow> pystr) \<Rightarrow> edit_row \<Rightarrow> bool" where
  "edit_ok H e \<longleftrightarrow> final_edit_id e \<noteq> [] \<and> final_user_edit_fingerprint e = body_fingerprint H (final_body e) \<and>
     body_ok (final_body e) \<and> confirmation_status e = CONFIRMED \<and> edit_provenance e = ''user_confirmed'' \<and>
     \<not> (active e \<and> revoked e)"

definition is_live :: "session_row \<Rightarrow> bool" where "is_live s = live (es_status s)"

definition sessions_inv :: "(pystr \<Rightarrow> pystr) \<Rightarrow> session_row list \<Rightarrow> bool" where
  "sessions_inv H ss \<longleftrightarrow> unique_on session_id ss \<and> list_all (session_ok H) ss \<and>
     unique_on es_draft (filter is_live ss)"

definition edits_inv :: "(pystr \<Rightarrow> pystr) \<Rightarrow> edit_row list \<Rightarrow> bool" where
  "edits_inv H es \<longleftrightarrow> unique_on final_edit_id es \<and> list_all (edit_ok H) es \<and> unique_on fe_draft (filter active es)"

definition edit_inv :: "(pystr \<Rightarrow> pystr) \<Rightarrow> edit_store \<Rightarrow> bool" where
  "edit_inv H st \<longleftrightarrow> sessions_inv H (sessions st) \<and> edits_inv H (edits st)"

text \<open>Progress of the session table: the invariant is kept and closed sessions stay as they are.\<close>

definition sessions_step :: "(pystr \<Rightarrow> pystr) \<Rightarrow> session_row list \<Rightarrow> session_row list \<Rightarrow> bool" where
  "sessions_step H ss ss' \<longleftrightarrow> (sessions_inv H ss \<longrightarrow>
     sessions_inv H ss' \<and> (\<forall>s \<in> set ss. \<not> is_live s \<longrightarrow> s \<in> set ss'))"

lemma sessions_step_refl [simp, intro]: "sessions_step H ss ss"
  by (simp add: sessions_step_def)

lemma sessions_step_trans [trans]: "sessions_step H a b \<Longrightarrow> sessions_step H b c \<Longrightarrow> sessions_step H a c"
  by (simp add: sessions_step_def)

lemma sessions_step_update:
  assumes "\<And>s. sessions_inv H ss \<Longrightarrow> s \<in> set ss \<Longrightarrow> P s \<Longrightarrow> session_ok H s \<Longrightarrow>
    is_live s \<and> session_ok H (f s) \<and> session_id (f s) = session_id s \<and> es_draft (f s) = es_draft s"
  shows "sessions_step H ss (update_where P f ss)"
  unfolding sessions_step_def
proof (intro impI conjI ballI)
  assume inv: "sessions_inv H ss"
  then have ok: "s \<in> set ss \<Longrightarrow> session_ok H s" for s by (simp add: sessions_inv_def list_all_iff)
  have "map session_id (update_where P f ss) = map session_id ss"
    using assms [OF inv] ok by (simp add: update_where_def)
  moreover have "list_all (session_ok H) (update_where P f ss)"
    using assms [OF inv] ok by (auto simp: list_all_iff set_update_where)
  moreover have "unique_on es_draft (filter is_live (update_where P f ss))"
    using assms [OF inv] ok inv by (intro unique_filter_update) (auto simp: sessions_inv_def)
  ultimately show "sessions_inv H (update_where P f ss)"
    using inv by (simp add: sessions_inv_def unique_on_def)
  show "s \<in> set (update_where P f ss)" if "s \<in> set ss" "\<not> is_live s" for s
    using that assms [OF inv] ok by (intro kept_update_where) auto
qed

lemma live_simps [simp]:
  "live PENDING_EDIT" "live AWAITING" "\<not> live CONFIRMED" "\<not> live CANCELLED" "\<not> live EXPIRED"
  by (simp_all add: live_def state_names)

lemma known_states [simp]:
  "PENDING_EDIT \<in> session_states" "AWAITING \<in> session_states" "CONFIRMED \<in> session_states"
  "CANCELLED \<in> session_states" "EXPIRED \<in> session_states"
  by (simp_all add: session_states_def)

lemma status_distinct [simp]:
  "PENDING_EDIT \<noteq> AWAITING" "AWAITING \<noteq> PENDING_EDIT" "CONFIRMED \<noteq> AWAITING" "CANCELLED \<noteq> AWAITING" "EXPIRED \<noteq> AWAITING"
  by (simp_all add: state_names)

lemma closed_ok [simp]:
  "session_ok H (close_session CANCELLED now s)" "session_ok H (close_session EXPIRED now s)"
  by (simp_all add: close_session_def session_ok_def)

lemma close_session_frame [simp]:
  "session_id (close_session x now s) = session_id s" "es_draft (close_session x now s) = es_draft s"
  "es_status (close_session x now s) = x"
  by (simp_all add: close_session_def)

lemma update_sessions_simps [simp]:
  "sessions (snd (update_sessions P f st)) = update_where P f (sessions st)"
  "edits (snd (update_sessions P f st)) = edits st"
  "ttl_seconds (snd (update_sessions P f st)) = ttl_seconds st"
  by (simp_all add: update_sessions_def)

lemma expire_step: "sessions_step H (sessions st) (sessions (snd (expire_stale now st)))"
  unfolding expire_stale_def update_sessions_simps
  by (rule sessions_step_update) (simp add: is_live_def)

lemma cancel_draft_step: "sessions_step H (sessions st) (sessions (snd (cancel_open_for_draft d now st)))"
  unfolding cancel_open_for_draft_def update_sessions_simps
  by (rule sessions_step_update) (simp add: is_live_def)

lemma housekeeping_edits [simp]:
  "edits (snd (expire_stale now st)) = edits st" "edits (snd (cancel_open_for_draft d now st)) = edits st"
  by (simp_all add: expire_stale_def cancel_open_for_draft_def)

lemma get_session_snd: "snd (get_session i (Some now) st) = snd (expire_stale now st)"
  by (simp add: get_session_def Let_def)

lemma draft_cancelled:
  "s \<in> set (sessions (snd (cancel_open_for_draft d now st))) \<Longrightarrow> is_live s \<Longrightarrow> es_draft s \<noteq> d"
  by (auto simp: cancel_open_for_draft_def is_live_def elim!: in_update_whereE split: if_splits)

lemma session_of_simps [simp]:
  "session_id (session_of s) = session_id s" "es_draft (session_of s) = es_draft s"
  "es_chat_ref (session_of s) = es_chat_ref s" "es_draft_fingerprint (session_of s) = es_draft_fingerprint s"
  "candidate_fingerprint (session_of s) = candidate_fingerprint s"
  "es_status (session_of s) = (if es_status s \<in> session_states then es_status s else CANCELLED)"
  by (simp_all add: session_of_def edit_session.truncate_def)

lemma sessions_step_append:
  assumes "session_id s \<notin> session_id ` set ss" "session_ok H s" "\<And>x. x \<in> set ss \<Longrightarrow> is_live x \<Longrightarrow> es_draft x \<noteq> es_draft s"
  shows "sessions_step H ss (ss @ [s])"
  using assms(1,2) by (auto simp: sessions_step_def sessions_inv_def unique_on_def dest: assms(3))

lemma start_step: "sessions_step H (sessions st) (sessions (snd (start_session H q now st)))"
proof -
  define st1 where "st1 = snd (cancel_open_for_draft (rq_draft q) now (snd (expire_stale now st)))"
  have one: "sessions_step H (sessions st) (sessions st1)"
    unfolding st1_def by (rule sessions_step_trans [OF expire_step cancel_draft_step])
  let ?s = "new_session H (ttl_seconds st) q now"
  have ok: "session_ok H ?s" by (simp add: new_session_def session_ok_def)
  show ?thesis
  proof (cases "session_id ?s \<in> session_id ` set (sessions st1)")
    case True
    with one show ?thesis by (simp add: start_session_def Let_def st1_def [symmetric])
  next
    case False
    have "es_draft x \<noteq> es_draft ?s" if "x \<in> set (sessions st1)" "is_live x" for x
      using draft_cancelled [OF that [unfolded st1_def]] by (simp add: new_session_def)
    with False ok have "sessions_step H (sessions st1) (sessions st1 @ [?s])" by (intro sessions_step_append)
    with one False show ?thesis
      by (simp add: start_session_def Let_def st1_def [symmetric] sessions_step_trans)
  qed
qed

lemma set_prompt_step: "sessions_step H (sessions st) (sessions (snd (set_prompt_message i m now st)))"
proof -
  have "sessions (snd (set_prompt_message i m now st)) =
      update_where (\<lambda>s. session_id s = i \<and> es_status s = PENDING_EDIT)
        (\<lambda>s. s\<lparr>prompt_message_id := max 0 m, es_updated := isoformat now\<rparr>) (sessions st)"
    by (simp add: set_prompt_message_def update_sessions_def)
  also have "sessions_step H (sessions st) \<dots>"
    by (rule sessions_step_update) (simp add: is_live_def session_ok_def split: option.splits)
  finally show ?thesis .
qed

lemma cancel_step: "sessions_step H (sessions st) (sessions (snd (cancel_session i now st)))"
proof -
  have "sessions (snd (cancel_session i now st)) =
      update_where (\<lambda>s. session_id s = i \<and> live (es_status s)) (close_session CANCELLED now) (sessions st)"
    by (simp add: cancel_session_def update_sessions_def)
  also have "sessions_step H (sessions st) \<dots>" by (rule sessions_step_update) (simp add: is_live_def)
  finally show ?thesis .
qed

lemma receive_step: "sessions_step H (sessions st) (sessions (snd (receive_user_text H i txt fp chat now st)))"
proof -
  define st1 where "st1 = snd (expire_stale now st)"
  let ?b = "py_strip txt"
  let ?put = "update_where (\<lambda>s. session_id s = i \<and> es_status s = PENDING_EDIT)
     (\<lambda>s. s\<lparr>candidate_body := Some ?b, candidate_fingerprint := body_fingerprint H ?b,
        es_status := AWAITING, es_updated := isoformat now\<rparr>) (sessions st1)"
  have "sessions (snd (receive_user_text H i txt fp chat now st)) = sessions st1 \<or>
      body_ok ?b \<and> sessions (snd (receive_user_text H i txt fp chat now st)) = ?put"
    by (simp add: receive_user_text_def get_session_def Let_def st1_def [symmetric] update_sessions_def
        body_ok_def not_less split: option.split)
  moreover have "sessions_step H (sessions st1) ?put" if "body_ok ?b"
    by (rule sessions_step_update) (simp add: is_live_def session_ok_def that)
  moreover have "sessions_step H (sessions st) (sessions st1)" unfolding st1_def by (rule expire_step)
  ultimately show ?thesis by (auto intro: sessions_step_trans)
qed

lemma replace_step: "sessions_step H (sessions st) (sessions (snd (replace_candidate i now st)))"
proof -
  define st1 where "st1 = snd (expire_stale now st)"
  let ?put = "update_where (\<lambda>s. session_id s = i \<and> es_status s = AWAITING)
     (\<lambda>s. s\<lparr>candidate_body := None, candidate_fingerprint := [], prompt_message_id := 0,
        es_status := PENDING_EDIT, expires_at := isoformat (now + ttl_seconds st * us_per_s),
        es_updated := isoformat now\<rparr>) (sessions st1)"
  have "sessions (snd (replace_candidate i now st)) = sessions st1 \<or> sessions (snd (replace_candidate i now st)) = ?put"
    by (simp add: replace_candidate_def get_session_def Let_def st1_def [symmetric] update_sessions_def
        split: option.split)
  moreover have "sessions_step H (sessions st1) ?put"
    by (rule sessions_step_update) (simp add: is_live_def session_ok_def)
  moreover have "sessions_step H (sessions st) (sessions st1)" unfolding st1_def by (rule expire_step)
  ultimately show ?thesis by (auto intro: sessions_step_trans)
qed

section \<open>What a confirmation does\<close>

definition previous_id :: "edit_session \<Rightarrow> edit_store \<Rightarrow> pystr" where
  "previous_id s st = (case latest_active (es_draft s) st of None \<Rightarrow> [] | Some e \<Rightarrow> final_edit_id e)"

definition superseded :: "pystr \<Rightarrow> edit_row list \<Rightarrow> edit_row list" where
  "superseded prev es = (if prev = [] then es
     else update_where (\<lambda>e. final_edit_id e = prev) (\<lambda>e. e\<lparr>active := False\<rparr>) es)"

definition confirmed_store :: "edit_row \<Rightarrow> edit_session \<Rightarrow> instant \<Rightarrow> edit_store \<Rightarrow> edit_store" where
  "confirmed_store e s now st = st\<lparr>edits := superseded (supersedes e) (edits st) @ [e],
     sessions := update_where (\<lambda>x. session_id x = session_id s)
       (\<lambda>x. x\<lparr>es_status := CONFIRMED, candidate_body := None, es_updated := isoformat now\<rparr>) (sessions st)\<rparr>"

text \<open>A confirmation that returns a record has passed every check; any other changes no edit.\<close>

definition confirms :: "(pystr \<Rightarrow> pystr) \<Rightarrow> pystr \<Rightarrow> pystr \<Rightarrow> pystr \<Rightarrow> instant \<Rightarrow> edit_store \<Rightarrow> session_row \<Rightarrow> edit_row \<Rightarrow> bool" where
  "confirms H i fp chat now st s e \<longleftrightarrow> session_row_by i st = Some s \<and> es_status s = AWAITING \<and> es_chat_ref s = chat \<and>
     es_draft_fingerprint s = fp \<and> candidate_body s = Some (final_body e) \<and> final_body e \<noteq> [] \<and>
     body_fingerprint H (final_body e) = candidate_fingerprint s \<and>
     (\<exists>elig meta. e = new_edit H (session_of s) (final_body e) (previous_id (session_of s) st) elig meta now) \<and>
     final_edit_id e \<notin> final_edit_id ` set (superseded (supersedes e) (edits st))"

lemma new_edit_simps [simp]:
  "supersedes (new_edit H s b prev elig meta now) = prev" "final_body (new_edit H s b prev elig meta now) = b"
  "fe_draft (new_edit H s b prev elig meta now) = es_draft s" "active (new_edit H s b prev elig meta now)"
  "\<not> revoked (new_edit H s b prev elig meta now)" "confirmation_status (new_edit H s b prev elig meta now) = CONFIRMED"
  "edit_provenance (new_edit H s b prev elig meta now) = ''user_confirmed''"
  "final_user_edit_fingerprint (new_edit H s b prev elig meta now) = body_fingerprint H b"
  "final_edit_id (new_edit H s b prev elig meta now) \<noteq> []"
  by (simp_all add: new_edit_def Let_def make_final_edit_id_def)

lemma candidate_body_row: "session_row_by i st = Some s \<Longrightarrow> candidate_text i st \<noteq> [] \<Longrightarrow> candidate_body s = Some (candidate_text i st)"
  by (simp add: candidate_text_def split: option.splits)

lemma awaiting_row: "es_status (session_of s) = AWAITING \<longleftrightarrow> es_status s = AWAITING"
  by auto

lemma confirm_cases:
  fixes H i fp chat elig meta now st
  defines "st1 \<equiv> snd (expire_stale now st)" and "r \<equiv> confirm_session H i fp chat elig meta now st"
  obtains (refused) "snd r = st1" "\<And>x. fst r \<noteq> Inr (Some x)"
  | (confirmed) s e where "confirms H i fp chat now st1 s e"
      "r = (Inr (get_final_edit (final_edit_id e) (confirmed_store e (session_of s) now st1)),
        confirmed_store e (session_of s) now st1)"
proof (cases "session_row_by i st1")
  case None
  then show ?thesis
    by (intro refused) (simp_all add: r_def confirm_session_def get_session_def Let_def st1_def)
next
  case (Some s)
  let ?b = "candidate_text i st1" and ?s = "session_of s"
  let ?e = "new_edit H ?s ?b (previous_id ?s st1) (eligible_value (or_default elig ''undecided'')) (metadata_of meta) now"
  let ?checks = "es_status s = AWAITING \<and> es_chat_ref s = chat \<and> es_draft_fingerprint s = fp \<and> ?b \<noteq> [] \<and>
    body_fingerprint H ?b = candidate_fingerprint s"
  have r: "r = (if \<not> ?checks then (Inr None, st1)
     else if \<not> serializable (JObj (metadata_of meta)) then (Inl TypeError, st1)
     else if final_edit_id ?e \<in> final_edit_id ` set (superseded (previous_id ?s st1) (edits st1)) then (Inl IntegrityError, st1)
     else (Inr (get_final_edit (final_edit_id ?e) (confirmed_store ?e ?s now st1)), confirmed_store ?e ?s now st1))"
    unfolding r_def confirm_session_def get_session_def
    by (simp add: Let_def st1_def [symmetric] Some awaiting_row superseded_def previous_id_def confirmed_store_def
        del: session_of_simps(6) cong: if_cong)
  show ?thesis
  proof (cases "?checks \<and> serializable (JObj (metadata_of meta)) \<and>
      final_edit_id ?e \<notin> final_edit_id ` set (superseded (previous_id ?s st1) (edits st1))")
    case True
    have "confirms H i fp chat now st1 s ?e"
      using True Some candidate_body_row [OF Some] by (auto simp: confirms_def)
    with True show ?thesis by (intro confirmed [of s ?e]) (simp_all only: r if_False if_True simp_thms)
  next
    case False
    then show ?thesis by (intro refused) (auto simp: r)
  qed
qed

lemma latest_by_None: "latest_by f rs = None \<longleftrightarrow> rs = []"
  by (simp add: latest_by_def split: list.split)

lemma latest_by_in: "latest_by f rs = Some r \<Longrightarrow> r \<in> set rs"
proof -
  have "foldl (\<lambda>best x. if f best < f x then x else best) b xs \<in> insert b (set xs)" for b xs
    by (induction xs arbitrary: b) (auto split: if_splits)
  then show "latest_by f rs = Some r \<Longrightarrow> r \<in> set rs"
    by (auto simp: latest_by_def split: list.splits)
qed

lemma latest_by_single [simp]: "latest_by f [r] = Some r"
  by (simp add: latest_by_def)

lemma edits_invD:
  assumes "edits_inv H es" "e \<in> set es"
  shows "edit_ok H e" "final_edit_id e \<noteq> []" "confirmation_status e = CONFIRMED" "active e \<Longrightarrow> \<not> revoked e"
    "e' \<in> set es \<Longrightarrow> final_edit_id e' = final_edit_id e \<Longrightarrow> e' = e"
    "e' \<in> set es \<Longrightarrow> active e \<Longrightarrow> active e' \<Longrightarrow> fe_draft e' = fe_draft e \<Longrightarrow> e' = e"
proof -
  show "edit_ok H e" using assms by (simp add: edits_inv_def list_all_iff)
  then show "final_edit_id e \<noteq> []" "confirmation_status e = CONFIRMED" "active e \<Longrightarrow> \<not> revoked e"
    by (simp_all add: edit_ok_def)
  show "e' \<in> set es \<Longrightarrow> final_edit_id e' = final_edit_id e \<Longrightarrow> e' = e"
    using assms by (auto simp: edits_inv_def unique_on_def distinct_map dest: inj_onD)
  show "e' \<in> set es \<Longrightarrow> active e \<Longrightarrow> active e' \<Longrightarrow> fe_draft e' = fe_draft e \<Longrightarrow> e' = e"
    using assms by (auto simp: edits_inv_def unique_on_def distinct_map dest: inj_onD)
qed

text \<open>The active edit of a draft is the only one, so it is the one \<open>latest_active\<close> finds.\<close>

lemma latest_active_iff:
  assumes "edits_inv H (edits st)"
  shows "latest_active d st = Some e \<longleftrightarrow> e \<in> set (edits st) \<and> active e \<and> fe_draft e = d"
proof
  assume "latest_active d st = Some e"
  then show "e \<in> set (edits st) \<and> active e \<and> fe_draft e = d"
    by (auto simp: latest_active_def dest: latest_by_in)
next
  assume e: "e \<in> set (edits st) \<and> active e \<and> fe_draft e = d"
  then have "e \<in> set (filter (\<lambda>e. fe_draft e = d \<and> active e \<and> \<not> revoked e \<and> confirmation_status e = CONFIRMED) (edits st))"
    using edits_invD [OF assms] by auto
  then obtain x where "latest_active d st = Some x"
    by (cases "latest_active d st") (auto simp: latest_active_def latest_by_None filter_empty_conv)
  moreover from this have "x = e"
    using e edits_invD(6) [OF assms, of e x] by (auto simp: latest_active_def dest: latest_by_in)
  ultimately show "latest_active d st = Some e" by simp
qed

lemma edits_inv_update:
  assumes "edits_inv H es" "\<And>e. final_edit_id (f e) = final_edit_id e" "\<And>e. fe_draft (f e) = fe_draft e"
    "\<And>e. active (f e) \<Longrightarrow> active e" "\<And>e. edit_ok H e \<Longrightarrow> edit_ok H (f e)"
  shows "edits_inv H (update_where P f es)"
  using assms by (auto simp: edits_inv_def list_all_iff set_update_where
      intro!: update_where_unique unique_filter_update)

lemma superseded_inv: "edits_inv H es \<Longrightarrow> edits_inv H (superseded prev es)"
  by (auto simp: superseded_def edit_ok_def intro!: edits_inv_update)

lemma superseded_inactive:
  assumes "edits_inv H (edits st)" "e \<in> set (superseded (previous_id s st) (edits st))" "active e"
  shows "e \<in> set (edits st) \<and> fe_draft e \<noteq> es_draft s"
proof (cases "latest_active (es_draft s) st")
  case None
  then have "e \<in> set (edits st)" using assms(2) by (simp add: superseded_def previous_id_def)
  with None assms show ?thesis using latest_active_iff [OF assms(1), of "es_draft s" e] by auto
next
  case (Some p)
  then have p: "p \<in> set (edits st)" "active p" "fe_draft p = es_draft s" "final_edit_id p \<noteq> []"
    using latest_active_iff [OF assms(1)] edits_invD(2) [OF assms(1)] by auto
  then have "e \<in> set (update_where (\<lambda>e. final_edit_id e = final_edit_id p) (\<lambda>e. e\<lparr>active := False\<rparr>) (edits st))"
    using assms(2) Some by (simp add: superseded_def previous_id_def)
  with assms(3) have e: "e \<in> set (edits st)" "final_edit_id e \<noteq> final_edit_id p"
    by (auto elim!: in_update_whereE split: if_splits)
  with p assms(3) show ?thesis using edits_invD(6) [OF assms(1) p(1) e(1)] by auto
qed

lemma confirmed_edits_inv:
  assumes "edits_inv H (edits st)" "sessions_inv H (sessions st)" "confirms H i fp chat now st s e"
  shows "edits_inv H (superseded (supersedes e) (edits st) @ [e])"
proof -
  let ?es = "superseded (supersedes e) (edits st)"
  from assms(3) obtain elig meta where e: "e = new_edit H (session_of s) (final_body e) (previous_id (session_of s) st) elig meta now"
    by (auto simp: confirms_def)
  then have sup: "supersedes e = previous_id (session_of s) st" and d: "fe_draft e = es_draft (session_of s)"
    by (metis new_edit_simps)+
  have "session_ok H s" using assms(2,3) row_by_Some
    by (fastforce simp: sessions_inv_def list_all_iff confirms_def session_row_by_def)
  then have ok: "edit_ok H e"
    using assms(3) by (subst e) (auto simp: edit_ok_def session_ok_def confirms_def)
  have "edits_inv H ?es" using assms(1) by (rule superseded_inv)
  moreover have draft: "fe_draft x \<noteq> fe_draft e" if "x \<in> set ?es" "active x" for x
    using superseded_inactive [OF assms(1), of x "session_of s"] that by (simp add: sup d)
  moreover have "final_edit_id e \<notin> final_edit_id ` set ?es" using assms(3) by (simp add: confirms_def)
  ultimately show ?thesis using ok by (auto simp: edits_inv_def unique_on_def dest: draft)
qed

lemma confirmed_sessions_step:
  assumes "confirms H i fp chat now st s e"
  shows "sessions_step H (sessions st) (sessions (confirmed_store e (session_of s) now st))"
proof -
  have s: "s \<in> set (sessions st)" "es_status s = AWAITING"
    using assms row_by_Some by (fastforce simp: confirms_def session_row_by_def)+
  have "es_status x = AWAITING" if "sessions_inv H (sessions st)" "x \<in> set (sessions st)" "session_id x = session_id s" for x
  proof -
    have "x = s" using that s(1) by (auto simp: sessions_inv_def unique_on_def distinct_map dest: inj_onD)
    with s(2) show ?thesis by simp
  qed
  then have "sessions_step H (sessions st) (update_where (\<lambda>x. session_id x = session_id s)
      (\<lambda>x. x\<lparr>es_status := CONFIRMED, candidate_body := None, es_updated := isoformat now\<rparr>) (sessions st))"
    by (intro sessions_step_update) (simp add: is_live_def session_ok_def)
  then show ?thesis by (simp add: confirmed_store_def)
qed

lemma confirm_step:
  "edit_inv H st \<Longrightarrow> edit_inv H (snd (confirm_session H i fp chat elig meta now st)) \<and>
    (\<forall>s \<in> set (sessions st). \<not> is_live s \<longrightarrow> s \<in> set (sessions (snd (confirm_session H i fp chat elig meta now st))))"
proof -
  assume inv: "edit_inv H st"
  let ?st1 = "snd (expire_stale now st)"
  have one: "sessions_step H (sessions st) (sessions ?st1)" by (rule expire_step)
  show ?thesis
  proof (cases rule: confirm_cases [of H i fp chat elig meta now st])
    case refused
    with one inv show ?thesis by (simp add: edit_inv_def sessions_step_def)
  next
    case (confirmed s e)
    have "sessions_step H (sessions st) (sessions (confirmed_store e (session_of s) now ?st1))"
      using one confirmed_sessions_step [OF confirmed(1)] by (rule sessions_step_trans)
    moreover have "edits_inv H (edits (confirmed_store e (session_of s) now ?st1))"
      using confirmed_edits_inv [OF _ _ confirmed(1)] inv one by (simp add: edit_inv_def sessions_step_def confirmed_store_def)
    ultimately show ?thesis using inv confirmed(2) by (simp add: edit_inv_def sessions_step_def)
  qed
qed

lemma edits_frames [simp]:
  "edits (snd (start_session H q now st)) = edits st" "edits (snd (set_prompt_message i m now st)) = edits st"
  "edits (snd (cancel_session i now st)) = edits st" "edits (snd (find_live_by_prompt m chat now st)) = edits st"
  "edits (snd (receive_user_text H i txt fp chat now st)) = edits st" "edits (snd (replace_candidate i now st)) = edits st"
  by (simp_all add: start_session_def set_prompt_message_def cancel_session_def find_live_by_prompt_def
      receive_user_text_def replace_candidate_def get_session_def update_sessions_def Let_def split: option.split)

lemma edits_only:
  "sessions (snd (update_calibration_metadata i elig meta st)) = sessions st"
  "sessions (snd (revoke_final_edit i st)) = sessions st"
  "edits_inv H (edits st) \<Longrightarrow> edits_inv H (edits (snd (update_calibration_metadata i elig meta st)))"
  "edits_inv H (edits st) \<Longrightarrow> edits_inv H (edits (snd (revoke_final_edit i st)))"
  by (auto simp: update_calibration_metadata_def revoke_final_edit_def edit_ok_def intro!: edits_inv_update)

lemma find_step: "sessions_step H (sessions st) (sessions (snd (find_live_by_prompt m chat now st)))"
  by (simp add: find_live_by_prompt_def Let_def expire_step)

lemmas session_steps = start_step set_prompt_step find_step receive_step replace_step cancel_step
  cancel_draft_step expire_step

lemma edit_step_kept:
  assumes "edit_inv H st"
  shows "edit_inv H (edit_step H op st) \<and> (\<forall>s \<in> set (sessions st). \<not> is_live s \<longrightarrow> s \<in> set (sessions (edit_step H op st)))"
proof -
  have session_op: "edit_inv H st' \<and> (\<forall>s \<in> set (sessions st). \<not> is_live s \<longrightarrow> s \<in> set (sessions st'))"
    if "sessions_step H (sessions st) (sessions st')" "edits st' = edits st" for st'
    using that assms by (simp add: edit_inv_def sessions_step_def)
  show ?thesis
  proof (cases op)
    case (Confirm i fp chat elig meta now)
    with confirm_step [OF assms] show ?thesis by simp
  next
    case (UpdateMetadata i elig meta)
    with assms show ?thesis by (simp add: edit_inv_def edits_only)
  next
    case (Revoke i)
    with assms show ?thesis by (simp add: edit_inv_def edits_only)
  qed (auto simp del: update_sessions_simps intro!: session_op session_steps)
qed

interpretation edit: invariant_machine "edit_step H" "edit_inv H" for H
  by unfold_locales (use edit_step_kept in blast)

lemma open_store_inv [simp]: "edit_inv H (open_store ttl)"
  by (simp add: open_store_def edit_inv_def sessions_inv_def edits_inv_def)

lemma not_expired:
  assumes "session_row_by i (snd (expire_stale now st)) = Some s" "es_status s = AWAITING"
  shows "session_row_by i st = Some s \<and> isoformat now < expires_at s"
proof -
  have "session_row_by i (snd (expire_stale now st)) = map_option
      (\<lambda>s. if live (es_status s) \<and> expires_at s \<le> isoformat now then close_session EXPIRED now s else s) (session_row_by i st)"
    by (simp add: session_row_by_def expire_stale_def row_by_update_where)
  with assms obtain s0 where s0: "session_row_by i st = Some s0"
    "s = (if live (es_status s0) \<and> expires_at s0 \<le> isoformat now then close_session EXPIRED now s0 else s0)" by auto
  have "\<not> (live (es_status s0) \<and> expires_at s0 \<le> isoformat now)" using s0(2) assms(2) by auto
  with s0 assms(2) show ?thesis by auto
qed

lemma latest_active_edits: "edits st = edits st' \<Longrightarrow> latest_active d st = latest_active d st'"
  by (simp add: latest_active_def)

lemma superseded_kept:
  assumes "edits_inv H (edits st)" "e \<in> set (edits st)" "active e" "fe_draft e \<noteq> es_draft s"
  shows "e \<in> set (superseded (previous_id s st) (edits st))"
proof (cases "latest_active (es_draft s) st")
  case None
  with assms show ?thesis by (simp add: superseded_def previous_id_def)
next
  case (Some p)
  then have p: "p \<in> set (edits st)" "fe_draft p = es_draft s" using latest_active_iff [OF assms(1)] by auto
  with assms(4) have "final_edit_id e \<noteq> final_edit_id p" using edits_invD(5) [OF assms(1) p(1) assms(2)] by auto
  with assms(2) Some show ?thesis by (auto simp: superseded_def previous_id_def intro: kept_update_where)
qed

lemma confirmed_edits:
  assumes "edit_inv H st" "confirms H i fp chat now st s e" "st' = confirmed_store e (session_of s) now st"
  shows "edit_by (final_edit_id e) st' = Some e" "latest_active (es_draft s) st' = Some e"
    "d \<noteq> es_draft s \<Longrightarrow> latest_active d st' = latest_active d st"
    "supersedes e = previous_id (session_of s) st"
proof -
  from assms(2) obtain elig meta where
    e: "e = new_edit H (session_of s) (final_body e) (previous_id (session_of s) st) elig meta now"
    by (auto simp: confirms_def)
  then show sup: "supersedes e = previous_id (session_of s) st" by (metis new_edit_simps(1))
  from e have d: "fe_draft e = es_draft s" "active e" by (metis new_edit_simps(3,4) session_of_simps(2))+
  have inv: "edits_inv H (edits st)" "sessions_inv H (sessions st)" using assms(1) by (simp_all add: edit_inv_def)
  have eds: "edits st' = superseded (previous_id (session_of s) st) (edits st) @ [e]"
    by (simp add: assms(3) confirmed_store_def sup)
  have inv': "edits_inv H (edits st')" using confirmed_edits_inv [OF inv assms(2)] by (simp add: eds sup)
  have "row_by final_edit_id (final_edit_id e) (superseded (supersedes e) (edits st)) = None"
    using assms(2) by (simp add: confirms_def row_by_None)
  then show "edit_by (final_edit_id e) st' = Some e" by (simp add: edit_by_def eds sup row_by_append)
  show "latest_active (es_draft s) st' = Some e" using d by (simp add: latest_active_iff [OF inv'] eds)
  show "latest_active d st' = latest_active d st" if "d \<noteq> es_draft s"
  proof -
    have "latest_active d st' = Some x \<longleftrightarrow> latest_active d st = Some x" for x
      unfolding latest_active_iff [OF inv'] latest_active_iff [OF inv(1)] eds
      using superseded_inactive [OF inv(1), of x "session_of s"] superseded_kept [OF inv(1), of x "session_of s"] that d
      by auto
    then show ?thesis by (metis not_None_eq)
  qed
qed

lemma confirmed_session:
  assumes "confirms H i fp chat now st s e" "st' = confirmed_store e (session_of s) now st"
  shows "map_option es_status (session_row_by i st') = Some CONFIRMED" "candidate_text i st' = []"
proof -
  have s: "session_row_by i st = Some s" "session_id s = i"
    using assms(1) row_by_Some by (fastforce simp: confirms_def session_row_by_def)+
  then have "session_row_by i st' = Some (s\<lparr>es_status := CONFIRMED, candidate_body := None, es_updated := isoformat now\<rparr>)"
    by (simp add: assms(2) confirmed_store_def session_row_by_def row_by_update_where)
  then show "map_option es_status (session_row_by i st') = Some CONFIRMED" "candidate_text i st' = []"
    by (simp_all add: candidate_text_def)
qed

section \<open>Properties of the capture\<close>

text \<open>
  C33: Where private text may be: whatever operations ran since the store was opened, a session holds a
  body only while it awaits confirmation, and then a stripped one within the size limit whose
  fingerprint is the one on record; every stored edit was confirmed and matches its fingerprint;
  each draft has at most one live session and at most one active edit.
\<close>

theorem private_body_contained:
  "list_all (session_ok H) (sessions (fold (edit_step H) ops (open_store ttl))) \<and>
   list_all (edit_ok H) (edits (fold (edit_step H) ops (open_store ttl))) \<and>
   length (filter (\<lambda>s. is_live s \<and> es_draft s = d) (sessions (fold (edit_step H) ops (open_store ttl)))) \<le> 1 \<and>
   length (filter (\<lambda>e. active e \<and> fe_draft e = d) (edits (fold (edit_step H) ops (open_store ttl)))) \<le> 1"
proof -
  have "edit_inv H (fold (edit_step H) ops (open_store ttl))" using open_store_inv by (rule edit.run_inv)
  then show ?thesis
    by (simp add: edit_inv_def sessions_inv_def edits_inv_def unique_filter_length del: One_nat_def)
qed

text \<open>
  A closed session is history: once confirmed, cancelled or expired, its row never changes again,
  whatever operations follow, so no private text can come back into it.
\<close>

theorem closed_sessions_frozen:
  assumes "edit_inv H st" "s \<in> set (sessions st)" "es_status s \<in> {CONFIRMED, CANCELLED, EXPIRED}"
  shows "s \<in> set (sessions (fold (edit_step H) ops st)) \<and> candidate_body s = None"
proof
  have closed: "\<not> is_live s" using assms(3) by (auto simp: is_live_def)
  from assms(1,2) show "s \<in> set (sessions (fold (edit_step H) ops st))"
  proof (induction ops arbitrary: st)
    case (Cons op ops)
    with edit_step_kept [OF Cons.prems(1), of op] closed show ?case by simp
  qed simp
  have "session_ok H s" using assms(1,2) by (simp add: edit_inv_def sessions_inv_def list_all_iff)
  with closed show "candidate_body s = None" by (auto simp: session_ok_def is_live_def split: option.splits)
qed

text \<open>
  C32: Confirmation is exact: a confirmation that returns a record was asked for the session's own chat
  and draft, the session was awaiting confirmation and had not expired, the stored text is the
  text the operator had sent, it becomes the draft's one active edit and names the one it replaces,
  other drafts keep theirs, and the session is closed without its text. One that returns no record
  leaves every edit as it was.
\<close>

theorem confirmation_exact:
  assumes "edit_inv H st" "confirm_session H i fp chat elig meta now st = (r, st')"
  shows "(\<forall>x. r = Inr (Some x) \<longrightarrow> (\<exists>s b. session_row_by i st = Some s \<and> es_status s = AWAITING \<and>
      isoformat now < expires_at s \<and> es_draft_fingerprint s = fp \<and> es_chat_ref s = chat \<and> candidate_body s = Some b \<and>
      final_text (final_edit_id x) st' = b \<and> map_option final_edit_id (latest_active (es_draft s) st') = Some (final_edit_id x) \<and>
      supersedes x = (case latest_active (es_draft s) st of None \<Rightarrow> [] | Some p \<Rightarrow> final_edit_id p) \<and>
      (\<forall>d. d \<noteq> es_draft s \<longrightarrow> latest_active d st' = latest_active d st) \<and>
      map_option es_status (session_row_by i st') = Some CONFIRMED \<and> candidate_text i st' = [])) \<and>
    ((\<forall>x. r \<noteq> Inr (Some x)) \<longrightarrow> edits st' = edits st)"
proof (cases rule: confirm_cases [of H i fp chat elig meta now st])
  case refused
  with assms(2) show ?thesis by simp
next
  case (confirmed s e)
  let ?st1 = "snd (expire_stale now st)"
  have inv: "edit_inv H ?st1" using assms(1) edit.step_inv [of H st "Expire now"] by simp
  have st': "st' = confirmed_store e (session_of s) now ?st1" and r: "r = Inr (get_final_edit (final_edit_id e) st')"
    using confirmed(2) assms(2) by auto
  note new = confirmed_edits [OF inv confirmed(1) st'] and closed = confirmed_session [OF confirmed(1) st']
  have same: "latest_active d ?st1 = latest_active d st" for d by (rule latest_active_edits) simp
  have s: "session_row_by i st = Some s" "isoformat now < expires_at s"
    using confirmed(1) not_expired unfolding confirms_def by blast+
  have x: "r = Inr (Some (final_edit.truncate e))" by (simp add: r get_final_edit_def new(1))
  have row: "es_status s = AWAITING" "es_draft_fingerprint s = fp" "es_chat_ref s = chat" "candidate_body s = Some (final_body e)"
    using confirmed(1) unfolding confirms_def by blast+
  have e: "final_edit_id (final_edit.truncate e) = final_edit_id e" "supersedes (final_edit.truncate e) = supersedes e"
    by (simp_all add: final_edit.truncate_def)
  have sup: "supersedes e = (case latest_active (es_draft s) st of None \<Rightarrow> [] | Some p \<Rightarrow> final_edit_id p)"
    using new(4) by (simp add: previous_id_def same)
  have body: "final_text (final_edit_id e) st' = final_body e" by (simp add: final_text_def new(1))
  have others: "latest_active d st' = latest_active d st" if "d \<noteq> es_draft s" for d
    using new(3) [OF that] by (simp add: same)
  have "(\<forall>d. d \<noteq> es_draft s \<longrightarrow> latest_active d st' = latest_active d st)" using others by blast
  with s row sup body new(2) closed show ?thesis
    unfolding x by (intro conjI allI impI, intro exI [of _ s] exI [of _ "final_body e"]) (auto simp add: e)
qed

text \<open>
  Metadata that leaves the store is independent of the private texts: replacing every stored body
  by another one changes no metadata, and no key that names a private text occurs in it unless the
  caller's own calibration metadata brings one.
\<close>

theorem metadata_independent_of_bodies:
  "session_metadata i (st\<lparr>sessions := map (\<lambda>s. s\<lparr>candidate_body := f s\<rparr>) (sessions st)\<rparr>) = session_metadata i st \<and>
   map_option record_metadata (get_final_edit k (st\<lparr>edits := map (\<lambda>e. e\<lparr>final_body := g e\<rparr>) (edits st)\<rparr>)) =
     map_option record_metadata (get_final_edit k st) \<and>
   \<not> metadata_contains_private_body (JObj (session_metadata i st)) \<and>
   (metadata_contains_private_body (JObj (record_metadata e)) \<longleftrightarrow>
     metadata_contains_private_body (JObj (calibration_metadata e)))"
proof (intro conjI)
  have find: "row_by session_id i (map (\<lambda>s. s\<lparr>candidate_body := f s\<rparr>) ss) =
      map_option (\<lambda>s. s\<lparr>candidate_body := f s\<rparr>) (row_by session_id i ss)" for ss
    by (induction ss) auto
  show "session_metadata i (st\<lparr>sessions := map (\<lambda>s. s\<lparr>candidate_body := f s\<rparr>) (sessions st)\<rparr>) = session_metadata i st"
    by (simp add: session_metadata_def get_session_def session_row_by_def find option.map_comp o_def session_of_def
        edit_session.truncate_def split: option.split)
  have find_edit: "row_by final_edit_id k (map (\<lambda>e. e\<lparr>final_body := g e\<rparr>) es) =
      map_option (\<lambda>e. e\<lparr>final_body := g e\<rparr>) (row_by final_edit_id k es)" for es
    by (induction es) auto
  show "map_option record_metadata (get_final_edit k (st\<lparr>edits := map (\<lambda>e. e\<lparr>final_body := g e\<rparr>) (edits st)\<rparr>)) =
     map_option record_metadata (get_final_edit k st)"
    by (simp add: get_final_edit_def edit_by_def find_edit option.map_comp o_def final_edit.truncate_def)
  show "\<not> metadata_contains_private_body (JObj (session_metadata i st))"
    by (simp add: session_metadata_def forbidden_keys_def split: option.split)
  show "metadata_contains_private_body (JObj (record_metadata e)) \<longleftrightarrow> metadata_contains_private_body (JObj (calibration_metadata e))"
    by (simp add: record_metadata_def forbidden_keys_def)
qed

section \<open>Witnesses\<close>

definition demo_session :: "pystr \<Rightarrow> session_row" where
  "demo_session st = \<lparr>session_id = ''s'', es_draft = ''d'', es_update = [], es_event = [], es_segment = [],
     es_chat_ref = ''chat'', es_draft_fingerprint = ''fp'', es_factual_fingerprint = [], es_shadow_fingerprint = [],
     es_content_type = ''general'', prompt_message_id = 1,
     candidate_fingerprint = (if st = AWAITING then body_fingerprint id ''text'' else []), es_status = st, es_created = isoformat 0,
     expires_at = isoformat 9, es_updated = isoformat 0, candidate_body = (if st = AWAITING then Some ''text'' else None)\<rparr>"

definition demo_edits :: "pystr \<Rightarrow> edit_store" where
  "demo_edits st = \<lparr>ttl_seconds = 60, sessions = [demo_session st], edits = []\<rparr>"

lemma demo_edits_inv [simp]: "st \<in> session_states \<Longrightarrow> edit_inv id (demo_edits st)"
  by (simp add: demo_edits_def demo_session_def edit_inv_def sessions_inv_def edits_inv_def session_ok_def body_ok_def
      max_chars_def py_strip_def py_space_def)

lemma demo_expire: "snd (expire_stale 5 (demo_edits AWAITING)) = demo_edits AWAITING"
proof -
  have "\<not> isoformat 9 \<le> isoformat 5"
    using isoformat_order(2) [of 9 5] by (simp add: valid_instant_def us_per_day_def)
  then show ?thesis by (simp add: expire_stale_def update_sessions_def demo_edits_def demo_session_def)
qed

theorem closed_sessions_frozen_witness:
  "demo_session CONFIRMED \<in> set (sessions (fold (edit_step id) [Cancel ''s'' 3, Expire 20] (demo_edits CONFIRMED))) \<and>
    candidate_body (demo_session CONFIRMED) = None"
  by (rule closed_sessions_frozen [OF demo_edits_inv]) (simp_all add: demo_edits_def demo_session_def)

lemma demo_confirm: "\<exists>x. fst (confirm_session id ''s'' ''fp'' ''chat'' [] JNull 5 (demo_edits AWAITING)) = Inr (Some x)"
  using demo_expire
  by (simp add: confirm_session_def get_session_def Let_def session_row_by_def candidate_text_def latest_active_def
      latest_by_def metadata_of_def get_final_edit_def edit_by_def demo_edits_def demo_session_def)

theorem confirmation_exact_witness:
  "\<exists>x. fst (confirm_session id ''s'' ''fp'' ''chat'' [] JNull 5 (demo_edits AWAITING)) = Inr (Some x) \<and>
    final_text (final_edit_id x) (snd (confirm_session id ''s'' ''fp'' ''chat'' [] JNull 5 (demo_edits AWAITING))) = ''text''"
proof -
  let ?C = "confirm_session id ''s'' ''fp'' ''chat'' [] JNull 5 (demo_edits AWAITING)"
  obtain x where x: "fst ?C = Inr (Some x)" using demo_confirm by blast
  have "session_row_by ''s'' (demo_edits AWAITING) = Some (demo_session AWAITING)"
    by (simp add: session_row_by_def demo_edits_def demo_session_def)
  moreover have "candidate_body (demo_session AWAITING) = Some ''text''" by (simp add: demo_session_def)
  moreover obtain s b where "session_row_by ''s'' (demo_edits AWAITING) = Some s" "candidate_body s = Some b"
      "final_text (final_edit_id x) (snd ?C) = b"
    using confirmation_exact [OF demo_edits_inv [OF known_states(2)] surjective_pairing, THEN conjunct1, rule_format, OF x]
    by blast
  ultimately show ?thesis using x by auto
qed

end
