(* ===== verification/Realtime.thy ===== *)
theory Realtime
  imports Models
begin

text \<open>
  \<open>app/realtime_ingest.py\<close>: the non-delivering fast ingest. A candidate is normalised, checked
  against the configured sources, claimed once per process, hydrated by the authoritative
  retrieval and counted. The durable queries \<open>is_seen\<close> and \<open>is_pending\<close> are the parameters
  \<open>sn\<close> and \<open>pd\<close>; a detector is the list of what it yields, with the outcome of the hydration
  call and its clock reading, and whether it ended by an exception. Telemetry (\<open>observe\<close>) and
  the millisecond figures derived from a trace (floating point) are not modelled.
\<close>

definition detection_methods :: "pystr set" where
  "detection_methods = {''fast_poll'', ''filtered_stream'', ''scheduled_backfill'', ''phase3_recovery''}"

definition normalized_handle :: "pystr \<Rightarrow> pystr" where
  "normalized_handle h = py_lower (py_lstrip_at (py_strip h))"

text \<open>\<open>DetectedMedia\<close> has the fields of a media item; the way back coerces the texts.\<close>

type_synonym detected_media = media_item

definition to_media_item :: "pyenv \<Rightarrow> detected_media \<Rightarrow> media_item" where
  "to_media_item env m = m\<lparr>kind := JStr (py_str (float_text env) (kind m)),
     media_url := JStr (py_str (float_text env) (media_url m)),
     preview_url := JStr (py_str (float_text env) (preview_url m)),
     content_type := JStr (py_str (float_text env) (content_type m))\<rparr>"

record candidate =
  cand_source :: pystr
  post_id :: pystr
  cand_created :: instant
  detected_at :: instant
  detection_method :: pystr
  post_url :: pystr
  cand_conversation :: pystr
  cand_reply_to :: pystr
  cand_is_reply :: bool
  is_repost :: bool
  cand_media :: "detected_media list"
  cand_attempt :: pystr

definition candidate_init :: "candidate \<Rightarrow> py_exc + candidate" where
  "candidate_init c =
     (let h = normalized_handle (cand_source c); i = py_strip (post_id c); m = py_strip (detection_method c) in
      if h = [] \<or> i = [] \<or> m \<notin> detection_methods then Inl ValueError
      else Inr (c\<lparr>cand_source := h, post_id := i, detected_at := max (cand_created c) (detected_at c),
             detection_method := m, post_url := or_default (py_strip (post_url c)) (status_url h i),
             cand_conversation := or_default (py_strip (cand_conversation c)) i,
             cand_reply_to := py_strip (cand_reply_to c), cand_attempt := py_strip (cand_attempt c)\<rparr>))"

section \<open>The authority of the configured sources\<close>

record source_policy =
  sp_handle :: pystr
  sp_enabled :: bool
  include_replies :: bool

definition policy_from_mapping :: "pyenv \<Rightarrow> pydict \<Rightarrow> source_policy" where
  "policy_from_mapping env d =
     \<lparr>sp_handle = normalized_handle (py_str (float_text env) (dict_get d ''handle'' (JStr []))),
      sp_enabled = truthy (dict_get d ''enabled'' (JBool True)),
      include_replies = truthy (dict_get d ''include_replies'' (JBool True))\<rparr>"

type_synonym authority = "(pystr \<times> source_policy) list"

definition authority_of :: "pyenv \<Rightarrow> pydict list \<Rightarrow> authority" where
  "authority_of env sources =
     fold (\<lambda>p. AList.update (sp_handle p) p)
       (filter (\<lambda>p. sp_handle p \<noteq> [] \<and> sp_enabled p) (map (policy_from_mapping env) sources)) []"

record candidate_decision =
  accepts :: bool
  reason :: pystr
  policy :: "source_policy option"

definition decide_candidate :: "authority \<Rightarrow> candidate \<Rightarrow> candidate_decision" where
  "decide_candidate a c = (case map_of a (normalized_handle (cand_source c)) of
       None \<Rightarrow> \<lparr>accepts = False, reason = ''external_source'', policy = None\<rparr>
     | Some p \<Rightarrow>
         if is_repost c then \<lparr>accepts = False, reason = ''repost_excluded'', policy = Some p\<rparr>
         else if cand_is_reply c \<and> \<not> include_replies p then \<lparr>accepts = False, reason = ''reply_excluded'', policy = Some p\<rparr>
         else \<lparr>accepts = True, reason = ''configured_source'', policy = Some p\<rparr>)"

text \<open>An update is a reply when either field says so.\<close>

definition says_reply :: "update \<Rightarrow> bool" where
  "says_reply u \<longleftrightarrow> truthy (is_reply u) \<or> truthy (reply_to_id u)"

definition validate_update :: "authority \<Rightarrow> candidate \<Rightarrow> update \<Rightarrow> py_exc + unit" where
  "validate_update a c u =
     (let au = normalized_handle (author u) in
      if upd_id u \<noteq> post_id c \<or> au \<noteq> normalized_handle (cand_source c) then Inl ValueError
      else case map_of a au of
        None \<Rightarrow> Inl ValueError
      | Some p \<Rightarrow> if says_reply u \<and> \<not> include_replies p then Inl ValueError else Inr ())"

section \<open>The claim gate\<close>

type_synonym claims = "pystr set"

definition claim :: "(pystr \<Rightarrow> bool) \<Rightarrow> (pystr \<Rightarrow> bool) \<Rightarrow> pystr \<Rightarrow> claims \<Rightarrow> (bool \<times> pystr) \<times> claims" where
  "claim sn pd i cs =
     (if sn i then ((False, ''already_seen''), cs)
      else if pd i then ((False, ''already_pending''), cs)
      else if i \<in> cs then ((False, ''already_claimed''), cs)
      else ((True, ''claimed''), insert i cs))"

definition release :: "pystr \<Rightarrow> claims \<Rightarrow> claims" where "release i cs = cs - {i}"

definition mark_external :: "pystr \<Rightarrow> claims \<Rightarrow> claims" where "mark_external i cs = insert i cs"

section \<open>Traces and observations\<close>

record latency_trace =
  tr_post :: pystr
  tr_source :: pystr
  tr_created :: instant
  tr_detected :: instant
  tr_method :: pystr
  tr_attempt :: pystr
  processing_started :: "instant option"
  private_delivery :: "instant option"
  backfill_recovery :: bool

definition new_trace :: "candidate \<Rightarrow> latency_trace" where
  "new_trace c = \<lparr>tr_post = post_id c, tr_source = cand_source c, tr_created = cand_created c,
     tr_detected = detected_at c, tr_method = detection_method c, tr_attempt = cand_attempt c,
     processing_started = None, private_delivery = None,
     backfill_recovery = detection_method c \<in> {''scheduled_backfill'', ''phase3_recovery''}\<rparr>"

definition mark_processing :: "instant \<Rightarrow> latency_trace \<Rightarrow> latency_trace" where
  "mark_processing now t = t\<lparr>processing_started := Some now\<rparr>"

definition mark_private_delivery :: "int \<Rightarrow> instant \<Rightarrow> latency_trace \<Rightarrow> py_exc + latency_trace" where
  "mark_private_delivery receipt now t =
     (if receipt \<le> 0 then Inl ValueError else Inr (t\<lparr>private_delivery := Some now\<rparr>))"

record shadow_observation =
  ob_candidate :: candidate
  ob_decision :: candidate_decision
  ob_claimed :: bool
  ob_hydrated :: "update option"
  ob_trace :: "latency_trace option"
  hydration_error :: pystr

record run_summary =
  observed :: nat
  rs_accepted :: nat
  duplicate :: nat
  rejected :: nat
  hydrated :: nat
  deferred_to_backfill :: nat

record ingestor =
  ing_enabled :: bool
  ing_authority :: authority
  ing_claims :: claims

definition unclaimed :: "candidate \<Rightarrow> candidate_decision \<Rightarrow> shadow_observation" where
  "unclaimed c d = \<lparr>ob_candidate = c, ob_decision = d, ob_claimed = False, ob_hydrated = None,
     ob_trace = None, hydration_error = []\<rparr>"

definition inspect :: "(pystr \<Rightarrow> bool) \<Rightarrow> (pystr \<Rightarrow> bool) \<Rightarrow> candidate \<Rightarrow> ingestor \<Rightarrow> shadow_observation \<times> ingestor" where
  "inspect sn pd c g =
     (if \<not> ing_enabled g then (unclaimed c \<lparr>accepts = False, reason = ''shadow_disabled'', policy = None\<rparr>, g)
      else let d = decide_candidate (ing_authority g) c in
      if \<not> accepts d then (unclaimed c d, g)
      else let ((ok, why), cs) = claim sn pd (post_id c) (ing_claims g) in
      if \<not> ok then (unclaimed c \<lparr>accepts = False, reason = why, policy = policy d\<rparr>, g\<lparr>ing_claims := cs\<rparr>)
      else (\<lparr>ob_candidate = c, ob_decision = d, ob_claimed = True, ob_hydrated = None,
             ob_trace = Some (new_trace c), hydration_error = []\<rparr>, g\<lparr>ing_claims := cs\<rparr>))"

definition or_value :: "json \<Rightarrow> json \<Rightarrow> json" where
  "or_value v w = (if truthy v then v else w)"

text \<open>The enriched update: the authoritative fields, the candidate's where those are empty.\<close>

definition enrich :: "pyenv \<Rightarrow> candidate \<Rightarrow> update \<Rightarrow> py_exc + update" where
  "enrich env c u = post_init env (JStr (upd_id u)) (JStr (author u))
     (JStr (or_default (conversation_id u) (cand_conversation c)))
     (u\<lparr>url := or_value (url u) (JStr (post_url c)),
        reply_to_id := or_value (reply_to_id u) (JStr (cand_reply_to c)),
        media := (if media u \<noteq> [] then media u else map (to_media_item env) (cand_media c)),
        is_reply := or_value (is_reply u) (JBool (cand_is_reply c))\<rparr>)"

definition hydrate :: "pyenv \<Rightarrow> instant \<Rightarrow> ingestor \<Rightarrow> shadow_observation \<Rightarrow> update \<Rightarrow> py_exc + shadow_observation" where
  "hydrate env now g ob u =
     (if \<not> ob_claimed ob then Inl ValueError
      else case validate_update (ing_authority g) (ob_candidate ob) u of
        Inl e \<Rightarrow> Inl e
      | Inr _ \<Rightarrow> (case enrich env (ob_candidate ob) u of
          Inl e \<Rightarrow> Inl e
        | Inr v \<Rightarrow> Inr (ob\<lparr>ob_hydrated := Some v, ob_trace := map_option (mark_processing now) (ob_trace ob)\<rparr>)))"

text \<open>
  One step of \<open>run_shadow\<close>: what the hydration call did is an update or the class name of its
  exception. The observation the step builds is kept, to state what was done with it.
\<close>

type_synonym detection = "candidate \<times> (pystr + update) \<times> instant"

definition count_refusal :: "pystr \<Rightarrow> run_summary \<Rightarrow> run_summary" where
  "count_refusal why s =
     (if why \<in> {''already_seen'', ''already_pending'', ''already_claimed''} then s\<lparr>duplicate := duplicate s + 1\<rparr>
      else s\<lparr>rejected := rejected s + 1\<rparr>)"

definition shadow_step :: "pyenv \<Rightarrow> (pystr \<Rightarrow> bool) \<Rightarrow> (pystr \<Rightarrow> bool) \<Rightarrow> detection \<Rightarrow>
    shadow_observation list \<times> run_summary \<times> ingestor \<Rightarrow> shadow_observation list \<times> run_summary \<times> ingestor" where
  "shadow_step env sn pd = (\<lambda>(c, out, now) (obs, s, g).
     let s1 = s\<lparr>observed := observed s + 1\<rparr>; (ob, g1) = inspect sn pd c g in
     if \<not> ob_claimed ob then (obs @ [ob], count_refusal (reason (ob_decision ob)) s1, g1)
     else let s2 = s1\<lparr>rs_accepted := rs_accepted s1 + 1\<rparr>;
              result = (case out of Inl e \<Rightarrow> Inl e
                | Inr u \<Rightarrow> (case hydrate env now g1 ob u of Inl _ \<Rightarrow> Inl ''ValueError'' | Inr ob' \<Rightarrow> Inr ob'))
          in case result of
            Inl e \<Rightarrow> (obs @ [ob\<lparr>hydration_error := e\<rparr>],
              s2\<lparr>deferred_to_backfill := deferred_to_backfill s2 + 1\<rparr>, g1\<lparr>ing_claims := release (post_id c) (ing_claims g1)\<rparr>)
          | Inr ob' \<Rightarrow> (obs @ [ob'], s2\<lparr>hydrated := hydrated s2 + 1\<rparr>, g1))"

definition zero_summary :: run_summary where
  "zero_summary = \<lparr>observed = 0, rs_accepted = 0, duplicate = 0, rejected = 0, hydrated = 0, deferred_to_backfill = 0\<rparr>"

definition run_shadow :: "pyenv \<Rightarrow> (pystr \<Rightarrow> bool) \<Rightarrow> (pystr \<Rightarrow> bool) \<Rightarrow> detection list \<Rightarrow> bool \<Rightarrow> ingestor \<Rightarrow>
    shadow_observation list \<times> run_summary \<times> ingestor" where
  "run_shadow env sn pd ds failed g =
     (let (obs, s, g') = fold (shadow_step env sn pd) ds ([], zero_summary, g)
      in (obs, if failed then s\<lparr>deferred_to_backfill := deferred_to_backfill s + 1\<rparr> else s, g'))"

section \<open>What a run does with the claims\<close>

definition done_ids :: "shadow_observation list \<Rightarrow> pystr list" where
  "done_ids obs = map (post_id \<circ> ob_candidate) (filter (\<lambda>ob. ob_hydrated ob \<noteq> None) obs)"

text \<open>A hydrated observation: claimed, of a configured source, with the detected post's identity.\<close>

definition authorised :: "authority \<Rightarrow> shadow_observation \<Rightarrow> bool" where
  "authorised a ob \<longleftrightarrow> (case ob_hydrated ob of None \<Rightarrow> True
     | Some v \<Rightarrow> ob_claimed ob \<and> upd_id v = post_id (ob_candidate ob) \<and>
         normalized_handle (cand_source (ob_candidate ob)) \<in> dom (map_of a))"

definition run_inv :: "(pystr \<Rightarrow> bool) \<Rightarrow> (pystr \<Rightarrow> bool) \<Rightarrow> ingestor \<Rightarrow> shadow_observation list \<times> run_summary \<times> ingestor \<Rightarrow> bool" where
  "run_inv sn pd g0 = (\<lambda>(obs, s, g).
     observed s = length obs \<and> observed s = rs_accepted s + duplicate s + rejected s \<and>
     rs_accepted s = hydrated s + deferred_to_backfill s \<and> hydrated s = length (done_ids obs) \<and>
     ing_authority g = ing_authority g0 \<and> ing_claims g = ing_claims g0 \<union> set (done_ids obs) \<and>
     distinct (done_ids obs) \<and> (\<forall>i \<in> set (done_ids obs). \<not> sn i \<and> \<not> pd i \<and> i \<notin> ing_claims g0) \<and>
     (\<forall>ob \<in> set obs. authorised (ing_authority g0) ob))"

lemma inspect_cases:
  assumes "inspect sn pd c g = (ob, g')"
  obtains (refused) "\<not> ob_claimed ob" "ob_hydrated ob = None" "g' = g"
  | (claimed) "ob_claimed ob" "ob_hydrated ob = None" "ob_candidate ob = c" "\<not> sn (post_id c)" "\<not> pd (post_id c)"
      "post_id c \<notin> ing_claims g" "g' = g\<lparr>ing_claims := insert (post_id c) (ing_claims g)\<rparr>"
      "ob_decision ob = decide_candidate (ing_authority g) c" "accepts (decide_candidate (ing_authority g) c)"
proof (cases "ing_enabled g \<and> accepts (decide_candidate (ing_authority g) c) \<and> \<not> sn (post_id c) \<and>
    \<not> pd (post_id c) \<and> post_id c \<notin> ing_claims g")
  case True
  with assms show ?thesis by (intro claimed) (simp_all add: inspect_def claim_def Let_def, auto)
next
  case False
  with assms have "\<not> ob_claimed ob \<and> ob_hydrated ob = None \<and> g' = g"
    by (auto simp: inspect_def claim_def unclaimed_def Let_def split: if_splits)
  then show ?thesis by (intro refused) simp_all
qed

lemma enrich_total: "\<exists>v. enrich env c u = Inr v"
  by (simp add: enrich_def post_init_def Let_def)

lemma enrich_fields:
  assumes "enrich env c u = Inr v"
  shows "upd_id v = upd_id u" "body v = body u" "created_at v = created_at u"
    "media v = (if media u \<noteq> [] then media u else map (to_media_item env) (cand_media c))"
    "truthy (reply_to_id v) \<longleftrightarrow> truthy (reply_to_id u) \<or> cand_reply_to c \<noteq> []"
    "truthy (is_reply v) \<longleftrightarrow> truthy (is_reply u) \<or> cand_is_reply c"
proof -
  show "upd_id v = upd_id u" "body v = body u" "created_at v = created_at u"
    "media v = (if media u \<noteq> [] then media u else map (to_media_item env) (cand_media c))"
    using assms by (auto simp: enrich_def post_init_def Let_def py_str_def)
  have "reply_to_id v = or_value (reply_to_id u) (JStr (cand_reply_to c))"
    using assms by (auto simp: enrich_def post_init_def Let_def)
  then show "truthy (reply_to_id v) \<longleftrightarrow> truthy (reply_to_id u) \<or> cand_reply_to c \<noteq> []" by (simp add: or_value_def)
  have "is_reply v = or_value (is_reply u) (JBool (cand_is_reply c))"
    using assms by (auto simp: enrich_def post_init_def Let_def)
  then show "truthy (is_reply v) \<longleftrightarrow> truthy (is_reply u) \<or> cand_is_reply c" by (simp add: or_value_def)
qed

lemma hydrate_cases:
  assumes "hydrate env now g ob u = Inr ob'"
  obtains v p where "ob_claimed ob" "ob_hydrated ob' = Some v" "enrich env (ob_candidate ob) u = Inr v"
    "upd_id u = post_id (ob_candidate ob)" "normalized_handle (author u) = normalized_handle (cand_source (ob_candidate ob))"
    "map_of (ing_authority g) (normalized_handle (author u)) = Some p" "says_reply u \<longrightarrow> include_replies p"
    "ob_candidate ob' = ob_candidate ob" "ob_claimed ob'"
  using assms
  by (auto simp: hydrate_def validate_update_def Let_def split: if_splits sum.splits option.splits)

lemma done_ids_snoc [simp]:
  "done_ids (obs @ [ob]) = done_ids obs @ (if ob_hydrated ob = None then [] else [post_id (ob_candidate ob)])"
  by (simp add: done_ids_def)

lemma count_refusal_fields [simp]:
  "observed (count_refusal w s) = observed s" "rs_accepted (count_refusal w s) = rs_accepted s"
  "hydrated (count_refusal w s) = hydrated s" "deferred_to_backfill (count_refusal w s) = deferred_to_backfill s"
  by (simp_all add: count_refusal_def)

lemma shadow_step_inv:
  assumes "run_inv sn pd g0 st"
  shows "run_inv sn pd g0 (shadow_step env sn pd d st)"
proof -
  obtain obs s g where st: "st = (obs, s, g)" by (cases st)
  obtain c out now where d: "d = (c, out, now)" by (cases d)
  obtain ob g1 where ob: "inspect sn pd c g = (ob, g1)" by fastforce
  from ob show ?thesis
  proof (cases rule: inspect_cases)
    case refused
    then have "authorised (ing_authority g0) ob" by (simp add: authorised_def)
    moreover have "duplicate (count_refusal w t) + rejected (count_refusal w t) = duplicate t + rejected t + 1"
      for w and t :: run_summary by (simp add: count_refusal_def)
    from this [of "reason (ob_decision ob)" "s\<lparr>observed := observed s + 1\<rparr>"]
    have "observed s + 1 = rs_accepted s + duplicate (count_refusal (reason (ob_decision ob)) (s\<lparr>observed := observed s + 1\<rparr>)) +
        rejected (count_refusal (reason (ob_decision ob)) (s\<lparr>observed := observed s + 1\<rparr>))"
      using assms by (simp add: st run_inv_def)
    ultimately show ?thesis using refused assms by (simp add: st d shadow_step_def ob run_inv_def)
  next
    case claimed
    define i where "i = post_id c"
    have new: "i \<notin> set (done_ids obs)" "i \<notin> ing_claims g0" using claimed(6) assms by (auto simp: st run_inv_def i_def)
    show ?thesis
    proof (cases "\<exists>u ob'. out = Inr u \<and> hydrate env now g1 ob u = Inr ob'")
      case True
      then obtain u ob' where u: "out = Inr u" "hydrate env now g1 ob u = Inr ob'" by blast
      from u(2) show ?thesis
      proof (cases rule: hydrate_cases)
        case (1 v p)
        then have "authorised (ing_authority g0) ob'"
          using assms claimed enrich_fields(1) by (auto simp: authorised_def st run_inv_def)
        with 1 u claimed assms new show ?thesis
          by (simp add: st d shadow_step_def ob run_inv_def i_def)
      qed
    next
      case False
      then obtain e where failed: "(case out of Inl e \<Rightarrow> Inl e
          | Inr u \<Rightarrow> (case hydrate env now g1 ob u of Inl _ \<Rightarrow> Inl ''ValueError'' | Inr ob' \<Rightarrow> Inr ob')) = Inl e"
        by (cases out; cases "hydrate env now g1 ob (projr out)") auto
      have step: "shadow_step env sn pd d st = (obs @ [ob\<lparr>hydration_error := e\<rparr>],
          s\<lparr>observed := observed s + 1, rs_accepted := rs_accepted s + 1, deferred_to_backfill := deferred_to_backfill s + 1\<rparr>,
          g1\<lparr>ing_claims := release i (ing_claims g1)\<rparr>)"
        using claimed(1) by (simp add: st d shadow_step_def ob Let_def failed i_def)
      have "authorised (ing_authority g0) (ob\<lparr>hydration_error := e\<rparr>)" using claimed by (simp add: authorised_def)
      then show ?thesis
        unfolding step using claimed assms [unfolded st] new by (auto simp: run_inv_def i_def release_def)
    qed
  qed
qed

lemma run_shadow_inv:
  assumes "fold (shadow_step env sn pd) ds ([], zero_summary, g) = st"
  shows "run_inv sn pd g st"
proof -
  have "run_inv sn pd g ([], zero_summary, g)" by (simp add: run_inv_def zero_summary_def done_ids_def)
  then have "run_inv sn pd g (fold (shadow_step env sn pd) ds ([], zero_summary, g))"
    by (induction ds rule: rev_induct) (auto intro: shadow_step_inv)
  with assms show ?thesis by simp
qed

section \<open>Properties\<close>

text \<open>
  C34: At most once, and the counters tell the truth: within a run no post is hydrated twice, none that
  is already seen, pending or claimed is hydrated, and a hydrated update has the identity of a
  candidate that held its claim and whose source is configured. Everything observed is accepted,
  a duplicate or rejected; everything accepted is hydrated or left to the backfill (a failing
  detector counts once more); the claims held afterwards are those held before and those of the
  hydrated posts.
\<close>

theorem hydrated_at_most_once:
  assumes "run_shadow env sn pd ds failed g = (obs, s, g')"
  shows "distinct (done_ids obs) \<and> list_all (\<lambda>i. \<not> sn i \<and> \<not> pd i \<and> i \<notin> ing_claims g) (done_ids obs) \<and>
    list_all (authorised (ing_authority g)) obs \<and>
    observed s = length obs \<and> observed s = rs_accepted s + duplicate s + rejected s \<and>
    rs_accepted s + (if failed then 1 else 0) = hydrated s + deferred_to_backfill s \<and>
    hydrated s = length (done_ids obs) \<and> ing_claims g' = ing_claims g \<union> set (done_ids obs)"
proof -
  obtain s0 where run: "fold (shadow_step env sn pd) ds ([], zero_summary, g) = (obs, s0, g')"
      and s: "s = (if failed then s0\<lparr>deferred_to_backfill := deferred_to_backfill s0 + 1\<rparr> else s0)"
    using assms by (auto simp: run_shadow_def split: prod.splits)
  from run_shadow_inv [OF run] show ?thesis by (simp add: run_inv_def s list_all_iff)
qed

text \<open>
  Authoritative retrieval wins: hydration succeeds only for an update of the claimed post by its
  configured source that respects the source's reply policy; text, time and media of the result
  are the authoritative ones, and only an empty media list is filled from the candidate.
\<close>

theorem hydration_authoritative:
  assumes "hydrate env now g ob u = Inr ob'"
  shows "ob_claimed ob \<and> (\<exists>v p. ob_hydrated ob' = Some v \<and> upd_id v = post_id (ob_candidate ob) \<and> upd_id v = upd_id u \<and>
    map_of (ing_authority g) (normalized_handle (cand_source (ob_candidate ob))) = Some p \<and>
    (says_reply u \<longrightarrow> include_replies p) \<and> body v = body u \<and> created_at v = created_at u \<and>
    media v = (if media u \<noteq> [] then media u else map (to_media_item env) (cand_media (ob_candidate ob))))"
proof -
  from assms obtain v p where *: "ob_claimed ob" "ob_hydrated ob' = Some v" "enrich env (ob_candidate ob) u = Inr v"
    "upd_id u = post_id (ob_candidate ob)" "normalized_handle (author u) = normalized_handle (cand_source (ob_candidate ob))"
    "map_of (ing_authority g) (normalized_handle (author u)) = Some p" "says_reply u \<longrightarrow> include_replies p"
    by (rule hydrate_cases)
  note enrich_fields(1-4) [OF *(3)]
  with * show ?thesis by auto
qed

text \<open>
  The reply policy can be passed by a candidate that is inconsistent: for a source without
  replies, one that names a parent post but is not flagged as a reply is accepted, the
  authoritative update without reply fields is valid, and the parent is then copied into the
  result, which by the gate's own test is a reply.
\<close>

theorem reply_policy_bypassed:
  assumes "map_of a (normalized_handle (cand_source c)) = Some p" "\<not> include_replies p"
    "\<not> is_repost c" "\<not> cand_is_reply c" "cand_reply_to c \<noteq> []"
    "upd_id u = post_id c" "normalized_handle (author u) = normalized_handle (cand_source c)" "\<not> says_reply u"
    "g = \<lparr>ing_enabled = True, ing_authority = a, ing_claims = {}\<rparr>"
  shows "\<exists>ob g' ob' v. inspect (\<lambda>_. False) (\<lambda>_. False) c g = (ob, g') \<and> hydrate env now g' ob u = Inr ob' \<and>
    ob_hydrated ob' = Some v \<and> says_reply v"
proof -
  obtain v where v: "enrich env c u = Inr v" using enrich_total by blast
  have "says_reply v" using enrich_fields(5) [OF v] assms(5) by (simp add: says_reply_def)
  moreover have "accepts (decide_candidate a c)" using assms by (simp add: decide_candidate_def)
  moreover have "validate_update a c u = Inr ()" using assms by (simp add: validate_update_def)
  ultimately show ?thesis using v assms(9) by (simp add: inspect_def claim_def hydrate_def Let_def)
qed

section \<open>Witnesses\<close>

definition demo_candidate :: "pystr \<Rightarrow> pystr \<Rightarrow> candidate" where
  "demo_candidate i parent = \<lparr>cand_source = ''src'', post_id = i, cand_created = 0, detected_at = 5,
     detection_method = ''fast_poll'', post_url = status_url ''src'' i, cand_conversation = i, cand_reply_to = parent,
     cand_is_reply = False, is_repost = False, cand_media = [], cand_attempt = []\<rparr>"

definition demo_post :: "pystr \<Rightarrow> update" where
  "demo_post i = \<lparr>upd_id = i, url = JStr [], author = ''src'', author_name = JStr [], body = JStr ''b'', created_at = 0,
     conversation_id = i, reply_to_id = JStr [], quoted_id = JStr [], quoted_text = JStr [], quoted_author = JStr [],
     quoted_media = [], lang = JStr [], media = [], category = JStr ''general'', event_key = JStr [],
     event_title = JStr [], source_priority = JInt 100, is_reply = JBool False, raw_query = JStr []\<rparr>"

definition demo_ingestor :: ingestor where
  "demo_ingestor = \<lparr>ing_enabled = True,
     ing_authority = [(''src'', \<lparr>sp_handle = ''src'', sp_enabled = True, include_replies = False\<rparr>)], ing_claims = {}\<rparr>"

definition demo_pyenv :: pyenv where "demo_pyenv = \<lparr>float_text = \<lambda>_. [], rfc_date = \<lambda>_. None\<rparr>"

definition demo_run :: "shadow_observation list \<times> run_summary \<times> ingestor" where
  "demo_run = run_shadow demo_pyenv (\<lambda>_. False) (\<lambda>_. False)
     [(demo_candidate ''1'' [], Inr (demo_post ''1''), 7), (demo_candidate ''1'' [], Inr (demo_post ''1''), 8),
      (demo_candidate ''2'' [], Inl ''TimeoutError'', 9)] False demo_ingestor"

lemma demo_src [simp]: "normalized_handle ''src'' = ''src''" by code_simp

theorem hydrated_at_most_once_witness:
  "distinct (done_ids (fst demo_run)) \<and> list_all (authorised (ing_authority demo_ingestor)) (fst demo_run) \<and>
    rs_accepted (fst (snd demo_run)) = hydrated (fst (snd demo_run)) + deferred_to_backfill (fst (snd demo_run))"
proof -
  have "demo_run = (fst demo_run, fst (snd demo_run), snd (snd demo_run))" by simp
  from hydrated_at_most_once [OF this [THEN trans [OF demo_run_def [symmetric]]]]
  show ?thesis by simp
qed

definition demo_claimed :: shadow_observation where
  "demo_claimed = fst (inspect (\<lambda>_. False) (\<lambda>_. False) (demo_candidate ''1'' []) demo_ingestor)"

lemma demo_hydrate: "\<exists>ob'. hydrate demo_pyenv 7 demo_ingestor demo_claimed (demo_post ''1'') = Inr ob'"
proof -
  obtain v where "enrich demo_pyenv (demo_candidate ''1'' []) (demo_post ''1'') = Inr v" using enrich_total by blast
  moreover have "validate_update (ing_authority demo_ingestor) (demo_candidate ''1'' []) (demo_post ''1'') = Inr ()"
    by (simp add: validate_update_def demo_ingestor_def demo_candidate_def demo_post_def says_reply_def)
  moreover have "ob_claimed demo_claimed" "ob_candidate demo_claimed = demo_candidate ''1'' []"
    by (simp_all add: demo_claimed_def inspect_def decide_candidate_def claim_def demo_ingestor_def demo_candidate_def)
  ultimately show ?thesis by (simp add: hydrate_def)
qed

theorem hydration_authoritative_witness:
  "\<exists>ob' v. hydrate demo_pyenv 7 demo_ingestor demo_claimed (demo_post ''1'') = Inr ob' \<and> ob_hydrated ob' = Some v \<and>
    body v = JStr ''b''"
proof -
  obtain ob' where "hydrate demo_pyenv 7 demo_ingestor demo_claimed (demo_post ''1'') = Inr ob'" using demo_hydrate by blast
  with hydration_authoritative [OF this] show ?thesis by (auto simp: demo_post_def)
qed

theorem reply_policy_bypassed_witness:
  "\<exists>ob g' ob' v. inspect (\<lambda>_. False) (\<lambda>_. False) (demo_candidate ''1'' ''99'') demo_ingestor = (ob, g') \<and>
    hydrate demo_pyenv 7 g' ob (demo_post ''1'') = Inr ob' \<and> ob_hydrated ob' = Some v \<and> says_reply v"
  by (rule reply_policy_bypassed [where a = "ing_authority demo_ingestor" and
        p = "\<lparr>sp_handle = ''src'', sp_enabled = True, include_replies = False\<rparr>"])
    (simp_all add: demo_ingestor_def demo_candidate_def demo_post_def says_reply_def)

end
