(* ===== verification/Outcome.thy ===== *)
theory Outcome
  imports PyJson
begin

text \<open>
  \<open>app/production_outcome.py\<close> and \<open>app/database_checkpoint_attestation.py\<close>: the structured outcome
  of a production run, its builder, classification, redaction, persistence and validation, and
  the fail-closed attestation of the database checkpoint. The artifact on disk is absent,
  unreadable, or the JSON document it holds; \<open>fr\<close> renders floats in \<open>str\<close>. The emoji log summary
  is not modelled.
\<close>

section \<open>Status\<close>

datatype outcome_status = HEALTHY | DEGRADED | RECOVERY_REQUIRED | FAILED

fun status_text :: "outcome_status \<Rightarrow> pystr" where
  "status_text HEALTHY = ''healthy''"
| "status_text DEGRADED = ''degraded''"
| "status_text RECOVERY_REQUIRED = ''recovery_required''"
| "status_text FAILED = ''failed''"

text \<open>The strict order of the classification, as a linear order of severities.\<close>

fun severity :: "outcome_status \<Rightarrow> nat" where
  "severity HEALTHY = 0"
| "severity DEGRADED = 1"
| "severity RECOVERY_REQUIRED = 2"
| "severity FAILED = 3"

lemma severity_inj: "severity a = severity b \<longleftrightarrow> a = b"
  by (cases a; cases b) simp_all

instantiation outcome_status :: linorder
begin

definition less_eq_outcome_status :: "outcome_status \<Rightarrow> outcome_status \<Rightarrow> bool" where
  "less_eq_outcome_status a b \<longleftrightarrow> severity a \<le> severity b"

definition less_outcome_status :: "outcome_status \<Rightarrow> outcome_status \<Rightarrow> bool" where
  "less_outcome_status a b \<longleftrightarrow> severity a < severity b"

instance
  by standard (auto simp: less_eq_outcome_status_def less_outcome_status_def severity_inj)

end

section \<open>Redaction\<close>

text \<open>
  The alternatives of the case-insensitive pattern: literals (lower case), an optional \<open>_\<close> or \<open>-\<close>,
  one white space character (all that \<open>\s+\<close> at the end of a searched pattern asks for), and any
  number of them.
\<close>

datatype pat = Lit char | Sep | Space | Spaces

definition lits :: "pystr \<Rightarrow> pat list" where "lits s = map Lit s"

fun pat_match :: "pat list \<Rightarrow> pystr \<Rightarrow> bool" where
  "pat_match [] s = True"
| "pat_match (Lit c # ps) s = (case s of [] \<Rightarrow> False | d # r \<Rightarrow> lower_char d = c \<and> pat_match ps r)"
| "pat_match (Sep # ps) s = (pat_match ps s \<or> (case s of [] \<Rightarrow> False | d # r \<Rightarrow> (d = CHR ''_'' \<or> d = CHR ''-'') \<and> pat_match ps r))"
| "pat_match (Space # ps) s = (case s of [] \<Rightarrow> False | d # r \<Rightarrow> py_space d \<and> pat_match ps r)"
| "pat_match (Spaces # ps) s = pat_match ps (dropWhile py_space s)"

fun pat_search :: "pat list \<Rightarrow> pystr \<Rightarrow> bool" where
  "pat_search ps [] = pat_match ps []"
| "pat_search ps (c # s) = (pat_match ps (c # s) \<or> pat_search ps s)"

definition secret_patterns :: "pat list list" where
  "secret_patterns =
     [lits ''bearer'' @ [Space], lits ''authorization'', lits ''telegram'' @ Sep # lits ''bot'' @ Sep # lits ''token'',
      lits ''x'' @ Sep # lits ''cookie'', lits ''gemini'' @ Sep # lits ''api'' @ Sep # lits ''key'',
      lits ''api'' @ Sep # lits ''key'', lits ''password'', lits ''credential'', lits ''session'' @ Sep # lits ''token'',
      lits ''auth'' @ Sep # lits ''token'', lits ''cookie'' @ [Spaces, Lit (CHR ''='')]]"

definition has_secret :: "pystr \<Rightarrow> bool" where
  "has_secret s \<longleftrightarrow> list_ex (\<lambda>p. pat_search p s) secret_patterns"

definition redacted_fields :: "pystr set" where
  "redacted_fields = {''telegram_token'', ''x_cookies'', ''gemini_api_key'', ''TELEGRAM_BOT_TOKEN'', ''X_COOKIE'', ''GEMINI_API_KEY''}"

definition redact_text :: "pystr \<Rightarrow> pystr" where
  "redact_text s = (if has_secret s then ''<redacted>'' else s)"

fun redact_value :: "json \<Rightarrow> json" where
  "redact_value (JStr s) = JStr (redact_text s)"
| "redact_value (JObj kvs) = JObj (map (\<lambda>kv. (fst kv, redact_value (snd kv))) kvs)"
| "redact_value (JList xs) = JList (map redact_value xs)"
| "redact_value v = v"

definition redact_outcome :: "pydict \<Rightarrow> pydict" where
  "redact_outcome d = map (\<lambda>kv. (fst kv, redact_value (snd kv))) (filter (\<lambda>kv. fst kv \<notin> redacted_fields) d)"

section \<open>The outcome\<close>

record collection_outcome =
  configured_sources :: int
  active_sources :: int
  attempted_sources :: int
  complete_sources :: int
  partial_sources :: int
  failed_sources :: int
  disabled_sources :: int
  failed_handles :: "pystr list"
  failed_reasons :: "pystr list"
  fallback_sources :: int
  collection_complete :: bool

record discovery_outcome =
  discovered_records :: int
  retained_candidates :: int
  duplicate_drops :: int
  filtered_drops :: int

record ai_outcome =
  ai_attempted :: int
  ai_successful :: int
  ai_failed :: int
  ai_timeouts :: int
  fallback_writers :: int
  translation_deferrals :: int
  manual_reviews :: int

record telegram_outcome =
  deliveries_attempted :: int
  deliveries_ok :: int
  deliveries_failed :: int
  media_ok :: int
  media_failed :: int

record state_outcome =
  state_checkpoint :: bool
  database_attempted :: bool
  database_success :: bool
  cursor_moved :: bool
  cursor_reason :: pystr
  backlog_count :: int
  backlog_present :: bool
  recovery_artifact :: bool

record recovery_outcome =
  recovery_needed :: bool
  recovery_reason :: pystr
  dispatch_recommended :: bool
  previous_context :: pystr

record outcome =
  schema_version :: int
  oc_run :: pystr
  run_started :: pystr
  run_finished :: pystr
  trigger_event :: pystr
  commit_sha :: pystr
  collection :: collection_outcome
  discovery :: discovery_outcome
  ai :: ai_outcome
  telegram :: telegram_outcome
  state :: state_outcome
  recovery :: recovery_outcome
  status_of_run :: pystr
  reasons_of_run :: "json list"
  useful_work :: bool

definition fresh_outcome :: outcome where
  "fresh_outcome = \<lparr>schema_version = 1, oc_run = [], run_started = [], run_finished = [], trigger_event = [],
     commit_sha = [],
     collection = \<lparr>configured_sources = 0, active_sources = 0, attempted_sources = 0, complete_sources = 0,
       partial_sources = 0, failed_sources = 0, disabled_sources = 0, failed_handles = [], failed_reasons = [],
       fallback_sources = 0, collection_complete = False\<rparr>,
     discovery = \<lparr>discovered_records = 0, retained_candidates = 0, duplicate_drops = 0, filtered_drops = 0\<rparr>,
     ai = \<lparr>ai_attempted = 0, ai_successful = 0, ai_failed = 0, ai_timeouts = 0, fallback_writers = 0,
       translation_deferrals = 0, manual_reviews = 0\<rparr>,
     telegram = \<lparr>deliveries_attempted = 0, deliveries_ok = 0, deliveries_failed = 0, media_ok = 0, media_failed = 0\<rparr>,
     state = \<lparr>state_checkpoint = False, database_attempted = False, database_success = False, cursor_moved = False,
       cursor_reason = [], backlog_count = 0, backlog_present = False, recovery_artifact = False\<rparr>,
     recovery = \<lparr>recovery_needed = False, recovery_reason = [], dispatch_recommended = False, previous_context = []\<rparr>,
     status_of_run = status_text HEALTHY, reasons_of_run = [], useful_work = True\<rparr>"

definition outcome_to_dict :: "outcome \<Rightarrow> pydict" where
  "outcome_to_dict o' = redact_outcome
     (let c = collection o'; d = discovery o'; a = ai o'; t = telegram o'; s = state o'; r = recovery o' in
     [(''schema_version'', JInt (schema_version o')), (''run_id'', JStr (oc_run o')),
      (''run_started_at'', JStr (run_started o')), (''run_finished_at'', JStr (run_finished o')),
      (''trigger_event'', JStr (trigger_event o')), (''commit_sha'', JStr (commit_sha o')),
      (''source_collection'', JObj
        [(''configured_source_count'', JInt (configured_sources c)), (''active_source_count'', JInt (active_sources c)),
         (''attempted_source_count'', JInt (attempted_sources c)), (''complete_source_count'', JInt (complete_sources c)),
         (''partial_source_count'', JInt (partial_sources c)), (''failed_source_count'', JInt (failed_sources c)),
         (''disabled_source_count'', JInt (disabled_sources c)),
         (''failed_source_handles'', JList (map JStr (failed_handles c))),
         (''failed_source_reasons'', JList (map JStr (failed_reasons c))),
         (''fallback_source_count'', JInt (fallback_sources c)), (''collection_complete'', JBool (collection_complete c))]),
      (''discovery'', JObj
        [(''discovered_record_count'', JInt (discovered_records d)), (''retained_candidate_count'', JInt (retained_candidates d)),
         (''duplicate_drop_count'', JInt (duplicate_drops d)), (''filtered_drop_count'', JInt (filtered_drops d))]),
      (''ai'', JObj
        [(''ai_jobs_attempted'', JInt (ai_attempted a)), (''ai_jobs_successful'', JInt (ai_successful a)),
         (''ai_jobs_failed'', JInt (ai_failed a)), (''ai_timeout_count'', JInt (ai_timeouts a)),
         (''fallback_writer_count'', JInt (fallback_writers a)),
         (''translation_deferral_count'', JInt (translation_deferrals a)), (''manual_review_count'', JInt (manual_reviews a))]),
      (''telegram'', JObj
        [(''delivery_attempt_count'', JInt (deliveries_attempted t)), (''delivery_success_count'', JInt (deliveries_ok t)),
         (''delivery_failure_count'', JInt (deliveries_failed t)), (''media_delivery_success_count'', JInt (media_ok t)),
         (''media_delivery_failure_count'', JInt (media_failed t))]),
      (''state'', JObj
        [(''state_checkpoint_success'', JBool (state_checkpoint s)), (''database_checkpoint_attempted'', JBool (database_attempted s)),
         (''database_checkpoint_success'', JBool (database_success s)), (''cursor_advanced'', JBool (cursor_moved s)),
         (''cursor_reason'', JStr (cursor_reason s)), (''backlog_count'', JInt (backlog_count s)),
         (''backlog_present'', JBool (backlog_present s)), (''recovery_artifact_created'', JBool (recovery_artifact s))]),
      (''recovery'', JObj
        [(''recovery_required'', JBool (recovery_needed r)), (''recovery_reason'', JStr (recovery_reason r)),
         (''recovery_dispatch_recommended'', JBool (dispatch_recommended r)),
         (''previous_recovery_context'', JStr (previous_context r))]),
      (''outcome_status'', JStr (status_of_run o')), (''outcome_reasons'', JList (reasons_of_run o')),
      (''useful_work_performed'', JBool (useful_work o'))])"

section \<open>Classification\<close>

definition failure_reason :: "outcome \<Rightarrow> pystr option" where
  "failure_reason o' = (let c = collection o'; s = state o' in
     if 0 < active_sources c \<and> complete_sources c = 0 \<and> failed_sources c = active_sources c
     then Some ''all_active_sources_failed''
     else if \<not> state_checkpoint s \<and> 0 < attempted_sources c then Some ''state_checkpoint_failed''
     else if database_attempted s \<and> \<not> database_success s then Some ''database_checkpoint_failed''
     else None)"

definition reasons_if :: "(bool \<times> pystr) list \<Rightarrow> pystr list" where
  "reasons_if cs = map snd (filter fst cs)"

definition large_backlog :: "outcome \<Rightarrow> bool" where
  "large_backlog o' \<longleftrightarrow> backlog_present (state o') \<and> 100 < backlog_count (state o')"

definition recovery_reasons :: "outcome \<Rightarrow> pystr list" where
  "recovery_reasons o' = reasons_if
     [(\<not> collection_complete (collection o') \<and> 0 < partial_sources (collection o') \<and> \<not> cursor_moved (state o'),
        ''partial_collection_cursor_held''),
      (large_backlog o', ''large_backlog_accumulated''),
      (dispatch_recommended (recovery o'), ''recovery_dispatch_recommended'')]"

definition degraded_reasons :: "outcome \<Rightarrow> pystr list" where
  "degraded_reasons o' = (let c = collection o'; a = ai o'; t = telegram o'; s = state o' in reasons_if
     [(0 < partial_sources c \<and> failed_sources c < active_sources c, ''partial_source_collection''),
      (0 < fallback_writers a, ''ai_fallback_used''),
      (0 < translation_deferrals a, ''translation_deferred''),
      (0 < deliveries_failed t \<and> deliveries_failed t < deliveries_attempted t, ''partial_telegram_failure''),
      (0 < deliveries_failed t \<and> 0 < deliveries_attempted t \<and> deliveries_ok t = 0, ''total_telegram_failure''),
      (0 < media_failed t, ''media_delivery_partial_failure''),
      (large_backlog o', ''large_backlog_accumulated''),
      (\<not> cursor_moved s \<and> 0 < attempted_sources c \<and> collection_complete c, ''cursor_not_advanced'')])"

definition classify_outcome :: "outcome \<Rightarrow> outcome_status \<times> pystr list" where
  "classify_outcome o' = (case failure_reason o' of
       Some r \<Rightarrow> (FAILED, [r])
     | None \<Rightarrow>
         let rs = recovery_reasons o' in
         if list_ex (\<lambda>r. r \<in> {''partial_collection_cursor_held'', ''recovery_dispatch_recommended''}) rs
         then (RECOVERY_REQUIRED, rs)
         else let ds = degraded_reasons o' in if ds \<noteq> [] then (DEGRADED, ds) else (HEALTHY, []))"

definition detect_useful_work :: "outcome \<Rightarrow> bool" where
  "detect_useful_work o' \<longleftrightarrow> collection_complete (collection o') \<or> 0 < deliveries_ok (telegram o') \<or>
     0 < retained_candidates (discovery o') \<or> 0 < ai_successful (ai o') \<or>
     \<not> (0 < attempted_sources (collection o') \<and> complete_sources (collection o') = 0)"

definition classified :: "outcome \<Rightarrow> outcome" where
  "classified o' = (let (st, rs) = classify_outcome o'
     in o'\<lparr>status_of_run := status_text st, reasons_of_run := map JStr rs\<rparr>)"

section \<open>Safe tokens\<close>

definition is_letter :: "char \<Rightarrow> bool" where
  "is_letter c \<longleftrightarrow> (let n = (of_char c :: nat) in (65 \<le> n \<and> n \<le> 90) \<or> (97 \<le> n \<and> n \<le> 122))"

definition is_word :: "char \<Rightarrow> bool" where
  "is_word c \<longleftrightarrow> is_letter c \<or> is_digit c \<or> c = CHR ''_''"

definition normalize_source_handle :: "pystr \<Rightarrow> pystr" where
  "normalize_source_handle h = (let v = py_lower (py_strip (py_lstrip_at h)) in
     if v \<noteq> [] \<and> length v \<le> 15 \<and> list_all is_word v then v else ''unknown_source'')"

fun occurs_in :: "pystr \<Rightarrow> pystr \<Rightarrow> bool" where
  "occurs_in w [] = (w = [])"
| "occurs_in w (c # s) = (take (length w) (c # s) = w \<or> occurs_in w s)"

definition secret_words :: "pystr list" where
  "secret_words = [''token'', ''cookie'', ''secret'', ''auth'', ''password'', ''credential'']"

definition truncate_error_class :: "pystr \<Rightarrow> pystr" where
  "truncate_error_class e = (case dropWhile (\<lambda>c. \<not> is_letter c) (py_strip e) of
       [] \<Rightarrow> ''Error''
     | c # r \<Rightarrow> let candidate = c # takeWhile is_word (take 63 r) in
         if list_ex (\<lambda>w. occurs_in w (py_casefold candidate)) secret_words then ''Error'' else candidate)"

section \<open>The builder\<close>

datatype builder_op =
    SetSourceTotals int int int
  | RecordSourceAttempt pystr bool pystr
  | SetFallbackCount int
  | MarkCollectionComplete
  | SetDiscovery int int int int
  | RecordAiJob bool bool bool
  | RecordTranslationDeferral int
  | RecordManualReview int
  | RecordDelivery bool
  | RecordMediaDelivery bool
  | MarkStateCheckpoint bool
  | MarkDatabaseCheckpoint bool
  | SetCursor bool pystr
  | SetBacklog int
  | MarkRecoveryArtifact bool
  | SetRecovery bool pystr bool pystr
  | Finalize instant

definition record_source_attempt :: "pystr \<Rightarrow> bool \<Rightarrow> pystr \<Rightarrow> collection_outcome \<Rightarrow> collection_outcome" where
  "record_source_attempt h complete err c = (let c1 = c\<lparr>attempted_sources := attempted_sources c + 1\<rparr> in
     if complete then c1\<lparr>complete_sources := complete_sources c + 1\<rparr>
     else if err \<noteq> [] then c1\<lparr>failed_sources := failed_sources c + 1,
       failed_handles := failed_handles c @ [normalize_source_handle h],
       failed_reasons := failed_reasons c @ [truncate_error_class err]\<rparr>
     else c1\<lparr>partial_sources := partial_sources c + 1\<rparr>)"

definition record_ai_job :: "bool \<Rightarrow> bool \<Rightarrow> bool \<Rightarrow> ai_outcome \<Rightarrow> ai_outcome" where
  "record_ai_job success timeout fallback a = a\<lparr>ai_attempted := ai_attempted a + 1,
     ai_successful := ai_successful a + of_bool success, ai_failed := ai_failed a + of_bool (\<not> success),
     ai_timeouts := ai_timeouts a + of_bool timeout, fallback_writers := fallback_writers a + of_bool fallback\<rparr>"

definition record_delivery :: "bool \<Rightarrow> telegram_outcome \<Rightarrow> telegram_outcome" where
  "record_delivery success t = t\<lparr>deliveries_attempted := deliveries_attempted t + 1,
     deliveries_ok := deliveries_ok t + of_bool success, deliveries_failed := deliveries_failed t + of_bool (\<not> success)\<rparr>"

definition record_media_delivery :: "bool \<Rightarrow> telegram_outcome \<Rightarrow> telegram_outcome" where
  "record_media_delivery success t = t\<lparr>media_ok := media_ok t + of_bool success, media_failed := media_failed t + of_bool (\<not> success)\<rparr>"

definition finalize :: "instant \<Rightarrow> outcome \<Rightarrow> outcome" where
  "finalize now o' = (let o1 = classified (o'\<lparr>run_finished := isoformat now\<rparr>) in o1\<lparr>useful_work := detect_useful_work o1\<rparr>)"

definition builder_init :: "pystr \<Rightarrow> pystr \<Rightarrow> pystr \<Rightarrow> instant \<Rightarrow> outcome" where
  "builder_init run trigger sha now =
     fresh_outcome\<lparr>oc_run := run, run_started := isoformat now, trigger_event := trigger, commit_sha := sha\<rparr>"

fun builder_step :: "builder_op \<Rightarrow> outcome \<Rightarrow> outcome" where
  "builder_step (SetSourceTotals configured act disabled) o' = o'\<lparr>collection := (collection o')\<lparr>
     configured_sources := configured, active_sources := act, disabled_sources := disabled\<rparr>\<rparr>"
| "builder_step (RecordSourceAttempt h complete err) o' = o'\<lparr>collection := record_source_attempt h complete err (collection o')\<rparr>"
| "builder_step (SetFallbackCount n) o' = o'\<lparr>collection := (collection o')\<lparr>fallback_sources := n\<rparr>\<rparr>"
| "builder_step MarkCollectionComplete o' = o'\<lparr>collection := (collection o')\<lparr>collection_complete := True\<rparr>\<rparr>"
| "builder_step (SetDiscovery d r dup fil) o' = o'\<lparr>discovery := \<lparr>discovered_records = d, retained_candidates = r,
     duplicate_drops = dup, filtered_drops = fil\<rparr>\<rparr>"
| "builder_step (RecordAiJob success timeout fallback) o' = o'\<lparr>ai := record_ai_job success timeout fallback (ai o')\<rparr>"
| "builder_step (RecordTranslationDeferral n) o' = o'\<lparr>ai := (ai o')\<lparr>translation_deferrals := translation_deferrals (ai o') + n\<rparr>\<rparr>"
| "builder_step (RecordManualReview n) o' = o'\<lparr>ai := (ai o')\<lparr>manual_reviews := manual_reviews (ai o') + n\<rparr>\<rparr>"
| "builder_step (RecordDelivery success) o' = o'\<lparr>telegram := record_delivery success (telegram o')\<rparr>"
| "builder_step (RecordMediaDelivery success) o' = o'\<lparr>telegram := record_media_delivery success (telegram o')\<rparr>"
| "builder_step (MarkStateCheckpoint success) o' = o'\<lparr>state := (state o')\<lparr>state_checkpoint := success\<rparr>\<rparr>"
| "builder_step (MarkDatabaseCheckpoint success) o' = o'\<lparr>state := (state o')\<lparr>database_attempted := True, database_success := success\<rparr>\<rparr>"
| "builder_step (SetCursor adv why) o' = o'\<lparr>state := (state o')\<lparr>cursor_moved := adv, cursor_reason := why\<rparr>\<rparr>"
| "builder_step (SetBacklog n) o' = o'\<lparr>state := (state o')\<lparr>backlog_count := n, backlog_present := 0 < n\<rparr>\<rparr>"
| "builder_step (MarkRecoveryArtifact created) o' = o'\<lparr>state := (state o')\<lparr>recovery_artifact := created\<rparr>\<rparr>"
| "builder_step (SetRecovery required why dispatch context') o' = o'\<lparr>recovery := \<lparr>recovery_needed = required,
     recovery_reason = why, dispatch_recommended = dispatch, previous_context = context'\<rparr>\<rparr>"
| "builder_step (Finalize now) o' = finalize now o'"

section \<open>Validation\<close>

text \<open>The documented exception, and any other that escapes.\<close>

datatype outcome_exc = OutcomeValidationError | Escaped py_exc

definition int_field :: "pydict \<Rightarrow> pystr \<Rightarrow> outcome_exc + int" where
  "int_field d k = (case guarded_int (dict_get d k (JInt 0)) of Inl e \<Rightarrow> Inl (Escaped e) | Inr i \<Rightarrow> Inr (max 0 i))"

definition str_list_field :: "(pyfloat \<Rightarrow> pystr) \<Rightarrow> pydict \<Rightarrow> pystr \<Rightarrow> pystr list" where
  "str_list_field fr d k = (case dict_get d k JNull of
       JList xs \<Rightarrow> map (\<lambda>v. take 80 (py_str fr v)) (filter (\<lambda>v. v \<noteq> JNull) xs) | _ \<Rightarrow> [])"

definition bool_field :: "pydict \<Rightarrow> pystr \<Rightarrow> bool \<Rightarrow> bool" where
  "bool_field d k dflt = truthy (dict_get d k (JBool dflt))"

definition str_field :: "(pyfloat \<Rightarrow> pystr) \<Rightarrow> pydict \<Rightarrow> pystr \<Rightarrow> pystr" where
  "str_field fr d k = py_str fr (dict_get d k (JStr []))"

text \<open>A sub-outcome is rebuilt only from an object; any other value leaves the defaults.\<close>

definition sub_field :: "pydict \<Rightarrow> pystr \<Rightarrow> 'a \<Rightarrow> (pydict \<Rightarrow> outcome_exc + 'a) \<Rightarrow> outcome_exc + 'a" where
  "sub_field d k dflt f = (case dict_get d k JNull of JObj r \<Rightarrow> f r | _ \<Rightarrow> Inr dflt)"

definition validate_collection :: "(pyfloat \<Rightarrow> pystr) \<Rightarrow> pydict \<Rightarrow> outcome_exc + collection_outcome" where
  "validate_collection fr r =
     bindE (int_field r ''configured_source_count'') (\<lambda>n1. bindE (int_field r ''active_source_count'') (\<lambda>n2.
     bindE (int_field r ''attempted_source_count'') (\<lambda>n3. bindE (int_field r ''complete_source_count'') (\<lambda>n4.
     bindE (int_field r ''partial_source_count'') (\<lambda>n5. bindE (int_field r ''failed_source_count'') (\<lambda>n6.
     bindE (int_field r ''disabled_source_count'') (\<lambda>n7. bindE (int_field r ''fallback_source_count'') (\<lambda>n8.
     Inr \<lparr>configured_sources = n1, active_sources = n2, attempted_sources = n3, complete_sources = n4,
        partial_sources = n5, failed_sources = n6, disabled_sources = n7,
        failed_handles = str_list_field fr r ''failed_source_handles'',
        failed_reasons = str_list_field fr r ''failed_source_reasons'', fallback_sources = n8,
        collection_complete = bool_field r ''collection_complete'' False\<rparr>))))))))"

definition validate_discovery :: "pydict \<Rightarrow> outcome_exc + discovery_outcome" where
  "validate_discovery r =
     bindE (int_field r ''discovered_record_count'') (\<lambda>n1. bindE (int_field r ''retained_candidate_count'') (\<lambda>n2.
     bindE (int_field r ''duplicate_drop_count'') (\<lambda>n3. bindE (int_field r ''filtered_drop_count'') (\<lambda>n4.
     Inr \<lparr>discovered_records = n1, retained_candidates = n2, duplicate_drops = n3, filtered_drops = n4\<rparr>))))"

definition validate_ai :: "pydict \<Rightarrow> outcome_exc + ai_outcome" where
  "validate_ai r =
     bindE (int_field r ''ai_jobs_attempted'') (\<lambda>n1. bindE (int_field r ''ai_jobs_successful'') (\<lambda>n2.
     bindE (int_field r ''ai_jobs_failed'') (\<lambda>n3. bindE (int_field r ''ai_timeout_count'') (\<lambda>n4.
     bindE (int_field r ''fallback_writer_count'') (\<lambda>n5. bindE (int_field r ''translation_deferral_count'') (\<lambda>n6.
     bindE (int_field r ''manual_review_count'') (\<lambda>n7.
     Inr \<lparr>ai_attempted = n1, ai_successful = n2, ai_failed = n3, ai_timeouts = n4, fallback_writers = n5,
        translation_deferrals = n6, manual_reviews = n7\<rparr>)))))))"

definition validate_telegram :: "pydict \<Rightarrow> outcome_exc + telegram_outcome" where
  "validate_telegram r =
     bindE (int_field r ''delivery_attempt_count'') (\<lambda>n1. bindE (int_field r ''delivery_success_count'') (\<lambda>n2.
     bindE (int_field r ''delivery_failure_count'') (\<lambda>n3. bindE (int_field r ''media_delivery_success_count'') (\<lambda>n4.
     bindE (int_field r ''media_delivery_failure_count'') (\<lambda>n5.
     Inr \<lparr>deliveries_attempted = n1, deliveries_ok = n2, deliveries_failed = n3, media_ok = n4, media_failed = n5\<rparr>)))))"

definition validate_state :: "(pyfloat \<Rightarrow> pystr) \<Rightarrow> pydict \<Rightarrow> outcome_exc + state_outcome" where
  "validate_state fr r = bindE (int_field r ''backlog_count'') (\<lambda>n.
     Inr \<lparr>state_checkpoint = bool_field r ''state_checkpoint_success'' False,
        database_attempted = bool_field r ''database_checkpoint_attempted'' False,
        database_success = bool_field r ''database_checkpoint_success'' False,
        cursor_moved = bool_field r ''cursor_advanced'' False, cursor_reason = str_field fr r ''cursor_reason'',
        backlog_count = n, backlog_present = bool_field r ''backlog_present'' False,
        recovery_artifact = bool_field r ''recovery_artifact_created'' False\<rparr>)"

definition validate_recovery :: "(pyfloat \<Rightarrow> pystr) \<Rightarrow> pydict \<Rightarrow> outcome_exc + recovery_outcome" where
  "validate_recovery fr r =
     Inr \<lparr>recovery_needed = bool_field r ''recovery_required'' False, recovery_reason = str_field fr r ''recovery_reason'',
        dispatch_recommended = bool_field r ''recovery_dispatch_recommended'' False,
        previous_context = str_field fr r ''previous_recovery_context''\<rparr>"

text \<open>
  \<open>raw_status not in {...}\<close> hashes the value: a list or an object raises \<open>TypeError\<close>.
  \<open>int(schema_version)\<close> guards against \<open>TypeError\<close> and \<open>ValueError\<close> only.
\<close>

definition valid_status :: "json \<Rightarrow> outcome_exc + pystr" where
  "valid_status v = (case v of
       JStr t \<Rightarrow> if t \<in> status_text ` {HEALTHY, DEGRADED, RECOVERY_REQUIRED, FAILED} then Inr t else Inl OutcomeValidationError
     | JList _ \<Rightarrow> Inl (Escaped TypeError)
     | JObj _ \<Rightarrow> Inl (Escaped TypeError)
     | _ \<Rightarrow> Inl OutcomeValidationError)"

definition valid_version :: "json \<Rightarrow> outcome_exc + int" where
  "valid_version v = (case v of JNull \<Rightarrow> Inl OutcomeValidationError
     | _ \<Rightarrow> (case py_int v of
         Inl TypeError \<Rightarrow> Inl OutcomeValidationError
       | Inl ValueError \<Rightarrow> Inl OutcomeValidationError
       | Inl e \<Rightarrow> Inl (Escaped e)
       | Inr n \<Rightarrow> if n < 1 \<or> 1 < n then Inl OutcomeValidationError else Inr n))"

definition validate_outcome :: "(pyfloat \<Rightarrow> pystr) \<Rightarrow> json \<Rightarrow> outcome_exc + outcome" where
  "validate_outcome fr doc = (case doc of JObj d \<Rightarrow>
       bindE (valid_version (dict_get d ''schema_version'' JNull)) (\<lambda>version.
       bindE (valid_status (dict_get d ''outcome_status'' (JStr []))) (\<lambda>st.
       bindE (sub_field d ''source_collection'' (collection fresh_outcome) (validate_collection fr)) (\<lambda>c.
       bindE (sub_field d ''discovery'' (discovery fresh_outcome) validate_discovery) (\<lambda>di.
       bindE (sub_field d ''ai'' (ai fresh_outcome) validate_ai) (\<lambda>a.
       bindE (sub_field d ''telegram'' (telegram fresh_outcome) validate_telegram) (\<lambda>t.
       bindE (sub_field d ''state'' (state fresh_outcome) (validate_state fr)) (\<lambda>s.
       bindE (sub_field d ''recovery'' (recovery fresh_outcome) (validate_recovery fr)) (\<lambda>r.
       Inr \<lparr>schema_version = version, oc_run = str_field fr d ''run_id'', run_started = str_field fr d ''run_started_at'',
          run_finished = str_field fr d ''run_finished_at'', trigger_event = str_field fr d ''trigger_event'',
          commit_sha = str_field fr d ''commit_sha'', collection = c, discovery = di, ai = a, telegram = t, state = s,
          recovery = r, status_of_run = st,
          reasons_of_run = (case dict_get d ''outcome_reasons'' JNull of JList xs \<Rightarrow> xs | _ \<Rightarrow> []),
          useful_work = bool_field d ''useful_work_performed'' True\<rparr>))))))))
     | _ \<Rightarrow> Inl OutcomeValidationError)"

section \<open>The artifact and its attestation\<close>

datatype outcome_file = NoArtifact | Unreadable | Malformed | Document json

definition save_outcome :: "outcome \<Rightarrow> outcome_file \<Rightarrow> outcome_file" where
  "save_outcome o' f = Document (JObj (outcome_to_dict o'))"

definition load_outcome :: "(pyfloat \<Rightarrow> pystr) \<Rightarrow> outcome_file \<Rightarrow> outcome_exc + outcome" where
  "load_outcome fr f = (case f of Document doc \<Rightarrow> validate_outcome fr doc | _ \<Rightarrow> Inl OutcomeValidationError)"

text \<open>
  What the database answers: whether the file is there, whether SQLite raised an error, whether
  \<open>quick_check\<close> said ok, and the checkpoint row (\<open>None\<close> when absent or short).
\<close>

record database_probe =
  is_file :: bool
  sqlite_error :: bool
  quick_ok :: bool
  checkpoint_row :: "(int \<times> int \<times> int) option"

definition probe_ok :: "database_probe \<Rightarrow> bool" where
  "probe_ok p \<longleftrightarrow> is_file p \<and> \<not> sqlite_error p \<and> quick_ok p \<and>
     (case checkpoint_row p of None \<Rightarrow> False | Some (busy, frames, moved) \<Rightarrow> busy = 0 \<and> moved = frames)"

definition persist_checkpoint :: "bool \<Rightarrow> outcome \<Rightarrow> outcome_file \<Rightarrow> outcome \<times> outcome_file" where
  "persist_checkpoint success o' f =
     (let o1 = classified (o'\<lparr>state := (state o')\<lparr>database_attempted := True, database_success := success\<rparr>\<rparr>)
      in (o1, save_outcome o1 f))"

text \<open>An attestation may be cut off after its first write: \<open>died\<close> says the process stopped there.\<close>

datatype attestation = Attested | Refused | Uncaught py_exc | Interrupted

definition attest_database_checkpoint ::
    "(pyfloat \<Rightarrow> pystr) \<Rightarrow> database_probe \<Rightarrow> bool \<Rightarrow> outcome_file \<Rightarrow> attestation \<times> outcome_file" where
  "attest_database_checkpoint fr p died f = (case load_outcome fr f of
       Inl OutcomeValidationError \<Rightarrow> (Refused, f)
     | Inl (Escaped e) \<Rightarrow> (Uncaught e, f)
     | Inr o0 \<Rightarrow> let (o1, f1) = persist_checkpoint False o0 f in
         if died then (Interrupted, f1)
         else if \<not> probe_ok p then (Refused, f1)
         else let (o2, f2) = persist_checkpoint True o1 f1 in (Attested, f2))"

section \<open>The classification is the worst concern\<close>

definition concerns :: "outcome \<Rightarrow> (bool \<times> outcome_status) list" where
  "concerns o' = (let c = collection o'; a = ai o'; t = telegram o'; s = state o' in
     [(0 < active_sources c \<and> complete_sources c = 0 \<and> failed_sources c = active_sources c, FAILED),
      (\<not> state_checkpoint s \<and> 0 < attempted_sources c, FAILED),
      (database_attempted s \<and> \<not> database_success s, FAILED),
      (\<not> collection_complete c \<and> 0 < partial_sources c \<and> \<not> cursor_moved s, RECOVERY_REQUIRED),
      (dispatch_recommended (recovery o'), RECOVERY_REQUIRED),
      (large_backlog o', DEGRADED),
      (0 < partial_sources c \<and> failed_sources c < active_sources c, DEGRADED),
      (0 < fallback_writers a, DEGRADED),
      (0 < translation_deferrals a, DEGRADED),
      (0 < deliveries_failed t \<and> deliveries_failed t < deliveries_attempted t, DEGRADED),
      (0 < deliveries_failed t \<and> 0 < deliveries_attempted t \<and> deliveries_ok t = 0, DEGRADED),
      (0 < media_failed t, DEGRADED),
      (\<not> cursor_moved s \<and> 0 < attempted_sources c \<and> collection_complete c, DEGRADED)])"

lemmas status_order = less_eq_outcome_status_def less_outcome_status_def

lemma max_status:
  "fold max xs s = (if FAILED \<in> set (s # xs) then FAILED else if RECOVERY_REQUIRED \<in> set (s # xs) then RECOVERY_REQUIRED
     else if DEGRADED \<in> set (s # xs) then DEGRADED else HEALTHY)"
proof (induction xs arbitrary: s)
  case Nil
  show ?case by (cases s) simp_all
next
  case (Cons x xs)
  have "max x s = (if FAILED \<in> {s, x} then FAILED else if RECOVERY_REQUIRED \<in> {s, x} then RECOVERY_REQUIRED
     else if DEGRADED \<in> {s, x} then DEGRADED else HEALTHY)"
    by (cases x; cases s) (simp_all add: max_def status_order)
  with Cons show ?case by (cases x; cases s) simp_all
qed

lemma raised: "v \<in> set (map snd (filter fst cs)) \<longleftrightarrow> (True, v) \<in> set cs"
  by force

lemma reasons_if_simps [simp]:
  "reasons_if [] = []" "reasons_if ((b, r) # cs) = (if b then r # reasons_if cs else reasons_if cs)"
  by (simp_all add: reasons_if_def)

lemma failure_concern: "failure_reason o' \<noteq> None \<longleftrightarrow> (True, FAILED) \<in> set (concerns o')"
  by (simp add: failure_reason_def concerns_def Let_def)

lemma recovery_concern:
  "list_ex (\<lambda>r. r \<in> {''partial_collection_cursor_held'', ''recovery_dispatch_recommended''}) (recovery_reasons o') \<longleftrightarrow>
    (True, RECOVERY_REQUIRED) \<in> set (concerns o')"
  by (simp add: recovery_reasons_def concerns_def Let_def)

lemma degraded_concern: "degraded_reasons o' \<noteq> [] \<longleftrightarrow> (True, DEGRADED) \<in> set (concerns o')"
  by (simp add: degraded_reasons_def concerns_def Let_def)

section \<open>Redaction and round trip\<close>

fun clean :: "json \<Rightarrow> bool" where
  "clean (JStr s) = (\<not> has_secret s)"
| "clean (JObj kvs) = list_all (\<lambda>kv. clean (snd kv)) kvs"
| "clean (JList xs) = list_all clean xs"
| "clean v = True"

lemma marker_clean: "\<not> has_secret ''<redacted>''" by code_simp

lemma redact_text_clean [simp]: "\<not> has_secret (redact_text s)"
  by (simp add: redact_text_def marker_clean)

lemma redact_value_clean [simp]: "clean (redact_value v)"
  by (induction v rule: redact_value.induct) (auto simp: list_all_iff)

lemma redact_outcome_clean [simp]: "clean (JObj (redact_outcome d))"
  by (simp add: redact_outcome_def list_all_iff)

definition redacted :: "outcome \<Rightarrow> outcome" where
  "redacted o' = o'\<lparr>oc_run := redact_text (oc_run o'), run_started := redact_text (run_started o'),
     run_finished := redact_text (run_finished o'), trigger_event := redact_text (trigger_event o'),
     commit_sha := redact_text (commit_sha o'),
     collection := (collection o')\<lparr>failed_handles := map redact_text (failed_handles (collection o')),
       failed_reasons := map redact_text (failed_reasons (collection o'))\<rparr>,
     state := (state o')\<lparr>cursor_reason := redact_text (cursor_reason (state o'))\<rparr>,
     recovery := (recovery o')\<lparr>recovery_reason := redact_text (recovery_reason (recovery o')),
       previous_context := redact_text (previous_context (recovery o'))\<rparr>,
     reasons_of_run := map redact_value (reasons_of_run o')\<rparr>"

definition counts_ok :: "outcome \<Rightarrow> bool" where
  "counts_ok o' \<longleftrightarrow> list_all (\<lambda>n. 0 \<le> n)
     [configured_sources (collection o'), active_sources (collection o'), attempted_sources (collection o'),
      complete_sources (collection o'), partial_sources (collection o'), failed_sources (collection o'),
      disabled_sources (collection o'), fallback_sources (collection o'),
      discovered_records (discovery o'), retained_candidates (discovery o'), duplicate_drops (discovery o'),
      filtered_drops (discovery o'), ai_attempted (ai o'), ai_successful (ai o'), ai_failed (ai o'), ai_timeouts (ai o'),
      fallback_writers (ai o'), translation_deferrals (ai o'), manual_reviews (ai o'),
      deliveries_attempted (telegram o'), deliveries_ok (telegram o'), deliveries_failed (telegram o'),
      media_ok (telegram o'), media_failed (telegram o'), backlog_count (state o')]"

definition wf_outcome :: "outcome \<Rightarrow> bool" where
  "wf_outcome o' \<longleftrightarrow> schema_version o' = 1 \<and> counts_ok o' \<and>
     status_of_run o' \<in> status_text ` {HEALTHY, DEGRADED, RECOVERY_REQUIRED, FAILED} \<and>
     list_all (\<lambda>t. length t \<le> 80) (failed_handles (collection o') @ failed_reasons (collection o'))"

lemma status_clean: "\<not> has_secret ''healthy''" "\<not> has_secret ''degraded''" "\<not> has_secret ''recovery_required''" "\<not> has_secret ''failed''"
  by code_simp+

lemma redact_status: "t \<in> status_text ` {HEALTHY, DEGRADED, RECOVERY_REQUIRED, FAILED} \<Longrightarrow> redact_text t = t"
  using status_clean by (auto simp: redact_text_def)

lemma int_field_JInt: "dict_get d k (JInt 0) = JInt n \<Longrightarrow> 0 \<le> n \<Longrightarrow> int_field d k = Inr n"
  by (simp add: int_field_def guarded_int_def int_or_zero_def)

lemma redact_length: "length t \<le> 80 \<Longrightarrow> length (redact_text t) \<le> 80"
  by (simp add: redact_text_def)

lemma str_list_round_trip:
  assumes "dict_get d k JNull = JList (map (\<lambda>t. redact_value (JStr t)) ts)" "list_all (\<lambda>t. length t \<le> 80) ts"
  shows "str_list_field fr d k = map redact_text ts"
  using assms redact_length
  by (auto simp: str_list_field_def py_str_def list_all_iff comp_def filter_map intro!: map_cong)

definition collection_dict :: "collection_outcome \<Rightarrow> pydict" where
  "collection_dict c =
     [(''configured_source_count'', JInt (configured_sources c)), (''active_source_count'', JInt (active_sources c)),
      (''attempted_source_count'', JInt (attempted_sources c)), (''complete_source_count'', JInt (complete_sources c)),
      (''partial_source_count'', JInt (partial_sources c)), (''failed_source_count'', JInt (failed_sources c)),
      (''disabled_source_count'', JInt (disabled_sources c)),
      (''failed_source_handles'', JList (map (\<lambda>t. redact_value (JStr t)) (failed_handles c))),
      (''failed_source_reasons'', JList (map (\<lambda>t. redact_value (JStr t)) (failed_reasons c))),
      (''fallback_source_count'', JInt (fallback_sources c)), (''collection_complete'', JBool (collection_complete c))]"

lemma collection_round_trip:
  assumes "wf_outcome o'"
  shows "validate_collection fr (collection_dict (collection o')) = Inr (collection (redacted o'))"
proof -
  have lists: "str_list_field fr (collection_dict (collection o')) ''failed_source_handles'' = map redact_text (failed_handles (collection o'))"
    "str_list_field fr (collection_dict (collection o')) ''failed_source_reasons'' = map redact_text (failed_reasons (collection o'))"
    using assms by (auto intro!: str_list_round_trip simp: collection_dict_def dict_get_def wf_outcome_def)
  from assms have "counts_ok o'" by (simp add: wf_outcome_def)
  then show ?thesis
    unfolding validate_collection_def lists
    by (simp add: int_field_JInt collection_dict_def dict_get_def counts_ok_def bool_field_def redacted_def)
qed

lemma sub_field_JObj: "dict_get d k JNull = JObj r \<Longrightarrow> sub_field d k dflt f = f r"
  by (simp add: sub_field_def)

lemma discovery_round_trip:
  "counts_ok o' \<Longrightarrow> validate_discovery
     [(''discovered_record_count'', JInt (discovered_records (discovery o'))),
      (''retained_candidate_count'', JInt (retained_candidates (discovery o'))),
      (''duplicate_drop_count'', JInt (duplicate_drops (discovery o'))),
      (''filtered_drop_count'', JInt (filtered_drops (discovery o')))] = Inr (discovery o')"
  by (simp add: validate_discovery_def int_field_JInt dict_get_def counts_ok_def)

lemma ai_round_trip:
  "counts_ok o' \<Longrightarrow> validate_ai
     [(''ai_jobs_attempted'', JInt (ai_attempted (ai o'))), (''ai_jobs_successful'', JInt (ai_successful (ai o'))),
      (''ai_jobs_failed'', JInt (ai_failed (ai o'))), (''ai_timeout_count'', JInt (ai_timeouts (ai o'))),
      (''fallback_writer_count'', JInt (fallback_writers (ai o'))),
      (''translation_deferral_count'', JInt (translation_deferrals (ai o'))),
      (''manual_review_count'', JInt (manual_reviews (ai o')))] = Inr (ai o')"
  by (simp add: validate_ai_def int_field_JInt dict_get_def counts_ok_def)

lemma telegram_round_trip:
  "counts_ok o' \<Longrightarrow> validate_telegram
     [(''delivery_attempt_count'', JInt (deliveries_attempted (telegram o'))),
      (''delivery_success_count'', JInt (deliveries_ok (telegram o'))),
      (''delivery_failure_count'', JInt (deliveries_failed (telegram o'))),
      (''media_delivery_success_count'', JInt (media_ok (telegram o'))),
      (''media_delivery_failure_count'', JInt (media_failed (telegram o')))] = Inr (telegram o')"
  by (simp add: validate_telegram_def int_field_JInt dict_get_def counts_ok_def)

lemma window_state_round_trip:
  "counts_ok o' \<Longrightarrow> validate_state fr
     [(''state_checkpoint_success'', JBool (state_checkpoint (state o'))),
      (''database_checkpoint_attempted'', JBool (database_attempted (state o'))),
      (''database_checkpoint_success'', JBool (database_success (state o'))),
      (''cursor_advanced'', JBool (cursor_moved (state o'))),
      (''cursor_reason'', JStr (redact_text (cursor_reason (state o')))),
      (''backlog_count'', JInt (backlog_count (state o'))),
      (''backlog_present'', JBool (backlog_present (state o'))),
      (''recovery_artifact_created'', JBool (recovery_artifact (state o')))] = Inr (state (redacted o'))"
  by (simp add: validate_state_def int_field_JInt dict_get_def counts_ok_def bool_field_def str_field_def py_str_def redacted_def)

lemma recovery_round_trip:
  "validate_recovery fr
     [(''recovery_required'', JBool (recovery_needed (recovery o'))),
      (''recovery_reason'', JStr (redact_text (recovery_reason (recovery o')))),
      (''recovery_dispatch_recommended'', JBool (dispatch_recommended (recovery o'))),
      (''previous_recovery_context'', JStr (redact_text (previous_context (recovery o'))))] = Inr (recovery (redacted o'))"
  by (simp add: validate_recovery_def dict_get_def bool_field_def str_field_def py_str_def redacted_def)

lemma outcome_round_trip:
  assumes "wf_outcome o'"
  shows "validate_outcome fr (JObj (outcome_to_dict o')) = Inr (redacted o')"
proof -
  from assms have wf: "counts_ok o'" "schema_version o' = 1"
    and st: "status_of_run o' \<in> status_text ` {HEALTHY, DEGRADED, RECOVERY_REQUIRED, FAILED}"
    by (simp_all add: wf_outcome_def)
  define d where "d = outcome_to_dict o'"
  note expand = d_def outcome_to_dict_def redact_outcome_def redacted_fields_def dict_get_def Let_def
  have fields: "dict_get d ''schema_version'' JNull = JInt 1"
    "dict_get d ''outcome_status'' (JStr []) = JStr (status_of_run o')"
    "dict_get d ''source_collection'' JNull = JObj (collection_dict (collection o'))"
    by (simp_all add: expand wf redact_status [OF st] collection_dict_def comp_def)
  have texts: "str_field fr d ''run_id'' = oc_run (redacted o')" "str_field fr d ''run_started_at'' = run_started (redacted o')"
    "str_field fr d ''run_finished_at'' = run_finished (redacted o')" "str_field fr d ''trigger_event'' = trigger_event (redacted o')"
    "str_field fr d ''commit_sha'' = commit_sha (redacted o')"
    by (simp_all add: expand str_field_def py_str_def redacted_def)
  have rest: "dict_get d ''outcome_reasons'' JNull = JList (reasons_of_run (redacted o'))"
    "bool_field d ''useful_work_performed'' True = useful_work (redacted o')"
    by (simp_all add: expand bool_field_def redacted_def)
  have subs: "sub_field d ''discovery'' x1 validate_discovery = Inr (discovery (redacted o'))"
    "sub_field d ''ai'' x2 validate_ai = Inr (ai (redacted o'))"
    "sub_field d ''telegram'' x3 validate_telegram = Inr (telegram (redacted o'))" for x1 x2 x3
    using discovery_round_trip [OF wf(1)] ai_round_trip [OF wf(1)] telegram_round_trip [OF wf(1)]
    by (simp_all add: expand sub_field_def redacted_def)
  have "dict_get d ''state'' JNull = JObj
     [(''state_checkpoint_success'', JBool (state_checkpoint (state o'))),
      (''database_checkpoint_attempted'', JBool (database_attempted (state o'))),
      (''database_checkpoint_success'', JBool (database_success (state o'))),
      (''cursor_advanced'', JBool (cursor_moved (state o'))),
      (''cursor_reason'', JStr (redact_text (cursor_reason (state o')))),
      (''backlog_count'', JInt (backlog_count (state o'))),
      (''backlog_present'', JBool (backlog_present (state o'))),
      (''recovery_artifact_created'', JBool (recovery_artifact (state o')))]"
    by (simp add: expand)
  then have state: "sub_field d ''state'' x (validate_state fr) = Inr (state (redacted o'))" for x
    by (simp add: sub_field_def window_state_round_trip [OF wf(1)])
  have "dict_get d ''recovery'' JNull = JObj
     [(''recovery_required'', JBool (recovery_needed (recovery o'))),
      (''recovery_reason'', JStr (redact_text (recovery_reason (recovery o')))),
      (''recovery_dispatch_recommended'', JBool (dispatch_recommended (recovery o'))),
      (''previous_recovery_context'', JStr (redact_text (previous_context (recovery o'))))]"
    by (simp add: expand)
  then have recovery: "sub_field d ''recovery'' x (validate_recovery fr) = Inr (recovery (redacted o'))" for x
    by (simp add: sub_field_def recovery_round_trip)
  have version: "valid_version (JInt 1) = Inr 1" by (simp add: valid_version_def)
  have status: "valid_status (JStr (status_of_run o')) = Inr (status_of_run o')" using st by (simp add: valid_status_def)
  have "validate_outcome fr (JObj d) = Inr
     \<lparr>schema_version = 1, oc_run = oc_run (redacted o'), run_started = run_started (redacted o'),
      run_finished = run_finished (redacted o'), trigger_event = trigger_event (redacted o'),
      commit_sha = commit_sha (redacted o'), collection = collection (redacted o'), discovery = discovery (redacted o'),
      ai = ai (redacted o'), telegram = telegram (redacted o'), state = state (redacted o'),
      recovery = recovery (redacted o'), status_of_run = status_of_run o',
      reasons_of_run = reasons_of_run (redacted o'), useful_work = useful_work (redacted o')\<rparr>"
    unfolding validate_outcome_def json.case fields version status bindE_simps
      sub_field_JObj [OF fields(3)] collection_round_trip [OF assms] subs state recovery texts rest ..
  moreover have "schema_version (redacted o') = 1" "status_of_run (redacted o') = status_of_run o'"
    by (simp_all add: redacted_def wf)
  ultimately show ?thesis by (simp add: d_def)
qed

section \<open>What validation returns is well formed\<close>

lemma int_field_nonneg: "int_field d k = Inr n \<Longrightarrow> 0 \<le> n"
  by (auto simp: int_field_def split: sum.splits)

lemma str_list_bound: "list_all (\<lambda>t. length t \<le> 80) (str_list_field fr d k)"
  by (cases "dict_get d k JNull") (auto simp: str_list_field_def list_all_iff)

lemma sub_fieldE:
  assumes "sub_field d k dflt f = Inr x"
  obtains "x = dflt" | r where "f r = Inr x"
  using assms by (cases "dict_get d k JNull") (simp_all add: sub_field_def)

lemma validated_parts:
  "validate_discovery r = Inr di \<Longrightarrow> list_all (\<lambda>n. 0 \<le> n) [discovered_records di, retained_candidates di, duplicate_drops di, filtered_drops di]"
  "validate_ai r = Inr a \<Longrightarrow> list_all (\<lambda>n. 0 \<le> n) [ai_attempted a, ai_successful a, ai_failed a, ai_timeouts a,
     fallback_writers a, translation_deferrals a, manual_reviews a]"
  "validate_telegram r = Inr t \<Longrightarrow> list_all (\<lambda>n. 0 \<le> n) [deliveries_attempted t, deliveries_ok t, deliveries_failed t, media_ok t, media_failed t]"
  "validate_state fr r = Inr s \<Longrightarrow> 0 \<le> backlog_count s"
  by (auto simp: validate_discovery_def validate_ai_def validate_telegram_def validate_state_def bindE_Inr dest: int_field_nonneg)

lemma validated_collection:
  "validate_collection fr r = Inr c \<Longrightarrow> list_all (\<lambda>n. 0 \<le> n) [configured_sources c, active_sources c, attempted_sources c,
     complete_sources c, partial_sources c, failed_sources c, disabled_sources c, fallback_sources c] \<and>
     list_all (\<lambda>t. length t \<le> 80) (failed_handles c @ failed_reasons c)"
  using str_list_bound by (auto simp: validate_collection_def bindE_Inr dest: int_field_nonneg)

lemma validated_wf:
  assumes "validate_outcome fr doc = Inr o'"
  shows "wf_outcome o'"
proof -
  from assms obtain d version st c di a t s r where parts:
    "valid_version (dict_get d ''schema_version'' JNull) = Inr version"
    "valid_status (dict_get d ''outcome_status'' (JStr [])) = Inr st"
    "sub_field d ''source_collection'' (collection fresh_outcome) (validate_collection fr) = Inr c"
    "sub_field d ''discovery'' (discovery fresh_outcome) validate_discovery = Inr di"
    "sub_field d ''ai'' (ai fresh_outcome) validate_ai = Inr a"
    "sub_field d ''telegram'' (telegram fresh_outcome) validate_telegram = Inr t"
    "sub_field d ''state'' (state fresh_outcome) (validate_state fr) = Inr s"
    and fields: "schema_version o' = version" "status_of_run o' = st" "collection o' = c" "discovery o' = di" "ai o' = a"
      "telegram o' = t" "state o' = s"
    by (cases doc) (auto simp: validate_outcome_def bindE_Inr)
  have "version = 1" using parts(1) by (auto simp: valid_version_def split: json.splits sum.splits py_exc.splits if_splits)
  moreover have "st \<in> status_text ` {HEALTHY, DEGRADED, RECOVERY_REQUIRED, FAILED}"
    using parts(2) by (auto simp: valid_status_def split: json.splits if_splits)
  moreover have "list_all (\<lambda>n. 0 \<le> n) [configured_sources c, active_sources c, attempted_sources c,
     complete_sources c, partial_sources c, failed_sources c, disabled_sources c, fallback_sources c] \<and>
     list_all (\<lambda>t. length t \<le> 80) (failed_handles c @ failed_reasons c)"
    using parts(3) by (rule sub_fieldE) (simp add: fresh_outcome_def, rule validated_collection)
  moreover have "list_all (\<lambda>n. 0 \<le> n) [discovered_records di, retained_candidates di, duplicate_drops di, filtered_drops di]"
    using parts(4) by (rule sub_fieldE) (simp add: fresh_outcome_def, rule validated_parts)
  moreover have "list_all (\<lambda>n. 0 \<le> n) [ai_attempted a, ai_successful a, ai_failed a, ai_timeouts a,
     fallback_writers a, translation_deferrals a, manual_reviews a]"
    using parts(5) by (rule sub_fieldE) (simp add: fresh_outcome_def, rule validated_parts)
  moreover have "list_all (\<lambda>n. 0 \<le> n) [deliveries_attempted t, deliveries_ok t, deliveries_failed t, media_ok t, media_failed t]"
    using parts(6) by (rule sub_fieldE) (simp add: fresh_outcome_def, rule validated_parts)
  moreover have "0 \<le> backlog_count s"
    using parts(7) by (rule sub_fieldE) (simp add: fresh_outcome_def, rule validated_parts)
  ultimately show ?thesis by (simp add: wf_outcome_def counts_ok_def fields)
qed

lemma classified_wf:
  assumes "wf_outcome o'"
  shows "wf_outcome (classified o')" "collection (classified o') = collection o'" "state (classified o') = state o'"
proof -
  have "fst (classify_outcome o') \<in> {HEALTHY, DEGRADED, RECOVERY_REQUIRED, FAILED}"
    by (cases "fst (classify_outcome o')") simp_all
  then show "wf_outcome (classified o')"
    using assms by (auto simp: classified_def wf_outcome_def counts_ok_def split: prod.split)
  show "collection (classified o') = collection o'" "state (classified o') = state o'"
    by (simp_all add: classified_def split: prod.split)
qed

lemma persisted:
  assumes "wf_outcome o'" "persist_checkpoint success o' f = (o1, f1)"
  shows "wf_outcome o1" "load_outcome fr f1 = Inr (redacted o1)"
    "database_attempted (state o1)" "database_success (state o1) = success"
    "\<not> success \<Longrightarrow> status_of_run o1 = ''failed''"
proof -
  let ?o = "o'\<lparr>state := (state o')\<lparr>database_attempted := True, database_success := success\<rparr>\<rparr>"
  have o1: "o1 = classified ?o" "f1 = save_outcome o1 f" using assms(2) by (auto simp: persist_checkpoint_def Let_def)
  have "wf_outcome ?o" using assms(1) by (simp add: wf_outcome_def counts_ok_def)
  from classified_wf [OF this] show wf: "wf_outcome o1" and "database_attempted (state o1)" "database_success (state o1) = success"
    by (simp_all add: o1)
  show "load_outcome fr f1 = Inr (redacted o1)" by (simp add: o1(2) save_outcome_def load_outcome_def outcome_round_trip [OF wf])
  show "status_of_run o1 = ''failed''" if "\<not> success"
  proof -
    have "failure_reason ?o \<noteq> None" using that unfolding failure_concern by (simp add: concerns_def Let_def)
    then show ?thesis by (auto simp: o1 classified_def classify_outcome_def split: option.splits)
  qed
qed

section \<open>The books of the builder\<close>

definition safe_handle :: "pystr \<Rightarrow> bool" where
  "safe_handle h \<longleftrightarrow> h \<noteq> [] \<and> length h \<le> 15 \<and> list_all is_word h"

definition safe_class :: "pystr \<Rightarrow> bool" where
  "safe_class e \<longleftrightarrow> e \<noteq> [] \<and> length e \<le> 64 \<and> list_all is_word e \<and> \<not> list_ex (\<lambda>w. occurs_in w (py_casefold e)) secret_words"

lemma unknown_handle: "safe_handle ''unknown_source''" by code_simp

lemma error_class: "safe_class ''Error''" by code_simp

lemma normalized_safe: "safe_handle (normalize_source_handle h)"
  using unknown_handle by (simp add: normalize_source_handle_def safe_handle_def Let_def)

lemma error_class_safe: "safe_class (truncate_error_class e)"
proof (cases "dropWhile (\<lambda>c. \<not> is_letter c) (py_strip e)")
  case Nil
  show ?thesis unfolding truncate_error_class_def Nil using error_class by simp
next
  case (Cons c r)
  then have c: "is_letter c" using dropWhile_no_hd [of "\<lambda>c. \<not> is_letter c" "py_strip e"] by simp
  let ?t = "c # takeWhile is_word (take 63 r)"
  have "length (takeWhile is_word (take 63 r)) \<le> 63"
    by (rule order_trans [OF length_takeWhile_le]) simp
  then have "length ?t \<le> 64" "list_all is_word ?t"
    using c by (auto simp: list_all_iff is_word_def dest: set_takeWhileD)
  with error_class show ?thesis unfolding truncate_error_class_def Cons by (simp add: safe_class_def Let_def)
qed

definition books_balance :: "outcome \<Rightarrow> bool" where
  "books_balance o' \<longleftrightarrow> (let c = collection o' in
   attempted_sources c = complete_sources c + partial_sources c + failed_sources c \<and>
   failed_sources c = int (length (failed_handles c)) \<and> length (failed_reasons c) = length (failed_handles c) \<and>
   ai_attempted (ai o') = ai_successful (ai o') + ai_failed (ai o') \<and>
   deliveries_attempted (telegram o') = deliveries_ok (telegram o') + deliveries_failed (telegram o') \<and>
   list_all safe_handle (failed_handles c) \<and> list_all safe_class (failed_reasons c))"

lemma finalize_frames [simp]:
  "collection (finalize now o') = collection o'" "ai (finalize now o') = ai o'" "telegram (finalize now o') = telegram o'"
  by (simp_all add: finalize_def classified_def Let_def split: prod.split)

lemma builder_step_books: "books_balance o' \<Longrightarrow> books_balance (builder_step op o')"
  by (cases op) (auto simp: books_balance_def Let_def record_source_attempt_def record_ai_job_def record_delivery_def
      record_media_delivery_def normalized_safe error_class_safe of_bool_def)

interpretation builder: invariant_machine builder_step books_balance
  by unfold_locales (rule builder_step_books)

lemma builder_run: "books_balance (fold builder_step ops (builder_init run trigger sha now))"
  by (rule builder.run_inv) (simp add: books_balance_def builder_init_def fresh_outcome_def)

section \<open>Properties\<close>

text \<open>
  The classification is the worst concern: with \<open>FAILED\<close> above \<open>RECOVERY_REQUIRED\<close> above
  \<open>DEGRADED\<close> above \<open>HEALTHY\<close>, the status is the maximum of the severities of all conditions that hold, and
  reasons are given exactly when it is not \<open>HEALTHY\<close>.
\<close>

theorem classification_is_worst_concern:
  "fst (classify_outcome o') = fold max (map snd (filter fst (concerns o'))) HEALTHY \<and>
   (snd (classify_outcome o') = [] \<longleftrightarrow> fst (classify_outcome o') = HEALTHY)"
proof -
  have worst: "fold max (map snd (filter fst (concerns o'))) HEALTHY =
    (if failure_reason o' \<noteq> None then FAILED
     else if list_ex (\<lambda>r. r \<in> {''partial_collection_cursor_held'', ''recovery_dispatch_recommended''}) (recovery_reasons o')
     then RECOVERY_REQUIRED else if degraded_reasons o' \<noteq> [] then DEGRADED else HEALTHY)"
  proof -
    have mem: "v \<in> set (HEALTHY # map snd (filter fst (concerns o'))) \<longleftrightarrow> v = HEALTHY \<or> (True, v) \<in> set (concerns o')" for v
      unfolding list.set insert_iff raised ..
    show ?thesis unfolding max_status mem failure_concern recovery_concern degraded_concern by simp
  qed
  have "recovery_reasons o' \<noteq> []" if "list_ex P (recovery_reasons o')" for P using that by auto
  then show ?thesis unfolding worst by (auto simp: classify_outcome_def Let_def split: option.split)
qed

text \<open>
  A persisted outcome comes back: what \<open>save_outcome\<close> writes, \<open>load_outcome\<close> accepts, and returns
  with every text that looks like a secret replaced; no text in the artifact looks like one.
\<close>

theorem artifact_round_trip:
  assumes "wf_outcome o'"
  shows "load_outcome fr (save_outcome o' f) = Inr (redacted o') \<and> save_outcome o' f = Document (JObj (outcome_to_dict o')) \<and>
    clean (JObj (outcome_to_dict o'))"
proof (intro conjI)
  show "load_outcome fr (save_outcome o' f) = Inr (redacted o')"
    by (simp add: load_outcome_def save_outcome_def outcome_round_trip [OF assms])
  show "clean (JObj (outcome_to_dict o'))" unfolding outcome_to_dict_def by (rule redact_outcome_clean)
qed (rule save_outcome_def)

text \<open>
  The attestation is fail-closed: an artifact that cannot be trusted is refused and left alone; for
  any other, whatever happens to the database or to the process, the artifact says afterwards that
  the checkpoint was attempted, says that it succeeded exactly when every check passed and the
  process lived, and has status \<open>failed\<close> otherwise.
\<close>

theorem attestation_fail_closed:
  assumes "attest_database_checkpoint fr p died f = (r, f')"
  shows "(case load_outcome fr f of
      Inl e \<Rightarrow> f' = f \<and> r \<noteq> Attested
    | Inr o0 \<Rightarrow> \<exists>o'. load_outcome fr f' = Inr o' \<and> database_attempted (state o') \<and>
        database_success (state o') = (r = Attested) \<and> (r = Attested \<longleftrightarrow> probe_ok p \<and> \<not> died) \<and>
        (r = Attested \<or> status_of_run o' = ''failed''))"
proof (cases "load_outcome fr f")
  case (Inl e)
  with assms show ?thesis by (cases e) (auto simp: attest_database_checkpoint_def)
next
  case (Inr o0)
  then have wf: "wf_outcome o0" by (auto simp: load_outcome_def intro: validated_wf split: outcome_file.splits)
  obtain o1 f1 where first: "persist_checkpoint False o0 f = (o1, f1)" by fastforce
  note one = persisted [OF wf first]
  obtain o2 f2 where second: "persist_checkpoint True o1 f1 = (o2, f2)" by fastforce
  note two = persisted [OF one(1) second]
  have r: "(r, f') = (if died then (Interrupted, f1) else if \<not> probe_ok p then (Refused, f1) else (Attested, f2))"
    using assms unfolding attest_database_checkpoint_def Inr by (auto simp: first second Let_def split: if_splits)
  have red: "state (redacted o') = (state o')\<lparr>cursor_reason := redact_text (cursor_reason (state o'))\<rparr>"
    "status_of_run (redacted o') = status_of_run o'" for o' by (simp_all add: redacted_def)
  show ?thesis
    using r one two Inr red by (auto split: if_splits)
qed

text \<open>
  The builder's books balance and nothing private gets in: whatever was recorded, every attempt is
  counted in exactly one class, and the recorded handles and error classes are short plain tokens,
  the latter without a word that marks a secret.
\<close>

theorem builder_accounts:
  "let o' = fold builder_step ops (builder_init run trigger sha now); c = collection o' in
   attempted_sources c = complete_sources c + partial_sources c + failed_sources c \<and>
   failed_sources c = int (length (failed_handles c)) \<and> length (failed_reasons c) = length (failed_handles c) \<and>
   ai_attempted (ai o') = ai_successful (ai o') + ai_failed (ai o') \<and>
   deliveries_attempted (telegram o') = deliveries_ok (telegram o') + deliveries_failed (telegram o') \<and>
   list_all safe_handle (failed_handles c) \<and> list_all safe_class (failed_reasons c)"
  using builder_run [of ops run trigger sha now] by (simp add: books_balance_def Let_def)

text \<open>
  \<open>validate_outcome\<close> is documented to raise \<open>OutcomeValidationError\<close> for invalid fields. A status that is
  a list, and an infinite number in a counter or as the version, raise other exceptions instead.
\<close>

theorem validation_escapes:
  "validate_outcome fr (JObj [(''schema_version'', JInt 1), (''outcome_status'', JList xs)]) = Inl (Escaped TypeError) \<and>
   validate_outcome fr (JObj [(''schema_version'', JFloat PosInf)]) = Inl (Escaped OverflowError) \<and>
   validate_outcome fr (JObj [(''schema_version'', JInt 1), (''outcome_status'', JStr ''healthy''),
     (''discovery'', JObj [(''retained_candidate_count'', JFloat PosInf)])]) = Inl (Escaped OverflowError)"
  by (simp add: validate_outcome_def dict_get_def valid_version_def valid_status_def sub_field_def validate_discovery_def
      int_field_def guarded_int_def int_or_zero_def)

section \<open>Witnesses\<close>

lemma fresh_wf [simp]: "wf_outcome fresh_outcome"
  by (simp add: wf_outcome_def counts_ok_def fresh_outcome_def)

theorem artifact_round_trip_witness:
  "load_outcome (\<lambda>_. []) (save_outcome (fresh_outcome\<lparr>commit_sha := ''api_key=1''\<rparr>) NoArtifact) =
    Inr (redacted (fresh_outcome\<lparr>commit_sha := ''api_key=1''\<rparr>))"
proof -
  have "wf_outcome (fresh_outcome\<lparr>commit_sha := ''api_key=1''\<rparr>)" by (simp add: wf_outcome_def counts_ok_def fresh_outcome_def)
  from artifact_round_trip [OF this] show ?thesis by blast
qed

definition demo_probe :: database_probe where
  "demo_probe = \<lparr>is_file = True, sqlite_error = False, quick_ok = True, checkpoint_row = Some (1, 4, 4)\<rparr>"

theorem attestation_fail_closed_witness:
  "\<exists>o'. load_outcome (\<lambda>_. []) (snd (attest_database_checkpoint (\<lambda>_. []) demo_probe False (save_outcome fresh_outcome NoArtifact))) = Inr o' \<and>
    \<not> database_success (state o') \<and> status_of_run o' = ''failed''"
proof -
  let ?f = "save_outcome fresh_outcome NoArtifact"
  have load: "load_outcome (\<lambda>_. []) ?f = Inr (redacted fresh_outcome)"
    by (simp add: load_outcome_def save_outcome_def outcome_round_trip)
  have "\<not> probe_ok demo_probe" by (simp add: probe_ok_def demo_probe_def)
  then show ?thesis
    using attestation_fail_closed [OF surjective_pairing, of "\<lambda>_. []" demo_probe False ?f] by (auto simp: load)
qed

end
