(* ===== verification/TextSplit.thy ===== *)
theory TextSplit
  imports PyJson "HOL-Library.Monad_Syntax"
begin

text \<open>
  The splitter of \<open>app/telegram.py\<close>: long text is cut at semantic boundaries into labelled
  parts that fit a Telegram message. Text is a \<open>utext\<close>, the list of its code points, because
  the labels are Persian. The \<open>while True\<close> loop that looks for a part count which reproduces
  itself, and the cutting loop, are \<open>partial_function (option)\<close>: \<open>None\<close> would be a call that
  never returns, and the theory proves that there is none.
\<close>

type_synonym utext = "nat list"

datatype tg_error = TgTransient | TgRateLimit int | TgPermanent | TgCallback | TgPy py_exc

section \<open>Searching text\<close>

definition occurs_at :: "utext \<Rightarrow> utext \<Rightarrow> nat \<Rightarrow> bool" where
  "occurs_at m w i \<longleftrightarrow> i + length m \<le> length w \<and> take (length m) (drop i w) = m"

fun rfind_upto :: "utext \<Rightarrow> utext \<Rightarrow> nat \<Rightarrow> int" where
  "rfind_upto m w 0 = (if occurs_at m w 0 then 0 else -1)"
| "rfind_upto m w (Suc i) = (if occurs_at m w (Suc i) then int (Suc i) else rfind_upto m w i)"

text \<open>\<open>window.rfind(mark)\<close>, and the \<open>max\<close> of several.\<close>

definition rfind :: "utext \<Rightarrow> utext \<Rightarrow> int" where
  "rfind m w = rfind_upto m w (length w)"

definition rfind_any :: "utext list \<Rightarrow> utext \<Rightarrow> int" where
  "rfind_any ms w = fold max (map (\<lambda>m. rfind m w) ms) (-1)"

definition paragraph_mark :: utext where "paragraph_mark = [10, 10]"
definition newline_mark :: utext where "newline_mark = [10]"
definition sentence_marks :: "utext list" where
  "sentence_marks = [[46, 32], [33, 32], [63, 32], [1567, 32], [12290], [65281], [65311]]"
definition space_marks :: "utext list" where "space_marks = [[32], [9]]"

section \<open>Cutting\<close>

text \<open>Where the first part of \<open>remaining\<close> ends, in the code's order of preference.\<close>

definition split_point :: "nat \<Rightarrow> utext \<Rightarrow> nat" where
  "split_point limit remaining =
     (let window = take limit remaining;
          floor = int (max 1 (limit div 3));
          paragraph = rfind paragraph_mark window;
          newline = rfind newline_mark window;
          sentence = rfind_any sentence_marks window;
          whitespace = rfind_any space_marks window
      in if floor \<le> paragraph then nat paragraph + 2
         else if floor \<le> newline then nat newline + 1
         else if floor \<le> sentence
         then nat sentence + (if window ! nat sentence \<in> {12290, 65281, 65311} then 1 else 2)
         else if floor \<le> whitespace then nat whitespace + 1
         else limit)"

partial_function (option) split_unlabeled :: "nat \<Rightarrow> utext \<Rightarrow> utext list option" where
  [code]: "split_unlabeled limit remaining =
     (if limit < length remaining
      then (let k = split_point limit remaining in
            do { ps \<leftarrow> split_unlabeled limit (drop k remaining); Some (take k remaining # ps) })
      else Some (if remaining = [] then [] else [remaining]))"

section \<open>Labels\<close>

definition dec :: "nat \<Rightarrow> utext" where "dec n = map of_char (nat_text n)"

definition label_start :: utext where "label_start = [1576, 1582, 1588, 32]"
definition label_of :: utext where "label_of = [32, 1575, 1586, 32]"
definition label_end :: utext where "label_end = [10, 10]"

definition part_label :: "nat \<Rightarrow> nat \<Rightarrow> utext" where
  "part_label index tot = label_start @ dec index @ label_of @ dec tot @ label_end"

definition content_limit :: "nat \<Rightarrow> nat \<Rightarrow> nat" where
  "content_limit limit tot =
     max 1 (limit - fold max (map (\<lambda>i. length (part_label i tot)) [1..<Suc tot]) 0)"

definition label_parts :: "utext list \<Rightarrow> nat \<Rightarrow> utext list" where
  "label_parts chunks tot = map (\<lambda>(i, c). part_label i tot @ c) (zip [1..<Suc (length chunks)] chunks)"

partial_function (option) settle_total :: "nat \<Rightarrow> utext \<Rightarrow> nat \<Rightarrow> (nat \<times> utext list) option" where
  [code]: "settle_total limit text tot =
     do { chunks \<leftarrow> split_unlabeled (content_limit limit tot) text;
          if length chunks = tot then Some (tot, chunks)
          else settle_total limit text (length chunks) }"

definition telegram_text_limit :: int where "telegram_text_limit = 4096"
definition telegram_safe_text_target :: int where "telegram_safe_text_target = 4000"

definition split_telegram_text :: "utext \<Rightarrow> int \<Rightarrow> (tg_error + utext list) option" where
  "split_telegram_text text lim =
     (if text = [] then Some (Inr [])
      else let limit = nat (min telegram_text_limit (max 1 lim)) in
        if length text \<le> limit then Some (Inr [text])
        else do { (tot, chunks) \<leftarrow> settle_total limit text 2;
                  let parts = label_parts chunks tot in
                  Some (if \<exists>p \<in> set parts. limit < length p then Inl TgPermanent else Inr parts) })"

text \<open>\<open>_PART_LABEL_RE.sub("", part, count=1)\<close>.\<close>

definition strip_prefix :: "utext \<Rightarrow> utext \<Rightarrow> utext option" where
  "strip_prefix pre s = (if take (length pre) s = pre then Some (drop (length pre) s) else None)"

definition u_digit :: "nat \<Rightarrow> bool" where "u_digit c \<longleftrightarrow> 48 \<le> c \<and> c \<le> 57"

definition strip_digits :: "utext \<Rightarrow> utext option" where
  "strip_digits s = (if takeWhile u_digit s = [] then None else Some (dropWhile u_digit s))"

definition strip_part_label :: "utext \<Rightarrow> utext" where
  "strip_part_label part =
     (case do { a \<leftarrow> strip_prefix label_start part; b \<leftarrow> strip_digits a; c \<leftarrow> strip_prefix label_of b;
                d \<leftarrow> strip_digits c; strip_prefix label_end d }
      of Some rest \<Rightarrow> rest | None \<Rightarrow> part)"

section \<open>The last occurrence\<close>

lemma rfind_upto_cases:
  "(rfind_upto m w n = -1 \<and> (\<forall>i \<le> n. \<not> occurs_at m w i)) \<or>
   (\<exists>s \<le> n. rfind_upto m w n = int s \<and> occurs_at m w s \<and> (\<forall>i \<le> n. occurs_at m w i \<longrightarrow> i \<le> s))"
proof (induction n)
  case (Suc n)
  show ?case
  proof (cases "occurs_at m w (Suc n)")
    case True
    then show ?thesis by (intro disjI2 exI [of _ "Suc n"]) simp
  next
    case False
    with Suc show ?thesis by (auto simp: le_Suc_eq)
  qed
qed simp

lemma rfind_cases:
  "(rfind m w = -1 \<and> (\<forall>i. \<not> occurs_at m w i)) \<or>
   (\<exists>s. rfind m w = int s \<and> occurs_at m w s \<and> (\<forall>i. occurs_at m w i \<longrightarrow> i \<le> s))"
  using rfind_upto_cases [of m w "length w"] by (auto simp: rfind_def occurs_at_def)

lemma rfind_lower: "-1 \<le> rfind m w"
  using rfind_cases [of m w] by auto

lemma fold_max_int: "fold max xs (a::int) = Max (insert a (set xs))"
proof (induction xs arbitrary: a)
  case (Cons x xs)
  have "fold max (x # xs) a = Max (insert (max x a) (set xs))" using Cons by simp
  also have "\<dots> = Max (insert a (set (x # xs)))"
    by (cases "xs = []") (simp_all add: max.commute max.left_commute max.assoc)
  finally show ?case .
qed simp

lemma rfind_any_Max: "rfind_any ms w = Max (insert (-1) ((\<lambda>m. rfind m w) ` set ms))"
  by (simp add: rfind_any_def fold_max_int)

lemma rfind_any_cases:
  "(rfind_any ms w = -1 \<and> (\<forall>m \<in> set ms. \<forall>i. \<not> occurs_at m w i)) \<or>
   (\<exists>s. \<exists>m \<in> set ms. rfind_any ms w = int s \<and> occurs_at m w s \<and>
     (\<forall>m' \<in> set ms. \<forall>i. occurs_at m' w i \<longrightarrow> i \<le> s))"
proof -
  let ?S = "insert (-1) ((\<lambda>m. rfind m w) ` set ms)"
  have top: "rfind m w \<le> rfind_any ms w" if "m \<in> set ms" for m
    using that by (simp add: rfind_any_Max)
  have pos: "int i \<le> rfind_any ms w" if "m \<in> set ms" "occurs_at m w i" for m i
    using rfind_cases [of m w] top [OF that(1)] that(2) by force
  have "rfind_any ms w \<in> ?S" unfolding rfind_any_Max by (intro Max_in) auto
  then consider (none) "rfind_any ms w = -1" | (some) m where "m \<in> set ms" "rfind_any ms w = rfind m w"
    by auto
  then show ?thesis
  proof cases
    case none
    with pos show ?thesis by fastforce
  next
    case some
    from rfind_cases [of m w] show ?thesis
    proof (elim disjE exE conjE)
      assume "rfind m w = -1"
      with some pos show ?thesis by fastforce
    next
      fix s assume s: "rfind m w = int s" "occurs_at m w s"
      have "i \<le> s" if "m' \<in> set ms" "occurs_at m' w i" for m' i
        using pos [OF that] s some by simp
      with s some show ?thesis by (intro disjI2) auto
    qed
  qed
qed

section \<open>What a cut is\<close>

text \<open>
  A break of a mark list is an occurrence at or after the floor that ends inside the window; the
  cut is the last break of the first kind of mark that has one, or the limit itself.
\<close>

definition break_at :: "utext list \<Rightarrow> nat \<Rightarrow> nat \<Rightarrow> utext \<Rightarrow> nat \<Rightarrow> nat \<Rightarrow> bool" where
  "break_at ms f l r s b \<longleftrightarrow> (\<exists>m \<in> set ms. occurs_at m r s \<and> b = s + length m) \<and> f \<le> s \<and> b \<le> l"

definition last_break :: "utext list \<Rightarrow> nat \<Rightarrow> nat \<Rightarrow> utext \<Rightarrow> nat \<Rightarrow> bool" where
  "last_break ms f l r k \<longleftrightarrow> (\<exists>s. break_at ms f l r s k) \<and> (\<forall>s b. break_at ms f l r s b \<longrightarrow> b \<le> k)"

definition no_break :: "utext list \<Rightarrow> nat \<Rightarrow> nat \<Rightarrow> utext \<Rightarrow> bool" where
  "no_break ms f l r \<longleftrightarrow> (\<forall>s b. \<not> break_at ms f l r s b)"

definition kinds :: "utext list list" where
  "kinds = [[paragraph_mark], [newline_mark], sentence_marks, space_marks]"

definition floor_of :: "nat \<Rightarrow> nat" where "floor_of l = max 1 (l div 3)"

lemma occurs_in_window:
  "l \<le> length r \<Longrightarrow> occurs_at m (take l r) s \<longleftrightarrow> occurs_at m r s \<and> s + length m \<le> l"
  by (auto simp: occurs_at_def drop_take min_def)

lemma mark_lengths: "ms \<in> set kinds \<Longrightarrow> m \<in> set ms \<Longrightarrow> length m = 1 \<or> length m = 2"
  by (auto simp: kinds_def paragraph_mark_def newline_mark_def sentence_marks_def space_marks_def)

lemma break_width: "ms \<in> set kinds \<Longrightarrow> break_at ms f l r s b \<Longrightarrow> s + 1 \<le> b \<and> b \<le> s + 2"
  unfolding break_at_def using mark_lengths by fastforce

lemma occurs_head:
  assumes "occurs_at m r s" "m \<noteq> []"
  shows "r ! s = hd m"
proof -
  have len: "0 < length m" "s + length m \<le> length r" and eq: "take (length m) (drop s r) = m"
    using assms by (simp_all add: occurs_at_def)
  then have "r ! s = drop s r ! 0" by simp
  also have "\<dots> = take (length m) (drop s r) ! 0" using len(1) by (rule nth_take [symmetric])
  also have "\<dots> = hd m" unfolding eq using assms(2) by (simp add: hd_conv_nth)
  finally show ?thesis .
qed

lemma mark_heads: "hd m' = hd m \<Longrightarrow> ms \<in> set kinds \<Longrightarrow> m \<in> set ms \<Longrightarrow> m' \<in> set ms \<Longrightarrow> m' = m"
  by (auto simp: kinds_def paragraph_mark_def newline_mark_def sentence_marks_def space_marks_def)

text \<open>One kind of mark: the last occurrence either gives the last break or there is none.\<close>

lemma last_break_of_max:
  assumes l: "l \<le> length r" and ms: "ms \<in> set kinds"
    and m: "m \<in> set ms" "occurs_at m (take l r) s"
    and top: "\<forall>m' \<in> set ms. \<forall>i. occurs_at m' (take l r) i \<longrightarrow> i \<le> s"
    and f: "f \<le> s"
  shows "last_break ms f l r (s + length m)"
  unfolding last_break_def
proof (intro conjI allI impI)
  have in_r: "occurs_at m r s" "s + length m \<le> l" using m(2) l by (simp_all add: occurs_in_window)
  then show "\<exists>s'. break_at ms f l r s' (s + length m)"
    using m(1) f by (auto simp: break_at_def)
  fix s' b' assume br: "break_at ms f l r s' b'"
  then obtain m' where m': "m' \<in> set ms" "occurs_at m' r s'" "b' = s' + length m'" "b' \<le> l"
    by (auto simp: break_at_def)
  then have "s' \<le> s" using top l by (simp add: occurs_in_window)
  show "b' \<le> s + length m"
  proof (cases "s' = s")
    case True
    have "hd m' = hd m" using occurs_head [OF m'(2)] occurs_head [OF in_r(1)] True ms m(1) m'(1)
        mark_lengths by fastforce
    then have "m' = m" using ms m(1) m'(1) by (rule mark_heads)
    with True m'(3) show ?thesis by auto
  next
    case False
    with \<open>s' \<le> s\<close> m'(3) mark_lengths [OF ms m(1)] mark_lengths [OF ms m'(1)] show ?thesis by auto
  qed
qed

lemma no_break_of_max:
  assumes l: "l \<le> length r"
    and top: "\<forall>m \<in> set ms. \<forall>i. occurs_at m (take l r) i \<longrightarrow> i < f"
  shows "no_break ms f l r"
  unfolding no_break_def break_at_def using top l occurs_in_window [OF l] by fastforce

text \<open>The cut of the code, case by case.\<close>

lemma kind_members:
  "[paragraph_mark] \<in> set kinds" "[newline_mark] \<in> set kinds"
  "sentence_marks \<in> set kinds" "space_marks \<in> set kinds"
  by (simp_all add: kinds_def)

lemma rfind_any_single: "rfind_any [m] w = rfind m w"
  using rfind_lower [of m w] by (simp add: rfind_any_def max_def)

lemma kind_cut:
  assumes l: "l \<le> length r" and ms: "ms \<in> set kinds" and f: "0 < f"
  shows "(int f \<le> rfind_any ms (take l r) \<and> (\<exists>m \<in> set ms. r ! nat (rfind_any ms (take l r)) = hd m \<and>
            nat (rfind_any ms (take l r)) < l \<and>
            last_break ms f l r (nat (rfind_any ms (take l r)) + length m)))
       \<or> (rfind_any ms (take l r) < int f \<and> no_break ms f l r)"
  using rfind_any_cases [of ms "take l r"]
proof (elim disjE exE bexE conjE)
  assume "rfind_any ms (take l r) = -1" "\<forall>m \<in> set ms. \<forall>i. \<not> occurs_at m (take l r) i"
  then show ?thesis using no_break_of_max [OF l, of ms f] f by auto
next
  fix s m assume s: "m \<in> set ms" "rfind_any ms (take l r) = int s" "occurs_at m (take l r) s"
    "\<forall>m' \<in> set ms. \<forall>i. occurs_at m' (take l r) i \<longrightarrow> i \<le> s"
  from mark_lengths [OF ms s(1)] have ne: "m \<noteq> []" by auto
  have at: "occurs_at m r s" "s + length m \<le> l" using s(3) l by (simp_all add: occurs_in_window)
  moreover have "0 < length m" using ne by simp
  ultimately have hd: "r ! s = hd m" "s < l" using ne occurs_head by (blast, linarith)
  show ?thesis
  proof (cases "f \<le> s")
    case True
    then have "last_break ms f l r (s + length m)" using last_break_of_max [OF l ms s(1,3,4)] by simp
    with s(1,2) hd True show ?thesis by auto
  next
    case False
    then have "no_break ms f l r" using no_break_of_max [OF l, of ms f] s(4) by fastforce
    with s(2) False show ?thesis by auto
  qed
qed

lemma sentence_width:
  "m \<in> set sentence_marks \<Longrightarrow> length m = (if hd m \<in> {12290, 65281, 65311} then 1 else 2)"
  by (auto simp: sentence_marks_def)

lemma space_width: "m \<in> set space_marks \<Longrightarrow> length m = 1"
  by (auto simp: space_marks_def)

lemma split_point_cases:
  assumes l: "0 < l" "l < length r"
  shows "(\<exists>i < 4. last_break (kinds ! i) (floor_of l) l r (split_point l r) \<and>
             (\<forall>j < i. no_break (kinds ! j) (floor_of l) l r))
       \<or> (split_point l r = l \<and> (\<forall>j < 4. no_break (kinds ! j) (floor_of l) l r))"
proof -
  let ?f = "floor_of l" let ?w = "take l r"
  have lr: "l \<le> length r" and f: "0 < ?f" using l by (simp_all add: floor_of_def)
  note cut = kind_cut [OF lr _ f]
  have kinds_nth: "kinds ! 0 = [paragraph_mark]" "kinds ! 1 = [newline_mark]"
    "kinds ! 2 = sentence_marks" "kinds ! 3 = space_marks" "kinds ! Suc 0 = [newline_mark]" by (simp_all add: kinds_def)
  have all4: "(\<forall>j < 4. P j) \<longleftrightarrow> P 0 \<and> P 1 \<and> P 2 \<and> P 3" for P :: "nat \<Rightarrow> bool"
    by (auto simp: less_Suc_eq numeral_eq_Suc)
  have all3: "(\<forall>j < 3. P j) \<longleftrightarrow> P 0 \<and> P 1 \<and> P 2" for P :: "nat \<Rightarrow> bool"
    by (auto simp: less_Suc_eq numeral_eq_Suc)
  have all2: "(\<forall>j < 2. P j) \<longleftrightarrow> P 0 \<and> P 1" for P :: "nat \<Rightarrow> bool"
    by (auto simp: less_Suc_eq numeral_eq_Suc)
  note c0 = cut [OF kind_members(1), unfolded rfind_any_single]
    and c1 = cut [OF kind_members(2), unfolded rfind_any_single]
    and c2 = cut [OF kind_members(3)] and c3 = cut [OF kind_members(4)]
  note point = split_point_def [of l r, folded floor_of_def] Let_def
  consider (par) "int ?f \<le> rfind paragraph_mark ?w"
    | (newline) "rfind paragraph_mark ?w < int ?f" "int ?f \<le> rfind newline_mark ?w"
    | (sentence) "rfind paragraph_mark ?w < int ?f" "rfind newline_mark ?w < int ?f"
        "int ?f \<le> rfind_any sentence_marks ?w"
    | (space) "rfind paragraph_mark ?w < int ?f" "rfind newline_mark ?w < int ?f"
        "rfind_any sentence_marks ?w < int ?f" "int ?f \<le> rfind_any space_marks ?w"
    | (hard) "rfind paragraph_mark ?w < int ?f" "rfind newline_mark ?w < int ?f"
        "rfind_any sentence_marks ?w < int ?f" "rfind_any space_marks ?w < int ?f"
    by linarith
  then show ?thesis
  proof cases
    case par
    with c0 have "last_break (kinds ! 0) ?f l r (split_point l r)"
      by (auto simp: point kinds_nth paragraph_mark_def)
    then show ?thesis by (intro disjI1 exI [of _ 0]) simp
  next
    case newline
    with c1 have "last_break (kinds ! 1) ?f l r (split_point l r)"
      by (auto simp: point kinds_nth newline_mark_def)
    with newline c0 show ?thesis by (intro disjI1 exI [of _ 1]) (simp add: kinds_nth)
  next
    case sentence
    with c2 have "last_break (kinds ! 2) ?f l r (split_point l r)"
      using sentence_width by (auto simp: point kinds_nth)
    with sentence c0 c1 show ?thesis by (intro disjI1 exI [of _ 2]) (simp add: all2 kinds_nth)
  next
    case space
    with c3 have "last_break (kinds ! 3) ?f l r (split_point l r)"
      using space_width by (auto simp: point kinds_nth)
    with space c0 c1 c2 show ?thesis by (intro disjI1 exI [of _ 3]) (simp add: all3 kinds_nth)
  next
    case hard
    with c0 c1 c2 c3 show ?thesis by (simp add: point all4 kinds_nth)
  qed
qed

section \<open>The cut is monotone\<close>

lemma last_break_bound: "last_break ms f l r k \<Longrightarrow> k \<le> l"
  by (auto simp: last_break_def break_at_def)

lemma split_point_bounds:
  assumes l: "0 < l" "l < length r"
  shows "0 < split_point l r \<and> split_point l r \<le> l"
proof -
  have "0 < k \<and> k \<le> l" if i: "i < 4" and k: "last_break (kinds ! i) (floor_of l) l r k" for i k
  proof -
    have "kinds ! i \<in> set kinds" using i by (intro nth_mem) (simp add: kinds_def)
    moreover obtain s where "break_at (kinds ! i) (floor_of l) l r s k"
      using k by (auto simp: last_break_def)
    ultimately have "s + 1 \<le> k" by (rule break_width [THEN conjunct1])
    with last_break_bound [OF k] show ?thesis by simp
  qed
  with split_point_cases [OF l] l(1) show ?thesis by auto
qed

lemma occurs_drop: "p \<le> length t \<Longrightarrow> occurs_at m (drop p t) s \<longleftrightarrow> occurs_at m t (p + s)"
  by (auto simp: occurs_at_def add.commute)

lemma floor_mono: "l \<le> l' \<Longrightarrow> floor_of l \<le> floor_of l'"
  by (auto simp: floor_of_def intro: div_le_mono le_max_iff_disj [THEN iffD2])

text \<open>Breaks of the earlier window behind the later floor, and of the later window before the earlier end.\<close>

lemma break_forward:
  assumes "p \<le> q" "l \<le> l'" "q + l' \<le> length t"
    and "break_at ms (floor_of l) l (drop p t) s b" "q + floor_of l' \<le> p + s"
  shows "break_at ms (floor_of l') l' (drop q t) (p + s - q) (p + b - q)"
  using assms by (auto simp: break_at_def occurs_drop)

lemma break_backward:
  assumes "p \<le> q" "l \<le> l'" "q + l' \<le> length t"
    and "break_at ms (floor_of l') l' (drop q t) s b" "q + b \<le> p + l"
  shows "break_at ms (floor_of l) l (drop p t) (q + s - p) (q + b - p)"
  using assms floor_mono [OF assms(2)] by (auto simp: break_at_def occurs_drop)

lemma cut_mono:
  assumes pq: "p \<le> q" and l: "0 < l" "l \<le> l'" and len: "q + l' < length t"
  shows "p + split_point l (drop p t) \<le> q + split_point l' (drop q t)"
proof -
  let ?P = "drop p t" and ?Q = "drop q t" and ?k = "split_point l (drop p t)" and ?k' = "split_point l' (drop q t)"
  have lenP: "l < length ?P" and lenQ: "l' < length ?Q" and l': "0 < l'" using pq l len by auto
  note fwd = break_forward [OF pq l(2) less_imp_le [OF len]]
    and bwd = break_backward [OF pq l(2) less_imp_le [OF len]]
  have kind: "kinds ! i \<in> set kinds" if "i < 4" for i using that by (intro nth_mem) (simp add: kinds_def)
  note P = split_point_cases [OF l(1) lenP] and Q = split_point_cases [OF l' lenQ]
  have kP: "?k \<le> l" using split_point_bounds [OF l(1) lenP] by simp
  from Q show ?thesis
  proof (elim disjE exE conjE)
    fix i' assume i': "i' < 4" "last_break (kinds ! i') (floor_of l') l' ?Q ?k'"
      "\<forall>j < i'. no_break (kinds ! j) (floor_of l') l' ?Q"
    then obtain s' where s': "break_at (kinds ! i') (floor_of l') l' ?Q s' ?k'"
      by (auto simp: last_break_def)
    then have fl': "floor_of l' \<le> s'" by (simp add: break_at_def)
    have wide': "s' + 1 \<le> ?k'" using break_width [OF kind [OF i'(1)] s'] by simp
    show ?thesis
    proof (rule ccontr)
      assume "\<not> ?thesis"
      then have lt: "q + ?k' < p + ?k" by simp
      then have "q + ?k' \<le> p + l" using kP by simp
      then have early: "break_at (kinds ! i') (floor_of l) l ?P (q + s' - p) (q + ?k' - p)"
        by (rule bwd [OF s'])
      with P i'(1) obtain i where i: "i < 4" "last_break (kinds ! i) (floor_of l) l ?P ?k"
        "\<forall>j < i. no_break (kinds ! j) (floor_of l) l ?P"
        by (auto simp: no_break_def)
      with early have ii: "i \<le> i'" unfolding no_break_def by (meson not_le)
      from i(2) obtain s where s: "break_at (kinds ! i) (floor_of l) l ?P s ?k"
        by (auto simp: last_break_def)
      have wide: "?k \<le> s + 2" using break_width [OF kind [OF i(1)] s] by simp
      have "\<not> p + s < q + floor_of l'"
        using wide wide' fl' lt by linarith
      then have "break_at (kinds ! i) (floor_of l') l' ?Q (p + s - q) (p + ?k - q)"
        by (intro fwd [OF s]) simp
      with i'(2,3) ii lt show False
        unfolding no_break_def last_break_def by (cases "i = i'") (force, meson le_neq_implies_less)
    qed
  next
    assume "?k' = l'"
    with kP pq l(2) show ?thesis by simp
  qed
qed

section \<open>Every cut returns\<close>

text \<open>The chunks of a positive limit: what the cutting loop returns.\<close>

function chunks :: "nat \<Rightarrow> utext \<Rightarrow> utext list" where
  "chunks l r =
     (if 0 < l \<and> l < length r
      then take (split_point l r) r # chunks l (drop (split_point l r) r)
      else if r = [] then [] else [r])"
  by pat_completeness auto

termination
proof (relation "measure (length \<circ> snd)")
  fix l :: nat and r :: utext
  assume "0 < l \<and> l < length r"
  with split_point_bounds [of l r] show "((l, drop (split_point l r) r), l, r) \<in> measure (length \<circ> snd)"
    by auto
qed simp

declare chunks.simps [simp del]

lemma chunks_cut:
  "0 < l \<Longrightarrow> l < length r \<Longrightarrow>
    chunks l r = take (split_point l r) r # chunks l (drop (split_point l r) r)"
  by (subst chunks.simps) simp

lemma chunks_rest: "\<not> l < length r \<Longrightarrow> chunks l r = (if r = [] then [] else [r])"
  by (subst chunks.simps) simp

lemma split_unlabeled_chunks: "0 < l \<Longrightarrow> split_unlabeled l r = Some (chunks l r)"
proof (induction l r rule: chunks.induct)
  case (1 l r)
  show ?case
  proof (cases "l < length r")
    case True
    with 1 have "split_unlabeled l (drop (split_point l r) r) = Some (chunks l (drop (split_point l r) r))"
      by simp
    with True \<open>0 < l\<close> show ?thesis
      by (subst split_unlabeled.simps) (simp add: chunks_cut Let_def)
  next
    case False
    then show ?thesis by (subst split_unlabeled.simps) (simp add: chunks_rest)
  qed
qed

lemma chunks_concat: "concat (chunks l r) = r"
proof (induction l r rule: chunks.induct)
  case (1 l r)
  show ?case
  proof (cases "0 < l \<and> l < length r")
    case True
    with 1 show ?thesis by (simp add: chunks_cut)
  next
    case False
    then show ?thesis by (subst chunks.simps) auto
  qed
qed

lemma chunks_bound: "0 < l \<Longrightarrow> c \<in> set (chunks l r) \<Longrightarrow> c \<noteq> [] \<and> length c \<le> l"
proof (induction l r rule: chunks.induct)
  case (1 l r)
  show ?case
  proof (cases "l < length r")
    case True
    let ?k = "split_point l r"
    have k: "0 < ?k" "?k \<le> l" using split_point_bounds [OF 1(2) True] by simp_all
    from 1(3) True 1(2) consider "c = take ?k r" | "c \<in> set (chunks l (drop ?k r))"
      by (auto simp: chunks_cut)
    then show ?thesis
    proof cases
      case 1
      with k True show ?thesis by auto
    next
      case 2
      with 1 True show ?thesis by blast
    qed
  next
    case False
    with 1 show ?thesis by (auto simp: chunks_rest split: if_splits)
  qed
qed

lemma chunks_length_le: "0 < l \<Longrightarrow> length (chunks l r) \<le> length r"
proof -
  assume l: "0 < l"
  have "length xs \<le> length (concat xs)" if "\<forall>c \<in> set xs. c \<noteq> []" for xs :: "utext list"
    using that by (induction xs) (auto simp: Suc_le_eq neq_Nil_conv)
  with chunks_bound [OF l] chunks_concat show ?thesis by metis
qed

text \<open>A larger limit, or a later start, never gives more chunks.\<close>

lemma chunks_antimono_from:
  "p \<le> q \<Longrightarrow> 0 < l \<Longrightarrow> l \<le> l' \<Longrightarrow> length (chunks l' (drop q t)) \<le> length (chunks l (drop p t))"
proof (induction "length t - p" arbitrary: p q rule: less_induct)
  case less
  show ?case
  proof (cases "l' < length (drop q t)")
    case True
    then have len: "q + l' < length t" by simp
    with less.prems have lP: "l < length (drop p t)" by simp
    let ?k = "split_point l (drop p t)" and ?k' = "split_point l' (drop q t)"
    have mono: "p + ?k \<le> q + ?k'" using cut_mono [OF less.prems len] .
    have k: "0 < ?k" using split_point_bounds [OF less.prems(2) lP] by simp
    have "length (chunks l' (drop (q + ?k') t)) \<le> length (chunks l (drop (p + ?k) t))"
      using k lP mono less.prems(2,3) by (intro less.hyps) auto
    with True lP less.prems show ?thesis by (simp add: chunks_cut add.commute)
  next
    case False
    have "drop p t \<noteq> []" if "drop q t \<noteq> []" using that less.prems(1) by auto
    moreover have "chunks l r \<noteq> []" if "r \<noteq> []" for r using that by (subst chunks.simps) simp
    ultimately show ?thesis using False by (auto simp: chunks_rest Suc_le_eq)
  qed
qed

lemma chunks_antimono: "0 < l \<Longrightarrow> l \<le> l' \<Longrightarrow> length (chunks l' t) \<le> length (chunks l t)"
  using chunks_antimono_from [of 0 0 l l' t] by simp

lemma chunks_two: "0 < l \<Longrightarrow> l < length r \<Longrightarrow> 2 \<le> length (chunks l r)"
proof -
  assume l: "0 < l" "l < length r"
  with split_point_bounds [OF l] have "drop (split_point l r) r \<noteq> []" by auto
  then have "chunks l (drop (split_point l r) r) \<noteq> []" by (subst chunks.simps) simp
  with l show ?thesis by (auto simp: chunks_cut Suc_le_eq)
qed

section \<open>The part count settles\<close>

lemma length_nat_text: "length (nat_text n) = (if n < 10 then 1 else Suc (length (nat_text (n div 10))))"
  by (subst nat_text.simps) simp

lemma nat_text_mono: "m \<le> n \<Longrightarrow> length (nat_text m) \<le> length (nat_text n)"
proof (induction m arbitrary: n rule: nat_text.induct)
  case (1 m)
  show ?case
  proof (cases "m < 10")
    case True
    then show ?thesis using length_nat_text [of n] length_nat_text [of m] by (auto split: if_splits)
  next
    case False
    with 1 have "length (nat_text (m div 10)) \<le> length (nat_text (n div 10))"
      by (simp add: div_le_mono)
    with False 1(2) show ?thesis by (simp add: length_nat_text [of m] length_nat_text [of n])
  qed
qed

lemma length_part_label: "length (part_label i n) = 10 + length (nat_text i) + length (nat_text n)"
  by (simp add: part_label_def label_start_def label_of_def label_end_def dec_def)

lemma fold_max_nat: "fold max xs (a::nat) = Max (insert a (set xs))"
proof (induction xs arbitrary: a)
  case (Cons x xs)
  have "fold max (x # xs) a = Max (insert (max x a) (set xs))" using Cons by simp
  also have "\<dots> = Max (insert a (set (x # xs)))"
    by (cases "xs = []") (simp_all add: max.commute max.left_commute max.assoc)
  finally show ?case .
qed simp

lemma content_limit_eq:
  assumes "0 < n"
  shows "content_limit limit n = max 1 (limit - (10 + 2 * length (nat_text n)))"
proof -
  let ?L = "map (\<lambda>i. length (part_label i n)) [1..<Suc n]"
  have "fold max ?L 0 = length (part_label n n)"
    unfolding fold_max_nat
  proof (rule Max_eqI)
    show "length (part_label n n) \<in> insert 0 (set ?L)" using assms by auto
    show "y \<le> length (part_label n n)" if "y \<in> insert 0 (set ?L)" for y
      using that nat_text_mono by (auto simp: length_part_label)
  qed simp
  then show ?thesis by (simp add: content_limit_def length_part_label)
qed

lemma content_limit_pos [simp]: "0 < content_limit limit n"
  by (simp add: content_limit_def)

lemma content_limit_antimono: "0 < m \<Longrightarrow> m \<le> n \<Longrightarrow> content_limit limit n \<le> content_limit limit m"
  using nat_text_mono [of m n] by (auto simp: content_limit_eq intro!: max.mono diff_le_mono2)

definition next_total :: "nat \<Rightarrow> utext \<Rightarrow> nat \<Rightarrow> nat" where
  "next_total limit text n = length (chunks (content_limit limit n) text)"

lemma next_total_mono: "0 < m \<Longrightarrow> m \<le> n \<Longrightarrow> next_total limit text m \<le> next_total limit text n"
  unfolding next_total_def by (intro chunks_antimono content_limit_antimono) simp_all

text \<open>
  From a count that its successor does not undercut the loop climbs to a fixed point: the
  counts never decrease and are bounded by the length of the text.
\<close>

lemma settle_total_returns:
  assumes "0 < n" "n \<le> next_total limit text n"
  shows "\<exists>k. settle_total limit text n = Some (k, chunks (content_limit limit k) text) \<and>
    length (chunks (content_limit limit k) text) = k \<and> n \<le> k"
  using assms
proof (induction "length text - n" arbitrary: n rule: less_induct)
  case less
  let ?m = "next_total limit text n"
  have step: "settle_total limit text n =
      (if ?m = n then Some (n, chunks (content_limit limit n) text) else settle_total limit text ?m)"
    by (subst settle_total.simps) (simp add: split_unlabeled_chunks next_total_def)
  show ?case
  proof (cases "?m = n")
    case True
    with step show ?thesis by (auto simp: next_total_def)
  next
    case False
    with less.prems have lt: "n < ?m" by simp
    have le: "?m \<le> length text" unfolding next_total_def by (rule chunks_length_le) simp
    have "?m \<le> next_total limit text ?m" using next_total_mono less.prems(1) lt by simp
    moreover have "length text - ?m < length text - n" "0 < ?m" using lt le by simp_all
    ultimately obtain k where "settle_total limit text ?m = Some (k, chunks (content_limit limit k) text)"
      "length (chunks (content_limit limit k) text) = k" "?m \<le> k"
      using less.hyps [of ?m] by blast
    with step False lt show ?thesis by auto
  qed
qed

lemma settled:
  assumes "0 < limit" "limit < length text"
  obtains k where "settle_total limit text 2 = Some (k, chunks (content_limit limit k) text)"
    "length (chunks (content_limit limit k) text) = k" "2 \<le> k"
proof -
  have "content_limit limit 2 \<le> limit" using assms by (simp add: content_limit_eq)
  with assms have "2 \<le> next_total limit text 2"
    unfolding next_total_def by (intro chunks_two) simp_all
  with settle_total_returns [of 2 limit "text"] that show ?thesis by auto
qed

section \<open>Labels come off again\<close>

lemma strip_prefix_append [simp]: "strip_prefix pre (pre @ s) = Some s"
  by (simp add: strip_prefix_def)

lemma dec_digits: "c \<in> set (dec n) \<Longrightarrow> u_digit c"
  using nat_text_digits by (fastforce simp: dec_def u_digit_def is_digit_def Let_def)

lemma dec_nonempty [simp]: "dec n \<noteq> []"
  by (subst (1) dec_def, subst nat_text.simps) simp

lemma strip_digits_dec:
  assumes "s \<noteq> []" "\<not> u_digit (hd s)"
  shows "strip_digits (dec n @ s) = Some s"
proof -
  from assms obtain c r where s: "s = c # r" "\<not> u_digit c" by (cases s) auto
  have "\<forall>c \<in> set (dec n). u_digit c" using dec_digits by blast
  then show ?thesis using s dec_nonempty [of n] by (simp add: strip_digits_def)
qed

lemma strip_part_label_label [simp]: "strip_part_label (part_label i n @ c) = c"
  by (simp add: strip_part_label_def part_label_def strip_digits_dec label_of_def label_end_def u_digit_def
      flip: append_assoc) (simp add: label_of_def label_end_def strip_digits_dec u_digit_def strip_prefix_def)

lemma label_parts_length [simp]: "length (label_parts cs n) = length cs"
  by (simp add: label_parts_def del: upt_Suc)

lemma label_parts_strip: "map strip_part_label (label_parts cs n) = cs"
proof -
  have "strip_part_label \<circ> (\<lambda>(i, y). part_label i n @ y) = snd" by (auto simp: fun_eq_iff)
  then show ?thesis by (simp add: label_parts_def del: upt_Suc)
qed

lemma label_partsE:
  assumes "p \<in> set (label_parts cs n)"
  obtains i c where "i \<le> length cs" "c \<in> set cs" "p = part_label i n @ c"
proof -
  from assms obtain i c where "(i, c) \<in> set (zip [1..<Suc (length cs)] cs)" "p = part_label i n @ c"
    by (auto simp: label_parts_def simp del: upt_Suc)
  moreover from this(1) have "i \<in> set [1..<Suc (length cs)]" "c \<in> set cs"
    by (rule set_zip_leftD, rule set_zip_rightD)
  ultimately show thesis using that [of i c] by (simp add: less_Suc_eq_le del: upt_Suc)
qed

section \<open>The splitter\<close>

text \<open>The search for a consistent part count always ends.\<close>

theorem split_returns: "\<exists>r. split_telegram_text body lim = Some r"
proof -
  let ?limit = "nat (min telegram_text_limit (max 1 lim))"
  show ?thesis
  proof (cases "body = [] \<or> length body \<le> ?limit")
    case False
    then have "0 < ?limit" "?limit < length body" by (auto simp: telegram_text_limit_def)
    then show ?thesis using False
      by (elim settled) (auto simp: split_telegram_text_def Let_def)
  qed (auto simp: split_telegram_text_def)
qed

text \<open>C29: Nothing is lost and every part fits.\<close>

theorem split_fits:
  assumes limit: "limit = nat (min telegram_text_limit (max 1 lim))"
    and room: "10 + 2 * length (nat_text (length body)) < limit"
  shows "\<exists>parts. split_telegram_text body lim = Some (Inr parts) \<and>
    (\<forall>p \<in> set parts. p \<noteq> [] \<and> length p \<le> limit) \<and>
    (if length body \<le> limit then concat parts = body else concat (map strip_part_label parts) = body)"
proof (cases "length body \<le> limit")
  case True
  then show ?thesis using limit by (cases "body = []") (auto simp: split_telegram_text_def Let_def)
next
  case False
  then obtain k where k: "settle_total limit body 2 = Some (k, chunks (content_limit limit k) body)"
      "length (chunks (content_limit limit k) body) = k" "2 \<le> k"
    using settled [of limit body] room by auto
  let ?cs = "chunks (content_limit limit k) body"
  have "k \<le> length body" using chunks_length_le [of "content_limit limit k" body] k(2) by simp
  then have digits: "length (nat_text k) \<le> length (nat_text (length body))" by (rule nat_text_mono)
  then have content: "content_limit limit k = limit - (10 + 2 * length (nat_text k))"
    using room k(3) by (simp add: content_limit_eq)
  have fit: "p \<noteq> [] \<and> length p \<le> limit" if "p \<in> set (label_parts ?cs k)" for p
  proof -
    from that obtain i c where p: "i \<le> length ?cs" "c \<in> set ?cs" "p = part_label i k @ c"
      by (rule label_partsE)
    have "length c \<le> content_limit limit k" "c \<noteq> []" using chunks_bound p(2) content_limit_pos by blast+
    moreover have "length (nat_text i) \<le> length (nat_text k)" using p(1) k(2) by (simp add: nat_text_mono)
    ultimately show ?thesis using p(3) content digits room by (simp add: length_part_label)
  qed
  then have "\<not> (\<exists>p \<in> set (label_parts ?cs k). limit < length p)" by (meson not_le)
  moreover have "body \<noteq> []" using False by auto
  ultimately have "split_telegram_text body lim = Some (Inr (label_parts ?cs k))"
    using False k(1) limit by (simp add: split_telegram_text_def Let_def)
  with fit False show ?thesis by (auto simp: label_parts_strip chunks_concat)
qed

theorem split_fits_witness:
  "\<exists>parts. split_telegram_text (replicate 60 97) 30 = Some (Inr parts) \<and>
    concat (map strip_part_label parts) = replicate 60 97"
proof -
  have "nat_text 60 = ''60''" by code_simp
  then show ?thesis
    using split_fits [of 30 30 "replicate 60 97"] by (auto simp: telegram_text_limit_def)
qed

end
