(* ===== verification/Callback.thy ===== *)
theory Callback
  imports Models TextSplit
begin

text \<open>
  \<open>app/callback_store.py\<close>: the durable mapping of callback payloads that exceed the 64 bytes
  Telegram allows. The table \<open>callback_tokens\<close> is the list of its rows, primary key
  \<open>token\<close>; \<open>hash\<close> is the hex digest of SHA-256 over the payload. A payload is a list of Unicode
  scalar values, and \<open>utf8_len\<close> counts the bytes of their encoding. The clock is an argument.
\<close>

section \<open>State\<close>

record token_row =
  token :: utext
  payload :: utext
  expires_at :: pystr

type_synonym token_table = "token_row list"

definition callback_max_bytes :: nat where "callback_max_bytes = 64"
definition token_prefix :: utext where "token_prefix = [99, 98, 58]"

definition utf8_width :: "nat \<Rightarrow> nat" where
  "utf8_width c = (if c < 128 then 1 else if c < 2048 then 2 else if c < 65536 then 3 else 4)"

definition byte_length :: "utext \<Rightarrow> nat" where
  "byte_length s = sum_list (map utf8_width s)"

definition has_prefix :: "utext \<Rightarrow> utext \<Rightarrow> bool" where
  "has_prefix pre s \<longleftrightarrow> take (length pre) s = pre"

section \<open>Operations\<close>

text \<open>\<open>INSERT OR REPLACE\<close>: the row of the token goes, the new one is appended.\<close>

definition put_token :: "token_row \<Rightarrow> token_table \<Rightarrow> token_table" where
  "put_token r t = filter (\<lambda>x. token x \<noteq> token r) t @ [r]"

text \<open>The prefix lengths the loop tries: \<open>range(24, 61, 4)\<close>.\<close>

definition prefix_lengths :: "nat list" where "prefix_lengths = [24, 28, 32, 36, 40, 44, 48, 52, 56, 60]"

fun allocate :: "utext \<Rightarrow> utext \<Rightarrow> pystr \<Rightarrow> nat list \<Rightarrow> token_table \<Rightarrow> (unit + utext) \<times> token_table" where
  "allocate digest p expiry [] t = (Inl (), t)"
| "allocate digest p expiry (n # ns) t =
     (let tok = token_prefix @ take n digest in
      case row_by token tok t of
        None \<Rightarrow> (Inr tok, put_token \<lparr>token = tok, payload = p, expires_at = expiry\<rparr> t)
      | Some r \<Rightarrow> if payload r = p
                  then (Inr tok, put_token \<lparr>token = tok, payload = p, expires_at = expiry\<rparr> t)
                  else allocate digest p expiry ns t)"

text \<open>\<open>encode\<close> and \<open>decode\<close>; \<open>Inl ()\<close> is \<open>CallbackDataError\<close>.\<close>

definition cb_encode :: "(utext \<Rightarrow> utext) \<Rightarrow> instant \<Rightarrow> utext \<Rightarrow> instant \<Rightarrow> token_table \<Rightarrow> (unit + utext) \<times> token_table" where
  "cb_encode hash ttl p now t =
     (if byte_length p < 1 then (Inl (), t)
      else if byte_length p \<le> callback_max_bytes \<and> \<not> has_prefix token_prefix p then (Inr p, t)
      else allocate (hash p) p (isoformat (now + ttl)) prefix_lengths t)"

definition read_expiry :: "pystr \<Rightarrow> instant" where
  "read_expiry s = (case fromisoformat (replace_Z s) of Some v \<Rightarrow> as_utc v | None \<Rightarrow> 0)"

definition cb_decode :: "utext \<Rightarrow> instant \<Rightarrow> token_table \<Rightarrow> (unit + utext) \<times> token_table" where
  "cb_decode v now t =
     (if byte_length v < 1 \<or> callback_max_bytes < byte_length v then (Inl (), t)
      else if \<not> has_prefix token_prefix v then (Inr v, t)
      else (case row_by token v t of
              None \<Rightarrow> (Inl (), t)
            | Some r \<Rightarrow> if read_expiry (expires_at r) \<le> now
                        then (Inl (), filter (\<lambda>x. token x \<noteq> v) t)
                        else (Inr (payload r), t)))"

definition cb_prune :: "instant \<Rightarrow> token_table \<Rightarrow> token_table" where
  "cb_prune now t = filter (\<lambda>r. \<not> expires_at r \<le> isoformat now) t"

datatype cb_op = Encode utext instant | Decode utext instant | Prune instant

fun cb_step :: "(utext \<Rightarrow> utext) \<Rightarrow> instant \<Rightarrow> cb_op \<Rightarrow> token_table \<Rightarrow> token_table" where
  "cb_step hash ttl (Encode p now) t = snd (cb_encode hash ttl p now t)"
| "cb_step hash ttl (Decode v now) t = snd (cb_decode v now t)"
| "cb_step hash ttl (Prune now) t = cb_prune now t"

fun op_time :: "cb_op \<Rightarrow> instant" where
  "op_time (Encode p now) = now"
| "op_time (Decode v now) = now"
| "op_time (Prune now) = now"

section \<open>A live token\<close>

text \<open>The token's one row holds the payload and an expiry text of an instant not before \<open>due\<close>.\<close>

definition live :: "utext \<Rightarrow> utext \<Rightarrow> instant \<Rightarrow> token_table \<Rightarrow> bool" where
  "live tok p due t \<longleftrightarrow> (\<exists>r e. row_by token tok t = Some r \<and> payload r = p \<and>
     expires_at r = isoformat e \<and> valid_instant e \<and> due \<le> e)"

text \<open>Operations before \<open>due\<close>, on a clock that does not run backwards from \<open>start\<close>.\<close>

definition in_window :: "instant \<Rightarrow> instant \<Rightarrow> cb_op \<Rightarrow> bool" where
  "in_window start ttl op \<longleftrightarrow> start \<le> op_time op \<and> op_time op < start + ttl \<and>
     valid_instant (op_time op) \<and> valid_instant (op_time op + ttl)"

lemma row_by_filter: "row_by key k (filter (\<lambda>x. key x \<noteq> j) t) = (if k = j then None else row_by key k t)"
  by (induction t) auto

lemma row_by_put [simp]:
  "row_by token k (put_token r t) = (if k = token r then Some r else row_by token k t)"
  by (simp add: put_token_def row_by_append row_by_filter split: option.split)

lemma row_by_kept: "row_by key k t = Some r \<Longrightarrow> P r \<Longrightarrow> (\<forall>x \<in> set t. key x = k \<longrightarrow> P x) \<Longrightarrow> row_by key k (filter P t) = Some r"
  by (induction t) (auto split: if_splits)

lemma allocate_live:
  assumes "live tok p due t" "valid_instant e" "due \<le> e"
  shows "live tok p due (snd (allocate digest q (isoformat e) ns t))"
proof (induction ns)
  case (Cons n ns)
  let ?new = "token_prefix @ take n digest"
  have keep: "live tok p due (put_token \<lparr>token = ?new, payload = q, expires_at = isoformat e\<rparr> t)"
    if "?new = tok \<Longrightarrow> q = p"
    using assms that unfolding live_def by (cases "?new = tok") auto
  show ?case
  proof (cases "row_by token ?new t")
    case None
    with assms(1) have "?new \<noteq> tok" by (auto simp: live_def)
    with None keep show ?thesis by (simp add: Let_def)
  next
    case (Some r)
    with assms(1) have "?new = tok \<Longrightarrow> payload r = p" by (auto simp: live_def)
    with Some keep Cons show ?thesis by (auto simp: Let_def)
  qed
qed (use assms in simp)

lemma read_expiry_iso: "valid_instant e \<Longrightarrow> read_expiry (isoformat e) = e"
  by (simp add: read_expiry_def fromisoformat_isoformat as_utc_def)

lemma decode_live:
  assumes "live tok p due t" "now < due"
  shows "live tok p due (snd (cb_decode v now t))"
proof -
  from assms obtain r e where r: "row_by token tok t = Some r" "payload r = p" "expires_at r = isoformat e"
    "valid_instant e" "due \<le> e" by (auto simp: live_def)
  then have "\<not> read_expiry (expires_at r) \<le> now" using assms(2) by (simp add: read_expiry_iso)
  with r show ?thesis
    by (auto simp: cb_decode_def live_def row_by_filter split: option.split)
qed

text \<open>Rows are kept apart by their token.\<close>

definition token_inv :: "token_table \<Rightarrow> bool" where "token_inv t \<longleftrightarrow> unique_on token t"

lemma filter_unique_rows: "unique_on key t \<Longrightarrow> unique_on key (filter P t)"
  by (induction t) auto

lemma put_unique: "unique_on token t \<Longrightarrow> unique_on token (put_token r t)"
  by (auto simp: put_token_def unique_on_def distinct_map_filter)

lemma allocate_unique: "unique_on token t \<Longrightarrow> unique_on token (snd (allocate digest q e ns t))"
  by (induction ns) (auto simp: Let_def put_unique split: option.split)

lemma cb_step_unique: "token_inv t \<Longrightarrow> token_inv (cb_step hash ttl op t)"
  unfolding token_inv_def
  by (cases op) (auto simp: cb_encode_def cb_decode_def cb_prune_def allocate_unique filter_unique_rows
      split: option.split)

lemma prune_live:
  assumes "live tok p due t" "token_inv t" "now < due" "valid_instant now"
  shows "live tok p due (cb_prune now t)"
proof -
  from assms obtain r e where r: "row_by token tok t = Some r" "payload r = p" "expires_at r = isoformat e"
    "valid_instant e" "due \<le> e" by (auto simp: live_def)
  then have keep: "\<not> expires_at r \<le> isoformat now" using assms(3,4) by (simp add: isoformat_order)
  have "x = r" if "x \<in> set t" "token x = tok" for x
    using row_by_unique [of token t x] that assms(2) r(1) by (simp add: token_inv_def)
  with keep r show ?thesis unfolding live_def cb_prune_def by (intro exI [of _ r] exI [of _ e]) (auto intro: row_by_kept)
qed

lemma cb_step_live:
  assumes "in_window start ttl op" "live tok p (start + ttl) t \<and> token_inv t"
  shows "live tok p (start + ttl) (cb_step hash ttl op t) \<and> token_inv (cb_step hash ttl op t)"
proof
  show "live tok p (start + ttl) (cb_step hash ttl op t)"
    using assms decode_live prune_live
    by (cases op) (auto simp: in_window_def cb_encode_def intro: allocate_live)
  show "token_inv (cb_step hash ttl op t)" using assms(2) cb_step_unique by blast
qed

interpretation cb: guarded_machine "cb_step hash ttl" "\<lambda>t. live tok p (start + ttl) t \<and> token_inv t"
    "in_window start ttl" for hash ttl tok p start
  by unfold_locales (rule cb_step_live)

lemma allocate_result:
  "fst (allocate digest q expiry ns t) = Inr tok \<Longrightarrow>
    row_by token tok (snd (allocate digest q expiry ns t)) = Some \<lparr>token = tok, payload = q, expires_at = expiry\<rparr> \<and>
    (\<exists>n \<in> set ns. tok = token_prefix @ take n digest)"
  by (induction ns) (auto simp: Let_def split: option.splits if_splits)

lemma ascii_bytes: "\<forall>c \<in> set s. c < 128 \<Longrightarrow> byte_length s = length s"
  by (induction s) (auto simp: byte_length_def utf8_width_def)

text \<open>
  C39: What \<open>encode\<close> hands out fits a button and decodes to the payload until it expires, whatever
  else is encoded, decoded or pruned in between, even if the digests of other payloads collide.
\<close>

theorem callback_round_trip:
  assumes enc: "cb_encode hash ttl p start t = (Inr tok, t')"
    and hex: "\<forall>c \<in> set (hash p). c < 128"
    and inv: "token_inv t" "valid_instant (start + ttl)"
    and ops: "list_all (in_window start ttl) ops"
    and now: "now < start + ttl"
  shows "byte_length tok \<le> 64 \<and> fst (cb_decode tok now (fold (cb_step hash ttl) ops t')) = Inr p"
proof (cases "byte_length p \<le> callback_max_bytes \<and> \<not> has_prefix token_prefix p")
  case True
  with enc show ?thesis by (auto simp: cb_encode_def cb_decode_def callback_max_bytes_def split: if_splits)
next
  case False
  let ?e = "isoformat (start + ttl)"
  from False enc have alloc: "allocate (hash p) p ?e prefix_lengths t = (Inr tok, t')"
    by (auto simp: cb_encode_def split: if_splits)
  with allocate_result [of "hash p" p ?e prefix_lengths t tok]
  have row: "row_by token tok t' = Some \<lparr>token = tok, payload = p, expires_at = ?e\<rparr>"
    and tok: "\<exists>n \<in> set prefix_lengths. tok = token_prefix @ take n (hash p)" by auto
  have "\<forall>n \<in> set prefix_lengths. n \<le> 60" by (simp add: prefix_lengths_def)
  with tok obtain n where n: "n \<le> 60" "tok = token_prefix @ take n (hash p)" by blast
  have "\<forall>c \<in> set tok. c < 128" using hex n(2) by (auto simp: token_prefix_def dest: in_set_takeD)
  then have bytes: "byte_length tok = length tok" by (rule ascii_bytes)
  have size: "1 \<le> byte_length tok" "byte_length tok \<le> 64" "has_prefix token_prefix tok"
  proof -
    have "3 \<le> length tok" "length tok \<le> 63" "has_prefix token_prefix tok"
      using n by (auto simp: token_prefix_def has_prefix_def)
    with bytes show "1 \<le> byte_length tok" "byte_length tok \<le> 64" "has_prefix token_prefix tok"
      by simp_all
  qed
  have "live tok p (start + ttl) t'" using row inv(2) by (auto simp: live_def)
  moreover have "token_inv t'" using inv(1) alloc allocate_unique [of t "hash p" p ?e prefix_lengths]
    by (simp add: token_inv_def)
  ultimately have "live tok p (start + ttl) (fold (cb_step hash ttl) ops t')"
    using cb.legal_run [OF ops] by blast
  then obtain r e where "row_by token tok (fold (cb_step hash ttl) ops t') = Some r" "payload r = p"
    "expires_at r = isoformat e" "valid_instant e" "start + ttl \<le> e" by (auto simp: live_def)
  with size now show ?thesis by (simp add: cb_decode_def callback_max_bytes_def read_expiry_iso)
qed

definition demo_hash :: "utext \<Rightarrow> utext" where "demo_hash s = replicate 64 97"

theorem callback_round_trip_witness:
  "fst (cb_decode (token_prefix @ replicate 28 97) 200
     (fold (cb_step demo_hash 1000) [Encode (replicate 70 121) 100, Prune 150, Decode [99, 98, 58] 160]
       (snd (cb_encode demo_hash 1000 (replicate 70 120) 0
         [\<lparr>token = token_prefix @ replicate 24 97, payload = replicate 70 122, expires_at = isoformat 0\<rparr>])))) =
   Inr (replicate 70 120)"
proof -
  let ?t = "[\<lparr>token = token_prefix @ replicate 24 97, payload = replicate 70 122, expires_at = isoformat 0\<rparr>]"
  let ?ops = "[Encode (replicate 70 121) 100, Prune 150, Decode [99, 98, 58] 160]"
  have "fst (cb_encode demo_hash 1000 (replicate 70 120) 0 ?t) = Inr (token_prefix @ replicate 28 97)"
    by (simp add: cb_encode_def byte_length_def utf8_width_def has_prefix_def token_prefix_def
        prefix_lengths_def demo_hash_def sum_list_replicate callback_max_bytes_def Let_def)
  then have "cb_encode demo_hash 1000 (replicate 70 120) 0 ?t =
      (Inr (token_prefix @ replicate 28 97), snd (cb_encode demo_hash 1000 (replicate 70 120) 0 ?t))"
    by (metis prod.collapse)
  moreover have "list_all (in_window 0 1000) ?ops"
    by (simp add: in_window_def valid_instant_def us_per_day_def)
  ultimately show ?thesis
    using callback_round_trip [of demo_hash 1000 "replicate 70 120" 0 ?t _ _ ?ops 200]
    by (simp add: demo_hash_def token_inv_def valid_instant_def us_per_day_def)
qed

end
