(* ===== verification/Delivery.thy ===== *)
theory Delivery
  imports Callback
begin

text \<open>
  \<open>app/message_delivery.py\<close> and the sending side of \<open>app/telegram.py\<close>: the receipts of
  multi-part messages, the retry loop around the Bot API, \<open>send_message\<close> with its delivery
  key, \<open>edit_message_text\<close>, the encoding of keyboards.

  A request consumes one event of the network: the reply the process sees and whether Telegram
  accepted the message. When no event is left the process dies at that request; the durable
  stores and the chat keep what they have. The column \<open>parts_json\<close> is the value its text
  denotes. Pauses are logged in \<open>naps\<close>; the random jitter is not modelled. SHA-256 is a
  parameter of the configuration.
\<close>

section \<open>Receipts\<close>

datatype parts_value = PartText utext | PartOther
datatype parts_column = PartsList "parts_value list" | PartsOther | PartsUndecodable

record part_row =
  part_key :: utext
  part_index :: nat
  content_sha256 :: utext
  message_id :: int

record plan_row =
  plan_key :: utext
  source_sha256 :: utext
  full_text :: utext
  parts_json :: parts_column

record delivery_db =
  delivery_parts :: "part_row list"
  delivery_plans :: "plan_row list"

abbreviation part_id :: "part_row \<Rightarrow> utext \<times> nat" where
  "part_id r \<equiv> (part_key r, part_index r)"

definition confirmed_message_id :: "(utext \<Rightarrow> utext) \<Rightarrow> utext \<Rightarrow> nat \<Rightarrow> utext \<Rightarrow> delivery_db \<Rightarrow> int option" where
  "confirmed_message_id hash key i part db =
     (case row_by part_id (key, i) (delivery_parts db) of
        None \<Rightarrow> None
      | Some r \<Rightarrow> if content_sha256 r \<noteq> hash part then None else Some (message_id r))"

definition confirm :: "(utext \<Rightarrow> utext) \<Rightarrow> utext \<Rightarrow> nat \<Rightarrow> utext \<Rightarrow> int \<Rightarrow> delivery_db \<Rightarrow> delivery_db" where
  "confirm hash key i part m db = db\<lparr>delivery_parts :=
     filter (\<lambda>r. part_id r \<noteq> (key, i)) (delivery_parts db) @
       [\<lparr>part_key = key, part_index = i, content_sha256 = hash part, message_id = m\<rparr>]\<rparr>"

fun part_text :: "parts_value \<Rightarrow> utext option" where
  "part_text (PartText s) = (if s = [] then None else Some s)"
| "part_text PartOther = None"

definition read_parts :: "parts_column \<Rightarrow> utext list option" where
  "read_parts c = (case c of
       PartsList vs \<Rightarrow> if vs = [] \<or> None \<in> set (map part_text vs) then None
                       else Some (map (the \<circ> part_text) vs)
     | _ \<Rightarrow> None)"

definition get_plan :: "utext \<Rightarrow> delivery_db \<Rightarrow> (utext \<times> utext list) option" where
  "get_plan key db =
     (case row_by plan_key key (delivery_plans db) of
        None \<Rightarrow> None
      | Some r \<Rightarrow> map_option (\<lambda>ps. (full_text r, ps)) (read_parts (parts_json r)))"

definition save_plan :: "(utext \<Rightarrow> utext) \<Rightarrow> utext \<Rightarrow> utext \<Rightarrow> utext list \<Rightarrow> delivery_db \<Rightarrow> delivery_db" where
  "save_plan hash key part parts db = db\<lparr>delivery_plans :=
     insert_ignore plan_key
       \<lparr>plan_key = key, source_sha256 = hash part, full_text = part, parts_json = PartsList (map PartText parts)\<rparr>
       (delivery_plans db)\<rparr>"

definition clear_delivery :: "utext \<Rightarrow> delivery_db \<Rightarrow> delivery_db" where
  "clear_delivery key db = db\<lparr>delivery_parts := filter (\<lambda>r. part_key r \<noteq> key) (delivery_parts db),
     delivery_plans := filter (\<lambda>r. plan_key r \<noteq> key) (delivery_plans db)\<rparr>"

section \<open>The Bot API\<close>

datatype http_body = NotJson | NotObject | Payload pydict
text \<open>
  What a request meets. \<open>Killed\<close>: the process ends after the request was posted and before the
  receipt of its reply is written, in \<open>api\<close> or between its return and \<open>confirm\<close>. The flag beside it
  in \<open>network\<close> tells whether Telegram accepted the message all the same.
\<close>

datatype http = NetworkError | Killed | Response int http_body

record button =
  label :: utext
  callback_data :: "utext option"

datatype markup = Inline "button list list" | OtherMarkup

datatype outgoing =
    SendText int utext "markup option"
  | EditText int int utext "markup option"

datatype nap = Backoff nat | RetryAfter int | Pace

record bot =
  delivery_store :: "delivery_db option"
  callback_store :: "token_table option"
  last_rate_limit :: bool
  naps :: "nap list"
  chat :: "outgoing list"
  network :: "(http \<times> bool) list"

record tg_config =
  content_hash :: "utext \<Rightarrow> utext"
  callback_ttl :: instant
  review_chat_id :: int
  pacing :: bool

datatype 'a result = Returned 'a | Raised tg_error | Died

datatype reply = Result json | Fatal tg_error | Again tg_error "int option" | Gone

text \<open>
  One reply of the loop in \<open>api\<close>. \<open>Again e r\<close> is retried while attempts are left, and raises
  \<open>e\<close> otherwise; \<open>r\<close> is the server's \<open>retry_after\<close> of a 429.
\<close>

definition retry_after_of :: "pydict \<Rightarrow> py_exc + int" where
  "retry_after_of d =
     (let ps = (case dict_get d ''parameters'' JNull of JObj ps \<Rightarrow> ps | _ \<Rightarrow> []);
          v = dict_get ps ''retry_after'' (JInt 1)
      in case py_int (if truthy v then v else JInt 1) of
           Inl TypeError \<Rightarrow> Inr 1
         | Inl ValueError \<Rightarrow> Inr 1
         | r \<Rightarrow> r)"

definition read_payload :: "int \<Rightarrow> pydict \<Rightarrow> reply" where
  "read_payload status d =
     (case int_or_zero (dict_get d ''error_code'' (JInt 0)) of
        Inl TypeError \<Rightarrow> Fatal TgPermanent
      | Inl ValueError \<Rightarrow> Fatal TgPermanent
      | Inl e \<Rightarrow> Fatal (TgPy e)
      | Inr code \<Rightarrow>
          if status = 429 \<or> code = 429
          then (case retry_after_of d of
                  Inl e \<Rightarrow> Fatal (TgPy e)
                | Inr r \<Rightarrow> Again (TgRateLimit (max 1 r)) (Some r))
          else if 500 \<le> status \<or> 500 \<le> code then Again TgTransient None
          else if 400 \<le> status \<or> \<not> truthy (dict_get d ''ok'' JNull) then Fatal TgPermanent
          else Result (dict_get d ''result'' JNull))"

fun read_reply :: "http \<Rightarrow> reply" where
  "read_reply NetworkError = Again TgTransient None"
| "read_reply Killed = Gone"
| "read_reply (Response status NotJson) = (if 500 \<le> status then Again TgTransient None else Fatal TgPermanent)"
| "read_reply (Response status NotObject) = Fatal TgPermanent"
| "read_reply (Response status (Payload d)) = read_payload status d"

text \<open>\<open>_sleep_before_retry\<close>, in seconds and without the jitter.\<close>

fun nap_seconds :: "nap \<Rightarrow> int" where
  "nap_seconds (RetryAfter r) = min 120 (max 1 r)"
| "nap_seconds (Backoff attempt) = min 8 (2 ^ attempt)"
| "nap_seconds Pace = 1"

fun api_loop :: "nat \<Rightarrow> nat \<Rightarrow> outgoing \<Rightarrow> bot \<Rightarrow> json result \<times> bot" where
  "api_loop 0 attempt out b = (Raised TgTransient, b)"
| "api_loop (Suc left) attempt out b =
     (case network b of
        [] \<Rightarrow> (Died, b)
      | (http, accepted) # rest \<Rightarrow>
          let b1 = b\<lparr>network := rest, chat := chat b @ (if accepted then [out] else [])\<rparr> in
          case read_reply http of
            Result r \<Rightarrow> (Returned r, b1)
          | Fatal e \<Rightarrow> (Raised e, b1)
          | Gone \<Rightarrow> (Died, b1)
          | Again e r \<Rightarrow>
              let b2 = b1\<lparr>last_rate_limit := last_rate_limit b1 \<or> r \<noteq> None\<rparr> in
              if left = 0 then (Raised e, b2)
              else api_loop left (Suc attempt) out
                     (b2\<lparr>naps := naps b2 @ [case r of Some s \<Rightarrow> RetryAfter s | None \<Rightarrow> Backoff attempt]\<rparr>))"

definition api :: "outgoing \<Rightarrow> bot \<Rightarrow> json result \<times> bot" where
  "api out b = api_loop 3 0 out (b\<lparr>last_rate_limit := False\<rparr>)"

section \<open>Keyboards\<close>

text \<open>\<open>_encode_reply_markup\<close>, button by button: tokens stored before an error stay stored.\<close>

definition encode_button :: "tg_config \<Rightarrow> instant \<Rightarrow> button \<Rightarrow> bot \<Rightarrow> (tg_error + button) \<times> bot" where
  "encode_button cfg now item b =
     (case callback_data item of
        None \<Rightarrow> (Inr item, b)
      | Some raw \<Rightarrow>
          if byte_length raw < 1 then (Inl TgCallback, b)
          else if callback_max_bytes < byte_length raw
          then (case callback_store b of
                  None \<Rightarrow> (Inl TgCallback, b)
                | Some t \<Rightarrow>
                    (case cb_encode (content_hash cfg) (callback_ttl cfg) raw now t of
                       (Inl u, t') \<Rightarrow> (Inl TgCallback, b\<lparr>callback_store := Some t'\<rparr>)
                     | (Inr tok, t') \<Rightarrow> (Inr (item\<lparr>callback_data := Some tok\<rparr>), b\<lparr>callback_store := Some t'\<rparr>)))
          else (Inr item, b))"

fun encode_row :: "tg_config \<Rightarrow> instant \<Rightarrow> button list \<Rightarrow> bot \<Rightarrow> (tg_error + button list) \<times> bot" where
  "encode_row cfg now [] b = (Inr [], b)"
| "encode_row cfg now (i # is) b =
     (case encode_button cfg now i b of
        (Inl e, b') \<Rightarrow> (Inl e, b')
      | (Inr i', b') \<Rightarrow>
          (case encode_row cfg now is b' of
             (Inl e, b'') \<Rightarrow> (Inl e, b'')
           | (Inr is', b'') \<Rightarrow> (Inr (i' # is'), b'')))"

fun encode_rows :: "tg_config \<Rightarrow> instant \<Rightarrow> button list list \<Rightarrow> bot \<Rightarrow> (tg_error + button list list) \<times> bot" where
  "encode_rows cfg now [] b = (Inr [], b)"
| "encode_rows cfg now (r # rs) b =
     (case encode_row cfg now r b of
        (Inl e, b') \<Rightarrow> (Inl e, b')
      | (Inr r', b') \<Rightarrow>
          (case encode_rows cfg now rs b' of
             (Inl e, b'') \<Rightarrow> (Inl e, b'')
           | (Inr rs', b'') \<Rightarrow> (Inr (r' # rs'), b'')))"

fun encode_reply_markup :: "tg_config \<Rightarrow> instant \<Rightarrow> markup option \<Rightarrow> bot \<Rightarrow> (tg_error + markup option) \<times> bot" where
  "encode_reply_markup cfg now (Some (Inline rows)) b =
     (case encode_rows cfg now rows b of
        (Inl e, b') \<Rightarrow> (Inl e, b')
      | (Inr rows', b') \<Rightarrow> (Inr (Some (Inline rows')), b'))"
| "encode_reply_markup cfg now m b = (Inr m, b)"

definition decode_callback_data :: "utext \<Rightarrow> instant \<Rightarrow> bot \<Rightarrow> (tg_error + utext) \<times> bot" where
  "decode_callback_data v now b =
     (if byte_length v < 1 \<or> callback_max_bytes < byte_length v then (Inl TgCallback, b)
      else if has_prefix token_prefix v
      then (case callback_store b of
              None \<Rightarrow> (Inl TgCallback, b)
            | Some t \<Rightarrow> (case cb_decode v now t of
                           (Inl u, t') \<Rightarrow> (Inl TgCallback, b\<lparr>callback_store := Some t'\<rparr>)
                         | (Inr s, t') \<Rightarrow> (Inr s, b\<lparr>callback_store := Some t'\<rparr>)))
      else (Inr v, b))"

section \<open>Sending\<close>

text \<open>The store a keyed message uses: a key that is empty counts as no key.\<close>

definition keyed_store :: "utext option \<Rightarrow> bot \<Rightarrow> (utext \<times> delivery_db) option" where
  "keyed_store key b = (case key of
       Some k \<Rightarrow> if k = [] then None else map_option (Pair k) (delivery_store b)
     | None \<Rightarrow> None)"

definition result_dict :: "json \<Rightarrow> pydict" where
  "result_dict r = (case r of JObj d \<Rightarrow> d | _ \<Rightarrow> [])"

definition result_id :: "json \<Rightarrow> py_exc + int" where
  "result_id r = int_or_zero (dict_get (result_dict r) ''message_id'' (JInt 0))"

definition plan_parts :: "tg_config \<Rightarrow> utext option \<Rightarrow> utext \<Rightarrow> bot \<Rightarrow> ((tg_error + utext list) \<times> bot) option" where
  "plan_parts cfg key full b =
     (case (case keyed_store key b of Some (k, db) \<Rightarrow> get_plan k db | None \<Rightarrow> None) of
        Some (persisted, ps) \<Rightarrow> Some (Inr ps, b)
      | None \<Rightarrow>
          (case split_telegram_text full telegram_safe_text_target of
             None \<Rightarrow> None
           | Some (Inl e) \<Rightarrow> Some (Inl e, b)
           | Some (Inr ps) \<Rightarrow>
               Some (Inr ps,
                 (case keyed_store key b of
                    Some (k, db) \<Rightarrow> if ps = [] then b
                                    else b\<lparr>delivery_store := Some (save_plan (content_hash cfg) k full ps db)\<rparr>
                  | None \<Rightarrow> b))))"

fun send_parts :: "tg_config \<Rightarrow> instant \<Rightarrow> utext option \<Rightarrow> int \<Rightarrow> markup option \<Rightarrow> nat \<Rightarrow> utext list
    \<Rightarrow> bool \<Rightarrow> bool \<Rightarrow> pydict \<Rightarrow> bot \<Rightarrow> pydict result \<times> bot" where
  "send_parts cfg now key target mk i [] sent limited prev b = (Returned prev, b)"
| "send_parts cfg now key target mk i (p # ps) sent limited prev b =
     (case (case keyed_store key b of
              Some (k, db) \<Rightarrow> confirmed_message_id (content_hash cfg) k i p db
            | None \<Rightarrow> None) of
        Some m \<Rightarrow> send_parts cfg now key target mk (Suc i) ps sent limited [(''message_id'', JInt m)] b
      | None \<Rightarrow>
          let b1 = (if sent \<and> \<not> limited \<and> pacing cfg then b\<lparr>naps := naps b @ [Pace]\<rparr> else b) in
          (case (if ps = [] then encode_reply_markup cfg now mk b1 else (Inr None, b1)) of
            (Inl e, b2) \<Rightarrow> (Raised e, b2)
          | (Inr mk', b2) \<Rightarrow>
              (case api (SendText target p mk') b2 of
                 (Died, b3) \<Rightarrow> (Died, b3)
               | (Raised e, b3) \<Rightarrow> (Raised e, b3)
               | (Returned r, b3) \<Rightarrow>
                   (case keyed_store key b3 of
                      None \<Rightarrow> send_parts cfg now key target mk (Suc i) ps True (last_rate_limit b3) (result_dict r) b3
                    | Some (k, db) \<Rightarrow>
                        (case result_id r of
                           Inl e \<Rightarrow> (Raised (TgPy e), b3)
                         | Inr m \<Rightarrow> send_parts cfg now key target mk (Suc i) ps True (last_rate_limit b3) (result_dict r)
                                      (b3\<lparr>delivery_store := Some (confirm (content_hash cfg) k i p m db)\<rparr>))))))"

text \<open>\<open>None\<close> would be a call that never returns; the splitter excludes it.\<close>

definition send_message :: "tg_config \<Rightarrow> instant \<Rightarrow> utext \<Rightarrow> int option \<Rightarrow> markup option \<Rightarrow> utext option
    \<Rightarrow> bot \<Rightarrow> (pydict result \<times> bot) option" where
  "send_message cfg now full chat_id mk key b =
     map_option (\<lambda>plan. case plan of
         (Inl e, b1) \<Rightarrow> (Raised e, b1)
       | (Inr ps, b1) \<Rightarrow>
           if ps = [] then (Raised TgPermanent, b1)
           else send_parts cfg now key (case chat_id of None \<Rightarrow> review_chat_id cfg | Some c \<Rightarrow> c)
                  mk 0 ps False False [] b1)
       (plan_parts cfg key full b)"

text \<open>
  \<open>edit_message_text\<close>: the first part replaces the message, each further part is a keyed
  message of its own.
\<close>

definition tail_key :: "int \<Rightarrow> utext \<Rightarrow> nat \<Rightarrow> utext" where
  "tail_key mid digest i =
     [101, 100, 105, 116, 58] @ map of_char (int_text mid) @ [58] @ digest @ [58] @ dec i"

fun edit_tails :: "tg_config \<Rightarrow> instant \<Rightarrow> int \<Rightarrow> utext \<Rightarrow> markup option \<Rightarrow> nat \<Rightarrow> utext list \<Rightarrow> bool
    \<Rightarrow> pydict \<Rightarrow> bot \<Rightarrow> (pydict result \<times> bot) option" where
  "edit_tails cfg now mid digest mk i [] limited prev b = Some (Returned prev, b)"
| "edit_tails cfg now mid digest mk i (p # ps) limited prev b =
     (let key = tail_key mid digest i;
          confirmed = (case delivery_store b of
              None \<Rightarrow> None | Some db \<Rightarrow> confirmed_message_id (content_hash cfg) key 0 p db);
          b1 = (if confirmed = None \<and> \<not> limited \<and> pacing cfg then b\<lparr>naps := naps b @ [Pace]\<rparr> else b)
      in case send_message cfg now p None (if ps = [] then mk else None) (Some key) b1 of
           None \<Rightarrow> None
         | Some (Returned r, b2) \<Rightarrow>
             edit_tails cfg now mid digest mk (Suc i) ps
               (if confirmed = None then last_rate_limit b2 else limited) r b2
         | Some (Raised e, b2) \<Rightarrow> Some (Raised e, b2)
         | Some (Died, b2) \<Rightarrow> Some (Died, b2))"

definition edit_message_text :: "tg_config \<Rightarrow> instant \<Rightarrow> int \<Rightarrow> utext \<Rightarrow> markup option \<Rightarrow> bot
    \<Rightarrow> (pydict result \<times> bot) option" where
  "edit_message_text cfg now mid full mk b =
     (case split_telegram_text full telegram_safe_text_target of
        None \<Rightarrow> None
      | Some (Inl e) \<Rightarrow> Some (Raised e, b)
      | Some (Inr []) \<Rightarrow> Some (Raised TgPermanent, b)
      | Some (Inr (p # ps)) \<Rightarrow>
          (case encode_reply_markup cfg now (if ps = [] then mk else None) b of
             (Inl e, b1) \<Rightarrow> Some (Raised e, b1)
           | (Inr mk', b1) \<Rightarrow>
               (case api (EditText (review_chat_id cfg) mid p mk') b1 of
                  (Died, b2) \<Rightarrow> Some (Died, b2)
                | (Raised e, b2) \<Rightarrow> Some (Raised e, b2)
                | (Returned r, b2) \<Rightarrow>
                    if ps = [] then Some (Returned (result_dict r), b2)
                    else edit_tails cfg now mid (take 24 (content_hash cfg full)) mk 1 ps
                           (last_rate_limit b2) (result_dict r) b2)))"

section \<open>What one request does\<close>

text \<open>
  A reply that reports success comes after the message was accepted (\<open>honest\<close>); a message
  accepted without a usable success reply, because the reply was lost or the process died with it,
  is \<open>ambiguous\<close>: the next call must send it again.
\<close>

definition usable :: "json \<Rightarrow> bool" where
  "usable r = (case result_id r of Inr m \<Rightarrow> True | Inl e \<Rightarrow> False)"

definition honest :: "http \<times> bool \<Rightarrow> bool" where
  "honest ev = (case read_reply (fst ev) of Result r \<Rightarrow> snd ev | _ \<Rightarrow> True)"

definition ambiguous :: "http \<times> bool \<Rightarrow> bool" where
  "ambiguous ev = (snd ev \<and> (case read_reply (fst ev) of Result r \<Rightarrow> \<not> usable r | _ \<Rightarrow> True))"

definition doubts :: "(http \<times> bool) list \<Rightarrow> nat" where
  "doubts evs = length (filter ambiguous evs)"

lemma doubts_simps [simp]: "doubts [] = 0" "doubts (e # es) = (if ambiguous e then 1 else 0) + doubts es"
  by (simp_all add: doubts_def)

fun usable_result :: "json result \<Rightarrow> bool" where
  "usable_result (Returned r) = usable r"
| "usable_result _ = False"

lemma api_loop_effect:
  assumes "api_loop left attempt out b = (res, b')" "list_all honest (network b)"
  shows "\<exists>d. chat b' = chat b @ replicate d out \<and> delivery_store b' = delivery_store b \<and>
    callback_store b' = callback_store b \<and> list_all honest (network b') \<and>
    d + doubts (network b') \<le> (if usable_result res then 1 else 0) + doubts (network b) \<and>
    (\<forall>r. res = Returned r \<longrightarrow> 1 \<le> d)"
  using assms
proof (induction left arbitrary: attempt b)
  case (Suc left)
  show ?case
  proof (cases "network b")
    case Nil
    with Suc.prems show ?thesis by (intro exI [of _ 0]) auto
  next
    case (Cons ev rest)
    obtain http acc where ev: "ev = (http, acc)" by (cases ev)
    let ?d = "if acc then 1 else 0 :: nat"
    have hon: "honest ev" "list_all honest rest" using Suc.prems(2) Cons by simp_all
    show ?thesis
    proof (cases "read_reply http")
      case (Result r)
      then have "acc" using hon(1) ev by (simp add: honest_def)
      with Suc.prems(1) Cons ev hon(2) Result show ?thesis
        by (intro exI [of _ ?d]) (auto simp: ambiguous_def)
    next
      case (Fatal e)
      with Suc.prems(1) Cons ev hon show ?thesis
        by (intro exI [of _ ?d]) (auto simp: ambiguous_def)
    next
      case Gone
      with Suc.prems(1) Cons ev hon show ?thesis
        by (intro exI [of _ ?d]) (auto simp: ambiguous_def)
    next
      case (Again e ra)
      let ?b1 = "b\<lparr>network := rest, chat := chat b @ (if acc then [out] else [])\<rparr>"
      let ?b2 = "?b1\<lparr>last_rate_limit := last_rate_limit b \<or> ra \<noteq> None\<rparr>"
      let ?b3 = "?b2\<lparr>naps := naps b @ [case ra of Some s \<Rightarrow> RetryAfter s | None \<Rightarrow> Backoff attempt]\<rparr>"
      have amb: "ambiguous ev \<longleftrightarrow> acc" using Again ev by (simp add: ambiguous_def)
      show ?thesis
      proof (cases "left = 0")
        case True
        with Suc.prems(1) Cons ev Again hon amb show ?thesis
          by (intro exI [of _ ?d]) auto
      next
        case False
        with Suc.prems(1) Cons ev Again have "api_loop left (Suc attempt) out ?b3 = (res, b')" by simp
        from Suc.IH [OF this] hon(2) obtain d where d: "chat b' = chat ?b3 @ replicate d out"
          "delivery_store b' = delivery_store b" "callback_store b' = callback_store b"
          "list_all honest (network b')"
          "d + doubts (network b') \<le> (if usable_result res then 1 else 0) + doubts rest"
          "\<forall>r. res = Returned r \<longrightarrow> 1 \<le> d" by auto
        then show ?thesis using Cons amb
          by (intro exI [of _ "?d + d"]) (auto simp: replicate_add)
      qed
    qed
  qed
qed (intro exI [of _ 0], auto)

lemma api_effect:
  assumes "api out b = (res, b')" "list_all honest (network b)"
  obtains d where "chat b' = chat b @ replicate d out" "delivery_store b' = delivery_store b"
    "list_all honest (network b')"
    "d + doubts (network b') \<le> (if usable_result res then 1 else 0) + doubts (network b)"
    "\<And>r. res = Returned r \<Longrightarrow> 1 \<le> d"
  using api_loop_effect [OF assms(1) [unfolded api_def]] assms(2) by auto

text \<open>Encoding a keyboard leaves the chat, the network and the receipts alone.\<close>

lemma encode_button_frame:
  "encode_button cfg now i b = (r, b') \<Longrightarrow> chat b' = chat b \<and> network b' = network b \<and> delivery_store b' = delivery_store b"
  by (auto simp: encode_button_def split: option.splits if_splits prod.splits sum.splits)

lemma encode_row_frame:
  "encode_row cfg now is b = (r, b') \<Longrightarrow> chat b' = chat b \<and> network b' = network b \<and> delivery_store b' = delivery_store b"
  by (induction "is" arbitrary: b r b') (auto split: prod.splits sum.splits dest!: encode_button_frame)

lemma encode_rows_frame:
  "encode_rows cfg now rs b = (r, b') \<Longrightarrow> chat b' = chat b \<and> network b' = network b \<and> delivery_store b' = delivery_store b"
  by (induction rs arbitrary: b r b') (auto split: prod.splits sum.splits dest!: encode_row_frame)

lemma encode_frame:
  "encode_reply_markup cfg now mk b = (r, b') \<Longrightarrow> chat b' = chat b \<and> network b' = network b \<and> delivery_store b' = delivery_store b"
  by (induction cfg now mk b rule: encode_reply_markup.induct)
    (auto split: prod.splits sum.splits dest!: encode_rows_frame)

section \<open>Progress of a keyed message\<close>

text \<open>The texts sent when part \<open>i\<close> was accepted \<open>cs ! i\<close> times.\<close>

definition tally :: "utext list \<Rightarrow> nat list \<Rightarrow> utext list" where
  "tally ps cs = concat (map2 (\<lambda>p c. replicate c p) ps cs)"

fun out_text :: "outgoing \<Rightarrow> utext" where
  "out_text (SendText c t mk) = t"
| "out_text (EditText c m t mk) = t"

lemma tally_simps [simp]:
  "tally [] cs = []" "tally (p # ps) (c # cs) = replicate c p @ tally ps cs"
  "tally xs (replicate (length xs) 0) = []"
proof -
  show "tally [] cs = []" "tally (p # ps) (c # cs) = replicate c p @ tally ps cs"
    by (simp_all add: tally_def)
  show "tally xs (replicate (length xs) 0) = []" by (induction xs) (auto simp: tally_def)
qed

lemma tally_grow:
  "length cs = length ps \<Longrightarrow> n < length ps \<Longrightarrow> \<forall>i. n < i \<and> i < length ps \<longrightarrow> cs ! i = 0 \<Longrightarrow>
    tally ps (cs[n := cs ! n + d]) = tally ps cs @ replicate d (ps ! n)"
proof (induction ps arbitrary: cs n)
  case (Cons p ps)
  then obtain c cs' where cs: "cs = c # cs'" by (cases cs) auto
  show ?case
  proof (cases n)
    case 0
    have "\<forall>i < length ps. cs' ! i = 0" using Cons.prems(3) cs 0 by force
    then have "cs' = replicate (length ps) 0"
      using Cons.prems(1) cs by (intro nth_equalityI) auto
    then show ?thesis using cs 0 by (simp add: replicate_add)
  next
    case (Suc m)
    have "\<forall>i. m < i \<and> i < length ps \<longrightarrow> cs' ! i = 0" using Cons.prems(3) cs Suc by force
    with Cons.IH [of cs' m] Cons.prems cs Suc show ?thesis by simp
  qed
qed simp

lemma sum_list_grow: "n < length cs \<Longrightarrow> sum_list (cs[n := cs ! n + d]) = sum_list cs + (d::nat)"
  by (induction cs arbitrary: n) (auto split: nat.split)

definition progress :: "tg_config \<Rightarrow> utext \<Rightarrow> utext list \<Rightarrow> nat \<Rightarrow> nat \<Rightarrow> bot \<Rightarrow> bool" where
  "progress cfg key ps A n b \<longleftrightarrow> (\<exists>db cs full. delivery_store b = Some db \<and> get_plan key db = Some (full, ps) \<and>
     (\<forall>i < n. confirmed_message_id (content_hash cfg) key i (ps ! i) db \<noteq> None) \<and>
     (\<forall>i \<ge> n. row_by part_id (key, i) (delivery_parts db) = None) \<and>
     map out_text (chat b) = tally ps cs \<and> length cs = length ps \<and> n \<le> length ps \<and>
     (\<forall>i < n. 1 \<le> cs ! i) \<and> (\<forall>i. n < i \<and> i < length ps \<longrightarrow> cs ! i = 0) \<and>
     sum_list cs + doubts (network b) \<le> n + A \<and> list_all honest (network b))"

lemma progress_frame:
  "chat b' = chat b \<Longrightarrow> network b' = network b \<Longrightarrow> delivery_store b' = delivery_store b \<Longrightarrow>
    progress cfg key ps A n b' = progress cfg key ps A n b"
  by (simp add: progress_def)

lemma row_by_confirm:
  "row_by part_id (k, j) (delivery_parts (confirm hash key i p m db)) =
    (if (k, j) = (key, i) then Some \<lparr>part_key = key, part_index = i, content_sha256 = hash p, message_id = m\<rparr>
     else row_by part_id (k, j) (delivery_parts db))"
  using row_by_filter [of part_id "(k, j)" "(key, i)" "delivery_parts db"]
  by (auto simp: confirm_def row_by_append split: option.split)

lemma confirmed_confirm:
  "confirmed_message_id hash key j q (confirm hash key i p m db) =
    (if j = i then if hash p = hash q then Some m else None else confirmed_message_id hash key j q db)"
  by (simp add: confirmed_message_id_def row_by_confirm)

lemma get_plan_confirm [simp]: "get_plan k (confirm hash key i p m db) = get_plan k db"
  by (simp add: get_plan_def confirm_def)

text \<open>One request for the next part: it may be accepted several times, and a usable reply is recorded.\<close>

lemma progress_request:
  assumes prog: "progress cfg key ps A n b" and n: "n < length ps"
    and api: "api (SendText target (ps ! n) mk) b = (res, b')"
  shows "usable_result res \<or> progress cfg key ps A n b'"
    and "res = Returned r \<Longrightarrow> result_id r = Inr m \<Longrightarrow> delivery_store b' = Some db' \<Longrightarrow>
      progress cfg key ps A (Suc n) (b'\<lparr>delivery_store := Some (confirm (content_hash cfg) key n (ps ! n) m db')\<rparr>)"
proof -
  from prog obtain db cs full where p: "delivery_store b = Some db" "get_plan key db = Some (full, ps)"
    "\<forall>i < n. confirmed_message_id (content_hash cfg) key i (ps ! i) db \<noteq> None"
    "\<forall>i \<ge> n. row_by part_id (key, i) (delivery_parts db) = None"
    "map out_text (chat b) = tally ps cs" "length cs = length ps"
    "\<forall>i < n. 1 \<le> cs ! i" "\<forall>i. n < i \<and> i < length ps \<longrightarrow> cs ! i = 0"
    "sum_list cs + doubts (network b) \<le> n + A" "list_all honest (network b)"
    unfolding progress_def by blast
  from api_effect [OF api p(10)] obtain d where d: "chat b' = chat b @ replicate d (SendText target (ps ! n) mk)"
    "delivery_store b' = delivery_store b" "list_all honest (network b')"
    "d + doubts (network b') \<le> (if usable_result res then 1 else 0) + doubts (network b)"
    "\<And>r. res = Returned r \<Longrightarrow> 1 \<le> d" by blast
  let ?cs = "cs[n := cs ! n + d]"
  have texts: "map out_text (chat b') = tally ps ?cs"
    using d(1) p(5) tally_grow [OF p(6) n p(8)] by simp
  have sum: "sum_list ?cs = sum_list cs + d" using n p(6) by (simp add: sum_list_grow)
  have shape: "length ?cs = length ps" "\<forall>i < n. 1 \<le> ?cs ! i" "\<forall>i. n < i \<and> i < length ps \<longrightarrow> ?cs ! i = 0"
    using p(6,7,8) by simp_all
  show "usable_result res \<or> progress cfg key ps A n b'"
  proof (cases "usable_result res")
    case False
    then have "sum_list ?cs + doubts (network b') \<le> n + A" using d(4) p(9) sum by simp
    with texts shape p d n show ?thesis unfolding progress_def
      by (intro disjI2 exI [of _ db] exI [of _ ?cs] exI [of _ full]) simp
  qed simp
  assume ok: "res = Returned r" "result_id r = Inr m" "delivery_store b' = Some db'"
  let ?b = "b'\<lparr>delivery_store := Some (confirm (content_hash cfg) key n (ps ! n) m db')\<rparr>"
  have db': "db' = db" using ok(3) d(2) p(1) by simp
  have "usable_result res" using ok by (simp add: usable_def)
  then have "sum_list ?cs + doubts (network ?b) \<le> Suc n + A" using d(4) p(9) sum by simp
  moreover have "1 \<le> ?cs ! n" using d(5) [OF ok(1)] n p(6) by simp
  then have "\<forall>i < Suc n. 1 \<le> ?cs ! i" using shape(2) by (auto simp: less_Suc_eq)
  moreover have "\<forall>i < Suc n. confirmed_message_id (content_hash cfg) key i (ps ! i)
      (confirm (content_hash cfg) key n (ps ! n) m db) \<noteq> None"
    using p(3) by (auto simp: confirmed_confirm less_Suc_eq)
  moreover have "\<forall>i \<ge> Suc n. row_by part_id (key, i) (delivery_parts (confirm (content_hash cfg) key n (ps ! n) m db)) = None"
    using p(4) by (simp add: row_by_confirm)
  ultimately show "progress cfg key ps A (Suc n) ?b"
    using texts shape p(2) d(3) n db' unfolding progress_def
    by (intro exI [of _ "confirm (content_hash cfg) key n (ps ! n) m db"] exI [of _ ?cs] exI [of _ full]) simp
qed

lemma keyed_store_key [simp]:
  "keyed_store (Some key) b = (if key = [] then None else map_option (Pair key) (delivery_store b))"
  by (simp add: keyed_store_def)

lemma progress_store: "progress cfg key ps A n b \<Longrightarrow> \<exists>db. delivery_store b = Some db"
  by (auto simp: progress_def)

lemma progress_confirmed:
  assumes "progress cfg key ps A n b" "delivery_store b = Some db"
  shows "i < n \<Longrightarrow> \<exists>m. confirmed_message_id (content_hash cfg) key i (ps ! i) db = Some m"
    and "n \<le> i \<Longrightarrow> confirmed_message_id (content_hash cfg) key i q db = None"
  using assms by (auto simp: progress_def confirmed_message_id_def)

text \<open>The loop over the parts, from any part that is not ahead of the receipts.\<close>

lemma send_parts_progress:
  assumes "progress cfg key ps A n b" "i \<le> n" "qs = drop i ps" "key \<noteq> []"
    and "send_parts cfg now (Some key) target mk i qs sent limited prev b = (res, b')"
  shows "\<exists>n' \<ge> n. progress cfg key ps A n' b' \<and> (\<forall>r. res = Returned r \<longrightarrow> n' = length ps)"
  using assms
proof (induction qs arbitrary: i n sent limited prev b)
  case Nil
  then have "n = length ps" by (auto simp: progress_def)
  with Nil show ?case by auto
next
  case (Cons p qs)
  from Cons.prems(3) have i: "i < length ps" "p = ps ! i" "qs = drop (Suc i) ps"
    by (metis drop_all leI list.distinct(1)) (metis Cons_nth_drop_Suc Cons.prems(3) drop_all leI list.distinct(1) list.inject)+
  from progress_store [OF Cons.prems(1)] obtain db where db: "delivery_store b = Some db" by blast
  note conf = progress_confirmed [OF Cons.prems(1) db]
  show ?case
  proof (cases "i < n")
    case True
    from conf(1) [OF True] obtain m where "confirmed_message_id (content_hash cfg) key i p db = Some m"
      using i(2) by blast
    with Cons.prems(5) db \<open>key \<noteq> []\<close>
    have "send_parts cfg now (Some key) target mk (Suc i) qs sent limited [(''message_id'', JInt m)] b = (res, b')"
      by simp
    then show ?thesis by (rule Cons.IH [OF Cons.prems(1) Suc_leI [OF True] i(3) Cons.prems(4)])
  next
    case False
    with Cons.prems(2) have n: "i = n" by simp
    have none: "confirmed_message_id (content_hash cfg) key i p db = None" using conf(2) n by simp
    let ?b1 = "if sent \<and> \<not> limited \<and> pacing cfg then b\<lparr>naps := naps b @ [Pace]\<rparr> else b"
    obtain enc b2 where enc: "(if qs = [] then encode_reply_markup cfg now mk ?b1 else (Inr None, ?b1)) = (enc, b2)"
      by (meson surj_pair)
    then have frame: "chat b2 = chat b \<and> network b2 = network b \<and> delivery_store b2 = delivery_store b"
      using encode_frame [of cfg now mk ?b1 enc b2] by (auto split: if_splits)
    then have prog2: "progress cfg key ps A n b2" using Cons.prems(1) progress_frame by blast
    show ?thesis
    proof (cases enc)
      case (Inl e)
      with Cons.prems(5) db none enc prog2 \<open>key \<noteq> []\<close> show ?thesis by (auto simp: Let_def)
    next
      case (Inr mk')
      obtain ares b3 where api: "api (SendText target (ps ! n) mk') b2 = (ares, b3)" by (meson surj_pair)
      have n_len: "n < length ps" using i(1) n by simp
      note req = progress_request [OF prog2 n_len api]
      note run = Cons.prems(5) [unfolded send_parts.simps] db none enc Inr api i(2) n \<open>key \<noteq> []\<close>
      show ?thesis
      proof (cases "\<exists>r m. ares = Returned r \<and> result_id r = Inr m")
        case True
        then obtain r m where r: "ares = Returned r" "result_id r = Inr m" by blast
        have "delivery_store b3 = Some db"
          using api frame db api_loop_effect [OF api [unfolded api_def]] Cons.prems(1)
          by (auto simp: progress_def)
        note db3 = this
        let ?b4 = "b3\<lparr>delivery_store := Some (confirm (content_hash cfg) key n (ps ! n) m db)\<rparr>"
        have prog4: "progress cfg key ps A (Suc n) ?b4" by (rule req(2) [OF r db3])
        from run r db3 have
          "send_parts cfg now (Some key) target mk (Suc i) qs True (last_rate_limit b3) (result_dict r) ?b4 = (res, b')"
          by (simp add: Let_def)
        moreover have "Suc i \<le> Suc n" using n by simp
        ultimately obtain n' where "Suc n \<le> n'" "progress cfg key ps A n' b'"
            "\<forall>r. res = Returned r \<longrightarrow> n' = length ps"
          using Cons.IH [OF prog4 _ i(3) Cons.prems(4)] by blast
        then show ?thesis by (intro exI [of _ n']) auto
      next
        case False
        then have "\<not> usable_result ares" by (cases ares) (auto simp: usable_def split: sum.splits)
        then have prog3: "progress cfg key ps A n b3" using req(1) by blast
        from progress_store [OF prog3] obtain db3 where db3: "delivery_store b3 = Some db3" by blast
        have "b' = b3 \<and> (\<forall>r. res \<noteq> Returned r)"
          using run False db3 by (cases ares) (auto simp: Let_def split: sum.splits)
        with prog3 show ?thesis by auto
      qed
    qed
  qed
qed

section \<open>Repeated calls\<close>

record send_call =
  call_text :: utext
  call_chat :: "int option"
  call_markup :: "markup option"
  call_now :: instant
  call_network :: "(http \<times> bool) list"

lemma send_message_returns: "\<exists>r. send_message cfg now full c mk key b = Some r"
  using split_returns [of full telegram_safe_text_target]
  by (auto simp: send_message_def plan_parts_def split: option.split sum.split)

definition attempt :: "tg_config \<Rightarrow> utext \<Rightarrow> send_call \<Rightarrow> bot \<Rightarrow> pydict result \<times> bot" where
  "attempt cfg key c b = the (send_message cfg (call_now c) (call_text c) (call_chat c) (call_markup c)
     (Some key) (b\<lparr>network := call_network c\<rparr>))"

fun attempts :: "tg_config \<Rightarrow> utext \<Rightarrow> send_call list \<Rightarrow> bot \<Rightarrow> pydict result list \<times> bot" where
  "attempts cfg key [] b = ([], b)"
| "attempts cfg key (c # cs) b =
     (let (r, b1) = attempt cfg key c b; (rs, b2) = attempts cfg key cs b1 in (r # rs, b2))"

lemma progress_resume:
  assumes "progress cfg key ps A n b" "list_all honest net"
  shows "progress cfg key ps (A + doubts net) n (b\<lparr>network := net\<rparr>)"
proof -
  from assms(1) obtain db cs full where p: "delivery_store b = Some db" "get_plan key db = Some (full, ps)"
    "\<forall>i < n. confirmed_message_id (content_hash cfg) key i (ps ! i) db \<noteq> None"
    "\<forall>i \<ge> n. row_by part_id (key, i) (delivery_parts db) = None"
    "map out_text (chat b) = tally ps cs" "length cs = length ps" "n \<le> length ps"
    "\<forall>i < n. 1 \<le> cs ! i" "\<forall>i. n < i \<and> i < length ps \<longrightarrow> cs ! i = 0"
    "sum_list cs + doubts (network b) \<le> n + A" unfolding progress_def by blast
  then have "sum_list cs + doubts net \<le> n + (A + doubts net)" by simp
  with p assms(2) show ?thesis unfolding progress_def
    by (intro exI [of _ db] exI [of _ cs] exI [of _ full]) simp
qed

lemma attempt_progress:
  assumes "progress cfg key ps A n b" "key \<noteq> []" "ps \<noteq> []" "list_all honest (call_network c)"
    and "attempt cfg key c b = (res, b')"
  shows "\<exists>n' \<ge> n. progress cfg key ps (A + doubts (call_network c)) n' b' \<and>
    (\<forall>r. res = Returned r \<longrightarrow> n' = length ps)"
proof -
  let ?b = "b\<lparr>network := call_network c\<rparr>"
  from assms(1) obtain db full where db: "delivery_store b = Some db" "get_plan key db = Some (full, ps)"
    by (auto simp: progress_def)
  have "progress cfg key ps (A + doubts (call_network c)) n ?b"
    using assms(1,4) by (rule progress_resume)
  moreover have "send_parts cfg (call_now c) (Some key) (case call_chat c of None \<Rightarrow> review_chat_id cfg | Some x \<Rightarrow> x)
      (call_markup c) 0 ps False False [] ?b = (res, b')"
    using assms(2,3,5) db by (simp add: attempt_def send_message_def plan_parts_def)
  ultimately show ?thesis using assms(2) by (intro send_parts_progress [where i = 0]) auto
qed

definition total_doubts :: "send_call list \<Rightarrow> nat" where
  "total_doubts cs = sum_list (map (\<lambda>c. doubts (call_network c)) cs)"

lemma total_doubts_simps [simp]:
  "total_doubts [] = 0" "total_doubts (c # cs) = doubts (call_network c) + total_doubts cs"
  by (simp_all add: total_doubts_def)

lemma attempts_progress:
  assumes "progress cfg key ps A n b" "key \<noteq> []" "ps \<noteq> []" "\<forall>c \<in> set cs. list_all honest (call_network c)"
    and "attempts cfg key cs b = (rs, b')"
  shows "\<exists>n' \<ge> n. progress cfg key ps (A + total_doubts cs) n' b' \<and>
    ((\<exists>r. Returned r \<in> set rs) \<longrightarrow> n' = length ps)"
  using assms
proof (induction cs arbitrary: A n b rs)
  case (Cons c cs)
  obtain r b1 where one: "attempt cfg key c b = (r, b1)" by (meson surj_pair)
  obtain rs' b2 where rest: "attempts cfg key cs b1 = (rs', b2)" by (meson surj_pair)
  have rs: "rs = r # rs'" "b' = b2" using Cons.prems(5) one rest by simp_all
  have hon: "list_all honest (call_network c)" "\<forall>c \<in> set cs. list_all honest (call_network c)"
    using Cons.prems(4) by simp_all
  from attempt_progress [OF Cons.prems(1-3) hon(1) one]
  obtain n1 where n1: "n \<le> n1" "progress cfg key ps (A + doubts (call_network c)) n1 b1"
    "\<forall>x. r = Returned x \<longrightarrow> n1 = length ps" by blast
  from Cons.IH [OF n1(2) Cons.prems(2,3) hon(2) rest [folded rs(2)]]
  obtain n2 where n2: "n1 \<le> n2" "progress cfg key ps
      (A + doubts (call_network c) + total_doubts cs) n2 b'"
    "(\<exists>x. Returned x \<in> set rs') \<longrightarrow> n2 = length ps" by blast
  have "n2 \<le> length ps" using n2(2) by (auto simp: progress_def)
  with n1 n2 rs show ?case by (intro exI [of _ n2]) (auto simp: add.assoc)
qed auto

text \<open>The first call of a fresh key fixes the plan.\<close>

definition fresh_key :: "utext \<Rightarrow> bot \<Rightarrow> bool" where
  "fresh_key key b \<longleftrightarrow> key \<noteq> [] \<and> chat b = [] \<and>
     (\<exists>db. delivery_store b = Some db \<and> row_by plan_key key (delivery_plans db) = None \<and>
           (\<forall>i. row_by part_id (key, i) (delivery_parts db) = None))"

lemma read_parts_texts: "ps \<noteq> [] \<Longrightarrow> [] \<notin> set ps \<Longrightarrow> read_parts (PartsList (map PartText ps)) = Some ps"
proof -
  assume "ps \<noteq> []" "[] \<notin> set ps"
  moreover from this(2) have "map (part_text \<circ> PartText) ps = map Some ps" by auto
  ultimately show ?thesis by (auto simp: read_parts_def comp_def image_iff intro!: map_idI)
qed

lemma attempt_persisted_plan:
  assumes "fresh_key key b" "split_telegram_text (call_text c) telegram_safe_text_target = Some (Inr ps)"
    "ps \<noteq> []" "[] \<notin> set ps" "delivery_store b = Some db"
  shows "attempt cfg key c b =
    attempt cfg key c (b\<lparr>delivery_store := Some (save_plan (content_hash cfg) key (call_text c) ps db)\<rparr>)"
    and "progress cfg key ps 0 0 (b\<lparr>delivery_store := Some (save_plan (content_hash cfg) key (call_text c) ps db), network := []\<rparr>)"
proof -
  let ?db = "save_plan (content_hash cfg) key (call_text c) ps db"
  from assms(1,5) have fresh: "key \<noteq> []" "chat b = []" "row_by plan_key key (delivery_plans db) = None"
    "\<forall>i. row_by part_id (key, i) (delivery_parts db) = None" by (auto simp: fresh_key_def)
  have plan: "get_plan key ?db = Some (call_text c, ps)"
    using fresh(3) read_parts_texts [OF assms(3,4)]
    by (simp add: get_plan_def save_plan_def row_by_insert_ignore)
  have "get_plan key db = None" using fresh(3) by (simp add: get_plan_def)
  let ?call = "send_parts cfg (call_now c) (Some key)
      (case call_chat c of None \<Rightarrow> review_chat_id cfg | Some x \<Rightarrow> x) (call_markup c) 0 ps False False []"
  have "attempt cfg key c b = ?call (b\<lparr>network := call_network c, delivery_store := Some ?db\<rparr>)"
    using \<open>get_plan key db = None\<close> assms fresh by (simp add: attempt_def send_message_def plan_parts_def)
  moreover have "attempt cfg key c (b\<lparr>delivery_store := Some ?db\<rparr>) =
      ?call (b\<lparr>delivery_store := Some ?db, network := call_network c\<rparr>)"
    using plan assms(3) fresh(1) by (simp add: attempt_def send_message_def plan_parts_def)
  moreover have "b\<lparr>network := call_network c, delivery_store := Some ?db\<rparr> =
      b\<lparr>delivery_store := Some ?db, network := call_network c\<rparr>"
    by (rule bot.equality) simp_all
  ultimately show "attempt cfg key c b = attempt cfg key c (b\<lparr>delivery_store := Some ?db\<rparr>)"
    by (simp only:)
  have "delivery_parts ?db = delivery_parts db" by (simp add: save_plan_def)
  with plan fresh show "progress cfg key ps 0 0 (b\<lparr>delivery_store := Some ?db, network := []\<rparr>)"
    unfolding progress_def
    by (intro exI [of _ ?db] exI [of _ "replicate (length ps) 0"] exI [of _ "call_text c"]) simp
qed

lemma fresh_attempts:
  assumes "fresh_key key b" "split_telegram_text (call_text c) telegram_safe_text_target = Some (Inr ps)"
    and "ps \<noteq> []" "[] \<notin> set ps" "\<forall>c \<in> set (c # cs). list_all honest (call_network c)"
    and "attempts cfg key (c # cs) b = (rs, b')"
  obtains n where "progress cfg key ps (total_doubts (c # cs)) n b'"
    "(\<exists>r. Returned r \<in> set rs) \<longrightarrow> n = length ps"
proof -
  from assms(1) obtain db where db: "delivery_store b = Some db" and key: "key \<noteq> []"
    by (auto simp: fresh_key_def)
  note planned = attempt_persisted_plan [OF assms(1-4) db, of cfg]
  let ?b = "b\<lparr>delivery_store := Some (save_plan (content_hash cfg) key (call_text c) ps db)\<rparr>"
  let ?idle = "?b\<lparr>network := []\<rparr>"
  have "attempt cfg key c ?idle = attempt cfg key c ?b" by (simp add: attempt_def)
  then have "attempt cfg key c ?idle = attempt cfg key c b" by (simp only: planned(1))
  then have "attempts cfg key (c # cs) ?idle = (rs, b')"
    using assms(6) by (simp only: attempts.simps)
  from attempts_progress [OF planned(2) key assms(3,5) this] show thesis using that by auto
qed

lemma sum_list_ge: "\<forall>i < m. 1 \<le> xs ! i \<Longrightarrow> m \<le> length xs \<Longrightarrow> m \<le> sum_list (xs :: nat list)"
proof (induction xs arbitrary: m)
  case (Cons x xs)
  show ?case
  proof (cases m)
    case (Suc j)
    with Cons.prems have "1 \<le> x" "\<forall>i < j. 1 \<le> xs ! i" "j \<le> length xs" by auto
    with Cons.IH [of j] Suc show ?thesis by simp
  qed simp
qed simp

lemma unit_counts:
  assumes "length cs = length ps" "n \<le> length ps" "\<forall>i < n. 1 \<le> cs ! i"
    and "\<forall>i. n < i \<and> i < length ps \<longrightarrow> cs ! i = 0" "sum_list cs \<le> n"
  shows "tally ps cs = take n ps"
  using assms
proof (induction ps arbitrary: cs n)
  case (Cons p ps)
  then obtain c cs' where cs: "cs = c # cs'" by (cases cs) auto
  show ?case
  proof (cases n)
    case 0
    then have "\<forall>x \<in> set cs. x = 0" using Cons.prems(5) by simp
    then have "cs = replicate (length (p # ps)) 0"
      using Cons.prems(1) replicate_length_same by metis
    then show ?thesis using 0 by (simp only: tally_simps(3) take_0)
  next
    case (Suc m)
    have one: "1 \<le> c" using Cons.prems(3) cs Suc by auto
    have "m \<le> sum_list cs'" using Cons.prems cs Suc by (intro sum_list_ge) auto
    with one Cons.prems(5) cs Suc have c: "c = 1" "sum_list cs' \<le> m" by auto
    have "tally ps cs' = take m ps"
      using Cons.prems cs Suc c(2) by (intro Cons.IH) force+
    with cs Suc c(1) show ?thesis by simp
  qed
qed simp

text \<open>
  C11: At least once, and duplicates only by ambiguous replies: however many calls with the key fail,
  carry another text, or die, before a request or between Telegram's acceptance and the receipt, the
  chat holds the parts of the first plan in order, the first so many of them at least once and none
  beyond the next one; the extra copies are at most the messages that were accepted without a usable
  reply; and once a call returned no part is missing. Telegram is taken to report success only for
  accepted messages.
\<close>

theorem delivered_at_least_once:
  assumes "fresh_key key b" "split_telegram_text (call_text c) telegram_safe_text_target = Some (Inr ps)"
    and "ps \<noteq> []" "[] \<notin> set ps" "\<forall>c \<in> set (c # cs). list_all honest (call_network c)"
    and "attempts cfg key (c # cs) b = (rs, b')"
  shows "\<exists>n counts. map out_text (chat b') = tally ps counts \<and> length counts = length ps \<and> n \<le> length ps \<and>
    (\<forall>i < n. 1 \<le> counts ! i) \<and> (\<forall>i. n < i \<and> i < length ps \<longrightarrow> counts ! i = 0) \<and>
    sum_list counts \<le> n + total_doubts (c # cs) \<and> ((\<exists>r. Returned r \<in> set rs) \<longrightarrow> n = length ps)"
proof -
  from fresh_attempts [OF assms] obtain n where n:
    "progress cfg key ps (total_doubts (c # cs)) n b'"
    "(\<exists>r. Returned r \<in> set rs) \<longrightarrow> n = length ps" .
  from n(1) obtain counts where "map out_text (chat b') = tally ps counts" "length counts = length ps"
    "n \<le> length ps" "\<forall>i < n. 1 \<le> counts ! i" "\<forall>i. n < i \<and> i < length ps \<longrightarrow> counts ! i = 0"
    "sum_list counts + doubts (network b') \<le> n + total_doubts (c # cs)"
    unfolding progress_def by blast
  with n(2) show ?thesis by (intro exI [of _ n] exI [of _ counts]) auto
qed

text \<open>
  With no ambiguous reply among the calls this is exactly once: the chat holds a prefix of the first
  plan, and the whole plan as soon as one call returned.
\<close>

theorem delivered_once_without_doubt:
  assumes "fresh_key key b" "split_telegram_text (call_text c) telegram_safe_text_target = Some (Inr ps)"
    and "ps \<noteq> []" "[] \<notin> set ps" "\<forall>c \<in> set (c # cs). list_all honest (call_network c)"
    and "total_doubts (c # cs) = 0"
    and "attempts cfg key (c # cs) b = (rs, b')"
  shows "\<exists>n. map out_text (chat b') = take n ps \<and> ((\<exists>r. Returned r \<in> set rs) \<longrightarrow> map out_text (chat b') = ps)"
proof -
  from fresh_attempts [OF assms(1-5,7)] obtain n where n:
    "progress cfg key ps (total_doubts (c # cs)) n b'"
    "(\<exists>r. Returned r \<in> set rs) \<longrightarrow> n = length ps" .
  with assms(6) obtain counts where counts: "map out_text (chat b') = tally ps counts" "length counts = length ps"
    "n \<le> length ps" "\<forall>i < n. 1 \<le> counts ! i" "\<forall>i. n < i \<and> i < length ps \<longrightarrow> counts ! i = 0" "sum_list counts \<le> n"
    unfolding progress_def by auto
  from unit_counts [OF counts(2-6)] counts(1) n(2) show ?thesis by (intro exI [of _ n]) auto
qed

section \<open>Examples\<close>

definition demo_cfg :: tg_config where
  "demo_cfg = \<lparr>content_hash = id, callback_ttl = 172800000000, review_chat_id = 5, pacing = True\<rparr>"

definition demo_bot :: bot where
  "demo_bot = \<lparr>delivery_store = Some \<lparr>delivery_parts = [], delivery_plans = []\<rparr>, callback_store = None,
     last_rate_limit = False, naps = [], chat = [], network = []\<rparr>"

definition demo_call :: "(http \<times> bool) list \<Rightarrow> send_call" where
  "demo_call net = \<lparr>call_text = [104, 105], call_chat = None, call_markup = None, call_now = 0, call_network = net\<rparr>"

definition ok_reply :: http where
  "ok_reply = Response 200 (Payload [(''ok'', JBool True), (''result'', JObj [(''message_id'', JInt 7)])])"

lemma read_ok_reply: "read_reply ok_reply = Result (JObj [(''message_id'', JInt 7)])"
  by (simp add: ok_reply_def read_payload_def int_or_zero_def dict_get_def)

lemma usable_ok: "result_id (JObj [(''message_id'', JInt 7)]) = Inr 7"
  by (simp add: result_id_def result_dict_def dict_get_def int_or_zero_def)

lemma demo_fresh: "fresh_key [107] demo_bot"
  by (simp add: fresh_key_def demo_bot_def)

lemma demo_split: "split_telegram_text (call_text (demo_call net)) telegram_safe_text_target = Some (Inr [[104, 105]])"
  by (simp add: split_telegram_text_def demo_call_def telegram_safe_text_target_def telegram_text_limit_def Let_def)

lemma demo_call_network [simp]: "call_network (demo_call net) = net"
  by (simp add: demo_call_def)

lemma demo_split_hi: "split_telegram_text [104, 105] telegram_safe_text_target = Some (Inr [[104, 105]])"
  using demo_split [of "[]"] by (simp add: demo_call_def)

lemma demo_attempts:
  "fst (attempts demo_cfg [107] [demo_call [(NetworkError, accepted)], demo_call [(ok_reply, True)]] demo_bot)
    = [Died, Returned [(''message_id'', JInt 7)]]"
  "fst (attempts demo_cfg [107] [demo_call [(Killed, accepted)], demo_call [(ok_reply, True)]] demo_bot)
    = [Died, Returned [(''message_id'', JInt 7)]]"
  by (simp_all add: attempt_def send_message_def plan_parts_def demo_split_hi demo_bot_def demo_cfg_def demo_call_def
      get_plan_def save_plan_def insert_ignore_def api_def numeral_3_eq_3 read_ok_reply usable_ok Let_def
      read_parts_def confirmed_message_id_def result_dict_def split: prod.splits)

theorem delivered_at_least_once_witness:
  "\<exists>counts. map out_text (chat (snd (attempts demo_cfg [107]
     [demo_call [(Killed, True)], demo_call [(ok_reply, True)]] demo_bot))) = tally [[104, 105]] counts \<and>
     length counts = 1 \<and> sum_list counts \<le> 2 \<and> 1 \<le> counts ! 0"
  using delivered_at_least_once [OF demo_fresh demo_split _ _ _ surjective_pairing,
      of "[(Killed, True)]" "[demo_call [(ok_reply, True)]]" demo_cfg]
  by (auto simp: demo_attempts honest_def ambiguous_def read_ok_reply usable_ok usable_def numeral_2_eq_2 simp del: attempts.simps)

theorem delivered_once_without_doubt_witness:
  "map out_text (chat (snd (attempts demo_cfg [107]
     [demo_call [(NetworkError, False)], demo_call [(ok_reply, True)]] demo_bot))) = [[104, 105]]"
  using delivered_once_without_doubt [OF demo_fresh demo_split _ _ _ _ surjective_pairing,
      of "[(NetworkError, False)]" "[demo_call [(ok_reply, True)]]" demo_cfg]
  by (simp add: demo_attempts honest_def ambiguous_def read_ok_reply usable_ok usable_def del: attempts.simps)

end
