(* ===== verification/Organizer.thy ===== *)
theory Organizer
  imports Models "HOL-Library.Multiset"
begin

text \<open>
  \<open>app/organizer.py\<close>: posts are deduplicated, put into a category, given an event key and grouped.
  Text is Latin-1, so the Persian, Korean and Japanese words of the source's word lists can not
  occur in it and are left out; the regular expressions are written as the matchers they denote.
  SHA-1 (\<open>sha1\<close>, hex digest) and the wording of the Persian fallback titles (\<open>label\<close>) are
  arguments. A post whose text fields are no text, or whose id contains a superscript digit, is
  outside the model (\<open>None\<close>).
\<close>

section \<open>Matching text\<close>

definition jtext :: "json \<Rightarrow> pystr" where
  "jtext v = (case v of JStr s \<Rightarrow> s | _ \<Rightarrow> [])"

definition starts_with :: "pystr \<Rightarrow> pystr \<Rightarrow> bool" where
  "starts_with w s \<longleftrightarrow> take (length w) s = w"

fun contains :: "pystr \<Rightarrow> pystr \<Rightarrow> bool" where
  "contains w [] = (w = [])"
| "contains w (c # s) = (starts_with w (c # s) \<or> contains w s)"

definition word_char :: "char \<Rightarrow> bool" where
  "word_char c \<longleftrightarrow> (let n = (of_char c :: nat) in
     (48 \<le> n \<and> n \<le> 57) \<or> (65 \<le> n \<and> n \<le> 90) \<or> n = 95 \<or> (97 \<le> n \<and> n \<le> 122) \<or>
     n \<in> {170, 178, 179, 181, 185, 186, 188, 189, 190} \<or> (192 \<le> n \<and> n \<noteq> 215 \<and> n \<noteq> 247))"

text \<open>\<open>re.search\<close>: the first position where the matcher, given the character before it, succeeds.\<close>

fun re_search :: "(char option \<Rightarrow> pystr \<Rightarrow> nat option) \<Rightarrow> char option \<Rightarrow> pystr \<Rightarrow> nat option" where
  "re_search m prev [] = m prev []"
| "re_search m prev (c # s) = (case m prev (c # s) of Some n \<Rightarrow> Some n | None \<Rightarrow> re_search m (Some c) s)"

text \<open>\<open>re.sub(pattern, " ", s)\<close> for a matcher that says how many characters match here.\<close>

function re_blank :: "(pystr \<Rightarrow> nat) \<Rightarrow> pystr \<Rightarrow> pystr" where
  "re_blank m [] = []"
| "re_blank m (c # s) = (if m (c # s) = 0 then c # re_blank m s else CHR '' '' # re_blank m (drop (m (c # s) - 1) s))"
  by pat_completeness auto

termination by (relation "measure (length \<circ> snd)") auto

function split_words :: "pystr \<Rightarrow> pystr list" where
  "split_words s =
     (let r = dropWhile py_space s in
      if r = [] then [] else takeWhile (\<lambda>c. \<not> py_space c) r # split_words (dropWhile (\<lambda>c. \<not> py_space c) r))"
  by pat_completeness auto

termination
proof (relation "measure length")
  fix s r assume r: "r = dropWhile py_space s" "r \<noteq> []"
  then have "\<not> py_space (hd r)" using hd_dropWhile by metis
  with r(2) have "length (dropWhile (\<lambda>c. \<not> py_space c) r) < length r"
    by (cases r) (auto intro: le_less_trans [OF length_dropWhile_le])
  moreover have "length r \<le> length s" using r(1) by (simp add: length_dropWhile_le)
  ultimately show "(dropWhile (\<lambda>c. \<not> py_space c) r, s) \<in> measure length" by simp
qed simp

section \<open>Categories\<close>

definition live_words :: "pystr list" where "live_words = [''live'', ''weverse'']"
definition instagram_words :: "pystr list" where
  "instagram_words = [''instagram'', ''insta'', ''ig update'', ''reel'', ''story'']"
definition brand_words :: "pystr list" where "brand_words = [''campaign'', ''brand'', ''banila'', ''ambassador'']"
definition fansign_words :: "pystr list" where "fansign_words = [''fansign'', ''fan sign'', ''fancall'', ''fan call'']"
definition airport_words :: "pystr list" where "airport_words = [''airport'', ''incheon'', ''gimpo'']"
definition own_handles :: "pystr list" where "own_handles = [''jeonghaniyoo_n'', ''jeonghan'', ''yoonjeonghan'']"

definition any_word :: "pystr list \<Rightarrow> pystr \<Rightarrow> bool" where
  "any_word ws s \<longleftrightarrow> (\<exists>w \<in> set ws. contains w s)"

text \<open>\<open>BRAND_RE\<close>\<close>

definition brand_here :: "char option \<Rightarrow> pystr \<Rightarrow> nat option" where
  "brand_here prev s =
     (let free = (case prev of None \<Rightarrow> True | Some c \<Rightarrow> \<not> word_char c \<and> c \<noteq> CHR ''#'');
          ends = (\<lambda>r. case r of [] \<Rightarrow> True | c # _ \<Rightarrow> \<not> word_char c \<and> c \<noteq> CHR ''-'')
      in if free \<and> (starts_with ''ad'' s \<and> ends (drop 2 s) \<or> starts_with ''sponsored'' s \<and> ends (drop 9 s))
         then Some 0 else None)"

definition detect_category :: "update \<Rightarrow> pystr" where
  "detect_category u =
     (let s = py_lower (jtext (body u) @ '' '' @ jtext (quoted_text u) @ '' '' @ author u) in
      if any_word live_words s then ''live''
      else if any_word instagram_words s
      then (if py_lower (author u) \<in> set own_handles \<or> contains ''jeonghan instagram'' s
            then ''jeonghan_instagram'' else ''member_instagram'')
      else if any_word brand_words s \<or> re_search brand_here None s \<noteq> None then ''brand''
      else if any_word fansign_words s then ''fansign''
      else if any_word airport_words s then ''airport''
      else ''general'')"

section \<open>Part numbers\<close>

definition number_here :: "pystr \<Rightarrow> nat option" where
  "number_here s = (let ds = take 3 (takeWhile is_digit s) in if ds = [] then None else Some (text_val ds))"

definition drop_dot :: "pystr \<Rightarrow> pystr" where
  "drop_dot s = (case s of c # r \<Rightarrow> if c = CHR ''.'' then r else s | [] \<Rightarrow> [])"

definition part_here :: "char option \<Rightarrow> pystr \<Rightarrow> nat option" where
  "part_here prev s =
     (case (if starts_with ''part'' s then Some (drop 4 s)
            else if starts_with ''pt'' s then Some (drop_dot (drop 2 s)) else None) of
        None \<Rightarrow> None
      | Some r \<Rightarrow>
          let r1 = dropWhile py_space r;
              r2 = (case r1 of c # r' \<Rightarrow> if c \<in> set ''-:#'' then r' else r1 | [] \<Rightarrow> [])
          in number_here (dropWhile py_space r2))"

definition fraction_here :: "char option \<Rightarrow> pystr \<Rightarrow> nat option" where
  "fraction_here prev s =
     (let ds = takeWhile is_digit s in
      if (case prev of None \<Rightarrow> False | Some c \<Rightarrow> word_char c) \<or> ds = [] \<or> 3 < length ds then None
      else (case dropWhile py_space (drop (length ds) s) of
              c # r \<Rightarrow>
                (let t = dropWhile py_space r; es = takeWhile is_digit t in
                 if c \<noteq> CHR ''/'' \<or> es = [] \<or> 3 < length es \<or>
                    (case drop (length es) t of [] \<Rightarrow> False | e # _ \<Rightarrow> word_char e)
                 then None else Some (text_val ds))
            | [] \<Rightarrow> None))"

definition episode_here :: "char option \<Rightarrow> pystr \<Rightarrow> nat option" where
  "episode_here prev s =
     (case (if starts_with ''ep'' s then number_here (dropWhile py_space (drop_dot (drop 2 s))) else None) of
        Some n \<Rightarrow> Some n
      | None \<Rightarrow> if starts_with ''episode'' s then number_here (dropWhile py_space (drop 7 s)) else None)"

definition extract_part_number :: "pystr \<Rightarrow> nat option" where
  "extract_part_number s =
     (let l = py_lower s in
      case re_search part_here None l of Some n \<Rightarrow> Some n | None \<Rightarrow>
      (case re_search fraction_here None l of Some n \<Rightarrow> Some n | None \<Rightarrow>
       re_search episode_here None l))"

section \<open>Event keys\<close>

definition url_here :: "pystr \<Rightarrow> nat" where
  "url_here s =
     (let n = (if starts_with ''http://'' s then 7 else if starts_with ''https://'' s then 8 else 0);
          rest = length (takeWhile (\<lambda>c. \<not> py_space c) (drop n s))
      in if n = 0 \<or> rest = 0 then 0 else n + rest)"

definition mention_here :: "pystr \<Rightarrow> nat" where
  "mention_here s = (case s of
       c # r \<Rightarrow> let n = length (takeWhile word_char r) in if c \<in> set ''@#'' \<and> n \<noteq> 0 then Suc n else 0
     | [] \<Rightarrow> 0)"

definition key_char :: "char \<Rightarrow> bool" where
  "key_char c \<longleftrightarrow> is_digit c \<or> (CHR ''a'' \<le> c \<and> c \<le> CHR ''z'')"

definition noise_here :: "pystr \<Rightarrow> nat" where
  "noise_here s = length (takeWhile (\<lambda>c. \<not> key_char c) s)"

definition stop_words :: "pystr list" where
  "stop_words = [''jeonghan'', ''update'', ''the'', ''and'', ''with'']"

fun join_words :: "pystr list \<Rightarrow> pystr" where
  "join_words [] = []"
| "join_words [w] = w"
| "join_words (w # v # ws) = w @ '' '' @ join_words (v # ws)"

definition normalized_event_tokens :: "pystr \<Rightarrow> pystr" where
  "normalized_event_tokens s =
     (let v = re_blank noise_here (re_blank mention_here (re_blank url_here (py_lower s)));
          tokens = filter (\<lambda>w. w \<notin> set stop_words \<and> 1 < length w) (split_words v)
      in join_words (take 7 tokens))"

definition local_day :: "update \<Rightarrow> pystr" where "local_day u = date_text (days_of (created_at u))"

definition is_threaded :: "update \<Rightarrow> bool" where
  "is_threaded u \<longleftrightarrow> jtext (reply_to_id u) \<noteq> [] \<or> (conversation_id u \<noteq> [] \<and> conversation_id u \<noteq> upd_id u)"

definition initial_event_key :: "(pystr \<Rightarrow> pystr) \<Rightarrow> update \<Rightarrow> pystr" where
  "initial_event_key sha1 u =
     (let cat = (if jtext (category u) = [] then detect_category u else jtext (category u)) in
      if conversation_id u \<noteq> [] \<and> conversation_id u \<noteq> upd_id u then ''conversation:'' @ conversation_id u
      else if jtext (reply_to_id u) \<noteq> []
      then ''conversation:'' @ (if conversation_id u = [] then jtext (reply_to_id u) else conversation_id u)
      else if cat = ''live''
      then ''live:'' @ py_lower (author u) @ '':'' @ local_day u @ '':'' @ nat_text (secs_of (created_at u) div 3600 div 4)
      else if cat = ''jeonghan_instagram'' \<or> cat = ''member_instagram''
      then ''instagram:'' @ py_lower (author u) @ '':'' @ local_day u @ '':'' @
             (if conversation_id u = [] then upd_id u else conversation_id u)
      else if cat = ''brand'' \<or> cat = ''fansign'' \<or> cat = ''airport''
      then cat @ '':'' @ local_day u @ '':'' @
             take 8 (sha1 (or_default (take 40 (normalized_event_tokens (jtext (body u)))) (upd_id u)))
      else ''single:'' @ upd_id u)"

section \<open>Deduplication\<close>

definition score :: "update \<Rightarrow> nat \<times> nat \<times> int" where
  "score u = (length (media u), length (jtext (body u)),
     case source_priority u of JInt p \<Rightarrow> - p | _ \<Rightarrow> 0)"

fun dedup_insert :: "update \<Rightarrow> update list \<Rightarrow> update list" where
  "dedup_insert u [] = [u]"
| "dedup_insert u (v # vs) =
     (if upd_id v = upd_id u then (if score v < score u then u else v) # vs else v # dedup_insert u vs)"

definition deduplicate :: "update list \<Rightarrow> update list" where
  "deduplicate us = fold dedup_insert us []"

section \<open>Grouping\<close>

definition prepare :: "(pystr \<Rightarrow> pystr) \<Rightarrow> (pystr \<Rightarrow> pystr) \<Rightarrow> update \<Rightarrow> update" where
  "prepare sha1 label u =
     (let v = u\<lparr>category := JStr (detect_category u)\<rparr>;
          w = v\<lparr>event_key := JStr (initial_event_key sha1 v)\<rparr>
      in if jtext (event_title w) = [] then w\<lparr>event_title := JStr (label (jtext (category w)))\<rparr> else w)"

text \<open>\<open>_stable_id_key\<close>: digits by value, before any other text.\<close>

definition stable_id_key :: "pystr \<Rightarrow> nat \<times> nat \<times> pystr" where
  "stable_id_key s = (if s \<noteq> [] \<and> list_all is_digit s then (0, text_val s, []) else (1, 0, s))"

definition standalone_live :: "update \<Rightarrow> bool" where
  "standalone_live u \<longleftrightarrow> jtext (category u) = ''live'' \<and> \<not> is_threaded u"

definition live_slot :: "update \<Rightarrow> pystr \<times> pystr" where
  "live_slot u = (py_lower (author u), local_day u)"

definition live_order :: "update list \<Rightarrow> update list" where
  "live_order us = sort_key (\<lambda>u. (created_at u, stable_id_key (upd_id u))) us"

definition four_hours :: int where "four_hours = 4 * 3600 * us_per_s"

fun cluster_loop :: "nat \<Rightarrow> instant option \<Rightarrow> update list \<Rightarrow> (pystr \<times> nat) list" where
  "cluster_loop n prev [] = []"
| "cluster_loop n prev (u # us) =
     (let m = (case prev of None \<Rightarrow> n | Some t \<Rightarrow> if four_hours < created_at u - t then Suc n else n)
      in (upd_id u, m) # cluster_loop m (Some (created_at u)) us)"

definition cluster_key :: "update list \<Rightarrow> update \<Rightarrow> update" where
  "cluster_key clean u =
     (if standalone_live u
      then (let items = live_order (filter (\<lambda>v. standalone_live v \<and> live_slot v = live_slot u) clean);
                n = the (map_of (cluster_loop 0 None items) (upd_id u))
            in u\<lparr>event_key := JStr (''live:'' @ py_lower (author u) @ '':'' @ local_day u @ '':'' @ nat_text n)\<rparr>)
      else u)"

fun group_insert :: "update \<Rightarrow> (pystr \<times> update list) list \<Rightarrow> (pystr \<times> update list) list" where
  "group_insert u [] = [(jtext (event_key u), [u])]"
| "group_insert u ((k, us) # gs) =
     (if k = jtext (event_key u) then (k, us @ [u]) # gs else (k, us) # group_insert u gs)"

definition part_order :: "update \<Rightarrow> nat" where
  "part_order u = (case extract_part_number (jtext (body u)) of None \<Rightarrow> 10000 | Some n \<Rightarrow> n)"

definition sort_items :: "pystr \<Rightarrow> update list \<Rightarrow> update list" where
  "sort_items cat items =
     (if cat = ''live'' \<and> 1 < length items \<and>
         (\<forall>u \<in> set items. extract_part_number (jtext (body u)) \<noteq> None)
      then sort_key (\<lambda>u. (part_order u, created_at u, stable_id_key (upd_id u))) items
      else sort_key (\<lambda>u. (created_at u, part_order u, stable_id_key (upd_id u))) items)"

definition make_group :: "(pystr \<Rightarrow> pystr) \<Rightarrow> pystr \<times> update list \<Rightarrow> event_group" where
  "make_group label g =
     (let cat = jtext (category (hd (snd g)));
          items = sort_items cat (snd g);
          title = (case List.find (\<lambda>u. jtext (event_title u) \<noteq> []) items of
                     Some u \<Rightarrow> jtext (event_title u) | None \<Rightarrow> label cat)
      in \<lparr>group_key = fst g, group_category = cat, group_title = title,
          updates = map (\<lambda>u. u\<lparr>event_key := JStr (fst g), event_title := JStr title\<rparr>) items\<rparr>)"

definition group_start :: "event_group \<Rightarrow> instant" where
  "group_start g = (case started_at g of Inr t \<Rightarrow> t | Inl _ \<Rightarrow> 0)"

definition organizable :: "update \<Rightarrow> bool" where
  "organizable u \<longleftrightarrow>
     (\<forall>v \<in> {body u, quoted_text u, reply_to_id u, event_title u}. \<exists>s. v = JStr s) \<and>
     (\<exists>p. source_priority u = JInt p) \<and> (\<forall>c \<in> set (upd_id u). (of_char c :: nat) \<notin> {178, 179, 185})"

definition organize_updates :: "(pystr \<Rightarrow> pystr) \<Rightarrow> (pystr \<Rightarrow> pystr) \<Rightarrow> update list \<Rightarrow> event_group list option" where
  "organize_updates sha1 label us =
     (if \<not> list_all organizable us then None
      else let clean = map (prepare sha1 label) (deduplicate us);
               keyed = map (cluster_key clean) clean;
               grouped = fold group_insert keyed []
           in Some (sort_key (\<lambda>g. (group_start g, group_key g)) (map (make_group label) grouped)))"

section \<open>Each step keeps the posts\<close>

lemma dedup_insert_ids:
  "map upd_id (dedup_insert u vs) =
    (if upd_id u \<in> upd_id ` set vs then map upd_id vs else map upd_id vs @ [upd_id u])"
  by (induction vs) auto

lemma deduplicate_ids: "distinct (map upd_id (deduplicate us))" "upd_id ` set (deduplicate us) = upd_id ` set us"
proof -
  have "distinct (map upd_id vs) \<Longrightarrow> distinct (map upd_id (fold dedup_insert us vs)) \<and>
      upd_id ` set (fold dedup_insert us vs) = upd_id ` set us \<union> upd_id ` set vs" for vs
  proof (induction us arbitrary: vs)
    case (Cons u us)
    have "distinct (map upd_id (dedup_insert u vs))" using Cons.prems by (auto simp: dedup_insert_ids)
    moreover have "upd_id ` set (dedup_insert u vs) = insert (upd_id u) (upd_id ` set vs)"
    proof -
      have "set (map upd_id (dedup_insert u vs)) = insert (upd_id u) (upd_id ` set vs)"
        by (auto simp: dedup_insert_ids)
      then show ?thesis by simp
    qed
    ultimately show ?case using Cons.IH [of "dedup_insert u vs"] by auto
  qed simp
  from this [of "[]"] show "distinct (map upd_id (deduplicate us))"
    "upd_id ` set (deduplicate us) = upd_id ` set us" by (simp_all add: deduplicate_def)
qed

lemma prepare_id [simp]: "upd_id (prepare sha1 label u) = upd_id u"
  by (simp add: prepare_def Let_def)

lemma cluster_id [simp]: "upd_id (cluster_key clean u) = upd_id u"
  by (simp add: cluster_key_def Let_def)

lemma group_insert_mset:
  "mset (concat (map snd (group_insert u gs))) = add_mset u (mset (concat (map snd gs)))"
  by (induction gs) auto

lemma group_insert_keys:
  "fst ` set (group_insert u gs) = insert (jtext (event_key u)) (fst ` set gs)"
  by (induction u gs rule: group_insert.induct) (simp_all add: insert_commute)

definition grouped_ok :: "(pystr \<times> update list) list \<Rightarrow> bool" where
  "grouped_ok gs \<longleftrightarrow> unique_on fst gs \<and>
     (\<forall>g \<in> set gs. snd g \<noteq> [] \<and> (\<forall>u \<in> set (snd g). jtext (event_key u) = fst g))"

lemma grouped_ok_Cons: "grouped_ok ((k, us) # gs) \<longleftrightarrow> k \<notin> fst ` set gs \<and> us \<noteq> [] \<and>
    (\<forall>u \<in> set us. jtext (event_key u) = k) \<and> grouped_ok gs"
  by (auto simp: grouped_ok_def)

lemma group_insert_ok: "grouped_ok gs \<Longrightarrow> grouped_ok (group_insert u gs)"
proof (induction u gs rule: group_insert.induct)
  case (2 u k us gs)
  then show ?case
    by (cases "k = jtext (event_key u)") (simp_all add: grouped_ok_Cons group_insert_keys)
qed (simp add: grouped_ok_def)

lemma grouped_fold: "grouped_ok gs \<Longrightarrow> grouped_ok (fold group_insert us gs) \<and>
    mset (concat (map snd (fold group_insert us gs))) = mset us + mset (concat (map snd gs))"
proof (induction us arbitrary: gs)
  case (Cons u us)
  with Cons.IH [OF group_insert_ok [OF Cons.prems, of u]] show ?case by (simp add: group_insert_mset)
qed simp

lemma sort_items_mset [simp]: "mset (sort_items cat items) = mset items"
  by (simp add: sort_items_def)

lemma sort_items_set [simp]: "set (sort_items cat items) = set items"
  by (metis set_mset_mset sort_items_mset)

lemma make_group_key [simp]: "group_key (make_group label g) = fst g"
  by (simp add: make_group_def Let_def)

lemma make_group_ids: "mset (map upd_id (updates (make_group label g))) = mset (map upd_id (snd g))"
  by (simp add: make_group_def Let_def comp_def)

lemma make_group_id_set: "upd_id ` set (updates (make_group label g)) = upd_id ` set (snd g)"
  using mset_eq_setD [OF make_group_ids [of label g]] by simp

lemma make_group_updates:
  "updates (make_group label g) = map (\<lambda>u. u\<lparr>event_key := JStr (fst g),
      event_title := JStr (group_title (make_group label g))\<rparr>) (sort_items (jtext (category (hd (snd g)))) (snd g))"
  "group_category (make_group label g) = jtext (category (hd (snd g)))"
  by (simp_all add: make_group_def Let_def)

lemma make_group_members:
  "u \<in> set (updates (make_group label g)) \<longleftrightarrow>
    (\<exists>v \<in> set (snd g). u = v\<lparr>event_key := JStr (fst g), event_title := JStr (group_title (make_group label g))\<rparr>)"
  by (auto simp: make_group_def Let_def image_iff)

section \<open>Groups\<close>

definition grouped_of :: "(pystr \<Rightarrow> pystr) \<Rightarrow> (pystr \<Rightarrow> pystr) \<Rightarrow> update list \<Rightarrow> (pystr \<times> update list) list" where
  "grouped_of sha1 label us = fold group_insert (map (cluster_key (map (prepare sha1 label) (deduplicate us)))
     (map (prepare sha1 label) (deduplicate us))) []"

lemma organizeD:
  assumes "organize_updates sha1 label us = Some gs"
  shows "mset gs = mset (map (make_group label) (grouped_of sha1 label us))"
    and "sorted (map (\<lambda>g. (group_start g, group_key g)) gs)"
  using assms by (auto simp: organize_updates_def grouped_of_def Let_def split: if_splits)

lemma grouped_of_ok: "grouped_ok (grouped_of sha1 label us)"
  "mset (map upd_id (concat (map snd (grouped_of sha1 label us)))) = mset (map upd_id (deduplicate us))"
proof -
  let ?clean = "map (prepare sha1 label) (deduplicate us)"
  have start: "grouped_ok []" by (simp add: grouped_ok_def)
  note fold = grouped_fold [OF start, of "map (cluster_key ?clean) ?clean", folded grouped_of_def]
  then show "grouped_ok (grouped_of sha1 label us)" by blast
  have "mset (concat (map snd (grouped_of sha1 label us))) = mset (map (cluster_key ?clean) ?clean)"
    using fold by simp
  then have "image_mset upd_id (mset (concat (map snd (grouped_of sha1 label us)))) =
      image_mset upd_id (mset (map (cluster_key ?clean) ?clean))" by (rule arg_cong)
  also have "\<dots> = mset (map upd_id (deduplicate us))" by (simp add: comp_def flip: mset_map)
  finally show "mset (map upd_id (concat (map snd (grouped_of sha1 label us)))) = mset (map upd_id (deduplicate us))"
    by (simp only: mset_map)
qed

lemma mset_concat_ids:
  "mset (map upd_id (concat (map updates (map (make_group label) gs)))) = mset (map upd_id (concat (map snd gs)))"
proof (induction gs)
  case (Cons g gs)
  have "mset (map upd_id (concat (map updates (map (make_group label) (g # gs))))) =
      mset (map upd_id (updates (make_group label g))) + mset (map upd_id (concat (map updates (map (make_group label) gs))))"
    by simp
  then show ?case unfolding Cons.IH make_group_ids by simp
qed simp

lemma mset_concat_perm: "mset xs = mset ys \<Longrightarrow> mset (map f (concat (map g xs))) = mset (map f (concat (map g ys)))"
proof -
  assume "mset xs = mset ys"
  then have "image_mset (\<lambda>x. image_mset f (mset (g x))) (mset xs) = image_mset (\<lambda>x. image_mset f (mset (g x))) (mset ys)"
    by simp
  then have "sum_mset (image_mset (\<lambda>x. image_mset f (mset (g x))) (mset xs)) =
      sum_mset (image_mset (\<lambda>x. image_mset f (mset (g x))) (mset ys))" by (rule arg_cong)
  moreover have "mset (map f (concat (map g zs))) = sum_mset (image_mset (\<lambda>x. image_mset f (mset (g x))) (mset zs))" for zs
    by (induction zs) auto
  ultimately show ?thesis by simp
qed

text \<open>
  C18: Every post is in exactly one group, under the best of its copies; groups have distinct
  keys, are not empty, and name their members.
\<close>

theorem organize_partition:
  assumes "organize_updates sha1 label us = Some gs"
  shows "distinct (map upd_id (concat (map updates gs))) \<and>
    upd_id ` set (concat (map updates gs)) = upd_id ` set us \<and>
    distinct (map group_key gs) \<and>
    (\<forall>g \<in> set gs. updates g \<noteq> [] \<and>
      (\<forall>u \<in> set (updates g). event_key u = JStr (group_key g) \<and> event_title u = JStr (group_title g)))"
proof -
  let ?gs = "grouped_of sha1 label us"
  note perm = organizeD(1) [OF assms] and ok = grouped_of_ok [of sha1 label us]
  have ids: "mset (map upd_id (concat (map updates gs))) = mset (map upd_id (deduplicate us))"
    using mset_concat_perm [OF perm, of upd_id updates] ok(2)
    by (simp only: mset_concat_ids)
  then have "distinct (map upd_id (concat (map updates gs)))"
    using deduplicate_ids(1) mset_eq_imp_distinct_iff by blast
  moreover from ids have "set (map upd_id (concat (map updates gs))) = set (map upd_id (deduplicate us))"
    by (rule mset_eq_setD)
  then have "upd_id ` set (concat (map updates gs)) = upd_id ` set us"
    using deduplicate_ids(2) by simp
  moreover from perm have "image_mset group_key (mset gs) = image_mset group_key (mset (map (make_group label) ?gs))"
    by simp
  then have "mset (map group_key gs) = mset (map fst ?gs)" by (simp add: comp_def flip: mset_map)
  then have "distinct (map group_key gs)"
    using ok(1) mset_eq_imp_distinct_iff [of "map group_key gs" "map fst ?gs"]
    by (simp add: grouped_ok_def unique_on_def)
  moreover have "\<forall>g \<in> set gs. updates g \<noteq> [] \<and>
      (\<forall>u \<in> set (updates g). event_key u = JStr (group_key g) \<and> event_title u = JStr (group_title g))"
  proof
    fix g assume "g \<in> set gs"
    with mset_eq_setD [OF perm] obtain h where h: "h \<in> set ?gs" "g = make_group label h" by auto
    then have "snd h \<noteq> []" using ok(1) by (auto simp: grouped_ok_def)
    then have "updates g \<noteq> []" using h(2) make_group_ids [of label h] by auto
    with h(2) show "updates g \<noteq> [] \<and>
        (\<forall>u \<in> set (updates g). event_key u = JStr (group_key g) \<and> event_title u = JStr (group_title g))"
      by (auto simp: make_group_members)
  qed
  ultimately show ?thesis by blast
qed

section \<open>Order\<close>

lemma sorted_fst_of_pairs:
  fixes f :: "'a \<Rightarrow> 'b::linorder" and g :: "'a \<Rightarrow> 'c::linorder"
  shows "sorted (map (\<lambda>u. (f u, g u)) xs) \<Longrightarrow> sorted (map f xs)"
  by (induction xs) (auto simp: less_eq_prod_def less_le_not_le)

lemma sort_items_order:
  "sorted (map created_at (sort_items cat items)) \<or>
    (cat = ''live'' \<and> (\<forall>u \<in> set items. extract_part_number (jtext (body u)) \<noteq> None) \<and>
     sorted (map part_order (sort_items cat items)))"
proof (cases "cat = ''live'' \<and> 1 < length items \<and> (\<forall>u \<in> set items. extract_part_number (jtext (body u)) \<noteq> None)")
  case True
  have "sorted (map (\<lambda>u. (part_order u, created_at u, stable_id_key (upd_id u))) (sort_items cat items))"
    using True by (simp add: sort_items_def)
  then have "sorted (map part_order (sort_items cat items))" by (rule sorted_fst_of_pairs)
  with True show ?thesis by blast
next
  case False
  have "sorted (map (\<lambda>u. (created_at u, part_order u, stable_id_key (upd_id u))) (sort_items cat items))"
    using False unfolding sort_items_def by (simp only: if_False sorted_sort_key)
  then have "sorted (map created_at (sort_items cat items))" by (rule sorted_fst_of_pairs)
  then show ?thesis by blast
qed

lemma part_order_update [simp]: "part_order (u\<lparr>event_key := a, event_title := b\<rparr>) = part_order u"
  by (simp add: part_order_def)

text \<open>
  Groups come in the order of their first post, ties by key; the posts of a group in time
  order, or in the order of their part numbers when every post of a live group has one.
\<close>

theorem organize_order:
  assumes "organize_updates sha1 label us = Some gs"
  shows "sorted (map (\<lambda>g. (group_start g, group_key g)) gs) \<and>
    (\<forall>g \<in> set gs. sorted (map created_at (updates g)) \<or>
       (group_category g = ''live'' \<and> (\<forall>u \<in> set (updates g). extract_part_number (jtext (body u)) \<noteq> None) \<and>
        sorted (map part_order (updates g))))"
proof
  show "sorted (map (\<lambda>g. (group_start g, group_key g)) gs)" by (rule organizeD(2) [OF assms])
  show "\<forall>g \<in> set gs. sorted (map created_at (updates g)) \<or>
       (group_category g = ''live'' \<and> (\<forall>u \<in> set (updates g). extract_part_number (jtext (body u)) \<noteq> None) \<and>
        sorted (map part_order (updates g)))"
  proof
    fix g assume "g \<in> set gs"
    with mset_eq_setD [OF organizeD(1) [OF assms]] obtain h where g: "g = make_group label h" by auto
    let ?cat = "jtext (category (hd (snd h)))"
    show "sorted (map created_at (updates g)) \<or>
       (group_category g = ''live'' \<and> (\<forall>u \<in> set (updates g). extract_part_number (jtext (body u)) \<noteq> None) \<and>
        sorted (map part_order (updates g)))"
      using sort_items_order [of ?cat "snd h"] by (simp add: g make_group_updates comp_def)
  qed
qed

section \<open>Threads\<close>

lemma prepare_fields [simp]:
  "conversation_id (prepare sha1 label u) = conversation_id u" "reply_to_id (prepare sha1 label u) = reply_to_id u"
  "category (prepare sha1 label u) = JStr (detect_category u)"
  by (simp_all add: prepare_def Let_def)

lemma jtext_JStr [simp]: "jtext (JStr s) = s"
  by (simp add: jtext_def)

lemma detect_category_nonempty [simp]: "detect_category u \<noteq> []"
  by (simp add: detect_category_def Let_def)

lemma detect_category_cases:
  "detect_category u \<in> {''live'', ''jeonghan_instagram'', ''member_instagram'', ''brand'', ''fansign'', ''airport'', ''general''}"
  by (simp add: detect_category_def Let_def)

definition thread_prefix :: pystr where "thread_prefix = ''conversation:''"

lemma prepare_key: "jtext (event_key (prepare sha1 label u)) = initial_event_key sha1 (u\<lparr>category := JStr (detect_category u)\<rparr>)"
  by (simp add: prepare_def Let_def)

lemma threaded_key:
  assumes "is_threaded u" "conversation_id u \<noteq> []"
  shows "jtext (event_key (prepare sha1 label u)) = thread_prefix @ conversation_id u"
  using assms by (auto simp: prepare_key initial_event_key_def Let_def is_threaded_def thread_prefix_def)

lemma unthreaded_key:
  assumes "\<not> is_threaded u"
  shows "\<not> starts_with thread_prefix (jtext (event_key (prepare sha1 label u)))"
  using assms detect_category_cases [of u]
  by (auto simp: prepare_key initial_event_key_def Let_def is_threaded_def starts_with_def thread_prefix_def)

lemma is_threaded_prepare [simp]: "is_threaded (prepare sha1 label u) = is_threaded u"
  by (simp add: is_threaded_def)

lemma cluster_key_event:
  "jtext (event_key (cluster_key clean u)) = jtext (event_key u) \<or>
    (\<not> is_threaded u \<and> \<not> starts_with thread_prefix (jtext (event_key (cluster_key clean u))))"
  by (auto simp: cluster_key_def Let_def standalone_live_def starts_with_def thread_prefix_def)

lemma cluster_key_threaded: "is_threaded u \<Longrightarrow> cluster_key clean u = u"
  by (simp add: cluster_key_def standalone_live_def)

lemma cluster_fields [simp]:
  "conversation_id (cluster_key clean u) = conversation_id u" "reply_to_id (cluster_key clean u) = reply_to_id u"
  by (simp_all add: cluster_key_def Let_def)

definition clean_of :: "(pystr \<Rightarrow> pystr) \<Rightarrow> (pystr \<Rightarrow> pystr) \<Rightarrow> update list \<Rightarrow> update list" where
  "clean_of sha1 label us = map (prepare sha1 label) (deduplicate us)"

lemma clean_ids: "distinct (map upd_id (clean_of sha1 label us))"
  using deduplicate_ids(1) by (simp add: clean_of_def comp_def)

lemma grouped_of_mset:
  "mset (concat (map snd (grouped_of sha1 label us))) =
    mset (map (cluster_key (clean_of sha1 label us)) (clean_of sha1 label us))"
  using grouped_fold [of "[]" "map (cluster_key (clean_of sha1 label us)) (clean_of sha1 label us)"]
  by (simp add: grouped_of_def grouped_ok_def clean_of_def)

text \<open>The group of a post is the one its final event key names.\<close>

lemma organized_member:
  assumes "organize_updates sha1 label us = Some gs" "g \<in> set gs" "u \<in> set (updates g)"
  obtains w where "w \<in> set (clean_of sha1 label us)" "upd_id w = upd_id u" "conversation_id w = conversation_id u"
    "reply_to_id w = reply_to_id u" "group_key g = jtext (event_key (cluster_key (clean_of sha1 label us) w))"
proof -
  from assms(2) mset_eq_setD [OF organizeD(1) [OF assms(1)]]
  obtain h where h: "h \<in> set (grouped_of sha1 label us)" "g = make_group label h" by auto
  from assms(3) h(2) obtain w where w: "w \<in> set (snd h)"
    "u = w\<lparr>event_key := JStr (fst h), event_title := JStr (group_title (make_group label h))\<rparr>"
    by (auto simp: make_group_members)
  have "w \<in> set (concat (map snd (grouped_of sha1 label us)))" using h(1) w(1) by auto
  then obtain v where v: "v \<in> set (clean_of sha1 label us)" "w = cluster_key (clean_of sha1 label us) v"
    using mset_eq_setD [OF grouped_of_mset [of sha1 label us]] by auto
  have "jtext (event_key w) = fst h" using grouped_of_ok(1) h(1) w(1) by (auto simp: grouped_ok_def)
  with that [OF v(1)] v(2) w(2) h(2) show thesis by simp
qed

lemma organized_group:
  assumes "organize_updates sha1 label us = Some gs" "w \<in> set (clean_of sha1 label us)"
  shows "g \<in> set gs \<Longrightarrow> upd_id w \<in> upd_id ` set (updates g) \<longleftrightarrow>
      group_key g = jtext (event_key (cluster_key (clean_of sha1 label us) w))"
    and "\<exists>g \<in> set gs. upd_id w \<in> upd_id ` set (updates g)"
proof -
  let ?clean = "clean_of sha1 label us"
  note perm = mset_eq_setD [OF organizeD(1) [OF assms(1)]]
  have "cluster_key ?clean w \<in> set (concat (map snd (grouped_of sha1 label us)))"
    using mset_eq_setD [OF grouped_of_mset [of sha1 label us]] assms(2) by auto
  then obtain h where h: "h \<in> set (grouped_of sha1 label us)" "cluster_key ?clean w \<in> set (snd h)" by auto
  then have key: "fst h = jtext (event_key (cluster_key ?clean w))"
    using grouped_of_ok(1) by (auto simp: grouped_ok_def)
  have "upd_id w \<in> upd_id ` set (updates (make_group label h))"
    using imageI [OF h(2), of upd_id] by (simp add: make_group_id_set)
  moreover have "make_group label h \<in> set gs" using h(1) perm by auto
  ultimately show ex: "\<exists>g \<in> set gs. upd_id w \<in> upd_id ` set (updates g)" by blast
  assume g: "g \<in> set gs"
  show "upd_id w \<in> upd_id ` set (updates g) \<longleftrightarrow> group_key g = jtext (event_key (cluster_key ?clean w))"
  proof
    assume "upd_id w \<in> upd_id ` set (updates g)"
    then obtain u where u: "u \<in> set (updates g)" "upd_id u = upd_id w" by auto
    obtain v where v: "v \<in> set ?clean" "upd_id v = upd_id u" "group_key g = jtext (event_key (cluster_key ?clean v))"
      using organized_member [OF assms(1) g u(1)] by metis
    have "v = w" using v(1,2) u(2) assms(2) clean_ids [of sha1 label us] by (auto simp: distinct_map inj_on_def)
    with v(3) show "group_key g = jtext (event_key (cluster_key ?clean w))" by simp
  next
    assume "group_key g = jtext (event_key (cluster_key ?clean w))"
    from g perm obtain h' where h': "h' \<in> set (grouped_of sha1 label us)" "g = make_group label h'" by auto
    with \<open>group_key g = _\<close> key have "fst h' = fst h" by simp
    then have "h' = h" using grouped_of_ok(1) [of sha1 label us] h(1) h'(1)
      by (auto simp: grouped_ok_def unique_on_def distinct_map inj_on_def)
    with h'(2) imageI [OF h(2), of upd_id] show "upd_id w \<in> upd_id ` set (updates g)"
      by (simp add: make_group_id_set)
  qed
qed

text \<open>
  A reply or continuation is in the group of its conversation, whatever its category or time;
  every other post, the first post of a thread included, is in a group of another kind.
\<close>

theorem threads_grouped:
  assumes "organize_updates sha1 label us = Some gs" "g \<in> set gs" "u \<in> set (updates g)"
    and "conversation_id u \<noteq> []"
  shows "if is_threaded u then group_key g = thread_prefix @ conversation_id u
    else \<not> starts_with thread_prefix (group_key g)"
proof -
  let ?clean = "clean_of sha1 label us"
  obtain w where w: "w \<in> set ?clean" "upd_id w = upd_id u" "conversation_id w = conversation_id u"
    "reply_to_id w = reply_to_id u" "group_key g = jtext (event_key (cluster_key ?clean w))"
    using organized_member [OF assms(1-3)] by metis
  then obtain v where v: "w = prepare sha1 label v" by (auto simp: clean_of_def)
  have same: "is_threaded v = is_threaded u" "conversation_id v = conversation_id u"
    using w(2-4) v by (simp_all add: is_threaded_def)
  show ?thesis
  proof (cases "is_threaded u")
    case True
    then show ?thesis using same w(5) v threaded_key [of v] assms(4) by (simp add: cluster_key_threaded)
  next
    case False
    then show ?thesis using same w(5) v unthreaded_key [of v] cluster_key_event [of ?clean w]
      by auto
  qed
qed

section \<open>Live clusters\<close>

definition lives_of :: "(pystr \<Rightarrow> pystr) \<Rightarrow> (pystr \<Rightarrow> pystr) \<Rightarrow> update list \<Rightarrow> pystr \<times> pystr \<Rightarrow> update list" where
  "lives_of sha1 label us slot =
     live_order (filter (\<lambda>v. standalone_live v \<and> live_slot v = slot) (clean_of sha1 label us))"

lemma length_cluster_loop [simp]: "length (cluster_loop n prev us) = length us"
  by (induction us arbitrary: n prev) (simp_all add: Let_def)

lemma cluster_loop_fst: "map fst (cluster_loop n prev us) = map upd_id us"
  by (induction us arbitrary: n prev) (simp_all add: Let_def)

lemma cluster_loop_gap:
  "Suc i < length us \<Longrightarrow> snd (cluster_loop n prev us ! Suc i) =
    snd (cluster_loop n prev us ! i) + (if four_hours < created_at (us ! Suc i) - created_at (us ! i) then 1 else 0)"
proof (induction us arbitrary: n prev i)
  case (Cons u us)
  then show ?case
  proof (cases i)
    case 0
    with Cons.prems obtain v vs where "us = v # vs" by (cases us) auto
    with 0 show ?thesis by (simp add: Let_def)
  next
    case (Suc j)
    with Cons show ?thesis by (simp add: Let_def)
  qed
qed simp

lemma lives_members:
  assumes "u \<in> set (lives_of sha1 label us slot)"
  shows "u \<in> set (clean_of sha1 label us)" "standalone_live u" "live_slot u = slot"
  using assms by (auto simp: lives_of_def live_order_def)

lemma lives_distinct: "distinct (map upd_id (lives_of sha1 label us slot))"
proof -
  let ?ids = "map upd_id (filter (\<lambda>v. standalone_live v \<and> live_slot v = slot) (clean_of sha1 label us))"
  have "mset (map upd_id (lives_of sha1 label us slot)) = mset ?ids" by (simp add: lives_of_def live_order_def)
  moreover have "distinct ?ids" by (rule distinct_map_filter [OF clean_ids])
  ultimately show ?thesis using mset_eq_imp_distinct_iff by blast
qed

lemma lives_key:
  assumes i: "i < length (lives_of sha1 label us slot)"
  shows "jtext (event_key (cluster_key (clean_of sha1 label us) (lives_of sha1 label us slot ! i))) =
    ''live:'' @ fst slot @ '':'' @ snd slot @ '':'' @
      nat_text (snd (cluster_loop 0 None (lives_of sha1 label us slot) ! i))"
proof -
  let ?L = "lives_of sha1 label us slot"
  let ?C = "cluster_loop 0 None ?L"
  note mem = lives_members [OF nth_mem [OF i]]
  have ids: "distinct (map fst ?C)" using lives_distinct by (simp add: cluster_loop_fst)
  have "fst (?C ! i) = upd_id (?L ! i)" using arg_cong [OF cluster_loop_fst [of 0 None ?L], of "\<lambda>xs. xs ! i"] i by simp
  then have "(upd_id (?L ! i), snd (?C ! i)) \<in> set ?C" using i by (metis length_cluster_loop nth_mem prod.collapse)
  then have "map_of ?C (upd_id (?L ! i)) = Some (snd (?C ! i))" using ids by (rule map_of_is_SomeI [rotated])
  moreover have "live_order (filter (\<lambda>v. standalone_live v \<and> live_slot v = live_slot (?L ! i)) (clean_of sha1 label us)) = ?L"
    using mem(3) by (simp add: lives_of_def)
  moreover have "fst slot = py_lower (author (?L ! i))" "snd slot = local_day (?L ! i)"
    using arg_cong [OF mem(3), of fst] arg_cong [OF mem(3), of snd] by (simp_all add: live_slot_def)
  ultimately show ?thesis using mem(2) by (simp add: cluster_key_def Let_def)
qed

text \<open>
  Two consecutive live posts of one author on one day, no thread among them, share a group
  exactly when they are at most four hours apart.
\<close>

theorem live_clusters:
  assumes "organize_updates sha1 label us = Some gs" "Suc i < length (lives_of sha1 label us slot)"
  shows "(\<exists>g \<in> set gs. {upd_id (lives_of sha1 label us slot ! i), upd_id (lives_of sha1 label us slot ! Suc i)}
      \<subseteq> upd_id ` set (updates g)) \<longleftrightarrow>
    created_at (lives_of sha1 label us slot ! Suc i) - created_at (lives_of sha1 label us slot ! i) \<le> four_hours"
proof -
  let ?L = "lives_of sha1 label us slot"
  let ?key = "\<lambda>u. jtext (event_key (cluster_key (clean_of sha1 label us) u))"
  have mem: "?L ! i \<in> set (clean_of sha1 label us)" "?L ! Suc i \<in> set (clean_of sha1 label us)"
    using lives_members(1) assms(2) by (meson Suc_lessD nth_mem)+
  have "?key (?L ! i) = ?key (?L ! Suc i) \<longleftrightarrow> created_at (?L ! Suc i) - created_at (?L ! i) \<le> four_hours"
    using assms(2) cluster_loop_gap [OF assms(2), of 0 None] by (simp add: lives_key)
  moreover have "(\<exists>g \<in> set gs. {upd_id (?L ! i), upd_id (?L ! Suc i)} \<subseteq> upd_id ` set (updates g)) \<longleftrightarrow>
      ?key (?L ! i) = ?key (?L ! Suc i)"
    using organized_group [OF assms(1) mem(1)] organized_group [OF assms(1) mem(2)]
    by (metis (no_types, lifting) empty_subsetI insert_subset)
  ultimately show ?thesis by simp
qed

section \<open>Examples\<close>

definition demo_post :: "pystr \<Rightarrow> pystr \<Rightarrow> instant \<Rightarrow> pystr \<Rightarrow> update" where
  "demo_post i t at conv =
     \<lparr>upd_id = i, url = JStr ''u'', author = ''fan'', author_name = JStr [], body = JStr t, created_at = at,
      conversation_id = conv, reply_to_id = JStr [], quoted_id = JStr [], quoted_text = JStr [],
      quoted_author = JStr [], quoted_media = [], lang = JStr [], media = [], category = JStr [],
      event_key = JStr [], event_title = JStr [], source_priority = JInt 1, is_reply = JBool False,
      raw_query = JStr []\<rparr>"

definition demo_posts :: "update list" where
  "demo_posts = [demo_post ''1'' ''live now'' 0 ''1'', demo_post ''2'' ''hello'' 10 ''9'', demo_post ''3'' ''still live'' 20 ''3'']"

lemma demo_organizable: "list_all organizable demo_posts"
  by (simp add: demo_posts_def demo_post_def organizable_def)

lemma demo_organized: "organize_updates id id demo_posts = Some (the (organize_updates id id demo_posts))"
  using demo_organizable by (simp add: organize_updates_def)

theorem organize_partition_witness:
  "upd_id ` set (concat (map updates (the (organize_updates id id demo_posts)))) = {''1'', ''2'', ''3''}"
  using organize_partition [OF demo_organized] by (auto simp: demo_posts_def demo_post_def)

theorem organize_order_witness:
  "sorted (map (\<lambda>g. (group_start g, group_key g)) (the (organize_updates id id demo_posts)))"
  using organize_order [OF demo_organized] by blast

lemma demo_dedup: "deduplicate demo_posts = demo_posts"
  by (simp add: deduplicate_def demo_posts_def demo_post_def)

theorem threads_grouped_witness:
  "\<exists>g \<in> set (the (organize_updates id id demo_posts)). group_key g = ''conversation:9''"
proof -
  let ?p = "demo_post ''2'' ''hello'' 10 ''9''"
  have "prepare id id ?p \<in> set (clean_of id id demo_posts)"
    by (simp add: clean_of_def demo_dedup) (simp add: demo_posts_def)
  then obtain g u where g: "g \<in> set (the (organize_updates id id demo_posts))" "u \<in> set (updates g)" "upd_id u = ''2''"
    using organized_group(2) [OF demo_organized] by (fastforce simp: demo_post_def)
  then obtain w where w: "w \<in> set (clean_of id id demo_posts)" "upd_id w = ''2''" "conversation_id w = conversation_id u"
    "reply_to_id w = reply_to_id u" using organized_member [OF demo_organized] by metis
  then have "conversation_id u = ''9''" "is_threaded u"
    using g(3) by (auto simp: clean_of_def demo_dedup) (auto simp: demo_posts_def demo_post_def is_threaded_def)
  with threads_grouped [OF demo_organized g(1,2)] g(1) show ?thesis by (auto simp: thread_prefix_def)
qed

lemma demo_categories:
  "detect_category (demo_post ''1'' ''live now'' 0 ''1'') = ''live''"
  "detect_category (demo_post ''2'' ''hello'' 10 ''9'') = ''general''"
  "detect_category (demo_post ''3'' ''still live'' 20 ''3'') = ''live''"
  by code_simp+

lemma prepare_author [simp]: "author (prepare sha1 label u) = author u" "created_at (prepare sha1 label u) = created_at u"
  by (simp_all add: prepare_def Let_def)

lemma demo_lives:
  "lives_of id id demo_posts (''fan'', date_text 0) =
    [prepare id id (demo_post ''1'' ''live now'' 0 ''1''), prepare id id (demo_post ''3'' ''still live'' 20 ''3'')]"
proof -
  let ?a = "demo_post ''1'' ''live now'' 0 ''1''" and ?b = "demo_post ''2'' ''hello'' 10 ''9''"
    and ?c = "demo_post ''3'' ''still live'' 20 ''3''"
  have days: "local_day (prepare id id ?a) = date_text 0" "local_day (prepare id id ?c) = date_text 0"
    by (simp_all add: local_day_def demo_post_def days_of_def us_per_day_def)
  have low: "py_lower ''fan'' = ''fan''" by code_simp
  have "standalone_live (prepare id id ?a)" "\<not> standalone_live (prepare id id ?b)" "standalone_live (prepare id id ?c)"
    by (simp_all add: standalone_live_def demo_categories is_threaded_def) (simp_all add: demo_post_def)
  moreover have "live_slot (prepare id id ?a) = (''fan'', date_text 0)" "live_slot (prepare id id ?c) = (''fan'', date_text 0)"
    using days low by (simp_all add: live_slot_def) (simp_all add: demo_post_def)
  moreover have "created_at ?a < created_at ?c" by (simp add: demo_post_def)
  ultimately show ?thesis
    by (simp add: lives_of_def clean_of_def demo_dedup live_order_def) (simp add: demo_posts_def)
qed

theorem live_clusters_witness:
  "\<exists>g \<in> set (the (organize_updates id id demo_posts)). {''1'', ''3''} \<subseteq> upd_id ` set (updates g)"
  using live_clusters [OF demo_organized, of 0 "(''fan'', date_text 0)"]
  by (simp add: demo_lives four_hours_def us_per_s_def) (simp add: demo_post_def)

end
