(* ===== verification/Scan.thy ===== *)
theory Scan
  imports StateStore Organizer
begin

text \<open>
  The scheduled scan and the delivery of pending posts in \<open>app/main.py\<close>, composed from the
  operations of the state store and the organizer. What the X collector returns, what the writer,
  the media manager and Telegram do with a post, and the success of the announcement are
  arguments. \<open>app_state\<close> is \<open>Application.state.data\<close>, \<open>notices\<close> the messages \<open>_safe_send\<close> tried
  to send. Runtime settings are integers. \<open>None\<close> is a post the organizer does not cover.
\<close>

section \<open>State and arguments\<close>

datatype notice =
    ScanFailure int "pystr list"
  | TranslationOutage nat
  | GroupFailure pystr
  | BatchFailure

record app =
  app_state :: state_data
  notices :: "notice list"

record runtime =
  scheduled_lookback_hours :: int
  max_collection_items :: int
  max_auto_items :: int

datatype collected = CollectError | Collected "update list" "pystr list"

text \<open>
  What became of one post: no translation, an exception before the post was archived, after that, or
  after its draft was saved as well, or a message, a draft and the mark.
\<close>

datatype item_outcome =
    Unavailable
  | ItemFailed
  | FailedArchived
  | FailedDrafted pystr pystr pystr int
  | Delivered pystr pystr pystr int

record delivery_world =
  wenv :: pyenv
  wsha1 :: "pystr \<Rightarrow> pystr"
  wlabel :: "pystr \<Rightarrow> pystr"
  announced :: bool
  writer_fails :: "event_group \<Rightarrow> bool"
  fate :: "event_group \<Rightarrow> update \<Rightarrow> item_outcome"
  quota_limited :: bool

definition hours :: "int \<Rightarrow> int" where "hours n = n * 3600 * us_per_s"
definition minutes :: "int \<Rightarrow> int" where "minutes n = n * 60 * us_per_s"

definition parse_state_datetime :: "pystr \<Rightarrow> instant option" where
  "parse_state_datetime s = (if s = [] then None else map_option as_utc (fromisoformat (replace_Z s)))"

definition safe_send :: "notice \<Rightarrow> app \<Rightarrow> app" where
  "safe_send n a = a\<lparr>notices := notices a @ [n]\<rparr>"

section \<open>The scheduled scan\<close>

definition recently :: "int \<Rightarrow> instant \<Rightarrow> pystr \<Rightarrow> bool" where
  "recently span now s = (case parse_state_datetime s of None \<Rightarrow> False | Some t \<Rightarrow> now - t < span)"

definition notify_x_failure :: "instant \<Rightarrow> app \<Rightarrow> app" where
  "notify_x_failure now a =
     (let st = app_state a in
      if recently (hours 2) now (last_x_error_notice st) then a
      else let b = safe_send (ScanFailure (x_scan_failure_streak st) (take 3 (last_failed_sources st))) a
           in b\<lparr>app_state := (app_state b)\<lparr>last_x_error_notice := isoformat now\<rparr>\<rparr>)"

definition record_x_scan_failure :: "instant \<Rightarrow> app \<Rightarrow> app" where
  "record_x_scan_failure now a =
     (let streak = max 0 (x_scan_failure_streak (app_state a)) + 1;
          b = a\<lparr>app_state := (app_state a)\<lparr>x_scan_failure_streak := streak\<rparr>\<rparr>
      in if 3 \<le> streak then notify_x_failure now b else b)"

definition last_scan :: "instant \<Rightarrow> state_data \<Rightarrow> instant" where
  "last_scan now st = (case parse_state_datetime (last_auto_run st) of None \<Rightarrow> now - hours 2 | Some t \<Rightarrow> t)"

definition scan_start :: "runtime \<Rightarrow> instant \<Rightarrow> state_data \<Rightarrow> instant" where
  "scan_start cfg now st =
     max (last_scan now st - minutes 30) (now - hours (max 2 (scheduled_lookback_hours cfg)))"

definition fresh_posts :: "state_data \<Rightarrow> update list \<Rightarrow> update list" where
  "fresh_posts st us = sort_key (\<lambda>u. (created_at u, upd_id u)) (filter (\<lambda>u. \<not> is_seen st (upd_id u)) us)"

definition ceiling_of :: "runtime \<Rightarrow> nat" where
  "ceiling_of cfg = nat (max 1 (max_collection_items cfg))"

definition run_scheduled_scan :: "delivery_world \<Rightarrow> runtime \<Rightarrow> pystr list option
    \<Rightarrow> (instant \<Rightarrow> instant \<Rightarrow> collected) \<Rightarrow> instant \<Rightarrow> app \<Rightarrow> app option" where
  "run_scheduled_scan w cfg blocked collect now a =
     (let st = app_state a in
      if now - last_scan now st < minutes 10 then Some a
      else
        let a1 = a\<lparr>app_state := st\<lparr>last_auto_attempt := isoformat now\<rparr>\<rparr>;
            start = scan_start cfg now st
        in case blocked of
             Some errs \<Rightarrow> Some (record_x_scan_failure now
               (a1\<lparr>app_state := (app_state a1)\<lparr>last_failed_sources := take 10 errs\<rparr>\<rparr>))
           | None \<Rightarrow>
             (case collect start now of
                CollectError \<Rightarrow> Some (record_x_scan_failure now a1)
              | Collected us errs \<Rightarrow>
                  (let kept = take (ceiling_of cfg) (fresh_posts st us);
                       a2 = a1\<lparr>app_state := queue_updates (wenv w) False kept (app_state a1)\<rparr>
                   in if errs \<noteq> []
                      then Some (record_x_scan_failure now
                        (a2\<lparr>app_state := (app_state a2)\<lparr>last_failed_sources := take 10 errs\<rparr>\<rparr>))
                      else map_option (\<lambda>gs. a2\<lparr>app_state := (app_state a2)
                             \<lparr>last_auto_run := isoformat now, last_x_error_notice := [],
                              x_scan_failure_streak := 0, last_failed_sources := [],
                              last_scan_item_count := int (length kept),
                              last_scan_group_count := int (length gs)\<rparr>\<rparr>)
                           (organize_updates (wsha1 w) (wlabel w) kept))))"

section \<open>Delivery\<close>

definition outage_minutes :: "bool \<Rightarrow> int \<Rightarrow> int" where
  "outage_minutes quota streak = (if quota then min 360 (30 * 2 ^ nat (min (streak - 1) 4)) else 20)"

definition notify_translation_outage :: "bool \<Rightarrow> instant \<Rightarrow> nat \<Rightarrow> app \<Rightarrow> app" where
  "notify_translation_outage quota now n a =
     (let st = app_state a;
          streak = min (max 0 (translation_outage_streak st) + 1) 1000;
          st1 = st\<lparr>translation_outage_streak := streak,
                   translation_retry_after := isoformat (now + minutes (outage_minutes quota streak))\<rparr>;
          b = a\<lparr>app_state := st1\<rparr>
      in if recently (hours 2) now (translation_outage_notice st) then b
         else (safe_send (TranslationOutage n) b)\<lparr>app_state := st1\<lparr>translation_outage_notice := isoformat now\<rparr>\<rparr>)"

text \<open>One post of a group; the second component counts deferred translations.\<close>

definition with_draft :: "instant \<Rightarrow> event_group \<Rightarrow> update \<Rightarrow> pystr \<Rightarrow> pystr \<Rightarrow> pystr \<Rightarrow> int \<Rightarrow> state_data \<Rightarrow> state_data" where
  "with_draft now g u draft_id text mode_name mid st =
     the (save_draft \<lparr>dr_id = JStr draft_id, dr_update_id = JStr (upd_id u), dr_event_key = JStr (group_key g),
       caption = JStr text, mode = JStr mode_name, telegram_message_id = JInt mid,
       dr_created_at = JStr (isoformat now)\<rparr> (archive_put u st))"

definition deliver_item :: "delivery_world \<Rightarrow> instant \<Rightarrow> event_group \<Rightarrow> update \<Rightarrow> app \<times> nat \<Rightarrow> app \<times> nat" where
  "deliver_item w now g u s =
     (let put = (\<lambda>st. ((fst s)\<lparr>app_state := st\<rparr>, snd s)); st = app_state (fst s)
      in case fate w g u of
           Unavailable \<Rightarrow> (fst s, Suc (snd s))
         | ItemFailed \<Rightarrow> s
         | FailedArchived \<Rightarrow> put (archive_put u st)
         | FailedDrafted draft_id text mode_name mid \<Rightarrow> put (with_draft now g u draft_id text mode_name mid st)
         | Delivered draft_id text mode_name mid \<Rightarrow> put (mark_seen u now (with_draft now g u draft_id text mode_name mid st)))"

text \<open>A failing writer raises before any post of the group is touched.\<close>

definition deliver_group :: "delivery_world \<Rightarrow> instant \<Rightarrow> event_group \<Rightarrow> app \<times> nat \<times> nat \<Rightarrow> app \<times> nat \<times> nat" where
  "deliver_group w now g s =
     (case s of (a, deferred, failed) \<Rightarrow>
        if writer_fails w g then (safe_send (GroupFailure (take 80 (group_title g))) a, deferred, Suc failed)
        else (case fold (deliver_item w now g) (updates g) (a, 0) of (b, d) \<Rightarrow> (b, deferred + d, failed)))"

definition deliver_updates :: "delivery_world \<Rightarrow> instant \<Rightarrow> bool \<Rightarrow> update list \<Rightarrow> app \<Rightarrow> (bool \<times> app) option" where
  "deliver_updates w now force us a =
     (let todo = (if force then us else filter (\<lambda>u. \<not> is_seen (app_state a) (upd_id u)) us) in
      if todo = [] then Some (True, a)
      else case organize_updates (wsha1 w) (wlabel w) todo of
        None \<Rightarrow> None
      | Some gs \<Rightarrow>
          if \<not> announced w then Some (False, a)
          else (case fold (deliver_group w now) gs (a, 0, 0) of (b, deferred, failed) \<Rightarrow>
            let c = (if failed = 0 then b
                     else b\<lparr>app_state := (app_state b)\<lparr>last_group_failure_count := int failed,
                        last_group_total_count := int (length gs), last_group_failure_at := isoformat now\<rparr>\<rparr>)
            in Some (True, if deferred \<noteq> 0 then notify_translation_outage (quota_limited w) now deferred c
                           else c\<lparr>app_state := (app_state c)\<lparr>translation_retry_after := [],
                                  translation_outage_streak := 0\<rparr>\<rparr>)))"

text \<open>Runs of pending posts with the same \<open>force\<close> flag.\<close>

fun batches :: "(update \<times> bool) list \<Rightarrow> (bool \<times> update list) list" where
  "batches [] = []"
| "batches ((u, f) # rest) =
     (case batches rest of
        (g, us) # bs \<Rightarrow> if g = f then (f, u # us) # bs else (f, [u]) # (g, us) # bs
      | [] \<Rightarrow> [(f, [u])])"

definition deliver_batch :: "delivery_world \<Rightarrow> instant \<Rightarrow> bool \<times> update list \<Rightarrow> app \<Rightarrow> app option" where
  "deliver_batch w now bt a =
     map_option (\<lambda>r. if fst r then snd r else safe_send BatchFailure (snd r))
       (deliver_updates w now (fst bt) (snd bt) a)"

fun deliver_batches :: "delivery_world \<Rightarrow> instant \<Rightarrow> (bool \<times> update list) list \<Rightarrow> app \<Rightarrow> app option" where
  "deliver_batches w now [] a = Some a"
| "deliver_batches w now (b # bts) a = Option.bind (deliver_batch w now b a) (deliver_batches w now bts)"

definition deliver_pending :: "delivery_world \<Rightarrow> runtime \<Rightarrow> instant \<Rightarrow> app \<Rightarrow> (py_exc + app) option" where
  "deliver_pending w cfg now a =
     (let st = app_state a in
      if (case parse_state_datetime (translation_retry_after st) of None \<Rightarrow> False | Some t \<Rightarrow> now < t)
      then Some (Inr a)
      else if recently (minutes 12) now (translation_outage_notice st) then Some (Inr a)
      else case pop_pending (wenv w) now (max 1 (max_auto_items cfg)) st of
             Inl e \<Rightarrow> Some (Inl e)
           | Inr (pending, st') \<Rightarrow>
               map_option Inr (deliver_batches w now (batches pending) (a\<lparr>app_state := st'\<rparr>)))"

section \<open>Rows that are read back\<close>

definition readable_row :: "pyenv \<Rightarrow> pydict \<Rightarrow> bool" where
  "readable_row env item \<longleftrightarrow> (\<forall>now. \<exists>r. decode_item env now item = Inr r)"

definition queue_ok :: "pyenv \<Rightarrow> state_data \<Rightarrow> bool" where
  "queue_ok env st \<longleftrightarrow> (\<forall>item \<in> set (pending_delivery st). readable_row env item)"

definition row_id :: "pyenv \<Rightarrow> pydict \<Rightarrow> pystr" where "row_id env item = id_text env item JNull"

lemma readable_queue_item: "sound_post u \<Longrightarrow> readable_row env (queue_item force u)"
  by (simp add: readable_row_def sound_post_def decode_queue_item)

lemma queue_loop_rows:
  "row_id env ` set (queue_loop force ex us pending) = row_id env ` set pending \<union> (upd_id ` set us - ex)"
proof (induction force ex us pending rule: queue_loop.induct)
  case (2 force ex u us pending)
  then show ?case by (auto simp: row_id_def queue_item_get)
qed simp

lemma queue_updates_rows:
  "row_id env ` set (pending_delivery (queue_updates env force us st)) =
    row_id env ` set (pending_delivery st) \<union> upd_id ` set us"
proof -
  have "set (map (\<lambda>item. id_text env item JNull) (pending_delivery st)) = row_id env ` set (pending_delivery st)"
    by (simp add: row_id_def)
  then show ?thesis by (simp add: queue_updates_def queue_loop_rows Un_Diff_cancel del: set_map)
qed

lemma queue_updates_ok:
  "queue_ok env st \<Longrightarrow> \<forall>u \<in> set us. sound_post u \<Longrightarrow> queue_ok env (queue_updates env force us st)"
proof -
  assume ok: "queue_ok env st" "\<forall>u \<in> set us. sound_post u"
  obtain added where "pending_delivery (queue_updates env force us st) = pending_delivery st @ added"
    "set added \<subseteq> queue_item force ` set us"
    using queue_loop_append [of force "set (map (\<lambda>item. id_text env item JNull) (pending_delivery st))" us "pending_delivery st"]
    by (auto simp: queue_updates_def)
  with ok readable_queue_item show ?thesis by (fastforce simp: queue_ok_def)
qed

section \<open>A post is accounted for\<close>

text \<open>It carries a seen mark from \<open>t\<close> or later, or has none and waits in the queue.\<close>

definition accounted :: "pyenv \<Rightarrow> instant \<Rightarrow> pystr \<Rightarrow> state_data \<Rightarrow> bool" where
  "accounted env t i st \<longleftrightarrow> (case map_of (seen st) i of
       Some v \<Rightarrow> t \<le> parse_dt env v
     | None \<Rightarrow> i \<in> row_id env ` set (pending_delivery st))"

definition acc_inv :: "pyenv \<Rightarrow> instant \<Rightarrow> pystr \<Rightarrow> app \<Rightarrow> bool" where
  "acc_inv env t i a \<longleftrightarrow> queue_ok env (app_state a) \<and> accounted env t i (app_state a)"

lemma acc_inv_frame:
  "pending_delivery (app_state b) = pending_delivery (app_state a) \<Longrightarrow> seen (app_state b) = seen (app_state a) \<Longrightarrow>
    acc_inv env t i b = acc_inv env t i a"
  by (simp add: acc_inv_def queue_ok_def accounted_def cong: option.case_cong)

lemma is_seen_map: "is_seen st i \<longleftrightarrow> map_of (seen st) i \<noteq> None"
  by (simp add: is_seen_def map_of_eq_None_iff)

lemma record_failure_frame [simp]:
  "pending_delivery (app_state (record_x_scan_failure now a)) = pending_delivery (app_state a)"
  "seen (app_state (record_x_scan_failure now a)) = seen (app_state a)"
  "last_auto_run (app_state (record_x_scan_failure now a)) = last_auto_run (app_state a)"
  by (simp_all add: record_x_scan_failure_def notify_x_failure_def safe_send_def Let_def)

lemma accounted_queue: "accounted env t i st \<Longrightarrow> accounted env t i (queue_updates env force us st)"
  unfolding accounted_def using queue_updates_rows [of env force us st]
  by (auto simp: queue_updates_def split: option.splits)

lemma accounted_mark: "accounted env t i st \<Longrightarrow> t \<le> now \<Longrightarrow> valid_instant now \<Longrightarrow> accounted env t i (mark_seen u now st)"
  by (auto simp: accounted_def mark_seen_def update_conv parse_dt_stamp split: option.splits)

lemma accounted_prune:
  assumes "accounted env t i st" "now - days 45 \<le> t"
  shows "accounted env t i (prune env now st)"
proof -
  have some: "map_of (filter (\<lambda>(k, v). now - days 45 \<le> parse_dt env v) al) i = Some v"
    if "map_of al i = Some v" "t \<le> parse_dt env v" for al v
    using that assms(2) by (induction al) (auto split: if_splits)
  have none: "map_of (filter P al) i = None" if "map_of al i = None" for P and al :: pydict
    using that by (induction al) (auto split: if_splits)
  show ?thesis
  proof (cases "map_of (seen st) i")
    case None
    with assms(1) none show ?thesis by (simp add: accounted_def prune_def)
  next
    case (Some v)
    with assms(1) some [OF Some] show ?thesis by (simp add: accounted_def prune_def)
  qed
qed

lemma pop_pending_acc:
  assumes "acc_inv env t i a" "pop_pending env now limit (app_state a) = Inr (res, st')"
  shows "acc_inv env t i (a\<lparr>app_state := st'\<rparr>)"
proof -
  from assms(2) obtain rem where rem: "pop_loop env now (app_state a) (nat limit) (pending_delivery (app_state a)) = Inr (rem, res)"
    "st' = (app_state a)\<lparr>pending_delivery := rem\<rparr>" by (auto simp: pop_pending_def bindE_Inr)
  note kept = pop_loop_spec [OF rem(1), THEN conjunct1]
  have ok: "queue_ok env st'" using assms(1) kept rem(2) by (auto simp: acc_inv_def queue_ok_def)
  have "accounted env t i st'"
  proof (cases "map_of (seen (app_state a)) i")
    case (Some v)
    with assms(1) rem(2) show ?thesis by (simp add: acc_inv_def accounted_def)
  next
    case None
    then obtain item where item: "item \<in> set (pending_delivery (app_state a))" "row_id env item = i"
      using assms(1) by (auto simp: acc_inv_def accounted_def)
    then obtain u f where dec: "decode_item env now item = Inr (u, f)"
      using assms(1) by (fastforce simp: acc_inv_def queue_ok_def readable_row_def)
    have "id_text env item (JStr []) = i"
      using decode_item_id [OF dec, of "JStr []"] decode_item_id [OF dec, of JNull] item(2) by (simp add: row_id_def)
    then have "\<not> skips env (app_state a) item" using None by (simp add: skips_def Let_def is_seen_map)
    then have "item \<in> set rem" using item(1) dec kept by (auto simp: keeps_def)
    with item(2) None rem(2) show ?thesis by (auto simp: accounted_def)
  qed
  with ok show ?thesis by (simp add: acc_inv_def)
qed

section \<open>Delivery keeps every post accounted for\<close>

lemma save_draft_frame:
  "seen (the (save_draft \<lparr>dr_id = JStr i, dr_update_id = a, dr_event_key = b, caption = c, mode = m,
      telegram_message_id = t, dr_created_at = x\<rparr> st)) = seen st"
  "pending_delivery (the (save_draft \<lparr>dr_id = JStr i, dr_update_id = a, dr_event_key = b, caption = c, mode = m,
      telegram_message_id = t, dr_created_at = x\<rparr> st)) = pending_delivery st"
  by (simp_all add: save_draft_def)

lemma mark_frame [simp]:
  "pending_delivery (mark_seen u now st) = pending_delivery st" "pending_delivery (archive_put u st) = pending_delivery st"
  "seen (archive_put u st) = seen st" "seen (mark_seen u now st) = AList.update (upd_id u) (JStr (isoformat now)) (seen st)"
  by (simp_all add: mark_seen_def archive_put_def)

text \<open>What one post does to the queue and the marks.\<close>

definition marks_only :: "instant \<Rightarrow> app \<Rightarrow> app \<Rightarrow> pystr set \<Rightarrow> bool" where
  "marks_only now a b ids \<longleftrightarrow> pending_delivery (app_state b) = pending_delivery (app_state a) \<and>
     (\<forall>i. map_of (seen (app_state b)) i =
        (if i \<in> ids then Some (JStr (isoformat now)) else map_of (seen (app_state a)) i))"

lemma marks_only_refl: "marks_only now a a {}"
  by (simp add: marks_only_def)

lemma marks_only_trans: "marks_only now a b J \<Longrightarrow> marks_only now b c K \<Longrightarrow> marks_only now a c (J \<union> K)"
  by (auto simp: marks_only_def)

lemma marks_only_same:
  "marks_only now a b J \<Longrightarrow> seen (app_state c) = seen (app_state b) \<Longrightarrow>
    pending_delivery (app_state c) = pending_delivery (app_state b) \<Longrightarrow> marks_only now a c J"
  by (simp add: marks_only_def)

definition was_delivered :: "delivery_world \<Rightarrow> event_group \<Rightarrow> update \<Rightarrow> bool" where
  "was_delivered w g u \<longleftrightarrow> (case fate w g u of Delivered _ _ _ _ \<Rightarrow> True | _ \<Rightarrow> False)"

lemma deliver_item_marks:
  "marks_only now (fst s) (fst (deliver_item w now g u s)) (if was_delivered w g u then {upd_id u} else {})"
  by (auto simp: deliver_item_def with_draft_def marks_only_def was_delivered_def Let_def save_draft_frame update_conv
      split: item_outcome.split)

lemma deliver_items_marks:
  "marks_only now (fst s) (fst (fold (deliver_item w now g) us s)) (upd_id ` {u \<in> set us. was_delivered w g u})"
proof (induction us arbitrary: s)
  case (Cons u us)
  have "upd_id ` {v \<in> set (u # us). was_delivered w g v} =
      (if was_delivered w g u then {upd_id u} else {}) \<union> upd_id ` {v \<in> set us. was_delivered w g v}" by auto
  then show ?case using marks_only_trans [OF deliver_item_marks Cons.IH] by simp
qed (simp add: marks_only_refl)

definition delivered_ids :: "delivery_world \<Rightarrow> event_group list \<Rightarrow> pystr set" where
  "delivered_ids w gs = (\<Union>g \<in> {g \<in> set gs. \<not> writer_fails w g}. upd_id ` {u \<in> set (updates g). was_delivered w g u})"

lemma deliver_group_marks:
  "marks_only now (fst s) (fst (deliver_group w now g s)) (delivered_ids w [g])"
proof (cases s)
  case (fields a d f)
  show ?thesis
  proof (cases "writer_fails w g")
    case True
    then show ?thesis using fields
      by (simp add: deliver_group_def delivered_ids_def marks_only_def safe_send_def)
  next
    case False
    then have "delivered_ids w [g] = upd_id ` {u \<in> set (updates g). was_delivered w g u}"
      by (auto simp: delivered_ids_def)
    with False deliver_items_marks [of now "(a, 0)" w g "updates g"] fields show ?thesis
      by (cases "fold (deliver_item w now g) (updates g) (a, 0)") (simp add: deliver_group_def)
  qed
qed

lemma deliver_groups_marks:
  "marks_only now (fst s) (fst (fold (deliver_group w now) gs s)) (delivered_ids w gs)"
proof (induction gs arbitrary: s)
  case (Cons g gs)
  have "delivered_ids w (g # gs) = delivered_ids w [g] \<union> delivered_ids w gs"
    by (auto simp: delivered_ids_def)
  with marks_only_trans [OF deliver_group_marks Cons.IH] show ?case by simp
qed (simp add: marks_only_refl delivered_ids_def)

lemma outage_frame [simp]:
  "seen (app_state (notify_translation_outage q now n a)) = seen (app_state a)"
  "pending_delivery (app_state (notify_translation_outage q now n a)) = pending_delivery (app_state a)"
  by (simp_all add: notify_translation_outage_def safe_send_def Let_def)

text \<open>Every mark a delivery sets belongs to a post Telegram accepted.\<close>

definition accepted_by :: "delivery_world \<Rightarrow> pystr \<Rightarrow> bool" where
  "accepted_by w i \<longleftrightarrow> (\<exists>g u. upd_id u = i \<and> was_delivered w g u)"

lemma deliver_updates_marks:
  assumes "deliver_updates w now force us a = Some (ok, b)"
  shows "\<exists>J. marks_only now a b J \<and> (\<forall>i \<in> J. accepted_by w i)"
proof -
  have acc: "i \<in> delivered_ids w gs \<Longrightarrow> accepted_by w i" for gs i
    by (auto simp: delivered_ids_def accepted_by_def)
  let ?todo = "if force then us else filter (\<lambda>u. \<not> is_seen (app_state a) (upd_id u)) us"
  show ?thesis
  proof (cases "?todo = []")
    case True
    with assms show ?thesis by (auto simp: deliver_updates_def Let_def intro: marks_only_refl split: if_splits)
  next
    case False
    then obtain gs where gs: "organize_updates (wsha1 w) (wlabel w) ?todo = Some gs"
      using assms by (auto simp: deliver_updates_def Let_def split: option.splits if_splits)
    show ?thesis
    proof (cases "announced w")
      case announced: True
      obtain c d f where run: "fold (deliver_group w now) gs (a, 0, 0) = (c, d, f)" by (cases "fold (deliver_group w now) gs (a, 0, 0)")
      have "marks_only now a c (delivered_ids w gs)"
        using deliver_groups_marks [of now "(a, 0, 0)" w gs] run by simp
      moreover have "seen (app_state b) = seen (app_state c)" "pending_delivery (app_state b) = pending_delivery (app_state c)"
        using assms gs run False announced
        by (auto simp: deliver_updates_def Let_def split: if_splits)
      ultimately show ?thesis using marks_only_same acc by blast
    next
      case False
      with assms gs \<open>?todo \<noteq> []\<close> show ?thesis
        by (auto simp: deliver_updates_def Let_def intro: marks_only_refl split: if_splits)
    qed
  qed
qed

lemma deliver_batches_marks:
  assumes "deliver_batches w now bts a = Some b"
  shows "\<exists>J. marks_only now a b J \<and> (\<forall>i \<in> J. accepted_by w i)"
  using assms
proof (induction bts arbitrary: a)
  case Nil
  then show ?case by (auto intro: marks_only_refl)
next
  case (Cons bt bts)
  then obtain c where c: "deliver_batch w now bt a = Some c" "deliver_batches w now bts c = Some b"
    by (auto simp: bind_eq_Some_conv)
  then obtain ok d where d: "deliver_updates w now (fst bt) (snd bt) a = Some (ok, d)"
    "c = (if ok then d else safe_send BatchFailure d)" by (auto simp: deliver_batch_def)
  from deliver_updates_marks [OF d(1)] obtain J where J: "marks_only now a d J" "\<forall>i \<in> J. accepted_by w i" by blast
  have "marks_only now a c J" using J(1) d(2) by (auto simp: marks_only_def safe_send_def)
  with Cons.IH [OF c(2)] J(2) show ?case by (meson Un_iff marks_only_trans)
qed

lemma marks_only_acc:
  assumes "acc_inv env t i a" "marks_only now a b J" "t \<le> now" "valid_instant now"
  shows "acc_inv env t i b"
  using assms parse_dt_stamp [OF assms(4), of env]
  by (auto simp: acc_inv_def marks_only_def queue_ok_def accounted_def split: option.splits)

section \<open>Any run of the bot\<close>

datatype bot_op =
    OpScan delivery_world "pystr list option" "instant \<Rightarrow> instant \<Rightarrow> collected" instant
  | OpDeliver delivery_world instant
  | OpPrune instant

text \<open>A post outside the organizer's domain or an exception ends the operation without effect.\<close>

fun bot_step :: "pyenv \<Rightarrow> runtime \<Rightarrow> bot_op \<Rightarrow> app \<Rightarrow> app" where
  "bot_step env cfg (OpScan w blocked collect now) a =
     (case run_scheduled_scan (w\<lparr>wenv := env\<rparr>) cfg blocked collect now a of Some b \<Rightarrow> b | None \<Rightarrow> a)"
| "bot_step env cfg (OpDeliver w now) a =
     (case deliver_pending (w\<lparr>wenv := env\<rparr>) cfg now a of Some (Inr b) \<Rightarrow> b | _ \<Rightarrow> a)"
| "bot_step env cfg (OpPrune now) a = a\<lparr>app_state := prune env now (app_state a)\<rparr>"

fun bot_time :: "bot_op \<Rightarrow> instant" where
  "bot_time (OpScan w blocked collect now) = now"
| "bot_time (OpDeliver w now) = now"
| "bot_time (OpPrune now) = now"

fun sound_op :: "bot_op \<Rightarrow> bool" where
  "sound_op (OpScan w blocked collect now) \<longleftrightarrow>
     (\<forall>start us errs. collect start now = Collected us errs \<longrightarrow> (\<forall>u \<in> set us. sound_post u))"
| "sound_op _ \<longleftrightarrow> True"

text \<open>Operations of the 45 days after \<open>t\<close>, with collectors that return constructed posts.\<close>

definition in_retention :: "instant \<Rightarrow> bot_op \<Rightarrow> bool" where
  "in_retention t op \<longleftrightarrow> t \<le> bot_time op \<and> bot_time op \<le> t + days 45 \<and> valid_instant (bot_time op) \<and> sound_op op"

lemma fresh_posts_set: "set (fresh_posts st us) = {u \<in> set us. \<not> is_seen st (upd_id u)}"
  by (simp add: fresh_posts_def)

text \<open>The outcomes of a scan that is due.\<close>

lemma scan_cases:
  assumes "run_scheduled_scan w cfg blocked collect now a = Some b"
  obtains (idle) "b = a"
  | (failed) "seen (app_state b) = seen (app_state a)" "pending_delivery (app_state b) = pending_delivery (app_state a)"
      "last_auto_run (app_state b) = last_auto_run (app_state a)"
  | (got) us errs kept where "collect (scan_start cfg now (app_state a)) now = Collected us errs"
      "kept = take (ceiling_of cfg) (fresh_posts (app_state a) us)" "seen (app_state b) = seen (app_state a)"
      "pending_delivery (app_state b) = pending_delivery (queue_updates (wenv w) False kept (app_state a))"
      "last_auto_run (app_state b) = (if errs = [] then isoformat now else last_auto_run (app_state a))"
proof -
  have q: "pending_delivery (queue_updates e f us (st\<lparr>last_auto_attempt := x\<rparr>)) = pending_delivery (queue_updates e f us st)"
    "seen (queue_updates e f us st) = seen st" "last_auto_run (queue_updates e f us st) = last_auto_run st" for e f us st x
    by (simp_all add: queue_updates_def)
  show thesis
  proof (cases "now - last_scan now (app_state a) < minutes 10")
    case True
    with assms idle show thesis by (simp add: run_scheduled_scan_def Let_def)
  next
    case due: False
    show thesis
    proof (cases blocked)
      case (Some errs)
      with due assms failed show thesis by (auto simp: run_scheduled_scan_def Let_def)
    next
      case None
      show thesis
      proof (cases "collect (scan_start cfg now (app_state a)) now")
        case CollectError
        with due None assms failed show thesis by (auto simp: run_scheduled_scan_def Let_def)
      next
        case (Collected us errs)
        with due None assms show thesis
          by (intro got [OF Collected refl])
            (auto simp: run_scheduled_scan_def Let_def q split: if_splits)
      qed
    qed
  qed
qed

lemma scan_acc:
  assumes "acc_inv (wenv w) t i a" "run_scheduled_scan w cfg blocked collect now a = Some b"
    and "\<forall>start us errs. collect start now = Collected us errs \<longrightarrow> (\<forall>u \<in> set us. sound_post u)"
  shows "acc_inv (wenv w) t i b"
  using assms(2)
proof (cases rule: scan_cases)
  case (got us errs kept)
  have "\<forall>u \<in> set us. sound_post u" using assms(3) got(1) by blast
  then have "\<forall>u \<in> set kept. sound_post u"
    using got(2) by (auto simp: fresh_posts_set dest!: in_set_takeD)
  then have "queue_ok (wenv w) (queue_updates (wenv w) False kept (app_state a))"
    "accounted (wenv w) t i (queue_updates (wenv w) False kept (app_state a))"
    using assms(1) queue_updates_ok accounted_queue by (auto simp: acc_inv_def)
  moreover have "seen (queue_updates (wenv w) False kept (app_state a)) = seen (app_state a)"
    by (simp add: queue_updates_def)
  ultimately show ?thesis using got(3,4)
    by (simp add: acc_inv_def queue_ok_def accounted_def cong: option.case_cong)
next
  case idle
  with assms(1) show ?thesis by simp
next
  case failed
  then show ?thesis using assms(1) acc_inv_frame by blast
qed

lemma deliver_pending_acc:
  assumes "acc_inv (wenv w) t i a" "deliver_pending w cfg now a = Some (Inr b)" "t \<le> now" "valid_instant now"
  shows "acc_inv (wenv w) t i b"
proof (cases "b = a")
  case False
  then obtain pending st' where pop: "pop_pending (wenv w) now (max 1 (max_auto_items cfg)) (app_state a) = Inr (pending, st')"
    "deliver_batches w now (batches pending) (a\<lparr>app_state := st'\<rparr>) = Some b"
    using assms(2) by (auto simp: deliver_pending_def Let_def split: if_splits sum.splits)
  from deliver_batches_marks [OF pop(2)] obtain J where "marks_only now (a\<lparr>app_state := st'\<rparr>) b J" by blast
  then show ?thesis using marks_only_acc [OF pop_pending_acc [OF assms(1) pop(1)]] assms(3,4) by blast
qed (use assms in simp)

lemma bot_step_acc:
  assumes "in_retention t op" "acc_inv env t i a"
  shows "acc_inv env t i (bot_step env cfg op a)"
proof (cases op)
  case (OpScan w blocked collect now)
  with assms scan_acc [of "w\<lparr>wenv := env\<rparr>" t i a cfg blocked collect now] show ?thesis
    by (auto simp: in_retention_def split: option.split)
next
  case (OpDeliver w now)
  with assms deliver_pending_acc [of "w\<lparr>wenv := env\<rparr>" t i a cfg now] show ?thesis
    by (auto simp: in_retention_def split: option.split sum.split)
next
  case (OpPrune now)
  with assms have "now - days 45 \<le> t" by (simp add: in_retention_def)
  with assms(2) OpPrune show ?thesis
    by (auto simp: acc_inv_def accounted_prune) (simp add: queue_ok_def prune_def)
qed

interpretation bot: guarded_machine "bot_step env cfg" "acc_inv env t i" "in_retention t" for env cfg t i
  by unfold_locales (rule bot_step_acc)

text \<open>
  C2: A post the scan kept is never lost silently: whatever scans, deliveries and prunings follow
  in the next 45 days, it waits in the queue or carries a seen mark set since.
\<close>

theorem collected_never_lost:
  assumes "run_scheduled_scan w cfg None collect now a = Some b" "queue_ok (wenv w) (app_state a)"
    and "minutes 10 \<le> now - last_scan now (app_state a)"
    and "collect (scan_start cfg now (app_state a)) now = Collected us errs" "\<forall>u \<in> set us. sound_post u"
    and "u \<in> set (take (ceiling_of cfg) (fresh_posts (app_state a) us))"
    and "list_all (in_retention now) ops"
  shows "accounted (wenv w) now (upd_id u) (app_state (fold (bot_step (wenv w) cfg) ops b))"
proof -
  have unseen: "map_of (seen (app_state a)) (upd_id u) = None"
    using assms(6) by (auto simp: fresh_posts_set is_seen_map dest!: in_set_takeD)
  let ?kept = "take (ceiling_of cfg) (fresh_posts (app_state a) us)"
  let ?q = "queue_updates (wenv w) False ?kept (app_state a)"
  from assms(1,3,4) have b: "seen (app_state b) = seen (app_state a)" "pending_delivery (app_state b) = pending_delivery ?q"
    by (auto simp: run_scheduled_scan_def Let_def queue_updates_def split: if_splits)
  have "\<forall>u \<in> set ?kept. sound_post u" using assms(5) by (auto simp: fresh_posts_set dest!: in_set_takeD)
  then have "queue_ok (wenv w) ?q" using assms(2) queue_updates_ok by blast
  moreover have "upd_id u \<in> row_id (wenv w) ` set (pending_delivery ?q)"
    using queue_updates_rows [of "wenv w" False ?kept "app_state a"] assms(6) by auto
  ultimately have "acc_inv (wenv w) now (upd_id u) b"
    using b unseen by (simp add: acc_inv_def queue_ok_def accounted_def)
  then show ?thesis using bot.legal_run [OF assms(7)] by (simp add: acc_inv_def)
qed

text \<open>
  C17: A post is marked seen only when Telegram accepted it: a delivery run sets marks for accepted
  posts alone.
\<close>

theorem seen_only_when_accepted:
  assumes "deliver_pending w cfg now a = Some (Inr b)" "is_seen (app_state b) i" "\<not> is_seen (app_state a) i"
  shows "\<exists>g u. upd_id u = i \<and> (\<exists>d x m mid. fate w g u = Delivered d x m mid)"
proof -
  have "b \<noteq> a" using assms(2,3) by auto
  then obtain pending st' where pop: "pop_pending (wenv w) now (max 1 (max_auto_items cfg)) (app_state a) = Inr (pending, st')"
    "deliver_batches w now (batches pending) (a\<lparr>app_state := st'\<rparr>) = Some b"
    using assms(1) by (auto simp: deliver_pending_def Let_def split: if_splits sum.splits)
  from deliver_batches_marks [OF pop(2)] obtain J where J: "marks_only now (a\<lparr>app_state := st'\<rparr>) b J"
    "\<forall>i \<in> J. accepted_by w i" by blast
  have "seen st' = seen (app_state a)" using pop_pending_frame [OF pop(1)] by auto
  then have "i \<in> J" using J(1) assms(2,3) by (auto simp: marks_only_def is_seen_map split: if_splits)
  then obtain g u where "upd_id u = i" "was_delivered w g u" using J(2) by (auto simp: accepted_by_def)
  moreover from this(2) obtain d x m mid where "fate w g u = Delivered d x m mid"
    by (cases "fate w g u") (auto simp: was_delivered_def)
  ultimately show ?thesis by blast
qed

text \<open>
  The scan cursor advances only over a window that was collected without an error, that reaches
  back to the previous cursor unless the bot was down for longer than the lookback, and whose
  posts up to the ceiling are queued.
\<close>

theorem cursor_advances_after_complete_scan:
  assumes "run_scheduled_scan w cfg blocked collect now a = Some b"
    and "last_auto_run (app_state b) \<noteq> last_auto_run (app_state a)"
    and "last_auto_run (app_state a) = isoformat t" "valid_instant t"
    and "now - t \<le> hours (max 2 (scheduled_lookback_hours cfg))"
  shows "\<exists>start us. collect start now = Collected us [] \<and> start \<le> t \<and>
    last_auto_run (app_state b) = isoformat now \<and>
    upd_id ` set (take (ceiling_of cfg) (fresh_posts (app_state a) us))
      \<subseteq> row_id (wenv w) ` set (pending_delivery (app_state b))"
  using assms(1)
proof (cases rule: scan_cases)
  case (got us errs kept)
  have errs: "errs = []" using got(5) assms(2) by (auto split: if_splits)
  have "last_scan now (app_state a) = t"
    using assms(3,4) by (simp add: last_scan_def parse_state_datetime_def fromisoformat_isoformat as_utc_def)
  then have "scan_start cfg now (app_state a) \<le> t"
    using assms(5) by (simp add: scan_start_def minutes_def us_per_s_def)
  moreover have "upd_id ` set kept \<subseteq> row_id (wenv w) ` set (pending_delivery (app_state b))"
    unfolding got(4) queue_updates_rows by blast
  ultimately show ?thesis using got(1,2,5) errs
    by (intro exI [of _ "scan_start cfg now (app_state a)"] exI [of _ us]) simp
qed (use assms(2) in auto)

text \<open>
  What lies beyond the collection ceiling is lost: the cursor advances although a fresh post was
  neither queued nor marked seen.
\<close>

theorem beyond_ceiling_lost:
  assumes "run_scheduled_scan w cfg None collect now a = Some b"
    and "minutes 10 \<le> now - last_scan now (app_state a)"
    and "collect (scan_start cfg now (app_state a)) now = Collected us []"
    and "u \<in> set us" "\<not> is_seen (app_state a) (upd_id u)"
    and "upd_id u \<notin> row_id (wenv w) ` set (pending_delivery (app_state a))"
    and "upd_id u \<notin> upd_id ` set (take (ceiling_of cfg) (fresh_posts (app_state a) us))"
  shows "last_auto_run (app_state b) = isoformat now \<and> \<not> is_seen (app_state b) (upd_id u) \<and>
    upd_id u \<notin> row_id (wenv w) ` set (pending_delivery (app_state b))"
proof -
  let ?kept = "take (ceiling_of cfg) (fresh_posts (app_state a) us)"
  from assms(1-3) have b: "seen (app_state b) = seen (app_state a)" "last_auto_run (app_state b) = isoformat now"
    "pending_delivery (app_state b) = pending_delivery (queue_updates (wenv w) False ?kept (app_state a))"
    by (auto simp: run_scheduled_scan_def Let_def queue_updates_def split: if_splits)
  show ?thesis
    using assms(5-7) b queue_updates_rows [of "wenv w" False ?kept "app_state a"]
    by (simp add: is_seen_map)
qed

section \<open>Examples\<close>

definition demo_world :: delivery_world where
  "demo_world = \<lparr>wenv = demo_env, wsha1 = id, wlabel = id, announced = True, writer_fails = (\<lambda>g. False),
     fate = (\<lambda>g u. Delivered ''d'' ''t'' ''default'' 7), quota_limited = False\<rparr>"

definition demo_app :: app where
  "demo_app = \<lparr>app_state = fresh_state\<lparr>last_auto_run := isoformat 0\<rparr>, notices = []\<rparr>"

definition demo_runtime :: runtime where
  "demo_runtime = \<lparr>scheduled_lookback_hours = 24, max_collection_items = 1, max_auto_items = 10\<rparr>"

definition demo_now :: instant where "demo_now = hours 3"

definition demo_collect :: "instant \<Rightarrow> instant \<Rightarrow> collected" where
  "demo_collect start now = Collected [demo_post ''2'' ''hello'' 10 ''9'', demo_post ''3'' ''still live'' 20 ''3''] []"

lemma demo_last_scan: "last_scan demo_now (app_state demo_app) = 0"
  by (simp add: last_scan_def parse_state_datetime_def demo_app_def fromisoformat_isoformat as_utc_def
      valid_instant_def us_per_day_def)

lemma demo_kept:
  "take (ceiling_of demo_runtime) (fresh_posts (app_state demo_app)
     [demo_post ''2'' ''hello'' 10 ''9'', demo_post ''3'' ''still live'' 20 ''3'']) = [demo_post ''2'' ''hello'' 10 ''9'']"
  by (simp add: ceiling_of_def demo_runtime_def fresh_posts_def is_seen_def demo_app_def fresh_state_def demo_post_def)

lemma demo_due: "minutes 10 \<le> demo_now - last_scan demo_now (app_state demo_app)"
  unfolding demo_last_scan by (simp add: demo_now_def hours_def minutes_def us_per_s_def)

lemma demo_scan:
  "\<exists>b. run_scheduled_scan demo_world demo_runtime None demo_collect demo_now demo_app = Some b \<and>
    last_auto_run (app_state b) = isoformat demo_now"
proof -
  have "organizable (demo_post ''2'' ''hello'' 10 ''9'')" by (simp add: demo_post_def organizable_def)
  then have "\<exists>gs. organize_updates id id [demo_post ''2'' ''hello'' 10 ''9''] = Some gs"
    by (simp add: organize_updates_def)
  then show ?thesis using demo_due demo_kept
    by (auto simp: run_scheduled_scan_def Let_def demo_collect_def) (auto simp: demo_world_def)
qed

definition demo_scanned :: app where
  "demo_scanned = the (run_scheduled_scan demo_world demo_runtime None demo_collect demo_now demo_app)"

lemma demo_scanned: "run_scheduled_scan demo_world demo_runtime None demo_collect demo_now demo_app = Some demo_scanned"
  using demo_scan by (auto simp: demo_scanned_def)

lemma demo_sound: "sound_post (demo_post ''2'' ''hello'' 10 ''9'')" "sound_post (demo_post ''3'' ''still live'' 20 ''3'')"
  by (simp_all add: sound_post_def demo_post_def wf_update_def reloadable_def py_strip_def py_space_def
      py_lstrip_at_def valid_instant_def us_per_day_def)

theorem collected_never_lost_witness:
  "accounted demo_env demo_now ''2''
     (app_state (fold (bot_step demo_env demo_runtime) [OpDeliver demo_world demo_now, OpPrune (demo_now + days 40)] demo_scanned))"
proof -
  have times: "valid_instant demo_now" "valid_instant (demo_now + days 40)" "demo_now \<le> demo_now + days 40"
    "days 40 \<le> days 45"
    by (simp_all add: demo_now_def hours_def days_def valid_instant_def us_per_day_def us_per_s_def)
  let ?p = "demo_post ''2'' ''hello'' 10 ''9''"
  have ops: "list_all (in_retention demo_now) [OpDeliver demo_world demo_now, OpPrune (demo_now + days 40)]"
    using times by (simp add: in_retention_def)
  have "queue_ok (wenv demo_world) (app_state demo_app)"
    by (simp add: queue_ok_def demo_app_def fresh_state_def)
  from collected_never_lost [OF demo_scanned this demo_due demo_collect_def _ _ ops, of ?p] demo_sound demo_kept
  have "accounted (wenv demo_world) demo_now (upd_id ?p)
     (app_state (fold (bot_step (wenv demo_world) demo_runtime)
        [OpDeliver demo_world demo_now, OpPrune (demo_now + days 40)] demo_scanned))"
    by simp
  then show ?thesis by (simp add: demo_world_def demo_post_def)
qed

text \<open>One queued post is delivered.\<close>

definition demo_queued :: app where
  "demo_queued = demo_app\<lparr>app_state := (app_state demo_app)
     \<lparr>pending_delivery := [queue_item False (demo_post ''2'' ''hello'' 10 ''9'')]\<rparr>\<rparr>"

lemma demo_popped:
  "pop_pending demo_env demo_now 10 (app_state demo_queued) =
     Inr ([(demo_post ''2'' ''hello'' 10 ''9'', False)], app_state demo_queued)"
proof -
  have "\<not> skips demo_env (app_state demo_queued) item" for item
    by (simp add: skips_def is_seen_def demo_queued_def demo_app_def fresh_state_def Let_def)
  with demo_sound(1) show ?thesis
    by (simp add: pop_pending_def demo_queued_def demo_app_def sound_post_def decode_queue_item bindE_def)
qed

lemma demo_delivers:
  "\<exists>b. deliver_pending demo_world demo_runtime demo_now demo_queued = Some (Inr b) \<and> is_seen (app_state b) ''2''"
proof -
  let ?p = "demo_post ''2'' ''hello'' 10 ''9''"
  have fresh: "\<not> is_seen (app_state demo_queued) (upd_id ?p)"
    by (simp add: is_seen_def demo_queued_def demo_app_def fresh_state_def)
  obtain gs where gs: "organize_updates id id [?p] = Some gs"
    by (auto simp: organize_updates_def demo_post_def organizable_def)
  obtain c d f where run: "fold (deliver_group demo_world demo_now) gs (demo_queued, 0, 0) = (c, d, f)"
    by (cases "fold (deliver_group demo_world demo_now) gs (demo_queued, 0, 0)")
  have "prepare id id ?p \<in> set (clean_of id id [?p])" by (simp add: clean_of_def deduplicate_def)
  from organized_group(2) [OF gs this] obtain g where "g \<in> set gs" "''2'' \<in> upd_id ` set (updates g)"
    by (auto simp: demo_post_def)
  then have "''2'' \<in> delivered_ids demo_world gs"
    by (auto simp: delivered_ids_def demo_world_def was_delivered_def)
  then have "is_seen (app_state c) ''2''"
    using deliver_groups_marks [of demo_now "(demo_queued, 0, 0)" demo_world gs] run
    by (simp add: marks_only_def is_seen_map)
  then show ?thesis
    using fresh gs run demo_popped
    by (auto simp: deliver_pending_def demo_runtime_def demo_world_def deliver_batch_def deliver_updates_def Let_def
        recently_def parse_state_datetime_def demo_queued_def demo_app_def fresh_state_def is_seen_map)
qed

theorem seen_only_when_accepted_witness:
  "\<exists>g u. upd_id u = ''2'' \<and> (\<exists>d x m mid. fate demo_world g u = Delivered d x m mid)"
proof -
  obtain b where b: "deliver_pending demo_world demo_runtime demo_now demo_queued = Some (Inr b)" "is_seen (app_state b) ''2''"
    using demo_delivers by blast
  have "\<not> is_seen (app_state demo_queued) ''2''"
    by (simp add: is_seen_def demo_queued_def demo_app_def fresh_state_def)
  from seen_only_when_accepted [OF b this] show ?thesis .
qed

theorem cursor_advances_after_complete_scan_witness:
  "\<exists>start us. demo_collect start demo_now = Collected us [] \<and> start \<le> 0 \<and>
    last_auto_run (app_state demo_scanned) = isoformat demo_now \<and>
    upd_id ` set (take (ceiling_of demo_runtime) (fresh_posts (app_state demo_app) us))
      \<subseteq> row_id (wenv demo_world) ` set (pending_delivery (app_state demo_scanned))"
proof (rule cursor_advances_after_complete_scan [OF demo_scanned])
  have "last_auto_run (app_state demo_scanned) = isoformat demo_now"
    using demo_scan demo_scanned by auto
  moreover have "isoformat demo_now \<noteq> isoformat 0"
    using fromisoformat_isoformat [of demo_now] fromisoformat_isoformat [of 0]
    by (auto simp: demo_now_def hours_def us_per_s_def valid_instant_def us_per_day_def)
  ultimately show "last_auto_run (app_state demo_scanned) \<noteq> last_auto_run (app_state demo_app)"
    by (simp add: demo_app_def)
qed (simp_all add: demo_app_def demo_now_def demo_runtime_def hours_def us_per_s_def valid_instant_def us_per_day_def)

theorem beyond_ceiling_lost_witness:
  "last_auto_run (app_state demo_scanned) = isoformat demo_now \<and> \<not> is_seen (app_state demo_scanned) ''3'' \<and>
    ''3'' \<notin> row_id (wenv demo_world) ` set (pending_delivery (app_state demo_scanned))"
proof -
  let ?p = "demo_post ''3'' ''still live'' 20 ''3''"
  have "upd_id ?p = ''3''" by (simp add: demo_post_def)
  moreover have "upd_id ?p \<notin> upd_id ` set (take (ceiling_of demo_runtime) (fresh_posts (app_state demo_app)
     [demo_post ''2'' ''hello'' 10 ''9'', ?p]))"
    unfolding demo_kept by (simp add: demo_post_def)
  moreover have "\<not> is_seen (app_state demo_app) (upd_id ?p)" "pending_delivery (app_state demo_app) = []"
    by (simp_all add: is_seen_def demo_app_def fresh_state_def)
  ultimately show ?thesis
    using beyond_ceiling_lost [OF demo_scanned demo_due demo_collect_def, of ?p] by simp
qed

end
