(* ===== verification/Checkpoints.thy ===== *)
theory Checkpoints
  imports Organizer
begin

text \<open>
  Retrieval checkpoints of \<open>app/x_resumable_recovery_runtime.py\<close> with the hardened validation of
  \<open>app/x_recovery_integrity_runtime.py\<close> that replaces \<open>_sanitize_checkpoint\<close> and \<open>_update_dicts\<close> at
  import time, and \<open>normalize_handle\<close> of \<open>app/x_client.py\<close>. The store is the dict
  \<open>x_retrieval_checkpoints\<close> of the state document; SHA-256 is an argument.
\<close>

section \<open>Handles\<close>

definition handle_char :: "char \<Rightarrow> bool" where
  "handle_char c \<longleftrightarrow> is_digit c \<or> (CHR ''a'' \<le> c \<and> c \<le> CHR ''z'') \<or> (CHR ''A'' \<le> c \<and> c \<le> CHR ''Z'') \<or> c = CHR ''_''"

definition is_handle :: "pystr \<Rightarrow> bool" where
  "is_handle s \<longleftrightarrow> s \<noteq> [] \<and> length s \<le> 15 \<and> list_all handle_char s"

text \<open>A profile link at the head of the text: the run of handle characters behind the domain.\<close>

definition domain_length :: "pystr \<Rightarrow> nat" where
  "domain_length s =
     (if starts_with ''x.com/'' (py_lower s) then 6 else if starts_with ''twitter.com/'' (py_lower s) then 12 else 0)"

definition link_here :: "pystr \<Rightarrow> pystr option" where
  "link_here s =
     (let n = domain_length s;
          h = takeWhile handle_char (drop n s);
          r = drop (n + length h) s
      in if 0 < n \<and> is_handle h \<and> (case r of [] \<Rightarrow> True | c # _ \<Rightarrow> c \<in> set ''/?#'') then Some h else None)"

fun link_handle :: "pystr \<Rightarrow> pystr option" where
  "link_handle [] = None"
| "link_handle (c # s) = (case link_here (c # s) of Some h \<Rightarrow> Some h | None \<Rightarrow> link_handle s)"

definition strip_slashes :: "pystr \<Rightarrow> pystr" where
  "strip_slashes s =
     (let edge = (\<lambda>c. c = CHR ''/'' \<or> c = CHR '' '') in rev (dropWhile edge (rev (dropWhile edge s))))"

definition normalize_handle :: "pystr \<Rightarrow> pystr" where
  "normalize_handle s =
     (let v = py_strip s;
          h = (case link_handle v of Some h \<Rightarrow> h
               | None \<Rightarrow> strip_slashes (takeWhile (\<lambda>c. c \<noteq> CHR ''?'') (py_lstrip_at v)))
      in if is_handle h then h else [])"

section \<open>Checkpoints\<close>

record checkpoint =
  checkpoint_id :: pystr
  ck_source :: pystr
  ck_replies :: bool
  window_start :: instant
  segment_start :: instant
  segment_end :: instant
  next_cursor :: "pystr option"
  pages_completed :: int
  raw_seen :: int
  ck_retries :: int
  ck_updates :: "update list"
  ck_updated :: instant

definition checkpoint_key :: "(pystr \<Rightarrow> pystr) \<Rightarrow> pystr \<Rightarrow> instant \<Rightarrow> bool \<Rightarrow> pystr" where
  "checkpoint_key sha handle start replies =
     take 20 (sha (py_casefold (normalize_handle handle) @ ''|'' @ isoformat start @ ''|'' @ (if replies then ''1'' else ''0'')))"

definition checkpoint_json :: "checkpoint \<Rightarrow> json" where
  "checkpoint_json c = JObj
     [(''version'', JInt 1), (''checkpoint_id'', JStr (checkpoint_id c)), (''source'', JStr (ck_source c)),
      (''include_replies'', JBool (ck_replies c)), (''window_start'', JStr (isoformat (window_start c))),
      (''segment_start'', JStr (isoformat (segment_start c))), (''segment_end'', JStr (isoformat (segment_end c))),
      (''next_cursor'', case next_cursor c of None \<Rightarrow> JNull | Some x \<Rightarrow> JStr x),
      (''pages_completed'', JInt (pages_completed c)), (''raw_seen'', JInt (raw_seen c)),
      (''retry_count'', JInt (ck_retries c)),
      (''updates'', JList (map (JObj \<circ> update_to_dict) (ck_updates c))),
      (''updated_at'', JStr (isoformat (ck_updated c)))]"

text \<open>\<open>_dedupe_updates\<close>: the last post of an id wins; posts without an id are dropped.\<close>

definition chosen_posts :: "update list \<Rightarrow> (pystr \<times> update) list" where
  "chosen_posts us = fold (\<lambda>u al. if upd_id u = [] then al else AList.update (upd_id u) u al) us []"

definition dedupe_updates :: "update list \<Rightarrow> update list" where
  "dedupe_updates us = sort_key (\<lambda>u. (created_at u, upd_id u)) (map snd (chosen_posts us))"

text \<open>The rows of a stored checkpoint: a row that is no post of the source rejects the checkpoint.\<close>

fun read_posts :: "pyenv \<Rightarrow> instant \<Rightarrow> pystr \<Rightarrow> json list \<Rightarrow> py_exc + update list option" where
  "read_posts env now source [] = Inr (Some [])"
| "read_posts env now source (v # vs) =
     (case v of
        JObj d \<Rightarrow>
          (case update_from_dict env now d of
             Inl e \<Rightarrow> if e \<in> {TypeError, ValueError} then Inr None else Inl e
           | Inr u \<Rightarrow>
               if py_casefold (author u) \<noteq> py_casefold source then Inr None
               else bindE (read_posts env now source vs) (\<lambda>r. Inr (map_option ((#) u) r)))
      | _ \<Rightarrow> Inr None)"

definition checkpoint_times :: "pystr list" where
  "checkpoint_times = [''window_start'', ''segment_start'', ''segment_end'', ''updated_at'']"

definition read_fields :: "pyenv \<Rightarrow> instant \<Rightarrow> pydict \<Rightarrow> py_exc + int \<times> checkpoint" where
  "read_fields env now d =
     bindE (py_int (dict_get d ''version'' (JInt 0))) (\<lambda>version.
     bindE (ensure_utc env now (dict_get d ''window_start'' JNull)) (\<lambda>ws.
     bindE (ensure_utc env now (dict_get d ''segment_start'' JNull)) (\<lambda>ss.
     bindE (ensure_utc env now (dict_get d ''segment_end'' JNull)) (\<lambda>se.
     bindE (ensure_utc env now (dict_get d ''updated_at'' JNull)) (\<lambda>at.
     bindE (int_or_zero (dict_get d ''pages_completed'' (JInt 0))) (\<lambda>pages.
     bindE (int_or_zero (dict_get d ''raw_seen'' (JInt 0))) (\<lambda>raw.
     bindE (int_or_zero (dict_get d ''retry_count'' (JInt 0))) (\<lambda>retries.
       Inr (version,
         \<lparr>checkpoint_id = take 40 (py_str (float_text env) (dict_get d ''checkpoint_id'' (JStr []))),
          ck_source = normalize_handle (py_str (float_text env) (dict_get d ''source'' (JStr []))),
          ck_replies = truthy (dict_get d ''include_replies'' (JBool True)),
          window_start = ws, segment_start = ss, segment_end = se, next_cursor = None,
          pages_completed = max 0 pages, raw_seen = max 0 raw, ck_retries = max 0 (min retries 1000),
          ck_updates = [], ck_updated = at\<rparr>)))))))))"

definition read_cursor :: "json \<Rightarrow> pystr option option" where
  "read_cursor v = (case v of
       JNull \<Rightarrow> Some None
     | JStr s \<Rightarrow> if 4096 < length s then None else Some (if s = [] then None else Some s)
     | _ \<Rightarrow> None)"

definition sanitize_checkpoint :: "(pystr \<Rightarrow> pystr) \<Rightarrow> pyenv \<Rightarrow> instant \<Rightarrow> json \<Rightarrow> py_exc + checkpoint option" where
  "sanitize_checkpoint sha env now v = (case v of
     JObj d \<Rightarrow>
       if \<not> list_all (\<lambda>k. case dict_get d k JNull of JStr s \<Rightarrow> py_strip s \<noteq> [] | _ \<Rightarrow> False) checkpoint_times then Inr None
       else (case read_fields env now d of
          Inl e \<Rightarrow> if e \<in> {TypeError, ValueError, OverflowError} then Inr None else Inl e
        | Inr (version, c) \<Rightarrow>
            if version \<noteq> 1 \<or> ck_source c = [] \<or> checkpoint_id c = [] \<or>
               \<not> (window_start c \<le> segment_start c \<and> segment_start c < segment_end c) then Inr None
            else if checkpoint_id c \<noteq> checkpoint_key sha (ck_source c) (window_start c) (ck_replies c) then Inr None
            else (case read_cursor (dict_get d ''next_cursor'' JNull) of
               None \<Rightarrow> Inr None
             | Some cursor \<Rightarrow>
                 (case dict_get d ''updates'' (JList []) of
                    JList items \<Rightarrow> bindE (read_posts env now (ck_source c) items) (\<lambda>r.
                      Inr (map_option (\<lambda>us. c\<lparr>next_cursor := cursor, ck_updates := dedupe_updates us\<rparr>) r))
                  | _ \<Rightarrow> Inr None)))
   | _ \<Rightarrow> Inr None)"

section \<open>The store\<close>

text \<open>The checkpoints of the dict that pass, in order; an exception of one row escapes.\<close>

fun sane_rows :: "(pystr \<Rightarrow> pystr) \<Rightarrow> pyenv \<Rightarrow> instant \<Rightarrow> json list \<Rightarrow> py_exc + checkpoint list" where
  "sane_rows sha env now [] = Inr []"
| "sane_rows sha env now (v # vs) =
     bindE (sanitize_checkpoint sha env now v) (\<lambda>c.
     bindE (sane_rows sha env now vs) (\<lambda>cs. Inr (case c of None \<Rightarrow> cs | Some x \<Rightarrow> x # cs)))"

definition keyed_rows :: "checkpoint list \<Rightarrow> pydict" where
  "keyed_rows cs = fold (\<lambda>c. AList.update (checkpoint_id c) (checkpoint_json c)) cs []"

text \<open>The pruning of \<open>save\<close>: the 48 checkpoints updated last.\<close>

definition row_stamp :: "pyenv \<Rightarrow> json \<Rightarrow> pystr" where
  "row_stamp env v = (case v of JObj d \<Rightarrow> py_str (float_text env) (dict_get d ''updated_at'' (JStr [])) | _ \<Rightarrow> [])"

definition prune_rows :: "(pystr \<Rightarrow> pystr) \<Rightarrow> pyenv \<Rightarrow> instant \<Rightarrow> pydict \<Rightarrow> py_exc + pydict" where
  "prune_rows sha env now store =
     bindE (sane_rows sha env now (map snd store)) (\<lambda>cs.
       Inr (take 48 (rev (sort_key (\<lambda>p. row_stamp env (snd p)) (rev (keyed_rows cs))))))"

definition save_checkpoint :: "(pystr \<Rightarrow> pystr) \<Rightarrow> pyenv \<Rightarrow> instant \<Rightarrow> json \<Rightarrow> pydict \<Rightarrow> py_exc + pydict" where
  "save_checkpoint sha env now v store =
     bindE (sanitize_checkpoint sha env now v) (\<lambda>c. case c of
       None \<Rightarrow> Inl ValueError
     | Some x \<Rightarrow> prune_rows sha env now (AList.update (checkpoint_id x) (checkpoint_json x) store))"

definition clear_checkpoint :: "(pystr \<Rightarrow> pystr) \<Rightarrow> pyenv \<Rightarrow> instant \<Rightarrow> pystr \<Rightarrow> pydict \<Rightarrow> py_exc + pydict" where
  "clear_checkpoint sha env now key store = prune_rows sha env now (AList.delete key store)"

text \<open>At load: the last 48 rows, in any order of keys.\<close>

definition load_checkpoints :: "(pystr \<Rightarrow> pystr) \<Rightarrow> pyenv \<Rightarrow> instant \<Rightarrow> json \<Rightarrow> py_exc + pydict" where
  "load_checkpoints sha env now v = (case v of
       JObj d \<Rightarrow> bindE (sane_rows sha env now (drop (length d - 48) (map snd d))) (\<lambda>cs. Inr (keyed_rows cs))
     | _ \<Rightarrow> Inr [])"

text \<open>
  \<open>get_x_retrieval_checkpoint\<close>: the candidate with the least window start, the exact one first.
  The code drops an older candidate that equals the exact one; keeping it changes nothing, since
  the first of the least is taken.
\<close>

fun least_window :: "checkpoint list \<Rightarrow> checkpoint option" where
  "least_window [] = None"
| "least_window (c # cs) = (case least_window cs of
       None \<Rightarrow> Some c
     | Some d \<Rightarrow> if window_start d < window_start c then Some d else Some c)"

definition get_checkpoint :: "(pystr \<Rightarrow> pystr) \<Rightarrow> pyenv \<Rightarrow> instant \<Rightarrow> pystr \<Rightarrow> instant \<Rightarrow> instant \<Rightarrow> bool \<Rightarrow> bool
    \<Rightarrow> pydict \<Rightarrow> py_exc + checkpoint option" where
  "get_checkpoint sha env now source start end replies allow_older store =
     (let key = py_casefold (normalize_handle source) in
      bindE (sanitize_checkpoint sha env now (dict_get store (checkpoint_key sha key start replies) JNull)) (\<lambda>exact.
      bindE (if allow_older then sane_rows sha env now (map snd store) else Inr []) (\<lambda>rows.
        let older = filter (\<lambda>c. py_casefold (ck_source c) = key \<and> ck_replies c = replies \<and> segment_end c \<le> end) rows
        in Inr (least_window ((case exact of None \<Rightarrow> [] | Some c \<Rightarrow> [c]) @ older)))))"

section \<open>Handles are normal forms\<close>

lemma lower_dot: "lower_char c = CHR ''.'' \<longleftrightarrow> c = CHR ''.''"
proof
  assume a: "lower_char c = CHR ''.''"
  show "c = CHR ''.''"
  proof (rule ccontr)
    assume "c \<noteq> CHR ''.''"
    with a have "lower_char c \<noteq> c" by metis
    then have "65 \<le> (of_char c :: nat)" "(of_char c :: nat) \<le> 222" "lower_char c = char_of ((of_char c :: nat) + 32)"
      by (auto simp: lower_char_def Let_def split: if_splits)
    with a have "(of_char (char_of ((of_char c :: nat) + 32) :: char) :: nat) = 46" by simp
    with \<open>65 \<le> of_char c\<close> \<open>of_char c \<le> 222\<close> show False by simp
  qed
qed (simp add: lower_char_def)

lemma handle_char_code:
  "handle_char c \<Longrightarrow> (48 \<le> (of_char c :: nat) \<and> (of_char c :: nat) \<le> 57) \<or> (65 \<le> (of_char c :: nat) \<and> (of_char c :: nat) \<le> 122)"
  by (auto simp: handle_char_def is_digit_def less_eq_char_def Let_def)

lemma handle_char_plain:
  assumes "handle_char c"
  shows "c \<noteq> CHR ''.''" "c \<noteq> CHR ''@''" "c \<noteq> CHR ''?''" "c \<noteq> CHR ''/''" "c \<noteq> CHR '' ''" "\<not> py_space c"
  using handle_char_code [OF assms] by (auto simp: py_space_def Let_def)

lemma starts_with_set: "starts_with w t \<Longrightarrow> set w \<subseteq> set t"
  unfolding starts_with_def using set_take_subset by metis

lemma no_domain:
  assumes "CHR ''.'' \<notin> set s"
  shows "domain_length s = 0"
proof -
  have "CHR ''.'' \<notin> set (py_lower s)"
  proof
    assume "CHR ''.'' \<in> set (py_lower s)"
    then obtain c where "c \<in> set s" "lower_char c = CHR ''.''" by (auto simp: py_lower_def)
    with assms lower_dot show False by simp
  qed
  then have "\<not> starts_with ''x.com/'' (py_lower s)" "\<not> starts_with ''twitter.com/'' (py_lower s)"
    by (auto dest: starts_with_set)
  then show ?thesis by (simp add: domain_length_def)
qed

lemma no_link: "CHR ''.'' \<notin> set s \<Longrightarrow> link_handle s = None"
  by (induction s rule: link_handle.induct) (simp_all add: link_here_def no_domain)

lemma strip_slashes_handle:
  assumes "list_all handle_char s"
  shows "strip_slashes s = s"
proof (cases "s = []")
  case False
  then have "handle_char (hd s)" "handle_char (last s)" using assms by (auto simp: list_all_iff)
  with handle_char_plain(4,5) have "\<not> (hd s = CHR ''/'' \<or> hd s = CHR '' '')" "\<not> (last s = CHR ''/'' \<or> last s = CHR '' '')"
    by blast+
  then show ?thesis by (simp add: strip_slashes_def dropWhile_fixed hd_rev Let_def)
qed (simp add: strip_slashes_def)

lemma normalize_is_handle: "is_handle h \<Longrightarrow> normalize_handle h = h"
proof -
  assume a: "is_handle h"
  then have chars: "\<And>c. c \<in> set h \<Longrightarrow> handle_char c" "h \<noteq> []" by (auto simp: is_handle_def list_all_iff)
  note plain = handle_char_plain [OF chars(1)]
  have "py_strip h = h" using plain(6) chars(2) by (intro py_strip_fixed) (auto simp: last_in_set)
  moreover have "py_lstrip_at h = h" unfolding py_lstrip_at_def
    using plain(2) chars(2) by (intro dropWhile_fixed) auto
  moreover have cut: "takeWhile (\<lambda>c. c \<noteq> CHR ''?'') h = h"
    unfolding takeWhile_eq_all_conv using plain(3) by blast
  moreover have "link_handle h = None" using plain(1) by (intro no_link) auto
  moreover have "strip_slashes h = h" using a by (intro strip_slashes_handle) (simp add: is_handle_def)
  ultimately show ?thesis using a unfolding normalize_handle_def by (simp add: Let_def del: takeWhile_eq_all_conv)
qed

lemma normalize_cases: "normalize_handle s = [] \<or> is_handle (normalize_handle s)"
  by (simp add: normalize_handle_def Let_def)

lemma normalize_idem [simp]: "normalize_handle (normalize_handle s) = normalize_handle s"
proof (cases "normalize_handle s = []")
  case True
  moreover have "normalize_handle [] = []" by (simp add: normalize_handle_def is_handle_def py_lstrip_at_def strip_slashes_def)
  ultimately show ?thesis by simp
qed (use normalize_cases normalize_is_handle in blast)

lemma casefold_handle:
  assumes "is_handle h"
  shows "py_casefold h = map lower_char h" "is_handle (py_casefold h)" "py_casefold (py_casefold h) = py_casefold h"
proof -
  have chars: "\<And>c. c \<in> set h \<Longrightarrow> handle_char c" using assms by (auto simp: is_handle_def list_all_iff)
  have plain: "concat (map (\<lambda>c. if (of_char c :: nat) = 223 then ''ss'' else [lower_char c]) s) = map lower_char s"
    if "\<And>c. c \<in> set s \<Longrightarrow> handle_char c" for s
    using that handle_char_code by (induction s) fastforce+
  show fold_eq: "py_casefold h = map lower_char h" using plain chars by (simp add: py_casefold_def)
  have low: "handle_char c \<Longrightarrow> handle_char (lower_char c)" for c
    by (auto simp: handle_char_def is_digit_def less_eq_char_def lower_char_def Let_def)
  then show "is_handle (py_casefold h)" using assms by (auto simp: fold_eq is_handle_def list_all_iff)
  have "py_casefold (map lower_char h) = map lower_char (map lower_char h)"
    unfolding py_casefold_def by (rule plain) (use low chars in auto)
  then show "py_casefold (py_casefold h) = py_casefold h" unfolding fold_eq by (simp add: comp_def)
qed

lemma checkpoint_key_casefold:
  "is_handle h \<Longrightarrow> checkpoint_key sha (py_casefold h) t r = checkpoint_key sha h t r"
  using normalize_is_handle [OF casefold_handle(2)] normalize_is_handle casefold_handle(3)
  by (simp add: checkpoint_key_def)

section \<open>Deduplication\<close>

lemma update_rows: "set (AList.update k v al) \<subseteq> insert (k, v) (set al)"
  by (induction al) auto

lemma chosen_posts_step:
  "chosen_posts (us @ [u]) = (if upd_id u = [] then chosen_posts us else AList.update (upd_id u) u (chosen_posts us))"
  by (simp add: chosen_posts_def)

lemma chosen_posts_keys:
  "fst ` set (chosen_posts us) = upd_id ` set us - {[]}" "\<forall>(k, u) \<in> set (chosen_posts us). k = upd_id u \<and> u \<in> set us"
  "distinct (map fst (chosen_posts us))"
proof (induction us rule: rev_induct)
  case Nil
  case 1 show ?case by (simp add: chosen_posts_def)
  case 2 show ?case by (simp add: chosen_posts_def)
  case 3 show ?case by (simp add: chosen_posts_def)
next
  case (snoc u us)
  case 1 show ?case using snoc(1) by (auto simp: chosen_posts_step dom_update)
  case 2 show ?case using snoc(2) update_rows [of "upd_id u" u "chosen_posts us"]
    by (auto simp: chosen_posts_step)
  case 3 show ?case using snoc(3) by (simp add: chosen_posts_step distinct_update)
qed

lemma dedupe_posts: "set (dedupe_updates us) \<subseteq> set us" "upd_id ` set (dedupe_updates us) = upd_id ` set us - {[]}"
proof -
  show "set (dedupe_updates us) \<subseteq> set us" using chosen_posts_keys(2) by (fastforce simp: dedupe_updates_def)
  have "upd_id ` snd ` set (chosen_posts us) = fst ` set (chosen_posts us)"
    using chosen_posts_keys(2) [of us] by (force simp: image_iff)
  then show "upd_id ` set (dedupe_updates us) = upd_id ` set us - {[]}"
    by (simp add: dedupe_updates_def chosen_posts_keys(1))
qed

section \<open>A stored checkpoint is read back\<close>

definition post_of :: "pystr \<Rightarrow> update \<Rightarrow> bool" where
  "post_of source u \<longleftrightarrow> sound_post u \<and> py_casefold (author u) = py_casefold source"

definition storable :: "(pystr \<Rightarrow> pystr) \<Rightarrow> checkpoint \<Rightarrow> bool" where
  "storable sha c \<longleftrightarrow> is_handle (ck_source c) \<and>
     checkpoint_id c = checkpoint_key sha (ck_source c) (window_start c) (ck_replies c) \<and>
     checkpoint_key sha (ck_source c) (window_start c) (ck_replies c) \<noteq> [] \<and>
     window_start c \<le> segment_start c \<and> segment_start c < segment_end c \<and>
     valid_instant (window_start c) \<and> valid_instant (segment_start c) \<and> valid_instant (segment_end c) \<and>
     valid_instant (ck_updated c) \<and>
     (\<forall>x. next_cursor c = Some x \<longrightarrow> x \<noteq> [] \<and> length x \<le> 4096) \<and>
     0 \<le> pages_completed c \<and> 0 \<le> raw_seen c \<and> 0 \<le> ck_retries c \<and>
     list_all (post_of (ck_source c)) (ck_updates c)"

text \<open>What the validation makes of a checkpoint.\<close>

definition tidy :: "checkpoint \<Rightarrow> checkpoint" where
  "tidy c = c\<lparr>ck_retries := min (ck_retries c) 1000, ck_updates := dedupe_updates (ck_updates c)\<rparr>"

lemma tidy_fields [simp]:
  "checkpoint_id (tidy c) = checkpoint_id c" "ck_source (tidy c) = ck_source c" "ck_replies (tidy c) = ck_replies c"
  "window_start (tidy c) = window_start c" "segment_start (tidy c) = segment_start c" "segment_end (tidy c) = segment_end c"
  "next_cursor (tidy c) = next_cursor c" "pages_completed (tidy c) = pages_completed c" "raw_seen (tidy c) = raw_seen c"
  "ck_updates (tidy c) = dedupe_updates (ck_updates c)" "ck_updated (tidy c) = ck_updated c"
  by (simp_all add: tidy_def)

lemma read_posts_back:
  "list_all (post_of source) us \<Longrightarrow> read_posts env now source (map (JObj \<circ> update_to_dict) us) = Inr (Some us)"
  by (induction us) (simp_all add: post_of_def sound_round_trip)

lemma checkpoint_fields:
  assumes "checkpoint_json c = JObj d"
  shows "dict_get d ''version'' v = JInt 1" "dict_get d ''checkpoint_id'' v = JStr (checkpoint_id c)"
    "dict_get d ''source'' v = JStr (ck_source c)" "dict_get d ''include_replies'' v = JBool (ck_replies c)"
    "dict_get d ''window_start'' v = JStr (isoformat (window_start c))"
    "dict_get d ''segment_start'' v = JStr (isoformat (segment_start c))"
    "dict_get d ''segment_end'' v = JStr (isoformat (segment_end c))"
    "dict_get d ''next_cursor'' v = (case next_cursor c of None \<Rightarrow> JNull | Some x \<Rightarrow> JStr x)"
    "dict_get d ''pages_completed'' v = JInt (pages_completed c)" "dict_get d ''raw_seen'' v = JInt (raw_seen c)"
    "dict_get d ''retry_count'' v = JInt (ck_retries c)"
    "dict_get d ''updates'' v = JList (map (JObj \<circ> update_to_dict) (ck_updates c))"
    "dict_get d ''updated_at'' v = JStr (isoformat (ck_updated c))"
  using assms by (auto simp: checkpoint_json_def dict_get_def)

lemma read_fields_back:
  assumes "storable sha c" "checkpoint_json c = JObj d"
  shows "read_fields env now d = Inr (1, c\<lparr>ck_retries := min (ck_retries c) 1000, next_cursor := None, ck_updates := []\<rparr>)"
proof -
  have t: "ensure_utc env now (dict_get d ''window_start'' JNull) = Inr (window_start c)"
    "ensure_utc env now (dict_get d ''segment_start'' JNull) = Inr (segment_start c)"
    "ensure_utc env now (dict_get d ''segment_end'' JNull) = Inr (segment_end c)"
    "ensure_utc env now (dict_get d ''updated_at'' JNull) = Inr (ck_updated c)"
    using assms by (simp_all add: checkpoint_fields storable_def ensure_utc_stamp)
  have n: "int_or_zero (JInt i) = Inr i" for i by (simp add: int_or_zero_def)
  have "length (checkpoint_id c) \<le> 40" using assms(1) by (simp add: storable_def checkpoint_key_def)
  with assms(1) show ?thesis
    unfolding read_fields_def t
    by (simp add: checkpoint_fields [OF assms(2)] n py_str_def storable_def normalize_is_handle)
qed

lemma sanitize_back:
  assumes "storable sha c"
  shows "sanitize_checkpoint sha env now (checkpoint_json c) =
    Inr (Some (tidy c))"
proof -
  obtain d where d: "checkpoint_json c = JObj d" by (simp add: checkpoint_json_def)
  note f = checkpoint_fields [OF d]
  have times: "list_all (\<lambda>k. case dict_get d k JNull of JStr s \<Rightarrow> py_strip s \<noteq> [] | _ \<Rightarrow> False) checkpoint_times"
    by (simp add: checkpoint_times_def f)
  have cur: "read_cursor (dict_get d ''next_cursor'' JNull) = Some (next_cursor c)"
    using assms by (cases "next_cursor c") (auto simp: f read_cursor_def storable_def)
  have posts: "read_posts env now (ck_source c) (map (JObj \<circ> update_to_dict) (ck_updates c)) = Inr (Some (ck_updates c))"
    using assms by (intro read_posts_back) (simp add: storable_def)
  have facts: "ck_source c \<noteq> []" "checkpoint_id c \<noteq> []" "window_start c \<le> segment_start c" "segment_start c < segment_end c"
    "checkpoint_key sha (ck_source c) (window_start c) (ck_replies c) = checkpoint_id c"
    using assms by (auto simp: storable_def is_handle_def)
  have same: "c\<lparr>ck_retries := r, next_cursor := next_cursor c, ck_updates := us\<rparr> = c\<lparr>ck_retries := r, ck_updates := us\<rparr>" for r us
    by (cases c) simp
  show ?thesis
    unfolding sanitize_checkpoint_def d json.case read_fields_back [OF assms d] sum.case prod.case cur option.case
    using times facts by (simp add: f(12) posts same tidy_def)
qed

lemma chosen_posts_distinct:
  "distinct (map upd_id us) \<Longrightarrow> [] \<notin> upd_id ` set us \<Longrightarrow> chosen_posts us = map (\<lambda>u. (upd_id u, u)) us"
proof (induction us rule: rev_induct)
  case (snoc u us)
  have "AList.update k v al = al @ [(k, v)]" if "k \<notin> fst ` set al" for k v and al :: "(pystr \<times> update) list"
    using that by (induction al) auto
  with snoc show ?case by (auto simp: chosen_posts_step image_image)
qed (simp add: chosen_posts_def)

lemma dedupe_distinct: "distinct (map upd_id (dedupe_updates us))" "[] \<notin> upd_id ` set (dedupe_updates us)"
proof -
  have "map upd_id (map snd (chosen_posts us)) = map fst (chosen_posts us)"
    unfolding map_map using chosen_posts_keys(2) [of us] by (intro map_cong) auto
  then have "distinct (map upd_id (map snd (chosen_posts us)))" using chosen_posts_keys(3) by metis
  moreover have "mset (map upd_id (dedupe_updates us)) = mset (map upd_id (map snd (chosen_posts us)))"
    by (simp add: dedupe_updates_def multiset.map_comp)
  ultimately show "distinct (map upd_id (dedupe_updates us))" using mset_eq_imp_distinct_iff by blast
  show "[] \<notin> upd_id ` set (dedupe_updates us)" by (simp add: dedupe_posts(2))
qed

lemma dedupe_idem [simp]: "dedupe_updates (dedupe_updates us) = dedupe_updates us"
proof -
  let ?d = "dedupe_updates us"
  have "map snd (chosen_posts ?d) = ?d" by (simp add: chosen_posts_distinct dedupe_distinct comp_def)
  moreover have "sorted (map (\<lambda>u. (created_at u, upd_id u)) ?d)"
    unfolding dedupe_updates_def by (rule sorted_sort_key)
  ultimately show ?thesis unfolding dedupe_updates_def [of ?d] by (simp add: sort_key_id_if_sorted)
qed

lemma tidy_idem [simp]: "tidy (tidy c) = tidy c"
  by (simp add: tidy_def)

lemma storable_tidy: "storable sha c \<Longrightarrow> storable sha (tidy c)"
  using dedupe_posts(1) [of "ck_updates c"] by (auto simp: storable_def list_all_iff tidy_def)

text \<open>
  A valid checkpoint survives the disk: what is saved is validated and read back as it was,
  with its posts deduplicated and in order, and a second round changes nothing.
\<close>

theorem checkpoint_round_trip:
  assumes "storable sha c"
  shows "\<exists>d. sanitize_checkpoint sha env now (checkpoint_json c) = Inr (Some d) \<and>
    d = c\<lparr>ck_retries := min (ck_retries c) 1000, ck_updates := dedupe_updates (ck_updates c)\<rparr> \<and>
    sanitize_checkpoint sha env then_now (checkpoint_json d) = Inr (Some d)"
  using sanitize_back [OF assms] sanitize_back [OF storable_tidy [OF assms]] by (simp add: tidy_def)

lemma read_posts_of_source:
  "read_posts env now source vs = Inr (Some us) \<Longrightarrow> \<forall>u \<in> set us. py_casefold (author u) = py_casefold source"
  by (induction vs arbitrary: us) (auto simp: bindE_Inr split: json.splits sum.splits if_splits)

lemma read_fields_typed:
  assumes "read_fields env now d = Inr (v, c)"
  shows "ck_source c = [] \<or> is_handle (ck_source c)" "0 \<le> pages_completed c" "0 \<le> raw_seen c"
    "0 \<le> ck_retries c \<and> ck_retries c \<le> 1000"
  using assms normalize_cases [of "py_str (float_text env) (dict_get d ''source'' (JStr []))"]
  by (auto simp: read_fields_def bindE_Inr)

text \<open>
  C24: Validation fails closed: whatever JSON is read, an accepted checkpoint has a proper handle, the
  key of its own window, ordered bounds, a usable cursor, counters that are no less than zero, and
  only posts of its source, each id once and in order of time.
\<close>

theorem validated_checkpoint:
  assumes "sanitize_checkpoint sha env now v = Inr (Some c)"
  shows "is_handle (ck_source c) \<and> checkpoint_id c = checkpoint_key sha (ck_source c) (window_start c) (ck_replies c) \<and>
    window_start c \<le> segment_start c \<and> segment_start c < segment_end c \<and>
    (\<forall>x. next_cursor c = Some x \<longrightarrow> x \<noteq> [] \<and> length x \<le> 4096) \<and>
    0 \<le> pages_completed c \<and> 0 \<le> raw_seen c \<and> 0 \<le> ck_retries c \<and> ck_retries c \<le> 1000 \<and>
    (\<forall>u \<in> set (ck_updates c). py_casefold (author u) = py_casefold (ck_source c) \<and> upd_id u \<noteq> []) \<and>
    distinct (map upd_id (ck_updates c)) \<and> sorted (map (\<lambda>u. (created_at u, upd_id u)) (ck_updates c))"
proof -
  from assms obtain d b cur us items where v: "v = JObj d" "read_fields env now d = Inr (1, b)"
    "ck_source b \<noteq> []" "window_start b \<le> segment_start b" "segment_start b < segment_end b"
    "checkpoint_id b = checkpoint_key sha (ck_source b) (window_start b) (ck_replies b)"
    "read_cursor (dict_get d ''next_cursor'' JNull) = Some cur" "read_posts env now (ck_source b) items = Inr (Some us)"
    "c = b\<lparr>next_cursor := cur, ck_updates := dedupe_updates us\<rparr>"
    by (auto simp: sanitize_checkpoint_def bindE_Inr split: json.splits sum.splits if_splits option.splits)
  have "\<forall>x. cur = Some x \<longrightarrow> x \<noteq> [] \<and> length x \<le> 4096"
    using v(7) by (auto simp: read_cursor_def split: json.splits if_splits)
  moreover have "\<forall>u \<in> set (dedupe_updates us). py_casefold (author u) = py_casefold (ck_source b) \<and> upd_id u \<noteq> []"
    using read_posts_of_source [OF v(8)] dedupe_posts(1) [of us] dedupe_distinct(2) [of us] by (force simp: image_iff)
  moreover have "sorted (map (\<lambda>u. (created_at u, upd_id u)) (dedupe_updates us))"
    unfolding dedupe_updates_def by (rule sorted_sort_key)
  ultimately show ?thesis using v read_fields_typed [OF v(2)] dedupe_distinct(1) by simp
qed

section \<open>What a store keeps of its checkpoints\<close>

definition store_rows :: "(pystr \<Rightarrow> pystr) \<Rightarrow> (checkpoint \<Rightarrow> bool) \<Rightarrow> pydict \<Rightarrow> bool" where
  "store_rows sha good store \<longleftrightarrow>
     (\<forall>(k, v) \<in> set store. \<exists>c. v = checkpoint_json c \<and> k = checkpoint_id c \<and> storable sha c \<and> good c)"

lemma store_rows_mono:
  "store_rows sha good store \<Longrightarrow> (\<And>c. storable sha c \<Longrightarrow> good c \<Longrightarrow> good' c) \<Longrightarrow> store_rows sha good' store"
  by (fastforce simp: store_rows_def)

text \<open>
  The contract of the store: a property of checkpoints that the validation does not disturb holds
  of everything that is ever read from the store, if it holds of everything saved.
\<close>

locale row_contract =
  fixes sha :: "pystr \<Rightarrow> pystr" and good :: "checkpoint \<Rightarrow> bool"
  assumes tidy_good: "storable sha c \<Longrightarrow> good c \<Longrightarrow> good (tidy c)"
begin

abbreviation rows :: "pydict \<Rightarrow> bool" where
  "rows \<equiv> store_rows sha good"

lemma rows_sane:
  "rows store \<Longrightarrow> \<exists>cs. sane_rows sha env now (map snd store) = Inr cs \<and> (\<forall>c \<in> set cs. storable sha c \<and> good c)"
proof (induction store)
  case (Cons r store)
  then obtain k c where r: "r = (k, checkpoint_json c)" "storable sha c" "good c" by (cases r) (auto simp: store_rows_def)
  from Cons obtain cs where "sane_rows sha env now (map snd store) = Inr cs" "\<forall>c \<in> set cs. storable sha c \<and> good c"
    by (auto simp: store_rows_def)
  with r sanitize_back storable_tidy tidy_good show ?case by auto
qed simp

lemma rows_keyed: "\<forall>c \<in> set cs. storable sha c \<and> good c \<Longrightarrow> rows store \<Longrightarrow>
    rows (fold (\<lambda>c. AList.update (checkpoint_id c) (checkpoint_json c)) cs store)"
proof (induction cs arbitrary: store)
  case (Cons c cs)
  then have "rows (AList.update (checkpoint_id c) (checkpoint_json c) store)"
    using update_rows [of "checkpoint_id c" "checkpoint_json c" store] by (fastforce simp: store_rows_def)
  with Cons show ?case by simp
qed simp

lemma rows_prune: "rows store \<Longrightarrow> \<exists>t. prune_rows sha env now store = Inr t \<and> rows t"
proof -
  assume "rows store"
  from rows_sane [OF this] obtain cs where cs: "sane_rows sha env now (map snd store) = Inr cs"
    "\<forall>c \<in> set cs. storable sha c \<and> good c" by blast
  then have "rows (keyed_rows cs)" using rows_keyed [OF cs(2), of "[]"] by (simp add: keyed_rows_def store_rows_def)
  then have "rows (take 48 (rev (sort_key (\<lambda>p. row_stamp env (snd p)) (rev (keyed_rows cs)))))"
    by (auto simp: store_rows_def dest!: in_set_takeD)
  with cs(1) show ?thesis by (simp add: prune_rows_def)
qed

lemma rows_save:
  assumes "rows store" "storable sha c" "good c"
  shows "\<exists>t. save_checkpoint sha env now (checkpoint_json c) store = Inr t \<and> rows t"
proof -
  have "rows (AList.update (checkpoint_id (tidy c)) (checkpoint_json (tidy c)) store)"
    using rows_keyed [of "[tidy c]" store] assms storable_tidy tidy_good by simp
  from rows_prune [OF this] show ?thesis by (simp add: save_checkpoint_def sanitize_back [OF assms(2)])
qed

lemma rows_clear: "rows store \<Longrightarrow> \<exists>t. clear_checkpoint sha env now k store = Inr t \<and> rows t"
proof -
  assume "rows store"
  moreover have "set (AList.delete k store) \<subseteq> set store" by (simp add: AList.delete_eq)
  ultimately have "rows (AList.delete k store)" by (auto simp: store_rows_def)
  then show ?thesis unfolding clear_checkpoint_def by (rule rows_prune)
qed

lemma rows_load: "rows store \<Longrightarrow> \<exists>t. load_checkpoints sha env now (JObj store) = Inr t \<and> rows t"
proof -
  assume "rows store"
  then have "rows (drop (length store - 48) store)" by (auto simp: store_rows_def dest!: in_set_dropD)
  from rows_sane [OF this, of env now] obtain cs where cs: "sane_rows sha env now (drop (length store - 48) (map snd store)) = Inr cs"
    "\<forall>c \<in> set cs. storable sha c \<and> good c"
    by (auto simp: drop_map)
  then have "rows (keyed_rows cs)" using rows_keyed [OF cs(2), of "[]"] by (simp add: keyed_rows_def store_rows_def)
  with cs(1) show ?thesis by (simp add: load_checkpoints_def)
qed

lemma rows_lookup:
  assumes "rows store"
  obtains "dict_get store k JNull = JNull"
  | c where "dict_get store k JNull = checkpoint_json c" "checkpoint_id c = k" "storable sha c" "good c"
  using assms by (cases "map_of store k") (auto simp: store_rows_def dict_get_def dest!: map_of_SomeD)

lemma least_window_none: "least_window cs = None \<longleftrightarrow> cs = []"
  by (cases cs) (auto split: option.splits)

lemma least_window_in: "least_window cs = Some c \<Longrightarrow> c \<in> set cs \<and> (\<forall>d \<in> set cs. window_start c \<le> window_start d)"
proof (induction cs arbitrary: c)
  case (Cons a cs)
  show ?case
  proof (cases "least_window cs")
    case None
    with Cons.prems show ?thesis by (simp add: least_window_none)
  next
    case (Some d)
    note ih = Cons.IH [OF this]
    show ?thesis
    proof (cases "window_start d < window_start a")
      case True
      with Cons.prems Some ih show ?thesis by simp
    next
      case False
      with Cons.prems Some have "c = a" by simp
      with False ih show ?thesis by (auto intro: order_trans)
    qed
  qed
qed simp

lemma rows_get:
  assumes "rows store"
  obtains "get_checkpoint sha env now source start till replies older store = Inr None"
  | c where "get_checkpoint sha env now source start till replies older store = Inr (Some c)" "storable sha c" "good c"
    "(py_casefold (ck_source c) = py_casefold (normalize_handle source) \<and> ck_replies c = replies) \<or>
     checkpoint_id c = checkpoint_key sha (py_casefold (normalize_handle source)) start replies"
proof -
  let ?key = "py_casefold (normalize_handle source)" and ?id = "checkpoint_key sha (py_casefold (normalize_handle source)) start replies"
  obtain exact where exact: "sanitize_checkpoint sha env now (dict_get store ?id JNull) = Inr exact"
    "\<forall>c. exact = Some c \<longrightarrow> storable sha c \<and> good c \<and> checkpoint_id c = ?id"
  proof (cases rule: rows_lookup [OF assms, of ?id])
    case 1
    then show thesis by (intro that [of None]) (simp_all add: sanitize_checkpoint_def)
  next
    case (2 c)
    then show thesis using sanitize_back storable_tidy tidy_good by (intro that [of "Some (tidy c)"]) auto
  qed
  obtain rs where rs: "(if older then sane_rows sha env now (map snd store) else Inr []) = Inr rs"
    "\<forall>c \<in> set rs. storable sha c \<and> good c"
    using rows_sane [OF assms, of env now] by (cases older) auto
  let ?cands = "(case exact of None \<Rightarrow> [] | Some c \<Rightarrow> [c]) @
    filter (\<lambda>c. py_casefold (ck_source c) = ?key \<and> ck_replies c = replies \<and> segment_end c \<le> till) rs"
  have get: "get_checkpoint sha env now source start till replies older store = Inr (least_window ?cands)"
    by (simp add: get_checkpoint_def exact(1) rs(1))
  show thesis
  proof (cases "least_window ?cands")
    case None
    with get that(1) show thesis by simp
  next
    case (Some c)
    from least_window_in [OF this] have "c \<in> set ?cands" by blast
    with exact(2) rs(2) have "storable sha c" "good c"
      "(py_casefold (ck_source c) = ?key \<and> ck_replies c = replies) \<or> checkpoint_id c = ?id"
      by (auto split: option.splits)
    with get Some that(2) show thesis by simp
  qed
qed

end

section \<open>Examples\<close>

definition plain_env :: pyenv where
  "plain_env = \<lparr>float_text = (\<lambda>_. ''0.5''), rfc_date = (\<lambda>_. None)\<rparr>"

definition demo_checkpoint :: checkpoint where
  "demo_checkpoint =
     \<lparr>checkpoint_id = checkpoint_key ((#) CHR ''k'') ''fan'' 20 True, ck_source = ''fan'', ck_replies = True,
      window_start = 20, segment_start = 20, segment_end = 50, next_cursor = None, pages_completed = 3, raw_seen = 7,
      ck_retries = 2, ck_updates = [], ck_updated = 50\<rparr>"

lemma demo_fan: "py_casefold ''fan'' = ''fan''" "is_handle ''fan''" "normalize_handle ''fan'' = ''fan''"
proof -
  show "py_casefold ''fan'' = ''fan''" "is_handle ''fan''" by code_simp+
  then show "normalize_handle ''fan'' = ''fan''" by (intro normalize_is_handle)
qed

lemma demo_small: "0 \<le> t \<Longrightarrow> t \<le> 100 \<Longrightarrow> valid_instant t"
  by (simp add: valid_instant_def us_per_day_def)

lemma demo_storable: "storable ((#) CHR ''k'') demo_checkpoint"
  by (simp add: storable_def demo_checkpoint_def demo_fan demo_small) (simp add: checkpoint_key_def)

lemma demo_tidy: "tidy demo_checkpoint = demo_checkpoint"
  by (simp add: tidy_def demo_checkpoint_def dedupe_updates_def chosen_posts_def)

theorem checkpoint_round_trip_witness:
  "sanitize_checkpoint ((#) CHR ''k'') plain_env 60 (checkpoint_json demo_checkpoint) = Inr (Some demo_checkpoint)"
  using checkpoint_round_trip [OF demo_storable, of plain_env 60 70] demo_tidy by (simp add: tidy_def)

theorem validated_checkpoint_witness:
  "is_handle (ck_source demo_checkpoint) \<and> segment_start demo_checkpoint < segment_end demo_checkpoint"
proof -
  have "sanitize_checkpoint ((#) CHR ''k'') plain_env 60 (checkpoint_json demo_checkpoint) = Inr (Some demo_checkpoint)"
    using sanitize_back [OF demo_storable] demo_tidy by simp
  from validated_checkpoint [OF this] show ?thesis by blast
qed

end
