(* ===== verification/Retrieval.thy ===== *)
theory Retrieval
  imports Checkpoints "HOL-Library.While_Combinator"
begin

text \<open>
  The resumable reading of one source timeline, \<open>_resumable_source_timeline\<close> of
  \<open>app/x_resumable_recovery_runtime.py\<close>, over the checkpoints of \<open>Checkpoints\<close>. What the provider
  answers to each request, how a tweet is converted, and what the public fallback returns are
  arguments; a provider may also let the process die. The page loop is a \<open>while_option\<close>, so that
  a run that never ends has the value \<open>None\<close>.
\<close>

section \<open>The provider\<close>

text \<open>\<open>converted\<close> is \<open>_convert_tweet\<close>; a cursor is never the empty text.\<close>

record tweet =
  converted :: "update option"
  retweeted :: bool

datatype provider_reply = Answer "tweet list" "pystr option" | Raises | Dies

record provider =
  profile :: "nat \<Rightarrow> bool"
  scoped_identity :: bool
  reply :: "nat \<Rightarrow> pystr option \<Rightarrow> provider_reply"
  public_feed :: "instant \<Rightarrow> instant \<Rightarrow> update list option"

text \<open>Three profile lookups, then the identity from an author-scoped search.\<close>

definition lookup_user :: "provider \<Rightarrow> bool" where
  "lookup_user p \<longleftrightarrow> list_ex (profile p) [0..<3] \<or> scoped_identity p"

text \<open>\<open>_fetch_page_with_retry\<close>: \<open>n\<close> counts the requests of the run.\<close>

fun fetch_page :: "provider \<Rightarrow> pystr option \<Rightarrow> nat \<Rightarrow> nat \<Rightarrow> provider_reply \<times> nat" where
  "fetch_page p cursor n 0 = (Raises, n)"
| "fetch_page p cursor n (Suc tries) =
     (case reply p n cursor of Raises \<Rightarrow> fetch_page p cursor (Suc n) tries | r \<Rightarrow> (r, Suc n))"

section \<open>Reading a page\<close>

definition own_post :: "pystr \<Rightarrow> tweet \<Rightarrow> update option" where
  "own_post handle t = (case converted t of
       None \<Rightarrow> None
     | Some u \<Rightarrow> if py_casefold (author u) = py_casefold handle then Some u else None)"

text \<open>Reads until a post lies before the segment: tweets read, boundary crossed, posts.\<close>

fun read_page :: "pystr \<Rightarrow> instant \<Rightarrow> instant \<Rightarrow> tweet list \<Rightarrow> update list \<Rightarrow> nat \<times> bool \<times> update list" where
  "read_page handle lo hi [] acc = (0, False, acc)"
| "read_page handle lo hi (t # ts) acc =
     (case own_post handle t of
        None \<Rightarrow> (case read_page handle lo hi ts acc of (n, crossed, us) \<Rightarrow> (Suc n, crossed, us))
      | Some u \<Rightarrow>
          if created_at u < lo then (1, True, acc)
          else (case read_page handle lo hi ts (if \<not> retweeted t \<and> created_at u < hi then acc @ [u] else acc) of
                  (n, crossed, us) \<Rightarrow> (Suc n, crossed, us)))"

section \<open>One run\<close>

datatype verdict =
    Complete "update list"
  | Incomplete
  | Unavailable
  | Escaped py_exc
  | Died

text \<open>How a run ends, what it leaves in the store, and the posts it remembers as partial.\<close>

record ending =
  verdict :: verdict
  left_store :: pydict
  partial :: "update list option"
  fallbacks_used :: nat

record request =
  sha :: "pystr \<Rightarrow> pystr"
  env :: pyenv
  clock :: instant
  configured :: "pystr list"
  handle :: pystr
  replies :: bool
  from_time :: instant
  until_time :: instant
  budget :: int
  allow_older :: bool
  fallbacks :: nat
  source_api :: provider

record progress =
  mark :: checkpoint
  acc :: "update list"
  cursor :: "pystr option"
  seen_cursors :: "pystr list"
  run_raw :: int
  calls :: nat
  kept :: pydict

definition new_checkpoint :: "request \<Rightarrow> checkpoint" where
  "new_checkpoint r =
     \<lparr>checkpoint_id = checkpoint_key (sha r) (handle r) (from_time r) (replies r), ck_source = handle r,
      ck_replies = replies r, window_start = from_time r, segment_start = from_time r, segment_end = until_time r,
      next_cursor = None, pages_completed = 0, raw_seen = 0, ck_retries = 0, ck_updates = [], ck_updated = clock r\<rparr>"

definition persist :: "request \<Rightarrow> checkpoint \<Rightarrow> update list \<Rightarrow> pydict \<Rightarrow> py_exc + pydict" where
  "persist r c us store =
     save_checkpoint (sha r) (env r) (clock r)
       (checkpoint_json (c\<lparr>ck_updates := dedupe_updates us, ck_updated := clock r\<rparr>)) store"

definition stop :: "request \<Rightarrow> verdict \<Rightarrow> pydict \<Rightarrow> update list option \<Rightarrow> ending" where
  "stop r v store us = \<lparr>verdict = v, left_store = store, partial = map_option dedupe_updates us, fallbacks_used = fallbacks r\<rparr>"

text \<open>
  The handlers: the checkpoint is put back to the last cursor, one retry more. A save that fails
  leaves the store as it was: a row that was validated once never makes the pruning fail.
\<close>

definition give_up :: "request \<Rightarrow> checkpoint \<Rightarrow> pystr option \<Rightarrow> update list \<Rightarrow> pydict \<Rightarrow> ending" where
  "give_up r c cur us store =
     (case persist r (c\<lparr>next_cursor := cur, ck_retries := ck_retries c + 1\<rparr>) us store of
        Inl e \<Rightarrow> stop r (Escaped e) store None
      | Inr t \<Rightarrow> stop r Unavailable t (Some us))"

definition fall_back :: "request \<Rightarrow> progress \<Rightarrow> ending" where
  "fall_back r s =
     (if 4 \<le> fallbacks r then give_up r (mark s) (cursor s) (acc s) (kept s)
      else let r' = r\<lparr>fallbacks := Suc (fallbacks r)\<rparr> in
        (case public_feed (source_api r) (segment_start (mark s)) (until_time r) of
           None \<Rightarrow> give_up r' (mark s) (cursor s) (acc s) (kept s)
         | Some us \<Rightarrow> (let e = give_up r' (mark s) (cursor s) (dedupe_updates (acc s @ us)) (kept s)
                      in e\<lparr>partial := Some (dedupe_updates (acc s @ us))\<rparr>)))"

definition page_step :: "request \<Rightarrow> progress \<Rightarrow> progress + ending" where
  "page_step r s =
     (case fetch_page (source_api r) (cursor s) (calls s) 3 of
        (Dies, n) \<Rightarrow> Inr (stop r Died (kept s) None)
      | (Raises, n) \<Rightarrow> Inr (fall_back r s)
      | (Answer ts following, n) \<Rightarrow>
          (case read_page (handle r) (segment_start (mark s)) (segment_end (mark s)) ts (acc s) of (k, crossed, us) \<Rightarrow>
           let c = (mark s)\<lparr>pages_completed := pages_completed (mark s) + 1, ck_retries := 0,
                            raw_seen := raw_seen (mark s) + int k\<rparr>;
               us = dedupe_updates us;
               raw = run_raw s + int k
           in (case (if crossed then None else following) of
             None \<Rightarrow>
               if segment_end c < until_time r
               then let d = c\<lparr>segment_start := segment_end c, segment_end := until_time r, next_cursor := None,
                              raw_seen := 0, pages_completed := 0\<rparr>
                    in (case persist r d us (kept s) of
                          Inl e \<Rightarrow> Inr (give_up r d None us (kept s))
                        | Inr t \<Rightarrow> Inl (s\<lparr>mark := d, acc := us, cursor := None, run_raw := raw, calls := n, kept := t\<rparr>))
               else (case clear_checkpoint (sha r) (env r) (clock r) (checkpoint_id c) (kept s) of
                       Inl e \<Rightarrow> Inr (give_up r (c\<lparr>next_cursor := None\<rparr>) (cursor s) us (AList.delete (checkpoint_id c) (kept s)))
                     | Inr t \<Rightarrow> Inr (stop r (Complete us) t None))
           | Some x \<Rightarrow>
               (let d = c\<lparr>next_cursor := Some x\<rparr> in
                case persist r d us (kept s) of
                  Inl e \<Rightarrow> Inr (give_up r d (cursor s) us (kept s))
                | Inr t \<Rightarrow>
                    if cursor s = Some x \<or> x \<in> set (seen_cursors s)
                    then (let f = d\<lparr>next_cursor := cursor s, ck_retries := 1\<rparr> in
                          case persist r f us t of
                            Inl e \<Rightarrow> Inr (give_up r f (cursor s) us t)
                          | Inr t' \<Rightarrow> Inr (stop r Incomplete t' (Some us)))
                    else if budget r \<le> raw then Inr (stop r Incomplete t (Some us))
                    else Inl (s\<lparr>mark := d, acc := us, cursor := Some x, seen_cursors := x # seen_cursors s,
                               run_raw := raw, calls := n, kept := t\<rparr>)))))"

definition page_loop :: "request \<Rightarrow> progress \<Rightarrow> ending option" where
  "page_loop r s =
     map_option projr (while_option isl (\<lambda>x. page_step r (projl x)) (Inl s))"

text \<open>Where a run begins: a stored checkpoint, unless it reaches beyond the window.\<close>

definition start_run :: "request \<Rightarrow> pydict \<Rightarrow> py_exc + progress" where
  "start_run r store =
     bindE (get_checkpoint (sha r) (env r) (clock r) (handle r) (from_time r) (until_time r) (replies r) (allow_older r) store)
       (\<lambda>found. bindE (case found of
            None \<Rightarrow> Inr (new_checkpoint r)
          | Some c \<Rightarrow> bindE (sanitize_checkpoint (sha r) (env r) (clock r) (checkpoint_json c)) (\<lambda>again.
              Inr (case again of None \<Rightarrow> new_checkpoint r
                   | Some d \<Rightarrow> if until_time r < segment_end d then new_checkpoint r else d)))
        (\<lambda>c. Inr \<lparr>mark = c, acc = ck_updates c, cursor = next_cursor c, seen_cursors = [], run_raw = 0, calls = 0,
                  kept = store\<rparr>))"

definition clean :: "request \<Rightarrow> request" where
  "clean r = r\<lparr>handle := normalize_handle (handle r), budget := max 1 (budget r)\<rparr>"

definition source_timeline :: "request \<Rightarrow> pydict \<Rightarrow> ending option" where
  "source_timeline request store =
     (let r = clean request in
      if handle r = [] \<or> py_casefold (handle r) \<notin> set (map (py_casefold \<circ> normalize_handle) (configured r))
      then Some (stop r Unavailable store None)
      else (case start_run r store of
              Inl e \<Rightarrow> Some (stop r (Escaped e) store None)
            | Inr s \<Rightarrow> if lookup_user (source_api r) then page_loop r s else Some (fall_back r s)))"

section \<open>What was read\<close>

text \<open>
  A page is an answer of the provider: the source (folded), the reply policy, the cursor asked with,
  the tweets, and the cursor that leads on; a missing response reads as a page without either.
  Nothing is assumed of the order of the tweets, nor that a chain of cursors reaches all the posts
  of the source: \<open>completeness_provider_proof.py\<close> knows that it does not.
\<close>

datatype page = Page pystr bool "pystr option" "tweet list" "pystr option"

text \<open>The states a run goes through, and the pages it was answered with on its way.\<close>

inductive during :: "request \<Rightarrow> progress \<Rightarrow> progress \<Rightarrow> bool" for r s0 where
  begun: "during r s0 s0"
| goes_on: "during r s0 s \<Longrightarrow> page_step r s = Inl s' \<Longrightarrow> during r s0 s'"

definition page_read :: "request \<Rightarrow> progress \<Rightarrow> page set" where
  "page_read r s = (case fetch_page (source_api r) (cursor s) (calls s) 3 of
     (Answer ts following, n) \<Rightarrow> {Page (py_casefold (handle r)) (replies r) (cursor s) ts following}
   | _ \<Rightarrow> {})"

definition run_pages :: "request \<Rightarrow> progress \<Rightarrow> page set" where
  "run_pages r s0 = (\<Union>s \<in> Collect (during r s0). page_read r s)"

definition asks :: "request \<Rightarrow> bool" where
  "asks r \<longleftrightarrow> handle r \<noteq> [] \<and> py_casefold (handle r) \<in> set (map (py_casefold \<circ> normalize_handle) (configured r)) \<and>
     lookup_user (source_api r)"

definition timeline_pages :: "request \<Rightarrow> pydict \<Rightarrow> page set" where
  "timeline_pages r store = (if asks (clean r)
     then (case start_run (clean r) store of Inl e \<Rightarrow> {} | Inr s \<Rightarrow> run_pages (clean r) s) else {})"

text \<open>The original posts of a list of tweets, and where reading stops: at a post before the segment.\<close>

definition wanted :: "pystr \<Rightarrow> instant \<Rightarrow> instant \<Rightarrow> tweet list \<Rightarrow> update set" where
  "wanted h lo hi ts = {u. lo \<le> created_at u \<and> created_at u < hi \<and> (\<exists>t \<in> set ts. own_post h t = Some u \<and> \<not> retweeted t)}"

definition early :: "pystr \<Rightarrow> instant \<Rightarrow> tweet \<Rightarrow> bool" where
  "early h lo t \<longleftrightarrow> (case own_post h t of None \<Rightarrow> False | Some u \<Rightarrow> created_at u < lo)"

definition crosses :: "pystr \<Rightarrow> instant \<Rightarrow> tweet list \<Rightarrow> bool" where
  "crosses h lo ts \<longleftrightarrow> list_ex (early h lo) ts"

definition read_part :: "pystr \<Rightarrow> instant \<Rightarrow> tweet list \<Rightarrow> tweet list" where
  "read_part h lo ts = takeWhile (\<lambda>t. \<not> early h lo t) ts"

text \<open>
  The pages \<open>A\<close> lead from the head of the timeline to a cursor, each asked for with the cursor of
  the page before and none crossing the start of the segment; the posts of the segment on them.
\<close>

inductive walked :: "page set \<Rightarrow> pystr \<Rightarrow> bool \<Rightarrow> instant \<Rightarrow> instant \<Rightarrow> pystr option \<Rightarrow> update set \<Rightarrow> bool"
  for A h rep lo hi where
  head: "walked A h rep lo hi None {}"
| onward: "walked A h rep lo hi cur W \<Longrightarrow> Page h rep cur ts (Some x) \<in> A \<Longrightarrow> \<not> crosses h lo ts \<Longrightarrow>
    walked A h rep lo hi (Some x) (W \<union> wanted h lo hi ts)"

text \<open>The last page crossed the start of the segment, or gave no cursor.\<close>

definition finished :: "page set \<Rightarrow> pystr \<Rightarrow> bool \<Rightarrow> instant \<Rightarrow> instant \<Rightarrow> update set \<Rightarrow> bool" where
  "finished A h rep lo hi V \<longleftrightarrow>
     (\<exists>cur W ts following. walked A h rep lo hi cur W \<and> Page h rep cur ts following \<in> A \<and>
        (crosses h lo ts \<or> following = None) \<and> V = W \<union> wanted h lo hi (read_part h lo ts))"

text \<open>Adjacent segments, each finished.\<close>

inductive read_back :: "page set \<Rightarrow> pystr \<Rightarrow> bool \<Rightarrow> instant \<Rightarrow> instant \<Rightarrow> update set \<Rightarrow> bool"
  for A h rep lo where
  nothing: "read_back A h rep lo lo {}"
| segment: "read_back A h rep lo mid W \<Longrightarrow> mid < hi \<Longrightarrow> finished A h rep mid hi V \<Longrightarrow> read_back A h rep lo hi (W \<union> V)"

definition proper_tweets :: "tweet list \<Rightarrow> bool" where
  "proper_tweets ts \<longleftrightarrow> (\<forall>t \<in> set ts. \<forall>u. converted t = Some u \<longrightarrow> upd_id u \<noteq> [] \<and> sound_post u)"

definition proper_pages :: "page set \<Rightarrow> bool" where
  "proper_pages A \<longleftrightarrow> (\<forall>h rep cur ts following. Page h rep cur ts following \<in> A \<longrightarrow> proper_tweets ts)"

lemma proper_pages_Un: "proper_pages (A \<union> B) \<longleftrightarrow> proper_pages A \<and> proper_pages B"
  unfolding proper_pages_def by blast

lemma proper_page: "proper_pages A \<Longrightarrow> Page h rep cur ts following \<in> A \<Longrightarrow> proper_tweets ts"
  unfolding proper_pages_def by blast

lemma walked_mono: "walked A h rep lo hi cur W \<Longrightarrow> A \<subseteq> B \<Longrightarrow> walked B h rep lo hi cur W"
  by (induction rule: walked.induct) (auto intro: walked.intros)

lemma finished_mono: "finished A h rep lo hi V \<Longrightarrow> A \<subseteq> B \<Longrightarrow> finished B h rep lo hi V"
  unfolding finished_def by (blast intro: walked_mono)

lemma read_back_mono: "read_back A h rep lo hi W \<Longrightarrow> A \<subseteq> B \<Longrightarrow> read_back B h rep lo hi W"
  by (induction rule: read_back.induct) (auto intro: read_back.intros finished_mono)

lemma wanted_ids: "proper_tweets ts \<Longrightarrow> [] \<notin> upd_id ` wanted h lo hi ts"
  by (auto simp: wanted_def proper_tweets_def own_post_def split: option.splits if_splits) force+

lemma wanted_read_part: "wanted h lo hi (read_part h lo ts) \<subseteq> wanted h lo hi ts"
  by (auto simp: wanted_def read_part_def dest: set_takeWhileD)

lemma walked_ids: "walked A h rep lo hi cur W \<Longrightarrow> proper_pages A \<Longrightarrow> [] \<notin> upd_id ` W"
proof (induction rule: walked.induct)
  case (onward cur W ts x)
  then have "proper_tweets ts" by (intro proper_page)
  from wanted_ids [OF this] onward.IH onward.prems show ?case by (simp add: image_Un)
qed simp

lemma finished_ids: "finished A h rep lo hi V \<Longrightarrow> proper_pages A \<Longrightarrow> [] \<notin> upd_id ` V"
proof -
  assume a: "finished A h rep lo hi V" "proper_pages A"
  then obtain cur W ts following where w: "walked A h rep lo hi cur W" "Page h rep cur ts following \<in> A"
    "V = W \<union> wanted h lo hi (read_part h lo ts)" by (auto simp: finished_def)
  then have "proper_tweets ts" using a(2) by (intro proper_page)
  with wanted_ids [OF this, of h lo hi] walked_ids [OF w(1) a(2)] wanted_read_part [of h lo hi ts] w(3) show ?thesis by blast
qed

lemma read_back_ids: "read_back A h rep lo hi W \<Longrightarrow> proper_pages A \<Longrightarrow> [] \<notin> upd_id ` W"
  by (induction rule: read_back.induct) (auto simp: image_Un dest: finished_ids)

lemma read_back_order: "read_back A h rep lo hi W \<Longrightarrow> lo \<le> hi"
  by (induction rule: read_back.induct) auto

lemma early_simps [simp]:
  "own_post h t = None \<Longrightarrow> \<not> early h lo t" "own_post h t = Some u \<Longrightarrow> early h lo t \<longleftrightarrow> created_at u < lo"
  by (simp_all add: early_def)

text \<open>Reading a page keeps exactly the original posts before the first that lies before the segment.\<close>

lemma read_page_spec:
  "read_page h lo hi ts us = (k, crossed, vs) \<Longrightarrow>
    set vs = set us \<union> wanted h lo hi (read_part h lo ts) \<and> (crossed \<longleftrightarrow> crosses h lo ts)"
proof (induction h lo hi ts us arbitrary: k vs rule: read_page.induct)
  case (1 h lo hi us)
  then show ?case by (simp add: wanted_def read_part_def crosses_def)
next
  case (2 h lo hi t ts us)
  show ?case
  proof (cases "own_post h t")
    case None
    from 2(3) None obtain n where "read_page h lo hi ts us = (n, crossed, vs)" by (auto split: prod.splits)
    from 2(1) [OF None this] None show ?thesis by (auto simp: wanted_def read_part_def crosses_def)
  next
    case (Some u)
    show ?thesis
    proof (cases "created_at u < lo")
      case True
      with 2(3) Some show ?thesis by (auto simp: wanted_def read_part_def crosses_def)
    next
      case False
      let ?us = "if \<not> retweeted t \<and> created_at u < hi then us @ [u] else us"
      from 2(3) Some False obtain n where "read_page h lo hi ts ?us = (n, crossed, vs)" by (auto split: prod.splits)
      from 2(2) [OF Some False this] show ?thesis
        using Some False by (auto simp: wanted_def read_part_def crosses_def)
    qed
  qed
qed

lemma read_part_whole: "\<not> crosses h lo ts \<Longrightarrow> read_part h lo ts = ts"
  by (simp add: crosses_def read_part_def list_ex_iff)

section \<open>Checkpoints that account for what was read\<close>

text \<open>
  The past: the pages all runs were answered with, the stored checkpoints, and the latest window
  start so far of every source (folded) and reply policy.
\<close>

record history =
  pages :: "page set"
  checkpoints :: pydict
  latest_start :: "pystr \<Rightarrow> bool \<Rightarrow> instant"

definition held :: "update set \<Rightarrow> update list \<Rightarrow> bool" where
  "held W us \<longleftrightarrow> upd_id ` W \<subseteq> upd_id ` set us"

text \<open>The finished part of the window was read back and the cursor was reached from the head; the posts are held.\<close>

definition covers :: "page set \<Rightarrow> checkpoint \<Rightarrow> update list \<Rightarrow> pystr option \<Rightarrow> bool" where
  "covers A c us cur \<longleftrightarrow>
     (\<exists>W V. read_back A (py_casefold (ck_source c)) (ck_replies c) (window_start c) (segment_start c) W \<and>
        walked A (py_casefold (ck_source c)) (ck_replies c) (segment_start c) (segment_end c) cur V \<and> held (W \<union> V) us)"

definition request_of :: "checkpoint \<Rightarrow> pystr \<times> instant \<times> bool" where
  "request_of c = (py_casefold (ck_source c), window_start c, ck_replies c)"

definition admitted :: "(pystr \<times> instant \<times> bool) set \<Rightarrow> history \<Rightarrow> checkpoint \<Rightarrow> bool" where
  "admitted asked n c \<longleftrightarrow> request_of c \<in> asked \<and> window_start c \<le> latest_start n (py_casefold (ck_source c)) (ck_replies c)"

definition lossless :: "(pystr \<times> instant \<times> bool) set \<Rightarrow> history \<Rightarrow> checkpoint \<Rightarrow> bool" where
  "lossless asked n c \<longleftrightarrow> proper_pages (pages n) \<and> admitted asked n c \<and> covers (pages n) c (ck_updates c) (next_cursor c)"

lemma held_dedupe: "[] \<notin> upd_id ` W \<Longrightarrow> held W us \<Longrightarrow> held W (dedupe_updates us)"
  unfolding held_def dedupe_posts(2) by blast

lemma held_more: "held W us \<Longrightarrow> set us \<subseteq> set vs \<Longrightarrow> held W vs"
  unfolding held_def by blast

lemma held_Un: "held (W \<union> V) us \<longleftrightarrow> held W us \<and> held V us"
  by (auto simp: held_def)

lemma covers_dedupe: "proper_pages A \<Longrightarrow> covers A c us cur \<Longrightarrow> covers A c (dedupe_updates us) cur"
proof -
  assume proper: "proper_pages A" and "covers A c us cur"
  then obtain W V where WV: "read_back A (py_casefold (ck_source c)) (ck_replies c) (window_start c) (segment_start c) W"
    "walked A (py_casefold (ck_source c)) (ck_replies c) (segment_start c) (segment_end c) cur V" "held W us" "held V us"
    by (auto simp: covers_def held_Un)
  with held_dedupe [OF read_back_ids [OF WV(1) proper]] held_dedupe [OF walked_ids [OF WV(2) proper]] show ?thesis
    unfolding covers_def by (intro exI [of _ W] exI [of _ V]) (simp add: held_Un)
qed

lemma covers_more: "covers A c us cur \<Longrightarrow> set us \<subseteq> set vs \<Longrightarrow> covers A c vs cur"
  unfolding covers_def by (blast intro: held_more)

lemma covers_mono: "covers A c us cur \<Longrightarrow> A \<subseteq> B \<Longrightarrow> covers B c us cur"
  unfolding covers_def by (blast intro: read_back_mono walked_mono)

lemma covers_fields:
  "covers A (c\<lparr>ck_updates := x1, ck_updated := x2\<rparr>) us cur = covers A c us cur"
  "covers A (c\<lparr>next_cursor := y\<rparr>) us cur = covers A c us cur" "covers A (c\<lparr>ck_retries := x3\<rparr>) us cur = covers A c us cur"
  "covers A (c\<lparr>pages_completed := x4, ck_retries := x3, raw_seen := x5\<rparr>) us cur = covers A c us cur"
  "covers A (tidy c) us cur = covers A c us cur"
  by (simp_all add: covers_def)

lemma lossless_tidy: "lossless asked n c \<Longrightarrow> lossless asked n (tidy c)"
  by (simp add: lossless_def covers_fields covers_dedupe admitted_def request_of_def)

interpretation shelf: row_contract sha_fn "lossless asked n" for sha_fn asked n
  by unfold_locales (rule lossless_tidy)

section \<open>A run accounts for what it read\<close>

text \<open>
  What is asked of the answers: converted posts are well formed, a cursor is not the empty text
  (\<open>_provider_page\<close> gives none for it), and the public feed returns posts of the source.
\<close>

definition serves :: "request \<Rightarrow> bool" where
  "serves r \<longleftrightarrow>
     (\<forall>k cur ts following. reply (source_api r) k cur = Answer ts following \<longrightarrow> proper_tweets ts \<and> following \<noteq> Some []) \<and>
     (\<forall>a b us. public_feed (source_api r) a b = Some us \<longrightarrow> list_all (post_of (handle r)) us)"

definition sound_at :: "(pystr \<times> instant \<times> bool) set \<Rightarrow> history \<Rightarrow> request \<Rightarrow> checkpoint \<Rightarrow> update list \<Rightarrow> pystr option \<Rightarrow> bool" where
  "sound_at asked n r c us cur \<longleftrightarrow>
     storable (sha r) (c\<lparr>next_cursor := cur, ck_updates := us\<rparr>) \<and> py_casefold (ck_source c) = py_casefold (handle r) \<and>
     ck_replies c = replies r \<and> segment_end c \<le> until_time r \<and> proper_pages (pages n) \<and> admitted asked n c \<and> covers (pages n) c us cur"

definition fits :: "request \<Rightarrow> bool" where
  "fits r \<longleftrightarrow> is_handle (handle r) \<and> from_time r < until_time r \<and> valid_instant (from_time r) \<and>
     valid_instant (until_time r) \<and> valid_instant (clock r) \<and> (\<forall>x. sha r x \<noteq> [])"

lemma own_post_fold:
  assumes "is_handle h"
  shows "own_post (py_casefold h) = own_post h"
  unfolding own_post_def casefold_handle(3) [OF assms] by (rule refl)

lemma page_fold:
  assumes "is_handle h"
  shows "wanted (py_casefold h) = wanted h" "early (py_casefold h) = early h"
    "crosses (py_casefold h) = crosses h" "read_part (py_casefold h) = read_part h"
proof -
  show "wanted (py_casefold h) = wanted h" by (intro ext) (simp add: wanted_def own_post_fold [OF assms])
  have "early (py_casefold h) = early h" by (intro ext) (simp add: early_def own_post_fold [OF assms])
  then show "early (py_casefold h) = early h" "crosses (py_casefold h) = crosses h" "read_part (py_casefold h) = read_part h"
    by (simp, intro ext, simp add: crosses_def, intro ext, simp add: read_part_def)
qed

lemma fetch_page_answer: "fetch_page p cur n tries = (Answer ts following, m) \<Longrightarrow> \<exists>k. reply p k cur = Answer ts following"
  by (induction p cur n tries rule: fetch_page.induct) (auto split: provider_reply.splits)

lemma dedupe_storable: "list_all (post_of h) us \<Longrightarrow> list_all (post_of h) (dedupe_updates us)"
  using dedupe_posts(1) [of us] by (auto simp: list_all_iff)

lemma persist_rows:
  assumes "sound_at asked n r c us (next_cursor c)" "store_rows (sha r) (lossless asked n) store" "valid_instant (clock r)"
  shows "\<exists>t. persist r c us store = Inr t \<and> store_rows (sha r) (lossless asked n) t"
proof -
  let ?d = "c\<lparr>ck_updates := dedupe_updates us, ck_updated := clock r\<rparr>"
  have "storable (sha r) ?d" using assms(1,3) by (auto simp: sound_at_def storable_def dedupe_storable)
  moreover have "lossless asked n ?d" using assms(1) covers_dedupe [of "pages n" c us]
    by (auto simp: lossless_def sound_at_def covers_fields admitted_def request_of_def)
  ultimately show ?thesis unfolding persist_def using shelf.rows_save [OF assms(2)] by blast
qed

lemma sound_at_fields:
  "sound_at asked n r (c\<lparr>next_cursor := z\<rparr>) us cur = sound_at asked n r c us cur"
  "0 \<le> x \<Longrightarrow> sound_at asked n r c us cur \<Longrightarrow> sound_at asked n r (c\<lparr>ck_retries := x\<rparr>) us cur"
  "0 \<le> x \<Longrightarrow> 0 \<le> y \<Longrightarrow> sound_at asked n r c us cur \<Longrightarrow>
    sound_at asked n r (c\<lparr>pages_completed := x, ck_retries := 0, raw_seen := y\<rparr>) us cur"
  by (auto simp: sound_at_def storable_def admitted_def request_of_def covers_fields)

lemma sound_at_more:
  assumes "sound_at asked n r c us cur" "set us \<subseteq> set vs" "list_all (post_of (handle r)) vs"
  shows "sound_at asked n r c vs cur"
proof -
  have "post_of (ck_source c) = post_of (handle r)" using assms(1) by (intro ext) (simp add: sound_at_def post_of_def)
  then have "storable (sha r) (c\<lparr>next_cursor := cur, ck_updates := vs\<rparr>)"
    using assms(1,3) by (auto simp: sound_at_def storable_def)
  with assms(1) covers_more [OF _ assms(2)] show ?thesis by (simp add: sound_at_def)
qed

lemma sound_at_dedupe: "sound_at asked n r c us cur \<Longrightarrow> sound_at asked n r c (dedupe_updates us) cur"
  by (auto simp: sound_at_def storable_def dedupe_storable covers_dedupe)

lemma give_up_rows:
  assumes "sound_at asked n r c us cur" "store_rows (sha r) (lossless asked n) store" "valid_instant (clock r)"
  shows "store_rows (sha r) (lossless asked n) (left_store (give_up r c cur us store)) \<and>
    verdict (give_up r c cur us store) = Unavailable"
proof -
  let ?d = "c\<lparr>next_cursor := cur, ck_retries := ck_retries c + 1\<rparr>"
  have "0 \<le> ck_retries c" using assms(1) by (simp add: sound_at_def storable_def)
  then have "sound_at asked n r ?d us (next_cursor ?d)"
    using assms(1) by (auto simp: sound_at_def storable_def admitted_def request_of_def covers_fields)
  from persist_rows [OF this assms(2,3)] show ?thesis by (auto simp: give_up_def stop_def)
qed

text \<open>What one page adds.\<close>

definition whole :: "page set \<Rightarrow> checkpoint \<Rightarrow> update list \<Rightarrow> bool" where
  "whole A c us \<longleftrightarrow>
     (\<exists>W. read_back A (py_casefold (ck_source c)) (ck_replies c) (window_start c) (segment_end c) W \<and> held W us)"

lemma page_sound:
  assumes s: "sound_at asked n r c us cur" and fit: "fits r"
    and page: "Page (py_casefold (handle r)) (replies r) cur ts following \<in> pages n"
    and read: "read_page (handle r) (segment_start c) (segment_end c) ts us = (k, crossed, vs)"
  shows "\<not> crossed \<Longrightarrow> following = Some x \<Longrightarrow> x \<noteq> [] \<Longrightarrow> length x \<le> 4096 \<Longrightarrow> sound_at asked n r c vs (Some x)"
    and "crossed \<or> following = None \<Longrightarrow> whole (pages n) c vs"
    and "list_all (post_of (handle r)) vs" and "set us \<subseteq> set vs"
proof -
  have h: "is_handle (handle r)" using fit by (simp add: fits_def)
  let ?h = "py_casefold (handle r)" and ?lo = "segment_start c" and ?hi = "segment_end c"
  have key: "py_casefold (ck_source c) = ?h" "ck_replies c = replies r" "proper_tweets ts" "segment_start c < segment_end c"
    using s proper_page [OF _ page] by (auto simp: sound_at_def storable_def)
  have src: "post_of (ck_source c) = post_of (handle r)" using key(1) by (intro ext) (simp add: post_of_def)
  have spec: "set vs = set us \<union> wanted ?h ?lo ?hi (read_part ?h ?lo ts)" "crossed \<longleftrightarrow> crosses ?h ?lo ts"
    using read_page_spec [OF read] by (simp_all add: page_fold [OF h])
  have "post_of (handle r) u" if "u \<in> wanted (handle r) ?lo ?hi ts" for u
    using that key(3) by (auto simp: wanted_def proper_tweets_def own_post_def post_of_def split: option.splits if_splits)
  moreover have "list_all (post_of (handle r)) us" using s src by (simp add: sound_at_def storable_def)
  ultimately show vs: "list_all (post_of (handle r)) vs"
    using spec(1) wanted_read_part [of ?h ?lo ?hi ts] by (auto simp: list_all_iff page_fold [OF h])
  show grow: "set us \<subseteq> set vs" using spec(1) by blast
  have new: "held (wanted ?h ?lo ?hi (read_part ?h ?lo ts)) vs" using spec(1) by (auto simp: held_def)
  obtain W V where WV: "read_back (pages n) ?h (replies r) (window_start c) ?lo W"
    "walked (pages n) ?h (replies r) ?lo ?hi cur V" "held (W \<union> V) vs"
    using s held_more [OF _ grow] unfolding sound_at_def covers_def key(1,2) by blast
  show "sound_at asked n r c vs (Some x)" if more: "\<not> crossed" "following = Some x" "x \<noteq> []" "length x \<le> 4096"
  proof -
    have clear: "\<not> crosses ?h ?lo ts" using more(1) spec(2) by simp
    have "walked (pages n) ?h (replies r) ?lo ?hi (Some x) (V \<union> wanted ?h ?lo ?hi ts)"
      using walked.onward [OF WV(2) page [unfolded more(2)] clear] .
    moreover have "held (W \<union> (V \<union> wanted ?h ?lo ?hi ts)) vs" using WV(3) new by (simp add: held_Un read_part_whole [OF clear])
    ultimately have "covers (pages n) c vs (Some x)" using WV(1) unfolding covers_def key(1,2) by blast
    then show ?thesis using s vs src more(3,4) by (auto simp: sound_at_def storable_def)
  qed
  show "whole (pages n) c vs" if last: "crossed \<or> following = None"
  proof -
    have "finished (pages n) ?h (replies r) ?lo ?hi (V \<union> wanted ?h ?lo ?hi (read_part ?h ?lo ts))"
      unfolding finished_def using WV(2) page last spec(2) by blast
    from read_back.segment [OF WV(1) key(4) this] WV(3) new show ?thesis
      unfolding whole_def key(1,2) by (intro exI conjI) (assumption, simp add: held_Un)
  qed
qed

definition run_inv :: "(pystr \<times> instant \<times> bool) set \<Rightarrow> history \<Rightarrow> request \<Rightarrow> progress \<Rightarrow> bool" where
  "run_inv asked n r s \<longleftrightarrow>
     sound_at asked n r (mark s) (acc s) (cursor s) \<and> store_rows (sha r) (lossless asked n) (kept s)"

definition end_ok :: "(pystr \<times> instant \<times> bool) set \<Rightarrow> history \<Rightarrow> request \<Rightarrow> ending \<Rightarrow> bool" where
  "end_ok asked n r e \<longleftrightarrow> store_rows (sha r) (lossless asked n) (left_store e) \<and>
     (\<forall>us. verdict e = Complete us \<longrightarrow> list_all (post_of (handle r)) us \<and>
        (\<exists>first W. first \<le> latest_start n (py_casefold (handle r)) (replies r) \<and>
           read_back (pages n) (py_casefold (handle r)) (replies r) first (until_time r) W \<and> held W us))"

lemma end_ok_stop:
  "store_rows (sha r) (lossless asked n) t \<Longrightarrow> \<forall>us. v \<noteq> Complete us \<Longrightarrow> end_ok asked n r (stop r v t us)"
  by (simp add: end_ok_def stop_def)

lemma end_ok_give_up:
  assumes "sound_at asked n r c us cur" "store_rows (sha r) (lossless asked n) t" "fits r"
  shows "end_ok asked n r (give_up r c cur us t)"
  using give_up_rows [OF assms(1,2)] assms(3) by (simp add: end_ok_def fits_def)

lemma whole_extends:
  assumes "sound_at asked n r c us cur" "whole (pages n) c vs" "list_all (post_of (handle r)) vs" "fits r"
    "segment_end c < until_time r"
  shows "sound_at asked n r (c\<lparr>segment_start := segment_end c, segment_end := until_time r, next_cursor := None,
    raw_seen := 0, pages_completed := 0\<rparr>) vs None"
proof -
  have src: "post_of (ck_source c) = post_of (handle r)" using assms(1) by (intro ext) (simp add: sound_at_def post_of_def)
  let ?d = "c\<lparr>segment_start := segment_end c, segment_end := until_time r, next_cursor := None, raw_seen := 0, pages_completed := 0\<rparr>"
  from assms(2) obtain W where "read_back (pages n) (py_casefold (ck_source c)) (ck_replies c) (window_start c) (segment_end c) W"
    "held W vs" by (auto simp: whole_def)
  then have "covers (pages n) ?d vs None"
    unfolding covers_def by (intro exI [of _ W] exI [of _ "{}"]) (simp add: walked.head)
  moreover have "window_start c \<le> segment_end c" using assms(1) by (simp add: sound_at_def storable_def)
  ultimately show ?thesis using assms src
    by (auto simp: sound_at_def storable_def admitted_def request_of_def fits_def)
qed

lemma whole_complete:
  assumes "sound_at asked n r c us cur" "whole (pages n) c vs" "\<not> segment_end c < until_time r"
  shows "\<exists>first W. first \<le> latest_start n (py_casefold (handle r)) (replies r) \<and>
    read_back (pages n) (py_casefold (handle r)) (replies r) first (until_time r) W \<and> held W vs"
proof -
  have "segment_end c = until_time r" "py_casefold (ck_source c) = py_casefold (handle r)" "ck_replies c = replies r"
    "window_start c \<le> latest_start n (py_casefold (handle r)) (replies r)"
    using assms(1,3) by (auto simp: sound_at_def admitted_def)
  with assms(2) show ?thesis unfolding whole_def by auto
qed

lemma fall_back_ok:
  assumes "run_inv asked n r s" "fits r" "serves r"
  shows "end_ok asked n r (fall_back r s)"
proof -
  have src: "post_of (ck_source (mark s)) = post_of (handle r)"
    using assms(1) by (intro ext) (simp add: run_inv_def sound_at_def post_of_def)
  have same: "sound_at asked n (r\<lparr>fallbacks := f\<rparr>) = sound_at asked n r" "fits (r\<lparr>fallbacks := f\<rparr>) = fits r"
    "end_ok asked n (r\<lparr>fallbacks := f\<rparr>) = end_ok asked n r" for f
    by (intro ext, simp add: sound_at_def) (simp_all add: fits_def fun_eq_iff end_ok_def)
  have part: "end_ok asked n r (e\<lparr>partial := x\<rparr>) = end_ok asked n r e" for e x by (simp add: end_ok_def)
  have more: "sound_at asked n r (mark s) (dedupe_updates (acc s @ us)) (cursor s)"
    if "public_feed (source_api r) a b = Some us" for a b us
  proof (rule sound_at_dedupe, rule sound_at_more)
    show "sound_at asked n r (mark s) (acc s) (cursor s)" using assms(1) by (simp add: run_inv_def)
    show "list_all (post_of (handle r)) (acc s @ us)"
      using assms(1,3) that src by (auto simp: serves_def run_inv_def sound_at_def storable_def)
  qed simp
  have give: "end_ok asked n r (give_up (r\<lparr>fallbacks := f\<rparr>) (mark s) (cursor s) us (kept s))"
    if "sound_at asked n r (mark s) us (cursor s)" for f us
    using end_ok_give_up [of asked n "r\<lparr>fallbacks := f\<rparr>" "mark s" us "cursor s" "kept s"] that assms(1,2)
    by (simp add: same run_inv_def)
  show ?thesis
    using end_ok_give_up [of asked n r "mark s" "acc s" "cursor s" "kept s"] give more assms(1,2)
    by (auto simp: fall_back_def Let_def part run_inv_def split: option.split)
qed

definition state_ok :: "(pystr \<times> instant \<times> bool) set \<Rightarrow> history \<Rightarrow> request \<Rightarrow> progress + ending \<Rightarrow> bool" where
  "state_ok asked n r x \<longleftrightarrow> (case x of Inl s \<Rightarrow> run_inv asked n r s | Inr e \<Rightarrow> end_ok asked n r e)"

lemma state_ok_simps [simp]: "state_ok asked n r (Inl s) = run_inv asked n r s" "state_ok asked n r (Inr e) = end_ok asked n r e"
  by (simp_all add: state_ok_def)

text \<open>A cursor that is stored is at most 4096 characters long.\<close>

lemma persist_cursor:
  assumes "persist r c us store = Inr t" "next_cursor c = Some x"
  shows "length x \<le> 4096"
proof -
  let ?c = "c\<lparr>ck_updates := dedupe_updates us, ck_updated := clock r\<rparr>"
  obtain d where d: "checkpoint_json ?c = JObj d" by (simp add: checkpoint_json_def)
  from assms(1) obtain z where "sanitize_checkpoint (sha r) (env r) (clock r) (JObj d) = Inr (Some z)"
    by (auto simp: persist_def save_checkpoint_def bindE_Inr d split: option.splits)
  then have "read_cursor (dict_get d ''next_cursor'' JNull) \<noteq> None"
    by (auto simp: sanitize_checkpoint_def split: sum.splits if_splits option.splits)
  then show ?thesis using assms(2) by (simp add: checkpoint_fields(8) [OF d] read_cursor_def split: if_splits)
qed

text \<open>The two ways a page ends: the segment is whole, or a cursor leads on.\<close>

definition bumped :: "checkpoint \<Rightarrow> nat \<Rightarrow> checkpoint" where
  "bumped c k = c\<lparr>pages_completed := pages_completed c + 1, ck_retries := 0, raw_seen := raw_seen c + int k\<rparr>"

lemma bumped_fields [simp]:
  "segment_end (bumped c k) = segment_end c" "checkpoint_id (bumped c k) = checkpoint_id c"
  by (simp_all add: bumped_def)

lemma bumped_sound:
  assumes "sound_at asked n r c us cur"
  shows "sound_at asked n r (bumped c k) us cur"
proof -
  have "0 \<le> pages_completed c + 1" "0 \<le> raw_seen c + int k" using assms by (simp_all add: sound_at_def storable_def)
  from sound_at_fields(3) [OF this assms] show ?thesis by (simp add: bumped_def)
qed

lemma segment_finished:
  assumes "sound_at asked n r (bumped c k) us0 cur" "whole (pages n) (bumped c k) vs" "list_all (post_of (handle r)) vs" "fits r"
    "store_rows (sha r) (lossless asked n) store" "sound_at asked n r (bumped c k) vs cur"
  shows "state_ok asked n r
    (if segment_end (bumped c k) < until_time r
     then let d = (bumped c k)\<lparr>segment_start := segment_end (bumped c k), segment_end := until_time r, next_cursor := None,
                    raw_seen := 0, pages_completed := 0\<rparr>
          in (case persist r d vs store of
                Inl e \<Rightarrow> Inr (give_up r d None vs store)
              | Inr t \<Rightarrow> Inl (s\<lparr>mark := d, acc := vs, cursor := None, run_raw := raw, calls := m, kept := t\<rparr>))
     else (case clear_checkpoint (sha r) (env r) (clock r) (checkpoint_id (bumped c k)) store of
             Inl e \<Rightarrow> Inr (give_up r ((bumped c k)\<lparr>next_cursor := None\<rparr>) cur vs (AList.delete (checkpoint_id (bumped c k)) store))
           | Inr t \<Rightarrow> Inr (stop r (Complete vs) t None)))"
proof (cases "segment_end (bumped c k) < until_time r")
  case True
  let ?d = "(bumped c k)\<lparr>segment_start := segment_end (bumped c k), segment_end := until_time r, next_cursor := None,
      raw_seen := 0, pages_completed := 0\<rparr>"
  have d: "sound_at asked n r ?d vs None" by (rule whole_extends [OF assms(1-4) True])
  then obtain t where "persist r ?d vs store = Inr t" "store_rows (sha r) (lossless asked n) t"
    using persist_rows [of asked n r ?d vs store] assms(4,5) by (auto simp: fits_def)
  with True d show ?thesis by (simp add: run_inv_def Let_def)
next
  case False
  obtain t where "clear_checkpoint (sha r) (env r) (clock r) (checkpoint_id (bumped c k)) store = Inr t"
    "store_rows (sha r) (lossless asked n) t"
    using shelf.rows_clear [OF assms(5)] by blast
  with False whole_complete [OF assms(1,2)] assms(3) show ?thesis by (simp add: end_ok_def stop_def)
qed

text \<open>A cursor too long to be stored ends the run; the checkpoint goes back to the cursor before.\<close>

lemma cursor_leads_on:
  assumes "length x \<le> 4096 \<Longrightarrow> sound_at asked n r (bumped c k) vs (Some x)" "sound_at asked n r (bumped c k) vs (cursor s)"
    "fits r" "store_rows (sha r) (lossless asked n) store"
  shows "state_ok asked n r
    (let d = (bumped c k)\<lparr>next_cursor := Some x\<rparr> in
     case persist r d vs store of
       Inl e \<Rightarrow> Inr (give_up r d (cursor s) vs store)
     | Inr t \<Rightarrow>
         if cursor s = Some x \<or> x \<in> set (seen_cursors s)
         then (let f = d\<lparr>next_cursor := cursor s, ck_retries := 1\<rparr> in
               case persist r f vs t of
                 Inl e \<Rightarrow> Inr (give_up r f (cursor s) vs t)
               | Inr t' \<Rightarrow> Inr (stop r Incomplete t' (Some vs)))
         else if budget r \<le> raw then Inr (stop r Incomplete t (Some vs))
         else Inl (s\<lparr>mark := d, acc := vs, cursor := Some x, seen_cursors := x # seen_cursors s,
                    run_raw := raw, calls := m, kept := t\<rparr>))"
proof -
  let ?d = "(bumped c k)\<lparr>next_cursor := Some x\<rparr>"
  have clock: "valid_instant (clock r)" using assms(3) by (simp add: fits_def)
  show ?thesis
  proof (cases "persist r ?d vs store")
    case (Inl e)
    have "sound_at asked n r ?d vs (cursor s)" using assms(2) by (simp add: sound_at_fields)
    with Inl assms(3,4) show ?thesis by (simp add: end_ok_give_up)
  next
    case (Inr t)
    have "length x \<le> 4096" by (rule persist_cursor [OF Inr]) simp
    then have d: "sound_at asked n r ?d vs (Some x)" using assms(1) by (simp add: sound_at_fields)
    then have t: "store_rows (sha r) (lossless asked n) t"
      using persist_rows [of asked n r ?d vs store] assms(4) clock Inr by auto
    let ?f = "?d\<lparr>next_cursor := cursor s, ck_retries := 1\<rparr>"
    have "sound_at asked n r ?f vs (cursor s)"
      using assms(2) sound_at_fields(2) [of 1 asked n r "(bumped c k)\<lparr>next_cursor := cursor s\<rparr>" vs "cursor s"]
      by (simp add: sound_at_fields)
    then obtain t' where t': "persist r ?f vs t = Inr t'" "store_rows (sha r) (lossless asked n) t'"
      using persist_rows [of asked n r ?f vs t] t clock by auto
    show ?thesis using Inr t t' d by (simp add: Let_def run_inv_def end_ok_stop)
  qed
qed

lemma page_step_answer:
  assumes "fetch_page (source_api r) (cursor s) (calls s) 3 = (Answer ts following, m)"
    and "read_page (handle r) (segment_start (mark s)) (segment_end (mark s)) ts (acc s) = (k, crossed, us)"
  shows "page_step r s =
     (let vs = dedupe_updates us; raw = run_raw s + int k in
      case (if crossed then None else following) of
        None \<Rightarrow>
          if segment_end (bumped (mark s) k) < until_time r
          then let d = (bumped (mark s) k)\<lparr>segment_start := segment_end (bumped (mark s) k), segment_end := until_time r,
                         next_cursor := None, raw_seen := 0, pages_completed := 0\<rparr>
               in (case persist r d vs (kept s) of
                     Inl e \<Rightarrow> Inr (give_up r d None vs (kept s))
                   | Inr t \<Rightarrow> Inl (s\<lparr>mark := d, acc := vs, cursor := None, run_raw := raw, calls := m, kept := t\<rparr>))
          else (case clear_checkpoint (sha r) (env r) (clock r) (checkpoint_id (bumped (mark s) k)) (kept s) of
                  Inl e \<Rightarrow> Inr (give_up r ((bumped (mark s) k)\<lparr>next_cursor := None\<rparr>) (cursor s) vs
                                 (AList.delete (checkpoint_id (bumped (mark s) k)) (kept s)))
                | Inr t \<Rightarrow> Inr (stop r (Complete vs) t None))
      | Some x \<Rightarrow>
          (let d = (bumped (mark s) k)\<lparr>next_cursor := Some x\<rparr> in
           case persist r d vs (kept s) of
             Inl e \<Rightarrow> Inr (give_up r d (cursor s) vs (kept s))
           | Inr t \<Rightarrow>
               if cursor s = Some x \<or> x \<in> set (seen_cursors s)
               then (let f = d\<lparr>next_cursor := cursor s, ck_retries := 1\<rparr> in
                     case persist r f vs t of
                       Inl e \<Rightarrow> Inr (give_up r f (cursor s) vs t)
                     | Inr t' \<Rightarrow> Inr (stop r Incomplete t' (Some vs)))
               else if budget r \<le> raw then Inr (stop r Incomplete t (Some vs))
               else Inl (s\<lparr>mark := d, acc := vs, cursor := Some x, seen_cursors := x # seen_cursors s,
                          run_raw := raw, calls := m, kept := t\<rparr>)))"
  by (simp only: page_step_def assms bumped_def prod.case provider_reply.case Let_def)

lemma page_step_ok:
  assumes "run_inv asked n r s" "fits r" "serves r" "page_read r s \<subseteq> pages n"
  shows "state_ok asked n r (page_step r s)"
proof -
  obtain a m where fetched: "fetch_page (source_api r) (cursor s) (calls s) 3 = (a, m)" by fastforce
  show ?thesis
  proof (cases a)
    case Raises
    with fetched fall_back_ok [OF assms(1-3)] show ?thesis by (simp add: page_step_def)
  next
    case Dies
    with fetched assms(1) show ?thesis by (simp add: page_step_def end_ok_stop run_inv_def)
  next
    case (Answer ts following)
    obtain k crossed us where read:
      "read_page (handle r) (segment_start (mark s)) (segment_end (mark s)) ts (acc s) = (k, crossed, us)"
      by (metis prod_cases3)
    have page: "Page (py_casefold (handle r)) (replies r) (cursor s) ts following \<in> pages n"
      using assms(4) fetched Answer by (simp add: page_read_def)
    have filled: "following \<noteq> Some []"
      using fetch_page_answer [OF fetched [unfolded Answer]] assms(3) by (auto simp: serves_def)
    have start: "sound_at asked n r (mark s) (acc s) (cursor s)" and rows: "store_rows (sha r) (lossless asked n) (kept s)"
      using assms(1) by (simp_all add: run_inv_def)
    note after = page_sound [OF start assms(2) page read]
    let ?vs = "dedupe_updates us" and ?c = "bumped (mark s) k"
    have vs: "list_all (post_of (handle r)) ?vs" by (rule dedupe_storable [OF after(3)])
    have here: "sound_at asked n r ?c ?vs (cursor s)"
      by (intro bumped_sound sound_at_dedupe sound_at_more [OF start after(4,3)])
    show ?thesis
    proof (cases "if crossed then None else following")
      case None
      then have "whole (pages n) (mark s) us" using after(2) by (auto split: if_splits)
      moreover have "proper_pages (pages n)" using start by (simp add: sound_at_def)
      ultimately have "whole (pages n) ?c ?vs"
        by (auto simp: whole_def bumped_def) (metis held_dedupe read_back_ids)
      show ?thesis
        unfolding page_step_answer [OF fetched [unfolded Answer] read] Let_def None option.case
        by (rule segment_finished [OF bumped_sound [OF start] \<open>whole (pages n) ?c ?vs\<close> vs assms(2) rows here, unfolded Let_def])
    next
      case (Some x)
      then have "sound_at asked n r (mark s) us (Some x)" if "length x \<le> 4096"
        using after(1) that filled by (auto split: if_splits)
      then have "sound_at asked n r ?c ?vs (Some x)" if "length x \<le> 4096" using that by (intro bumped_sound sound_at_dedupe) 
      then show ?thesis
        unfolding page_step_answer [OF fetched [unfolded Answer] read] Let_def Some option.case
        by (rule cursor_leads_on [OF _ here assms(2) rows, unfolded Let_def])
    qed
  qed
qed

lemma page_loop_ok:
  assumes "page_loop r s = Some e" "run_inv asked n r s" "fits r" "serves r" "run_pages r s \<subseteq> pages n"
  shows "end_ok asked n r e"
proof -
  from assms(1) obtain x where x: "while_option isl (\<lambda>x. page_step r (projl x)) (Inl s) = Some x" "e = projr x"
    by (auto simp: page_loop_def)
  have "state_ok asked n r x \<and> (\<forall>s'. x = Inl s' \<longrightarrow> during r s s')"
  proof (rule while_option_rule [OF _ x(1)])
    fix y assume y: "state_ok asked n r y \<and> (\<forall>s'. y = Inl s' \<longrightarrow> during r s s')" "isl y"
    then obtain s' where s': "y = Inl s'" "during r s s'" "run_inv asked n r s'" by (auto simp: isl_def)
    then have "page_read r s' \<subseteq> pages n" using assms(5) by (auto simp: run_pages_def)
    with s' page_step_ok [OF s'(3) assms(3,4)] show
      "state_ok asked n r (page_step r (projl y)) \<and> (\<forall>z. page_step r (projl y) = Inl z \<longrightarrow> during r s z)"
      by (auto intro: during.goes_on)
  qed (simp add: assms(2) during.begun)
  moreover have "\<not> isl x" using while_option_stop [OF x(1)] by simp
  ultimately show ?thesis using x(2) by (cases x) auto
qed

section \<open>Where a run begins\<close>

definition request_key :: "(pystr \<Rightarrow> pystr) \<Rightarrow> pystr \<times> instant \<times> bool \<Rightarrow> pystr" where
  "request_key sha_fn q = (case q of (h, t, rep) \<Rightarrow> checkpoint_key sha_fn h t rep)"

definition asked_now :: "request \<Rightarrow> pystr \<times> instant \<times> bool" where
  "asked_now r = (py_casefold (handle r), from_time r, replies r)"

lemma new_checkpoint_sound:
  assumes "fits r" "asked_now r \<in> asked" "proper_pages (pages n)"
    "from_time r \<le> latest_start n (py_casefold (handle r)) (replies r)"
  shows "sound_at asked n r (new_checkpoint r) [] None"
proof -
  have "covers (pages n) (new_checkpoint r) [] None"
    unfolding covers_def by (intro exI [of _ "{}"]) (simp add: new_checkpoint_def held_def read_back.nothing walked.head)
  then show ?thesis using assms
    by (simp add: sound_at_def) (simp add: new_checkpoint_def storable_def fits_def admitted_def request_of_def asked_now_def
        checkpoint_key_def)
qed

lemma found_matches:
  assumes "is_handle (handle r)" "inj_on (request_key (sha r)) asked" "asked_now r \<in> asked"
    and c: "storable (sha r) c" "lossless asked n c"
    and id: "checkpoint_id c = checkpoint_key (sha r) (py_casefold (normalize_handle (handle r))) (from_time r) (replies r)"
  shows "py_casefold (ck_source c) = py_casefold (handle r) \<and> ck_replies c = replies r"
proof -
  have "is_handle (ck_source c)" using c(1) by (simp add: storable_def)
  then have "request_key (sha r) (request_of c) = checkpoint_id c"
    using c(1) by (simp add: request_key_def request_of_def storable_def checkpoint_key_casefold)
  also have "\<dots> = request_key (sha r) (asked_now r)"
    using assms(1) id by (simp add: request_key_def asked_now_def normalize_is_handle)
  finally have "request_of c = asked_now r"
    using assms(2,3) c(2) by (auto simp: lossless_def admitted_def dest: inj_onD)
  then show ?thesis by (simp add: request_of_def asked_now_def)
qed

lemma start_run_ok:
  assumes fit: "fits r" and inj: "inj_on (request_key (sha r)) asked" and asked: "asked_now r \<in> asked"
    and n: "proper_pages (pages n)" "from_time r \<le> latest_start n (py_casefold (handle r)) (replies r)"
    and rows: "store_rows (sha r) (lossless asked n) store"
  shows "\<exists>s. start_run r store = Inr s \<and> run_inv asked n r s"
proof -
  have h: "is_handle (handle r)" using fit by (simp add: fits_def)
  let ?get = "get_checkpoint (sha r) (env r) (clock r) (handle r) (from_time r) (until_time r) (replies r) (allow_older r) store"
  let ?from = "\<lambda>c. \<lparr>mark = c, acc = ck_updates c, cursor = next_cursor c, seen_cursors = [], run_raw = 0, calls = 0, kept = store\<rparr>"
  have new: "run_inv asked n r (?from (new_checkpoint r))"
    using new_checkpoint_sound [OF fit asked n] rows by (simp add: run_inv_def) (simp add: new_checkpoint_def)
  show ?thesis
  proof (cases rule: shelf.rows_get [OF rows, of "env r" "clock r" "handle r" "from_time r" "until_time r" "replies r" "allow_older r"])
    case 1
    with new show ?thesis by (simp add: start_run_def)
  next
    case (2 c)
    have "py_casefold (ck_source c) = py_casefold (handle r) \<and> ck_replies c = replies r"
      using 2(4) found_matches [OF h inj asked 2(2,3)] h by (auto simp: normalize_is_handle)
    then have old: "run_inv asked n r (?from (tidy c))" if "\<not> until_time r < segment_end c"
      using storable_tidy [OF 2(2)] lossless_tidy [OF 2(3)] rows that
      by (simp add: run_inv_def sound_at_def lossless_def) (simp add: storable_def)
    show ?thesis using 2(1) sanitize_back [OF 2(2)] new old by (simp add: start_run_def)
  qed
qed

section \<open>Any history of runs\<close>

definition noted :: "request \<Rightarrow> history \<Rightarrow> history" where
  "noted r n = (let h = py_casefold (handle r) in
     n\<lparr>pages := pages n \<union> timeline_pages r (checkpoints n),
       latest_start := (latest_start n)(h := (latest_start n h)(replies r := from_time r))\<rparr>)"

text \<open>
  A legal request: a proper window, answers that are well formed, a key that is not shared with
  another request, and a window that does not begin before an earlier window of the source.
\<close>

definition legal_request :: "(pystr \<times> instant \<times> bool) set \<Rightarrow> history \<Rightarrow> request \<Rightarrow> bool" where
  "legal_request asked n r \<longleftrightarrow> fits (clean r) \<and> serves (clean r) \<and> asked_now (clean r) \<in> asked \<and>
     inj_on (request_key (sha r)) asked \<and>
     latest_start n (py_casefold (handle (clean r))) (replies r) \<le> from_time r"

inductive reachable :: "(pystr \<Rightarrow> pystr) \<Rightarrow> (pystr \<times> instant \<times> bool) set \<Rightarrow> history \<Rightarrow> bool" for sha_fn asked where
  start: "pages n = {} \<Longrightarrow> checkpoints n = [] \<Longrightarrow> reachable sha_fn asked n"
| retrieve: "reachable sha_fn asked n \<Longrightarrow> legal_request asked n r \<Longrightarrow> sha r = sha_fn \<Longrightarrow>
    source_timeline r (checkpoints n) = Some e \<Longrightarrow> reachable sha_fn asked ((noted (clean r) n)\<lparr>checkpoints := left_store e\<rparr>)"

lemma clean_clean [simp]: "clean (clean r) = clean r"
  by (simp add: clean_def)

lemma noted_fields [simp]:
  "pages (noted r n) = pages n \<union> timeline_pages r (checkpoints n)" "checkpoints (noted r n) = checkpoints n"
  by (simp_all add: noted_def Let_def)

lemma noted_lossless:
  assumes "latest_start n (py_casefold (handle r)) (replies r) \<le> from_time r" "lossless asked n c" "proper_pages (pages (noted r n))"
  shows "lossless asked (noted r n) c"
proof -
  have "covers (pages (noted r n)) c (ck_updates c) (next_cursor c)"
    using assms(2) by (auto simp: lossless_def intro: covers_mono)
  moreover have "admitted asked (noted r n) c"
    using assms(1,2) by (auto simp: lossless_def admitted_def) (auto simp: noted_def Let_def)
  ultimately show ?thesis using assms(3) by (simp add: lossless_def)
qed

lemma lossless_checkpoints [simp]: "lossless asked (n\<lparr>checkpoints := x\<rparr>) = lossless asked n"
  by (simp add: fun_eq_iff lossless_def admitted_def)

lemma page_read_iff:
  "Page h rep cur ts following \<in> page_read r s \<longleftrightarrow> h = py_casefold (handle r) \<and> rep = replies r \<and> cur = cursor s \<and>
    (\<exists>n. fetch_page (source_api r) (cursor s) (calls s) 3 = (Answer ts following, n))"
  by (auto simp: page_read_def split: provider_reply.split prod.split)

lemma timeline_pages_clean: "timeline_pages (clean r) = timeline_pages r"
  by (rule ext) (simp add: timeline_pages_def split: sum.split)

lemma timeline_pages_proper:
  assumes "serves (clean r)"
  shows "proper_pages (timeline_pages r store)"
proof -
  have "proper_tweets ts" if "Page h rep cur ts following \<in> page_read (clean r) s" for h rep cur ts following s
    using that assms unfolding page_read_iff serves_def by (metis fetch_page_answer)
  then show ?thesis by (auto simp: timeline_pages_def run_pages_def proper_pages_def split: sum.split)
qed

lemma timeline_ok:
  assumes "source_timeline r (checkpoints n) = Some e" "legal_request asked n r" "proper_pages (pages n)"
    and "store_rows (sha r) (lossless asked n) (checkpoints n)"
  shows "end_ok asked (noted (clean r) n) (clean r) e"
proof -
  let ?r = "clean r" and ?n = "noted (clean r) n"
  have legal: "fits ?r" "inj_on (request_key (sha ?r)) asked" "asked_now ?r \<in> asked" "serves ?r"
    using assms(2) by (simp_all add: legal_request_def clean_def)
  have n: "proper_pages (pages ?n)" "from_time ?r \<le> latest_start ?n (py_casefold (handle ?r)) (replies ?r)"
    using assms(3) timeline_pages_proper [of ?r] legal(4) by (simp add: proper_pages_Un) (simp add: noted_def Let_def)
  have rows: "store_rows (sha ?r) (lossless asked ?n) (checkpoints n)"
  proof (rule store_rows_mono)
    show "store_rows (sha ?r) (lossless asked n) (checkpoints n)" using assms(4) by (simp add: clean_def)
    fix c assume "lossless asked n c"
    then show "lossless asked ?n c" using assms(2) n(1) by (intro noted_lossless) (simp_all add: legal_request_def clean_def)
  qed
  from start_run_ok [OF legal(1-3) n rows] obtain s where s: "start_run ?r (checkpoints n) = Inr s" "run_inv asked ?n ?r s" by blast
  consider "e = stop ?r Unavailable (checkpoints n) None" | "page_loop ?r s = Some e" "asks ?r" | "e = fall_back ?r s"
    using assms(1) unfolding source_timeline_def Let_def s(1) sum.case asks_def by (metis (no_types) option.inject)
  then show ?thesis
  proof cases
    case 1
    with rows show ?thesis by (simp add: end_ok_stop)
  next
    case 2
    then have "run_pages ?r s \<subseteq> pages ?n" by (auto simp: timeline_pages_def s(1))
    with 2(1) show ?thesis by (rule page_loop_ok [OF _ s(2) legal(1,4)])
  next
    case 3
    with fall_back_ok [OF s(2) legal(1,4)] show ?thesis by simp
  qed
qed

lemma reachable_rows:
  "reachable sha_fn asked n \<Longrightarrow> proper_pages (pages n) \<and> store_rows sha_fn (lossless asked n) (checkpoints n)"
proof (induction rule: reachable.induct)
  case (start n)
  then show ?case by (simp add: store_rows_def proper_pages_def)
next
  case (retrieve n r e)
  from timeline_ok [OF retrieve.hyps(4,2)] retrieve.IH retrieve.hyps(3)
  have "store_rows sha_fn (lossless asked (noted (clean r) n)) (left_store e)" by (simp add: end_ok_def clean_def)
  moreover have "proper_pages (timeline_pages (clean r) (checkpoints n))"
    using retrieve.hyps(2) by (intro timeline_pages_proper) (simp add: legal_request_def)
  ultimately show ?case using retrieve.IH by (simp add: proper_pages_Un)
qed

section \<open>Properties\<close>


text \<open>A step that goes on opens the last segment or uses up a cursor.\<close>

lemma page_step_progress:
  assumes "page_step r s = Inl s'"
  shows "segment_end (mark s) < until_time r \<and> segment_end (mark s') = until_time r \<and> seen_cursors s' = seen_cursors s \<or>
    segment_end (mark s') = segment_end (mark s) \<and>
      (\<exists>x. length x \<le> 4096 \<and> x \<notin> set (seen_cursors s) \<and> seen_cursors s' = x # seen_cursors s)"
proof -
  obtain a m where fetched: "fetch_page (source_api r) (cursor s) (calls s) 3 = (a, m)" by fastforce
  with assms obtain ts following where Answer: "a = Answer ts following"
    by (cases a) (auto simp: page_step_def)
  obtain k crossed us where read:
    "read_page (handle r) (segment_start (mark s)) (segment_end (mark s)) ts (acc s) = (k, crossed, us)"
    by (metis prod_cases3)
  note step = assms [unfolded page_step_answer [OF fetched [unfolded Answer] read] Let_def]
  show ?thesis
  proof (cases "if crossed then None else following")
    case None
    with step show ?thesis by (auto split: if_splits sum.splits)
  next
    case (Some x)
    then obtain t where "persist r ((bumped (mark s) k)\<lparr>next_cursor := Some x\<rparr>) (dedupe_updates us) (kept s) = Inr t"
      using step unfolding Some option.case by (auto split: sum.splits)
    from persist_cursor [OF this, of x] have "length x \<le> 4096" by simp
    moreover have "x \<notin> set (seen_cursors s) \<and> seen_cursors s' = x # seen_cursors s \<and> segment_end (mark s') = segment_end (mark s)"
      using step unfolding Some option.case by (auto split: if_splits sum.splits)
    ultimately show ?thesis by blast
  qed
qed

lemma page_loop_returns: "\<exists>e. page_loop q s = Some e"
proof -
  let ?C = "{x :: pystr. length x \<le> 4096}"
  have finite: "finite ?C" using finite_lists_length_le [of "UNIV :: char set" 4096] by simp
  define f where "f = (\<lambda>x :: progress + ending. case x of Inr _ \<Rightarrow> 0 | Inl s \<Rightarrow>
      Suc ((if segment_end (mark s) < until_time q then Suc (card ?C) else 0) + card (?C - set (seen_cursors s))))"
  have "f (page_step q s) < f (Inl s)" for s
  proof (cases "page_step q s")
    case (Inl s')
    from page_step_progress [OF Inl] show ?thesis
    proof
      assume "segment_end (mark s) < until_time q \<and> segment_end (mark s') = until_time q \<and> seen_cursors s' = seen_cursors s"
      with Inl show ?thesis by (simp add: f_def)
    next
      assume "segment_end (mark s') = segment_end (mark s) \<and>
        (\<exists>x. length x \<le> 4096 \<and> x \<notin> set (seen_cursors s) \<and> seen_cursors s' = x # seen_cursors s)"
      then obtain x where x: "segment_end (mark s') = segment_end (mark s)" "x \<in> ?C" "x \<notin> set (seen_cursors s)"
        "seen_cursors s' = x # seen_cursors s" by blast
      then have "card (?C - set (seen_cursors s')) < card (?C - set (seen_cursors s))"
        using finite by (intro psubset_card_mono) auto
      with Inl x(1) show ?thesis by (simp add: f_def)
    qed
  qed (simp add: f_def)
  then have "\<exists>t. while_option isl (\<lambda>x. page_step q (projl x)) (Inl s) = Some t"
    by (intro measure_while_option_Some [of "\<lambda>_. True" _ _ f]) (auto simp: isl_def)
  then show ?thesis by (auto simp: page_loop_def)
qed


section \<open>An old post at the head\<close>

text \<open>
  C38: A head page whose first post of the source lies before the window, as a pinned one does, ends a
  run that begins anew: the window is reported complete and empty, whatever stands behind that post
  and whatever further pages there are.
\<close>

theorem old_head_post_ends_run:
  assumes "reply (source_api r) 0 None = Answer (t # ts) following"
    and "own_post (normalize_handle (handle r)) t = Some u" "created_at u < from_time r"
    and "lookup_user (source_api r)" "normalize_handle (handle r) \<noteq> []"
    and "py_casefold (normalize_handle (handle r)) \<in> set (map (py_casefold \<circ> normalize_handle) (configured r))"
  shows "source_timeline r [] = Some (stop r (Complete []) [] None)"
proof -
  let ?r = "clean r"
  let ?s = "\<lparr>mark = new_checkpoint ?r, acc = [], cursor = None, seen_cursors = [], run_raw = 0, calls = 0, kept = []\<rparr>"
  have "get_checkpoint (sha ?r) (env ?r) (clock ?r) (handle ?r) (from_time ?r) (until_time ?r) (replies ?r) (allow_older ?r) [] = Inr None"
    by (simp add: get_checkpoint_def dict_get_def sanitize_checkpoint_def)
  then have start: "start_run ?r [] = Inr ?s" by (simp add: start_run_def new_checkpoint_def)
  have fields: "source_api ?r = source_api r" "handle ?r = normalize_handle (handle r)" "configured ?r = configured r"
    "segment_start (new_checkpoint ?r) = from_time r" by (simp_all add: clean_def new_checkpoint_def)
  have fetched: "fetch_page (source_api ?r) (cursor ?s) (calls ?s) 3 = (Answer (t # ts) following, 1)"
    using assms(1) by (simp add: numeral_3_eq_3 fields)
  have read: "read_page (handle ?r) (segment_start (mark ?s)) (segment_end (mark ?s)) (t # ts) (acc ?s) = (1, True, [])"
    using assms(2,3) by (simp add: fields)
  have "page_step ?r ?s = Inr (stop ?r (Complete []) [] None)"
    unfolding page_step_answer [OF fetched read]
    by (simp add: dedupe_updates_def chosen_posts_def new_checkpoint_def clear_checkpoint_def prune_rows_def keyed_rows_def Let_def)
  then have "page_loop ?r ?s = Some (stop ?r (Complete []) [] None)"
    by (simp add: page_loop_def while_option_unfold [of isl])
  then show ?thesis
    unfolding source_timeline_def Let_def start sum.case using assms(4-6)
    by (simp add: fields) (simp add: stop_def clean_def)
qed

section \<open>A checkpoint younger than the window\<close>

definition not_before :: "instant \<Rightarrow> progress \<Rightarrow> bool" where
  "not_before w s \<longleftrightarrow> w \<le> segment_start (mark s) \<and> segment_start (mark s) \<le> segment_end (mark s) \<and>
     (\<forall>u \<in> set (acc s). w \<le> created_at u)"

lemma read_page_window:
  "read_page h lo hi ts us = (k, crossed, vs) \<Longrightarrow> w \<le> lo \<Longrightarrow> \<forall>u \<in> set us. w \<le> created_at u \<Longrightarrow> \<forall>u \<in> set vs. w \<le> created_at u"
proof (induction h lo hi ts us arbitrary: k vs rule: read_page.induct)
  case (2 h lo hi t ts us)
  show ?case
  proof (cases "own_post h t")
    case None
    with 2 show ?thesis by (auto split: prod.splits)
  next
    case (Some u)
    show ?thesis
    proof (cases "created_at u < lo")
      case True
      with 2 Some show ?thesis by auto
    next
      case False
      let ?us = "if \<not> retweeted t \<and> created_at u < hi then us @ [u] else us"
      from 2(3) Some False obtain n where "read_page h lo hi ts ?us = (n, crossed, vs)" by (auto split: prod.splits)
      moreover have "\<forall>u \<in> set ?us. w \<le> created_at u" using 2(4,5) False by auto
      ultimately show ?thesis using 2(2) [OF Some False] 2(4) by blast
    qed
  qed
qed simp

lemma fall_back_verdict: "verdict (fall_back r s) \<noteq> Complete us"
  by (auto simp: fall_back_def give_up_def stop_def Let_def split: option.split sum.split)

lemma give_up_verdict: "verdict (give_up r c cur us t) \<noteq> Complete vs"
  by (simp add: give_up_def stop_def split: sum.split)

lemma page_step_window:
  assumes "not_before w s"
  shows "case page_step r s of Inl s' \<Rightarrow> not_before w s'
    | Inr e \<Rightarrow> (\<forall>us. verdict e = Complete us \<longrightarrow> (\<forall>u \<in> set us. w \<le> created_at u))"
proof -
  obtain a m where fetched: "fetch_page (source_api r) (cursor s) (calls s) 3 = (a, m)" by fastforce
  show ?thesis
  proof (cases a)
    case (Answer ts following)
    obtain k crossed us where read:
      "read_page (handle r) (segment_start (mark s)) (segment_end (mark s)) ts (acc s) = (k, crossed, us)"
      by (metis prod_cases3)
    have "\<forall>u \<in> set us. w \<le> created_at u" using read_page_window [OF read] assms by (simp add: not_before_def)
    then have us: "\<forall>u \<in> set (dedupe_updates us). w \<le> created_at u" using dedupe_posts(1) [of us] by blast
    have ends: "w \<le> segment_start (mark s)" "segment_start (mark s) \<le> segment_end (mark s)"
      using assms by (simp_all add: not_before_def)
    note step = page_step_answer [OF fetched [unfolded Answer] read]
    show ?thesis
    proof (cases "if crossed then None else following")
      case None
      show ?thesis unfolding step Let_def None option.case using us ends
        by (auto simp: not_before_def bumped_def stop_def give_up_verdict split: sum.split)
    next
      case (Some x)
      show ?thesis unfolding step Let_def Some option.case using us ends
        by (auto simp: not_before_def bumped_def stop_def give_up_verdict split: sum.split)
    qed
  qed (use fetched fall_back_verdict in \<open>simp_all add: page_step_def stop_def\<close>)
qed

lemma page_loop_window:
  assumes "page_loop r s = Some e" "not_before w s" "verdict e = Complete us" "u \<in> set us"
  shows "w \<le> created_at u"
proof -
  from assms(1) obtain x where x: "while_option isl (\<lambda>x. page_step r (projl x)) (Inl s) = Some x" "e = projr x"
    by (auto simp: page_loop_def)
  let ?P = "\<lambda>x. case x of Inl s \<Rightarrow> not_before w s
    | Inr e \<Rightarrow> (\<forall>us. verdict e = Complete us \<longrightarrow> (\<forall>u \<in> set us. w \<le> created_at u))"
  have "?P x"
  proof (rule while_option_rule [where P = ?P, OF _ x(1)])
    fix y assume "?P y" "isl y"
    then show "?P (page_step r (projl y))" using page_step_window by (auto simp: isl_def)
  qed (simp add: assms(2))
  moreover have "\<not> isl x" using while_option_stop [OF x(1)] by simp
  ultimately show ?thesis using x(2) assms(3,4) by (cases x) auto
qed

text \<open>
  C36: A run that takes up a checkpoint whose window begins after the one asked for reports its window
  as complete although nothing before the checkpoint's window was read.
\<close>

theorem young_checkpoint_leaves_gap:
  assumes "get_checkpoint (sha r) (env r) (clock r) (normalize_handle (handle r)) (from_time r) (until_time r) (replies r)
      (allow_older r) store = Inr (Some c)"
    and "storable (sha r) c" "segment_end c \<le> until_time r" "\<forall>u \<in> set (ck_updates c). window_start c \<le> created_at u"
    and "source_timeline r store = Some e" "verdict e = Complete us"
  shows "\<forall>u \<in> set us. window_start c \<le> created_at u"
proof
  fix u assume u: "u \<in> set us"
  let ?s = "\<lparr>mark = tidy c, acc = ck_updates (tidy c), cursor = next_cursor c, seen_cursors = [], run_raw = 0, calls = 0, kept = store\<rparr>"
  have start: "start_run (clean r) store = Inr ?s"
    using assms(1,3) sanitize_back [OF assms(2)] by (simp add: start_run_def clean_def)
  have "not_before (window_start c) ?s"
    using assms(2,4) dedupe_posts(1) [of "ck_updates c"] by (auto simp: not_before_def storable_def)
  moreover have "page_loop (clean r) ?s = Some e"
  proof -
    have "verdict (stop q Unavailable t p) \<noteq> Complete us" for q t p by (simp add: stop_def)
    then show ?thesis using assms(5,6) fall_back_verdict unfolding source_timeline_def Let_def start sum.case
      by (metis (no_types) option.inject)
  qed
  ultimately show "window_start c \<le> created_at u" using page_loop_window assms(6) u by blast
qed

section \<open>Examples\<close>

definition demo_tweet :: "pystr \<Rightarrow> instant \<Rightarrow> tweet" where
  "demo_tweet i at = \<lparr>converted = Some (demo_post i ''hello'' at ''9''), retweeted = False\<rparr>"

definition demo_timeline :: "tweet list" where
  "demo_timeline = [demo_tweet ''2'' 40, demo_tweet ''1'' 10]"

definition demo_provider :: provider where
  "demo_provider = \<lparr>profile = (\<lambda>_. True), scoped_identity = False,
     reply = (\<lambda>k cur. case cur of None \<Rightarrow> Answer demo_timeline None | Some x \<Rightarrow> Answer [] None),
     public_feed = (\<lambda>a b. None)\<rparr>"

definition demo_request :: request where
  "demo_request = \<lparr>sha = (#) CHR ''k'', env = plain_env, clock = 50, configured = [''fan''], handle = ''fan'', replies = True,
     from_time = 0, until_time = 50, budget = 200, allow_older = True, fallbacks = 0, source_api = demo_provider\<rparr>"

definition demo_past :: history where
  "demo_past = \<lparr>pages = {}, checkpoints = [], latest_start = (\<lambda>h rep. 0)\<rparr>"

lemma demo_post_sound: "0 \<le> t \<Longrightarrow> t \<le> 100 \<Longrightarrow> sound_post (demo_post i ''hello'' t ''9'')"
  using demo_small by (simp add: sound_post_def demo_post_def wf_update_def reloadable_def py_strip_def py_space_def py_lstrip_at_def)

lemma demo_own: "own_post ''fan'' (demo_tweet i t) = Some (demo_post i ''hello'' t ''9'')"
  by (simp add: own_post_def demo_tweet_def) (simp add: demo_post_def)

lemma demo_created [simp]: "created_at (demo_post i b t c) = t" "upd_id (demo_post i b t c) = i" "author (demo_post i b t c) = ''fan''"
  by (simp_all add: demo_post_def)

lemma demo_request_clean: "clean demo_request = demo_request"
  by (simp add: clean_def demo_request_def demo_fan)

lemma demo_proper: "proper_tweets demo_timeline"
  by (simp add: proper_tweets_def demo_timeline_def demo_tweet_def demo_post_sound)

lemma demo_serving:
  assumes "source_api r = demo_provider"
  shows "serves r"
  using demo_proper assms by (auto simp: serves_def demo_provider_def proper_tweets_def split: option.splits)

lemma demo_fits: "fits demo_request"
  by (simp add: fits_def demo_request_def demo_fan demo_small)

lemma loop_stop: "page_step r s = Inr e \<Longrightarrow> page_loop r s = Some e"
  by (simp add: page_loop_def while_option_unfold [of isl])

lemma demo_read:
  "40 < hi \<Longrightarrow> read_page ''fan'' 0 hi demo_timeline [] =
     (2, False, [demo_post ''2'' ''hello'' 40 ''9'', demo_post ''1'' ''hello'' 10 ''9''])"
  by (simp add: demo_timeline_def demo_own) (simp add: demo_tweet_def)

lemma dedupe_two:
  "a \<noteq> b \<Longrightarrow> a \<noteq> [] \<Longrightarrow> b \<noteq> [] \<Longrightarrow> s < t \<Longrightarrow>
    dedupe_updates [demo_post b ''hello'' t ''9'', demo_post a ''hello'' s ''9''] = [demo_post a ''hello'' s ''9'', demo_post b ''hello'' t ''9'']"
  by (simp add: dedupe_updates_def chosen_posts_def)

lemma demo_runs:
  assumes "handle r = ''fan''" "configured r = [''fan'']" "source_api r = demo_provider" "from_time r = 0" "40 < until_time r"
    and "1 \<le> budget r"
  shows "source_timeline r [] = Some \<lparr>verdict = Complete [demo_post ''1'' ''hello'' 10 ''9'', demo_post ''2'' ''hello'' 40 ''9''],
     left_store = [], partial = None, fallbacks_used = fallbacks r\<rparr>"
proof -
  let ?c = "new_checkpoint r"
  let ?s = "\<lparr>mark = ?c, acc = [], cursor = None, seen_cursors = [], run_raw = 0, calls = 0, kept = []\<rparr>"
  have clean: "clean r = r" using assms(1,6) by (cases r) (simp add: clean_def demo_fan)
  have "get_checkpoint (sha r) (env r) (clock r) (handle r) (from_time r) (until_time r) (replies r) (allow_older r) [] = Inr None"
    by (simp add: get_checkpoint_def dict_get_def sanitize_checkpoint_def)
  then have start: "start_run r [] = Inr ?s" by (simp add: start_run_def new_checkpoint_def)
  have fetched: "fetch_page (source_api r) (cursor ?s) (calls ?s) 3 = (Answer demo_timeline None, 1)"
    by (simp add: numeral_3_eq_3 assms(3) demo_provider_def)
  have read: "read_page (handle r) (segment_start (mark ?s)) (segment_end (mark ?s)) demo_timeline (acc ?s) =
      (2, False, [demo_post ''2'' ''hello'' 40 ''9'', demo_post ''1'' ''hello'' 10 ''9''])"
    using demo_read [OF assms(5)] assms(1,4) by (simp add: new_checkpoint_def)
  have "page_step r ?s = Inr (stop r (Complete [demo_post ''1'' ''hello'' 10 ''9'', demo_post ''2'' ''hello'' 40 ''9'']) [] None)"
    unfolding page_step_answer [OF fetched read]
    by (simp add: dedupe_two new_checkpoint_def clear_checkpoint_def prune_rows_def keyed_rows_def Let_def)
  from loop_stop [OF this] show ?thesis
    unfolding source_timeline_def Let_def clean start sum.case
    by (simp add: stop_def assms(1-3) lookup_user_def demo_fan upt_rec) (simp add: demo_provider_def)
qed

lemma demo_run:
  "source_timeline demo_request [] = Some \<lparr>verdict = Complete [demo_post ''1'' ''hello'' 10 ''9'', demo_post ''2'' ''hello'' 40 ''9''],
     left_store = [], partial = None, fallbacks_used = 0\<rparr>"
proof -
  have "source_timeline demo_request [] = Some \<lparr>verdict = Complete [demo_post ''1'' ''hello'' 10 ''9'', demo_post ''2'' ''hello'' 40 ''9''],
     left_store = [], partial = None, fallbacks_used = fallbacks demo_request\<rparr>"
    by (rule demo_runs) (simp_all add: demo_request_def)
  then show ?thesis by (simp add: demo_request_def)
qed

lemma save_only:
  assumes "storable sha_fn c" "store = [] \<or> (\<exists>v. store = [(checkpoint_id c, v)])"
  shows "save_checkpoint sha_fn pe now (checkpoint_json c) store = Inr [(checkpoint_id c, checkpoint_json (tidy c))]"
proof -
  have "AList.update (checkpoint_id (tidy c)) (checkpoint_json (tidy c)) store = [(checkpoint_id c, checkpoint_json (tidy c))]"
    using assms(2) by auto
  then show ?thesis
    by (simp add: save_checkpoint_def sanitize_back [OF assms(1)] prune_rows_def
        sanitize_back [OF storable_tidy [OF assms(1)]] keyed_rows_def)
qed

text \<open>A provider with two pages: a first run is cut off by its budget, a later one takes up its checkpoint.\<close>

definition paged_provider :: provider where
  "paged_provider = demo_provider\<lparr>reply := (\<lambda>k cur. if cur = None then Answer [demo_tweet ''2'' 40] (Some ''c'')
     else Answer [demo_tweet ''1'' 10] None)\<rparr>"

definition first_request :: request where
  "first_request = demo_request\<lparr>budget := 1, source_api := paged_provider\<rparr>"

definition second_request :: request where
  "second_request = demo_request\<lparr>until_time := 60, clock := 60, source_api := paged_provider\<rparr>"

definition halfway :: checkpoint where
  "halfway = (new_checkpoint first_request)\<lparr>next_cursor := Some ''c'', pages_completed := 1, raw_seen := 1,
     ck_updates := [demo_post ''2'' ''hello'' 40 ''9'']\<rparr>"

lemma paged_serves: "serves r" if "source_api r = paged_provider"
  by (auto simp: serves_def that paged_provider_def demo_provider_def proper_tweets_def demo_tweet_def demo_post_sound split: if_splits)

lemma one_post [simp]: "i \<noteq> [] \<Longrightarrow> dedupe_updates [demo_post i b t c] = [demo_post i b t c]"
  by (simp add: dedupe_updates_def chosen_posts_def)

lemma halfway_storable: "storable ((#) CHR ''k'') halfway" "tidy halfway = halfway"
  by (simp_all add: halfway_def new_checkpoint_def first_request_def demo_request_def storable_def demo_fan demo_small tidy_def
      post_of_def demo_post_sound) (simp add: checkpoint_key_def)

lemma first_run:
  "source_timeline first_request [] = Some \<lparr>verdict = Incomplete, left_store = [(checkpoint_id halfway, checkpoint_json halfway)],
     partial = Some [demo_post ''2'' ''hello'' 40 ''9''], fallbacks_used = 0\<rparr>"
proof -
  let ?r = first_request
  let ?s = "\<lparr>mark = new_checkpoint ?r, acc = [], cursor = None, seen_cursors = [], run_raw = 0, calls = 0, kept = []\<rparr>"
  have fields: "handle ?r = ''fan''" "configured ?r = [''fan'']" "budget ?r = 1" "source_api ?r = paged_provider" "sha ?r = (#) CHR ''k''"
    "from_time ?r = 0" "until_time ?r = 50" "clock ?r = 50" "fallbacks ?r = 0" "replies ?r"
    by (simp_all add: first_request_def demo_request_def)
  have clean: "clean ?r = ?r" by (simp add: clean_def first_request_def demo_request_def demo_fan)
  have "get_checkpoint (sha ?r) (env ?r) (clock ?r) (handle ?r) (from_time ?r) (until_time ?r) (replies ?r) (allow_older ?r) [] = Inr None"
    by (simp add: get_checkpoint_def dict_get_def sanitize_checkpoint_def)
  then have start: "start_run ?r [] = Inr ?s" by (simp add: start_run_def new_checkpoint_def)
  have fetched: "fetch_page (source_api ?r) (cursor ?s) (calls ?s) 3 = (Answer [demo_tweet ''2'' 40] (Some ''c''), 1)"
    by (simp add: numeral_3_eq_3 fields paged_provider_def)
  have read: "read_page (handle ?r) (segment_start (mark ?s)) (segment_end (mark ?s)) [demo_tweet ''2'' 40] (acc ?s) =
      (1, False, [demo_post ''2'' ''hello'' 40 ''9''])"
    by (simp add: fields new_checkpoint_def demo_own) (simp add: demo_tweet_def)
  have "persist ?r ((bumped (mark ?s) 1)\<lparr>next_cursor := Some ''c''\<rparr>) [demo_post ''2'' ''hello'' 40 ''9''] [] =
      Inr [(checkpoint_id halfway, checkpoint_json halfway)]"
  proof -
    have "(bumped (mark ?s) 1)\<lparr>next_cursor := Some ''c'', ck_updates := [demo_post ''2'' ''hello'' 40 ''9''], ck_updated := clock ?r\<rparr> = halfway"
      by (simp add: bumped_def halfway_def new_checkpoint_def)
    then show ?thesis using save_only [OF halfway_storable(1), of "[]"] by (simp add: persist_def fields halfway_storable)
  qed
  then have "page_step ?r ?s = Inr (stop ?r Incomplete [(checkpoint_id halfway, checkpoint_json halfway)] (Some [demo_post ''2'' ''hello'' 40 ''9'']))"
    unfolding page_step_answer [OF fetched read] by (simp add: Let_def fields)
  from loop_stop [OF this] show ?thesis
    unfolding source_timeline_def Let_def clean start sum.case
    by (simp add: stop_def fields lookup_user_def demo_fan upt_rec) (simp add: paged_provider_def demo_provider_def)
qed

definition resumed :: checkpoint where
  "resumed = halfway\<lparr>segment_start := 50, segment_end := 60, next_cursor := None, pages_completed := 0, ck_retries := 0, raw_seen := 0,
     ck_updates := [demo_post ''1'' ''hello'' 10 ''9'', demo_post ''2'' ''hello'' 40 ''9''], ck_updated := 60\<rparr>"

lemma both_posts:
  "dedupe_updates [demo_post ''2'' ''hello'' 40 ''9'', demo_post ''1'' ''hello'' 10 ''9''] = [demo_post ''1'' ''hello'' 10 ''9'', demo_post ''2'' ''hello'' 40 ''9'']"
  "dedupe_updates [demo_post ''1'' ''hello'' 10 ''9'', demo_post ''2'' ''hello'' 40 ''9''] = [demo_post ''1'' ''hello'' 10 ''9'', demo_post ''2'' ''hello'' 40 ''9'']"
  by (simp_all add: dedupe_updates_def chosen_posts_def)

lemma resumed_storable: "storable ((#) CHR ''k'') resumed" "checkpoint_id resumed = checkpoint_id halfway"
  by (simp_all add: resumed_def halfway_def new_checkpoint_def first_request_def demo_request_def storable_def demo_fan demo_small
      post_of_def demo_post_sound) (simp add: checkpoint_key_def)

lemma second_found:
  "get_checkpoint ((#) CHR ''k'') plain_env 60 ''fan'' 0 60 True True [(checkpoint_id halfway, checkpoint_json halfway)] = Inr (Some halfway)"
proof -
  let ?store = "[(checkpoint_id halfway, checkpoint_json halfway)]"
  note reread = sanitize_back [OF halfway_storable(1), unfolded halfway_storable(2)]
  have exact: "sanitize_checkpoint ((#) CHR ''k'') plain_env 60 (dict_get ?store k JNull) =
      Inr (if checkpoint_id halfway = k then Some halfway else None)" for k
    by (simp add: dict_get_def reread) (simp add: sanitize_checkpoint_def)
  have "ck_source halfway = ''fan''" "ck_replies halfway" "segment_end halfway = 50"
    by (simp_all add: halfway_def new_checkpoint_def first_request_def demo_request_def)
  then show ?thesis by (simp add: get_checkpoint_def Let_def exact demo_fan reread)
qed

lemma second_run:
  "source_timeline second_request [(checkpoint_id halfway, checkpoint_json halfway)] =
     Some \<lparr>verdict = Complete [demo_post ''1'' ''hello'' 10 ''9'', demo_post ''2'' ''hello'' 40 ''9''], left_store = [],
       partial = None, fallbacks_used = 0\<rparr>"
proof -
  let ?r = second_request and ?a = "demo_post ''1'' ''hello'' 10 ''9''" and ?b = "demo_post ''2'' ''hello'' 40 ''9''"
  let ?store = "[(checkpoint_id halfway, checkpoint_json halfway)]"
  let ?s = "\<lparr>mark = halfway, acc = [?b], cursor = Some ''c'', seen_cursors = [], run_raw = 0, calls = 0, kept = ?store\<rparr>"
  let ?d = "(bumped halfway 1)\<lparr>segment_start := 50, segment_end := 60, next_cursor := None, raw_seen := 0, pages_completed := 0\<rparr>"
  let ?t = "[(checkpoint_id halfway, checkpoint_json (tidy resumed))]"
  let ?s2 = "\<lparr>mark = ?d, acc = [?a, ?b], cursor = None, seen_cursors = [], run_raw = 1, calls = 1, kept = ?t\<rparr>"
  have fields: "handle ?r = ''fan''" "configured ?r = [''fan'']" "source_api ?r = paged_provider" "sha ?r = (#) CHR ''k''"
    "from_time ?r = 0" "until_time ?r = 60" "clock ?r = 60" "fallbacks ?r = 0" "replies ?r" "env ?r = plain_env" "allow_older ?r"
    by (simp_all add: second_request_def demo_request_def)
  have half: "segment_start halfway = 0" "segment_end halfway = 50" "ck_updates halfway = [?b]" "next_cursor halfway = Some ''c''"
    by (simp_all add: halfway_def new_checkpoint_def first_request_def demo_request_def)
  have clean: "clean ?r = ?r" by (simp add: clean_def second_request_def demo_request_def demo_fan)
  have start: "start_run ?r ?store = Inr ?s"
    using second_found sanitize_back [OF halfway_storable(1), unfolded halfway_storable(2)]
    by (simp add: start_run_def fields half)
  have fetched: "fetch_page (source_api ?r) (cursor ?s) (calls ?s) 3 = (Answer [demo_tweet ''1'' 10] None, 1)"
    by (simp add: numeral_3_eq_3 fields paged_provider_def)
  have read: "read_page (handle ?r) (segment_start (mark ?s)) (segment_end (mark ?s)) [demo_tweet ''1'' 10] (acc ?s) = (1, False, [?b, ?a])"
    by (simp add: fields half demo_own) (simp add: demo_tweet_def)
  have "?d\<lparr>ck_updates := [?a, ?b], ck_updated := 60\<rparr> = resumed" by (simp add: bumped_def resumed_def halfway_def)
  then have "persist ?r ?d [?a, ?b] ?store = Inr ?t"
    using save_only [OF resumed_storable(1), of ?store] resumed_storable(2) by (simp add: persist_def fields both_posts)
  then have step: "page_step ?r ?s = Inl ?s2"
    unfolding page_step_answer [OF fetched read] by (simp add: Let_def fields half both_posts)
  have fetched2: "fetch_page (source_api ?r) (cursor ?s2) (calls ?s2) 3 = (Answer [demo_tweet ''2'' 40] (Some ''c''), 2)"
    by (simp add: numeral_3_eq_3 fields paged_provider_def)
  have read2: "read_page (handle ?r) (segment_start (mark ?s2)) (segment_end (mark ?s2)) [demo_tweet ''2'' 40] (acc ?s2) = (1, True, [?a, ?b])"
    by (simp add: fields demo_own)
  have "page_step ?r ?s2 = Inr (stop ?r (Complete [?a, ?b]) [] None)"
    unfolding page_step_answer [OF fetched2 read2]
    by (simp add: Let_def fields both_posts clear_checkpoint_def prune_rows_def keyed_rows_def bumped_def)
  then have "page_loop ?r ?s = Some (stop ?r (Complete [?a, ?b]) [] None)"
    using step by (simp add: page_loop_def while_option_unfold [of isl])
  then show ?thesis
    unfolding source_timeline_def Let_def clean start sum.case
    by (simp add: stop_def fields lookup_user_def demo_fan upt_rec) (simp add: paged_provider_def demo_provider_def)
qed

lemma paged_legal:
  assumes "r = first_request \<or> r = second_request" "latest_start n ''fan'' True \<le> 0"
  shows "legal_request {(''fan'', 0, True)} n r"
proof -
  have clean: "clean r = r"
    using assms(1) by (auto simp: clean_def first_request_def second_request_def demo_request_def demo_fan)
  have "source_api r = paged_provider" "fits r" "asked_now r = (''fan'', 0, True)" "handle r = ''fan''" "replies r" "from_time r = 0"
    using assms(1) by (auto simp: first_request_def second_request_def demo_request_def fits_def asked_now_def demo_fan demo_small)
  with paged_serves assms(2) show ?thesis by (simp add: legal_request_def clean demo_fan)
qed


theorem old_head_post_ends_run_witness:
  "\<exists>r. source_timeline r [] = Some (stop r (Complete []) [] None) \<and> from_time r = 20 \<and> until_time r = 50 \<and>
     reply (source_api r) 0 None = Answer [demo_tweet ''1'' 10, demo_tweet ''2'' 40] None"
proof -
  let ?p = "demo_provider\<lparr>reply := \<lambda>k cur. Answer [demo_tweet ''1'' 10, demo_tweet ''2'' 40] None\<rparr>"
  let ?r = "demo_request\<lparr>from_time := 20, source_api := ?p\<rparr>"
  have "source_timeline ?r [] = Some (stop ?r (Complete []) [] None)"
    by (rule old_head_post_ends_run [where t = "demo_tweet ''1'' 10" and u = "demo_post ''1'' ''hello'' 10 ''9''"])
      (simp_all add: demo_request_def demo_fan demo_own lookup_user_def demo_provider_def upt_rec)
  then show ?thesis by (intro exI [of _ ?r]) (simp add: demo_request_def)
qed


lemma demo_young:
  "get_checkpoint ((#) CHR ''k'') plain_env 50 ''fan'' 0 50 True True
     [(checkpoint_id demo_checkpoint, checkpoint_json demo_checkpoint)] = Inr (Some demo_checkpoint)"
proof -
  let ?store = "[(checkpoint_id demo_checkpoint, checkpoint_json demo_checkpoint)]"
  note reread = sanitize_back [OF demo_storable, unfolded demo_tidy]
  have exact: "sanitize_checkpoint ((#) CHR ''k'') plain_env 50 (dict_get ?store k JNull) =
      Inr (if checkpoint_id demo_checkpoint = k then Some demo_checkpoint else None)" for k
    by (simp add: dict_get_def reread) (simp add: sanitize_checkpoint_def)
  have "ck_source demo_checkpoint = ''fan''" "ck_replies demo_checkpoint" "segment_end demo_checkpoint = 50"
    by (simp_all add: demo_checkpoint_def)
  then show ?thesis by (simp add: get_checkpoint_def Let_def exact demo_fan reread)
qed

lemma demo_young_run:
  "\<exists>t. source_timeline demo_request [(checkpoint_id demo_checkpoint, checkpoint_json demo_checkpoint)] =
     Some (stop demo_request (Complete [demo_post ''2'' ''hello'' 40 ''9'']) t None)"
proof -
  let ?store = "[(checkpoint_id demo_checkpoint, checkpoint_json demo_checkpoint)]"
  let ?s = "\<lparr>mark = demo_checkpoint, acc = [], cursor = None, seen_cursors = [], run_raw = 0, calls = 0, kept = ?store\<rparr>"
  have start: "start_run demo_request ?store = Inr ?s"
    using demo_young sanitize_back [OF demo_storable, unfolded demo_tidy]
    by (simp add: start_run_def demo_request_def) (simp add: demo_checkpoint_def)
  have fetched: "fetch_page (source_api demo_request) (cursor ?s) (calls ?s) 3 = (Answer demo_timeline None, 1)"
    by (simp add: numeral_3_eq_3 demo_request_def demo_provider_def)
  have read: "read_page (handle demo_request) (segment_start (mark ?s)) (segment_end (mark ?s)) demo_timeline (acc ?s) =
      (2, True, [demo_post ''2'' ''hello'' 40 ''9''])"
    by (simp add: demo_request_def demo_checkpoint_def demo_timeline_def demo_own) (simp add: demo_tweet_def)
  obtain t where "clear_checkpoint ((#) CHR ''k'') plain_env 50 (checkpoint_id demo_checkpoint) ?store = Inr t"
    by (simp add: clear_checkpoint_def prune_rows_def)
  moreover have "segment_end demo_checkpoint = 50" by (simp add: demo_checkpoint_def)
  moreover have "dedupe_updates [demo_post ''2'' ''hello'' 40 ''9''] = [demo_post ''2'' ''hello'' 40 ''9'']"
    by (simp add: dedupe_updates_def chosen_posts_def)
  ultimately have "page_step demo_request ?s = Inr (stop demo_request (Complete [demo_post ''2'' ''hello'' 40 ''9'']) t None)"
    unfolding page_step_answer [OF fetched read] by (simp add: Let_def) (simp add: demo_request_def)
  from loop_stop [OF this] show ?thesis
    unfolding source_timeline_def Let_def demo_request_clean start sum.case
    by (auto simp: demo_request_def demo_provider_def lookup_user_def demo_fan upt_rec)
qed

theorem young_checkpoint_leaves_gap_witness:
  "demo_tweet ''1'' 10 \<in> set demo_timeline \<and> from_time demo_request \<le> 10 \<and>
   (\<exists>us e. source_timeline demo_request [(checkpoint_id demo_checkpoint, checkpoint_json demo_checkpoint)] = Some e \<and>
     verdict e = Complete us \<and> demo_post ''1'' ''hello'' 10 ''9'' \<notin> set us)"
proof -
  let ?store = "[(checkpoint_id demo_checkpoint, checkpoint_json demo_checkpoint)]"
  obtain t where run: "source_timeline demo_request ?store = Some (stop demo_request (Complete [demo_post ''2'' ''hello'' 40 ''9'']) t None)"
    using demo_young_run by blast
  have found: "get_checkpoint (sha demo_request) (env demo_request) (clock demo_request) (normalize_handle (handle demo_request))
      (from_time demo_request) (until_time demo_request) (replies demo_request) (allow_older demo_request) ?store = Inr (Some demo_checkpoint)"
    using demo_young by (simp add: demo_request_def demo_fan)
  have "storable (sha demo_request) demo_checkpoint" using demo_storable by (simp add: demo_request_def)
  from young_checkpoint_leaves_gap [OF found this _ _ run]
  have "\<forall>u \<in> set [demo_post ''2'' ''hello'' 40 ''9'']. window_start demo_checkpoint \<le> created_at u"
    by (simp add: demo_checkpoint_def demo_request_def stop_def)
  moreover have "window_start demo_checkpoint = 20" by (simp add: demo_checkpoint_def)
  moreover have "verdict (stop demo_request (Complete [demo_post ''2'' ''hello'' 40 ''9'']) t None) = Complete [demo_post ''2'' ''hello'' 40 ''9'']"
    by (simp add: stop_def)
  moreover have "demo_post ''1'' ''hello'' 10 ''9'' \<noteq> demo_post ''2'' ''hello'' 40 ''9''" by (simp add: demo_post_def)
  ultimately show ?thesis using run
    by (intro conjI exI [of _ "[demo_post ''2'' ''hello'' 40 ''9'']"] exI)
      (auto simp: demo_timeline_def demo_request_def)
qed

end
