(* ===== verification/SourceModes.thy ===== *)
theory SourceModes
  imports Checkpoints
begin

text \<open>
  The configured sources of \<open>app/source_modes.py\<close>: parsing one source, the mapping it is stored as,
  the content filter and the gate that admits the posts of a source, and the source lists of
  \<open>app/config.py\<close>. Text is Latin-1, so the Hangul keyword and the emojis of the defaults, which no
  such text contains, are absent.
\<close>

section \<open>One source\<close>

datatype source_mode = FullFeed | KeywordFilter

record source_config =
  src_handle :: pystr
  src_label :: pystr
  src_enabled :: bool
  src_priority :: int
  src_replies :: bool
  src_mode :: source_mode
  src_keywords :: "pystr list"
  src_emojis :: "pystr list"

definition mode_text :: "source_mode \<Rightarrow> pystr" where
  "mode_text m = (case m of FullFeed \<Rightarrow> ''full_feed'' | KeywordFilter \<Rightarrow> ''keyword_filter'')"

definition parse_mode :: "pystr \<Rightarrow> py_exc + source_mode" where
  "parse_mode s =
     (if s = [] then Inr FullFeed
      else if s = ''full_feed'' then Inr FullFeed
      else if s = ''keyword_filter'' then Inr KeywordFilter
      else Inl ValueError)"

definition default_keywords :: "pystr list" where
  "default_keywords = [''Yoon Jeonghan'', ''jeonghan'', ''Hannie'', ''Hanie'', ''Hani'']"

definition yes_words :: "pystr list" where "yes_words = [''true'', ''1'', ''yes'', ''on'']"
definition no_words :: "pystr list" where "no_words = [''false'', ''0'', ''no'', ''off'']"

text \<open>\<open>_bool_value\<close>; \<open>raw in (0, 1)\<close> compares by value, so the floats 0.0 and 1.0 pass.\<close>

definition float_is_one :: "int \<Rightarrow> int \<Rightarrow> bool" where
  "float_is_one m e \<longleftrightarrow> (if 0 \<le> e then m * 2 ^ nat e = 1 else m = 2 ^ nat (- e))"

fun bool_value :: "bool \<Rightarrow> json \<Rightarrow> py_exc + bool" where
  "bool_value d JNull = Inr d"
| "bool_value d (JBool b) = Inr b"
| "bool_value d (JInt i) = (if i = 0 \<or> i = 1 then Inr (i = 1) else Inl ValueError)"
| "bool_value d (JFloat f) =
     (case f of
        Fin m e \<Rightarrow> if m = 0 then Inr False else if float_is_one m e then Inr True else Inl ValueError
      | _ \<Rightarrow> Inl ValueError)"
| "bool_value d (JStr s) =
     (let v = py_casefold (py_strip s)
      in if v \<in> set yes_words then Inr True else if v \<in> set no_words then Inr False else Inl ValueError)"
| "bool_value d _ = Inl ValueError"

definition get_or_null :: "pydict \<Rightarrow> pystr \<Rightarrow> json" where
  "get_or_null d k = dict_get d k JNull"

text \<open>A list of words: absent, or a list whose stripped texts are kept unless empty.\<close>

definition word_list :: "pyenv \<Rightarrow> pystr list \<Rightarrow> json \<Rightarrow> py_exc + pystr list" where
  "word_list env d v = (case v of
       JNull \<Rightarrow> Inr d
     | JList xs \<Rightarrow> Inr (filter (\<lambda>w. w \<noteq> []) (map (\<lambda>x. py_strip (py_str (float_text env) x)) xs))
     | _ \<Rightarrow> Inl ValueError)"

definition read_priority :: "json \<Rightarrow> py_exc + int" where
  "read_priority v = (case py_int v of Inl e \<Rightarrow> Inl (if e = TypeError then ValueError else e) | Inr i \<Rightarrow> Inr i)"

definition source_handle :: "pystr \<Rightarrow> pystr" where
  "source_handle s = py_lower (py_strip (py_lstrip_at s))"

definition from_mapping :: "pyenv \<Rightarrow> json \<Rightarrow> py_exc + source_config" where
  "from_mapping env v = (case v of
     JObj d \<Rightarrow>
       (let words = (\<lambda>k. py_str (float_text env) (dict_get d k (JStr [])));
            h = source_handle (words ''handle'');
            label = or_default (py_strip (words ''label'')) h
        in bindE (parse_mode (py_lower (py_strip (words ''mode'')))) (\<lambda>m.
           bindE (read_priority (dict_get d ''priority'' (JInt 100))) (\<lambda>p.
           bindE (word_list env default_keywords (get_or_null d ''keywords'')) (\<lambda>ks.
           bindE (word_list env [] (get_or_null d ''emojis'')) (\<lambda>es.
           bindE (bool_value True (get_or_null d ''enabled'')) (\<lambda>on.
           bindE (bool_value True (get_or_null d ''include_replies'')) (\<lambda>rep.
             Inr \<lparr>src_handle = h, src_label = label, src_enabled = on, src_priority = p, src_replies = rep,
                  src_mode = m, src_keywords = ks, src_emojis = es\<rparr>)))))))
   | _ \<Rightarrow> Inl ValueError)"

definition to_mapping :: "source_config \<Rightarrow> json" where
  "to_mapping c = JObj
     [(''handle'', JStr (src_handle c)), (''label'', JStr (src_label c)), (''enabled'', JBool (src_enabled c)),
      (''priority'', JInt (src_priority c)), (''include_replies'', JBool (src_replies c)),
      (''mode'', JStr (mode_text (src_mode c))), (''keywords'', JList (map JStr (src_keywords c))),
      (''emojis'', JList (map JStr (src_emojis c)))]"

section \<open>The source lists of the configuration\<close>

text \<open>The priority list shares one content filter; a source that has words of its own keeps them.\<close>

definition set_default :: "pystr \<Rightarrow> json \<Rightarrow> pydict \<Rightarrow> pydict" where
  "set_default k v d = (case map_of d k of None \<Rightarrow> d @ [(k, v)] | Some _ \<Rightarrow> d)"

definition with_filter :: "pydict \<Rightarrow> json \<Rightarrow> json" where
  "with_filter flt v = (case v of
       JObj d \<Rightarrow> JObj (set_default ''emojis'' (get_or_null flt ''emojis'')
                   (set_default ''keywords'' (get_or_null flt ''keywords'') d))
     | _ \<Rightarrow> v)"

text \<open>\<open>None\<close> is \<open>ConfigError\<close>; an \<open>OverflowError\<close> escapes the loader.\<close>

fun normalize_sources :: "pyenv \<Rightarrow> json list \<Rightarrow> py_exc + source_config list option" where
  "normalize_sources env [] = Inr (Some [])"
| "normalize_sources env (v # vs) =
     (case from_mapping env v of
        Inl e \<Rightarrow> if e \<in> {TypeError, ValueError} then Inr None else Inl e
      | Inr c \<Rightarrow> bindE (normalize_sources env vs) (\<lambda>r. Inr (map_option ((#) c) r)))"

definition load_sources :: "pyenv \<Rightarrow> json list \<Rightarrow> json list \<Rightarrow> json \<Rightarrow> py_exc + source_config list option" where
  "load_sources env base prio flt = (case flt of
       JObj f \<Rightarrow> normalize_sources env (base @ map (with_filter f) prio)
     | _ \<Rightarrow> Inr None)"

section \<open>The content filter\<close>

definition ascii_alnum :: "char \<Rightarrow> bool" where
  "ascii_alnum c \<longleftrightarrow> is_digit c \<or> (CHR ''a'' \<le> c \<and> c \<le> CHR ''z'') \<or> (CHR ''A'' \<le> c \<and> c \<le> CHR ''Z'')"

definition is_ascii :: "pystr \<Rightarrow> bool" where
  "is_ascii s \<longleftrightarrow> list_all (\<lambda>c. (of_char c :: nat) < 128) s"

text \<open>Only an ASCII keyword with a letter or digit at both ends is bounded by the lookarounds.\<close>

definition bounded_word :: "pystr \<Rightarrow> bool" where
  "bounded_word w \<longleftrightarrow> w \<noteq> [] \<and> is_ascii w \<and> ascii_alnum (hd w) \<and> ascii_alnum (last w)"

definition word_here :: "pystr \<Rightarrow> char option \<Rightarrow> pystr \<Rightarrow> bool" where
  "word_here w before_c s \<longleftrightarrow>
     py_lower (take (length w) s) = py_lower w \<and>
     (bounded_word w \<longrightarrow>
        (case before_c of None \<Rightarrow> True | Some c \<Rightarrow> \<not> handle_char c) \<and>
        (case drop (length w) s of [] \<Rightarrow> True | c # _ \<Rightarrow> \<not> handle_char c))"

fun word_occurs :: "pystr \<Rightarrow> char option \<Rightarrow> pystr \<Rightarrow> bool" where
  "word_occurs w b [] = word_here w b []"
| "word_occurs w b (c # s) = (word_here w b (c # s) \<or> word_occurs w (Some c) s)"

fun text_contains :: "pystr \<Rightarrow> pystr \<Rightarrow> bool" where
  "text_contains w [] = (w = [])"
| "text_contains w (c # s) = (starts_with w (c # s) \<or> text_contains w s)"

definition filter_matches :: "pystr list \<Rightarrow> pystr list \<Rightarrow> pystr \<Rightarrow> bool" where
  "filter_matches ks es s \<longleftrightarrow>
     list_ex (\<lambda>w. w \<noteq> [] \<and> word_occurs w None s) (map py_strip ks) \<or>
     list_ex (\<lambda>e. e \<noteq> [] \<and> text_contains e s) es"

section \<open>The gate\<close>

record mode_gate =
  gate_sources :: "(pystr \<times> source_config) list"
  gate_filters :: "(pystr \<times> (pystr list \<times> pystr list)) list"

definition make_gate :: "source_config list \<Rightarrow> mode_gate" where
  "make_gate cs =
     \<lparr>gate_sources = fold (\<lambda>c. if src_handle c = [] then id else AList.update (py_casefold (src_handle c)) c) cs [],
      gate_filters = fold (\<lambda>c. if src_handle c = [] \<or> src_mode c \<noteq> KeywordFilter then id
         else AList.update (py_casefold (src_handle c)) (src_keywords c, src_emojis c)) cs []\<rparr>"

definition joined_content :: "pystr \<Rightarrow> pystr \<Rightarrow> pystr" where
  "joined_content t q = (if t = [] then q else if q = [] then t else t @ CHR 0x0A # q)"

text \<open>\<open>None\<close> would be a \<open>KeyError\<close>: a filtered source without a filter.\<close>

definition should_accept :: "mode_gate \<Rightarrow> pystr \<Rightarrow> pystr \<Rightarrow> pystr \<Rightarrow> bool option" where
  "should_accept g author_text t q =
     (let h = py_casefold (py_strip (py_lstrip_at author_text))
      in case map_of (gate_sources g) h of
           None \<Rightarrow> Some False
         | Some c \<Rightarrow>
             if \<not> src_enabled c then Some False
             else (case src_mode c of
                     FullFeed \<Rightarrow> Some True
                   | KeywordFilter \<Rightarrow>
                       map_option (\<lambda>(ks, es). filter_matches ks es (joined_content t q)) (map_of (gate_filters g) h)))"

section \<open>A keyword is found exactly where it stands as a word\<close>

definition stands_at :: "pystr \<Rightarrow> char option \<Rightarrow> pystr \<Rightarrow> pystr \<Rightarrow> pystr \<Rightarrow> bool" where
  "stands_at w b l m r \<longleftrightarrow> py_lower m = py_lower w \<and>
     (bounded_word w \<longrightarrow>
        (case l of [] \<Rightarrow> (case b of None \<Rightarrow> True | Some c \<Rightarrow> \<not> handle_char c) | _ \<Rightarrow> \<not> handle_char (last l)) \<and>
        (r = [] \<or> \<not> handle_char (hd r)))"

lemma py_lower_length: "length (py_lower s) = length s"
  by (simp add: py_lower_def)

lemma word_here_split: "word_here w b s \<longleftrightarrow> (\<exists>m r. s = m @ r \<and> stands_at w b [] m r)"
proof
  assume "word_here w b s"
  then have "stands_at w b [] (take (length w) s) (drop (length w) s)"
    by (auto simp: word_here_def stands_at_def neq_Nil_conv split: list.splits)
  then show "\<exists>m r. s = m @ r \<and> stands_at w b [] m r" by (metis append_take_drop_id)
next
  assume "\<exists>m r. s = m @ r \<and> stands_at w b [] m r"
  then obtain m r where s: "s = m @ r" "stands_at w b [] m r" by blast
  then have "length m = length w" by (metis stands_at_def py_lower_length)
  with s show "word_here w b s" by (auto simp: word_here_def stands_at_def split: list.splits)
qed

lemma stands_at_Cons: "stands_at w b (c # l) m r \<longleftrightarrow> stands_at w (Some c) l m r"
  by (cases l) (simp_all add: stands_at_def)

lemma word_occurs_split: "word_occurs w b s \<longleftrightarrow> (\<exists>l m r. s = l @ m @ r \<and> stands_at w b l m r)"
proof (induction w b s rule: word_occurs.induct)
  case (1 w b)
  show ?case by (simp add: word_here_split)
next
  case (2 w b c s)
  show ?case
  proof
    assume "word_occurs w b (c # s)"
    then consider m r where "c # s = m @ r" "stands_at w b [] m r"
      | l m r where "s = l @ m @ r" "stands_at w (Some c) l m r"
      using 2 word_here_split by auto
    then show "\<exists>l m r. c # s = l @ m @ r \<and> stands_at w b l m r"
    proof cases
      case 1
      then show ?thesis by (metis append_Nil)
    next
      case (2 l m r)
      then have "c # s = (c # l) @ m @ r" "stands_at w b (c # l) m r" by (simp_all add: stands_at_Cons)
      then show ?thesis by blast
    qed
  next
    assume "\<exists>l m r. c # s = l @ m @ r \<and> stands_at w b l m r"
    then obtain l m r where *: "c # s = l @ m @ r" "stands_at w b l m r" by blast
    show "word_occurs w b (c # s)"
    proof (cases l)
      case Nil
      with * have "word_here w b (c # s)" by (auto simp: word_here_split)
      then show ?thesis by simp
    next
      case (Cons d l')
      with * have "s = l' @ m @ r" "stands_at w (Some c) l' m r" by (simp_all add: stands_at_Cons)
      with 2 show ?thesis by auto
    qed
  qed
qed

text \<open>
  A keyword is found in a text exactly where it occurs in any case, and an ASCII keyword that
  begins and ends with a letter or digit only where no letter, digit or underscore touches it.
\<close>

theorem keyword_stands_as_word:
  "word_occurs w None s \<longleftrightarrow> (\<exists>l m r. s = l @ m @ r \<and> py_lower m = py_lower w \<and>
     \<not> (bounded_word w \<and> (l \<noteq> [] \<and> handle_char (last l) \<or> r \<noteq> [] \<and> handle_char (hd r))))"
proof -
  have "stands_at w None l m r \<longleftrightarrow> py_lower m = py_lower w \<and>
     \<not> (bounded_word w \<and> (l \<noteq> [] \<and> handle_char (last l) \<or> r \<noteq> [] \<and> handle_char (hd r)))" for l m r
    by (auto simp: stands_at_def split: list.splits)
  then show ?thesis by (simp add: word_occurs_split)
qed

section \<open>The gate admits what the last source of a handle admits\<close>

definition governing :: "source_config list \<Rightarrow> pystr \<Rightarrow> source_config option" where
  "governing cs h = List.find (\<lambda>c. src_handle c \<noteq> [] \<and> py_casefold (src_handle c) = h) (rev cs)"

lemma governing_snoc:
  "governing [] h = None"
  "governing (cs @ [c]) h = (if src_handle c \<noteq> [] \<and> py_casefold (src_handle c) = h then Some c else governing cs h)"
  by (simp_all add: governing_def)

lemma gate_sources_governing: "map_of (gate_sources (make_gate cs)) h = governing cs h"
proof (induction cs rule: rev_induct)
  case (snoc c cs)
  then show ?case by (auto simp: make_gate_def governing_snoc update_conv')
qed (simp add: make_gate_def governing_snoc)

lemma gate_filters_governing:
  "governing cs h = Some c \<Longrightarrow> src_mode c = KeywordFilter \<Longrightarrow>
    map_of (gate_filters (make_gate cs)) h = Some (src_keywords c, src_emojis c)"
proof (induction cs rule: rev_induct)
  case (snoc d cs)
  then show ?case by (auto simp: make_gate_def governing_snoc update_conv' split: if_splits)
qed (simp add: governing_snoc)

lemma accept_governing:
  "should_accept (make_gate cs) a t q =
     Some (case governing cs (py_casefold (py_strip (py_lstrip_at a))) of
             None \<Rightarrow> False
           | Some c \<Rightarrow> src_enabled c \<and>
               (src_mode c = FullFeed \<or> filter_matches (src_keywords c) (src_emojis c) (joined_content t q)))"
  using gate_filters_governing [of cs "py_casefold (py_strip (py_lstrip_at a))"]
  by (auto simp: should_accept_def gate_sources_governing Let_def split: option.splits source_mode.splits)

text \<open>
  The gate never fails: it admits a post exactly when the last configured source of its author is
  enabled and takes everything or finds one of its words in the text or the quoted text.
\<close>

theorem gate_fails_closed:
  "should_accept (make_gate cs) a t q =
     Some (\<exists>c. List.find (\<lambda>c. src_handle c \<noteq> [] \<and> py_casefold (src_handle c) = py_casefold (py_strip (py_lstrip_at a))) (rev cs) = Some c \<and>
       src_enabled c \<and> (src_mode c = FullFeed \<or> filter_matches (src_keywords c) (src_emojis c) (joined_content t q)))"
  unfolding accept_governing governing_def by (auto split: option.split)

section \<open>A source survives its mapping\<close>

lemma lower_char_space: "py_space (lower_char c) = py_space c"
proof -
  have "py_space c \<Longrightarrow> lower_char c = c"
    by (auto simp: py_space_def lower_char_def Let_def)
  moreover have "lower_char c = c" if "py_space (lower_char c)"
  proof (rule ccontr)
    assume "lower_char c \<noteq> c"
    then have n: "65 \<le> (of_char c :: nat)" "(of_char c :: nat) \<le> 222" "lower_char c = char_of ((of_char c :: nat) + 32)"
      and "(of_char c :: nat) \<le> 90 \<or> 192 \<le> (of_char c :: nat)"
      by (auto simp: lower_char_def Let_def split: if_splits)
    then have "(of_char (lower_char c) :: nat) = of_char c + 32" by simp
    with that n \<open>_ \<or> _\<close> show False by (auto simp: py_space_def Let_def)
  qed
  ultimately show ?thesis by metis
qed

lemma strip_lower: "py_strip (py_lower s) = py_lower (py_strip s)"
  by (simp add: py_strip_def py_lower_def rev_map dropWhile_map comp_def lower_char_space)

lemma lower_idem [simp]: "py_lower (py_lower s) = py_lower s"
  by (simp add: py_lower_def)

lemma source_handle_strip: "py_strip (source_handle s) = source_handle s"
  by (simp add: source_handle_def strip_lower)

lemma source_handle_again: "py_lstrip_at (source_handle s) = source_handle s \<Longrightarrow> source_handle (source_handle s) = source_handle s"
  by (simp add: source_handle_def strip_lower)

lemma word_list_again:
  "word_list env d v = Inr ws \<Longrightarrow> \<forall>w \<in> set d. w \<noteq> [] \<and> py_strip w = w \<Longrightarrow> word_list env e (JList (map JStr ws)) = Inr ws"
proof -
  assume a: "word_list env d v = Inr ws" "\<forall>w \<in> set d. w \<noteq> [] \<and> py_strip w = w"
  then have "\<forall>w \<in> set ws. w \<noteq> [] \<and> py_strip w = w" by (auto simp: word_list_def split: json.splits)
  then have "filter (\<lambda>w. w \<noteq> []) (map py_strip ws) = ws" by (induction ws) auto
  then show ?thesis by (simp add: word_list_def comp_def py_str_def)
qed

lemma default_words: "\<forall>w \<in> set default_keywords. w \<noteq> [] \<and> py_strip w = w"
  by (simp add: default_keywords_def) code_simp

lemma mode_again: "parse_mode (py_lower (py_strip (mode_text m))) = Inr m"
proof -
  have "parse_mode (py_lower (py_strip (mode_text FullFeed))) = Inr FullFeed" by code_simp
  moreover have "parse_mode (py_lower (py_strip (mode_text KeywordFilter))) = Inr KeywordFilter" by code_simp
  ultimately show ?thesis by (cases m) simp_all
qed

lemma mapping_get:
  assumes "to_mapping c = JObj d"
  shows "dict_get d ''handle'' v = JStr (src_handle c)" "dict_get d ''label'' v = JStr (src_label c)"
    "dict_get d ''enabled'' v = JBool (src_enabled c)" "dict_get d ''priority'' v = JInt (src_priority c)"
    "dict_get d ''include_replies'' v = JBool (src_replies c)" "dict_get d ''mode'' v = JStr (mode_text (src_mode c))"
    "dict_get d ''keywords'' v = JList (map JStr (src_keywords c))" "dict_get d ''emojis'' v = JList (map JStr (src_emojis c))"
  using assms by (auto simp: to_mapping_def dict_get_def)

text \<open>
  A parsed source is stored and parsed again as it was, unless an at-sign still stands at the
  head of its handle.
\<close>

theorem mapping_round_trip:
  assumes "from_mapping env v = Inr c" "py_lstrip_at (src_handle c) = src_handle c"
  shows "from_mapping env (to_mapping c) = Inr c"
proof -
  from assms(1) obtain h0 l0 kv ev where c: "src_handle c = source_handle h0" "src_label c = or_default (py_strip l0) (source_handle h0)"
    "word_list env default_keywords kv = Inr (src_keywords c)" "word_list env [] ev = Inr (src_emojis c)"
    by (auto simp: from_mapping_def Let_def bindE_Inr split: json.splits)
  obtain d where d: "to_mapping c = JObj d" by (simp add: to_mapping_def)
  have "source_handle (src_handle c) = src_handle c" using c(1) assms(2) source_handle_again by metis
  moreover have "or_default (py_strip (src_label c)) (src_handle c) = src_label c"
    using c(1,2) by (simp add: or_default_def source_handle_strip)
  moreover have "word_list env default_keywords (JList (map JStr (src_keywords c))) = Inr (src_keywords c)"
    "word_list env [] (JList (map JStr (src_emojis c))) = Inr (src_emojis c)"
    using word_list_again [OF c(3) default_words] word_list_again [OF c(4)] by simp_all
  ultimately show ?thesis unfolding d
    by (simp add: from_mapping_def mapping_get [OF d] get_or_null_def py_str_def mode_again read_priority_def)
qed

section \<open>Examples\<close>

definition fan_source :: source_config where
  "fan_source = \<lparr>src_handle = ''fan'', src_label = ''fan'', src_enabled = True, src_priority = 100, src_replies = True,
     src_mode = FullFeed, src_keywords = default_keywords, src_emojis = []\<rparr>"

lemma fan_parsed: "from_mapping plain_env (JObj [(''handle'', JStr ''@Fan '')]) = Inr fan_source"
proof -
  have "source_handle ''@Fan '' = ''fan''" "parse_mode (py_lower (py_strip [])) = Inr FullFeed" by code_simp+
  then show ?thesis
    by (simp add: from_mapping_def dict_get_def get_or_null_def py_str_def or_default_def word_list_def read_priority_def fan_source_def Let_def)
qed

theorem mapping_round_trip_witness: "from_mapping plain_env (to_mapping fan_source) = Inr fan_source"
  by (rule mapping_round_trip [OF fan_parsed]) (simp add: fan_source_def py_lstrip_at_def)

end
