(* ===== verification/Collector.thy ===== *)
theory Collector
  imports SourceModes Retrieval
begin

text \<open>
  Collecting one window from the configured sources: \<open>app/source_authority_hardening.py\<close>
  (\<open>_sources_only_collect_window\<close>, \<open>_configured_only\<close>), the wrapper \<open>_resumable_collect_window\<close> of
  \<open>app/x_resumable_recovery_runtime.py\<close>, the search recovery of \<open>app/x_client.py\<close>, and the public
  recovery of \<open>app/x_provider_recovery.py\<close> with its bookkeeping in
  \<open>app/x_degraded_recovery_runtime.py\<close>. The providers and the wording of their errors are arguments;
  every call of a source is one run of \<open>Retrieval\<close>.
\<close>

section \<open>Configured authors\<close>

definition enabled_sources :: "source_config list \<Rightarrow> source_config list" where
  "enabled_sources cs = filter src_enabled cs"

definition configured_handles :: "source_config list \<Rightarrow> pystr list" where
  "configured_handles cs =
     map py_casefold (filter (\<lambda>h. h \<noteq> []) (map (normalize_handle \<circ> src_handle) (enabled_sources cs)))"

definition is_configured :: "source_config list \<Rightarrow> pystr \<Rightarrow> bool" where
  "is_configured cs h \<longleftrightarrow> (let k = py_casefold (normalize_handle h) in k \<noteq> [] \<and> k \<in> set (configured_handles cs))"

text \<open>Posts with text where the comparison takes its length; others make \<open>len\<close> raise.\<close>

definition comparable :: "update \<Rightarrow> bool" where
  "comparable u \<longleftrightarrow> (\<forall>v \<in> {body u, quoted_text u, reply_to_id u}. \<exists>s. v = JStr s) \<and> (\<exists>p. source_priority u = JInt p)"

definition post_rank :: "update \<Rightarrow> nat \<times> nat \<times> bool \<times> bool \<times> int" where
  "post_rank u =
     (length (media u) + length (quoted_media u), length (jtext (body u)) + length (jtext (quoted_text u)),
      conversation_id u \<noteq> [], jtext (reply_to_id u) \<noteq> [], case source_priority u of JInt p \<Rightarrow> - p | _ \<Rightarrow> 0)"

fun keep_best :: "(update \<Rightarrow> 'r::linorder) \<Rightarrow> update \<Rightarrow> update list \<Rightarrow> update list" where
  "keep_best rank u [] = [u]"
| "keep_best rank u (v # vs) =
     (if upd_id v = upd_id u then (if rank v < rank u then u else v) # vs else v # keep_best rank u vs)"

definition best_posts :: "(update \<Rightarrow> 'r::linorder) \<Rightarrow> update list \<Rightarrow> update list" where
  "best_posts rank us = fold (keep_best rank) us []"

definition admits :: "source_config list \<Rightarrow> update \<Rightarrow> bool" where
  "admits cs u \<longleftrightarrow> should_accept (make_gate cs) (author u) (jtext (body u)) (jtext (quoted_text u)) = Some True"

definition by_authors :: "source_config list \<Rightarrow> update list \<Rightarrow> update list" where
  "by_authors cs us = filter (\<lambda>u. py_casefold (author u) \<in> set (configured_handles cs)) us"

text \<open>\<open>None\<close> is a post the comparison does not cover.\<close>

definition configured_only :: "source_config list \<Rightarrow> update list \<Rightarrow> update list option" where
  "configured_only cs us =
     (if \<not> list_all comparable us then None
      else Some (filter (admits cs) (sort_key (\<lambda>u. (created_at u, upd_id u)) (best_posts post_rank (by_authors cs us)))))"

section \<open>The authenticated window\<close>

definition py_unique :: "pystr list \<Rightarrow> pystr list" where
  "py_unique vs = rev (snd (fold (\<lambda>v (seen_keys, out). let s = py_strip v; k = py_casefold s
     in if k \<noteq> [] \<and> k \<notin> set seen_keys then (k # seen_keys, s # out) else (seen_keys, out)) vs ([], [])))"

text \<open>
  The feeds: no provider when the API cannot be set up; a search yields converted posts and maybe
  fails on the way with the line that is recorded. The wording of errors is an argument.
\<close>

record feed =
  feed_sha :: "pystr \<Rightarrow> pystr"
  feed_env :: pyenv
  feed_clock :: instant
  feed_api :: "pystr \<Rightarrow> provider option"
  feed_reason :: "pystr \<Rightarrow> pystr"
  feed_search :: "pystr \<Rightarrow> (update list \<times> pystr option) option"

record collection =
  coll_posts :: "update list"
  coll_errors :: "pystr list"
  coll_search_errors :: "pystr list"
  coll_rows :: pydict
  coll_parts :: "(pystr \<times> update list) list"
  coll_used :: nat

datatype halt = Raised py_exc | ProcessDied | NeverReturned | NotCovered

definition window_request :: "feed \<Rightarrow> source_config list \<Rightarrow> instant \<Rightarrow> instant \<Rightarrow> int \<Rightarrow> nat \<Rightarrow> provider \<Rightarrow> source_config \<Rightarrow> request" where
  "window_request f cs lo hi lim used p sc =
     \<lparr>sha = feed_sha f, env = feed_env f, clock = feed_clock f, configured = map src_handle (enabled_sources cs),
      handle = normalize_handle (src_handle sc), replies = src_replies sc, from_time = lo, until_time = hi,
      budget = lim, allow_older = True, fallbacks = used, source_api = p\<rparr>"

definition search_rank :: "update \<Rightarrow> nat \<times> nat" where
  "search_rank u = (length (media u), length (jtext (body u)))"

definition search_recovery :: "feed \<Rightarrow> instant \<Rightarrow> instant \<Rightarrow> pystr \<Rightarrow> collection \<Rightarrow> collection" where
  "search_recovery f lo hi h col =
     (let failed = (\<lambda>c. c\<lparr>coll_errors := coll_errors c @ [''@'' @ h @ '' recovery: '' @ feed_reason f h]\<rparr>)
      in case feed_search f h of
           None \<Rightarrow> failed col
         | Some (us, err) \<Rightarrow>
             (let kept = filter (\<lambda>u. lo \<le> created_at u \<and> created_at u < hi) us;
                  c = (case err of None \<Rightarrow> col
                       | Some e \<Rightarrow> col\<lparr>coll_search_errors := py_unique (coll_search_errors col @ [e])\<rparr>)
              in if kept = [] \<and> err \<noteq> None then failed c
                 else c\<lparr>coll_posts := coll_posts c @
                        filter (\<lambda>u. py_casefold (author u) = py_casefold h) (best_posts search_rank kept)\<rparr>))"

definition timeline_failed :: "feed \<Rightarrow> instant \<Rightarrow> instant \<Rightarrow> bool \<Rightarrow> pystr \<Rightarrow> collection \<Rightarrow> collection" where
  "timeline_failed f lo hi keywords h col =
     (let c = col\<lparr>coll_errors := coll_errors col @ [''@'' @ h @ '': '' @ feed_reason f h]\<rparr>
      in if keywords then search_recovery f lo hi h c else c)"

definition remember_part :: "pystr \<Rightarrow> ending \<Rightarrow> collection \<Rightarrow> collection" where
  "remember_part h e col =
     col\<lparr>coll_rows := left_store e, coll_used := fallbacks_used e,
         coll_parts := (case partial e of None \<Rightarrow> coll_parts col
                        | Some us \<Rightarrow> AList.update (py_casefold h) us (coll_parts col))\<rparr>"

definition collect_source :: "feed \<Rightarrow> source_config list \<Rightarrow> instant \<Rightarrow> instant \<Rightarrow> int \<Rightarrow> bool \<Rightarrow> bool \<Rightarrow> source_config
    \<Rightarrow> collection \<Rightarrow> halt \<times> pydict + collection" where
  "collect_source f cs lo hi lim sources keywords sc col =
     (let h = normalize_handle (src_handle sc)
      in if h = [] then Inr col
         else if \<not> sources then Inr (if keywords then search_recovery f lo hi h col else col)
         else case feed_api f h of
           None \<Rightarrow> Inr (timeline_failed f lo hi keywords h col)
         | Some p \<Rightarrow>
             (case source_timeline (window_request f cs lo hi lim (coll_used col) p sc) (coll_rows col) of
                None \<Rightarrow> Inl (NeverReturned, coll_rows col)
              | Some e \<Rightarrow>
                  (let c = remember_part h e col
                   in case verdict e of
                        Complete us \<Rightarrow> Inr (c\<lparr>coll_posts := coll_posts c @ us\<rparr>)
                      | Escaped x \<Rightarrow> Inl (Raised x, coll_rows c)
                      | Died \<Rightarrow> Inl (ProcessDied, coll_rows c)
                      | _ \<Rightarrow> Inr (timeline_failed f lo hi keywords h c))))"

fun collect_sources :: "feed \<Rightarrow> source_config list \<Rightarrow> instant \<Rightarrow> instant \<Rightarrow> int \<Rightarrow> bool \<Rightarrow> bool \<Rightarrow> source_config list
    \<Rightarrow> collection \<Rightarrow> halt \<times> pydict + collection" where
  "collect_sources f cs lo hi lim sources keywords [] col = Inr col"
| "collect_sources f cs lo hi lim sources keywords (sc # scs) col =
     bindE (collect_source f cs lo hi lim sources keywords sc col) (collect_sources f cs lo hi lim sources keywords scs)"

definition timeline_limit :: "int \<Rightarrow> int" where
  "timeline_limit per_query = max 200 (min 1000 (per_query * 3))"

text \<open>
  \<open>_sources_only_collect_window\<close> within \<open>_resumable_collect_window\<close>: posts and errors. The collection
  error the wrapper catches is never raised, since every call of a source is guarded.
\<close>

definition authenticated_window :: "feed \<Rightarrow> source_config list \<Rightarrow> instant \<Rightarrow> instant \<Rightarrow> int \<Rightarrow> bool \<Rightarrow> bool \<Rightarrow> pydict
    \<Rightarrow> halt \<times> pydict + (update list \<times> pystr list \<times> pydict)" where
  "authenticated_window f cs lo hi per_query sources keywords rows =
     bindE (collect_sources f cs lo hi (timeline_limit per_query) sources keywords (enabled_sources cs)
        \<lparr>coll_posts = [], coll_errors = [], coll_search_errors = [], coll_rows = rows, coll_parts = [], coll_used = 0\<rparr>)
       (\<lambda>c. case configured_only cs (coll_posts c) of
              None \<Rightarrow> Inl (NotCovered, coll_rows c)
            | Some us \<Rightarrow>
                (case configured_only cs (us @ concat (map snd (coll_parts c))) of
                   None \<Rightarrow> Inl (NotCovered, coll_rows c)
                 | Some vs \<Rightarrow> Inr (vs, py_unique (coll_search_errors c @ coll_errors c), coll_rows c)))"

section \<open>The public recovery\<close>

text \<open>A public profile feed answers with posts or with the wording of its failure.\<close>

record public_feeds =
  syndication :: "pystr \<Rightarrow> instant \<Rightarrow> instant \<Rightarrow> bool \<Rightarrow> pystr + update list"
  agent_reach :: "pystr \<Rightarrow> instant \<Rightarrow> instant \<Rightarrow> bool \<Rightarrow> pystr + update list"
  batch_limit :: int

datatype via = Syndication | AgentReach | NoProvider

definition by_priority :: "source_config list \<Rightarrow> source_config list" where
  "by_priority cs = sort_key src_priority (enabled_sources cs)"

definition rotation_start :: "int \<Rightarrow> nat \<Rightarrow> nat \<Rightarrow> nat" where
  "rotation_start streak n batch = (if n \<le> batch then 0 else nat (max 0 streak) * batch mod n)"

text \<open>The batch and the number of enabled sources; \<open>batch_limit\<close> is clamped to 1 .. 64.\<close>

definition rotating_batch :: "int \<Rightarrow> int \<Rightarrow> source_config list \<Rightarrow> source_config list" where
  "rotating_batch limit streak cs =
     (let scs = by_priority cs; n = length scs; batch = min n (nat (max 1 (min limit 64)));
          first = rotation_start streak n batch
      in map (\<lambda>i. scs ! ((first + i) mod n)) [0..<batch])"

definition public_source :: "public_feeds \<Rightarrow> instant \<Rightarrow> instant \<Rightarrow> source_config \<Rightarrow> pystr \<times> update list \<times> pystr option \<times> via" where
  "public_source p lo hi sc =
     (let h = normalize_handle (src_handle sc)
      in if h = [] then ([], [], Some ''invalid configured source handle'', NoProvider)
         else case syndication p h lo hi (src_replies sc) of
           Inr us \<Rightarrow> (h, us, None, Syndication)
         | Inl e1 \<Rightarrow>
             (case agent_reach p h lo hi (src_replies sc) of
                Inr us \<Rightarrow> (h, us, None, AgentReach)
              | Inl e2 \<Rightarrow> (h, [], Some (''syndication='' @ e1 @ ''; agent_reach='' @ e2), NoProvider)))"

definition degraded_mark :: pystr where
  "degraded_mark = ''authenticated_x_degraded: public_syndication_fallback''"

definition public_failures :: "(pystr \<times> update list \<times> pystr option \<times> via) list \<Rightarrow> pystr list" where
  "public_failures rows = concat (map (\<lambda>(h, us, err, via). case err of
       None \<Rightarrow> []
     | Some e \<Rightarrow> [if h = [] then e else ''@'' @ h @ '': recovery_chain_failed ('' @ e @ '')'']) rows)"

definition degraded_errors :: "nat \<Rightarrow> nat \<Rightarrow> bool \<Rightarrow> (pystr \<times> update list \<times> pystr option \<times> via) list \<Rightarrow> pystr list" where
  "degraded_errors chosen all_sources keywords rows =
     (let reach = length (filter (\<lambda>(h, us, err, via). err = None \<and> via = AgentReach) rows)
      in degraded_mark # public_failures rows @
         (if reach = 0 then [] else [''agent_reach_fallback_used: '' @ nat_text reach @ '' source(s)'']) @
         (if chosen < all_sources
          then [''syndication_coverage_partial: '' @ nat_text chosen @ ''/'' @ nat_text all_sources @ '' sources this pass'']
          else []) @
         (if keywords then [''keyword_search_unavailable: authenticated_x_degraded''] else []))"

definition degraded_window :: "public_feeds \<Rightarrow> source_config list \<Rightarrow> int \<Rightarrow> instant \<Rightarrow> instant \<Rightarrow> bool \<Rightarrow> bool
    \<Rightarrow> (update list \<times> pystr list) option" where
  "degraded_window p cs streak lo hi sources keywords =
     (if \<not> sources then Some ([], [''authenticated_x_degraded: keyword-only collection unavailable''])
      else let chosen = rotating_batch (batch_limit p) streak cs in
        if chosen = [] then Some ([], [''authenticated_x_degraded: no configured recovery sources''])
        else let rows = map (public_source p lo hi) chosen;
                 us = concat (map (\<lambda>(h, us, err, via). if err = None then us else []) rows)
             in map_option (\<lambda>vs. (vs, degraded_errors (length chosen) (length (enabled_sources cs)) keywords rows))
                  (configured_only cs (dedupe_updates us)))"

text \<open>
  The bookkeeping of a degraded pass: the handles attempted, and those that an error line of the
  form \<open>@handle: reason\<close> on one line names.
\<close>

definition attempted_handles :: "public_feeds \<Rightarrow> source_config list \<Rightarrow> int \<Rightarrow> bool \<Rightarrow> pystr list" where
  "attempted_handles p cs streak sources =
     filter (\<lambda>h. h \<noteq> []) (map (source_handle \<circ> src_handle) (if sources then rotating_batch (batch_limit p) streak cs else []))"

definition one_line :: "pystr \<Rightarrow> bool" where
  "one_line s \<longleftrightarrow> s \<noteq> [] \<and> CHR 0x0A \<notin> set s"

definition failed_handle :: "pystr \<Rightarrow> pystr option" where
  "failed_handle line =
     (case py_strip line of
        c # s \<Rightarrow>
          (let h = takeWhile handle_char s; r = drop (length h) s
           in if c = CHR ''@'' \<and> is_handle h \<and> r \<noteq> [] \<and> hd r = CHR '':'' \<and> one_line (dropWhile py_space (tl r))
              then Some (py_casefold h) else None)
      | [] \<Rightarrow> None)"

definition failed_handles :: "pystr list \<Rightarrow> pystr list \<Rightarrow> pystr list" where
  "failed_handles attempted errs = filter (\<lambda>h. h \<in> set attempted) (List.map_filter failed_handle errs)"

section \<open>The window of production\<close>

text \<open>What the collector leaves: posts, errors, and the bookkeeping of the last degraded pass.\<close>

record gathered =
  got_posts :: "update list"
  got_errors :: "pystr list"
  got_rows :: pydict
  got_attempted :: "pystr list"
  got_failed :: "pystr list"

definition provider_window :: "feed \<Rightarrow> public_feeds \<Rightarrow> bool \<Rightarrow> source_config list \<Rightarrow> int \<Rightarrow> int \<Rightarrow> pydict \<Rightarrow> instant \<Rightarrow> instant
    \<Rightarrow> halt \<times> pydict + gathered" where
  "provider_window f p degraded cs streak per_query rows lo hi =
     (if \<not> degraded
      then bindE (authenticated_window f cs lo hi per_query True True rows) (\<lambda>(us, errs, t).
        Inr \<lparr>got_posts = us, got_errors = errs, got_rows = t, got_attempted = [], got_failed = []\<rparr>)
      else case degraded_window p cs streak lo hi True True of
        None \<Rightarrow> Inl (NotCovered, rows)
      | Some (us, errs) \<Rightarrow>
          (let attempted = attempted_handles p cs streak True
           in Inr \<lparr>got_posts = us, got_errors = errs, got_rows = rows, got_attempted = attempted,
                got_failed = failed_handles attempted errs\<rparr>))"

section \<open>What the filter keeps\<close>

lemma keep_best_ids: "map upd_id (keep_best rank u vs) =
    (if upd_id u \<in> upd_id ` set vs then map upd_id vs else map upd_id vs @ [upd_id u])"
  by (induction vs) auto

lemma keep_best_from: "set (keep_best rank u vs) \<subseteq> insert u (set vs)"
  by (induction vs) auto

lemma keep_best_least:
  "distinct (map upd_id vs) \<Longrightarrow> w \<in> insert u (set vs) \<Longrightarrow> \<exists>v \<in> set (keep_best rank u vs). upd_id v = upd_id w \<and> rank w \<le> rank v"
proof (induction vs)
  case (Cons v vs)
  show ?case
  proof (cases "upd_id v = upd_id u")
    case True
    with Cons.prems show ?thesis by (auto simp: image_iff intro: less_imp_le)
  next
    case False
    with Cons show ?thesis by (auto intro: order_refl)
  qed
qed simp

lemma best_posts_spec:
  "distinct (map upd_id (best_posts rank us))" "set (best_posts rank us) \<subseteq> set us"
  "w \<in> set us \<Longrightarrow> \<exists>v \<in> set (best_posts rank us). upd_id v = upd_id w \<and> rank w \<le> rank v"
proof -
  have "distinct (map upd_id (best_posts rank us)) \<and> set (best_posts rank us) \<subseteq> set us \<and>
    (\<forall>w \<in> set us. \<exists>v \<in> set (best_posts rank us). upd_id v = upd_id w \<and> rank w \<le> rank v)"
  proof (induction us rule: rev_induct)
    case (snoc u us)
    let ?b = "best_posts rank us"
    have b: "best_posts rank (us @ [u]) = keep_best rank u ?b" by (simp add: best_posts_def)
    have "\<exists>v \<in> set (keep_best rank u ?b). upd_id v = upd_id w \<and> rank w \<le> rank v" if w: "w \<in> set (us @ [u])" for w
    proof -
      obtain x where "x \<in> insert u (set ?b)" "upd_id x = upd_id w" "rank w \<le> rank x" using w snoc by auto
      with keep_best_least [of ?b x u rank] snoc show ?thesis by (metis order_trans)
    qed
    moreover have "distinct (map upd_id (keep_best rank u ?b))" using snoc by (auto simp: keep_best_ids)
    ultimately show ?case unfolding b using keep_best_from [of rank u ?b] snoc by auto
  qed (simp add: best_posts_def)
  then show "distinct (map upd_id (best_posts rank us))" "set (best_posts rank us) \<subseteq> set us"
    "w \<in> set us \<Longrightarrow> \<exists>v \<in> set (best_posts rank us). upd_id v = upd_id w \<and> rank w \<le> rank v" by blast+
qed

lemma distinct_filter_sort: "distinct (map upd_id us) \<Longrightarrow> distinct (map upd_id (filter P (sort_key k us)))"
proof -
  assume "distinct (map upd_id us)"
  moreover have "mset (map upd_id (sort_key k us)) = mset (map upd_id us)" by simp
  ultimately have "distinct (map upd_id (sort_key k us))" using mset_eq_imp_distinct_iff by blast
  then show ?thesis by (rule distinct_map_filter)
qed

lemma configured_only_parts:
  assumes "configured_only cs us = Some vs"
  shows "sorted (map (\<lambda>u. (created_at u, upd_id u)) vs)" "distinct (map upd_id vs)"
    "v \<in> set vs \<Longrightarrow> v \<in> set us \<and> admits cs v \<and> py_casefold (author v) \<in> set (configured_handles cs)"
    "u \<in> set us \<Longrightarrow> py_casefold (author u) \<in> set (configured_handles cs) \<Longrightarrow>
       \<exists>v \<in> set us. upd_id v = upd_id u \<and> py_casefold (author v) \<in> set (configured_handles cs) \<and>
         post_rank u \<le> post_rank v \<and> (v \<in> set vs \<or> \<not> admits cs v)"
proof -
  let ?b = "best_posts post_rank (by_authors cs us)"
  have vs: "vs = filter (admits cs) (sort_key (\<lambda>u. (created_at u, upd_id u)) ?b)"
    using assms by (simp add: configured_only_def split: if_splits)
  have b: "set ?b \<subseteq> set (by_authors cs us)" by (rule best_posts_spec(2))
  show "sorted (map (\<lambda>u. (created_at u, upd_id u)) vs)" unfolding vs by (intro sorted_filter sorted_sort_key)
  show "distinct (map upd_id vs)" unfolding vs by (rule distinct_filter_sort [OF best_posts_spec(1)])
  show "v \<in> set vs \<Longrightarrow> v \<in> set us \<and> admits cs v \<and> py_casefold (author v) \<in> set (configured_handles cs)"
    unfolding vs using b by (auto simp: by_authors_def)
  assume u: "u \<in> set us" "py_casefold (author u) \<in> set (configured_handles cs)"
  then have "u \<in> set (by_authors cs us)" by (simp add: by_authors_def)
  from best_posts_spec(3) [OF this, of post_rank] obtain v where
    v: "v \<in> set ?b" "upd_id v = upd_id u" "post_rank u \<le> post_rank v" by blast
  moreover from v(1) b have "v \<in> set us" "py_casefold (author v) \<in> set (configured_handles cs)" by (auto simp: by_authors_def)
  ultimately show "\<exists>v \<in> set us. upd_id v = upd_id u \<and> py_casefold (author v) \<in> set (configured_handles cs) \<and>
         post_rank u \<le> post_rank v \<and> (v \<in> set vs \<or> \<not> admits cs v)"
    unfolding vs by auto
qed

text \<open>
  What the authority filter returns is in order of time, has every id once, and holds only posts of
  configured authors that the source modes admit; a post is missing only if its author is not
  configured, or if the best copy of its id was turned down.
\<close>

theorem configured_only_spec:
  assumes "configured_only cs us = Some vs"
  shows "sorted (map (\<lambda>u. (created_at u, upd_id u)) vs) \<and> distinct (map upd_id vs) \<and>
    (\<forall>v \<in> set vs. v \<in> set us \<and> admits cs v \<and> py_casefold (author v) \<in> set (configured_handles cs)) \<and>
    (\<forall>u \<in> set us. py_casefold (author u) \<in> set (configured_handles cs) \<longrightarrow>
       (\<exists>v \<in> set us. upd_id v = upd_id u \<and> post_rank u \<le> post_rank v \<and> (v \<in> set vs \<or> \<not> admits cs v)))"
  using configured_only_parts [OF assms] by (intro conjI ballI impI) blast+

section \<open>What a window without errors holds\<close>

text \<open>An id is among the posts, or one of the collected copies of it was turned down by the source modes.\<close>

definition turned_down :: "source_config list \<Rightarrow> update list \<Rightarrow> pystr \<Rightarrow> bool" where
  "turned_down cs copies i \<longleftrightarrow>
     (\<exists>v \<in> set copies. upd_id v = i \<and> py_casefold (author v) \<in> set (configured_handles cs) \<and> \<not> admits cs v)"

definition covered :: "source_config list \<Rightarrow> update list \<Rightarrow> update list \<Rightarrow> pystr \<Rightarrow> bool" where
  "covered cs copies vs i \<longleftrightarrow> i \<in> upd_id ` set vs \<or> turned_down cs copies i"

lemma configured_only_covers:
  assumes "configured_only cs us = Some vs" "u \<in> set us" "py_casefold (author u) \<in> set (configured_handles cs)"
    "set us \<subseteq> set copies"
  shows "covered cs copies vs (upd_id u)"
proof -
  from configured_only_parts(4) [OF assms(1-3)] obtain v where "v \<in> set us" "upd_id v = upd_id u"
    "py_casefold (author v) \<in> set (configured_handles cs)" "v \<in> set vs \<or> \<not> admits cs v" by blast
  then show ?thesis using assms(4) unfolding covered_def turned_down_def by (metis image_eqI subsetD)
qed

text \<open>The pages the provider answered with while one source, and while all sources, were collected.\<close>

definition source_pages :: "feed \<Rightarrow> source_config list \<Rightarrow> instant \<Rightarrow> instant \<Rightarrow> int \<Rightarrow> source_config \<Rightarrow> collection \<Rightarrow> page set" where
  "source_pages f cs lo hi lim sc col =
     (if normalize_handle (src_handle sc) = [] then {}
      else case feed_api f (normalize_handle (src_handle sc)) of
        None \<Rightarrow> {} | Some p \<Rightarrow> timeline_pages (window_request f cs lo hi lim (coll_used col) p sc) (coll_rows col))"

fun collected_pages :: "feed \<Rightarrow> source_config list \<Rightarrow> instant \<Rightarrow> instant \<Rightarrow> int \<Rightarrow> bool \<Rightarrow> source_config list \<Rightarrow> collection \<Rightarrow> page set" where
  "collected_pages f cs lo hi lim kw [] col = {}"
| "collected_pages f cs lo hi lim kw (sc # scs) col = source_pages f cs lo hi lim sc col \<union>
     (case collect_source f cs lo hi lim True kw sc col of Inl x \<Rightarrow> {} | Inr c \<Rightarrow> collected_pages f cs lo hi lim kw scs c)"

text \<open>
  The pages read the window of a source back from its end to no later than its start, and all the
  original posts of the source on them are among the ids.
\<close>

definition window_read_back :: "page set \<Rightarrow> instant \<Rightarrow> instant \<Rightarrow> source_config \<Rightarrow> pystr set \<Rightarrow> bool" where
  "window_read_back A lo hi sc ids \<longleftrightarrow>
     (\<exists>first W. first \<le> lo \<and> upd_id ` W \<subseteq> ids \<and>
        read_back A (py_casefold (normalize_handle (src_handle sc))) (src_replies sc) first hi W)"

lemma window_read_back_mono: "window_read_back A lo hi sc I \<Longrightarrow> A \<subseteq> B \<Longrightarrow> I \<subseteq> J \<Longrightarrow> window_read_back B lo hi sc J"
  unfolding window_read_back_def by (meson order_trans read_back_mono)

text \<open>The past between two sources: checkpoints that account for the pages read so far.\<close>

definition safe_past :: "(pystr \<Rightarrow> pystr) \<Rightarrow> (pystr \<times> instant \<times> bool) set \<Rightarrow> history \<Rightarrow> bool" where
  "safe_past h asked n \<longleftrightarrow> proper_pages (pages n) \<and> store_rows h (lossless asked n) (checkpoints n)"

definition legal_source :: "(pystr \<times> instant \<times> bool) set \<Rightarrow> history \<Rightarrow> feed \<Rightarrow> source_config list \<Rightarrow> instant \<Rightarrow> instant \<Rightarrow> int
    \<Rightarrow> source_config \<Rightarrow> bool" where
  "legal_source asked n f cs lo hi lim sc \<longleftrightarrow>
     (\<forall>p. feed_api f (normalize_handle (src_handle sc)) = Some p \<longrightarrow> legal_request asked n (window_request f cs lo hi lim 0 p sc))"

lemma legal_any_used: "legal_request asked n (window_request f cs lo hi lim k p sc) = legal_request asked n (window_request f cs lo hi lim 0 p sc)"
  by (simp add: legal_request_def clean_def window_request_def fits_def serves_def asked_now_def)

lemma window_request_times: "from_time (window_request f cs lo hi lim k p sc) = lo"
  by (simp add: window_request_def)

lemma legal_noted:
  assumes "legal_request asked n r" "legal_request asked n q" "from_time q = from_time r"
  shows "legal_request asked ((noted (clean q) n)\<lparr>checkpoints := t\<rparr>) r"
proof -
  have "latest_start (noted (clean q) n) h rep \<le> from_time r" if "latest_start n h rep \<le> from_time r" for h rep
    using that assms(3) by (auto simp: noted_def Let_def clean_def)
  with assms(1) show ?thesis unfolding legal_request_def by simp
qed

lemma window_read:
  assumes "safe_past (feed_sha f) asked n" "legal_source asked n f cs lo hi lim sc"
    "feed_api f (normalize_handle (src_handle sc)) = Some p"
    "source_timeline (window_request f cs lo hi lim used p sc) (checkpoints n) = Some e"
  shows "\<exists>m. checkpoints m = left_store e \<and> safe_past (feed_sha f) asked m \<and>
    pages m = pages n \<union> timeline_pages (window_request f cs lo hi lim used p sc) (checkpoints n) \<and>
    (\<forall>sc'. legal_source asked n f cs lo hi lim sc' \<longrightarrow> legal_source asked m f cs lo hi lim sc') \<and>
    (\<forall>us. verdict e = Complete us \<longrightarrow> window_read_back (pages m) lo hi sc (upd_id ` set us) \<and>
       (\<forall>u \<in> set us. sound_post u \<and> py_casefold (author u) = py_casefold (normalize_handle (src_handle sc))))"
proof -
  let ?r = "window_request f cs lo hi lim used p sc" and ?n = "noted (clean (window_request f cs lo hi lim used p sc)) n"
  let ?m = "?n\<lparr>checkpoints := left_store e\<rparr>"
  have legal: "legal_request asked n ?r"
    using assms(2,3) legal_any_used [of asked n f cs lo hi lim used p sc] by (simp add: legal_source_def)
  have sha: "sha ?r = feed_sha f" "sha (clean ?r) = feed_sha f" by (simp_all add: window_request_def clean_def)
  have ok: "end_ok asked ?n (clean ?r) e"
    using timeline_ok [OF assms(4) legal] assms(1) by (simp add: safe_past_def sha)
  have "proper_pages (timeline_pages ?r (checkpoints n))"
    using legal by (intro timeline_pages_proper) (simp add: legal_request_def)
  then have "safe_past (feed_sha f) asked ?m"
    using ok assms(1) by (simp add: safe_past_def end_ok_def sha proper_pages_Un timeline_pages_clean)
  moreover have "legal_source asked ?m f cs lo hi lim sc'" if "legal_source asked n f cs lo hi lim sc'" for sc'
    using that legal_noted [OF _ legal] window_request_times unfolding legal_source_def by metis
  moreover have "window_read_back (pages ?m) lo hi sc (upd_id ` set us) \<and>
      (\<forall>u \<in> set us. sound_post u \<and> py_casefold (author u) = py_casefold (normalize_handle (src_handle sc)))"
    if "verdict e = Complete us" for us
  proof -
    let ?h = "py_casefold (normalize_handle (src_handle sc))"
    have clean: "handle (clean ?r) = normalize_handle (src_handle sc)" "replies (clean ?r) = src_replies sc"
      "until_time (clean ?r) = hi" "from_time (clean ?r) = lo"
      by (simp_all add: clean_def window_request_def)
    have "latest_start ?n ?h (src_replies sc) = lo" by (simp add: noted_def Let_def clean)
    with ok that show ?thesis
      by (simp add: end_ok_def held_def clean window_read_back_def list_all_iff post_of_def) blast
  qed
  ultimately show ?thesis by (intro exI [of _ ?m]) (simp add: timeline_pages_clean)
qed

lemma search_recovery_keeps:
  "coll_rows (search_recovery f lo hi h c) = coll_rows c" "set (coll_posts c) \<subseteq> set (coll_posts (search_recovery f lo hi h c))"
  "coll_errors (search_recovery f lo hi h c) = [] \<Longrightarrow> coll_errors c = []"
  by (auto simp: search_recovery_def Let_def split: option.splits if_splits)

lemma timeline_failed_keeps:
  "coll_rows (timeline_failed f lo hi kw h c) = coll_rows c" "set (coll_posts c) \<subseteq> set (coll_posts (timeline_failed f lo hi kw h c))"
  "coll_errors (timeline_failed f lo hi kw h c) \<noteq> []"
proof -
  let ?c = "c\<lparr>coll_errors := coll_errors c @ [''@'' @ h @ '': '' @ feed_reason f h]\<rparr>"
  show "coll_rows (timeline_failed f lo hi kw h c) = coll_rows c" "set (coll_posts c) \<subseteq> set (coll_posts (timeline_failed f lo hi kw h c))"
    using search_recovery_keeps(1,2) [where c = ?c and f = f and lo = lo and hi = hi and h = h] by (simp_all add: timeline_failed_def Let_def)
  show "coll_errors (timeline_failed f lo hi kw h c) \<noteq> []"
    using search_recovery_keeps(3) [where c = ?c and f = f and lo = lo and hi = hi and h = h] by (auto simp: timeline_failed_def Let_def)
qed

lemma remember_part_fields:
  "coll_rows (remember_part h e c) = left_store e" "coll_posts (remember_part h e c) = coll_posts c"
  "coll_errors (remember_part h e c) = coll_errors c"
  by (simp_all add: remember_part_def)

text \<open>The ids collected so far in posts that some enabled source wrote.\<close>

definition own_ids :: "source_config list \<Rightarrow> update list \<Rightarrow> pystr set" where
  "own_ids cs us = upd_id ` {u \<in> set us. py_casefold (author u) \<in> set (configured_handles cs)}"

lemma own_ids_mono: "set us \<subseteq> set vs \<Longrightarrow> own_ids cs us \<subseteq> own_ids cs vs"
  by (auto simp: own_ids_def)

lemma own_ids_source:
  "sc \<in> set (enabled_sources cs) \<Longrightarrow> normalize_handle (src_handle sc) \<noteq> [] \<Longrightarrow>
    \<forall>u \<in> set us. py_casefold (author u) = py_casefold (normalize_handle (src_handle sc)) \<Longrightarrow> own_ids cs us = upd_id ` set us"
  by (auto simp: own_ids_def configured_handles_def)

lemma collect_source_ok:
  assumes "safe_past (feed_sha f) asked n" "checkpoints n = coll_rows col" "legal_source asked n f cs lo hi lim sc"
    "collect_source f cs lo hi lim True kw sc col = Inr c" "sc \<in> set (enabled_sources cs)"
  shows "\<exists>m. checkpoints m = coll_rows c \<and> pages m = pages n \<union> source_pages f cs lo hi lim sc col \<and> safe_past (feed_sha f) asked m \<and>
    (\<forall>sc'. legal_source asked n f cs lo hi lim sc' \<longrightarrow> legal_source asked m f cs lo hi lim sc') \<and>
    set (coll_posts col) \<subseteq> set (coll_posts c) \<and>
    (coll_errors c = [] \<longrightarrow> coll_errors col = [] \<and>
       (normalize_handle (src_handle sc) \<noteq> [] \<longrightarrow> window_read_back (pages m) lo hi sc (own_ids cs (coll_posts c))))"
proof (cases "normalize_handle (src_handle sc) = []")
  case True
  with assms show ?thesis by (intro exI [of _ n]) (simp add: collect_source_def source_pages_def)
next
  case False
  let ?h = "normalize_handle (src_handle sc)"
  show ?thesis
  proof (cases "feed_api f ?h")
    case None
    with False assms(4) have "c = timeline_failed f lo hi kw ?h col" by (simp add: collect_source_def)
    with assms(1-3) timeline_failed_keeps None False show ?thesis by (intro exI [of _ n]) (auto simp: source_pages_def)
  next
    case (Some p)
    obtain e where e: "source_timeline (window_request f cs lo hi lim (coll_used col) p sc) (checkpoints n) = Some e"
      using assms(2,4) False Some by (auto simp: collect_source_def Let_def split: option.splits)
    let ?c = "remember_part ?h e col"
    consider us where "verdict e = Complete us" "c = ?c\<lparr>coll_posts := coll_posts ?c @ us\<rparr>"
      | "\<forall>us. verdict e \<noteq> Complete us" "c = timeline_failed f lo hi kw ?h ?c"
      using assms(2,4) False Some e by (auto simp: collect_source_def Let_def split: verdict.splits)
    then have parts: "coll_rows c = left_store e \<and> set (coll_posts col) \<subseteq> set (coll_posts c) \<and>
      (coll_errors c = [] \<longrightarrow> coll_errors col = [] \<and> (\<exists>us. verdict e = Complete us \<and> set us \<subseteq> set (coll_posts c)))"
    proof cases
      case 1
      then show ?thesis by (simp add: remember_part_fields)
    next
      case 2
      then show ?thesis using timeline_failed_keeps [where c = ?c and f = f and lo = lo and hi = hi and h = ?h and kw = kw]
        by (simp add: remember_part_fields)
    qed
    from window_read [OF assms(1,3) Some e] obtain m where m: "checkpoints m = left_store e" "safe_past (feed_sha f) asked m"
      "pages m = pages n \<union> timeline_pages (window_request f cs lo hi lim (coll_used col) p sc) (checkpoints n)"
      "\<forall>sc'. legal_source asked n f cs lo hi lim sc' \<longrightarrow> legal_source asked m f cs lo hi lim sc'"
      "\<forall>us. verdict e = Complete us \<longrightarrow> window_read_back (pages m) lo hi sc (upd_id ` set us) \<and>
        (\<forall>u \<in> set us. sound_post u \<and> py_casefold (author u) = py_casefold ?h)" by blast
    have "window_read_back (pages m) lo hi sc (own_ids cs (coll_posts c))" if "coll_errors c = []"
    proof -
      from parts that obtain us where us: "verdict e = Complete us" "set us \<subseteq> set (coll_posts c)" by blast
      have "own_ids cs us = upd_id ` set us" using m(5) us(1) by (intro own_ids_source [OF assms(5) False]) blast
      then have "window_read_back (pages m) lo hi sc (own_ids cs us)" using m(5) us(1) by simp
      then show ?thesis by (rule window_read_back_mono [OF _ order_refl own_ids_mono [OF us(2)]])
    qed
    moreover have "pages m = pages n \<union> source_pages f cs lo hi lim sc col"
      using m(3) Some False assms(2) by (simp add: source_pages_def)
    ultimately show ?thesis using m(1,2,4) parts by (intro exI [of _ m]) simp
  qed
qed

lemma collect_sources_ok:
  assumes "safe_past (feed_sha f) asked n" "checkpoints n = coll_rows col" "\<forall>sc \<in> set scs. legal_source asked n f cs lo hi lim sc"
    "collect_sources f cs lo hi lim True kw scs col = Inr c" "set scs \<subseteq> set (enabled_sources cs)"
  shows "set (coll_posts col) \<subseteq> set (coll_posts c) \<and>
    (coll_errors c = [] \<longrightarrow> coll_errors col = [] \<and>
      (\<forall>sc \<in> set scs. normalize_handle (src_handle sc) \<noteq> [] \<longrightarrow>
         window_read_back (pages n \<union> collected_pages f cs lo hi lim kw scs col) lo hi sc (own_ids cs (coll_posts c))))"
  using assms
proof (induction scs arbitrary: col n)
  case Nil
  then show ?case by auto
next
  case (Cons sc scs)
  from Cons.prems(4) obtain c1 where c1: "collect_source f cs lo hi lim True kw sc col = Inr c1"
    "collect_sources f cs lo hi lim True kw scs c1 = Inr c" by (auto simp: bindE_Inr)
  have "legal_source asked n f cs lo hi lim sc" "sc \<in> set (enabled_sources cs)" using Cons.prems(3,5) by simp_all
  from collect_source_ok [OF Cons.prems(1,2) this(1) c1(1) this(2)] obtain m where m: "checkpoints m = coll_rows c1"
    "pages m = pages n \<union> source_pages f cs lo hi lim sc col" "safe_past (feed_sha f) asked m"
    "\<forall>sc'. legal_source asked n f cs lo hi lim sc' \<longrightarrow> legal_source asked m f cs lo hi lim sc'"
    "set (coll_posts col) \<subseteq> set (coll_posts c1)"
    "coll_errors c1 = [] \<longrightarrow> coll_errors col = [] \<and>
       (normalize_handle (src_handle sc) \<noteq> [] \<longrightarrow> window_read_back (pages m) lo hi sc (own_ids cs (coll_posts c1)))" by blast
  have "\<forall>sc' \<in> set scs. legal_source asked m f cs lo hi lim sc'" "set scs \<subseteq> set (enabled_sources cs)"
    using Cons.prems(3,5) m(4) by simp_all
  note ih = Cons.IH [OF m(3,1) this(1) c1(2) this(2)]
  have all: "pages n \<union> collected_pages f cs lo hi lim kw (sc # scs) col = pages m \<union> collected_pages f cs lo hi lim kw scs c1"
    by (simp add: m(2) c1(1) Un_assoc)
  have grow: "own_ids cs (coll_posts c1) \<subseteq> own_ids cs (coll_posts c)" using ih own_ids_mono by blast
  show ?case unfolding all
  proof (intro conjI impI ballI)
    show "set (coll_posts col) \<subseteq> set (coll_posts c)" using m(5) ih by blast
    assume clean: "coll_errors c = []"
    then show "coll_errors col = []" using ih m(6) by blast
    fix sc' assume sc': "sc' \<in> set (sc # scs)" "normalize_handle (src_handle sc') \<noteq> []"
    show "window_read_back (pages m \<union> collected_pages f cs lo hi lim kw scs c1) lo hi sc' (own_ids cs (coll_posts c))"
    proof (cases "sc' = sc")
      case True
      then have "window_read_back (pages m) lo hi sc' (own_ids cs (coll_posts c1))" using sc'(2) ih m(6) clean by blast
      then show ?thesis by (rule window_read_back_mono [OF _ Un_upper1 grow])
    next
      case False
      with sc' ih clean show ?thesis by auto
    qed
  qed
qed

lemma own_ids_covered:
  "configured_only cs us = Some vs \<Longrightarrow> i \<in> own_ids cs us \<Longrightarrow> set us \<subseteq> set copies \<Longrightarrow> covered cs copies vs i"
  unfolding own_ids_def using configured_only_covers by blast

lemma covered_again:
  assumes "covered cs copies us i" "configured_only cs us0 = Some us" "configured_only cs (us @ ws) = Some vs"
    "set us0 \<union> set ws \<subseteq> set copies"
  shows "covered cs copies vs i"
proof (cases "i \<in> upd_id ` set us")
  case True
  then obtain u where u: "u \<in> set us" "upd_id u = i" by blast
  from configured_only_parts(3) [OF assms(2) u(1)] have "py_casefold (author u) \<in> set (configured_handles cs)" by blast
  moreover have "set (us @ ws) \<subseteq> set copies" using configured_only_parts(3) [OF assms(2)] assms(4) by auto
  ultimately show ?thesis using configured_only_covers [OF assms(3), of u] u by simp
next
  case False
  with assms(1) show ?thesis by (simp add: covered_def)
qed

lemma py_unique_nonempty: "v \<in> set vs \<Longrightarrow> py_strip v \<noteq> [] \<Longrightarrow> py_unique vs \<noteq> []"
proof -
  let ?f = "\<lambda>v (seen_keys, out). let s = py_strip v; k = py_casefold s
     in if k \<noteq> [] \<and> k \<notin> set seen_keys then (k # seen_keys, s # out) else (seen_keys, out)"
  have inv: "set (fst (fold ?f vs (ks, out))) = py_casefold ` {s \<in> py_strip ` set vs. py_casefold s \<noteq> []} \<union> set ks \<and>
      length (fst (fold ?f vs (ks, out))) + length out = length (snd (fold ?f vs (ks, out))) + length ks" for ks out
  proof (induction vs arbitrary: ks out)
    case (Cons v vs)
    show ?case using Cons.IH [of "py_casefold (py_strip v) # ks" "py_strip v # out"] Cons.IH [of ks out]
      by (auto simp: Let_def)
  qed simp
  obtain ks out where done_with: "fold ?f vs ([], []) = (ks, out)" by (cases "fold ?f vs ([], [])") blast
  have keys: "set ks = py_casefold ` {s \<in> py_strip ` set vs. py_casefold s \<noteq> []}" "length ks = length out"
    using inv [of "[]" "[]"] unfolding done_with by simp_all
  assume v: "v \<in> set vs" "py_strip v \<noteq> []"
  have "py_casefold s = [] \<longleftrightarrow> s = []" for s by (cases s) (simp_all add: py_casefold_def)
  with v have "py_casefold (py_strip v) \<in> set ks" unfolding keys(1) by blast
  with keys(2) have "out \<noteq> []" by auto
  then show ?thesis unfolding py_unique_def done_with by simp
qed

definition at_line :: "pystr \<Rightarrow> bool" where
  "at_line e \<longleftrightarrow> e \<noteq> [] \<and> hd e = CHR ''@''"

lemma at_line_strip: "at_line e \<Longrightarrow> py_strip e \<noteq> []"
proof -
  assume e: "at_line e"
  then have "\<not> py_space (hd e)" by (simp add: at_line_def py_space_def)
  then have "dropWhile py_space e = e" by (intro dropWhile_fixed disjI2)
  moreover have "hd e \<in> set e" using e unfolding at_line_def by (intro hd_in_set) simp
  ultimately show ?thesis using \<open>\<not> py_space (hd e)\<close> unfolding py_strip_def by auto
qed

lemma search_lines:
  "list_all at_line (coll_errors c) \<Longrightarrow> list_all at_line (coll_errors (search_recovery f lo hi h c))"
  by (auto simp: search_recovery_def Let_def at_line_def split: option.splits)

lemma failed_lines:
  "list_all at_line (coll_errors c) \<Longrightarrow> list_all at_line (coll_errors (timeline_failed f lo hi kw h c))"
  using search_lines [of "c\<lparr>coll_errors := coll_errors c @ [''@'' @ h @ '': '' @ feed_reason f h]\<rparr>" f lo hi h]
  by (simp add: timeline_failed_def Let_def at_line_def)

lemma error_lines:
  "collect_sources f cs lo hi lim src kw scs col = Inr c \<Longrightarrow> list_all at_line (coll_errors col) \<Longrightarrow> list_all at_line (coll_errors c)"
proof (induction scs arbitrary: col)
  case (Cons sc scs)
  then obtain c1 where c1: "collect_source f cs lo hi lim src kw sc col = Inr c1" "collect_sources f cs lo hi lim src kw scs c1 = Inr c"
    by (auto simp: bindE_Inr)
  have "list_all at_line (coll_errors c1)"
    using c1(1) Cons.prems(2) search_lines failed_lines
    by (auto simp: collect_source_def Let_def remember_part_fields split: if_splits option.splits verdict.splits)
  with Cons.IH [OF c1(2)] show ?case .
qed simp

text \<open>The copies an authenticated window collected before they were filtered.\<close>

definition window_copies :: "feed \<Rightarrow> source_config list \<Rightarrow> instant \<Rightarrow> instant \<Rightarrow> int \<Rightarrow> bool \<Rightarrow> pydict \<Rightarrow> update list" where
  "window_copies f cs lo hi per_query kw rows =
     (case collect_sources f cs lo hi (timeline_limit per_query) True kw (enabled_sources cs)
        \<lparr>coll_posts = [], coll_errors = [], coll_search_errors = [], coll_rows = rows, coll_parts = [], coll_used = 0\<rparr> of
        Inl _ \<Rightarrow> [] | Inr c \<Rightarrow> coll_posts c @ concat (map snd (coll_parts c)))"

definition window_pages :: "feed \<Rightarrow> source_config list \<Rightarrow> instant \<Rightarrow> instant \<Rightarrow> int \<Rightarrow> bool \<Rightarrow> pydict \<Rightarrow> page set" where
  "window_pages f cs lo hi per_query kw rows =
     collected_pages f cs lo hi (timeline_limit per_query) kw (enabled_sources cs)
       \<lparr>coll_posts = [], coll_errors = [], coll_search_errors = [], coll_rows = rows, coll_parts = [], coll_used = 0\<rparr>"

lemma clean_window:
  assumes "safe_past (feed_sha f) asked n" "checkpoints n = rows"
    "\<forall>sc \<in> set (enabled_sources cs). legal_source asked n f cs lo hi (timeline_limit q) sc"
    "authenticated_window f cs lo hi q True kw rows = Inr (us, [], t)"
    "sc \<in> set (enabled_sources cs)" "normalize_handle (src_handle sc) \<noteq> []"
  shows "window_read_back (pages n \<union> window_pages f cs lo hi q kw rows) lo hi sc
    {i. covered cs (window_copies f cs lo hi q kw rows) us i}"
proof -
  let ?c0 = "\<lparr>coll_posts = [], coll_errors = [], coll_search_errors = [], coll_rows = rows, coll_parts = [], coll_used = 0\<rparr>"
  from assms(4) obtain c vs where c: "collect_sources f cs lo hi (timeline_limit q) True kw (enabled_sources cs) ?c0 = Inr c"
    "configured_only cs (coll_posts c) = Some vs" "configured_only cs (vs @ concat (map snd (coll_parts c))) = Some us"
    "[] = py_unique (coll_search_errors c @ coll_errors c)" "t = coll_rows c"
    by (auto simp: authenticated_window_def bindE_Inr split: option.splits)
  have "checkpoints n = coll_rows ?c0" using assms(2) by simp
  note ok = collect_sources_ok [OF assms(1) this assms(3) c(1) order_refl]
  have "coll_errors c = []"
  proof (rule ccontr)
    assume "coll_errors c \<noteq> []"
    then obtain e where e: "e \<in> set (coll_errors c)" by (meson last_in_set)
    with error_lines [OF c(1)] have "at_line e" by (simp add: list_all_iff)
    with py_unique_nonempty [of e "coll_search_errors c @ coll_errors c"] e c(4) at_line_strip show False by simp
  qed
  with ok assms(5,6) have "window_read_back (pages n \<union> window_pages f cs lo hi q kw rows) lo hi sc (own_ids cs (coll_posts c))"
    by (simp add: window_pages_def)
  then show ?thesis
  proof (rule window_read_back_mono [OF _ order_refl], intro subsetI CollectI)
    fix i assume that: "i \<in> own_ids cs (coll_posts c)"
    have copies: "window_copies f cs lo hi q kw rows = coll_posts c @ concat (map snd (coll_parts c))"
      by (simp add: window_copies_def c(1))
    have "covered cs (window_copies f cs lo hi q kw rows) vs i" using own_ids_covered [OF c(2) that] copies by simp
    from covered_again [OF this c(2,3)] show "covered cs (window_copies f cs lo hi q kw rows) us i" by (simp add: copies)
  qed
qed

lemma degraded_errors_nonempty: "degraded_window p cs streak lo hi src kw = Some (us, errs) \<Longrightarrow> errs \<noteq> []"
  by (auto simp: degraded_window_def degraded_errors_def Let_def split: if_splits)

section \<open>Examples\<close>

definition demo_feed :: feed where
  "demo_feed = \<lparr>feed_sha = (#) CHR ''k'', feed_env = plain_env, feed_clock = 100, feed_api = (\<lambda>h. Some demo_provider),
     feed_reason = (\<lambda>h. ''unavailable''), feed_search = (\<lambda>h. None)\<rparr>"

abbreviation demo_both :: "update list" where
  "demo_both \<equiv> [demo_post ''1'' ''hello'' 10 ''9'', demo_post ''2'' ''hello'' 40 ''9'']"

lemma fan_handles: "enabled_sources [fan_source] = [fan_source]" "configured_handles [fan_source] = [''fan'']"
  "normalize_handle (src_handle fan_source) = ''fan''" "src_handle fan_source = ''fan''" "src_replies fan_source"
  by (simp_all add: enabled_sources_def configured_handles_def fan_source_def demo_fan)

lemma fan_admits: "admits [fan_source] (demo_post i t at c)"
proof -
  have "py_casefold (py_strip (py_lstrip_at ''fan'')) = ''fan''" by code_simp
  then show ?thesis
    by (simp add: admits_def accept_governing governing_def demo_post_def) (simp add: fan_source_def demo_fan)
qed

lemma demo_filtered: "configured_only [fan_source] demo_both = Some demo_both"
proof -
  have "list_all comparable demo_both" by (simp add: comparable_def demo_post_def)
  moreover have "by_authors [fan_source] demo_both = demo_both" by (simp add: by_authors_def fan_handles demo_fan)
  moreover have "best_posts post_rank demo_both = demo_both" by (simp add: best_posts_def)
  ultimately show ?thesis by (simp add: configured_only_def fan_admits)
qed

theorem configured_only_spec_witness: "distinct (map upd_id demo_both) \<and> admits [fan_source] (demo_post ''2'' ''hello'' 40 ''9'')"
  using configured_only_spec [OF demo_filtered] by auto

lemma demo_collected:
  assumes "40 < hi"
  shows "collect_sources demo_feed [fan_source] 0 hi 600 True True [fan_source]
      \<lparr>coll_posts = [], coll_errors = [], coll_search_errors = [], coll_rows = [], coll_parts = [], coll_used = 0\<rparr> =
    Inr \<lparr>coll_posts = demo_both, coll_errors = [], coll_search_errors = [], coll_rows = [], coll_parts = [], coll_used = 0\<rparr>"
proof -
  let ?r = "window_request demo_feed [fan_source] 0 hi 600 0 demo_provider fan_source"
  have "source_timeline ?r [] = Some \<lparr>verdict = Complete demo_both, left_store = [], partial = None, fallbacks_used = fallbacks ?r\<rparr>"
    using assms by (intro demo_runs) (simp_all add: window_request_def fan_handles demo_fan)
  moreover have "fallbacks ?r = 0" by (simp add: window_request_def)
  moreover have "feed_api demo_feed h = Some demo_provider" for h by (simp add: demo_feed_def)
  ultimately show ?thesis by (simp add: fan_handles demo_fan collect_source_def remember_part_def Let_def)
qed

lemma demo_window: "40 < hi \<Longrightarrow> authenticated_window demo_feed [fan_source] 0 hi 200 True True [] = Inr (demo_both, [], [])"
  by (simp add: authenticated_window_def fan_handles timeline_limit_def demo_collected demo_filtered py_unique_def
      del: collect_sources.simps)

lemma demo_copies: "40 < hi \<Longrightarrow> window_copies demo_feed [fan_source] 0 hi 200 True [] = demo_both"
  by (simp add: window_copies_def fan_handles timeline_limit_def demo_collected del: collect_sources.simps)

lemma demo_legal_source:
  assumes "40 < hi" "valid_instant hi"
  shows "legal_source {(''fan'', 0, True)} demo_past demo_feed [fan_source] 0 hi 600 fan_source"
proof -
  let ?r = "window_request demo_feed [fan_source] 0 hi 600 0 demo_provider fan_source"
  have clean: "clean ?r = ?r" by (simp add: clean_def window_request_def fan_handles demo_fan)
  have "serves ?r" by (rule demo_serving) (simp add: window_request_def)
  moreover have "fits ?r" using assms by (simp add: fits_def window_request_def fan_handles demo_fan demo_small demo_feed_def)
  moreover have "asked_now ?r \<in> {(''fan'', 0, True)}" by (simp add: asked_now_def window_request_def fan_handles demo_fan)
  ultimately have "legal_request {(''fan'', 0, True)} demo_past ?r"
    unfolding legal_request_def clean by (simp add: window_request_def demo_past_def)
  then show ?thesis by (simp add: legal_source_def demo_feed_def)
qed

end
