(* ===== verification/Production.thy ===== *)
theory Production
  imports Collector Scan
begin

text \<open>
  The scan and the delivery that run in production: \<open>run_scheduled_scan\<close> of
  \<open>app/webhook_aware_assistant.py\<close> over the collector of \<open>Collector\<close>, and the guards of
  \<open>app/configured_source_runtime.py\<close> around \<open>deliver_pending\<close>. They replace the scan of
  \<open>app/main.py\<close> (\<open>Scan\<close>), whose delivery and failure notices they use.
\<close>

section \<open>The scan\<close>

record production_runtime = runtime +
  scheduled_min_interval :: int

text \<open>The state document: the bot's part and the retrieval checkpoints.\<close>

record production =
  bot_app :: app
  bot_rows :: pydict

type_synonym window_source = "int \<Rightarrow> pydict \<Rightarrow> instant \<Rightarrow> instant \<Rightarrow> halt \<times> pydict + gathered option"

definition scan_due :: "production_runtime \<Rightarrow> instant \<Rightarrow> state_data \<Rightarrow> bool" where
  "scan_due cfg now st \<longleftrightarrow>
     (case parse_state_datetime (last_auto_attempt st) of
        None \<Rightarrow> True | Some t \<Rightarrow> \<not> now - t < minutes (max 1 (scheduled_min_interval cfg)))"

definition degraded_last :: "bool \<Rightarrow> state_data \<Rightarrow> instant option" where
  "degraded_last degraded st = (if degraded then parse_state_datetime (last_degraded_scan_at st) else None)"

definition production_start :: "production_runtime \<Rightarrow> bool \<Rightarrow> instant \<Rightarrow> state_data \<Rightarrow> instant" where
  "production_start cfg degraded now st =
     (let auth = last_scan now st;
          dl = degraded_last degraded st;
          reached = (case dl of None \<Rightarrow> auth | Some t \<Rightarrow> max auth t);
          overlap = (if dl = None then minutes 30 else hours 2);
          start = max (reached - overlap) (now - hours (max 2 (scheduled_lookback_hours cfg)))
      in case parse_state_datetime (fresh_start_since st) of None \<Rightarrow> start | Some t \<Rightarrow> max start t)"

definition pass_complete :: "bool \<Rightarrow> source_config list \<Rightarrow> gathered \<Rightarrow> bool" where
  "pass_complete degraded cs g \<longleftrightarrow>
     (let active = filter (\<lambda>h. h \<noteq> []) (map (normalize_handle \<circ> src_handle) (enabled_sources cs));
          attempted = map normalize_handle (got_attempted g); failed = map normalize_handle (got_failed g)
      in degraded \<and> active \<noteq> [] \<and> list_all (\<lambda>h. h \<in> set attempted \<and> h \<notin> set failed) active)"

definition new_posts :: "state_data \<Rightarrow> update list \<Rightarrow> update list" where
  "new_posts st us =
     sort_key (\<lambda>u. (created_at u, upd_id u))
       (filter (\<lambda>u. \<not> is_seen st (upd_id u) \<and>
          (case parse_state_datetime (fresh_start_since st) of None \<Rightarrow> True | Some t \<Rightarrow> t \<le> created_at u)) us)"

text \<open>The exception that escaped, whether the scan was attempted, and the state.\<close>

definition production_scan :: "pyenv \<Rightarrow> production_runtime \<Rightarrow> bool \<Rightarrow> pystr list option \<Rightarrow> source_config list
    \<Rightarrow> window_source \<Rightarrow> instant \<Rightarrow> production \<Rightarrow> halt option \<times> bool \<times> production" where
  "production_scan pe cfg degraded blocked cs collect now s =
     (let st = app_state (bot_app s) in
      if \<not> scan_due cfg now st then (None, False, s)
      else
        let a = (bot_app s)\<lparr>app_state := st\<lparr>last_auto_attempt := isoformat now\<rparr>\<rparr>;
            fail = (\<lambda>b. record_x_scan_failure now b);
            note_errs = (\<lambda>errs b. b\<lparr>app_state := (app_state b)\<lparr>last_failed_sources := take 10 errs\<rparr>\<rparr>)
        in case blocked of
             Some errs \<Rightarrow> (None, True, s\<lparr>bot_app := fail (note_errs errs a)\<rparr>)
           | None \<Rightarrow>
             (case collect (x_scan_failure_streak st) (bot_rows s) (production_start cfg degraded now st) now of
                Inl (h, rows) \<Rightarrow> (Some h, False, s\<lparr>bot_app := a, bot_rows := rows\<rparr>)
              | Inr None \<Rightarrow> (None, True, s\<lparr>bot_app := fail a\<rparr>)
              | Inr (Some g) \<Rightarrow>
                  (let b = a\<lparr>app_state := queue_updates pe False (new_posts st (got_posts g)) (app_state a)\<rparr>;
                       leave = (\<lambda>c. (None, True, s\<lparr>bot_app := c, bot_rows := got_rows g\<rparr>))
                   in if pass_complete degraded cs g
                      then leave (b\<lparr>app_state := (app_state b)
                        \<lparr>last_degraded_scan_at := isoformat now, last_failed_sources := [], last_x_error_notice := [],
                         x_scan_failure_streak := 0\<rparr>\<rparr>)
                      else if got_errors g \<noteq> [] then leave (fail (note_errs (got_errors g) b))
                      else leave (b\<lparr>app_state := (app_state b)
                        \<lparr>last_auto_run := isoformat now, fresh_start_since := [], last_degraded_scan_at := [],
                         last_x_error_notice := [], last_failed_sources := [], x_scan_failure_streak := 0\<rparr>\<rparr>))))"

text \<open>The collector of production; its collection error does not occur.\<close>

definition production_collect :: "feed \<Rightarrow> public_feeds \<Rightarrow> bool \<Rightarrow> source_config list \<Rightarrow> window_source" where
  "production_collect f p degraded cs streak rows lo hi =
     bindE (provider_window f p degraded cs streak 200 rows lo hi) (\<lambda>g. Inr (Some g))"

section \<open>The guarded delivery\<close>

definition row_author :: "pyenv \<Rightarrow> pydict \<Rightarrow> pystr" where
  "row_author pe item =
     (let v = dict_get item ''author'' (JStr []) in if truthy v then py_str (float_text pe) v else [])"

definition purge_external :: "pyenv \<Rightarrow> source_config list \<Rightarrow> state_data \<Rightarrow> state_data" where
  "purge_external pe cs st =
     st\<lparr>pending_delivery := filter (\<lambda>item. is_configured cs (row_author pe item)) (pending_delivery st)\<rparr>"

text \<open>A source request that is being collected or delivered holds back the pending posts.\<close>

definition active_requests :: "state_data \<Rightarrow> py_exc + bool" where
  "active_requests st =
     (case date_requests st of
        None \<Rightarrow> Inr False
      | Some d \<Rightarrow>
          (case dict_get d ''jobs'' (JObj []) of
             JObj jobs \<Rightarrow>
               fold (\<lambda>(k, v) r. bindE r (\<lambda>b. case v of
                   JObj j \<Rightarrow>
                     if \<not> truthy (dict_get j ''source_filter'' JNull) then Inr b
                     else (case dict_get j ''status'' JNull of
                             JStr x \<Rightarrow> Inr (b \<or> x = ''collecting'' \<or> x = ''delivering'')
                           | JList _ \<Rightarrow> Inl TypeError
                           | JObj _ \<Rightarrow> Inl TypeError
                           | _ \<Rightarrow> Inr b)
                 | _ \<Rightarrow> Inl AttributeError)) jobs (Inr False)
           | _ \<Rightarrow> Inl AttributeError))"

definition guarded_deliver :: "source_config list \<Rightarrow> delivery_world \<Rightarrow> runtime \<Rightarrow> instant \<Rightarrow> app \<Rightarrow> (py_exc option \<times> app) option" where
  "guarded_deliver cs w cfg now a =
     (let b = a\<lparr>app_state := purge_external (wenv w) cs (app_state a)\<rparr>
      in case active_requests (app_state b) of
           Inl e \<Rightarrow> Some (Some e, b)
         | Inr True \<Rightarrow> Some (None, b)
         | Inr False \<Rightarrow>
             map_option (\<lambda>r. case r of Inl e \<Rightarrow> (Some e, b) | Inr c \<Rightarrow> (None, c)) (deliver_pending w cfg now b))"

section \<open>What a scan does\<close>

lemma record_failure_keeps [simp]:
  "last_degraded_scan_at (app_state (record_x_scan_failure now a)) = last_degraded_scan_at (app_state a)"
  by (simp add: record_x_scan_failure_def notify_x_failure_def safe_send_def Let_def)

lemma production_cases:
  assumes "production_scan pe cfg degraded blocked cs collect now s = (h, att, s')"
  obtains (quiet) "seen (app_state (bot_app s')) = seen (app_state (bot_app s))"
      "pending_delivery (app_state (bot_app s')) = pending_delivery (app_state (bot_app s))"
      "last_auto_run (app_state (bot_app s')) = last_auto_run (app_state (bot_app s))"
  | (got) g where "scan_due cfg now (app_state (bot_app s))" "blocked = None" "h = None"
      "collect (x_scan_failure_streak (app_state (bot_app s))) (bot_rows s)
         (production_start cfg degraded now (app_state (bot_app s))) now = Inr (Some g)"
      "seen (app_state (bot_app s')) = seen (app_state (bot_app s))" "bot_rows s' = got_rows g"
      "pending_delivery (app_state (bot_app s')) =
         pending_delivery (queue_updates pe False (new_posts (app_state (bot_app s)) (got_posts g)) (app_state (bot_app s)))"
      "last_auto_run (app_state (bot_app s')) =
         (if \<not> pass_complete degraded cs g \<and> got_errors g = [] then isoformat now else last_auto_run (app_state (bot_app s)))"
proof -
  have q: "pending_delivery (queue_updates e f us (st\<lparr>last_auto_attempt := x\<rparr>)) = pending_delivery (queue_updates e f us st)"
    "seen (queue_updates e f us st) = seen st" "last_auto_run (queue_updates e f us st) = last_auto_run st" for e f us st x
    by (simp_all add: queue_updates_def)
  note scan = assms [unfolded production_scan_def Let_def]
  show thesis
  proof (cases "scan_due cfg now (app_state (bot_app s))")
    case False
    with scan quiet show thesis by simp
  next
    case due: True
    show thesis
    proof (cases blocked)
      case (Some errs)
      with due scan quiet show thesis by auto
    next
      case None
      show thesis
      proof (cases "collect (x_scan_failure_streak (app_state (bot_app s))) (bot_rows s)
         (production_start cfg degraded now (app_state (bot_app s))) now")
        case (Inl hr)
        with due None scan quiet show thesis by (cases hr) auto
      next
        case (Inr og)
        show thesis
        proof (cases og)
          case empty: None
          with Inr due None scan quiet show thesis by auto
        next
          case (Some g)
          with Inr due None scan show thesis by (intro got [of g]) (auto simp: q split: if_splits)
        qed
      qed
    qed
  qed
qed

section \<open>The cursor moves over windows that were read\<close>

lemma provider_window_clean:
  assumes "provider_window f p degraded cs streak q rows lo hi = Inr g" "got_errors g = []"
  shows "\<not> degraded \<and> authenticated_window f cs lo hi q True True rows = Inr (got_posts g, [], got_rows g)"
proof (cases degraded)
  case True
  with assms degraded_errors_nonempty [of p cs streak lo hi True True] show ?thesis
    by (auto simp: provider_window_def Let_def split: option.splits)
next
  case False
  with assms show ?thesis by (auto simp: provider_window_def bindE_Inr)
qed

lemma queued_or_seen:
  assumes "parse_state_datetime (fresh_start_since st) = None" "v \<in> set us"
  shows "is_seen st (upd_id v) \<or> upd_id v \<in> row_id pe ` set (pending_delivery (queue_updates pe False (new_posts st us) st))"
  using assms queue_updates_rows [of pe False "new_posts st us" st] by (auto simp: new_posts_def)


section \<open>An outage longer than the lookback\<close>


section \<open>Any run of the production bot\<close>

datatype production_op =
    ProductionScan bool "pystr list option" window_source instant
  | ProductionDeliver delivery_world instant
  | ProductionPrune instant

fun production_step :: "pyenv \<Rightarrow> production_runtime \<Rightarrow> source_config list \<Rightarrow> production_op \<Rightarrow> production \<Rightarrow> production" where
  "production_step pe cfg cs (ProductionScan degraded blocked collect now) s =
     snd (snd (production_scan pe cfg degraded blocked cs collect now s))"
| "production_step pe cfg cs (ProductionDeliver w now) s =
     (case guarded_deliver cs (w\<lparr>wenv := pe\<rparr>) (runtime.truncate cfg) now (bot_app s) of
        None \<Rightarrow> s | Some (e, a) \<Rightarrow> s\<lparr>bot_app := a\<rparr>)"
| "production_step pe cfg cs (ProductionPrune now) s =
     s\<lparr>bot_app := (bot_app s)\<lparr>app_state := prune pe now (app_state (bot_app s))\<rparr>\<rparr>"

text \<open>Operations of the 45 days after \<open>t\<close>; the collector returns constructed posts of configured authors.\<close>

fun production_legal :: "source_config list \<Rightarrow> instant \<Rightarrow> production_op \<Rightarrow> bool" where
  "production_legal cs t (ProductionScan degraded blocked collect now) \<longleftrightarrow>
     (\<forall>k rows lo g. collect k rows lo now = Inr (Some g) \<longrightarrow>
        (\<forall>u \<in> set (got_posts g). sound_post u \<and> is_configured cs (author u)))"
| "production_legal cs t (ProductionDeliver w now) \<longleftrightarrow> t \<le> now \<and> valid_instant now"
| "production_legal cs t (ProductionPrune now) \<longleftrightarrow> now \<le> t + days 45"

text \<open>Every queued row names a configured author, so the purge drops none.\<close>

definition queue_authors :: "pyenv \<Rightarrow> source_config list \<Rightarrow> state_data \<Rightarrow> bool" where
  "queue_authors pe cs st \<longleftrightarrow> (\<forall>item \<in> set (pending_delivery st). is_configured cs (row_author pe item))"

definition production_inv :: "pyenv \<Rightarrow> source_config list \<Rightarrow> instant \<Rightarrow> pystr \<Rightarrow> production \<Rightarrow> bool" where
  "production_inv pe cs t i s \<longleftrightarrow> acc_inv pe t i (bot_app s) \<and> queue_authors pe cs (app_state (bot_app s))"

lemma queue_item_author: "row_author pe (queue_item force u) = author u"
proof -
  have "dict_get (queue_item force u) ''author'' (JStr []) = JStr (author u)"
    by (simp add: queue_item_def dict_get_def update_to_dict_def)
  then show ?thesis by (simp add: row_author_def py_str_def)
qed

lemma purge_none: "queue_authors pe cs st \<Longrightarrow> purge_external pe cs st = st"
  by (simp add: purge_external_def queue_authors_def filter_id_conv)

lemma queue_updates_authors:
  assumes "queue_authors pe cs st" "\<forall>u \<in> set us. is_configured cs (author u)"
  shows "queue_authors pe cs (queue_updates pe force us st)"
proof -
  obtain added where "pending_delivery (queue_updates pe force us st) = pending_delivery st @ added"
    "set added \<subseteq> queue_item force ` set us"
    using queue_loop_append [of force "set (map (\<lambda>item. id_text pe item JNull) (pending_delivery st))" us "pending_delivery st"]
    by (auto simp: queue_updates_def)
  with assms queue_item_author [of pe force] show ?thesis by (fastforce simp: queue_authors_def)
qed

lemma production_scan_inv:
  assumes "production_legal cs t (ProductionScan degraded blocked collect now)" "production_inv pe cs t i s"
  shows "production_inv pe cs t i (snd (snd (production_scan pe cfg degraded blocked cs collect now s)))"
proof -
  obtain h att s' where run: "production_scan pe cfg degraded blocked cs collect now s = (h, att, s')" by (metis prod_cases3)
  let ?st = "app_state (bot_app s)"
  have old: "acc_inv pe t i (bot_app s)" "queue_authors pe cs ?st" using assms(2) by (simp_all add: production_inv_def)
  from run have "production_inv pe cs t i s'"
  proof (cases rule: production_cases)
    case quiet
    with old show ?thesis by (simp add: production_inv_def acc_inv_frame [OF quiet(2,1)] queue_authors_def)
  next
    case (got g)
    let ?q = "queue_updates pe False (new_posts ?st (got_posts g)) ?st"
    have posts: "\<forall>u \<in> set (new_posts ?st (got_posts g)). sound_post u \<and> is_configured cs (author u)"
      using assms(1) got(4) by (auto simp: new_posts_def)
    have "acc_inv pe t i ((bot_app s)\<lparr>app_state := ?q\<rparr>)"
      using old(1) posts queue_updates_ok accounted_queue by (auto simp: acc_inv_def)
    moreover have "seen ?q = seen ?st" by (simp add: queue_updates_def)
    moreover have "queue_authors pe cs ?q" using old(2) posts queue_updates_authors by blast
    ultimately show ?thesis using got(5,7)
      by (simp add: production_inv_def queue_authors_def acc_inv_def queue_ok_def accounted_def cong: option.case_cong)
  qed
  with run show ?thesis by simp
qed

lemma deliver_pending_rows:
  assumes "deliver_pending w cfg now a = Some (Inr b)"
  shows "set (pending_delivery (app_state b)) \<subseteq> set (pending_delivery (app_state a))"
proof (cases "b = a")
  case False
  then obtain pending st' where pop: "pop_pending (wenv w) now (max 1 (max_auto_items cfg)) (app_state a) = Inr (pending, st')"
    "deliver_batches w now (batches pending) (a\<lparr>app_state := st'\<rparr>) = Some b"
    using assms by (auto simp: deliver_pending_def Let_def split: if_splits sum.splits)
  from deliver_batches_marks [OF pop(2)] obtain J where "marks_only now (a\<lparr>app_state := st'\<rparr>) b J" by blast
  then have "pending_delivery (app_state b) = pending_delivery st'" by (simp add: marks_only_def)
  moreover have "set (pending_delivery st') \<subseteq> set (pending_delivery (app_state a))"
  proof -
    from pop(1) obtain rem where "pop_loop (wenv w) now (app_state a) (nat (max 1 (max_auto_items cfg))) (pending_delivery (app_state a)) = Inr (rem, pending)"
      "st' = (app_state a)\<lparr>pending_delivery := rem\<rparr>" by (auto simp: pop_pending_def bindE_Inr)
    from pop_loop_spec [OF this(1), THEN conjunct1] this(2) show ?thesis by auto
  qed
  ultimately show ?thesis by simp
qed simp

lemma guarded_deliver_inv:
  assumes "acc_inv (wenv w) t i a" "queue_authors (wenv w) cs (app_state a)" "t \<le> now" "valid_instant now"
    "guarded_deliver cs w cfg now a = Some (e, b)"
  shows "acc_inv (wenv w) t i b \<and> queue_authors (wenv w) cs (app_state b)"
proof -
  have same: "a\<lparr>app_state := purge_external (wenv w) cs (app_state a)\<rparr> = a" using purge_none [OF assms(2)] by simp
  consider "b = a" | "deliver_pending w cfg now a = Some (Inr b)"
    using assms(5) unfolding guarded_deliver_def same Let_def
    by (cases "active_requests (app_state a)"; cases "deliver_pending w cfg now a"; cases "the (deliver_pending w cfg now a)")
      (auto split: bool.splits)
  then show ?thesis
  proof cases
    case 2
    with deliver_pending_acc [OF assms(1) 2 assms(3,4)] deliver_pending_rows [OF 2] assms(2) show ?thesis
      by (auto simp: queue_authors_def)
  qed (use assms in simp)
qed

lemma production_step_inv:
  assumes "production_legal cs t op" "production_inv pe cs t i s"
  shows "production_inv pe cs t i (production_step pe cfg cs op s)"
proof (cases op)
  case (ProductionScan degraded blocked collect now)
  with assms production_scan_inv show ?thesis by simp
next
  case (ProductionDeliver w now)
  with assms guarded_deliver_inv [of "w\<lparr>wenv := pe\<rparr>" t i "bot_app s" cs now] show ?thesis
    by (auto simp: production_inv_def split: option.split)
next
  case (ProductionPrune now)
  with assms have "now - days 45 \<le> t" by simp
  with assms(2) ProductionPrune show ?thesis
    by (auto simp: production_inv_def acc_inv_def accounted_prune) (simp_all add: queue_ok_def queue_authors_def prune_def)
qed

interpretation production: guarded_machine "production_step pe cfg cs" "production_inv pe cs t i" "production_legal cs t" for pe cfg cs t i
  by unfold_locales (rule production_step_inv)

text \<open>
  A queued post of a configured author is never lost by the production bot: whatever scans,
  degraded or not, guarded deliveries and prunings follow in the next 45 days, it waits in the queue
  or carries a seen mark set since.
\<close>

theorem production_keeps_posts:
  assumes "queue_ok pe (app_state (bot_app s))" "queue_authors pe cs (app_state (bot_app s))"
    and "i \<in> row_id pe ` set (pending_delivery (app_state (bot_app s)))" "\<not> is_seen (app_state (bot_app s)) i"
    and "list_all (production_legal cs t) ops"
  shows "accounted pe t i (app_state (bot_app (fold (production_step pe cfg cs) ops s)))"
proof -
  have "production_inv pe cs t i s"
    using assms(1-4) by (simp add: production_inv_def acc_inv_def accounted_def is_seen_map)
  from production.legal_run [OF assms(5) this] show ?thesis by (simp add: production_inv_def acc_inv_def)
qed

section \<open>Examples\<close>

definition daily_runtime :: production_runtime where
  "daily_runtime = \<lparr>scheduled_lookback_hours = 24, max_collection_items = 1000, max_auto_items = 60, scheduled_min_interval = 12\<rparr>"

definition quiet_feeds :: public_feeds where
  "quiet_feeds = \<lparr>syndication = (\<lambda>h lo hi rep. Inl ''down''), agent_reach = (\<lambda>h lo hi rep. Inl ''down''), batch_limit = 64\<rparr>"

definition waiting :: "instant \<Rightarrow> production" where
  "waiting t = \<lparr>bot_app = \<lparr>app_state = fresh_state\<lparr>last_auto_run := isoformat t\<rparr>, notices = []\<rparr>, bot_rows = []\<rparr>"

lemma waiting_fields:
  "last_auto_run (app_state (bot_app (waiting t))) = isoformat t" "bot_rows (waiting t) = []"
  "fresh_start_since (app_state (bot_app (waiting t))) = []" "last_auto_attempt (app_state (bot_app (waiting t))) = []"
  "seen (app_state (bot_app (waiting t))) = []" "pending_delivery (app_state (bot_app (waiting t))) = []"
  by (simp_all add: waiting_def fresh_state_def)

lemma waiting_due: "scan_due daily_runtime now (app_state (bot_app (waiting t)))"
  by (simp add: scan_due_def waiting_fields parse_state_datetime_def)

lemma waiting_last: "valid_instant t \<Longrightarrow> last_scan now (app_state (bot_app (waiting t))) = t"
  by (simp add: last_scan_def parse_state_datetime_def waiting_fields fromisoformat_isoformat as_utc_def)

lemma day_valid: "valid_instant (hours 24)" "valid_instant (minutes 30)" "valid_instant 0" "40 < hours 24"
  by (simp_all add: valid_instant_def hours_def minutes_def us_per_s_def us_per_day_def)

lemma waiting_start: "production_start daily_runtime degraded (hours 24) (app_state (bot_app (waiting (minutes 30)))) = 0"
proof -
  have "degraded_last degraded (app_state (bot_app (waiting (minutes 30)))) = None"
    by (simp add: degraded_last_def parse_state_datetime_def waiting_def fresh_state_def)
  then show ?thesis
    by (simp add: production_start_def waiting_last day_valid Let_def waiting_fields parse_state_datetime_def [of "[]"])
      (simp add: daily_runtime_def)
qed

lemma isoformat_apart: "valid_instant a \<Longrightarrow> valid_instant b \<Longrightarrow> a \<noteq> b \<Longrightarrow> isoformat a \<noteq> isoformat b"
  using fromisoformat_isoformat by (metis option.inject prod.inject)

lemma demo_production:
  "\<exists>s'. production_scan plain_env daily_runtime False None [fan_source] (production_collect demo_feed quiet_feeds False [fan_source])
      (hours 24) (waiting (minutes 30)) = (None, True, s') \<and> last_auto_run (app_state (bot_app s')) = isoformat (hours 24)"
proof -
  let ?st = "app_state (bot_app (waiting (minutes 30)))"
  have "production_collect demo_feed quiet_feeds False [fan_source] k [] 0 (hours 24) =
      Inr (Some \<lparr>got_posts = demo_both, got_errors = [], got_rows = [], got_attempted = [], got_failed = []\<rparr>)" for k
    using demo_window [OF day_valid(4)] by (simp add: production_collect_def provider_window_def)
  then show ?thesis
    unfolding production_scan_def Let_def using waiting_due [of "hours 24" "minutes 30"]
    by (simp add: waiting_start waiting_fields pass_complete_def)
qed


definition late_collect :: window_source where
  "late_collect k rows lo hi =
     Inr (Some \<lparr>got_posts = if lo = hours 24 then [] else demo_both, got_errors = [], got_rows = rows, got_attempted = [], got_failed = []\<rparr>)"

definition empty_collect :: window_source where
  "empty_collect k rows lo hi =
     Inr (Some \<lparr>got_posts = [], got_errors = [], got_rows = rows, got_attempted = [], got_failed = []\<rparr>)"


definition holding :: production where
  "holding = \<lparr>bot_app = demo_queued, bot_rows = []\<rparr>"

theorem production_keeps_posts_witness:
  "accounted plain_env demo_now ''2'' (app_state (bot_app (fold (production_step plain_env daily_runtime [fan_source])
     [ProductionScan True None empty_collect demo_now, ProductionDeliver demo_world demo_now, ProductionPrune (demo_now + days 40)] holding)))"
proof (rule production_keeps_posts)
  let ?p = "demo_post ''2'' ''hello'' 10 ''9''"
  have queue: "pending_delivery (app_state (bot_app holding)) = [queue_item False ?p]" by (simp add: holding_def demo_queued_def)
  show "queue_ok plain_env (app_state (bot_app holding))"
    using demo_sound(1) readable_queue_item by (simp add: queue_ok_def queue)
  show "queue_authors plain_env [fan_source] (app_state (bot_app holding))"
    by (simp add: queue_authors_def queue queue_item_author is_configured_def fan_handles demo_fan Let_def)
  show "''2'' \<in> row_id plain_env ` set (pending_delivery (app_state (bot_app holding)))"
    by (simp add: queue row_id_def queue_item_get)
  show "\<not> is_seen (app_state (bot_app holding)) ''2''"
    by (simp add: is_seen_def holding_def demo_queued_def demo_app_def fresh_state_def)
  show "list_all (production_legal [fan_source] demo_now)
     [ProductionScan True None empty_collect demo_now, ProductionDeliver demo_world demo_now, ProductionPrune (demo_now + days 40)]"
    by (simp add: empty_collect_def demo_now_def hours_def days_def valid_instant_def us_per_day_def us_per_s_def)
qed

end
