(* ===== verification/Lifecycle.thy ===== *)
theory Lifecycle
  imports Production
begin

text \<open>
  \<open>app/zero_silent_miss.py\<close> and \<open>app/lifecycle_correlation_runtime.py\<close>: the lifecycle record
  every update gets and the quarantine that replaces silent drops. \<open>lifecycle\<close> is the durable
  state with the two fields the module adds (\<open>update_lifecycle\<close>, \<open>quarantined_delivery\<close>) and the
  process table \<open>_LAST_RETRIEVAL_BY_UPDATE\<close>; the operations are the methods the module installs on
  \<open>StateStore\<close>, each around the original of theory \<open>StateStore\<close>. SHA-256, the text of
  \<open>json.dumps\<close> and the Persian pattern of \<open>translation_unavailable\<close> are arguments. \<open>observe\<close>
  only logs and is left out. An operation returns what Python returns or raises, with the state
  it leaves behind.
\<close>

section \<open>State\<close>

record live_env =
  lpe :: pyenv
  sha_hex :: "pystr \<Rightarrow> pystr"
  dump_sorted :: "json \<Rightarrow> pystr"
  outage_text :: "pystr \<Rightarrow> bool"

record lifecycle =
  durable :: state_data
  lives :: "(pystr \<times> pydict) list"
  quarantined :: "pydict list"
  retrievals :: "(pystr \<times> pystr \<times> pystr) list"

definition fresh_lifecycle :: lifecycle where
  "fresh_lifecycle = \<lparr>durable = fresh_state, lives = [], quarantined = [], retrievals = []\<rparr>"

definition lifecycle_limit :: nat where "lifecycle_limit = 30000"
definition quarantine_limit :: nat where "quarantine_limit = 1000"

definition live_fields :: "pystr list" where
  "live_fields = [''update_id'', ''post_id'', ''source'', ''event_id'', ''status'', ''stage'',
     ''retrieval_attempt_id'', ''retrieval_status'', ''media_status'', ''media_asset_ids'',
     ''translation_status'', ''translation_job_id'', ''delivery_key'', ''delivery_receipt_id'',
     ''error_class'', ''reason'', ''retry_count'', ''updated_at'']"

text \<open>The known fields of a loaded record, in the order of the list; other keys are dropped.\<close>

definition clean_record :: "pydict \<Rightarrow> pydict" where
  "clean_record raw = List.map_filter (\<lambda>k. map_option (Pair k) (map_of raw k)) live_fields"

definition clean_lives :: "pydict \<Rightarrow> (pystr \<times> pydict) list" where
  "clean_lives d = List.map_filter (\<lambda>(k, v). map_option (\<lambda>raw. (k, clean_record raw)) (obj_fields v))
     (last_n lifecycle_limit d)"

definition normalize_lifecycle :: "(pyfloat \<Rightarrow> pystr) \<Rightarrow> pydict \<Rightarrow> py_exc + lifecycle" where
  "normalize_lifecycle fr v = bindE (normalize_loaded fr v) (\<lambda>st.
     Inr \<lparr>durable = st,
       lives = (case map_of v ''update_lifecycle'' of Some (JObj d) \<Rightarrow> clean_lives d | _ \<Rightarrow> []),
       quarantined = (case map_of v ''quarantined_delivery'' of
           Some (JList xs) \<Rightarrow> List.map_filter obj_fields (last_n quarantine_limit xs) | _ \<Rightarrow> []),
       retrievals = []\<rparr>)"

text \<open>
  \<open>self.data\<close> as it is written; \<open>phase2_runtime_compat\<close> sets the schema number the module raises
  back to 4.
\<close>

definition lifecycle_to_dict :: "lifecycle \<Rightarrow> pydict" where
  "lifecycle_to_dict s = state_to_dict (durable s) @
     [(''update_lifecycle'', JObj (map (\<lambda>(k, d). (k, JObj d)) (lives s))),
      (''quarantined_delivery'', JList (map JObj (quarantined s)))]"

section \<open>Identifiers\<close>

text \<open>\<open>str(part or "")\<close>\<close>

definition or_text :: "pyenv \<Rightarrow> json \<Rightarrow> pystr" where
  "or_text pe v = (if truthy v then py_str (float_text pe) v else [])"

fun join_with :: "char \<Rightarrow> pystr list \<Rightarrow> pystr" where
  "join_with c [] = []"
| "join_with c [s] = s"
| "join_with c (s # t # r) = s @ c # join_with c (t # r)"

definition stable_id :: "live_env \<Rightarrow> pystr \<Rightarrow> json list \<Rightarrow> pystr" where
  "stable_id le prefix parts = prefix @ '':'' @ take 20 (sha_hex le (join_with (char_of (31 :: nat)) (map (or_text (lpe le)) parts)))"

text \<open>The version \<open>lifecycle_correlation_runtime\<close> installs: the event id plays no part.\<close>

definition translation_job :: "live_env \<Rightarrow> json \<Rightarrow> pystr" where
  "translation_job le update_id = stable_id le ''tr'' [update_id]"

definition media_asset_id :: "live_env \<Rightarrow> media_item \<Rightarrow> pystr" where
  "media_asset_id le m = stable_id le ''media'' [kind m, media_url m]"

text \<open>\<open>str.isalnum\<close> of one Latin-1 character: letters, superscript digits and fractions count.\<close>

definition alnum :: "char \<Rightarrow> bool" where
  "alnum c \<longleftrightarrow> (let n = (of_char c :: nat) in
     (48 \<le> n \<and> n \<le> 57) \<or> (65 \<le> n \<and> n \<le> 90) \<or> (97 \<le> n \<and> n \<le> 122) \<or>
     n \<in> {170, 178, 179, 181, 185, 186, 188, 189, 190} \<or> (192 \<le> n \<and> n \<noteq> 215 \<and> n \<noteq> 247))"

definition safe_code :: "pystr \<Rightarrow> pystr \<Rightarrow> pystr" where
  "safe_code dflt value =
     or_default (take 120 (filter (\<lambda>c. alnum c \<or> c \<in> set ''._:-'') (py_strip (or_default value dflt)))) dflt"

section \<open>Recording\<close>

definition live_of :: "lifecycle \<Rightarrow> pystr \<Rightarrow> pydict" where
  "live_of s i = (case map_of (lives s) i of None \<Rightarrow> [] | Some d \<Rightarrow> d)"

datatype subject = Whole update | Named pystr

fun subject_id :: "subject \<Rightarrow> pystr" where
  "subject_id (Whole u) = upd_id u"
| "subject_id (Named i) = i"

text \<open>The keyword arguments of \<open>_record_update_state\<close>, with their defaults.\<close>

record live_args =
  a_source :: pystr
  a_event :: json
  a_attempt :: pystr
  a_retrieval :: pystr
  a_media :: pystr
  a_assets :: pystr
  a_translation :: pystr
  a_job :: pystr
  a_key :: pystr
  a_receipt :: int
  a_error :: pystr
  a_reason :: pystr
  a_retries :: "int option"

definition no_args :: live_args where
  "no_args = \<lparr>a_source = [], a_event = JStr [], a_attempt = [], a_retrieval = [], a_media = [],
     a_assets = [], a_translation = [], a_job = [], a_key = [], a_receipt = 0, a_error = [],
     a_reason = [], a_retries = None\<rparr>"

definition put_default :: "pystr \<Rightarrow> json \<Rightarrow> pydict \<Rightarrow> pydict" where
  "put_default k v d = (if map_of d k = None then AList.update k v d else d)"

definition put_if :: "bool \<Rightarrow> pystr \<Rightarrow> json \<Rightarrow> pydict \<Rightarrow> pydict" where
  "put_if b k v d = (if b then AList.update k v d else d)"

fun put_source :: "subject \<Rightarrow> pystr \<Rightarrow> pydict \<Rightarrow> pydict" where
  "put_source (Whole u) src d = AList.update ''source'' (JStr (author u)) d"
| "put_source (Named i) src d = put_if (src \<noteq> []) ''source'' (JStr (take 80 (py_lstrip_at src))) d"

definition put_details :: "pyenv \<Rightarrow> pystr \<Rightarrow> live_args \<Rightarrow> pydict \<Rightarrow> pydict" where
  "put_details pe status a = fold (\<lambda>(b, k, v). put_if b k v)
     [(truthy (a_event a), ''event_id'', JStr (take 160 (py_str (float_text pe) (a_event a)))),
      (a_attempt a \<noteq> [], ''retrieval_attempt_id'', JStr (take 80 (a_attempt a))),
      (a_retrieval a \<noteq> [], ''retrieval_status'', JStr (safe_code ''unknown'' (a_retrieval a))),
      (a_media a \<noteq> [], ''media_status'', JStr (safe_code ''unknown'' (a_media a))),
      (a_assets a \<noteq> [], ''media_asset_ids'', JStr (take 600 (a_assets a))),
      (a_translation a \<noteq> [], ''translation_status'', JStr (safe_code ''unknown'' (a_translation a))),
      (a_job a \<noteq> [], ''translation_job_id'', JStr (take 120 (a_job a))),
      (a_key a \<noteq> [], ''delivery_key'', JStr (take 180 (a_key a))),
      (a_receipt a \<noteq> 0, ''delivery_receipt_id'', JInt (max 0 (a_receipt a))),
      (a_error a \<noteq> [] \<or> status = ''delivered'' \<or> status = ''delivered_text_media_failed'', ''error_class'',
         JStr (if a_error a = [] then [] else safe_code ''Error'' (a_error a))),
      (a_reason a \<noteq> [] \<or> status = ''delivered'', ''reason'',
         JStr (if a_reason a = [] then [] else safe_code ''unknown'' (a_reason a)))]"

definition put_retries :: "pystr \<Rightarrow> int option \<Rightarrow> pydict \<Rightarrow> py_exc + pydict" where
  "put_retries status retries d =
     bindE (guarded_int (dict_get d ''retry_count'' (JInt 0))) (\<lambda>p.
       let previous = max 0 p in
       Inr (case retries of
           Some n \<Rightarrow> AList.update ''retry_count'' (JInt (max 0 n)) d
         | None \<Rightarrow> if status = ''retry_pending'' then AList.update ''retry_count'' (JInt (min (previous + 1) 1000)) d
                   else put_default ''retry_count'' (JInt previous) d))"

definition record_fields ::
    "live_env \<Rightarrow> instant \<Rightarrow> subject \<Rightarrow> pystr \<Rightarrow> pystr \<Rightarrow> live_args \<Rightarrow> pydict \<Rightarrow> py_exc + pydict" where
  "record_fields le now sub status stage a old =
     (let i = JStr (subject_id sub);
          d = put_source sub (a_source a) (put_default ''post_id'' i (put_default ''update_id'' i old))
      in bindE (put_retries status (a_retries a) (put_details (lpe le) status a d)) (\<lambda>r.
           Inr (AList.update ''updated_at'' (JStr (isoformat now))
             (AList.update ''stage'' (JStr (safe_code ''unknown'' stage))
               (AList.update ''status'' (JStr (safe_code ''unknown'' status)) r)))))"

text \<open>
  The installed \<open>record_update_state\<close>: once an update has an event id and a translation job id,
  the arguments for them are replaced by the recorded ones.
\<close>

definition frozen_args :: "pyenv \<Rightarrow> pydict \<Rightarrow> live_args \<Rightarrow> live_args" where
  "frozen_args pe old a =
     (let e = or_text pe (dict_get old ''event_id'' (JStr []));
          j = or_text pe (dict_get old ''translation_job_id'' (JStr []))
      in a\<lparr>a_event := if e \<noteq> [] then JStr e else a_event a, a_job := if j \<noteq> [] then j else a_job a\<rparr>)"

definition record_update ::
    "live_env \<Rightarrow> instant \<Rightarrow> subject \<Rightarrow> pystr \<Rightarrow> pystr \<Rightarrow> live_args \<Rightarrow> lifecycle \<Rightarrow> py_exc + lifecycle" where
  "record_update le now sub status stage a s =
     (let old = live_of s (subject_id sub)
      in bindE (record_fields le now sub status stage (frozen_args (lpe le) old a) old) (\<lambda>d.
           Inr (s\<lparr>lives := AList.update (subject_id sub) d (lives s)\<rparr>)))"

definition get_update_state :: "lifecycle \<Rightarrow> pystr \<Rightarrow> pydict option" where
  "get_update_state s i = map_of (lives s) i"

text \<open>A text field of a record, as \<open>str(current.get(key, ""))\<close> reads it.\<close>

definition live_text :: "pyenv \<Rightarrow> pydict \<Rightarrow> pystr \<Rightarrow> pystr" where
  "live_text pe d k = py_str (float_text pe) (dict_get d k (JStr []))"

section \<open>Quarantine\<close>

fun type_name :: "json \<Rightarrow> pystr" where
  "type_name JNull = ''NoneType''"
| "type_name (JBool b) = ''bool''"
| "type_name (JInt i) = ''int''"
| "type_name (JFloat f) = ''float''"
| "type_name (JStr t) = ''str''"
| "type_name (JList xs) = ''list''"
| "type_name (JObj d) = ''dict''"
| "type_name JOpaque = ''object''"

definition quarantine_entry :: "instant \<Rightarrow> json \<Rightarrow> pystr \<Rightarrow> pystr \<Rightarrow> pystr \<Rightarrow> pydict" where
  "quarantine_entry now raw reason update_id source =
     [(''quarantined_at'', JStr (isoformat now)), (''reason'', JStr (safe_code ''unknown'' reason)),
      (''update_id'', JStr (take 120 update_id)), (''source'', JStr (take 80 (py_lstrip_at source))),
      (if is_obj raw then (''payload'', raw) else (''payload_type'', JStr (type_name raw)))]"

definition quarantine_pending ::
    "live_env \<Rightarrow> instant \<Rightarrow> json \<Rightarrow> pystr \<Rightarrow> pystr \<Rightarrow> pystr \<Rightarrow> lifecycle \<Rightarrow> (py_exc + unit) \<times> lifecycle" where
  "quarantine_pending le now raw reason update_id source s =
     (let entry = quarantine_entry now raw reason update_id source;
          s' = s\<lparr>quarantined := last_n quarantine_limit (quarantined s @ [entry])\<rparr>;
          i = (if update_id \<noteq> [] then update_id
               else stable_id le ''quarantine'' [JStr (dump_sorted le (JObj entry))])
      in case record_update le now (Named i) ''quarantined_with_reason'' ''queue''
             (no_args\<lparr>a_source := source, a_reason := reason\<rparr>) s' of
           Inl e \<Rightarrow> (Inl e, s')
         | Inr t \<Rightarrow> (Inr (), t))"

section \<open>The queue\<close>

text \<open>\<open>_remember_retrieval\<close>: the table drops its oldest half when it passes 10000 ids.\<close>

definition remember_retrieval :: "update list \<Rightarrow> pystr \<Rightarrow> pystr \<Rightarrow> lifecycle \<Rightarrow> lifecycle" where
  "remember_retrieval us attempt status s =
     (let t = fold (\<lambda>u. AList.update (upd_id u) (attempt, status)) us (retrievals s)
      in s\<lparr>retrievals := if 10000 < length t then drop 5000 t else t\<rparr>)"

definition retrieval_of :: "lifecycle \<Rightarrow> pystr \<Rightarrow> pystr \<times> pystr" where
  "retrieval_of s i = (case map_of (retrievals s) i of None \<Rightarrow> ([], []) | Some r \<Rightarrow> r)"

fun record_queued :: "live_env \<Rightarrow> instant \<Rightarrow> update list \<Rightarrow> lifecycle \<Rightarrow> (py_exc + unit) \<times> lifecycle" where
  "record_queued le now [] s = (Inr (), s)"
| "record_queued le now (u # us) s =
     (if is_seen (durable s) (upd_id u) then record_queued le now us s
      else case record_update le now (Whole u) ''pending_delivery'' ''queue''
          (no_args\<lparr>a_attempt := fst (retrieval_of s (upd_id u)), a_retrieval := snd (retrieval_of s (upd_id u))\<rparr>) s of
        Inl e \<Rightarrow> (Inl e, s)
      | Inr t \<Rightarrow> record_queued le now us t)"

definition live_queue :: "live_env \<Rightarrow> instant \<Rightarrow> bool \<Rightarrow> update list \<Rightarrow> lifecycle \<Rightarrow> (py_exc + unit) \<times> lifecycle" where
  "live_queue le now force us s =
     record_queued le now us (s\<lparr>durable := queue_updates (lpe le) force us (durable s)\<rparr>)"

text \<open>
  The hardened \<open>pop_pending\<close>. A row the constructor rejects with \<open>TypeError\<close> or
  \<open>ValueError\<close> goes to the quarantine before it leaves the queue. The loader leaves no row that
  is not an object, so the branch for such rows has no rows to work on.
\<close>

fun live_pop_loop :: "live_env \<Rightarrow> instant \<Rightarrow> nat \<Rightarrow> pydict list \<Rightarrow> lifecycle \<Rightarrow>
    (py_exc + (pydict list \<times> (update \<times> bool) list)) \<times> lifecycle" where
  "live_pop_loop le now room [] s = (Inr ([], []), s)"
| "live_pop_loop le now room (item # queue) s =
     (if skips (lpe le) (durable s) item then live_pop_loop le now room queue s
      else case decode_item (lpe le) now item of
        Inl e \<Rightarrow>
          if \<not> caught e then (Inl e, s)
          else (case quarantine_pending le now (JObj item) ''invalid_pending_payload''
                    (id_text (lpe le) item (JStr [])) (row_author (lpe le) item) s of
              (Inl x, t) \<Rightarrow> (Inl x, t)
            | (Inr _, t) \<Rightarrow> live_pop_loop le now room queue t)
      | Inr (u, f) \<Rightarrow>
          (case (if 0 < room
                 then record_update le now (Whole u) ''pending_delivery'' ''queue''
                   (no_args\<lparr>a_attempt := live_text (lpe le) (live_of s (upd_id u)) ''retrieval_attempt_id'',
                           a_retrieval := live_text (lpe le) (live_of s (upd_id u)) ''retrieval_status''\<rparr>) s
                 else Inr s) of
             Inl x \<Rightarrow> (Inl x, s)
           | Inr t \<Rightarrow>
               (case live_pop_loop le now (room - 1) queue t of
                  (Inl x, t') \<Rightarrow> (Inl x, t')
                | (Inr (remaining, result), t') \<Rightarrow>
                    (Inr (item # remaining, if 0 < room then (u, f) # result else result), t'))))"

definition live_pop :: "live_env \<Rightarrow> instant \<Rightarrow> int \<Rightarrow> lifecycle \<Rightarrow> (py_exc + (update \<times> bool) list) \<times> lifecycle" where
  "live_pop le now limit s =
     (case live_pop_loop le now (nat limit) (pending_delivery (durable s)) s of
        (Inl e, t) \<Rightarrow> (Inl e, t)
      | (Inr (remaining, result), t) \<Rightarrow>
          (Inr result, t\<lparr>durable := (durable t)\<lparr>pending_delivery := remaining\<rparr>\<rparr>))"

text \<open>The purge of rows of accounts that are not configured, each one quarantined first.\<close>

fun quarantine_foreign :: "live_env \<Rightarrow> instant \<Rightarrow> source_config list \<Rightarrow> pydict list \<Rightarrow> lifecycle \<Rightarrow>
    (py_exc + unit) \<times> lifecycle" where
  "quarantine_foreign le now cs [] s = (Inr (), s)"
| "quarantine_foreign le now cs (item # queue) s =
     (if is_configured cs (row_author (lpe le) item) then quarantine_foreign le now cs queue s
      else case quarantine_pending le now (JObj item) ''blocked_nonconfigured_source''
          (id_text (lpe le) item (JStr [])) (row_author (lpe le) item) s of
        (Inl e, t) \<Rightarrow> (Inl e, t)
      | (Inr _, t) \<Rightarrow> quarantine_foreign le now cs queue t)"

definition live_purge :: "live_env \<Rightarrow> instant \<Rightarrow> source_config list \<Rightarrow> lifecycle \<Rightarrow> (py_exc + unit) \<times> lifecycle" where
  "live_purge le now cs s =
     (case quarantine_foreign le now cs (pending_delivery (durable s)) s of
        (Inl e, t) \<Rightarrow> (Inl e, t)
      | (Inr _, t) \<Rightarrow> (Inr (), t\<lparr>durable := purge_external (lpe le) cs (durable t)\<rparr>))"


section \<open>Drafts, marks and pruning\<close>

definition draft_key :: "pyenv \<Rightarrow> json \<Rightarrow> pystr" where
  "draft_key pe i = ''draft:'' @ py_str (float_text pe) i"

definition live_draft :: "live_env \<Rightarrow> instant \<Rightarrow> draft \<Rightarrow> lifecycle \<Rightarrow> ((py_exc + unit) \<times> lifecycle) option" where
  "live_draft le now d s = map_option (\<lambda>st.
     let s' = s\<lparr>durable := st\<rparr>;
         out = outage_text le (or_text (lpe le) (caption d))
     in case record_update le now (Named (py_str (float_text (lpe le)) (dr_update_id d)))
          (if out then ''pending_translation'' else ''pending_delivery'')
          (if out then ''translation'' else ''telegram_delivery'')
          (no_args\<lparr>a_event := dr_event_key d,
             a_translation := (if out then ''provider_unavailable'' else ''success''),
             a_job := translation_job le (dr_update_id d),
             a_key := draft_key (lpe le) (dr_id d),
             a_reason := (if out then ''provider_unavailable'' else [])\<rparr>) s' of
        Inl e \<Rightarrow> (Inl e, s')
      | Inr t \<Rightarrow> (Inr (), t)) (save_draft d (durable s))"

text \<open>
  \<open>lifecycle_outcome_visibility_runtime\<close>: a draft that failed the fidelity check says so in the
  record, and so does a post some of whose media could not be sent.
\<close>

definition fidelity_args :: "pyenv \<Rightarrow> draft \<Rightarrow> pydict \<Rightarrow> live_args" where
  "fidelity_args pe d current =
     (let e = dict_get current ''event_id'' JNull; k = or_text pe (dict_get current ''delivery_key'' JNull)
      in no_args\<lparr>a_event := JStr (py_str (float_text pe) (if truthy e then e else dr_event_key d)),
        a_attempt := live_text pe current ''retrieval_attempt_id'', a_retrieval := live_text pe current ''retrieval_status'',
        a_media := live_text pe current ''media_status'', a_translation := ''fidelity_rejected'',
        a_job := live_text pe current ''translation_job_id'',
        a_key := or_default k (draft_key pe (dr_id d)), a_reason := ''manual_review_required''\<rparr>)"

definition live_save :: "live_env \<Rightarrow> instant \<Rightarrow> draft \<Rightarrow> lifecycle \<Rightarrow> ((py_exc + unit) \<times> lifecycle) option" where
  "live_save le now d s = map_option (\<lambda>(r, t).
     let i = py_str (float_text (lpe le)) (dr_update_id d)
     in if isl r \<or> mode d \<noteq> JStr ''manual_review'' then (r, t)
        else case record_update le now (Named i) ''pending_delivery'' ''telegram_delivery''
            (fidelity_args (lpe le) d (live_of t i)) t of
          Inl e \<Rightarrow> (Inl e, t)
        | Inr t' \<Rightarrow> (Inr (), t')) (live_draft le now d s)"

text \<open>The drafts of an update, oldest first by the text of \<open>created_at\<close>.\<close>

definition drafts_of :: "pyenv \<Rightarrow> state_data \<Rightarrow> pystr \<Rightarrow> pydict list" where
  "drafts_of pe st i =
     sort_key (\<lambda>d. py_str (float_text pe) (dict_get d ''created_at'' (JStr [])))
       (filter (\<lambda>d. py_str (float_text pe) (dict_get d ''update_id'' (JStr [])) = i)
         (List.map_filter (obj_fields \<circ> snd) (drafts st)))"

definition delivered_args :: "pyenv \<Rightarrow> pydict \<Rightarrow> pydict list \<Rightarrow> py_exc + live_args" where
  "delivered_args pe current ds =
     (let key = live_text pe current ''delivery_key'';
          event = live_text pe current ''event_id'';
          trans = live_text pe current ''translation_status'';
          a = no_args\<lparr>a_media := live_text pe current ''media_status'',
                a_translation := or_default trans ''success'',
                a_job := live_text pe current ''translation_job_id''\<rparr>
      in if ds = [] then Inr (a\<lparr>a_event := JStr event, a_key := key\<rparr>)
         else let d = List.last ds; i = dict_get d ''id'' JNull
              in bindE (guarded_int (dict_get d ''telegram_message_id'' (JInt 0))) (\<lambda>receipt.
                   Inr (a\<lparr>a_receipt := receipt,
                     a_key := (if key = [] \<and> truthy i then draft_key pe i else key),
                     a_event := JStr (or_default event (live_text pe d ''event_key''))\<rparr>)))"

definition media_lost :: "pyenv \<Rightarrow> pydict \<Rightarrow> bool" where
  "media_lost pe current \<longleftrightarrow> live_text pe current ''media_status'' \<in> {''terminal_failed'', ''partial_failed''}"

definition live_mark :: "live_env \<Rightarrow> instant \<Rightarrow> update \<Rightarrow> lifecycle \<Rightarrow> (py_exc + unit) \<times> lifecycle" where
  "live_mark le now u s =
     (let current = live_of s (upd_id u); lost = media_lost (lpe le) current
      in case delivered_args (lpe le) current (drafts_of (lpe le) (durable s) (upd_id u)) of
           Inl e \<Rightarrow> (Inl e, s)
         | Inr a \<Rightarrow>
             (let s' = s\<lparr>durable := mark_seen u now (durable s)\<rparr>
              in case record_update le now (Whole u) (if lost then ''delivered_text_media_failed'' else ''delivered'')
                   ''telegram_delivery'' (a\<lparr>a_reason := (if lost then ''media_unavailable'' else [])\<rparr>) s' of
                   Inl e \<Rightarrow> (Inl e, s')
                 | Inr t \<Rightarrow> (Inr (), t)))"

text \<open>Beyond the limit the newest records by the text of \<open>updated_at\<close> stay (a stable descending sort).\<close>

definition newest_lives :: "pyenv \<Rightarrow> (pystr \<times> pydict) list \<Rightarrow> (pystr \<times> pydict) list" where
  "newest_lives pe t = take lifecycle_limit
     (rev (sort_key (\<lambda>(k, d). live_text pe d ''updated_at'') (rev t)))"

definition live_prune :: "live_env \<Rightarrow> instant \<Rightarrow> lifecycle \<Rightarrow> lifecycle" where
  "live_prune le now s = s\<lparr>durable := prune (lpe le) now (durable s),
     lives := (if lifecycle_limit < length (lives s) then newest_lives (lpe le) (lives s) else lives s),
     quarantined := last_n quarantine_limit (quarantined s)\<rparr>"

section \<open>Delivery\<close>

text \<open>
  The wrapped \<open>_deliver_private_media\<close> and \<open>deliver_updates\<close>. The originals are arguments: what
  they do to the state and whether they raise (the name of the exception class). The exception of
  the original is raised again unless recording it raises first.
\<close>

datatype media_end = MediaRaised pystr | MediaRefused | MediaSent

definition asset_ids :: "live_env \<Rightarrow> update \<Rightarrow> pystr" where
  "asset_ids le u = join_with (CHR '','') (map (media_asset_id le) (take 20 (media u)))"

fun media_record :: "media_end \<Rightarrow> pystr \<Rightarrow> pystr \<times> pystr \<times> live_args" where
  "media_record (MediaRaised x) ids = (''retry_pending'', ''media'',
     no_args\<lparr>a_media := ''retry_pending'', a_assets := ids, a_error := x, a_reason := ''media_delivery_exception''\<rparr>)"
| "media_record MediaRefused ids = (''pending_delivery'', ''telegram_delivery'',
     no_args\<lparr>a_media := ''terminal_failed'', a_assets := ids, a_reason := ''media_unavailable''\<rparr>)"
| "media_record MediaSent ids = (''pending_delivery'', ''telegram_delivery'',
     no_args\<lparr>a_media := ''delivered'', a_assets := ids\<rparr>)"

definition live_media ::
    "live_env \<Rightarrow> instant \<Rightarrow> (lifecycle \<Rightarrow> media_end \<times> lifecycle) \<Rightarrow> update \<Rightarrow> lifecycle \<Rightarrow> (py_exc + media_end) \<times> lifecycle" where
  "live_media le now original u s =
     (case record_update le now (Whole u) ''pending_media'' ''media''
          (no_args\<lparr>a_media := ''pending'', a_assets := asset_ids le u\<rparr>) s of
        Inl e \<Rightarrow> (Inl e, s)
      | Inr s1 \<Rightarrow>
          (let (r, s2) = original s1; (status, stage, a) = media_record r (asset_ids le u)
           in case record_update le now (Whole u) status stage a s2 of
                Inl e \<Rightarrow> (Inl e, s2)
              | Inr t \<Rightarrow> (Inr r, t)))"

definition live_media_report ::
    "live_env \<Rightarrow> instant \<Rightarrow> nat \<Rightarrow> update \<Rightarrow> (py_exc + media_end) \<times> lifecycle \<Rightarrow> (py_exc + media_end) \<times> lifecycle" where
  "live_media_report le now failures u p = (let (r, s) = p in
     if r \<noteq> Inr MediaSent \<or> failures = 0 then (r, s)
     else case record_update le now (Whole u) ''pending_delivery'' ''telegram_delivery''
         (no_args\<lparr>a_media := ''partial_failed'', a_assets := live_text (lpe le) (live_of s (upd_id u)) ''media_asset_ids'',
           a_reason := ''media_partial_failure''\<rparr>) s of
       Inl e \<Rightarrow> (Inl e, s)
     | Inr t \<Rightarrow> (r, t))"

definition event_ids :: "event_group list \<Rightarrow> (pystr \<times> pystr) list" where
  "event_ids gs = fold (\<lambda>g. fold (\<lambda>u. AList.update (upd_id u) (group_key g)) (updates g)) gs []"

definition event_of :: "(pystr \<times> pystr) list \<Rightarrow> pystr \<Rightarrow> pystr" where
  "event_of es i = (case map_of es i of None \<Rightarrow> [] | Some k \<Rightarrow> k)"

definition requested_args :: "live_env \<Rightarrow> (pystr \<times> pystr) list \<Rightarrow> update \<Rightarrow> lifecycle \<Rightarrow> live_args" where
  "requested_args le es u s = no_args\<lparr>
     a_event := (case map_of es (upd_id u) of
         Some k \<Rightarrow> JStr k
       | None \<Rightarrow> if truthy (event_key u) then event_key u else JStr (''single:'' @ upd_id u)),
     a_attempt := fst (retrieval_of s (upd_id u)), a_retrieval := snd (retrieval_of s (upd_id u)),
     a_translation := ''requested'', a_job := translation_job le (JStr (upd_id u))\<rparr>"

fun record_requests :: "live_env \<Rightarrow> instant \<Rightarrow> (pystr \<times> pystr) list \<Rightarrow> update list \<Rightarrow> lifecycle \<Rightarrow>
    (py_exc + unit) \<times> lifecycle" where
  "record_requests le now es [] s = (Inr (), s)"
| "record_requests le now es (u # us) s =
     (case record_update le now (Whole u) ''pending_translation'' ''translation'' (requested_args le es u s) s of
        Inl e \<Rightarrow> (Inl e, s)
      | Inr t \<Rightarrow> record_requests le now es us t)"

definition failure_args :: "live_env \<Rightarrow> (pystr \<times> pystr) list \<Rightarrow> pystr \<Rightarrow> pydict \<Rightarrow> pystr \<Rightarrow> live_args" where
  "failure_args le es i current exc = (let pe = lpe le in no_args\<lparr>
     a_event := JStr (or_default (or_text pe (dict_get current ''event_id'' JNull)) (event_of es i)),
     a_media := live_text pe current ''media_status'',
     a_translation := live_text pe current ''translation_status'',
     a_job := live_text pe current ''translation_job_id'', a_key := live_text pe current ''delivery_key'',
     a_error := exc, a_reason := ''stage_exception''\<rparr>)"

definition record_failed :: "live_env \<Rightarrow> instant \<Rightarrow> (pystr \<times> pystr) list \<Rightarrow> update list \<Rightarrow> pystr \<Rightarrow> lifecycle \<Rightarrow>
    py_exc + lifecycle" where
  "record_failed le now es safe exc s =
     (case List.find (\<lambda>u. \<not> is_seen (durable s) (upd_id u)) safe of
        None \<Rightarrow> Inr s
      | Some u \<Rightarrow>
          (let current = live_of s (upd_id u)
           in if dict_get current ''status'' JNull = JStr ''retry_pending'' then Inr s
              else record_update le now (Whole u) ''retry_pending''
                (or_default (or_text (lpe le) (dict_get current ''stage'' JNull)) ''translation'')
                (failure_args le es (upd_id u) current exc) s))"

definition waits_for_translation :: "pydict \<Rightarrow> bool" where
  "waits_for_translation current \<longleftrightarrow>
     dict_get current ''stage'' JNull = JStr ''translation'' \<or> dict_get current ''status'' JNull = JStr ''pending_translation''"

definition deferred_args :: "live_env \<Rightarrow> (pystr \<times> pystr) list \<Rightarrow> pystr \<Rightarrow> pydict \<Rightarrow> pystr \<Rightarrow> live_args" where
  "deferred_args le es i current reason = (let pe = lpe le in no_args\<lparr>
     a_event := JStr (or_default (or_text pe (dict_get current ''event_id'' JNull)) (event_of es i)),
     a_attempt := live_text pe current ''retrieval_attempt_id'',
     a_retrieval := live_text pe current ''retrieval_status'', a_translation := reason,
     a_job := live_text pe current ''translation_job_id'', a_reason := reason\<rparr>)"

fun record_deferred :: "live_env \<Rightarrow> instant \<Rightarrow> (pystr \<times> pystr) list \<Rightarrow> pystr \<Rightarrow> update list \<Rightarrow> lifecycle \<Rightarrow>
    (py_exc + unit) \<times> lifecycle" where
  "record_deferred le now es reason [] s = (Inr (), s)"
| "record_deferred le now es reason (u # us) s =
     (let current = live_of s (upd_id u)
      in if is_seen (durable s) (upd_id u) \<or> \<not> waits_for_translation current
         then record_deferred le now es reason us s
         else case record_update le now (Whole u) ''pending_translation'' ''translation''
             (deferred_args le es (upd_id u) current reason) s of
           Inl e \<Rightarrow> (Inl e, s)
         | Inr t \<Rightarrow> record_deferred le now es reason us t)"

text \<open>
  \<open>None\<close> where the filter or the grouping meets a post their models do not cover. The reason
  of a deferral is \<open>quota_429\<close> when the original left the writer's circuit open for the quota.
\<close>

definition deferral_reason :: "bool \<Rightarrow> pystr" where
  "deferral_reason quota = (if quota then ''quota_429'' else ''provider_unavailable'')"

definition live_deliver ::
    "live_env \<Rightarrow> (pystr \<Rightarrow> pystr) \<Rightarrow> (pystr \<Rightarrow> pystr) \<Rightarrow> source_config list \<Rightarrow>
      (update list \<Rightarrow> lifecycle \<Rightarrow> pystr option \<times> bool \<times> lifecycle) \<Rightarrow> instant \<Rightarrow> update list \<Rightarrow> lifecycle \<Rightarrow>
      ((py_exc + pystr option) \<times> lifecycle) option" where
  "live_deliver le sha1 label cs original now us s =
     (case configured_only cs us of None \<Rightarrow> None | Some safe \<Rightarrow>
        if safe = [] then (let (r, quota, t) = original safe s in Some (Inr r, t))
        else case organize_updates sha1 label safe of None \<Rightarrow> None | Some gs \<Rightarrow>
          let es = event_ids gs in
          case record_requests le now es safe s of
            (Inl e, s1) \<Rightarrow> Some (Inl e, s1)
          | (Inr _, s1) \<Rightarrow>
              (case original safe s1 of
                 (Some exc, quota, s2) \<Rightarrow>
                   (case record_failed le now es safe exc s2 of
                      Inl e \<Rightarrow> Some (Inl e, s2)
                    | Inr t \<Rightarrow> Some (Inr (Some exc), t))
               | (None, quota, s2) \<Rightarrow>
                   (case record_deferred le now es (deferral_reason quota) safe s2 of
                      (Inl e, t) \<Rightarrow> Some (Inl e, t)
                    | (Inr _, t) \<Rightarrow> Some (Inr None, t))))"


section \<open>Well-formed records\<close>

text \<open>The type and the longest text of every field the module writes.\<close>

definition text_bounds :: "(pystr \<times> nat) list" where
  "text_bounds = [(''event_id'', 160), (''retrieval_attempt_id'', 80), (''retrieval_status'', 120),
     (''media_status'', 120), (''media_asset_ids'', 600), (''translation_status'', 120),
     (''translation_job_id'', 120), (''delivery_key'', 180), (''error_class'', 120), (''reason'', 120),
     (''status'', 120), (''stage'', 120)]"

fun fits :: "pystr \<Rightarrow> json \<Rightarrow> bool" where
  "fits k (JStr t) = (case map_of text_bounds k of
       Some n \<Rightarrow> length t \<le> n | None \<Rightarrow> k \<in> set [''update_id'', ''post_id'', ''source'', ''updated_at''])"
| "fits k (JInt i) = ((k = ''retry_count'' \<and> 0 \<le> i \<and> i \<le> 1000) \<or> (k = ''delivery_receipt_id'' \<and> 0 \<le> i))"
| "fits k _ = False"

definition wf_record :: "pydict \<Rightarrow> bool" where
  "wf_record d \<longleftrightarrow> distinct (map fst d) \<and> list_all (\<lambda>(k, v). fits k v) d"

definition wf_lifecycle :: "lifecycle \<Rightarrow> bool" where
  "wf_lifecycle s \<longleftrightarrow> wf_state (durable s) \<and> distinct (map fst (lives s)) \<and>
     list_all (\<lambda>(i, d). wf_record d) (lives s) \<and> length (quarantined s) \<le> quarantine_limit"

lemma list_all_AList_update: "list_all P al \<Longrightarrow> P (k, v) \<Longrightarrow> list_all P (AList.update k v al)"
  by (auto simp: list_all_iff dest!: set_AList_update)

lemma wf_record_update: "wf_record d \<Longrightarrow> fits k v \<Longrightarrow> wf_record (AList.update k v d)"
  by (auto simp: wf_record_def distinct_update intro: list_all_AList_update)

lemma wf_put [intro]:
  "wf_record d \<Longrightarrow> (b \<Longrightarrow> fits k v) \<Longrightarrow> wf_record (put_if b k v d)"
  "wf_record d \<Longrightarrow> fits k v \<Longrightarrow> wf_record (put_default k v d)"
  by (auto simp: put_if_def put_default_def wf_record_update)

lemma safe_code_length: "length dflt \<le> 120 \<Longrightarrow> length (safe_code dflt t) \<le> 120"
  by (auto simp: safe_code_def or_default_def)

lemma fits_keys [simp]:
  "fits ''event_id'' (JStr t) \<longleftrightarrow> length t \<le> 160"
  "fits ''retrieval_attempt_id'' (JStr t) \<longleftrightarrow> length t \<le> 80"
  "fits ''retrieval_status'' (JStr t) \<longleftrightarrow> length t \<le> 120"
  "fits ''media_status'' (JStr t) \<longleftrightarrow> length t \<le> 120"
  "fits ''media_asset_ids'' (JStr t) \<longleftrightarrow> length t \<le> 600"
  "fits ''translation_status'' (JStr t) \<longleftrightarrow> length t \<le> 120"
  "fits ''translation_job_id'' (JStr t) \<longleftrightarrow> length t \<le> 120"
  "fits ''delivery_key'' (JStr t) \<longleftrightarrow> length t \<le> 180"
  "fits ''error_class'' (JStr t) \<longleftrightarrow> length t \<le> 120"
  "fits ''reason'' (JStr t) \<longleftrightarrow> length t \<le> 120"
  "fits ''status'' (JStr t) \<longleftrightarrow> length t \<le> 120"
  "fits ''stage'' (JStr t) \<longleftrightarrow> length t \<le> 120"
  "fits ''update_id'' (JStr t)"
  "fits ''post_id'' (JStr t)"
  "fits ''source'' (JStr t)"
  "fits ''updated_at'' (JStr t)"
  "fits ''retry_count'' v \<longleftrightarrow> (\<exists>i. v = JInt i \<and> 0 \<le> i \<and> i \<le> 1000)"
  by (simp_all add: text_bounds_def) (cases v; simp add: text_bounds_def)

declare fits.simps(1) [simp del]

lemma wf_puts: "wf_record d \<Longrightarrow> list_all (\<lambda>(b, k, v). b \<longrightarrow> fits k v) ps \<Longrightarrow> wf_record (fold (\<lambda>(b, k, v). put_if b k v) ps d)"
proof (induction ps arbitrary: d)
  case (Cons p ps)
  obtain b k v where p: "p = (b, k, v)" by (cases p)
  have "wf_record (put_if b k v d)" using Cons.prems p by auto
  from Cons.IH [OF this] Cons.prems p show ?case by simp
qed simp

lemma wf_put_details: "wf_record d \<Longrightarrow> wf_record (put_details pe st a d)"
  unfolding put_details_def by (rule wf_puts) (simp_all add: safe_code_length)

lemma wf_put_source: "wf_record d \<Longrightarrow> wf_record (put_source sub src d)"
  by (cases sub) (auto intro!: wf_record_update)

lemma wf_retry_count:
  assumes "wf_record d"
  obtains p where "guarded_int (dict_get d ''retry_count'' (JInt 0)) = Inr p" "0 \<le> p" "p \<le> 1000"
proof (cases "map_of d ''retry_count''")
  case None
  with that show ?thesis by (simp add: dict_get_def)
next
  case (Some v)
  with assms have "fits ''retry_count'' v"
    by (auto simp: wf_record_def list_all_iff simp del: fits_keys dest!: map_of_SomeD)
  with Some that show ?thesis by (auto simp: dict_get_def)
qed

lemma wf_put_retries:
  assumes "wf_record d"
  obtains d' where "put_retries st None d = Inr d'" "wf_record d'"
proof -
  obtain p where p: "guarded_int (dict_get d ''retry_count'' (JInt 0)) = Inr p" "0 \<le> p" "p \<le> 1000"
    using assms by (rule wf_retry_count)
  let ?d = "if st = ''retry_pending'' then AList.update ''retry_count'' (JInt (min (max 0 p + 1) 1000)) d
    else put_default ''retry_count'' (JInt (max 0 p)) d"
  have "wf_record ?d" using assms p(2,3) by (auto intro: wf_record_update)
  moreover have "put_retries st None d = Inr ?d" by (simp add: put_retries_def p(1) Let_def)
  ultimately show ?thesis using that by blast
qed

text \<open>On a well-formed record recording never raises.\<close>

lemma record_fields_wf:
  assumes "wf_record old" "a_retries a = None"
  obtains d where "record_fields le now sub st sg a old = Inr d" "wf_record d"
proof -
  let ?i = "JStr (subject_id sub)"
  let ?d = "put_source sub (a_source a) (put_default ''post_id'' ?i (put_default ''update_id'' ?i old))"
  let ?e = "put_details (lpe le) st a ?d"
  have "wf_record ?e" by (intro wf_put_details wf_put_source wf_put assms(1)) simp_all
  then obtain r where r: "put_retries st None ?e = Inr r" "wf_record r" by (rule wf_put_retries)
  let ?r = "AList.update ''updated_at'' (JStr (isoformat now))
    (AList.update ''stage'' (JStr (safe_code ''unknown'' sg)) (AList.update ''status'' (JStr (safe_code ''unknown'' st)) r))"
  have "record_fields le now sub st sg a old = Inr ?r"
    unfolding record_fields_def Let_def assms(2) r(1) by simp
  moreover have "wf_record ?r" by (intro wf_record_update r(2)) (simp_all add: safe_code_length)
  ultimately show ?thesis by (rule that)
qed

lemma frozen_retries [simp]: "a_retries (frozen_args pe old a) = a_retries a"
  by (simp add: frozen_args_def Let_def)

lemma live_of_wf: "wf_lifecycle s \<Longrightarrow> wf_record (live_of s i)"
  by (auto simp: live_of_def wf_lifecycle_def wf_record_def list_all_iff dest!: map_of_SomeD split: option.split)

text \<open>What a recording does: one record changes, to a well-formed one.\<close>

lemma record_update_total:
  assumes "wf_lifecycle s" "a_retries a = None"
  obtains d where "record_update le now sub st sg a s = Inr (s\<lparr>lives := AList.update (subject_id sub) d (lives s)\<rparr>)"
    "wf_record d" "record_fields le now sub st sg (frozen_args (lpe le) (live_of s (subject_id sub)) a) (live_of s (subject_id sub)) = Inr d"
proof -
  let ?a = "frozen_args (lpe le) (live_of s (subject_id sub)) a"
  have "a_retries ?a = None" using assms(2) by simp
  from live_of_wf [OF assms(1)] this obtain d where
      "record_fields le now sub st sg ?a (live_of s (subject_id sub)) = Inr d" "wf_record d"
    by (rule record_fields_wf)
  with that show ?thesis by (simp add: record_update_def Let_def)
qed

lemma wf_lives_update:
  "wf_lifecycle s \<Longrightarrow> wf_record d \<Longrightarrow> wf_lifecycle (s\<lparr>lives := AList.update i d (lives s)\<rparr>)"
  by (auto simp: wf_lifecycle_def distinct_update intro: list_all_AList_update)

lemma record_update_wf:
  assumes "wf_lifecycle s" "a_retries a = None" "record_update le now sub st sg a s = Inr t"
  shows "wf_lifecycle t"
  using record_update_total [OF assms(1,2), of le now sub st sg] assms(1,3) wf_lives_update by (metis Inr_inject)

lemma record_update_frame:
  assumes "record_update le now sub st sg a s = Inr t"
  shows "durable t = durable s" "quarantined t = quarantined s" "retrievals t = retrievals s"
    "j \<noteq> subject_id sub \<Longrightarrow> map_of (lives t) j = map_of (lives s) j"
    "subject_id sub \<in> fst ` set (lives t)" "fst ` set (lives s) \<subseteq> fst ` set (lives t)"
proof -
  from assms obtain d where t: "t = s\<lparr>lives := AList.update (subject_id sub) d (lives s)\<rparr>"
    by (auto simp: record_update_def Let_def bindE_Inr)
  then show "durable t = durable s" "quarantined t = quarantined s" "retrievals t = retrievals s"
    "j \<noteq> subject_id sub \<Longrightarrow> map_of (lives t) j = map_of (lives s) j" by (simp_all add: update_conv')
  show "subject_id sub \<in> fst ` set (lives t)" "fst ` set (lives s) \<subseteq> fst ` set (lives t)"
    using keys_AList_update [of "subject_id sub" d "lives s"] by (auto simp: t)
qed


section \<open>The queue loses no row silently\<close>

lemma last_n_append: "last_n n (last_n n xs @ ys) = last_n n (xs @ ys)"
  by (cases "length xs \<le> n") (auto simp: last_n_def drop_append add.commute)

lemma last_n_superset: "length ys \<le> n \<Longrightarrow> set ys \<subseteq> set (last_n n (xs @ ys))"
  by (auto simp: last_n_def)

lemma wf_quarantined: "wf_lifecycle s \<Longrightarrow> wf_lifecycle (s\<lparr>quarantined := last_n quarantine_limit qs\<rparr>)"
  by (simp add: wf_lifecycle_def)

lemma quarantine_total:
  assumes "wf_lifecycle s"
  obtains t where "quarantine_pending le now raw reason i src s = (Inr (), t)" "wf_lifecycle t" "durable t = durable s"
    "quarantined t = last_n quarantine_limit (quarantined s @ [quarantine_entry now raw reason i src])"
proof -
  let ?s = "s\<lparr>quarantined := last_n quarantine_limit (quarantined s @ [quarantine_entry now raw reason i src])\<rparr>"
  let ?i = "if i \<noteq> [] then i
    else stable_id le ''quarantine'' [JStr (dump_sorted le (JObj (quarantine_entry now raw reason i src)))]"
  let ?a = "no_args\<lparr>a_source := src, a_reason := reason\<rparr>"
  have a: "a_retries ?a = None" by (simp add: no_args_def)
  from wf_quarantined [OF assms] have wf: "wf_lifecycle ?s" .
  obtain d where r: "record_update le now (Named ?i) ''quarantined_with_reason'' ''queue'' ?a ?s =
      Inr (?s\<lparr>lives := AList.update (subject_id (Named ?i)) d (lives ?s)\<rparr>)"
    using record_update_total [OF wf a] by metis
  from that [OF _ record_update_wf [OF wf a r]] show ?thesis
    by (simp add: quarantine_pending_def Let_def r [simplified])
qed

text \<open>The rows a scan rejects, those that stop it, and what it files for a rejected row.\<close>

definition rejected :: "pyenv \<Rightarrow> instant \<Rightarrow> state_data \<Rightarrow> pydict \<Rightarrow> bool" where
  "rejected pe now st item \<longleftrightarrow> \<not> skips pe st item \<and>
     (case decode_item pe now item of Inl e \<Rightarrow> caught e | Inr _ \<Rightarrow> False)"

definition poisonous :: "pyenv \<Rightarrow> instant \<Rightarrow> state_data \<Rightarrow> pydict \<Rightarrow> bool" where
  "poisonous pe now st item \<longleftrightarrow> \<not> skips pe st item \<and>
     (case decode_item pe now item of Inl e \<Rightarrow> \<not> caught e | Inr _ \<Rightarrow> False)"

definition filed :: "pyenv \<Rightarrow> instant \<Rightarrow> pystr \<Rightarrow> pydict \<Rightarrow> pydict" where
  "filed pe now reason item =
     quarantine_entry now (JObj item) reason (id_text pe item (JStr [])) (row_author pe item)"

lemma filed_payload: "map_of (filed pe now reason item) ''payload'' = Some (JObj item)"
  by (simp add: filed_def quarantine_entry_def)

text \<open>The hardened scan returns what the original returns and files the rejected rows it passes.\<close>

lemma live_pop_loop_spec:
  assumes "wf_lifecycle s"
  shows "\<exists>t. live_pop_loop le now room queue s = (pop_loop (lpe le) now (durable s) room queue, t) \<and>
    wf_lifecycle t \<and> durable t = durable s \<and>
    quarantined t = last_n quarantine_limit (quarantined s @ map (filed (lpe le) now ''invalid_pending_payload'')
      (filter (rejected (lpe le) now (durable s)) (takeWhile (\<lambda>i. \<not> poisonous (lpe le) now (durable s) i) queue)))"
  using assms
proof (induction queue arbitrary: room s)
  case Nil
  then show ?case by (simp add: wf_lifecycle_def)
next
  case (Cons item queue)
  let ?st = "durable s"
  show ?case
  proof (cases "skips (lpe le) ?st item")
    case True
    with Cons show ?thesis by (simp add: rejected_def poisonous_def)
  next
    case unskipped: False
    show ?thesis
    proof (cases "decode_item (lpe le) now item")
      case (Inl e)
      show ?thesis
      proof (cases "caught e")
        case False
        with unskipped Inl Cons.prems show ?thesis by (simp add: poisonous_def wf_lifecycle_def)
      next
        case True
        obtain t where t: "quarantine_pending le now (JObj item) ''invalid_pending_payload''
              (id_text (lpe le) item (JStr [])) (row_author (lpe le) item) s = (Inr (), t)" "wf_lifecycle t"
            "durable t = ?st"
            "quarantined t = last_n quarantine_limit (quarantined s @ [filed (lpe le) now ''invalid_pending_payload'' item])"
          using quarantine_total [OF Cons.prems] unfolding filed_def by metis
        have "rejected (lpe le) now ?st item" "\<not> poisonous (lpe le) now ?st item"
          using unskipped Inl True by (simp_all add: rejected_def poisonous_def)
        with Cons.IH [OF t(2), of room] unskipped Inl True t(1,3,4) show ?thesis
          by (simp add: last_n_append)
      qed
    next
      case (Inr uf)
      obtain u f where uf: "uf = (u, f)" by (cases uf)
      have plain: "\<not> rejected (lpe le) now ?st item" "\<not> poisonous (lpe le) now ?st item"
        using Inr by (simp_all add: rejected_def poisonous_def)
      let ?a = "no_args\<lparr>a_attempt := live_text (lpe le) (live_of s (upd_id u)) ''retrieval_attempt_id'',
        a_retrieval := live_text (lpe le) (live_of s (upd_id u)) ''retrieval_status''\<rparr>"
      let ?m = "if 0 < room then record_update le now (Whole u) ''pending_delivery'' ''queue'' ?a s else Inr s"
      obtain t where t: "?m = Inr t" "wf_lifecycle t" "durable t = ?st" "quarantined t = quarantined s"
      proof (cases "0 < room")
        case True
        have a: "a_retries ?a = None" by (simp add: no_args_def)
        from record_update_total [OF Cons.prems a] obtain t where
          r: "record_update le now (Whole u) ''pending_delivery'' ''queue'' ?a s = Inr t" by metis
        from that [of t] record_update_wf [OF Cons.prems a r] record_update_frame(1,2) [OF r] r True
        show ?thesis by simp
      qed (use that Cons.prems in simp)
      from Cons.IH [OF t(2), of "room - 1"] obtain t' where
        "live_pop_loop le now (room - 1) queue t = (pop_loop (lpe le) now ?st (room - 1) queue, t')"
        "wf_lifecycle t'" "durable t' = ?st"
        "quarantined t' = last_n quarantine_limit (quarantined s @ map (filed (lpe le) now ''invalid_pending_payload'')
          (filter (rejected (lpe le) now ?st) (takeWhile (\<lambda>i. \<not> poisonous (lpe le) now ?st i) queue)))"
        unfolding t(3,4) by blast
      with unskipped Inr uf t(1) plain show ?thesis
        by (cases "pop_loop (lpe le) now ?st (room - 1) queue") auto
    qed
  qed
qed

lemma pop_loop_unpoisoned:
  "pop_loop pe now st room queue = Inr r \<Longrightarrow> takeWhile (\<lambda>i. \<not> poisonous pe now st i) queue = queue"
proof (rule takeWhile_eq_all_conv [THEN iffD2], rule ballI, rule notI)
  fix item assume a: "pop_loop pe now st room queue = Inr r" "item \<in> set queue" "poisonous pe now st item"
  then obtain e where "\<not> skips pe st item" "decode_item pe now item = Inl e" "\<not> caught e"
    by (auto simp: poisonous_def split: sum.splits)
  from pop_loop_blocked [OF a(2) this, of room] a(1) show False by auto
qed

lemma live_pop_spec:
  assumes "wf_lifecycle s"
  obtains t where "live_pop le now limit s = (map_sum id fst (pop_pending (lpe le) now limit (durable s)), t)"
    "wf_lifecycle t"
    "durable t = (case pop_pending (lpe le) now limit (durable s) of Inl _ \<Rightarrow> durable s | Inr (_, st) \<Rightarrow> st)"
    "quarantined t = last_n quarantine_limit (quarantined s @ map (filed (lpe le) now ''invalid_pending_payload'')
      (filter (rejected (lpe le) now (durable s))
        (takeWhile (\<lambda>i. \<not> poisonous (lpe le) now (durable s) i) (pending_delivery (durable s)))))"
proof -
  let ?st = "durable s"
  obtain t where t: "live_pop_loop le now (nat limit) (pending_delivery ?st) s =
      (pop_loop (lpe le) now ?st (nat limit) (pending_delivery ?st), t)" "wf_lifecycle t" "durable t = ?st"
    "quarantined t = last_n quarantine_limit (quarantined s @ map (filed (lpe le) now ''invalid_pending_payload'')
      (filter (rejected (lpe le) now ?st) (takeWhile (\<lambda>i. \<not> poisonous (lpe le) now ?st i) (pending_delivery ?st))))"
    using live_pop_loop_spec [OF assms] by blast
  show ?thesis
  proof (cases "pop_loop (lpe le) now ?st (nat limit) (pending_delivery ?st)")
    case (Inl e)
    with t that [of t] show ?thesis by (simp add: live_pop_def pop_pending_def)
  next
    case (Inr r)
    obtain rem res where r: "r = (rem, res)" by (cases r)
    have "wf_state (?st\<lparr>pending_delivery := rem\<rparr>)"
      using assms by (simp add: wf_lifecycle_def wf_state_def)
    with t Inr r that [of "t\<lparr>durable := ?st\<lparr>pending_delivery := rem\<rparr>\<rparr>"] show ?thesis
      by (simp add: live_pop_def pop_pending_def wf_lifecycle_def)
  qed
qed


lemma quarantine_foreign_spec:
  assumes "wf_lifecycle s"
  shows "\<exists>t. quarantine_foreign le now cs queue s = (Inr (), t) \<and> wf_lifecycle t \<and> durable t = durable s \<and>
    quarantined t = last_n quarantine_limit (quarantined s @ map (filed (lpe le) now ''blocked_nonconfigured_source'')
      (filter (\<lambda>item. \<not> is_configured cs (row_author (lpe le) item)) queue))"
  using assms
proof (induction queue arbitrary: s)
  case Nil
  then show ?case by (simp add: wf_lifecycle_def)
next
  case (Cons item queue)
  show ?case
  proof (cases "is_configured cs (row_author (lpe le) item)")
    case True
    with Cons show ?thesis by simp
  next
    case False
    obtain t where t: "quarantine_pending le now (JObj item) ''blocked_nonconfigured_source''
          (id_text (lpe le) item (JStr [])) (row_author (lpe le) item) s = (Inr (), t)" "wf_lifecycle t"
        "durable t = durable s"
        "quarantined t = last_n quarantine_limit (quarantined s @ [filed (lpe le) now ''blocked_nonconfigured_source'' item])"
      using quarantine_total [OF Cons.prems] unfolding filed_def by metis
    with Cons.IH [OF t(2)] False show ?thesis by (simp add: last_n_append)
  qed
qed

lemma live_purge_spec:
  assumes "wf_lifecycle s"
  obtains t where "live_purge le now cs s = (Inr (), t)" "wf_lifecycle t" "durable t = purge_external (lpe le) cs (durable s)"
    "quarantined t = last_n quarantine_limit (quarantined s @ map (filed (lpe le) now ''blocked_nonconfigured_source'')
      (filter (\<lambda>item. \<not> is_configured cs (row_author (lpe le) item)) (pending_delivery (durable s))))"
proof -
  obtain t where t: "quarantine_foreign le now cs (pending_delivery (durable s)) s = (Inr (), t)" "wf_lifecycle t"
    "durable t = durable s"
    "quarantined t = last_n quarantine_limit (quarantined s @ map (filed (lpe le) now ''blocked_nonconfigured_source'')
      (filter (\<lambda>item. \<not> is_configured cs (row_author (lpe le) item)) (pending_delivery (durable s))))"
    using quarantine_foreign_spec [OF assms] by blast
  moreover have "wf_state (purge_external (lpe le) cs (durable s))"
    using assms by (simp add: wf_lifecycle_def wf_state_def purge_external_def)
  ultimately show ?thesis
    using that [of "t\<lparr>durable := purge_external (lpe le) cs (durable t)\<rparr>"]
    by (simp add: live_purge_def wf_lifecycle_def)
qed

section \<open>What a recording writes\<close>

lemma dict_get_update: "dict_get (AList.update k v d) j dflt = (if j = k then v else dict_get d j dflt)"
  by (simp add: dict_get_def update_conv')

lemma dict_get_put_if: "dict_get (put_if b k v d) j dflt = (if b \<and> j = k then v else dict_get d j dflt)"
  by (simp add: put_if_def dict_get_update)

lemma put_retries_frame: "put_retries st n d = Inr d' \<Longrightarrow> j \<noteq> ''retry_count'' \<Longrightarrow> dict_get d' j dflt = dict_get d j dflt"
  by (auto simp: put_retries_def bindE_Inr Let_def put_default_def dict_get_update split: option.splits if_splits)

lemma record_update_writes:
  assumes "record_update le now sub st sg a s = Inr t"
  shows "dict_get (live_of t (subject_id sub)) ''status'' JNull = JStr (safe_code ''unknown'' st)"
    "dict_get (live_of t (subject_id sub)) ''stage'' JNull = JStr (safe_code ''unknown'' sg)"
    "a_reason a \<noteq> [] \<Longrightarrow> dict_get (live_of t (subject_id sub)) ''reason'' JNull = JStr (safe_code ''unknown'' (a_reason a))"
proof -
  let ?old = "live_of s (subject_id sub)"
  let ?a = "frozen_args (lpe le) ?old a"
  let ?i = "JStr (subject_id sub)"
  let ?d = "put_source sub (a_source ?a) (put_default ''post_id'' ?i (put_default ''update_id'' ?i ?old))"
  from assms obtain r where r: "put_retries st (a_retries ?a) (put_details (lpe le) st ?a ?d) = Inr r"
    and t: "live_of t (subject_id sub) = AList.update ''updated_at'' (JStr (isoformat now))
      (AList.update ''stage'' (JStr (safe_code ''unknown'' sg)) (AList.update ''status'' (JStr (safe_code ''unknown'' st)) r))"
    by (auto simp: record_update_def record_fields_def Let_def bindE_Inr live_of_def update_conv')
  then show "dict_get (live_of t (subject_id sub)) ''status'' JNull = JStr (safe_code ''unknown'' st)"
    "dict_get (live_of t (subject_id sub)) ''stage'' JNull = JStr (safe_code ''unknown'' sg)"
    by (simp_all add: dict_get_update)
  have "a_reason ?a = a_reason a" by (simp add: frozen_args_def Let_def)
  then show "dict_get (live_of t (subject_id sub)) ''reason'' JNull = JStr (safe_code ''unknown'' (a_reason a))"
    if "a_reason a \<noteq> []"
    using that put_retries_frame [OF r, of "''reason''" JNull]
    by (simp add: t dict_get_update put_details_def dict_get_put_if)
qed

lemma live_of_other: "map_of (lives t) j = map_of (lives s) j \<Longrightarrow> live_of t j = live_of s j"
  by (simp add: live_of_def)


lemma no_args_retries [simp]: "a_retries no_args = None"
  by (simp add: no_args_def)

section \<open>A batch leaves a reason for every post it does not deliver\<close>

definition recorded :: "lifecycle \<Rightarrow> pystr set" where
  "recorded s = fst ` set (lives s)"

lemma record_step:
  assumes "wf_lifecycle s" "a_retries a = None"
  obtains t where "record_update le now sub st sg a s = Inr t" "wf_lifecycle t" "durable t = durable s"
    "insert (subject_id sub) (recorded s) \<subseteq> recorded t"
    "dict_get (live_of t (subject_id sub)) ''status'' JNull = JStr (safe_code ''unknown'' st)"
    "dict_get (live_of t (subject_id sub)) ''stage'' JNull = JStr (safe_code ''unknown'' sg)"
    "a_reason a \<noteq> [] \<Longrightarrow> dict_get (live_of t (subject_id sub)) ''reason'' JNull = JStr (safe_code ''unknown'' (a_reason a))"
    "\<And>j. j \<noteq> subject_id sub \<Longrightarrow> live_of t j = live_of s j"
proof -
  obtain t where t: "record_update le now sub st sg a s = Inr t" using record_update_total [OF assms] by metis
  show ?thesis
  proof (rule that [OF t])
    show "wf_lifecycle t" using assms t by (rule record_update_wf)
    show "durable t = durable s" using t by (rule record_update_frame)
    show "insert (subject_id sub) (recorded s) \<subseteq> recorded t"
      using record_update_frame(5,6) [OF t] by (simp add: recorded_def)
    show "live_of t j = live_of s j" if "j \<noteq> subject_id sub" for j
      using record_update_frame(4) [OF t that] by (rule live_of_other)
  qed (use record_update_writes [OF t] in simp_all)
qed

lemma record_requests_spec:
  assumes "wf_lifecycle s"
  shows "\<exists>t. record_requests le now es us s = (Inr (), t) \<and> wf_lifecycle t \<and> durable t = durable s \<and>
    recorded s \<union> upd_id ` set us \<subseteq> recorded t"
  using assms
proof (induction us arbitrary: s)
  case (Cons u us)
  have a: "a_retries (requested_args le es u s) = None" by (simp add: requested_args_def)
  obtain t where t: "record_update le now (Whole u) ''pending_translation'' ''translation'' (requested_args le es u s) s = Inr t"
      "wf_lifecycle t" "durable t = durable s" "insert (upd_id u) (recorded s) \<subseteq> recorded t"
    using record_step [OF Cons.prems a, of le now "Whole u"] by (metis subject_id.simps(1))
  with Cons.IH [OF t(2)] show ?case by fastforce
qed simp

text \<open>A record that says why its post waits, or that the post is past the translation.\<close>

definition settled :: "pystr \<Rightarrow> pydict \<Rightarrow> bool" where
  "settled reason d \<longleftrightarrow> (dict_get d ''status'' JNull = JStr ''pending_translation'' \<and>
     dict_get d ''stage'' JNull = JStr ''translation'' \<and> dict_get d ''reason'' JNull = JStr reason) \<or>
     \<not> waits_for_translation d"

lemma plain_codes:
  "safe_code ''unknown'' ''pending_translation'' = ''pending_translation''"
  "safe_code ''unknown'' ''translation'' = ''translation''" "safe_code ''unknown'' ''retry_pending'' = ''retry_pending''"
  "safe_code ''unknown'' ''quota_429'' = ''quota_429''"
  "safe_code ''unknown'' ''provider_unavailable'' = ''provider_unavailable''"
  "safe_code ''unknown'' ''stage_exception'' = ''stage_exception''"
  by code_simp+

lemma record_deferred_spec:
  assumes "wf_lifecycle s" "reason \<noteq> []" "safe_code ''unknown'' reason = reason"
  shows "\<exists>t. record_deferred le now es reason us s = (Inr (), t) \<and> wf_lifecycle t \<and> durable t = durable s \<and>
    recorded s \<subseteq> recorded t \<and> (\<forall>i. settled reason (live_of s i) \<longrightarrow> settled reason (live_of t i)) \<and>
    (\<forall>u \<in> set us. is_seen (durable t) (upd_id u) \<or> settled reason (live_of t (upd_id u)))"
  using assms(1)
proof (induction us arbitrary: s)
  case (Cons u us)
  let ?d = "live_of s (upd_id u)"
  show ?case
  proof (cases "is_seen (durable s) (upd_id u) \<or> \<not> waits_for_translation ?d")
    case True
    from Cons.IH [OF Cons.prems] obtain t where t: "record_deferred le now es reason us s = (Inr (), t)" "wf_lifecycle t"
      "durable t = durable s" "recorded s \<subseteq> recorded t" "\<forall>i. settled reason (live_of s i) \<longrightarrow> settled reason (live_of t i)"
      "\<forall>u \<in> set us. is_seen (durable t) (upd_id u) \<or> settled reason (live_of t (upd_id u))" by blast
    from True t(3,5) have "is_seen (durable t) (upd_id u) \<or> settled reason (live_of t (upd_id u))"
      by (auto simp: settled_def)
    moreover have "record_deferred le now es reason (u # us) s = (Inr (), t)" using True t(1) by auto
    ultimately show ?thesis using t by auto
  next
    case False
    let ?a = "deferred_args le es (upd_id u) ?d reason"
    have a: "a_retries ?a = None" "a_reason ?a = reason" by (simp_all add: deferred_args_def Let_def)
    obtain t where t: "record_update le now (Whole u) ''pending_translation'' ''translation'' ?a s = Inr t"
        "wf_lifecycle t" "durable t = durable s" "recorded s \<subseteq> recorded t" "settled reason (live_of t (upd_id u))"
        "\<And>j. j \<noteq> upd_id u \<Longrightarrow> live_of t j = live_of s j"
      by (rule record_step [OF Cons.prems a(1), of le now "Whole u" "''pending_translation''" "''translation''"])
        (use assms(2,3) in \<open>simp add: a(2) plain_codes settled_def\<close>)
    from Cons.IH [OF t(2)] obtain t' where t': "record_deferred le now es reason us t = (Inr (), t')" "wf_lifecycle t'"
      "durable t' = durable t" "recorded t \<subseteq> recorded t'" "\<forall>i. settled reason (live_of t i) \<longrightarrow> settled reason (live_of t' i)"
      "\<forall>u \<in> set us. is_seen (durable t') (upd_id u) \<or> settled reason (live_of t' (upd_id u))" by blast
    have "settled reason (live_of t i)" if "settled reason (live_of s i)" for i
      using that t(5,6) by (cases "i = upd_id u") simp_all
    moreover have "record_deferred le now es reason (u # us) s = (Inr (), t')" using False t(1) t'(1) by (simp add: Let_def)
    ultimately show ?thesis using t t' by auto
  qed
qed simp

lemma record_failed_spec:
  assumes "wf_lifecycle s"
  obtains t where "record_failed le now es safe exc s = Inr t" "wf_lifecycle t" "durable t = durable s"
    "recorded s \<subseteq> recorded t"
    "\<And>u. List.find (\<lambda>u. \<not> is_seen (durable s) (upd_id u)) safe = Some u \<Longrightarrow>
       dict_get (live_of t (upd_id u)) ''status'' JNull = JStr ''retry_pending''"
proof (cases "List.find (\<lambda>u. \<not> is_seen (durable s) (upd_id u)) safe")
  case None
  with that [of s] assms show ?thesis by (simp add: record_failed_def)
next
  case (Some u)
  let ?d = "live_of s (upd_id u)"
  show ?thesis
  proof (cases "dict_get ?d ''status'' JNull = JStr ''retry_pending''")
    case True
    with Some that [of s] assms show ?thesis by (simp add: record_failed_def Let_def)
  next
    case False
    let ?a = "failure_args le es (upd_id u) ?d exc"
    have a: "a_retries ?a = None" by (simp add: failure_args_def Let_def)
    let ?sg = "or_default (or_text (lpe le) (dict_get ?d ''stage'' JNull)) ''translation''"
    obtain t where "record_update le now (Whole u) ''retry_pending'' ?sg ?a s = Inr t" "wf_lifecycle t" "durable t = durable s"
        "recorded s \<subseteq> recorded t" "dict_get (live_of t (upd_id u)) ''status'' JNull = JStr ''retry_pending''"
      by (rule record_step [OF assms a, of le now "Whole u" "''retry_pending''" ?sg]) (simp add: plain_codes)
    with Some False that [of t] show ?thesis by (simp add: record_failed_def Let_def)
  qed
qed


section \<open>The machine of the store\<close>

datatype live_op =
    LiveQueue instant bool "update list"
  | LivePop instant int
  | LivePurge instant "source_config list"
  | LiveDraft instant draft
  | LiveMark instant update
  | LivePrune instant
  | LiveRemember "update list" pystr pystr
  | LiveRecord instant subject pystr pystr live_args
  | LiveDurable state_op

text \<open>No caller in the program passes \<open>retry_count\<close>.\<close>

fun live_legal :: "live_op \<Rightarrow> bool" where
  "live_legal (LiveRecord now sub status stage a) = (a_retries a = None)"
| "live_legal _ = True"

fun live_step :: "live_env \<Rightarrow> live_op \<Rightarrow> lifecycle \<Rightarrow> lifecycle" where
  "live_step le (LiveQueue now force us) s = snd (live_queue le now force us s)"
| "live_step le (LivePop now limit) s = snd (live_pop le now limit s)"
| "live_step le (LivePurge now cs) s = snd (live_purge le now cs s)"
| "live_step le (LiveDraft now d) s = (case live_save le now d s of None \<Rightarrow> s | Some (r, t) \<Rightarrow> t)"
| "live_step le (LiveMark now u) s = snd (live_mark le now u s)"
| "live_step le (LivePrune now) s = live_prune le now s"
| "live_step le (LiveRemember us attempt status) s = remember_retrieval us attempt status s"
| "live_step le (LiveRecord now sub status stage a) s =
     (case record_update le now sub status stage a s of Inl e \<Rightarrow> s | Inr t \<Rightarrow> t)"
| "live_step le (LiveDurable op) s = s\<lparr>durable := state_step (lpe le) op (durable s)\<rparr>"

text \<open>A property of the record table that every recording keeps: all operations but pruning keep it.\<close>

locale record_property =
  fixes le :: live_env and P :: "(pystr \<times> pydict) list \<Rightarrow> bool"
  assumes keeps: "P (lives s) \<Longrightarrow> a_retries a = None \<Longrightarrow> record_update le now sub st sg a s = Inr t \<Longrightarrow> P (lives t)"
begin

lemma kept: "record_update le now sub st sg a s = Inr t \<Longrightarrow> P (lives s) \<Longrightarrow> a_retries a = None \<Longrightarrow> P (lives t)"
  using keeps .

lemma tried: "P (lives s) \<Longrightarrow> a_retries a = None \<Longrightarrow>
    P (lives (snd (case record_update le now sub st sg a s of Inl e \<Rightarrow> (Inl e, s) | Inr t \<Rightarrow> (Inr v, t))))"
  by (cases "record_update le now sub st sg a s") (auto dest: kept)

lemma queued: "P (lives s) \<Longrightarrow> P (lives (snd (record_queued le now us s)))"
proof (induction us arbitrary: s)
  case (Cons u us)
  let ?m = "record_update le now (Whole u) ''pending_delivery'' ''queue''
    (no_args\<lparr>a_attempt := fst (retrieval_of s (upd_id u)), a_retrieval := snd (retrieval_of s (upd_id u))\<rparr>) s"
  have "P (lives t)" if "?m = Inr t" for t using kept [OF that Cons.prems] by simp
  with Cons show ?case by (cases ?m) simp_all
qed simp

lemma filed: "P (lives s) \<Longrightarrow> P (lives (snd (quarantine_pending le now raw reason i src s)))"
  unfolding quarantine_pending_def Let_def by (simp split: sum.split) (auto dest: kept)

lemma foreign: "P (lives s) \<Longrightarrow> P (lives (snd (quarantine_foreign le now cs queue s)))"
proof (induction queue arbitrary: s)
  case (Cons item queue)
  let ?q = "quarantine_pending le now (JObj item) ''blocked_nonconfigured_source''
    (id_text (lpe le) item (JStr [])) (row_author (lpe le) item) s"
  obtain r t where q: "?q = (r, t)" by (cases ?q)
  with filed [OF Cons.prems] have "P (lives t)" by (metis snd_conv)
  with Cons q show ?case by (auto split: sum.split)
qed simp

lemma popped: "P (lives s) \<Longrightarrow> P (lives (snd (live_pop_loop le now room queue s)))"
proof (induction queue arbitrary: room s)
  case (Cons item queue)
  show ?case
  proof (cases "skips (lpe le) (durable s) item")
    case unskipped: False
    show ?thesis
    proof (cases "decode_item (lpe le) now item")
      case (Inl e)
      let ?q = "quarantine_pending le now (JObj item) ''invalid_pending_payload''
        (id_text (lpe le) item (JStr [])) (row_author (lpe le) item) s"
      obtain r t where q: "?q = (r, t)" by (cases ?q)
      with filed [OF Cons.prems] have "P (lives t)" by (metis snd_conv)
      with Cons q unskipped Inl show ?thesis by (auto split: sum.split)
    next
      case (Inr uf)
      obtain u f where uf: "uf = (u, f)" by (cases uf)
      let ?m = "if 0 < room
        then record_update le now (Whole u) ''pending_delivery'' ''queue''
          (no_args\<lparr>a_attempt := live_text (lpe le) (live_of s (upd_id u)) ''retrieval_attempt_id'',
                  a_retrieval := live_text (lpe le) (live_of s (upd_id u)) ''retrieval_status''\<rparr>) s
        else Inr s"
      have "P (lives t)" if "?m = Inr t" for t
        using that Cons.prems kept [of now "Whole u" "''pending_delivery''" "''queue''"] by (cases "0 < room") auto
      from Cons.IH [OF this] Cons.prems unskipped Inr uf show ?thesis
        by (auto split: sum.split prod.split simp del: neq0_conv) (metis snd_conv)+
    qed
  qed (use Cons in simp)
qed simp

lemma drafted: "P (lives s) \<Longrightarrow> live_draft le now d s = Some p \<Longrightarrow> P (lives (snd p))"
  unfolding live_draft_def Let_def by clarsimp (intro conjI impI; rule tried; simp)

lemma saved: "P (lives s) \<Longrightarrow> live_save le now d s = Some p \<Longrightarrow> P (lives (snd p))"
proof -
  assume a: "P (lives s)" "live_save le now d s = Some p"
  then obtain q where q: "live_draft le now d s = Some q" by (auto simp: live_save_def)
  obtain r t where rt: "q = (r, t)" by (cases q)
  with drafted [OF a(1) q] have "P (lives t)" by simp
  moreover have "a_retries (fidelity_args (lpe le) d c) = None" for c by (simp add: fidelity_args_def Let_def)
  ultimately show ?thesis using a(2) q rt by (auto simp: live_save_def Let_def split: if_splits intro!: tried)
qed

lemma marked: "P (lives s) \<Longrightarrow> P (lives (snd (live_mark le now u s)))"
proof (cases "delivered_args (lpe le) (live_of s (upd_id u)) (drafts_of (lpe le) (durable s) (upd_id u))")
  case (Inr a)
  assume p: "P (lives s)"
  have "a_retries a = None"
    using Inr by (auto simp: delivered_args_def Let_def bindE_Inr split: if_splits)
  with p Inr show ?thesis unfolding live_mark_def Let_def by simp (intro conjI impI; rule tried; simp)
qed (simp add: live_mark_def Let_def)

lemma stepped:
  assumes "P (lives s)" "live_legal op" "\<And>now. op \<noteq> LivePrune now"
  shows "P (lives (live_step le op s))"
proof (cases op)
  case (LiveQueue now force us)
  with queued [of "s\<lparr>durable := _\<rparr>"] assms(1) show ?thesis by (simp add: live_queue_def)
next
  case (LivePop now limit)
  with popped [OF assms(1), of now "nat limit" "pending_delivery (durable s)"] show ?thesis
    by (auto simp: live_pop_def split: prod.split sum.split)
next
  case (LivePurge now cs)
  with foreign [OF assms(1), of now cs "pending_delivery (durable s)"] show ?thesis
    by (auto simp: live_purge_def split: prod.split sum.split)
next
  case (LiveDraft now d)
  with saved [OF assms(1), of now d] assms(1) show ?thesis by (auto split: option.split)
next
  case (LiveMark now u)
  with marked [OF assms(1)] show ?thesis by simp
next
  case (LiveRecord now sub st sg a)
  with assms(1,2) show ?thesis by (auto split: sum.split dest: kept)
qed (use assms in \<open>simp_all add: remember_retrieval_def Let_def\<close>)

lemma run: "P (lives s) \<Longrightarrow> list_all live_legal ops \<Longrightarrow> list_all (\<lambda>op. \<forall>now. op \<noteq> LivePrune now) ops \<Longrightarrow>
    P (lives (fold (live_step le) ops s))"
  by (induction ops arbitrary: s) (auto intro: stepped)

end


section \<open>Every operation keeps the records well formed\<close>

definition wf_lives :: "(pystr \<times> pydict) list \<Rightarrow> bool" where
  "wf_lives ls \<longleftrightarrow> distinct (map fst ls) \<and> list_all (\<lambda>(i, d). wf_record d) ls"

lemma wf_lifecycle_parts:
  "wf_lifecycle s \<longleftrightarrow> wf_state (durable s) \<and> wf_lives (lives s) \<and> length (quarantined s) \<le> quarantine_limit"
  by (simp add: wf_lifecycle_def wf_lives_def)

interpretation sound_records: record_property le wf_lives for le
proof
  fix s t :: lifecycle and now sub st sg a
  assume a: "wf_lives (lives s)" "a_retries a = None" "record_update le now sub st sg a s = Inr t"
  let ?l = "\<lambda>s. s\<lparr>durable := fresh_state, quarantined := []\<rparr>"
  have wf: "wf_lifecycle (?l s)" using a(1) by (simp add: wf_lifecycle_parts wf_state_def fresh_state_def)
  have "record_update le now sub st sg a (?l s) = Inr (?l t)"
    using a(3) by (auto simp: record_update_def live_of_def Let_def bindE_Inr)
  from record_update_wf [OF wf a(2) this] show "wf_lives (lives t)" by (simp add: wf_lifecycle_parts)
qed

text \<open>A recording touches nothing but the table, and the quarantine keeps its limit.\<close>

interpretation kept_records: record_property le "\<lambda>ls. K \<subseteq> fst ` set ls" for le K
  by unfold_locales (use record_update_frame(6) in blast)

lemma record_queued_frame:
  "durable (snd (record_queued le now us s)) = durable s \<and> quarantined (snd (record_queued le now us s)) = quarantined s"
proof (induction us arbitrary: s)
  case (Cons u us)
  then show ?case by (auto split: sum.split dest: record_update_frame(1,2))
qed simp

lemma tried_frame:
  "durable (snd (case record_update le now sub st sg a s of Inl e \<Rightarrow> (Inl e, s) | Inr t \<Rightarrow> (Inr v, t))) = durable s"
  "quarantined (snd (case record_update le now sub st sg a s of Inl e \<Rightarrow> (Inl e, s) | Inr t \<Rightarrow> (Inr v, t))) = quarantined s"
  by (cases "record_update le now sub st sg a s"; auto dest: record_update_frame(1,2))+

lemma live_draft_frame:
  assumes "live_draft le now d s = Some p"
  shows "\<exists>st. save_draft d (durable s) = Some st \<and> durable (snd p) = st" "quarantined (snd p) = quarantined s"
  using assms unfolding live_draft_def Let_def by (auto simp: tried_frame)

lemma live_save_frame:
  assumes "live_save le now d s = Some p"
  shows "\<exists>st. save_draft d (durable s) = Some st \<and> durable (snd p) = st" "quarantined (snd p) = quarantined s"
proof -
  from assms obtain q where q: "live_draft le now d s = Some q" by (auto simp: live_save_def)
  obtain r t where rt: "q = (r, t)" by (cases q)
  have "durable (snd p) = durable t" "quarantined (snd p) = quarantined t"
    using assms q rt by (auto simp: live_save_def Let_def tried_frame split: if_splits)
  with live_draft_frame [OF q] rt show "\<exists>st. save_draft d (durable s) = Some st \<and> durable (snd p) = st"
    "quarantined (snd p) = quarantined s" by simp_all
qed

lemma live_mark_frame:
  "durable (snd (live_mark le now u s)) \<in> {durable s, mark_seen u now (durable s)}"
  "quarantined (snd (live_mark le now u s)) = quarantined s"
  unfolding live_mark_def Let_def by (auto simp: tried_frame split: sum.split)

lemma wf_newest_lives: "wf_lives ls \<Longrightarrow> wf_lives (newest_lives pe ls)"
proof -
  assume wf: "wf_lives ls"
  let ?f = "\<lambda>(k, d). live_text pe d ''updated_at''"
  have "distinct (map fst (sort_key ?f (rev ls)))"
    using wf by (simp add: wf_lives_def distinct_map)
  then have "distinct (map fst (take lifecycle_limit (rev (sort_key ?f (rev ls)))))"
    by (simp add: take_map [symmetric] rev_map [symmetric])
  moreover have "set (newest_lives pe ls) \<subseteq> set ls"
    by (auto simp: newest_lives_def dest: in_set_takeD)
  ultimately show ?thesis using wf by (auto simp: wf_lives_def newest_lives_def list_all_iff)
qed

lemma live_step_wf:
  assumes "live_legal op" "wf_lifecycle s"
  shows "wf_lifecycle (live_step le op s)"
proof -
  have parts: "wf_state (durable s)" "wf_lives (lives s)" "length (quarantined s) \<le> quarantine_limit"
    using assms(2) by (simp_all add: wf_lifecycle_parts)
  have durable: "wf_state (state_step (lpe le) o' (durable s))" for o' by (rule state_step_wf [OF parts(1)])
  have kept: "wf_lives (lives (live_step le op s))" if "\<And>now. op \<noteq> LivePrune now"
    by (rule sound_records.stepped [OF parts(2) assms(1) that])
  show ?thesis
  proof (cases op)
    case (LiveQueue now force us)
    with kept parts(3) durable [of "QueueUpdates force us"] record_queued_frame show ?thesis
      by (simp add: wf_lifecycle_parts live_queue_def)
  next
    case (LivePop now limit)
    with live_pop_spec [OF assms(2), of le now limit] show ?thesis by (metis live_step.simps(2) snd_conv)
  next
    case (LivePurge now cs)
    with live_purge_spec [OF assms(2), of le now cs] show ?thesis by (metis live_step.simps(3) snd_conv)
  next
    case (LiveDraft now d)
    show ?thesis
    proof (cases "live_save le now d s")
      case None
      with LiveDraft assms(2) show ?thesis by simp
    next
      case (Some p)
      with kept live_save_frame [OF Some] parts(3) durable [of "SaveDraft d"] LiveDraft show ?thesis
        by (auto simp: wf_lifecycle_parts split: prod.splits)
    qed
  next
    case (LiveMark now u)
    with kept parts durable [of "MarkSeen u now"] live_mark_frame [of le now u s] show ?thesis
      by (auto simp: wf_lifecycle_parts)
  next
    case (LivePrune now)
    with parts durable [of "Prune now"] wf_newest_lives show ?thesis
      by (simp add: wf_lifecycle_parts live_prune_def)
  next
    case (LiveRemember us attempt status)
    with parts show ?thesis by (simp add: wf_lifecycle_parts remember_retrieval_def Let_def)
  next
    case (LiveRecord now sub st sg a)
    with assms show ?thesis by (auto split: sum.split intro: record_update_wf)
  next
    case (LiveDurable o')
    with parts durable show ?thesis by (simp add: wf_lifecycle_parts)
  qed
qed

interpretation lifecycle: guarded_machine "live_step le" wf_lifecycle live_legal for le
  by unfold_locales (rule live_step_wf)

lemma fresh_lifecycle_wf: "wf_lifecycle fresh_lifecycle"
  by (simp add: wf_lifecycle_def fresh_lifecycle_def wf_state_def fresh_state_def)

section \<open>The batch\<close>

text \<open>
  What the wrapper relies on: the delivery it wraps works through the installed operations, so
  it keeps the state well formed and drops no record.
\<close>

definition disciplined :: "(update list \<Rightarrow> lifecycle \<Rightarrow> pystr option \<times> bool \<times> lifecycle) \<Rightarrow> bool" where
  "disciplined original \<longleftrightarrow> (\<forall>us s. wf_lifecycle s \<longrightarrow>
     wf_lifecycle (snd (snd (original us s))) \<and> recorded s \<subseteq> recorded (snd (snd (original us s))))"

lemma run_disciplined:
  assumes "\<And>us s. snd (snd (original us s)) = fold (live_step le) (ops us s) s"
    and "\<And>us s. list_all live_legal (ops us s) \<and> list_all (\<lambda>op. \<forall>now. op \<noteq> LivePrune now) (ops us s)"
  shows "disciplined original"
  unfolding disciplined_def recorded_def assms(1)
  using lifecycle.legal_run assms(2) kept_records.run [of "fst ` set (lives s)" for s] by blast

lemma live_deliver_spec:
  assumes "live_deliver le sha1 label cs original now us s = Some (r, t)" "configured_only cs us = Some safe"
    "safe \<noteq> []" "wf_lifecycle s" "disciplined original"
  obtains (ended) reason where "r = Inr None" "reason \<in> {''quota_429'', ''provider_unavailable''}" "wf_lifecycle t"
      "upd_id ` set safe \<subseteq> recorded t"
      "\<forall>u \<in> set safe. is_seen (durable t) (upd_id u) \<or> settled reason (live_of t (upd_id u))"
  | (failed) exc where "r = Inr (Some exc)" "wf_lifecycle t" "upd_id ` set safe \<subseteq> recorded t"
      "\<And>u. List.find (\<lambda>u. \<not> is_seen (durable t) (upd_id u)) safe = Some u \<Longrightarrow>
         dict_get (live_of t (upd_id u)) ''status'' JNull = JStr ''retry_pending''"
proof -
  from assms(1-3) obtain gs where gs: "organize_updates sha1 label safe = Some gs"
    by (auto simp: live_deliver_def split: option.splits)
  let ?es = "event_ids gs"
  obtain s1 where s1: "record_requests le now ?es safe s = (Inr (), s1)" "wf_lifecycle s1"
      "recorded s \<union> upd_id ` set safe \<subseteq> recorded s1"
    using record_requests_spec [OF assms(4)] by metis
  obtain x quota s2 where s2: "original safe s1 = (x, quota, s2)" by (metis prod_cases3)
  with assms(5) s1(2) have wf2: "wf_lifecycle s2" "recorded s1 \<subseteq> recorded s2"
    by (metis disciplined_def snd_conv)+
  show ?thesis
  proof (cases x)
    case None
    let ?r = "deferral_reason quota"
    have reason: "?r \<noteq> []" "safe_code ''unknown'' ?r = ?r" "?r \<in> {''quota_429'', ''provider_unavailable''}"
      by (auto simp: deferral_reason_def plain_codes)
    obtain t' where t': "record_deferred le now ?es ?r safe s2 = (Inr (), t')" "wf_lifecycle t'" "recorded s2 \<subseteq> recorded t'"
        "\<forall>u \<in> set safe. is_seen (durable t') (upd_id u) \<or> settled ?r (live_of t' (upd_id u))"
      using record_deferred_spec [OF wf2(1) reason(1,2)] by metis
    have "r = Inr None" "t = t'"
      using assms(1-3) gs s1(1) s2 None t'(1) by (simp_all add: live_deliver_def Let_def)
    moreover have "upd_id ` set safe \<subseteq> recorded t'" using s1(3) wf2(2) t'(3) by blast
    ultimately show ?thesis using ended [OF _ reason(3)] t'(2,4) by blast
  next
    case (Some exc)
    obtain t' where t': "record_failed le now ?es safe exc s2 = Inr t'" "wf_lifecycle t'" "durable t' = durable s2"
        "recorded s2 \<subseteq> recorded t'"
        "\<And>u. List.find (\<lambda>u. \<not> is_seen (durable s2) (upd_id u)) safe = Some u \<Longrightarrow>
           dict_get (live_of t' (upd_id u)) ''status'' JNull = JStr ''retry_pending''"
      using record_failed_spec [OF wf2(1)] by blast
    have rt: "r = Inr (Some exc)" "t = t'"
      using assms(1-3) gs s1(1) s2 Some t'(1) by (simp_all add: live_deliver_def Let_def)
    moreover have "upd_id ` set safe \<subseteq> recorded t'" using s1(3) wf2(2) t'(4) by blast
    ultimately show ?thesis using failed [of exc] t'(2,3,5) by simp
  qed
qed


section \<open>Correlation ids\<close>

text \<open>The record of \<open>i\<close> names \<open>e\<close> under \<open>k\<close>.\<close>

definition pinned :: "pystr \<Rightarrow> pystr \<Rightarrow> pystr \<Rightarrow> (pystr \<times> pydict) list \<Rightarrow> bool" where
  "pinned i k e ls \<longleftrightarrow> wf_lives ls \<and> e \<noteq> [] \<and>
     (case map_of ls i of None \<Rightarrow> False | Some d \<Rightarrow> map_of d k = Some (JStr e))"

lemma put_source_other: "k \<noteq> ''source'' \<Longrightarrow> dict_get (put_source sub src d) k dflt = dict_get d k dflt"
  by (cases sub) (simp_all add: dict_get_update dict_get_put_if)

lemma put_default_other: "k \<noteq> j \<Longrightarrow> dict_get (put_default j v d) k dflt = dict_get d k dflt"
  by (simp add: put_default_def dict_get_update)

lemma pinned_length:
  assumes "wf_record d" "map_of d k = Some (JStr e)" "k \<in> {''event_id'', ''translation_job_id''}"
  shows "length e \<le> (if k = ''event_id'' then 160 else 120)"
proof -
  have "fits k (JStr e)" using assms(1,2) by (auto simp: wf_record_def list_all_iff simp del: fits_keys dest!: map_of_SomeD)
  with assms(3) show ?thesis by auto
qed

lemma record_keeps_pin:
  assumes "pinned i k e (lives s)" "k \<in> {''event_id'', ''translation_job_id''}" "a_retries a = None"
    and "record_update le now sub st sg a s = Inr t"
  shows "pinned i k e (lives t)"
proof -
  have wf: "wf_lives (lives t)" using sound_records.keeps [OF _ assms(3,4)] assms(1) by (simp add: pinned_def)
  from assms(1) obtain d where d: "map_of (lives s) i = Some d" "map_of d k = Some (JStr e)" "e \<noteq> []" "wf_record d"
    by (auto simp: pinned_def wf_lives_def list_all_iff dest: map_of_SomeD split: option.splits)
  show ?thesis
  proof (cases "subject_id sub = i")
    case False
    with record_update_frame(4) [OF assms(4), of i] d wf show ?thesis by (simp add: pinned_def)
  next
    case True
    let ?a = "frozen_args (lpe le) d a"
    let ?src = "put_source sub (a_source ?a) (put_default ''post_id'' (JStr i) (put_default ''update_id'' (JStr i) d))"
    from assms(4) d(1) True obtain r where r: "put_retries st (a_retries ?a) (put_details (lpe le) st ?a ?src) = Inr r"
      and t: "map_of (lives t) i = Some (AList.update ''updated_at'' (JStr (isoformat now))
        (AList.update ''stage'' (JStr (safe_code ''unknown'' sg)) (AList.update ''status'' (JStr (safe_code ''unknown'' st)) r)))"
      by (auto simp: record_update_def record_fields_def Let_def bindE_Inr live_of_def update_conv')
    have "dict_get (put_details (lpe le) st ?a ?src) k JNull = JStr e"
    proof (cases "k = ''event_id''")
      case True
      then have "a_event ?a = JStr e" using d by (simp add: frozen_args_def Let_def dict_get_def or_text_def)
      with True pinned_length [OF d(4,2) assms(2)] d(3) show ?thesis
        by (simp add: put_details_def dict_get_put_if)
    next
      case False
      with assms(2) have k: "k = ''translation_job_id''" by simp
      then have "a_job ?a = e" using d by (simp add: frozen_args_def Let_def dict_get_def or_text_def)
      with k pinned_length [OF d(4,2) assms(2)] d(3) show ?thesis
        by (simp add: put_details_def dict_get_put_if)
    qed
    then have "dict_get r k JNull = JStr e" using put_retries_frame [OF r] assms(2) by auto
    then have "map_of r k = Some (JStr e)" by (auto simp: dict_get_def split: option.splits)
    with t assms(2) wf d(3) show ?thesis by (auto simp: pinned_def update_conv')
  qed
qed

interpretation pinned_event: record_property le "pinned i ''event_id'' e" for le i e
  by unfold_locales (rule record_keeps_pin; simp)

interpretation pinned_job: record_property le "pinned i ''translation_job_id'' j" for le i j
  by unfold_locales (rule record_keeps_pin; simp)

section \<open>Properties\<close>

definition demo_live :: live_env where
  "demo_live = \<lparr>lpe = demo_env, sha_hex = id, dump_sorted = (\<lambda>v. []), outage_text = (\<lambda>t. False)\<rparr>"

definition junk_row :: pydict where "junk_row = [(''id'', JStr ''7''), (''author'', JStr ''fan'')]"

definition junk_state :: lifecycle where
  "junk_state = fresh_lifecycle\<lparr>durable := fresh_state\<lparr>pending_delivery := [junk_row, queue_item False (demo_update ''2'')]\<rparr>\<rparr>"

lemma junk_state_wf: "wf_lifecycle junk_state"
  by (simp add: junk_state_def fresh_lifecycle_def wf_lifecycle_def wf_state_def fresh_state_def)

text \<open>
  C27: The lifecycle layer is transparent: on well-formed records the hardened \<open>pop_pending\<close> returns
  or raises exactly what the original does and leaves exactly the durable state the original
  leaves; what it adds is only records and quarantine.
\<close>

theorem live_pop_transparent:
  assumes "wf_lifecycle s"
  shows "fst (live_pop le now limit s) = map_sum id fst (pop_pending (lpe le) now limit (durable s)) \<and>
    durable (snd (live_pop le now limit s)) =
      (case pop_pending (lpe le) now limit (durable s) of Inl e \<Rightarrow> durable s | Inr (result, st) \<Rightarrow> st)"
  using live_pop_spec [OF assms, of le now limit] by (metis fst_conv snd_conv)

theorem live_pop_transparent_witness:
  "fst (live_pop demo_live 0 5 junk_state) = map_sum id fst (pop_pending (lpe demo_live) 0 5 (durable junk_state))"
  by (rule live_pop_transparent [OF junk_state_wf, THEN conjunct1])

text \<open>What became of a row: it is queued, was seen before, or is in the quarantine with its payload.\<close>

definition kept_row :: "live_env \<Rightarrow> lifecycle \<Rightarrow> pydict \<Rightarrow> lifecycle \<Rightarrow> bool" where
  "kept_row le s item t \<longleftrightarrow> item \<in> set (pending_delivery (durable t)) \<or> is_seen (durable s) (id_text (lpe le) item (JStr [])) \<or>
     (\<exists>q \<in> set (quarantined t). map_of q ''payload'' = Some (JObj item))"

lemma purge_pop_rows:
  assumes "wf_lifecycle s" "length (pending_delivery (durable s)) \<le> 1000" "item \<in> set (pending_delivery (durable s))"
  obtains t where "live_purge le now cs s = (Inr (), t)" "wf_lifecycle t" "kept_row le s item t"
    "\<And>later limit. wf_lifecycle (snd (live_pop le later limit t)) \<and> kept_row le s item (snd (live_pop le later limit t))"
proof -
  let ?pe = "lpe le" and ?q = "pending_delivery (durable s)"
  let ?fine = "\<lambda>i. is_configured cs (row_author ?pe i)"
  obtain t1 where t1: "live_purge le now cs s = (Inr (), t1)" "wf_lifecycle t1" "durable t1 = purge_external ?pe cs (durable s)"
    "quarantined t1 = last_n quarantine_limit (quarantined s @ map (filed ?pe now ''blocked_nonconfigured_source'') (filter (\<lambda>i. \<not> ?fine i) ?q))"
    using live_purge_spec [OF assms(1)] .
  let ?st = "durable t1"
  have q1: "pending_delivery ?st = filter ?fine ?q" "skips ?pe ?st = skips ?pe (durable s)"
    by (auto simp: t1(3) purge_external_def skips_def is_seen_def fun_eq_iff)
  have "length (filter (\<lambda>i. \<not> ?fine i) ?q) \<le> quarantine_limit"
    using order_trans [OF length_filter_le assms(2)] by (simp add: quarantine_limit_def)
  then have foreign: "set (map (filed ?pe now ''blocked_nonconfigured_source'') (filter (\<lambda>i. \<not> ?fine i) ?q)) \<subseteq> set (quarantined t1)"
    unfolding t1(4) by (intro last_n_superset) simp
  have purged: "kept_row le s item t1"
  proof (cases "?fine item")
    case False
    with assms(3) foreign filed_payload show ?thesis by (fastforce simp: kept_row_def)
  qed (use assms(3) q1(1) in \<open>simp add: kept_row_def\<close>)
  have "wf_lifecycle (snd (live_pop le later limit t1)) \<and> kept_row le s item (snd (live_pop le later limit t1))" for later limit
  proof -
  let ?bad = "filter (rejected ?pe later ?st) (takeWhile (\<lambda>i. \<not> poisonous ?pe later ?st i) (pending_delivery ?st))"
  obtain t where t: "live_pop le later limit t1 = (map_sum id fst (pop_pending ?pe later limit ?st), t)"
    "durable t = (case pop_pending ?pe later limit ?st of Inl _ \<Rightarrow> ?st | Inr (_, st) \<Rightarrow> st)"
    "quarantined t = last_n quarantine_limit (quarantined t1 @ map (filed ?pe later ''invalid_pending_payload'') ?bad)"
    and wf: "wf_lifecycle t"
    using live_pop_spec [OF t1(2), of le later limit] by metis
  let ?new = "map (filed ?pe now ''blocked_nonconfigured_source'') (filter (\<lambda>i. \<not> ?fine i) ?q) @
    map (filed ?pe later ''invalid_pending_payload'') ?bad"
  have "length ?bad \<le> length (filter ?fine ?q)"
    unfolding q1(1) by (meson length_filter_le length_takeWhile_le order_trans)
  then have "length ?new \<le> quarantine_limit"
    using assms(2) sum_length_filter_compl [of ?fine ?q] by (simp add: quarantine_limit_def)
  then have filed: "set ?new \<subseteq> set (quarantined t)"
    unfolding t(3) t1(4) last_n_append append_assoc by (rule last_n_superset)
  have "item \<in> set (pending_delivery (durable t)) \<or> skips ?pe (durable s) item \<or>
    (\<exists>q \<in> set (quarantined t). map_of q ''payload'' = Some (JObj item))"
  proof (cases "?fine item")
    case False
    with assms(3) filed filed_payload show ?thesis by fastforce
  next
    case True
    show ?thesis
    proof (cases "pop_pending ?pe later limit ?st")
      case (Inl e)
      with t(2) q1(1) True assms(3) show ?thesis by simp
    next
      case (Inr p)
      obtain res st' where p: "p = (res, st')" by (cases p)
      with Inr obtain rem where l: "pop_loop ?pe later ?st (nat limit) (pending_delivery ?st) = Inr (rem, res)"
        "st' = ?st\<lparr>pending_delivery := rem\<rparr>" by (auto simp: pop_pending_def bindE_Inr)
      with t(2) Inr p pop_loop_spec [OF l(1)] have rem: "pending_delivery (durable t) = filter (keeps ?pe later ?st) (filter ?fine ?q)"
        by (simp add: q1(1))
      have whole: "takeWhile (\<lambda>i. \<not> poisonous ?pe later ?st i) (filter ?fine ?q) = filter ?fine ?q"
        using pop_loop_unpoisoned [OF l(1)] unfolding q1(1) .
      then have all: "?bad = filter (rejected ?pe later ?st) (filter ?fine ?q)"
        unfolding q1(1) by (rule arg_cong)
      from whole have "\<not> poisonous ?pe later ?st item" using True assms(3) by (metis (mono_tags, lifting) filter_is_subset mem_Collect_eq set_filter set_takeWhileD)
      then consider "skips ?pe ?st item" | "keeps ?pe later ?st item" | "rejected ?pe later ?st item"
        by (auto simp: keeps_def rejected_def poisonous_def split: sum.splits)
      then show ?thesis
      proof cases
        case 3
        with True assms(3) have "filed ?pe later ''invalid_pending_payload'' item \<in> set ?new" unfolding all by simp
        with filed filed_payload show ?thesis by blast
      qed (use True assms(3) rem q1(2) in auto)
    qed
  qed
  with wf show ?thesis by (auto simp: kept_row_def t(1) skips_def Let_def)
  qed
  with that t1(1,2) purged show thesis by blast
qed

text \<open>
  C9: No silent loss: after a delivery pass (the purge of foreign rows, then the scan for rows to
  deliver) every row of a queue of at most 1000 rows is still queued, was already seen, or sits in
  the quarantine with its payload, and recording never raises.
\<close>

theorem rows_accounted:
  assumes "wf_lifecycle s" "length (pending_delivery (durable s)) \<le> 1000" "item \<in> set (pending_delivery (durable s))"
  shows "fst (live_purge le now cs s) = Inr () \<and>
    (let t = snd (live_pop le later limit (snd (live_purge le now cs s)))
     in item \<in> set (pending_delivery (durable t)) \<or> is_seen (durable s) (id_text (lpe le) item (JStr [])) \<or>
        (\<exists>q \<in> set (quarantined t). map_of q ''payload'' = Some (JObj item)))"
  using purge_pop_rows [OF assms, of le now cs] unfolding kept_row_def Let_def by (metis fst_conv snd_conv)

theorem rows_accounted_witness:
  "let t = snd (live_pop demo_live 1 5 (snd (live_purge demo_live 0 [fan_source] junk_state)))
   in junk_row \<in> set (pending_delivery (durable t)) \<or>
      (\<exists>q \<in> set (quarantined t). map_of q ''payload'' = Some (JObj junk_row))"
proof -
  have q: "length (pending_delivery (durable junk_state)) \<le> 1000" "junk_row \<in> set (pending_delivery (durable junk_state))"
    and i: "id_text (lpe demo_live) junk_row (JStr []) = ''7''" "\<not> is_seen (durable junk_state) ''7''"
    by (simp_all add: junk_state_def junk_row_def id_text_def dict_get_def is_seen_def fresh_state_def)
  show ?thesis
    using rows_accounted [OF junk_state_wf q, of demo_live 0 "[fan_source]" 1 5] i unfolding Let_def by simp
qed


text \<open>
  No batch ends silently: when the wrapped delivery returns or raises, every configured post
  of the batch has a lifecycle record; after a normal return a post that is not seen either waits
  for its translation with the reason written down or is past the translation; after an exception
  the first post that is not seen is marked for a retry. Recording itself never raises. The
  delivery inside only has to work through the installed operations.
\<close>

theorem batch_not_silent:
  assumes "live_deliver le sha1 label cs original now us s = Some (r, t)" "configured_only cs us = Some safe"
    and "wf_lifecycle s" "disciplined original" "u \<in> set safe"
  shows "upd_id u \<in> recorded t \<and>
    (r = Inr None \<and> (is_seen (durable t) (upd_id u) \<or>
        (\<exists>reason \<in> {''quota_429'', ''provider_unavailable''}. settled reason (live_of t (upd_id u)))) \<or>
     (\<exists>exc. r = Inr (Some exc) \<and> (List.find (\<lambda>v. \<not> is_seen (durable t) (upd_id v)) safe = Some u \<longrightarrow>
        dict_get (live_of t (upd_id u)) ''status'' JNull = JStr ''retry_pending'')))"
proof -
  have "safe \<noteq> []" using assms(5) by auto
  from assms(1,2) this assms(3,4) show ?thesis
  proof (cases rule: live_deliver_spec)
    case (ended reason)
    with assms(5) show ?thesis by blast
  next
    case (failed exc)
    with assms(5) show ?thesis by blast
  qed
qed

lemma live_deliver_total:
  assumes "configured_only cs us = Some safe" "organize_updates sha1 label safe = Some gs" "safe \<noteq> []"
  shows "\<exists>r t. live_deliver le sha1 label cs original now us s = Some (r, t)"
proof -
  obtain y s1 where "record_requests le now (event_ids gs) safe s = (y, s1)" by (rule prod.exhaust)
  moreover obtain x q s2 where "original safe s1 = (x, q, s2)" by (rule prod_cases3)
  moreover obtain z t where "record_deferred le now (event_ids gs) (deferral_reason q) safe s2 = (z, t)" by (rule prod.exhaust)
  ultimately show ?thesis
    using assms(3) unfolding live_deliver_def assms(1,2) option.case Let_def
    by (cases y; cases x; cases z; cases "record_failed le now (event_ids gs) safe (the x) s2") simp_all
qed

definition one_done :: "update list \<Rightarrow> lifecycle \<Rightarrow> pystr option \<times> bool \<times> lifecycle" where
  "one_done us s = (None, True, fold (live_step demo_live) [LiveMark 0 (hd us)] s)"

lemma one_done_disciplined: "disciplined one_done"
  by (rule run_disciplined [where le = demo_live and ops = "\<lambda>us s. [LiveMark 0 (hd us)]"]) (simp_all add: one_done_def)

theorem batch_not_silent_witness:
  "\<exists>r t. live_deliver demo_live id id [fan_source] one_done 0 demo_both fresh_lifecycle = Some (r, t) \<and> ''2'' \<in> recorded t"
proof -
  obtain gs where gs: "organize_updates id id demo_both = Some gs"
    by (auto simp: organize_updates_def demo_post_def organizable_def)
  obtain r t where d: "live_deliver demo_live id id [fan_source] one_done 0 demo_both fresh_lifecycle = Some (r, t)"
    using live_deliver_total [OF demo_filtered gs, of demo_live one_done 0 fresh_lifecycle] by auto
  have "demo_post ''2'' ''hello'' 40 ''9'' \<in> set demo_both" by simp
  from batch_not_silent [OF d demo_filtered fresh_lifecycle_wf one_done_disciplined this] d show ?thesis
    by (auto simp: demo_post_def)
qed

text \<open>
  Types and bounds of the lifecycle: after any run of operations on a fresh store the
  quarantine holds at most 1000 entries, every record has only the known fields, each of its type
  and within its bound (the retry count at most 1000), and recording never raises.
\<close>

theorem lifecycle_bounds:
  assumes "list_all live_legal ops" "a_retries a = None"
  shows "let s = fold (live_step le) ops fresh_lifecycle in
    length (quarantined s) \<le> 1000 \<and> (\<forall>(i, d) \<in> set (lives s). \<forall>(k, v) \<in> set d. fits k v) \<and>
    (\<exists>t. record_update le now sub status stage a s = Inr t)"
proof -
  let ?s = "fold (live_step le) ops fresh_lifecycle"
  have wf: "wf_lifecycle ?s" using assms(1) fresh_lifecycle_wf by (rule lifecycle.legal_run)
  moreover obtain t where "record_update le now sub status stage a ?s = Inr t"
    using record_update_total [OF wf assms(2)] by metis
  ultimately show ?thesis
    by (auto simp: wf_lifecycle_def wf_record_def quarantine_limit_def list_all_iff)
qed

theorem lifecycle_bounds_witness:
  "length (quarantined (fold (live_step demo_live) [LiveQueue 0 False demo_both, LivePop 0 5] fresh_lifecycle)) \<le> 1000"
  using lifecycle_bounds [of "[LiveQueue 0 False demo_both, LivePop 0 5]" no_args demo_live] by (simp add: Let_def)

text \<open>
  Correlation ids are frozen: once the record of an update names an event (or a translation
  job), no run of operations without an eviction changes that name, whatever the later calls pass.
\<close>

theorem correlation_ids_frozen:
  assumes "wf_lifecycle s" "map_of (live_of s i) k = Some (JStr e)" "e \<noteq> []" "k \<in> {''event_id'', ''translation_job_id''}"
    and "list_all live_legal ops" "list_all (\<lambda>op. \<forall>now. op \<noteq> LivePrune now) ops"
  shows "map_of (live_of (fold (live_step le) ops s) i) k = Some (JStr e)"
proof -
  have "pinned i k e (lives s)"
    using assms(1-3) by (auto simp: pinned_def wf_lifecycle_parts live_of_def split: option.splits)
  then have "pinned i k e (lives (fold (live_step le) ops s))"
    using assms(4) pinned_event.run [OF _ assms(5,6)] pinned_job.run [OF _ assms(5,6)] by auto
  then show ?thesis by (auto simp: pinned_def live_of_def split: option.splits)
qed

definition named_state :: lifecycle where
  "named_state = fresh_lifecycle\<lparr>lives := [(''1'', [(''event_id'', JStr ''conversation:9'')])]\<rparr>"

theorem correlation_ids_frozen_witness:
  "map_of (live_of (fold (live_step demo_live) [LiveRecord 0 (Named ''1'') ''queued'' ''queue'' (no_args\<lparr>a_event := JStr ''other''\<rparr>),
     LiveMark 1 (demo_update ''1'')] named_state) ''1'') ''event_id'' = Some (JStr ''conversation:9'')"
proof (rule correlation_ids_frozen)
  show "wf_lifecycle named_state"
    by (simp add: named_state_def fresh_lifecycle_def wf_lifecycle_def wf_state_def fresh_state_def wf_record_def)
qed (simp_all add: named_state_def live_of_def)

end
