(* ===== verification/ArchiveIndex.thy ===== *)
theory ArchiveIndex
  imports Lifecycle
begin

text \<open>
  \<open>app/archive_store.py\<close>: the searchable index over the archived posts, the table
  \<open>archive_records\<close> and the full-text table \<open>archive_fts\<close> that mirrors it. \<open>raw_json\<close> is kept as
  the value \<open>json.dumps\<close> encodes. The columns are text: a post with another value in one of them
  is outside the model (\<open>None\<close>). What FTS5 answers to a query, with the rank of each row, is an
  argument.
\<close>

section \<open>Tables\<close>

record archive_row =
  ar_id :: pystr
  ar_url :: pystr
  ar_author :: pystr
  ar_author_name :: pystr
  ar_text :: pystr
  ar_translated :: pystr
  ar_caption :: pystr
  ar_created :: pystr
  ar_conversation :: pystr
  ar_reply :: pystr
  ar_quoted :: pystr
  ar_lang :: pystr
  ar_category :: pystr
  ar_event_key :: pystr
  ar_event_title :: pystr
  ar_source :: pystr
  ar_raw :: pydict

record fts_row =
  ft_id :: pystr
  ft_text :: pystr
  ft_translated :: pystr
  ft_caption :: pystr
  ft_author :: pystr
  ft_author_name :: pystr
  ft_source :: pystr
  ft_category :: pystr
  ft_event_title :: pystr

record archive_index =
  ai_records :: "archive_row list"
  ai_fts :: "fts_row list"

definition empty_index :: archive_index where
  "empty_index = \<lparr>ai_records = [], ai_fts = []\<rparr>"

fun plain_text :: "json \<Rightarrow> pystr option" where
  "plain_text (JStr t) = Some t"
| "plain_text _ = None"

text \<open>The posts whose columns are all text.\<close>

definition text_columns :: "update \<Rightarrow> json list" where
  "text_columns u = [url u, author_name u, body u, reply_to_id u, quoted_id u, lang u, category u,
     event_key u, event_title u, raw_query u]"

definition indexable :: "update \<Rightarrow> bool" where
  "indexable u \<longleftrightarrow> list_all (\<lambda>v. plain_text v \<noteq> None) (text_columns u)"

definition column :: "json \<Rightarrow> pystr" where
  "column v = (case plain_text v of None \<Rightarrow> [] | Some t \<Rightarrow> t)"

definition archive_entry :: "update \<Rightarrow> pystr \<Rightarrow> pystr \<Rightarrow> archive_row" where
  "archive_entry u translated cap =
     \<lparr>ar_id = upd_id u, ar_url = column (url u), ar_author = author u,
      ar_author_name = column (author_name u), ar_text = column (body u), ar_translated = translated,
      ar_caption = cap, ar_created = isoformat (created_at u), ar_conversation = conversation_id u,
      ar_reply = column (reply_to_id u), ar_quoted = column (quoted_id u), ar_lang = column (lang u),
      ar_category = column (category u), ar_event_key = column (event_key u),
      ar_event_title = column (event_title u), ar_source = or_default (column (raw_query u)) (author u),
      ar_raw = update_to_dict u\<rparr>"

text \<open>\<open>ON CONFLICT\<close>: everything is overwritten, a translation and a caption only by a text that is not empty.\<close>

definition merge_archive :: "archive_row \<Rightarrow> archive_row \<Rightarrow> archive_row" where
  "merge_archive new old = new\<lparr>ar_id := ar_id old, ar_translated := or_default (ar_translated new) (ar_translated old),
     ar_caption := or_default (ar_caption new) (ar_caption old)\<rparr>"

definition fts_entry :: "archive_row \<Rightarrow> fts_row" where
  "fts_entry r = \<lparr>ft_id = ar_id r, ft_text = ar_text r, ft_translated = ar_translated r,
     ft_caption = ar_caption r, ft_author = ar_author r, ft_author_name = ar_author_name r,
     ft_source = ar_source r, ft_category = ar_category r, ft_event_title = ar_event_title r\<rparr>"

section \<open>Writing\<close>

definition refresh_fts :: "pystr \<Rightarrow> archive_index \<Rightarrow> archive_index" where
  "refresh_fts i s = s\<lparr>ai_fts := filter (\<lambda>f. ft_id f \<noteq> i) (ai_fts s) @
     map fts_entry (filter (\<lambda>r. ar_id r = i) (ai_records s))\<rparr>"

text \<open>\<open>json.dumps\<close> raises \<open>TypeError\<close> before anything is written.\<close>

definition index_update :: "update \<Rightarrow> pystr \<Rightarrow> pystr \<Rightarrow> archive_index \<Rightarrow> (py_exc + archive_index) option" where
  "index_update u translated cap s =
     (if \<not> serializable (JObj (update_to_dict u)) then Some (Inl TypeError)
      else if \<not> indexable u then None
      else (let r = archive_entry u translated cap
            in Some (Inr (refresh_fts (upd_id u)
                 (s\<lparr>ai_records := upsert ar_id r (merge_archive r) (ai_records s)\<rparr>)))))"

definition update_caption :: "pystr \<Rightarrow> pystr \<Rightarrow> archive_index \<Rightarrow> archive_index" where
  "update_caption i cap s =
     (if cap = [] then s
      else refresh_fts i (s\<lparr>ai_records := update_where (\<lambda>r. ar_id r = i) (\<lambda>r. r\<lparr>ar_caption := cap\<rparr>) (ai_records s)\<rparr>))"

text \<open>
  \<open>sync_from_json\<close>: entries whose key is indexed already are skipped, as are entries the
  constructor rejects with \<open>TypeError\<close> or \<open>ValueError\<close>; another exception ends the synchronisation
  with what was committed before. The ids are read once, at the start.
\<close>

fun sync_entries :: "pyenv \<Rightarrow> instant \<Rightarrow> pystr set \<Rightarrow> pydict \<Rightarrow> nat \<Rightarrow> archive_index \<Rightarrow>
    ((py_exc + nat) \<times> archive_index) option" where
  "sync_entries pe now existing [] n s = Some (Inr n, s)"
| "sync_entries pe now existing ((i, v) # rest) n s =
     (case (if i \<in> existing then None else obj_fields v) of
        None \<Rightarrow> sync_entries pe now existing rest n s
      | Some raw \<Rightarrow>
          (case update_from_dict pe now raw of
             Inl e \<Rightarrow> if caught e then sync_entries pe now existing rest n s else Some (Inl e, s)
           | Inr u \<Rightarrow>
               (case index_update u [] [] s of
                  None \<Rightarrow> None
                | Some (Inl e) \<Rightarrow> Some (Inl e, s)
                | Some (Inr t) \<Rightarrow> sync_entries pe now existing rest (Suc n) t)))"

definition sync_from_json :: "pyenv \<Rightarrow> instant \<Rightarrow> json \<Rightarrow> archive_index \<Rightarrow> ((py_exc + nat) \<times> archive_index) option" where
  "sync_from_json pe now v s = (case v of
       JObj d \<Rightarrow> sync_entries pe now (ar_id ` set (ai_records s)) d 0 s
     | _ \<Rightarrow> Some (Inr 0, s))"

text \<open>
  The captions of the drafts. \<open>total_changes\<close> grows when a statement changes a row: the record's
  update, the deletion from and the insertion into the full-text table.
\<close>

definition caption_changes :: "pystr \<Rightarrow> archive_index \<Rightarrow> bool" where
  "caption_changes i s \<longleftrightarrow> (\<exists>r \<in> set (ai_records s). ar_id r = i) \<or> (\<exists>f \<in> set (ai_fts s). ft_id f = i)"

text \<open>A caption or an update id that is no text is outside the model.\<close>

definition caption_step :: "json \<Rightarrow> archive_index \<times> nat \<Rightarrow> (archive_index \<times> nat) option" where
  "caption_step v p = (let (s, n) = p in
     case obj_fields v of
       None \<Rightarrow> Some p
     | Some raw \<Rightarrow>
         (case draft_from_dict raw of
            Inl e \<Rightarrow> Some p
          | Inr d \<Rightarrow>
              if \<not> truthy (caption d) then Some p
              else (case (plain_text (dr_update_id d), plain_text (caption d)) of
                      (Some i, Some cap) \<Rightarrow>
                        Some (update_caption i cap s, if caption_changes i s then Suc n else n)
                    | _ \<Rightarrow> None)))"

fun sync_captions :: "json list \<Rightarrow> archive_index \<times> nat \<Rightarrow> (archive_index \<times> nat) option" where
  "sync_captions [] p = Some p"
| "sync_captions (v # vs) p = Option.bind (caption_step v p) (sync_captions vs)"

definition sync_drafts :: "json \<Rightarrow> archive_index \<Rightarrow> (archive_index \<times> nat) option" where
  "sync_drafts v s = (case v of JObj d \<Rightarrow> sync_captions (map snd d) (s, 0) | _ \<Rightarrow> Some (s, 0))"

definition rebuild_index :: "pyenv \<Rightarrow> instant \<Rightarrow> json \<Rightarrow> archive_index \<Rightarrow> ((py_exc + nat) \<times> archive_index) option" where
  "rebuild_index pe now v s = sync_from_json pe now v empty_index"

section \<open>Reading\<close>

definition indexed_update :: "pyenv \<Rightarrow> instant \<Rightarrow> pystr \<Rightarrow> archive_index \<Rightarrow> py_exc + update option" where
  "indexed_update pe now i s = (case row_by ar_id i (ai_records s) of
       None \<Rightarrow> Inr None
     | Some r \<Rightarrow> bindE (update_from_dict pe now (ar_raw r)) (\<lambda>u. Inr (Some u)))"

fun decode_rows :: "pyenv \<Rightarrow> instant \<Rightarrow> archive_row list \<Rightarrow> py_exc + update list" where
  "decode_rows pe now [] = Inr []"
| "decode_rows pe now (r # rs) =
     bindE (update_from_dict pe now (ar_raw r)) (\<lambda>u. bindE (decode_rows pe now rs) (\<lambda>us. Inr (u # us)))"

text \<open>
  The whole window in order, read to its end as the callers do; the bounds are compared as text.
\<close>

definition window_rows :: "instant \<Rightarrow> instant \<Rightarrow> archive_index \<Rightarrow> archive_row list" where
  "window_rows start until s =
     sort_key (\<lambda>r. (ar_created r, ar_id r))
       (filter (\<lambda>r. isoformat start \<le> ar_created r \<and> ar_created r < isoformat until) (ai_records s))"

definition date_window :: "pyenv \<Rightarrow> instant \<Rightarrow> instant \<Rightarrow> instant \<Rightarrow> archive_index \<Rightarrow> py_exc + update list" where
  "date_window pe now start until s = decode_rows pe now (window_rows start until s)"

text \<open>
  \<open>_fts_query\<close>: the words of the text, of at least two characters and at most twenty of them, each
  quoted and with a prefix star. \<open>word_char\<close> is the class of the pattern in Latin-1 text.
\<close>

definition word_char :: "char \<Rightarrow> bool" where "word_char c \<longleftrightarrow> alnum c \<or> c = CHR ''_''"

function word_runs :: "pystr \<Rightarrow> pystr list" where
  "word_runs s = (let r = dropWhile (\<lambda>c. \<not> word_char c) s in
     if r = [] then [] else takeWhile word_char r # word_runs (dropWhile word_char r))"
  by pat_completeness auto

termination
proof (relation "measure length")
  fix s r assume r: "r = dropWhile (\<lambda>c. \<not> word_char c) s" "r \<noteq> []"
  then have "word_char (hd r)" using hd_dropWhile by metis
  with r(2) have "length (dropWhile word_char r) < length r"
    by (cases r) (auto intro: le_less_trans [OF length_dropWhile_le])
  moreover have "length r \<le> length s" using r(1) by (simp add: length_dropWhile_le)
  ultimately show "(dropWhile word_char r, s) \<in> measure length" by simp
qed simp

declare word_runs.simps [simp del]

definition dquote :: char where "dquote = char_of (34 :: nat)"

definition query_words :: "pystr \<Rightarrow> pystr list" where
  "query_words s = take 20 (filter (\<lambda>w. 1 < length w) (word_runs s))"

definition fts_term :: "pystr \<Rightarrow> pystr" where
  "fts_term w = dquote # filter (\<lambda>c. c \<noteq> dquote) w @ [dquote, CHR ''*'']"

fun join_and :: "pystr list \<Rightarrow> pystr" where
  "join_and [] = []"
| "join_and [t] = t"
| "join_and (t # u # r) = t @ '' AND '' @ join_and (u # r)"

definition fts_query :: "pystr \<Rightarrow> pystr" where
  "fts_query s = join_and (map fts_term (query_words s))"

text \<open>
  \<open>search\<close>: with words the rows FTS5 matches, best rank first and then newest first, otherwise all
  rows newest first; rows that do not decode are left out, an \<open>AttributeError\<close> escapes. A
  database error answers with no rows.
\<close>

fun decode_found :: "pyenv \<Rightarrow> instant \<Rightarrow> archive_row list \<Rightarrow> py_exc + update list" where
  "decode_found pe now [] = Inr []"
| "decode_found pe now (r # rs) = (case update_from_dict pe now (ar_raw r) of
       Inl e \<Rightarrow> if caught e then decode_found pe now rs else Inl e
     | Inr u \<Rightarrow> bindE (decode_found pe now rs) (\<lambda>us. Inr (u # us)))"

definition in_bounds :: "instant option \<Rightarrow> instant option \<Rightarrow> archive_row \<Rightarrow> bool" where
  "in_bounds start until r \<longleftrightarrow> (case start of None \<Rightarrow> True | Some t \<Rightarrow> isoformat t \<le> ar_created r) \<and>
     (case until of None \<Rightarrow> True | Some t \<Rightarrow> ar_created r < isoformat t)"

text \<open>Newest first: a stable descending sort on the text of the time.\<close>

definition newest_first :: "archive_row list \<Rightarrow> archive_row list" where
  "newest_first rs = rev (sort_key ar_created (rev rs))"

definition search_index :: "(fts_row list \<Rightarrow> pystr \<Rightarrow> fts_row \<Rightarrow> nat option) \<Rightarrow> pyenv \<Rightarrow> instant \<Rightarrow> pystr \<Rightarrow>
    instant option \<Rightarrow> instant option \<Rightarrow> int \<Rightarrow> archive_index \<Rightarrow> py_exc + update list" where
  "search_index rank pe now query start until limit s =
     (let n = nat (max 1 (min limit 500)); q = fts_query query;
          hits = [(k, r). f \<leftarrow> ai_fts s, k \<leftarrow> (case rank (ai_fts s) q f of None \<Rightarrow> [] | Some k \<Rightarrow> [k]),
                  r \<leftarrow> ai_records s, ar_id r = ft_id f];
          rows = (if q = [] then newest_first (filter (in_bounds start until) (ai_records s))
                  else map snd (sort_key fst (rev (sort_key (\<lambda>h. ar_created (snd h))
                    (rev (filter (\<lambda>h. in_bounds start until (snd h)) hits))))))
      in decode_found pe now (take n rows))"


section \<open>Backup\<close>

text \<open>
  \<open>archive_backup.py\<close>: one JSON object per line after a header. A line is blank, broken, or the
  value it parses to.
\<close>

datatype backup_line = Blank | Broken | Value json

definition backup_format :: pystr where "backup_format = ''jeonghan-private-archive-jsonl-v1''"

definition backup_record :: "archive_row \<Rightarrow> backup_line" where
  "backup_record r = Value (JObj [(''update'', JObj (ar_raw r)), (''translated_text'', JStr (ar_translated r)),
     (''caption'', JStr (ar_caption r))])"

fun export_rows :: "pyenv \<Rightarrow> instant \<Rightarrow> archive_row list \<Rightarrow> py_exc + backup_line list" where
  "export_rows pe now [] = Inr []"
| "export_rows pe now (r # rs) = (case update_from_dict pe now (ar_raw r) of
       Inl e \<Rightarrow> if caught e then export_rows pe now rs else Inl e
     | Inr u \<Rightarrow> bindE (export_rows pe now rs) (\<lambda>ls. Inr (backup_record r # ls)))"

definition export_archive :: "pyenv \<Rightarrow> instant \<Rightarrow> archive_index \<Rightarrow> py_exc + backup_line list" where
  "export_archive pe now s =
     bindE (export_rows pe now (sort_key (\<lambda>r. (ar_created r, ar_id r)) (ai_records s))) (\<lambda>ls.
       Inr (Value (JObj [(''format'', JStr backup_format)]) # ls))"

text \<open>\<open>str(record.get(key) or "")\<close> and what a line holds; \<open>None\<close> is a bad record.\<close>

definition line_update :: "backup_line \<Rightarrow> (pydict \<times> pydict) option" where
  "line_update l = (case l of
       Value (JObj d) \<Rightarrow> (case map_of d ''update'' of Some (JObj raw) \<Rightarrow> Some (d, raw) | _ \<Rightarrow> None)
     | _ \<Rightarrow> None)"

text \<open>A post the index model does not cover ends the model of the import with \<open>None\<close>.\<close>

fun import_lines :: "pyenv \<Rightarrow> instant \<Rightarrow> backup_line list \<Rightarrow> nat \<times> nat \<Rightarrow> archive_index \<Rightarrow>
    ((py_exc + (nat \<times> nat)) \<times> archive_index) option" where
  "import_lines pe now [] n s = Some (Inr n, s)"
| "import_lines pe now (l # ls) n s =
     (if l = Blank then import_lines pe now ls n s
      else case line_update l of
        None \<Rightarrow> import_lines pe now ls (fst n, Suc (snd n)) s
      | Some (d, raw) \<Rightarrow>
          (case update_from_dict pe now raw of
             Inl e \<Rightarrow> if caught e then import_lines pe now ls (fst n, Suc (snd n)) s else Some (Inl e, s)
           | Inr u \<Rightarrow>
               (case index_update u (or_text pe (dict_get d ''translated_text'' JNull)) (or_text pe (dict_get d ''caption'' JNull)) s of
                  None \<Rightarrow> None
                | Some (Inl e) \<Rightarrow> import_lines pe now ls (fst n, Suc (snd n)) s
                | Some (Inr t) \<Rightarrow> import_lines pe now ls (Suc (fst n), snd n) t)))"

definition import_archive :: "pyenv \<Rightarrow> instant \<Rightarrow> backup_line list \<Rightarrow> archive_index \<Rightarrow>
    ((py_exc + (nat \<times> nat)) \<times> archive_index) option" where
  "import_archive pe now file s = (case file of
       Value (JObj h) # ls \<Rightarrow>
         if dict_get h ''format'' JNull = JStr backup_format then import_lines pe now ls (0, 0) s
         else Some (Inl ValueError, s)
     | _ \<Rightarrow> Some (Inl ValueError, s))"

section \<open>The full-text table mirrors the records\<close>

definition mirror :: "archive_index \<Rightarrow> bool" where
  "mirror s \<longleftrightarrow> unique_on ar_id (ai_records s) \<and> unique_on ft_id (ai_fts s) \<and>
     set (ai_fts s) = fts_entry ` set (ai_records s)"

lemma fts_entry_id [simp]: "ft_id (fts_entry r) = ar_id r"
  by (simp add: fts_entry_def)

lemma archive_entry_simps [simp]:
  "ar_id (archive_entry u t c) = upd_id u" "ar_raw (archive_entry u t c) = update_to_dict u"
  "ar_created (archive_entry u t c) = isoformat (created_at u)" "ar_caption (archive_entry u t c) = c"
  "ar_translated (archive_entry u t c) = t"
  by (simp_all add: archive_entry_def)

lemma merge_entry:
  "ar_id old = upd_id u \<Longrightarrow> merge_archive (archive_entry u t c) old =
     archive_entry u (or_default t (ar_translated old)) (or_default c (ar_caption old))"
  by (simp add: merge_archive_def archive_entry_def)

lemma merge_archive_id [simp]: "ar_id (merge_archive r old) = ar_id old"
  by (simp add: merge_archive_def)

lemma refresh_mirror:
  assumes "unique_on ar_id (ai_records s)" "unique_on ft_id (ai_fts s)"
    and "\<And>f. f \<in> set (ai_fts s) \<Longrightarrow> ft_id f \<noteq> i \<Longrightarrow> \<exists>r \<in> set (ai_records s). f = fts_entry r"
    and "\<And>r. r \<in> set (ai_records s) \<Longrightarrow> ar_id r \<noteq> i \<Longrightarrow> fts_entry r \<in> set (ai_fts s)"
  shows "mirror (refresh_fts i s)"
proof -
  have "unique_on ft_id (map fts_entry (filter (\<lambda>r. ar_id r = i) (ai_records s)))"
    using assms(1) by (simp add: unique_on_def comp_def distinct_map inj_on_def)
  then have "unique_on ft_id (ai_fts (refresh_fts i s))"
    using assms(2) by (auto simp: refresh_fts_def unique_on_def distinct_map inj_on_def)
  moreover have "set (ai_fts (refresh_fts i s)) = fts_entry ` set (ai_records s)"
    using assms(3,4) by (fastforce simp: refresh_fts_def)
  ultimately show ?thesis using assms(1) by (simp add: mirror_def refresh_fts_def)
qed

lemma in_table: "unique_on key t \<Longrightarrow> x \<in> set t \<longleftrightarrow> row_by key (key x) t = Some x"
  by (auto dest: row_by_Some simp: row_by_unique)

lemma caption_id: "ar_id (r\<lparr>ar_caption := c\<rparr>) = ar_id r"
  by simp

text \<open>The two writes of a record: what other records and the full-text rows of others look like.\<close>

lemma write_mirror:
  assumes "mirror s" "unique_on ar_id rs" "\<And>r. ar_id r \<noteq> i \<Longrightarrow> r \<in> set rs \<longleftrightarrow> r \<in> set (ai_records s)"
  shows "mirror (refresh_fts i (s\<lparr>ai_records := rs\<rparr>))"
proof (rule refresh_mirror)
  fix f assume "f \<in> set (ai_fts (s\<lparr>ai_records := rs\<rparr>))" "ft_id f \<noteq> i"
  with assms(1) obtain r where "r \<in> set (ai_records s)" "f = fts_entry r" "ar_id r \<noteq> i"
    by (auto simp: mirror_def)
  with assms(3) show "\<exists>r \<in> set (ai_records (s\<lparr>ai_records := rs\<rparr>)). f = fts_entry r" by auto
qed (use assms in \<open>auto simp: mirror_def\<close>)

lemma upsert_others:
  assumes "unique_on ar_id t" "ar_id x \<noteq> ar_id r"
  shows "x \<in> set (upsert ar_id r (merge_archive r) t) \<longleftrightarrow> x \<in> set t"
  using assms in_table [OF upsert_unique [of ar_id "merge_archive r" t r], of x] in_table [OF assms(1), of x]
  by (simp add: row_by_upsert)

lemma index_update_mirror:
  assumes "mirror s" "index_update u t c s = Some (Inr s')"
  shows "mirror s'"
proof -
  let ?r = "archive_entry u t c"
  have s': "s' = refresh_fts (upd_id u) (s\<lparr>ai_records := upsert ar_id ?r (merge_archive ?r) (ai_records s)\<rparr>)"
    using assms(2) by (auto simp: index_update_def Let_def split: if_splits)
  have "unique_on ar_id (ai_records s)" using assms(1) by (simp add: mirror_def)
  with assms(1) show ?thesis
    unfolding s' by (intro write_mirror) (simp_all add: upsert_unique upsert_others)
qed

lemma update_caption_mirror: "mirror s \<Longrightarrow> mirror (update_caption i c s)"
proof (cases "c = []")
  case False
  assume m: "mirror s"
  then have "unique_on ar_id (update_where (\<lambda>r. ar_id r = i) (\<lambda>r. r\<lparr>ar_caption := c\<rparr>) (ai_records s))"
    by (intro update_where_unique) (simp_all add: mirror_def)
  then have "mirror (refresh_fts i (s\<lparr>ai_records := update_where (\<lambda>r. ar_id r = i) (\<lambda>r. r\<lparr>ar_caption := c\<rparr>) (ai_records s)\<rparr>))"
    by (rule write_mirror [OF m]) (auto simp: set_update_where)
  with False show ?thesis by (simp add: update_caption_def)
qed (simp add: update_caption_def)

lemma sync_entries_mirror:
  "mirror s \<Longrightarrow> sync_entries pe now ex d n s = Some (r, t) \<Longrightarrow> mirror t"
proof (induction d arbitrary: n s)
  case (Cons e rest)
  obtain i v where e: "e = (i, v)" by (cases e)
  show ?case
  proof (cases "if i \<in> ex then None else obj_fields v")
    case None
    with Cons e show ?thesis by simp
  next
    case (Some raw)
    show ?thesis
    proof (cases "update_from_dict pe now raw")
      case (Inl x)
      with Cons e Some show ?thesis by (auto split: if_splits)
    next
      case (Inr u)
      with Cons.prems e Some consider x where "t = s" "index_update u [] [] s = Some (Inl x)"
        | s' where "index_update u [] [] s = Some (Inr s')" "sync_entries pe now ex rest (Suc n) s' = Some (r, t)"
        by (auto split: option.splits sum.splits)
      then show ?thesis
      proof cases
        case 2
        with Cons.IH [OF index_update_mirror [OF Cons.prems(1) 2(1)]] show ?thesis by blast
      qed (use Cons.prems in simp)
    qed
  qed
qed simp

lemma empty_mirror: "mirror empty_index"
  by (simp add: mirror_def empty_index_def)

lemma sync_mirror: "mirror s \<Longrightarrow> sync_from_json pe now v s = Some (r, t) \<Longrightarrow> mirror t"
  by (auto simp: sync_from_json_def split: json.splits dest: sync_entries_mirror)

lemma sync_captions_mirror: "mirror (fst p) \<Longrightarrow> sync_captions vs p = Some q \<Longrightarrow> mirror (fst q)"
proof (induction vs arbitrary: p)
  case (Cons v vs)
  from Cons.prems(2) obtain p' where p': "caption_step v p = Some p'" "sync_captions vs p' = Some q"
    by (auto simp: bind_eq_Some_conv)
  obtain s n where "p = (s, n)" by (cases p)
  with Cons.prems(1) p'(1) have "mirror (fst p')"
    by (auto simp: caption_step_def update_caption_mirror split: option.splits sum.splits if_splits)
  then show ?case using p'(2) by (rule Cons.IH)
qed simp

datatype index_op =
    IndexUpdate update pystr pystr
  | UpdateCaption pystr pystr
  | SyncJson instant json
  | SyncDrafts json
  | RebuildIndex instant json

text \<open>The index after a call; a call the model does not cover is no step.\<close>

fun index_step :: "pyenv \<Rightarrow> index_op \<Rightarrow> archive_index \<Rightarrow> archive_index" where
  "index_step pe (IndexUpdate u t c) s = (case index_update u t c s of Some (Inr s') \<Rightarrow> s' | _ \<Rightarrow> s)"
| "index_step pe (UpdateCaption i c) s = update_caption i c s"
| "index_step pe (SyncJson now v) s = (case sync_from_json pe now v s of Some (r, t) \<Rightarrow> t | None \<Rightarrow> s)"
| "index_step pe (SyncDrafts v) s = (case sync_drafts v s of Some (t, n) \<Rightarrow> t | None \<Rightarrow> s)"
| "index_step pe (RebuildIndex now v) s = (case rebuild_index pe now v s of Some (r, t) \<Rightarrow> t | None \<Rightarrow> s)"

interpretation index: invariant_machine "index_step pe" mirror for pe
proof
  fix s op assume m: "mirror s"
  show "mirror (index_step pe op s)"
  proof (cases op)
    case (SyncDrafts v)
    with m sync_captions_mirror [of "(s, 0)"] show ?thesis
      by (auto simp: sync_drafts_def split: option.split json.split)
  qed (use m in \<open>auto simp: rebuild_index_def update_caption_mirror empty_mirror
      split: option.split sum.split dest: index_update_mirror sync_mirror sync_mirror [OF empty_mirror]\<close>)
qed


section \<open>The posts of an index\<close>

text \<open>The last version of every post that was indexed.\<close>

fun latest :: "update list \<Rightarrow> update list" where
  "latest [] = []"
| "latest (u # us) = (if upd_id u \<in> upd_id ` set us then latest us else u # latest us)"

definition filed_as :: "(pystr \<Rightarrow> pystr) \<Rightarrow> (pystr \<Rightarrow> pystr) \<Rightarrow> update \<Rightarrow> archive_row" where
  "filed_as T C u = archive_entry u (T (upd_id u)) (C (upd_id u))"

lemma filed_simps [simp]:
  "ar_id (filed_as T C u) = upd_id u" "ar_raw (filed_as T C u) = update_to_dict u"
  "ar_created (filed_as T C u) = isoformat (created_at u)"
  "ar_translated (filed_as T C u) = T (upd_id u)" "ar_caption (filed_as T C u) = C (upd_id u)"
  by (simp_all add: filed_as_def)

lemma latest_subset: "set (latest us) \<subseteq> set us"
  by (induction us) auto

lemma latest_ids: "upd_id ` set (latest us) = upd_id ` set us"
  by (induction us) auto

lemma latest_distinct: "distinct (map upd_id (latest us))"
proof (induction us)
  case (Cons u us)
  have "upd_id ` set (latest us) \<subseteq> upd_id ` set us" using latest_subset by blast
  with Cons show ?case by auto
qed simp

lemma latest_snoc: "latest (us @ [u]) = filter (\<lambda>v. upd_id v \<noteq> upd_id u) (latest us) @ [u]"
  by (induction us) (auto simp: image_iff)

text \<open>A post that can be indexed.\<close>

definition plain_post :: "update \<Rightarrow> bool" where
  "plain_post u \<longleftrightarrow> sound_post u \<and> indexable u \<and> serializable (JObj (update_to_dict u))"

definition index_posts :: "pyenv \<Rightarrow> (update \<times> pystr \<times> pystr) list \<Rightarrow> archive_index \<Rightarrow> archive_index" where
  "index_posts pe ps = fold (index_step pe) (map (\<lambda>(u, t, c). IndexUpdate u t c) ps)"

lemma upsert_filed:
  assumes "distinct (map upd_id vs)"
  shows "\<exists>T' C' ws. upsert ar_id (archive_entry u t c) (merge_archive (archive_entry u t c)) (map (filed_as T C) vs) =
    map (filed_as T' C') ws \<and> distinct (map upd_id ws) \<and>
    set ws = insert u {v \<in> set vs. upd_id v \<noteq> upd_id u}"
proof (cases "upd_id u \<in> upd_id ` set vs")
  case False
  let ?T = "T(upd_id u := t)" and ?C = "C(upd_id u := c)"
  have "map (filed_as T C) vs @ [archive_entry u t c] = map (filed_as ?T ?C) (vs @ [u])"
    using False by (auto simp: filed_as_def image_iff)
  moreover have "distinct (map upd_id (vs @ [u]))" using False assms by auto
  moreover have "set (vs @ [u]) = insert u {v \<in> set vs. upd_id v \<noteq> upd_id u}" using False by (auto simp: image_iff)
  moreover have "upsert ar_id (archive_entry u t c) (merge_archive (archive_entry u t c)) (map (filed_as T C) vs) =
      map (filed_as T C) vs @ [archive_entry u t c]"
    using False by (auto simp: upsert_def)
  ultimately show ?thesis by metis
next
  case True
  let ?i = "upd_id u"
  let ?T = "T(?i := or_default t (T ?i))" and ?C = "C(?i := or_default c (C ?i))"
  let ?ws = "map (\<lambda>v. if upd_id v = ?i then u else v) vs"
  have ids: "map upd_id ?ws = map upd_id vs" by auto
  have rows: "update_where (\<lambda>x. ar_id x = ?i) (merge_archive (archive_entry u t c)) (map (filed_as T C) vs) = map (filed_as ?T ?C) ?ws"
    unfolding update_where_def map_map comp_def
  proof (rule map_cong [OF refl])
    fix v
    show "(if ar_id (filed_as T C v) = ?i then merge_archive (archive_entry u t c) (filed_as T C v) else filed_as T C v) =
        filed_as ?T ?C (if upd_id v = ?i then u else v)"
    proof (cases "upd_id v = ?i")
      case True
      then have "merge_archive (archive_entry u t c) (filed_as T C v) = archive_entry u (or_default t (T ?i)) (or_default c (C ?i))"
        by (simp add: merge_entry)
      with True show ?thesis by (simp add: filed_as_def [of ?T])
    qed (simp add: filed_as_def)
  qed
  have "?i \<in> set (map ar_id (map (filed_as T C) vs))" using True by (auto simp: image_image)
  with rows have "upsert ar_id (archive_entry u t c) (merge_archive (archive_entry u t c)) (map (filed_as T C) vs) =
      map (filed_as ?T ?C) ?ws"
    unfolding upsert_def archive_entry_simps by (simp only: if_True)
  moreover have "distinct (map upd_id ?ws)" using assms unfolding ids .
  moreover have "set ?ws = insert u {v \<in> set vs. upd_id v \<noteq> ?i}" using True by auto
  ultimately show ?thesis by (intro exI [of _ ?T] exI [of _ ?C] exI [of _ ?ws] conjI)
qed

lemma index_posts_records:
  assumes "\<forall>(u, t, c) \<in> set ps. plain_post u"
  shows "\<exists>T C vs. ai_records (index_posts pe ps empty_index) = map (filed_as T C) vs \<and>
    distinct (map upd_id vs) \<and> set vs = set (latest (map fst ps))"
  using assms
proof (induction ps rule: rev_induct)
  case Nil
  then show ?case by (simp add: index_posts_def empty_index_def)
next
  case (snoc p ps)
  obtain u t c where p: "p = (u, t, c)" by (cases p)
  from snoc obtain T C vs where ih: "ai_records (index_posts pe ps empty_index) = map (filed_as T C) vs"
    "distinct (map upd_id vs)" "set vs = set (latest (map fst ps))" by auto
  let ?s = "index_posts pe ps empty_index"
  have "ai_records (index_posts pe (ps @ [p]) empty_index) =
      upsert ar_id (archive_entry u t c) (merge_archive (archive_entry u t c)) (ai_records ?s)"
    using snoc.prems p by (simp add: index_posts_def index_update_def Let_def refresh_fts_def plain_post_def)
  with upsert_filed [OF ih(2), of u t c T C] ih(1,3) show ?case by (simp add: latest_snoc p)
qed

section \<open>The window of the index is the window of the posts\<close>

lemma insort_key_order:
  "(\<And>x y. x \<in> insert a (set xs) \<Longrightarrow> y \<in> insert a (set xs) \<Longrightarrow> f x \<le> f y \<longleftrightarrow> g x \<le> g y) \<Longrightarrow> insort_key f a xs = insort_key g a xs"
  by (induction xs) auto

lemma sort_key_order:
  "(\<And>x y. x \<in> set xs \<Longrightarrow> y \<in> set xs \<Longrightarrow> f x \<le> f y \<longleftrightarrow> g x \<le> g y) \<Longrightarrow> sort_key f xs = sort_key g xs"
proof (induction xs)
  case (Cons a xs)
  then have "sort_key f xs = sort_key g xs" by simp
  moreover have "insort_key f a (sort_key g xs) = insort_key g a (sort_key g xs)"
    by (rule insort_key_order) (use Cons.prems in auto)
  ultimately show ?case by (simp add: sort_key_def)
qed simp

lemma insort_key_map: "insort_key f (h a) (map h xs) = map h (insort_key (f \<circ> h) a xs)"
  by (induction xs) auto

lemma sort_key_map: "sort_key f (map h xs) = map h (sort_key (f \<circ> h) xs)"
proof (induction xs)
  case (Cons a xs)
  then show ?case by (simp only: sort_key_simps list.map insort_key_map)
qed simp

lemma decode_filed: "\<forall>u \<in> set us. sound_post u \<Longrightarrow> decode_rows pe now (map (filed_as T C) us) = Inr us"
  by (induction us) (simp_all add: sound_round_trip)

lemma created_order:
  assumes "valid_instant (created_at u)" "valid_instant (created_at v)"
  shows "(isoformat (created_at u), upd_id u) \<le> (isoformat (created_at v), upd_id v) \<longleftrightarrow>
    (created_at u, upd_id u) \<le> (created_at v, upd_id v)"
  using isoformat_order(1,2) [OF assms] isoformat_order(1,2) [OF assms(2,1)] by (auto simp: less_eq_prod_def)

definition in_window :: "instant \<Rightarrow> instant \<Rightarrow> update \<Rightarrow> bool" where
  "in_window start until u \<longleftrightarrow> start \<le> created_at u \<and> created_at u < until"

lemma date_window_posts:
  assumes "ai_records s = map (filed_as T C) vs" "\<forall>u \<in> set vs. sound_post u" "valid_instant a" "valid_instant b"
  shows "date_window pe now a b s = Inr (sort_key (\<lambda>u. (created_at u, upd_id u)) (filter (in_window a b) vs))"
proof -
  have valid: "valid_instant (created_at u)" if "u \<in> set vs" for u using assms(2) that by (simp add: sound_post_def)
  have "filter (\<lambda>r. isoformat a \<le> ar_created r \<and> ar_created r < isoformat b) (ai_records s) =
      map (filed_as T C) (filter (in_window a b) vs)"
    unfolding assms(1) filter_map comp_def
    by (intro arg_cong [where f = "map (filed_as T C)"] filter_cong)
      (simp_all add: in_window_def isoformat_order assms(3,4) valid)
  then have "window_rows a b s = map (filed_as T C)
      (sort_key (\<lambda>u. (isoformat (created_at u), upd_id u)) (filter (in_window a b) vs))"
    by (simp add: window_rows_def sort_key_map comp_def)
  also have "sort_key (\<lambda>u. (isoformat (created_at u), upd_id u)) (filter (in_window a b) vs) =
      sort_key (\<lambda>u. (created_at u, upd_id u)) (filter (in_window a b) vs)"
    by (rule sort_key_order, rule created_order) (simp_all add: valid)
  finally show ?thesis using assms(2) by (simp add: date_window_def decode_filed)
qed


lemma sort_key_same:
  assumes "distinct xs" "distinct ys" "set xs = set ys" "inj_on k (set ys)"
  shows "sort_key k xs = sort_key k ys"
proof (rule sort_key_inj_key_eq)
  show "mset xs = mset (sort_key k ys)" using assms(1-3) by (simp add: set_eq_iff_mset_eq_distinct)
qed (use assms(3,4) in auto)

lemma distinct_ids: "distinct (map upd_id us) \<Longrightarrow> distinct us \<and> inj_on upd_id (set us)"
  by (simp add: distinct_map)

lemma window_of_posts:
  assumes "\<forall>(u, t, c) \<in> set ps. plain_post u" "valid_instant a" "valid_instant b"
  shows "date_window pe now a b (index_posts pe ps empty_index) =
    Inr (sort_key (\<lambda>u. (created_at u, upd_id u)) (filter (in_window a b) (latest (map fst ps))))"
proof -
  let ?us = "latest (map fst ps)"
  obtain T C vs where vs: "ai_records (index_posts pe ps empty_index) = map (filed_as T C) vs"
    "distinct (map upd_id vs)" "set vs = set ?us" using index_posts_records [OF assms(1)] by blast
  have "\<forall>u \<in> set vs. sound_post u"
    using assms(1) vs(3) latest_subset [of "map fst ps"] by (fastforce simp: plain_post_def)
  from date_window_posts [OF vs(1) this assms(2,3)] have
    "date_window pe now a b (index_posts pe ps empty_index) = Inr (sort_key (\<lambda>u. (created_at u, upd_id u)) (filter (in_window a b) vs))" .
  also have "sort_key (\<lambda>u. (created_at u, upd_id u)) (filter (in_window a b) vs) =
      sort_key (\<lambda>u. (created_at u, upd_id u)) (filter (in_window a b) ?us)"
  proof (rule sort_key_same)
    show "inj_on (\<lambda>u. (created_at u, upd_id u)) (set (filter (in_window a b) ?us))"
      using distinct_ids [OF latest_distinct [of "map fst ps"]] by (auto simp: inj_on_def)
  qed (use vs(3) distinct_ids [OF vs(2)] distinct_ids [OF latest_distinct [of "map fst ps"]] in auto)
  finally show ?thesis .
qed

text \<open>A synchronisation of the posts of an archive indexes them one by one.\<close>

definition archived :: "update list \<Rightarrow> pydict" where
  "archived us = map (\<lambda>u. (upd_id u, JObj (update_to_dict u))) us"

lemma sync_archived:
  assumes "\<forall>u \<in> set us. plain_post u \<and> upd_id u \<notin> ex"
  shows "sync_entries pe now ex (archived us) n s =
    Some (Inr (n + length us), index_posts pe (map (\<lambda>u. (u, [], [])) us) s)"
  using assms
proof (induction us arbitrary: n s)
  case (Cons u us)
  then have u: "update_from_dict pe now (update_to_dict u) = Inr u" by (simp add: plain_post_def sound_round_trip)
  have "\<exists>t. index_update u [] [] s = Some (Inr t)"
    using Cons.prems by (simp add: index_update_def plain_post_def Let_def)
  then obtain t where t: "index_update u [] [] s = Some (Inr t)" by blast
  with Cons u show ?case by (simp add: archived_def index_posts_def)
qed (simp add: archived_def index_posts_def)

lemma latest_all: "distinct (map upd_id us) \<Longrightarrow> latest us = us"
  by (induction us) auto

section \<open>The backup of an index\<close>

lemma export_filed:
  "\<forall>u \<in> set us. sound_post u \<Longrightarrow> export_rows pe now (map (filed_as T C) us) = Inr (map (\<lambda>x. backup_record (filed_as T C x)) us)"
  by (induction us) (simp_all add: sound_round_trip)

lemma or_text_str [simp]: "or_text pe (JStr t) = t"
  by (simp add: or_text_def)

lemma import_filed:
  assumes "\<forall>u \<in> set us. plain_post u" "distinct (map upd_id us)" "upd_id ` set us \<inter> ar_id ` set (ai_records s) = {}"
  shows "\<exists>t. import_lines pe now (map (\<lambda>x. backup_record (filed_as T C x)) us) n s = Some (Inr (fst n + length us, snd n), t) \<and>
    ai_records t = ai_records s @ map (filed_as T C) us"
  using assms
proof (induction us arbitrary: n s)
  case (Cons u us)
  let ?r = "filed_as T C u"
  have l: "line_update (backup_record ?r) = Some ([(''update'', JObj (update_to_dict u)), (''translated_text'', JStr (T (upd_id u))),
      (''caption'', JStr (C (upd_id u)))], update_to_dict u)" "backup_record ?r \<noteq> Blank"
    by (simp_all add: backup_record_def line_update_def)
  have u: "update_from_dict pe now (update_to_dict u) = Inr u" using Cons.prems(1) by (simp add: plain_post_def sound_round_trip)
  let ?t = "refresh_fts (upd_id u) (s\<lparr>ai_records := upsert ar_id ?r (merge_archive ?r) (ai_records s)\<rparr>)"
  have i: "index_update u (T (upd_id u)) (C (upd_id u)) s = Some (Inr ?t)"
    using Cons.prems(1) by (simp add: index_update_def plain_post_def Let_def filed_as_def)
  have t: "ai_records ?t = ai_records s @ [?r]"
    using Cons.prems(3) by (auto simp: refresh_fts_def upsert_def)
  have "upd_id ` set us \<inter> ar_id ` set (ai_records ?t) = {}"
    using Cons.prems(2,3) unfolding t by auto
  moreover have "\<forall>v \<in> set us. plain_post v" "distinct (map upd_id us)" using Cons.prems(1,2) by simp_all
  ultimately obtain t' where "import_lines pe now (map (\<lambda>x. backup_record (filed_as T C x)) us) (Suc (fst n), snd n) ?t =
      Some (Inr (Suc (fst n) + length us, snd n), t')" "ai_records t' = ai_records ?t @ map (filed_as T C) us"
    using Cons.IH [of ?t "(Suc (fst n), snd n)"] unfolding fst_conv snd_conv by blast
  with l u i t show ?case by (simp add: dict_get_def)
qed simp

section \<open>Properties\<close>

text \<open>
  C12: The window of the index is exact: whatever posts were indexed, in any order and again, with
  translations and captions or without, \<open>date_window\<close> returns exactly the last version of every
  post with \<open>start <= created_at < end\<close>, oldest first and by id within an instant, although the
  table compares timestamps as text.
\<close>

theorem window_exact:
  assumes "\<forall>(u, t, c) \<in> set ps. plain_post u" "valid_instant a" "valid_instant b"
  shows "date_window pe now a b (index_posts pe ps empty_index) =
    Inr (sort_key (\<lambda>u. (created_at u, upd_id u)) (filter (in_window a b) (latest (map fst ps))))"
  by (rule window_of_posts [OF assms])

lemma demo_plain: "t \<in> {10, 40} \<Longrightarrow> plain_post (demo_post i ''hello'' t ''9'')"
  by (auto simp: plain_post_def sound_post_def demo_post_def wf_update_def reloadable_def valid_instant_def
      us_per_day_def py_strip_def py_space_def py_lstrip_at_def indexable_def text_columns_def update_to_dict_def)

theorem window_exact_witness:
  "date_window demo_env 0 0 20 (index_posts demo_env [(demo_post ''1'' ''hello'' 10 ''9'', ''a'', []),
     (demo_post ''2'' ''hello'' 40 ''9'', [], ''b'')] empty_index) =
   Inr (sort_key (\<lambda>u. (created_at u, upd_id u)) (filter (in_window 0 20) (latest
     (map fst [(demo_post ''1'' ''hello'' 10 ''9'', ''a'' :: pystr, [] :: pystr), (demo_post ''2'' ''hello'' 40 ''9'', [], ''b'')]))))"
  by (rule window_exact) (simp_all add: demo_plain valid_instant_def us_per_day_def)

text \<open>
  The index can be rebuilt from the state file: after \<open>rebuild\<close> from an archive of posts, each
  under its own id, the index has every one of them, and the window of the rebuilt index is the
  window of the archive.
\<close>

theorem rebuilt_index_complete:
  assumes "\<forall>u \<in> set us. plain_post u" "distinct (map upd_id us)" "valid_instant a" "valid_instant b"
  shows "\<exists>t. rebuild_index pe now (JObj (archived us)) s = Some (Inr (length us), t) \<and>
    date_window pe now a b t = Inr (sort_key (\<lambda>u. (created_at u, upd_id u)) (filter (in_window a b) us)) \<and>
    ar_id ` set (ai_records t) = upd_id ` set us"
proof -
  let ?ps = "map (\<lambda>u. (u, [], [])) us"
  let ?t = "index_posts pe ?ps empty_index"
  have ps: "\<forall>(u, t, c) \<in> set ?ps. plain_post u" "map fst ?ps = us" using assms(1) by (auto simp: comp_def)
  have "rebuild_index pe now (JObj (archived us)) s = Some (Inr (length us), ?t)"
    using sync_archived [of us "{}" pe now 0 empty_index] assms(1)
    by (simp add: rebuild_index_def sync_from_json_def) (simp add: empty_index_def)
  moreover have "date_window pe now a b ?t = Inr (sort_key (\<lambda>u. (created_at u, upd_id u)) (filter (in_window a b) us))"
    using window_of_posts [OF ps(1) assms(3,4), of pe now] unfolding ps(2) latest_all [OF assms(2)] .
  moreover obtain T C vs where "ai_records ?t = map (filed_as T C) vs" "set vs = set us"
    using index_posts_records [OF ps(1), of pe] unfolding ps(2) latest_all [OF assms(2)] by blast
  then have "ar_id ` set (ai_records ?t) = upd_id ` set us" by (auto simp: image_image)
  ultimately show ?thesis by blast
qed

theorem rebuilt_index_complete_witness:
  "\<exists>t. rebuild_index demo_env 0 (JObj (archived demo_both)) empty_index = Some (Inr 2, t) \<and>
     ar_id ` set (ai_records t) = {''1'', ''2''}"
  using rebuilt_index_complete [of demo_both 0 20 demo_env 0 empty_index] demo_plain
  by (auto simp: demo_post_def valid_instant_def us_per_day_def)

text \<open>
  Whatever operations ran, the full-text table has exactly one row per record, with the columns
  of that record, so a search joins every match with the record it belongs to.
\<close>

theorem index_in_step:
  "unique_on ar_id (ai_records (fold (index_step pe) ops empty_index)) \<and>
   unique_on ft_id (ai_fts (fold (index_step pe) ops empty_index)) \<and>
   set (ai_fts (fold (index_step pe) ops empty_index)) = fts_entry ` set (ai_records (fold (index_step pe) ops empty_index))"
  using index.run_inv [OF empty_mirror, of pe ops] unfolding mirror_def .


text \<open>
  C28: Export and import: the backup of an index of posts, imported into an empty index, restores every
  record with its translation and caption, ordered by time, and skips none.
\<close>

theorem backup_round_trip:
  assumes "\<forall>(u, t, c) \<in> set ps. plain_post u"
  shows "\<exists>file n t. export_archive pe now (index_posts pe ps empty_index) = Inr file \<and>
    import_archive pe later file empty_index = Some (Inr (n, 0), t) \<and> n = length (ai_records t) \<and>
    set (ai_records t) = set (ai_records (index_posts pe ps empty_index))"
proof -
  obtain T C vs where vs: "ai_records (index_posts pe ps empty_index) = map (filed_as T C) vs"
    "distinct (map upd_id vs)" "set vs = set (latest (map fst ps))" using index_posts_records [OF assms] by blast
  let ?k = "(\<lambda>r. (ar_created r, ar_id r)) \<circ> filed_as T C"
  let ?ws = "sort_key ?k vs"
  have plain: "\<forall>u \<in> set ?ws. plain_post u"
    using assms vs(3) latest_subset [of "map fst ps"] by fastforce
  have ids: "distinct (map upd_id ?ws)" using vs(2) by (simp add: distinct_map)
  have "export_archive pe now (index_posts pe ps empty_index) =
      Inr (Value (JObj [(''format'', JStr backup_format)]) # map (\<lambda>x. backup_record (filed_as T C x)) ?ws)"
    using plain export_filed [of ?ws pe now T C]
    by (simp add: export_archive_def vs(1) sort_key_map plain_post_def del: set_sort)
  moreover obtain t where t: "import_lines pe later (map (\<lambda>x. backup_record (filed_as T C x)) ?ws) (0, 0) empty_index =
      Some (Inr (length ?ws, 0), t)" "ai_records t = map (filed_as T C) ?ws"
    using import_filed [OF plain ids, of empty_index pe later T C "(0, 0)"] by (auto simp: empty_index_def)
  moreover from t(1) have "import_archive pe later (Value (JObj [(''format'', JStr backup_format)]) #
      map (\<lambda>x. backup_record (filed_as T C x)) ?ws) empty_index = Some (Inr (length ?ws, 0), t)"
    by (simp add: import_archive_def dict_get_def)
  moreover have "length ?ws = length (ai_records t)" "set (ai_records t) = set (ai_records (index_posts pe ps empty_index))"
    unfolding t(2) vs(1) by simp_all
  ultimately show ?thesis by blast
qed

theorem backup_round_trip_witness:
  "\<exists>file n t. export_archive demo_env 0 (index_posts demo_env [(demo_post ''1'' ''hello'' 10 ''9'', ''a'', ''b'')] empty_index) = Inr file \<and>
     import_archive demo_env 5 file empty_index = Some (Inr (n, 0), t) \<and> n = length (ai_records t) \<and>
     set (ai_records t) = set (ai_records (index_posts demo_env [(demo_post ''1'' ''hello'' 10 ''9'', ''a'', ''b'')] empty_index))"
  by (rule backup_round_trip) (simp add: demo_plain)

text \<open>
  An import replaces what the index already holds: the row of an id takes the text, time
  and source of the backup, whatever was stored (only a translation and a caption survive an empty
  one), although the import says it replaces nothing.
\<close>

theorem import_replaces_rows:
  assumes "plain_post old" "plain_post new" "upd_id old = upd_id new"
  shows "\<exists>t. import_archive pe now [Value (JObj [(''format'', JStr backup_format)]), backup_record (archive_entry old [] [])]
      (index_posts pe [(new, [], [])] empty_index) = Some (Inr (1, 0), t) \<and>
    indexed_update pe now (upd_id new) t = Inr (Some old)"
proof -
  let ?s = "index_posts pe [(new, [], [])] empty_index"
  have s: "ai_records ?s = [archive_entry new [] []]"
    using assms(2) by (simp add: index_posts_def index_update_def plain_post_def Let_def refresh_fts_def upsert_def empty_index_def)
  have u: "update_from_dict pe now (update_to_dict old) = Inr old" using assms(1) by (simp add: plain_post_def sound_round_trip)
  let ?r = "archive_entry old [] []"
  let ?t = "refresh_fts (upd_id old) (?s\<lparr>ai_records := upsert ar_id ?r (merge_archive ?r) (ai_records ?s)\<rparr>)"
  have "index_update old [] [] ?s = Some (Inr ?t)"
    using assms(1) by (simp add: index_update_def plain_post_def Let_def)
  moreover have "ai_records ?t = [?r]"
    using assms(3) by (simp add: refresh_fts_def s upsert_def merge_entry) (simp add: or_default_def)
  ultimately show ?thesis
    using u assms(3) by (simp add: import_archive_def dict_get_def backup_record_def line_update_def indexed_update_def)
qed

theorem import_replaces_rows_witness:
  "\<exists>t. import_archive demo_env 0 [Value (JObj [(''format'', JStr backup_format)]),
      backup_record (archive_entry (demo_post ''1'' ''hello'' 10 ''9'') [] [])]
      (index_posts demo_env [(demo_post ''1'' ''hello'' 40 ''9'', [], [])] empty_index) = Some (Inr (1, 0), t) \<and>
    indexed_update demo_env 0 ''1'' t = Inr (Some (demo_post ''1'' ''hello'' 10 ''9''))"
  using import_replaces_rows [of "demo_post ''1'' ''hello'' 10 ''9''" "demo_post ''1'' ''hello'' 40 ''9''" demo_env 0]
    demo_plain by (simp add: demo_post_def)

end
