(* ===== verification/DateRequests.thy ===== *)
theory DateRequests
  imports ArchiveIndex
begin

text \<open>
  \<open>app/date_requests.py\<close>: resumable requests for the posts of a day. A job collects one source
  per wake, selects from what was observed, delivers one post per wake and reports; the jobs are
  part of the durable state. Times are kept as instants (the job stores their ISO text, which
  theory \<open>PyTime\<close> reads back exactly) and notices as their delivery keys. What the collector and
  the delivery do in a wake, the clock and the time zone computation behind a day are arguments.
  Text is Latin-1, so the Korean, Japanese and Persian words of the patterns are absent.
\<close>

section \<open>Jobs\<close>

datatype job_status = Collecting | Delivering | JobComplete | JobPartial | TranslationPending

datatype source_cover = CoverComplete | CoverPartial | CoverDisabled | CoverFailed pystr

record date_job =
  j_day :: pystr
  j_zone :: pystr
  j_topic :: pystr
  j_source :: pystr
  j_start :: instant
  j_end :: instant
  j_status :: job_status
  j_pending :: "pystr list"
  j_coverage :: "(pystr \<times> source_cover) list"
  j_observed :: "pystr list"
  j_selected :: "pystr list"
  j_delivered :: "pystr list"
  j_attempts :: "(pystr \<times> nat) list"
  j_generation :: nat
  j_local :: bool
  j_retry :: "instant option"
  j_provisional :: bool

text \<open>What a step works on: the bot's state, the index, the keyed notices that went out, and its job.\<close>

record work =
  w_state :: state_data
  w_index :: archive_index
  w_notices :: "pystr list"
  w_job :: date_job

record date_app =
  d_state :: state_data
  d_index :: archive_index
  d_notices :: "pystr list"
  d_jobs :: "(pystr \<times> date_job) list"
  d_checked :: "instant option"
  d_accepted :: "pystr list"
  d_bridge_error :: "pystr option"
  d_last_error :: "pystr option"

text \<open>The configuration, and the hashes and calendar the requests use.\<close>

record date_env =
  de_cs :: "source_config list"
  de_pe :: pyenv
  de_sha :: "pystr \<Rightarrow> pystr"
  de_short :: "pystr \<Rightarrow> pystr"
  de_zone :: pystr
  de_window :: "pystr \<Rightarrow> (instant \<times> instant) option"
  de_bridge :: bool

text \<open>
  What the world answers in one step: the collector with its errors, the author search, whether
  there are cookies, whether a keyed notice can be sent, and the delivery, which changes state and
  index. An exception is the name of its class.
\<close>

record step_world =
  sw_now :: instant
  sw_late :: instant
  sw_collect :: "pystr \<Rightarrow> instant \<Rightarrow> instant \<Rightarrow> pystr + (update list \<times> pystr list)"
  sw_search :: "pystr \<Rightarrow> instant \<Rightarrow> instant \<Rightarrow> (update list) option"
  sw_cookies :: bool
  sw_send :: "pystr \<Rightarrow> bool"
  sw_deliver :: "pystr \<Rightarrow> update list \<Rightarrow> state_data \<times> archive_index \<Rightarrow> pystr option \<times> state_data \<times> archive_index"

text \<open>An action: the exception that escaped, if any, and the work it left. \<open>None\<close>: not covered.\<close>

type_synonym act = "(pystr option \<times> work) option"

definition bindA :: "act \<Rightarrow> (work \<Rightarrow> act) \<Rightarrow> act" where
  "bindA m f = (case m of Some (None, w) \<Rightarrow> f w | _ \<Rightarrow> m)"

definition on_job :: "(date_job \<Rightarrow> date_job) \<Rightarrow> work \<Rightarrow> work" where
  "on_job f w = w\<lparr>w_job := f (w_job w)\<rparr>"

section \<open>Selecting posts\<close>

text \<open>\<open>\b word \b\<close> in any case, the alternatives of \<open>LIVE\<close> and \<open>BIRTHDAY\<close>.\<close>

definition word_at :: "pystr \<Rightarrow> char option \<Rightarrow> pystr \<Rightarrow> bool" where
  "word_at w before_c s \<longleftrightarrow> py_lower (take (length w) s) = w \<and>
     (case before_c of None \<Rightarrow> True | Some c \<Rightarrow> \<not> word_char c) \<and>
     (case drop (length w) s of [] \<Rightarrow> True | c # _ \<Rightarrow> \<not> word_char c)"

fun finds_word :: "pystr list \<Rightarrow> char option \<Rightarrow> pystr \<Rightarrow> bool" where
  "finds_word ws b [] = list_ex (\<lambda>w. word_at w b []) ws"
| "finds_word ws b (c # s) = (list_ex (\<lambda>w. word_at w b (c # s)) ws \<or> finds_word ws (Some c) s)"

definition live_text_found :: "pystr \<Rightarrow> bool" where
  "live_text_found s \<longleftrightarrow> finds_word [''live''] None s"

definition birthday_found :: "pystr \<Rightarrow> bool" where
  "birthday_found s \<longleftrightarrow> finds_word [''birthday'', ''bday'', ''b day'', ''b-day''] None s"

definition birthday_live :: pystr where "birthday_live = ''birthday_live''"

text \<open>The text of a post; the posts come from \<open>configured_only\<close>, whose texts are text.\<close>

definition source_text :: "pyenv \<Rightarrow> update \<Rightarrow> pystr" where
  "source_text pe u = (case translation_source pe u of Inr t \<Rightarrow> t | Inl e \<Rightarrow> [])"

definition is_seed :: "pyenv \<Rightarrow> pystr \<Rightarrow> update \<Rightarrow> bool" where
  "is_seed pe topic u \<longleftrightarrow> live_text_found (source_text pe u) \<and>
     (topic = birthday_live \<longrightarrow> birthday_found (source_text pe u))"

definition post_key :: "update \<Rightarrow> pystr \<times> pystr" where
  "post_key u = (py_casefold (author u), upd_id u)"

definition thread_key :: "update \<Rightarrow> pystr \<times> pystr" where
  "thread_key u = (py_casefold (author u), conversation_id u)"

definition parent_key :: "update \<Rightarrow> pystr \<times> pystr" where
  "parent_key u = (py_casefold (author u), jtext (reply_to_id u))"

definition children_of :: "update list \<Rightarrow> pystr \<times> pystr \<Rightarrow> (pystr \<times> pystr) list" where
  "children_of us k = map post_key (filter (\<lambda>u. jtext (reply_to_id u) \<noteq> [] \<and> parent_key u = k) us)"

text \<open>
  The work list: the last key is taken, its replies that are new are included and appended.
  The order in which Python lists the initial set does not matter for the result.
\<close>

definition fresh_keys :: "(pystr \<times> pystr) list \<Rightarrow> (pystr \<times> pystr) list \<Rightarrow> (pystr \<times> pystr) list" where
  "fresh_keys inc ks = foldl (\<lambda>acc k. if k \<in> set inc \<or> k \<in> set acc then acc else acc @ [k]) [] ks"

lemma fresh_keys_spec:
  "distinct (fresh_keys inc ks)" "set (fresh_keys inc ks) = set ks - set inc"
proof -
  have "distinct acc \<Longrightarrow> distinct (foldl (\<lambda>acc k. if k \<in> set inc \<or> k \<in> set acc then acc else acc @ [k]) acc ks) \<and>
      set (foldl (\<lambda>acc k. if k \<in> set inc \<or> k \<in> set acc then acc else acc @ [k]) acc ks) = set acc \<union> (set ks - set inc)" for acc
    by (induction ks arbitrary: acc) auto
  from this [of "[]"] show "distinct (fresh_keys inc ks)" "set (fresh_keys inc ks) = set ks - set inc"
    by (simp_all add: fresh_keys_def)
qed

function follow_replies :: "update list \<Rightarrow> (pystr \<times> pystr) list \<Rightarrow> (pystr \<times> pystr) list \<Rightarrow> (pystr \<times> pystr) list" where
  "follow_replies us inc queue =
     (if queue = [] then inc
      else let new = fresh_keys inc (children_of us (last queue))
           in follow_replies us (inc @ new) (butlast queue @ new))"
  by pat_completeness auto

termination
proof (relation "(\<lambda>(us, inc, queue). card (post_key ` set us - set inc)) <*mlex*> measure (\<lambda>(us, inc, queue). length queue)")
  show "wf ((\<lambda>(us :: update list, inc, queue :: (pystr \<times> pystr) list). card (post_key ` set us - set inc)) <*mlex*>
      measure (\<lambda>(us, inc, queue). length queue))"
    by (intro wf_mlex wf_measure)
next
  fix us :: "update list" and inc queue new :: "(pystr \<times> pystr) list"
  assume q: "queue \<noteq> []" and new: "new = fresh_keys inc (children_of us (last queue))"
  have sub: "set new \<subseteq> post_key ` set us - set inc"
    unfolding new fresh_keys_spec(2) by (auto simp: children_of_def)
  show "((us, inc @ new, butlast queue @ new), us, inc, queue) \<in>
      (\<lambda>(us, inc, queue). card (post_key ` set us - set inc)) <*mlex*> measure (\<lambda>(us, inc, queue). length queue)"
  proof (cases "new = []")
    case True
    with q show ?thesis by (simp add: mlex_prod_def)
  next
    case False
    then have "post_key ` set us - set (inc @ new) \<subset> post_key ` set us - set inc" using sub by (cases new) auto
    then have "card (post_key ` set us - set (inc @ new)) < card (post_key ` set us - set inc)"
      by (rule psubset_card_mono [rotated]) simp
    then show ?thesis by (intro mlex_less) simp
  qed
qed

declare follow_replies.simps [simp del]

definition thread_start :: "pyenv \<Rightarrow> pystr \<Rightarrow> update list \<Rightarrow> (pystr \<times> pystr) list" where
  "thread_start pe topic us = remdups (map post_key
     (filter (\<lambda>u. thread_key u \<in> thread_key ` set (filter (is_seed pe topic) us)) us))"

text \<open>One post per id: a later one takes the place of the earlier, then the order of time and id.\<close>

definition by_id :: "update list \<Rightarrow> update list" where
  "by_id us = map snd (fold (\<lambda>u. AList.update (upd_id u) u) us [])"

definition select_updates :: "pyenv \<Rightarrow> update list \<Rightarrow> pystr \<Rightarrow> update list" where
  "select_updates pe us topic =
     (let vs = map (\<lambda>u. u\<lparr>category := JStr (detect_category u)\<rparr>) us;
          start = thread_start pe topic vs;
          ws = (if topic = ''live'' \<or> topic = birthday_live
                then filter (\<lambda>u. post_key u \<in> set (follow_replies vs start start)) vs else vs)
      in sort_key (\<lambda>u. (created_at u, upd_id u)) (by_id ws))"

section \<open>Collecting\<close>

definition observe :: "update \<Rightarrow> work \<Rightarrow> act" where
  "observe u w = (case index_update u [] [] (w_index w) of
       None \<Rightarrow> None
     | Some (Inl e) \<Rightarrow> Some (Some (exc_name e), w)
     | Some (Inr t) \<Rightarrow> Some (None, w\<lparr>w_index := t, w_state := archive_put u (w_state w),
         w_job := (w_job w)\<lparr>j_observed := (if upd_id u \<in> set (j_observed (w_job w)) then j_observed (w_job w)
           else j_observed (w_job w) @ [upd_id u])\<rparr>\<rparr>))"

fun observe_all :: "update list \<Rightarrow> work \<Rightarrow> act" where
  "observe_all [] w = Some (None, w)"
| "observe_all (u # us) w = bindA (observe u w) (observe_all us)"

text \<open>The archive of the state; a row that is no object is not covered.\<close>

fun archive_posts :: "pyenv \<Rightarrow> instant \<Rightarrow> json list \<Rightarrow> (py_exc + update list) option" where
  "archive_posts pe now [] = Some (Inr [])"
| "archive_posts pe now (JObj d # vs) = (case update_from_dict pe now d of
       Inl e \<Rightarrow> Some (Inl e)
     | Inr u \<Rightarrow> map_option (\<lambda>r. bindE r (\<lambda>us. Inr (u # us))) (archive_posts pe now vs))"
| "archive_posts pe now (_ # vs) = None"

definition from_source :: "date_job \<Rightarrow> update \<Rightarrow> bool" where
  "from_source j u \<longleftrightarrow> j_source j = [] \<or> py_casefold (author u) = py_casefold (j_source j)"

definition load_local :: "date_env \<Rightarrow> step_world \<Rightarrow> work \<Rightarrow> act" where
  "load_local de wd w =
     (let j = w_job w in
      if j_local j then Some (None, w)
      else (case date_window (de_pe de) (sw_now wd) (j_start j) (j_end j) (w_index w) of
          Inl e \<Rightarrow> Some (Some (exc_name e), w)
        | Inr us \<Rightarrow>
            (case archive_posts (de_pe de) (sw_now wd) (map snd (archive (w_state w))) of
               None \<Rightarrow> None
             | Some (Inl e) \<Rightarrow> Some (Some (exc_name e), w)
             | Some (Inr vs) \<Rightarrow>
                 (case configured_only (de_cs de) (us @ filter (in_window (j_start j) (j_end j)) vs) of
                    None \<Rightarrow> None
                  | Some ps \<Rightarrow> bindA (observe_all (filter (from_source j) ps) w)
                      (\<lambda>v. Some (None, on_job (\<lambda>j. j\<lparr>j_local := True\<rparr>) v))))))"

definition enabled_keys :: "source_config list \<Rightarrow> pystr list" where
  "enabled_keys cs = map (\<lambda>c. py_casefold (normalize_handle (src_handle c))) (enabled_sources cs)"

definition cover :: "pystr \<Rightarrow> source_cover \<Rightarrow> work \<Rightarrow> work" where
  "cover h c = on_job (\<lambda>j. j\<lparr>j_coverage := AList.update h c (j_coverage j)\<rparr>)"

definition mine :: "pystr \<Rightarrow> date_job \<Rightarrow> update \<Rightarrow> bool" where
  "mine h j u \<longleftrightarrow> py_casefold (author u) = py_casefold h \<and> in_window (j_start j) (j_end j) u"

definition observe_mine :: "date_env \<Rightarrow> pystr \<Rightarrow> update list \<Rightarrow> work \<Rightarrow> act" where
  "observe_mine de h us w = (case configured_only (de_cs de) us of
       None \<Rightarrow> None | Some ps \<Rightarrow> observe_all (filter (mine h (w_job w)) ps) w)"

text \<open>A failed collection is recorded, and the author search may still add observations.\<close>

definition recover_search :: "date_env \<Rightarrow> step_world \<Rightarrow> pystr \<Rightarrow> pystr \<Rightarrow> work \<Rightarrow> act" where
  "recover_search de wd h e w =
     (let v = cover h (CoverFailed e) w; j = w_job w in
      if \<not> (sw_cookies wd \<and> py_casefold h \<in> set (enabled_keys (de_cs de))) then Some (None, v)
      else (case sw_search wd h (j_start j) (j_end j) of
          None \<Rightarrow> Some (None, v)
        | Some us \<Rightarrow>
            (case observe_mine de h us v of
               None \<Rightarrow> None
             | Some (Some x, v') \<Rightarrow> Some (None, v')
             | Some (None, v') \<Rightarrow> Some (None, cover h CoverPartial v'))))"

definition cover_source :: "date_env \<Rightarrow> step_world \<Rightarrow> pystr \<Rightarrow> work \<Rightarrow> act" where
  "cover_source de wd h w =
     (if py_casefold h \<notin> set (enabled_keys (de_cs de)) then Some (None, cover h CoverDisabled w)
      else (case sw_collect wd h (j_start (w_job w)) (j_end (w_job w)) of
          Inl e \<Rightarrow> recover_search de wd h e w
        | Inr (us, errs) \<Rightarrow>
            (case observe_mine de h us w of
               None \<Rightarrow> None
             | Some (Some e, v) \<Rightarrow> recover_search de wd h e v
             | Some (None, v) \<Rightarrow> Some (None, cover h (if errs = [] then CoverComplete else CoverPartial) v))))"

definition collect_one :: "date_env \<Rightarrow> step_world \<Rightarrow> work \<Rightarrow> act" where
  "collect_one de wd w = bindA (cover_source de wd (hd (j_pending (w_job w))) w)
     (\<lambda>v. Some (None, on_job (\<lambda>j. j\<lparr>j_pending := tl (j_pending j)\<rparr>) v))"

section \<open>Delivering\<close>

definition job_update :: "date_env \<Rightarrow> instant \<Rightarrow> pystr \<Rightarrow> work \<Rightarrow> py_exc + update option" where
  "job_update de now i w = bindE (get_update (de_pe de) now i (w_state w)) (\<lambda>r. case r of
       Some u \<Rightarrow> Inr (Some u)
     | None \<Rightarrow> indexed_update (de_pe de) now i (w_index w))"

fun job_updates :: "date_env \<Rightarrow> instant \<Rightarrow> pystr list \<Rightarrow> work \<Rightarrow> py_exc + update list" where
  "job_updates de now [] w = Inr []"
| "job_updates de now (i # is) w = bindE (job_update de now i w) (\<lambda>r.
     bindE (job_updates de now is w) (\<lambda>us. Inr (case r of None \<Rightarrow> us | Some u \<Rightarrow> u # us)))"

definition notice_key :: "pystr \<Rightarrow> pystr \<Rightarrow> pystr" where
  "notice_key k what = ''date-request:'' @ k @ '':'' @ what"

text \<open>A notice with a delivery key; a message that was sent before under its key is not sent again.\<close>

definition notify :: "step_world \<Rightarrow> pystr \<Rightarrow> work \<Rightarrow> act" where
  "notify wd key w =
     (if key \<in> set (w_notices w) then Some (None, w)
      else if sw_send wd key then Some (None, w\<lparr>w_notices := w_notices w @ [key]\<rparr>)
      else Some (Some ''TelegramError'', w))"

definition begin_delivery :: "date_env \<Rightarrow> step_world \<Rightarrow> pystr \<Rightarrow> work \<Rightarrow> act" where
  "begin_delivery de wd k w =
     (let j = w_job w in
      case job_updates de (sw_now wd) (j_observed j) w of
        Inl e \<Rightarrow> Some (Some (exc_name e), w)
      | Inr us \<Rightarrow>
          (case configured_only (de_cs de) (filter (from_source j) us) of
             None \<Rightarrow> None
           | Some ps \<Rightarrow>
               notify wd (notice_key k (''overview:'' @ nat_text (j_generation j)))
                 (on_job (\<lambda>j. j\<lparr>j_selected := map upd_id (select_updates (de_pe de) ps (j_topic j)),
                    j_status := Delivering\<rparr>) w)))"

definition draft_delivered :: "date_env \<Rightarrow> pystr \<Rightarrow> pystr \<Rightarrow> state_data \<Rightarrow> bool" where
  "draft_delivered de k i st =
     (case get_draft (de_short de (''request:'' @ k @ '':'' @ i)) st of
        None \<Rightarrow> False
      | Some d \<Rightarrow> truthy (telegram_message_id d) \<and> mode d \<noteq> JStr ''manual_review'')"

definition remaining :: "date_job \<Rightarrow> pystr list" where
  "remaining j = filter (\<lambda>i. i \<notin> set (j_delivered j)) (j_selected j)"

definition tries :: "date_job \<Rightarrow> pystr \<Rightarrow> nat" where
  "tries j i = (case map_of (j_attempts j) i of None \<Rightarrow> 0 | Some n \<Rightarrow> n)"

definition after_attempt :: "date_env \<Rightarrow> step_world \<Rightarrow> pystr \<Rightarrow> pystr \<Rightarrow> work \<Rightarrow> act" where
  "after_attempt de wd k i w =
     (if draft_delivered de k i (w_state w)
      then Some (None, on_job (\<lambda>j. j\<lparr>j_delivered := j_delivered j @ [i], j_retry := None\<rparr>) w)
      else (let n = Suc (tries (w_job w) i);
                v = on_job (\<lambda>j. j\<lparr>j_attempts := AList.update i n (j_attempts j),
                      j_retry := Some (sw_late wd + minutes (min 30 (2 ^ n)))\<rparr>) w
            in if 3 \<le> n
               then notify wd (notice_key k ''translation-pending'') (on_job (\<lambda>j. j\<lparr>j_status := TranslationPending\<rparr>) v)
               else Some (None, v)))"

definition deliver_one :: "date_env \<Rightarrow> step_world \<Rightarrow> pystr \<Rightarrow> work \<Rightarrow> act" where
  "deliver_one de wd k w =
     (let j = w_job w; i = hd (remaining j) in
      case job_update de (sw_now wd) i w of
        Inl e \<Rightarrow> Some (Some (exc_name e), w)
      | Inr None \<Rightarrow> Some (None, on_job (\<lambda>j. j\<lparr>j_status := JobPartial\<rparr>) w)
      | Inr (Some u) \<Rightarrow>
          (let drop = Some (None, cover (author u) CoverDisabled
                 (on_job (\<lambda>j. j\<lparr>j_selected := remove1 i (j_selected j)\<rparr>) w))
           in if \<not> from_source j u then drop
              else (case configured_only (de_cs de) [u] of
                  None \<Rightarrow> None
                | Some [] \<Rightarrow> drop
                | Some ps \<Rightarrow>
                    (case sw_deliver wd k ps (w_state w, w_index w) of
                       (Some e, st, ix) \<Rightarrow> Some (Some e, w\<lparr>w_state := st, w_index := ix\<rparr>)
                     | (None, st, ix) \<Rightarrow> after_attempt de wd k i (w\<lparr>w_state := st, w_index := ix\<rparr>)))))"

definition all_covered :: "date_job \<Rightarrow> bool" where
  "all_covered j \<longleftrightarrow> j_coverage j \<noteq> [] \<and> (\<forall>(h, c) \<in> set (j_coverage j). c = CoverComplete)"

definition finish_job :: "step_world \<Rightarrow> pystr \<Rightarrow> work \<Rightarrow> act" where
  "finish_job wd k w =
     (let open_day = sw_late wd < j_end (w_job w);
          v = on_job (\<lambda>j. j\<lparr>j_provisional := open_day,
                j_status := (if all_covered j \<and> \<not> open_day then JobComplete else JobPartial)\<rparr>) w;
          j = w_job v
      in notify wd (notice_key k (''finished:'' @ nat_text (j_generation j) @ '':'' @ nat_text (length (j_delivered j)))) v)"

definition handle_job :: "date_env \<Rightarrow> step_world \<Rightarrow> pystr \<Rightarrow> work \<Rightarrow> act" where
  "handle_job de wd k w = bindA (load_local de wd w) (\<lambda>v.
     if j_pending (w_job v) \<noteq> [] then collect_one de wd v
     else bindA (if j_status (w_job v) = Collecting then begin_delivery de wd k v else Some (None, v)) (\<lambda>x.
       if remaining (w_job x) \<noteq> [] then deliver_one de wd k x else finish_job wd k x))"

section \<open>A wake\<close>

definition live_job :: "date_job \<Rightarrow> bool" where
  "live_job j \<longleftrightarrow> j_status j = Collecting \<or> j_status j = Delivering"

definition due_job :: "instant \<Rightarrow> date_job \<Rightarrow> bool" where
  "due_job now j \<longleftrightarrow> live_job j \<and> (case j_retry j of None \<Rightarrow> True | Some t \<Rightarrow> t \<le> now)"

text \<open>Requests for one source come first and hold back all others.\<close>

definition source_jobs :: "(pystr \<times> date_job) list \<Rightarrow> (pystr \<times> date_job) list" where
  "source_jobs js = filter (\<lambda>(k, j). j_source j \<noteq> [] \<and> live_job j) js"

definition next_job :: "instant \<Rightarrow> (pystr \<times> date_job) list \<Rightarrow> (pystr \<times> date_job) option" where
  "next_job now js = find (\<lambda>(k, j). due_job now j) (if source_jobs js \<noteq> [] then source_jobs js else js)"

definition put_work :: "pystr \<Rightarrow> work \<Rightarrow> date_app \<Rightarrow> date_app" where
  "put_work k w a = a\<lparr>d_state := w_state w, d_index := w_index w, d_notices := w_notices w,
     d_jobs := AList.update k (w_job w) (d_jobs a)\<rparr>"

definition date_step :: "date_env \<Rightarrow> step_world \<Rightarrow> date_app \<Rightarrow> (pystr option \<times> date_app) option" where
  "date_step de wd a = (case next_job (sw_now wd) (d_jobs a) of
       None \<Rightarrow> Some (None, a)
     | Some (k, j) \<Rightarrow>
         map_option (\<lambda>(e, w). (e, put_work k w a))
           (handle_job de wd k \<lparr>w_state = d_state a, w_index = d_index a, w_notices = d_notices a, w_job = j\<rparr>))"

text \<open>The steps of one wake, at most five and as many as fit into its time: an exception ends it.\<close>

fun date_steps :: "date_env \<Rightarrow> step_world list \<Rightarrow> date_app \<Rightarrow> date_app option" where
  "date_steps de [] a = Some a"
| "date_steps de (wd # wds) a = (case date_step de wd a of
       None \<Rightarrow> None
     | Some (Some e, b) \<Rightarrow> Some (b\<lparr>d_last_error := Some e\<rparr>)
     | Some (None, b) \<Rightarrow> date_steps de wds b)"

section \<open>Asking\<close>

text \<open>\<open>list(dict.fromkeys(...))\<close>: the first of equal entries stays.\<close>

definition first_copies :: "'a list \<Rightarrow> 'a list" where
  "first_copies xs = rev (remdups (rev xs))"

definition enabled_handles :: "source_config list \<Rightarrow> pystr list" where
  "enabled_handles cs = first_copies (map (\<lambda>c. normalize_handle (src_handle c)) (enabled_sources cs))"

definition request_key :: "date_env \<Rightarrow> pystr \<Rightarrow> pystr \<Rightarrow> pystr \<Rightarrow> pystr \<Rightarrow> pystr" where
  "request_key de day topic src ext = take 20 (de_sha de
     (day @ '':'' @ de_zone de @ '':'' @ topic @ '':'' @ py_casefold src @ '':'' @ ext))"

definition topic_known :: "pystr \<Rightarrow> bool" where
  "topic_known t \<longleftrightarrow> t \<in> {''all'', ''live'', birthday_live}"

definition fresh_job :: "date_env \<Rightarrow> pystr \<Rightarrow> pystr \<Rightarrow> pystr \<Rightarrow> instant \<Rightarrow> instant \<Rightarrow> pystr list \<Rightarrow> date_job" where
  "fresh_job de day topic src start until handles =
     \<lparr>j_day = day, j_zone = de_zone de, j_topic = topic, j_source = src, j_start = start, j_end = until,
      j_status = Collecting, j_pending = handles, j_coverage = [], j_observed = [], j_selected = [],
      j_delivered = [], j_attempts = [], j_generation = 1, j_local = False, j_retry = None, j_provisional = False\<rparr>"

text \<open>A finished request that is asked for again starts a new sweep and keeps its receipts.\<close>

definition refresh_job :: "pystr list \<Rightarrow> date_job \<Rightarrow> date_job" where
  "refresh_job handles j =
     (if live_job j then j
      else j\<lparr>j_generation := Suc (j_generation j), j_pending := handles, j_coverage := [], j_observed := [],
        j_selected := [], j_local := False, j_status := Collecting, j_retry := None\<rparr>)"

definition accepted_handles :: "date_env \<Rightarrow> pystr \<Rightarrow> pystr list" where
  "accepted_handles de src = (if src = [] then enabled_handles (de_cs de) else [src])"

text \<open>
  \<open>enqueue\<close>: the job that is put, \<open>None\<close> where a \<open>ValueError\<close> is raised. The acknowledgement is
  sent where one is asked for; the new job stays when it cannot be sent.
\<close>

definition plan_request :: "date_env \<Rightarrow> instant \<Rightarrow> pystr \<Rightarrow> pystr \<Rightarrow> pystr \<Rightarrow> pystr \<Rightarrow> (pystr \<times> date_job) list \<Rightarrow>
    (pystr \<times> date_job) option" where
  "plan_request de now day topic ext source jobs = (case de_window de day of
       None \<Rightarrow> None
     | Some (start, until) \<Rightarrow>
         (let src = (if source = [] then [] else normalize_handle source);
              k = request_key de day topic src ext;
              hs = accepted_handles de src
          in if \<not> topic_known topic \<or> now < start \<or>
                source \<noteq> [] \<and> py_casefold src \<notin> set (map py_casefold (enabled_handles (de_cs de))) then None
             else Some (k, case map_of jobs k of
                    None \<Rightarrow> fresh_job de day topic src start until hs
                  | Some old \<Rightarrow> refresh_job hs old)))"

definition acknowledge :: "(pystr \<Rightarrow> bool) option \<Rightarrow> pystr \<Rightarrow> pystr \<Rightarrow> date_app \<Rightarrow> (pystr + pystr) \<times> date_app" where
  "acknowledge send key k a = (case send of
       None \<Rightarrow> (Inr k, a)
     | Some f \<Rightarrow> if key \<in> set (d_notices a) then (Inr k, a)
         else if f key then (Inr k, a\<lparr>d_notices := d_notices a @ [key]\<rparr>)
         else (Inl ''TelegramError'', a))"

definition enqueue :: "date_env \<Rightarrow> instant \<Rightarrow> (pystr \<Rightarrow> bool) option \<Rightarrow> pystr \<Rightarrow> pystr \<Rightarrow> pystr \<Rightarrow> pystr \<Rightarrow>
    date_app \<Rightarrow> (pystr + pystr) \<times> date_app" where
  "enqueue de now send day topic ext source a =
     (case plan_request de now day topic ext source (d_jobs a) of
        None \<Rightarrow> (Inl ''ValueError'', a)
      | Some (k, j) \<Rightarrow> acknowledge send (notice_key k (''accepted:'' @ nat_text (j_generation j))) k
          (a\<lparr>d_jobs := AList.update k j (d_jobs a)\<rparr>))"

section \<open>The repository queue\<close>

definition id_char :: "char \<Rightarrow> bool" where
  "id_char c \<longleftrightarrow> ascii_alnum c \<or> c = CHR ''_'' \<or> c = CHR ''-''"

definition entry_id :: "pystr \<Rightarrow> bool" where
  "entry_id s \<longleftrightarrow> 1 \<le> length s \<and> length s \<le> 80 \<and> list_all id_char s"

definition entry_date :: "pystr \<Rightarrow> bool" where
  "entry_date s \<longleftrightarrow> length s = 10 \<and> take 2 s = ''20'' \<and> list_all is_digit (take 2 (drop 2 s)) \<and> s ! 4 = CHR ''-'' \<and>
     list_all is_digit (take 2 (drop 5 s)) \<and> s ! 7 = CHR ''-'' \<and> list_all is_digit (drop 8 s)"

definition entry_source :: "pystr \<Rightarrow> bool" where
  "entry_source s \<longleftrightarrow> (let h = (case s of c # t \<Rightarrow> if c = CHR ''@'' then t else s | [] \<Rightarrow> []) in
     1 \<le> length h \<and> length h \<le> 15 \<and> list_all (\<lambda>c. ascii_alnum c \<or> c = CHR ''_'') h)"

definition entry_keys :: "pydict \<Rightarrow> bool" where
  "entry_keys d \<longleftrightarrow> set (map fst d) \<in> {{''id'', ''date'', ''topic''}, {''id'', ''date'', ''topic'', ''source''}}"

text \<open>
  What becomes of an entry: skipped, or asked for. A source that is false but no text (null, zero,
  an empty list) passes the check, and \<open>enqueue\<close> fails on it with \<open>AttributeError\<close> after its
  other checks.
\<close>

datatype entry_plan = SkipEntry | AskFor pystr pystr pystr pystr | AskOddSource pystr pystr pystr

definition plan_entry :: "pystr list \<Rightarrow> json \<Rightarrow> entry_plan" where
  "plan_entry accepted v = (case v of
       JObj d \<Rightarrow>
         if \<not> entry_keys d then SkipEntry
         else (case (dict_get d ''id'' JNull, dict_get d ''date'' JNull, dict_get d ''topic'' JNull) of
             (JStr i, JStr day, JStr topic) \<Rightarrow>
               if \<not> entry_id i \<or> i \<in> set accepted \<or> \<not> entry_date day \<or> \<not> topic_known topic then SkipEntry
               else (case dict_get d ''source'' (JStr []) of
                   JStr s \<Rightarrow> if s \<noteq> [] \<and> \<not> entry_source s then SkipEntry else AskFor i day topic s
                 | x \<Rightarrow> if truthy x then SkipEntry else AskOddSource i day topic)
           | _ \<Rightarrow> SkipEntry)
     | _ \<Rightarrow> SkipEntry)"

fun ask_entries :: "date_env \<Rightarrow> instant \<Rightarrow> (pystr \<Rightarrow> bool) \<Rightarrow> json list \<Rightarrow> date_app \<Rightarrow> pystr option \<times> date_app" where
  "ask_entries de now send [] a = (None, a)"
| "ask_entries de now send (v # vs) a = (case plan_entry (d_accepted a) v of
       SkipEntry \<Rightarrow> ask_entries de now send vs a
     | AskOddSource i day topic \<Rightarrow>
         (case de_window de day of
            None \<Rightarrow> ask_entries de now send vs a
          | Some (start, until) \<Rightarrow>
              if now < start then ask_entries de now send vs a else (Some ''AttributeError'', a))
     | AskFor i day topic s \<Rightarrow>
         (case enqueue de now (Some send) day topic i s a of
            (Inl e, b) \<Rightarrow> if e = ''ValueError'' then ask_entries de now send vs b else (Some e, b)
          | (Inr k, b) \<Rightarrow> ask_entries de now send vs (b\<lparr>d_accepted := d_accepted b @ [i]\<rparr>)))"

text \<open>
  What the request for the queue gives: a JSON value, or an exception with its class and whether
  it is one of the caught ones. At most one request in five minutes is made.
\<close>

type_synonym queue_answer = "(bool \<times> pystr) + json"

definition sync_bridge :: "date_env \<Rightarrow> instant \<Rightarrow> (pystr \<Rightarrow> bool) \<Rightarrow> queue_answer \<Rightarrow> date_app \<Rightarrow> pystr option \<times> date_app" where
  "sync_bridge de now send answer a =
     (if \<not> de_bridge de then (None, a)
      else if (case d_checked a of None \<Rightarrow> False | Some t \<Rightarrow> now - t < minutes 5) then (None, a)
      else (let b = a\<lparr>d_checked := Some now\<rparr> in case answer of
          Inl (is_caught, e) \<Rightarrow> if is_caught then (None, b\<lparr>d_bridge_error := Some e\<rparr>) else (Some e, b)
        | Inr (JList vs) \<Rightarrow>
            if 50 < length vs then (None, b\<lparr>d_bridge_error := Some ''ValueError''\<rparr>)
            else (case ask_entries de now send vs b of
                (None, c) \<Rightarrow> (None, c\<lparr>d_bridge_error := None\<rparr>)
              | (Some e, c) \<Rightarrow> (Some e, c))
        | Inr _ \<Rightarrow> (None, b\<lparr>d_bridge_error := Some ''ValueError''\<rparr>)))"

definition process_requests :: "date_env \<Rightarrow> instant \<Rightarrow> (pystr \<Rightarrow> bool) \<Rightarrow> queue_answer \<Rightarrow> step_world list \<Rightarrow>
    date_app \<Rightarrow> date_app option" where
  "process_requests de now send answer wds a = (case sync_bridge de now send answer a of
       (Some e, b) \<Rightarrow> Some (b\<lparr>d_last_error := Some e\<rparr>)
     | (None, b) \<Rightarrow> date_steps de (take 5 wds) b)"

text \<open>What happens to the requests: wakes, and questions from the chat.\<close>

datatype date_op =
    Wake instant "pystr \<Rightarrow> bool" queue_answer "step_world list"
  | Ask instant "(pystr \<Rightarrow> bool) option" pystr pystr pystr

fun date_op_step :: "date_env \<Rightarrow> date_op \<Rightarrow> date_app \<Rightarrow> date_app option" where
  "date_op_step de (Wake now send answer wds) a = process_requests de now send answer wds a"
| "date_op_step de (Ask now send day topic source) a = Some (snd (enqueue de now send day topic [] source a))"

fun date_runs :: "date_env \<Rightarrow> date_op list \<Rightarrow> date_app \<Rightarrow> date_app option" where
  "date_runs de [] a = Some a"
| "date_runs de (op # ops) a = Option.bind (date_op_step de op a) (date_runs de ops)"

fun op_worlds :: "date_op \<Rightarrow> step_world set" where
  "op_worlds (Wake now send answer wds) = set (take 5 wds)"
| "op_worlds (Ask now send day topic source) = {}"

section \<open>What is stored\<close>

fun status_text :: "job_status \<Rightarrow> pystr" where
  "status_text Collecting = ''collecting''"
| "status_text Delivering = ''delivering''"
| "status_text JobComplete = ''complete''"
| "status_text JobPartial = ''partial''"
| "status_text TranslationPending = ''translation_pending''"

fun cover_text :: "source_cover \<Rightarrow> pystr" where
  "cover_text CoverComplete = ''complete''"
| "cover_text CoverPartial = ''partial''"
| "cover_text CoverDisabled = ''disabled''"
| "cover_text (CoverFailed e) = ''failed:'' @ e"

definition job_json :: "pystr \<Rightarrow> date_job \<Rightarrow> json" where
  "job_json k j = JObj
     [(''id'', JStr k), (''day'', JStr (j_day j)), (''timezone'', JStr (j_zone j)), (''topic'', JStr (j_topic j)),
      (''source_filter'', JStr (j_source j)), (''start'', JStr (isoformat (j_start j))),
      (''end'', JStr (isoformat (j_end j))), (''status'', JStr (status_text (j_status j))),
      (''pending_sources'', JList (map JStr (j_pending j))),
      (''coverage'', JObj (map (\<lambda>(h, c). (h, JStr (cover_text c))) (j_coverage j))),
      (''observed'', JList (map JStr (j_observed j))), (''selected'', JList (map JStr (j_selected j))),
      (''delivered'', JList (map JStr (j_delivered j))),
      (''translation_attempts'', JObj (map (\<lambda>(i, n). (i, JInt (int n))) (j_attempts j))),
      (''generation'', JInt (int (j_generation j))), (''local_loaded'', JBool (j_local j)),
      (''retry_after'', JStr (case j_retry j of None \<Rightarrow> [] | Some t \<Rightarrow> isoformat t)),
      (''provisional_day'', JBool (j_provisional j))]"

definition published :: "date_app \<Rightarrow> state_data" where
  "published a = (d_state a)\<lparr>date_requests := Some [(''jobs'', JObj (map (\<lambda>(k, j). (k, job_json k j)) (d_jobs a)))]\<rparr>"

lemma job_json_get [simp]:
  "dict_get [(''id'', JStr k), (''day'', a1), (''timezone'', a2), (''topic'', a3), (''source_filter'', x), (''start'', a4),
     (''end'', a5), (''status'', y), p6, p7, p8, p9, p10, p11, p12, p13, p14, p15] ''source_filter'' d = x"
  "dict_get [(''id'', JStr k), (''day'', a1), (''timezone'', a2), (''topic'', a3), (''source_filter'', x), (''start'', a4),
     (''end'', a5), (''status'', y), p6, p7, p8, p9, p10, p11, p12, p13, p14, p15] ''status'' d = y"
  by (simp_all add: dict_get_def)

lemma requests_published: "active_requests (published a) = Inr (source_jobs (d_jobs a) \<noteq> [])"
proof -
  define f where "f = (\<lambda>(k :: pystr, v) r. bindE r (\<lambda>b. case v of
                   JObj j \<Rightarrow>
                     if \<not> truthy (dict_get j ''source_filter'' JNull) then Inr b
                     else (case dict_get j ''status'' JNull of
                             JStr x \<Rightarrow> Inr (b \<or> x = ''collecting'' \<or> x = ''delivering'')
                           | JList _ \<Rightarrow> Inl TypeError
                           | JObj _ \<Rightarrow> Inl TypeError
                           | _ \<Rightarrow> Inr b)
                 | _ \<Rightarrow> Inl AttributeError))"
  have one: "f (k, job_json k j) (Inr b) = Inr (b \<or> j_source j \<noteq> [] \<and> live_job j)" for k j b
    by (cases "j_status j") (simp_all add: f_def job_json_def live_job_def)
  have "fold f (map (\<lambda>(k, j). (k, job_json k j)) js) (Inr b) = Inr (b \<or> source_jobs js \<noteq> [])" for js b
  proof (induction js arbitrary: b)
    case (Cons p js)
    obtain k j where "p = (k, j)" by (cases p)
    with Cons [of "b \<or> j_source j \<noteq> [] \<and> live_job j"] show ?case by (auto simp: one source_jobs_def)
  qed (simp add: source_jobs_def)
  then show ?thesis
    unfolding active_requests_def published_def f_def [symmetric] by (simp add: dict_get_def f_def)
qed

section \<open>What a complete request stands for\<close>

text \<open>A property of the job that an action leaves true, whether it raises or not.\<close>

definition safe :: "(date_job \<Rightarrow> bool) \<Rightarrow> act \<Rightarrow> bool" where
  "safe P m \<longleftrightarrow> (\<forall>e w. m = Some (e, w) \<longrightarrow> P (w_job w))"

lemma safe_simps [simp]: "safe P None" "safe P (Some (e, w)) \<longleftrightarrow> P (w_job w)"
  by (auto simp: safe_def)

lemma safe_bindA:
  assumes "safe Q m" "\<And>j. Q j \<Longrightarrow> P j" "\<And>w. Q (w_job w) \<Longrightarrow> m = Some (None, w) \<Longrightarrow> safe P (f w)"
  shows "safe P (bindA m f)"
  using assms by (auto simp: bindA_def split: option.splits)

lemma safe_weaken: "safe Q m \<Longrightarrow> (\<And>j. Q j \<Longrightarrow> P j) \<Longrightarrow> safe P m"
  by (auto simp: safe_def)

lemma on_job_simps [simp]: "w_job (on_job f w) = f (w_job w)" "w_state (on_job f w) = w_state w"
  "w_index (on_job f w) = w_index w" "w_notices (on_job f w) = w_notices w"
  by (simp_all add: on_job_def)

lemma notify_safe [simp]: "safe P (notify wd key w) \<longleftrightarrow> P (w_job w)"
  by (simp add: notify_def)

definition observing :: "update \<Rightarrow> date_job \<Rightarrow> date_job" where
  "observing u j = j\<lparr>j_observed := (if upd_id u \<in> set (j_observed j) then j_observed j else j_observed j @ [upd_id u])\<rparr>"

lemma observe_safe: "P (observing u (w_job w)) \<Longrightarrow> P (w_job w) \<Longrightarrow> safe P (observe u w)"
  by (auto simp: observe_def observing_def split: option.splits sum.splits)

lemma observe_all_safe:
  assumes "\<And>u j. P j \<Longrightarrow> P (observing u j)" "P (w_job w)"
  shows "safe P (observe_all us w)"
  using assms(2)
proof (induction us arbitrary: w)
  case (Cons u us)
  have "safe P (observe u w)" using observe_safe assms(1) Cons.prems by blast
  then show ?case by (auto intro: safe_bindA Cons.IH)
qed simp

lemma observe_mine_safe:
  assumes "\<And>u j. P j \<Longrightarrow> P (observing u j)" "P (w_job w)"
  shows "safe P (observe_mine de h us w)"
  using observe_all_safe [OF assms] by (simp add: observe_mine_def split: option.splits)

lemma observed_kept: "set (j_observed j) \<subseteq> set (j_observed (observing u j))"
  by (auto simp: observing_def)

lemma observe_all_ids: "observe_all us w = Some (None, v) \<Longrightarrow> u \<in> set us \<Longrightarrow> upd_id u \<in> set (j_observed (w_job v))"
proof (induction us arbitrary: w)
  case (Cons x us)
  from Cons.prems(1) obtain y where y: "observe x w = Some (None, y)" "observe_all us y = Some (None, v)"
    by (auto simp: bindA_def split: option.splits)
  have "upd_id x \<in> set (j_observed (w_job y))"
    using y(1) by (auto simp: observe_def split: option.splits sum.splits)
  moreover have "safe (\<lambda>j. upd_id x \<in> set (j_observed j)) (observe_all us y)"
    by (rule observe_all_safe) (use calculation observed_kept in auto)
  ultimately show ?case using Cons y(2) by auto
qed simp

text \<open>
  \<open>h\<close> was read to the end, without an error, in a step of one of the worlds, and what that gave
  of its author within the day was observed.
\<close>

definition collected :: "date_env \<Rightarrow> step_world set \<Rightarrow> date_job \<Rightarrow> pystr \<Rightarrow> bool" where
  "collected de W j h \<longleftrightarrow> (\<exists>wd \<in> W. \<exists>us ps. sw_collect wd h (j_start j) (j_end j) = Inr (us, []) \<and>
     configured_only (de_cs de) us = Some ps \<and> (\<forall>u \<in> set ps. mine h j u \<longrightarrow> upd_id u \<in> set (j_observed j)))"

definition cov_inv :: "date_env \<Rightarrow> step_world set \<Rightarrow> pystr list \<Rightarrow> nat \<Rightarrow> date_job \<Rightarrow> bool" where
  "cov_inv de W H g j \<longleftrightarrow> j_generation j = g \<and>
     (\<forall>h \<in> set H. h \<in> set (j_pending j) \<or> h \<in> set (map fst (j_coverage j))) \<and>
     (\<forall>h. map_of (j_coverage j) h = Some CoverComplete \<longrightarrow> collected de W j h)"

definition job_inv :: "date_env \<Rightarrow> step_world set \<Rightarrow> pystr list \<Rightarrow> nat \<Rightarrow> date_job \<Rightarrow> bool" where
  "job_inv de W H g j \<longleftrightarrow> cov_inv de W H g j \<and>
     (j_status j = JobComplete \<longrightarrow> j_pending j = [] \<and> all_covered j \<and> remaining j = [])"

definition going :: "date_env \<Rightarrow> step_world set \<Rightarrow> pystr list \<Rightarrow> nat \<Rightarrow> date_job \<Rightarrow> bool" where
  "going de W H g j \<longleftrightarrow> cov_inv de W H g j \<and> live_job j"

lemma going_job_inv: "going de W H g j \<Longrightarrow> job_inv de W H g j"
  by (auto simp: going_def job_inv_def live_job_def)

lemma collected_observing: "collected de W j h \<Longrightarrow> collected de W (observing u j) h"
  using observed_kept [of j u] by (force simp: collected_def mine_def observing_def)

lemma observing_simps [simp]:
  "j_generation (observing u j) = j_generation j" "j_pending (observing u j) = j_pending j"
  "j_coverage (observing u j) = j_coverage j" "j_status (observing u j) = j_status j"
  "j_start (observing u j) = j_start j" "j_end (observing u j) = j_end j"
  by (simp_all add: observing_def)

lemma going_observing: "going de W H g j \<Longrightarrow> going de W H g (observing u j)"
  unfolding going_def cov_inv_def live_job_def observing_simps using collected_observing by blast

text \<open>Fields the invariant does not look at.\<close>

lemma collected_frame:
  "j_start j = j_start i \<Longrightarrow> j_end j = j_end i \<Longrightarrow> set (j_observed i) \<subseteq> set (j_observed j) \<Longrightarrow>
    collected de W i h \<Longrightarrow> collected de W j h"
  unfolding collected_def mine_def by simp blast

lemma collected_mono: "W \<subseteq> V \<Longrightarrow> collected de W j h \<Longrightarrow> collected de V j h"
  by (auto simp: collected_def)

lemma cov_inv_frame:
  assumes "cov_inv de W H g i" "j_start j = j_start i" "j_end j = j_end i" "j_observed j = j_observed i"
    "j_generation j = j_generation i" "j_pending j = j_pending i" "j_coverage j = j_coverage i"
  shows "cov_inv de W H g j"
  using assms collected_frame [of j i] by (auto simp: cov_inv_def)

lemma update_fst: "fst ` set (AList.update k v xs) = insert k (fst ` set xs)"
  by (induction xs) auto

lemma cov_inv_cover:
  assumes "cov_inv de W H g j" "c = CoverComplete \<longrightarrow> collected de W j h"
  shows "cov_inv de W H g (j\<lparr>j_coverage := AList.update h c (j_coverage j)\<rparr>)"
proof -
  let ?j = "j\<lparr>j_coverage := AList.update h c (j_coverage j)\<rparr>"
  have "collected de W ?j x = collected de W j x" for x by (auto simp: collected_def mine_def)
  then show ?thesis using assms by (auto simp: cov_inv_def update_conv' update_fst split: if_splits)
qed

lemma going_cover:
  "going de W H g (w_job w) \<Longrightarrow> c = CoverComplete \<longrightarrow> collected de W (w_job w) h \<Longrightarrow> going de W H g (w_job (cover h c w))"
  using cov_inv_cover by (simp add: going_def cover_def live_job_def)

definition covered_by :: "date_env \<Rightarrow> step_world set \<Rightarrow> pystr list \<Rightarrow> nat \<Rightarrow> pystr \<Rightarrow> date_job \<Rightarrow> bool" where
  "covered_by de W H g h j \<longleftrightarrow> going de W H g j \<and> h \<in> fst ` set (j_coverage j)"

lemma covered_cover:
  "going de W H g (w_job w) \<Longrightarrow> c = CoverComplete \<longrightarrow> collected de W (w_job w) h \<Longrightarrow> covered_by de W H g h (w_job (cover h c w))"
  using going_cover by (simp add: covered_by_def cover_def update_fst)

lemma covered_observing: "covered_by de W H g h j \<Longrightarrow> covered_by de W H g h (observing u j)"
  by (simp add: covered_by_def going_observing)

lemma recover_safe:
  assumes "going de W H g (w_job w)"
  shows "safe (covered_by de W H g h) (recover_search de wd h e w)"
proof -
  let ?v = "cover h (CoverFailed e) w"
  have v: "covered_by de W H g h (w_job ?v)" using covered_cover [OF assms, of "CoverFailed e"] by simp
  have "safe (covered_by de W H g h) (observe_mine de h us ?v)" for us
    by (rule observe_mine_safe) (use covered_observing v in auto)
  moreover have "covered_by de W H g h (w_job (cover h CoverPartial x))" if "covered_by de W H g h (w_job x)" for x
    using that covered_cover [of de W H g x CoverPartial] by (simp add: covered_by_def)
  ultimately show ?thesis using v
    by (auto simp: recover_search_def Let_def safe_def split: option.splits prod.splits)
qed

lemma observe_mine_collects:
  assumes "observe_mine de h us w = Some (None, v)" "wd \<in> W"
    "sw_collect wd h (j_start (w_job w)) (j_end (w_job w)) = Inr (us, [])"
  shows "collected de W (w_job v) h"
proof -
  from assms(1) obtain ps where ps: "configured_only (de_cs de) us = Some ps"
    "observe_all (filter (mine h (w_job w)) ps) w = Some (None, v)"
    by (auto simp: observe_mine_def split: option.splits)
  let ?same = "\<lambda>j. j_start j = j_start (w_job w) \<and> j_end j = j_end (w_job w)"
  have "safe ?same (observe_all (filter (mine h (w_job w)) ps) w)"
    by (rule observe_all_safe) (simp_all add: observing_def)
  with ps(2) have same: "?same (w_job v)" by simp
  then have "mine h (w_job v) u = mine h (w_job w) u" for u by (simp add: mine_def)
  with observe_all_ids [OF ps(2)] have "\<forall>u \<in> set ps. mine h (w_job v) u \<longrightarrow> upd_id u \<in> set (j_observed (w_job v))"
    by simp
  with same ps(1) assms(2,3) show ?thesis unfolding collected_def by auto
qed

lemma cover_source_safe:
  assumes "going de W H g (w_job w)" "wd \<in> W"
  shows "safe (covered_by de W H g h) (cover_source de wd h w)"
proof (cases "sw_collect wd h (j_start (w_job w)) (j_end (w_job w))")
  case (Inl e)
  with recover_safe [OF assms(1)] covered_cover [OF assms(1), of CoverDisabled] show ?thesis
    by (simp add: cover_source_def)
next
  case (Inr p)
  obtain us errs where p: "p = (us, errs)" by (cases p)
  have going: "safe (going de W H g) (observe_mine de h us w)"
    by (rule observe_mine_safe) (use going_observing assms(1) in auto)
  show ?thesis
  proof (cases "observe_mine de h us w")
    case None
    with Inr p covered_cover [OF assms(1), of CoverDisabled] show ?thesis by (simp add: cover_source_def)
  next
    case (Some r)
    obtain e v where r: "r = (e, v)" by (cases r)
    with Some going have v: "going de W H g (w_job v)" by simp
    show ?thesis
    proof (cases e)
      case None
      with Some r Inr p observe_mine_collects [of de h us w v wd W] assms(2)
      have "covered_by de W H g h (w_job (cover h (if errs = [] then CoverComplete else CoverPartial) v))"
        by (intro covered_cover v) auto
      with None Some r Inr p covered_cover [OF assms(1), of CoverDisabled] show ?thesis by (simp add: cover_source_def)
    next
      case (Some x)
      with \<open>observe_mine de h us w = Some r\<close> r Inr p recover_safe [OF v] covered_cover [OF assms(1), of CoverDisabled]
      show ?thesis by (simp add: cover_source_def)
    qed
  qed
qed

text \<open>What neither an observation nor a coverage entry changes survives the collection of a source.\<close>

lemma cover_source_frame:
  assumes obs: "\<And>u j. P j \<Longrightarrow> P (observing u j)"
    and cov: "\<And>h c j. P j \<Longrightarrow> P (j\<lparr>j_coverage := AList.update h c (j_coverage j)\<rparr>)" and P: "P (w_job w)"
  shows "safe P (cover_source de wd h w)"
proof -
  have cover: "P (w_job (cover h c v))" if "P (w_job v)" for h c v using cov [OF that] by (simp add: cover_def)
  have mine: "safe P (observe_mine de h us v)" if "P (w_job v)" for h us v
    by (rule observe_mine_safe [OF obs that])
  have rec: "safe P (recover_search de wd h e v)" if "P (w_job v)" for h e v
  proof -
    have "P (w_job x)" if "observe_mine de h us (cover h (CoverFailed e) v) = Some (r, x)" for us r x
      using mine [OF cover [OF \<open>P (w_job v)\<close>]] that unfolding safe_def by blast
    then show ?thesis using cover that
      by (simp add: recover_search_def Let_def split: option.split prod.split)
  qed
  show ?thesis
  proof (cases "sw_collect wd h (j_start (w_job w)) (j_end (w_job w))")
    case (Inl e)
    with rec [OF P] cover [OF P] show ?thesis by (simp add: cover_source_def)
  next
    case (Inr p)
    obtain us errs where p: "p = (us, errs)" by (cases p)
    have "P (w_job x)" if "observe_mine de h us w = Some (r, x)" for r x
      using mine [OF P] that unfolding safe_def by blast
    with Inr p rec cover P show ?thesis
      by (simp add: cover_source_def split: option.split prod.split)
  qed
qed

lemma collect_one_safe:
  assumes "going de W H g (w_job w)" "wd \<in> W" "j_pending (w_job w) \<noteq> []"
  shows "safe (going de W H g) (collect_one de wd w)"
proof -
  let ?h = "hd (j_pending (w_job w))"
  let ?P = "\<lambda>j. covered_by de W H g ?h j \<and> j_pending j = j_pending (w_job w)"
  have pop: "going de W H g (j\<lparr>j_pending := tl (j_pending j)\<rparr>)" if "?P j" for j
  proof -
    from that have cov: "cov_inv de W H g j" "live_job j" "?h \<in> set (map fst (j_coverage j))"
      by (simp_all add: covered_by_def going_def)
    have split: "h \<in> set (j_pending j) \<Longrightarrow> h = ?h \<or> h \<in> set (tl (j_pending j))" for h
      using that assms(3) by (cases "j_pending (w_job w)") auto
    have same: "collected de W (j\<lparr>j_pending := tl (j_pending j)\<rparr>) x = collected de W j x" for x
      by (simp add: collected_def mine_def)
    have "h \<in> set (tl (j_pending j)) \<or> h \<in> set (map fst (j_coverage j))" if "h \<in> set H" for h
      using cov(1,3) split [of h] that unfolding cov_inv_def by blast
    with cov(1,2) same show ?thesis unfolding going_def cov_inv_def live_job_def by simp
  qed
  have "safe (\<lambda>j. j_pending j = j_pending (w_job w)) (cover_source de wd ?h w)"
    by (rule cover_source_frame) (rule refl | simp)+
  with cover_source_safe [OF assms(1,2)] have "safe ?P (cover_source de wd ?h w)" by (auto simp: safe_def)
  then show ?thesis unfolding collect_one_def
    by (rule safe_bindA) (use pop in \<open>auto simp: covered_by_def\<close>)
qed

lemma load_local_safe:
  assumes "going de W H g (w_job w)"
  shows "safe (going de W H g) (load_local de wd w)"
proof -
  have obs: "safe (going de W H g) (observe_all us w)" for us
    by (rule observe_all_safe) (use going_observing assms in auto)
  have mark: "going de W H g (j\<lparr>j_local := True\<rparr>)" if "going de W H g j" for j
    using that cov_inv_frame [of de W H g j] by (simp add: going_def live_job_def)
  have "safe (going de W H g) (bindA (observe_all us w) (\<lambda>v. Some (None, on_job (\<lambda>j. j\<lparr>j_local := True\<rparr>) v)))" for us
    by (rule safe_bindA [OF obs]) (use mark in auto)
  with assms show ?thesis by (simp add: load_local_def Let_def split: option.splits sum.splits)
qed

definition running :: "date_env \<Rightarrow> step_world set \<Rightarrow> pystr list \<Rightarrow> nat \<Rightarrow> date_job \<Rightarrow> bool" where
  "running de W H g j \<longleftrightarrow> cov_inv de W H g j \<and> j_status j \<noteq> JobComplete"

lemma running_job_inv: "running de W H g j \<Longrightarrow> job_inv de W H g j"
  by (simp add: running_def job_inv_def)

lemma after_attempt_safe:
  assumes "going de W H g (w_job w)"
  shows "safe (running de W H g) (after_attempt de wd k i w)"
proof -
  have cov: "cov_inv de W H g (w_job w)" "live_job (w_job w)" using assms by (simp_all add: going_def)
  show ?thesis
    using cov_inv_frame [OF cov(1)] cov(2)
    by (auto simp: after_attempt_def Let_def running_def live_job_def)
qed

lemma deliver_one_safe:
  assumes "going de W H g (w_job w)"
  shows "safe (running de W H g) (deliver_one de wd k w)"
proof -
  have cov: "cov_inv de W H g (w_job w)" "j_status (w_job w) \<noteq> JobComplete"
    using assms by (auto simp: going_def live_job_def)
  have part: "running de W H g ((w_job w)\<lparr>j_status := JobPartial\<rparr>)"
    using cov_inv_frame [OF cov(1)] by (simp add: running_def)
  have "cov_inv de W H g ((w_job w)\<lparr>j_selected := xs\<rparr>)" for xs using cov_inv_frame [OF cov(1)] by simp
  from cov_inv_cover [OF this, of CoverDisabled] cov(2)
  have drop: "running de W H g (w_job (cover a CoverDisabled (on_job (\<lambda>j. j\<lparr>j_selected := xs j\<rparr>) w)))" for a xs
    by (simp add: running_def cover_def)
  have att: "safe (running de W H g) (after_attempt de wd k i (w\<lparr>w_state := st, w_index := ix\<rparr>))" for i st ix
    by (rule after_attempt_safe) (use assms in simp)
  have now: "running de W H g (w_job w)" using cov by (simp add: running_def)
  show ?thesis unfolding deliver_one_def Let_def
    using part drop att now by (simp split: sum.splits option.splits list.splits prod.splits)
qed

lemma finish_job_safe:
  assumes "going de W H g (w_job w)" "j_pending (w_job w) = []" "remaining (w_job w) = []"
  shows "safe (job_inv de W H g) (finish_job wd k w)"
proof -
  have "cov_inv de W H g ((w_job w)\<lparr>j_provisional := b, j_status := st\<rparr>)" for b st
    using cov_inv_frame [of de W H g "w_job w"] assms(1) by (simp add: going_def)
  with assms(2,3) show ?thesis
    by (simp add: finish_job_def Let_def job_inv_def all_covered_def remaining_def)
qed

lemma begin_delivery_safe:
  assumes "going de W H g (w_job w)" "j_pending (w_job w) = []"
  shows "safe (\<lambda>j. going de W H g j \<and> j_pending j = []) (begin_delivery de wd k w)"
proof -
  have "going de W H g ((w_job w)\<lparr>j_selected := xs, j_status := Delivering\<rparr>)" for xs
    using cov_inv_frame [of de W H g "w_job w"] assms(1) by (simp add: going_def live_job_def)
  with assms show ?thesis by (simp add: begin_delivery_def Let_def split: sum.splits option.splits)
qed

lemma handle_job_safe:
  assumes "going de W H g (w_job w)" "wd \<in> W"
  shows "safe (job_inv de W H g) (handle_job de wd k w)"
  unfolding handle_job_def
proof (rule safe_bindA [OF load_local_safe [OF assms(1)] going_job_inv])
  fix v :: work assume v: "going de W H g (w_job v)"
  let ?fin = "\<lambda>x. if remaining (w_job x) \<noteq> [] then deliver_one de wd k x else finish_job wd k x"
  show "safe (job_inv de W H g) (if j_pending (w_job v) \<noteq> [] then collect_one de wd v
     else bindA (if j_status (w_job v) = Collecting then begin_delivery de wd k v else Some (None, v)) ?fin)"
  proof (cases "j_pending (w_job v) = []")
    case False
    with safe_weaken [OF collect_one_safe [OF v assms(2)] going_job_inv] show ?thesis by simp
  next
    case True
    have "safe (\<lambda>j. going de W H g j \<and> j_pending j = []) (if j_status (w_job v) = Collecting then begin_delivery de wd k v else Some (None, v))"
      using begin_delivery_safe [OF v True] v True by simp
    then have "safe (job_inv de W H g) (bindA (if j_status (w_job v) = Collecting then begin_delivery de wd k v else Some (None, v)) ?fin)"
    proof (rule safe_bindA)
      fix x :: work assume "going de W H g (w_job x) \<and> j_pending (w_job x) = []"
      with safe_weaken [OF deliver_one_safe running_job_inv, of de W H g x] finish_job_safe [of de W H g x]
      show "safe (job_inv de W H g) (?fin x)" by simp
    qed (use going_job_inv in blast)
    with True show ?thesis by simp
  qed
qed

text \<open>The jobs under a key, from generation \<open>g\<close> on.\<close>

definition app_inv :: "date_env \<Rightarrow> step_world set \<Rightarrow> pystr list \<Rightarrow> nat \<Rightarrow> pystr \<Rightarrow> date_app \<Rightarrow> bool" where
  "app_inv de W H g k a \<longleftrightarrow> map_of (d_jobs a) k \<noteq> None \<and> (\<forall>j. (k, j) \<in> set (d_jobs a) \<longrightarrow>
     g \<le> j_generation j \<and> job_inv de W (if j_generation j = g then H else []) (j_generation j) j)"

lemma update_entries: "p \<in> set (AList.update k v xs) \<Longrightarrow> p = (k, v) \<or> p \<in> set xs"
  by (induction xs) (auto split: if_splits)

lemma app_inv_put:
  assumes "app_inv de W H g k a" "d_jobs b = AList.update i j (d_jobs a)"
    "i = k \<Longrightarrow> g \<le> j_generation j \<and> job_inv de W (if j_generation j = g then H else []) (j_generation j) j"
  shows "app_inv de W H g k b"
  unfolding app_inv_def
proof (intro conjI allI impI)
  show "map_of (d_jobs b) k \<noteq> None" using assms(1) by (simp add: app_inv_def assms(2) update_conv')
  fix x assume "(k, x) \<in> set (d_jobs b)"
  then consider (new) "i = k" "x = j" | (old) "(k, x) \<in> set (d_jobs a)"
    using update_entries [of "(k, x)" i j] by (auto simp: assms(2))
  then have "g \<le> j_generation x \<and> job_inv de W (if j_generation x = g then H else []) (j_generation x) x"
  proof cases
    case new
    with assms(3) show ?thesis by blast
  next
    case old
    with assms(1) show ?thesis unfolding app_inv_def by blast
  qed
  then show "g \<le> j_generation x" "job_inv de W (if j_generation x = g then H else []) (j_generation x) x" by blast+
qed

lemma app_inv_frame [simp]:
  "app_inv de W H g k (a\<lparr>d_last_error := x\<rparr>) = app_inv de W H g k a"
  "app_inv de W H g k (a\<lparr>d_accepted := y\<rparr>) = app_inv de W H g k a"
  "app_inv de W H g k (a\<lparr>d_checked := z\<rparr>) = app_inv de W H g k a"
  "app_inv de W H g k (a\<lparr>d_bridge_error := x\<rparr>) = app_inv de W H g k a"
  by (simp_all add: app_inv_def)

lemma next_job_some:
  assumes "next_job now js = Some (k, j)"
  shows "(k, j) \<in> set js" "due_job now j"
  using assms by (auto simp: next_job_def source_jobs_def find_Some_iff split: if_splits) (auto dest: nth_mem)

lemma date_step_inv:
  assumes "app_inv de W H g k a" "wd \<in> W" "date_step de wd a = Some (e, b)"
  shows "app_inv de W H g k b"
proof (cases "next_job (sw_now wd) (d_jobs a)")
  case None
  with assms show ?thesis by (simp add: date_step_def)
next
  case (Some p)
  obtain i j where p: "p = (i, j)" by (cases p)
  let ?w = "\<lparr>w_state = d_state a, w_index = d_index a, w_notices = d_notices a, w_job = j\<rparr>"
  from Some p assms(3) obtain w where w: "handle_job de wd i ?w = Some (e, w)" "b = put_work i w a"
    by (auto simp: date_step_def)
  note j = next_job_some [OF Some [unfolded p]]
  show ?thesis
  proof (rule app_inv_put [OF assms(1)])
    show "d_jobs b = AList.update i (w_job w) (d_jobs a)" by (simp add: w(2) put_work_def)
    assume "i = k"
    let ?H = "if j_generation j = g then H else []"
    from \<open>i = k\<close> j assms(1) have inv: "g \<le> j_generation j" "job_inv de W ?H (j_generation j) j" "live_job j"
      by (auto simp: app_inv_def due_job_def)
    then have "going de W ?H (j_generation j) (w_job ?w)" by (simp add: going_def job_inv_def)
    from handle_job_safe [OF this assms(2), of i] have out: "job_inv de W ?H (j_generation j) (w_job w)" by (simp add: w(1))
    then have "j_generation (w_job w) = j_generation j" by (simp add: job_inv_def cov_inv_def)
    with inv(1) out show "g \<le> j_generation (w_job w) \<and>
        job_inv de W (if j_generation (w_job w) = g then H else []) (j_generation (w_job w)) (w_job w)" by simp
  qed
qed

lemma date_steps_inv:
  "app_inv de W H g k a \<Longrightarrow> set wds \<subseteq> W \<Longrightarrow> date_steps de wds a = Some b \<Longrightarrow> app_inv de W H g k b"
proof (induction wds arbitrary: a)
  case (Cons wd wds)
  from Cons.prems(3) obtain e c where step: "date_step de wd a = Some (e, c)"
    by (auto split: option.splits)
  with date_step_inv [OF Cons.prems(1) _ step] Cons.prems(2) have c: "app_inv de W H g k c" by simp
  show ?case
  proof (cases e)
    case None
    with Cons c step show ?thesis by simp
  next
    case (Some x)
    with Cons.prems(3) c step show ?thesis by auto
  qed
qed simp

lemma refresh_inv:
  assumes "g \<le> j_generation j" "job_inv de W (if j_generation j = g then H else []) (j_generation j) j"
  shows "g \<le> j_generation (refresh_job hs j) \<and>
    job_inv de W (if j_generation (refresh_job hs j) = g then H else []) (j_generation (refresh_job hs j)) (refresh_job hs j)"
proof (cases "live_job j")
  case True
  with assms show ?thesis by (simp add: refresh_job_def)
next
  case False
  then show ?thesis using assms(1) by (auto simp: refresh_job_def job_inv_def cov_inv_def)
qed

lemma acknowledge_jobs: "acknowledge send key k a = (r, b) \<Longrightarrow> d_jobs b = d_jobs a \<and> (\<forall>i. r = Inr i \<longrightarrow> i = k)"
  by (auto simp: acknowledge_def split: option.splits if_splits)

lemma plan_request_some:
  assumes "plan_request de now day topic ext source js = Some (k, j)"
  obtains start until where
    "j = (case map_of js k of
        None \<Rightarrow> fresh_job de day topic (if source = [] then [] else normalize_handle source) start until
          (accepted_handles de (if source = [] then [] else normalize_handle source))
      | Some old \<Rightarrow> refresh_job (accepted_handles de (if source = [] then [] else normalize_handle source)) old)"
  using assms by (auto simp: plan_request_def Let_def split: option.splits prod.splits if_splits)

lemma enqueue_inv:
  assumes "app_inv de W H g k a" "enqueue de now send day topic ext source a = (r, b)"
  shows "app_inv de W H g k b"
proof (cases "plan_request de now day topic ext source (d_jobs a)")
  case None
  with assms show ?thesis by (simp add: enqueue_def)
next
  case (Some p)
  obtain i j where p: "p = (i, j)" by (cases p)
  with Some obtain start until where j: "j = (case map_of (d_jobs a) i of
        None \<Rightarrow> fresh_job de day topic (if source = [] then [] else normalize_handle source) start until
          (accepted_handles de (if source = [] then [] else normalize_handle source))
      | Some old \<Rightarrow> refresh_job (accepted_handles de (if source = [] then [] else normalize_handle source)) old)"
    using plan_request_some by blast
  have "d_jobs b = AList.update i j (d_jobs a)"
    using assms(2) Some p acknowledge_jobs by (fastforce simp: enqueue_def)
  then show ?thesis
  proof (rule app_inv_put [OF assms(1)])
    assume "i = k"
    with assms(1) obtain old where old: "map_of (d_jobs a) i = Some old" by (auto simp: app_inv_def)
    then have "(k, old) \<in> set (d_jobs a)" using \<open>i = k\<close> by (auto dest: map_of_SomeD)
    with assms(1) refresh_inv [of g old de W H] old j show "g \<le> j_generation j \<and>
        job_inv de W (if j_generation j = g then H else []) (j_generation j) j" by (simp add: app_inv_def)
  qed
qed

lemma ask_entries_inv:
  "app_inv de W H g k a \<Longrightarrow> ask_entries de now send vs a = (e, b) \<Longrightarrow> app_inv de W H g k b"
proof (induction vs arbitrary: a)
  case (Cons v vs)
  show ?case
  proof (cases "plan_entry (d_accepted a) v")
    case SkipEntry
    with Cons show ?thesis by simp
  next
    case (AskOddSource i day topic)
    with Cons show ?thesis by (auto split: option.splits prod.splits if_splits)
  next
    case (AskFor i day topic s)
    obtain r c where r: "enqueue de now (Some send) day topic i s a = (r, c)" by fastforce
    with enqueue_inv [OF Cons.prems(1)] have c: "app_inv de W H g k c" by blast
    show ?thesis
    proof (cases r)
      case (Inl x)
      with AskFor r c Cons show ?thesis by (simp split: if_splits)
    next
      case (Inr x)
      with AskFor r c Cons.prems(2) Cons.IH [of "c\<lparr>d_accepted := d_accepted c @ [i]\<rparr>"] show ?thesis by simp
    qed
  qed
qed simp

lemma sync_bridge_inv:
  assumes "app_inv de W H g k a" "sync_bridge de now send answer a = (e, b)"
  shows "app_inv de W H g k b"
proof -
  let ?b = "a\<lparr>d_checked := Some now\<rparr>"
  have asked: "app_inv de W H g k c" if "ask_entries de now send vs ?b = (x, c)" for vs x c
    using ask_entries_inv [OF _ that] assms(1) by simp
  have list: "app_inv de W H g k b" if "answer = Inr (JList vs)" "de_bridge de"
    "\<not> (case d_checked a of None \<Rightarrow> False | Some t \<Rightarrow> now - t < minutes 5)" for vs
  proof -
    obtain x c where c: "ask_entries de now send vs ?b = (x, c)" by fastforce
    with asked have "app_inv de W H g k c" by blast
    with assms that c show ?thesis by (cases x) (auto simp: sync_bridge_def Let_def split: if_splits)
  qed
  show ?thesis
  proof (cases "\<not> de_bridge de \<or> (case d_checked a of None \<Rightarrow> False | Some t \<Rightarrow> now - t < minutes 5)")
    case True
    with assms show ?thesis by (cases "de_bridge de") (simp_all add: sync_bridge_def)
  next
    case False
    show ?thesis
    proof (cases answer)
      case (Inl p)
      with False assms show ?thesis by (cases p) (auto simp: sync_bridge_def Let_def split: if_splits)
    next
      case (Inr v)
      show ?thesis
      proof (cases "\<exists>vs. v = JList vs")
        case True
        with False Inr list show ?thesis by blast
      next
        case other: False
        then have "b = ?b\<lparr>d_bridge_error := Some ''ValueError''\<rparr>"
          using False Inr assms(2) by (cases v) (simp_all add: sync_bridge_def Let_def)
        with assms(1) show ?thesis by simp
      qed
    qed
  qed
qed

lemma date_op_inv:
  assumes "app_inv de W H g k a" "op_worlds op \<subseteq> W" "date_op_step de op a = Some b"
  shows "app_inv de W H g k b"
proof (cases op)
  case (Wake now send answer wds)
  obtain e c where c: "sync_bridge de now send answer a = (e, c)" by fastforce
  from sync_bridge_inv [OF assms(1) this] have "app_inv de W H g k c" .
  with c Wake assms(2,3) date_steps_inv show ?thesis
    by (cases e) (auto simp: process_requests_def)
next
  case (Ask now send day topic source)
  with assms enqueue_inv [OF assms(1), of now send day topic "[]" source] show ?thesis
    by (metis date_op_step.simps(2) option.inject prod.collapse)
qed

lemma date_runs_inv:
  "app_inv de W H g k a \<Longrightarrow> \<Union> (op_worlds ` set ops) \<subseteq> W \<Longrightarrow> date_runs de ops a = Some b \<Longrightarrow> app_inv de W H g k b"
proof (induction ops arbitrary: a)
  case (Cons op ops)
  then obtain c where "date_op_step de op a = Some c" "date_runs de ops c = Some b" by (auto simp: bind_eq_Some_conv)
  with Cons date_op_inv [of de W H g k a op c] show ?case by auto
qed simp


section \<open>The broadcast a request selects\<close>

text \<open>A post of a thread with a seed, or a reply of the same author to a post that belongs to it.\<close>

inductive in_broadcast :: "pyenv \<Rightarrow> pystr \<Rightarrow> update list \<Rightarrow> pystr \<times> pystr \<Rightarrow> bool" for pe topic us where
  seed: "u \<in> set us \<Longrightarrow> s \<in> set us \<Longrightarrow> is_seed pe topic s \<Longrightarrow> thread_key u = thread_key s \<Longrightarrow>
    in_broadcast pe topic us (post_key u)"
| reply: "in_broadcast pe topic us k \<Longrightarrow> u \<in> set us \<Longrightarrow> jtext (reply_to_id u) \<noteq> [] \<Longrightarrow> parent_key u = k \<Longrightarrow>
    in_broadcast pe topic us (post_key u)"

lemma follow_replies_spec:
  assumes "set queue \<subseteq> set inc" "\<forall>k \<in> set inc. P k"
    "\<forall>k \<in> set inc - set queue. set (children_of us k) \<subseteq> set inc"
    "\<And>k c. P k \<Longrightarrow> c \<in> set (children_of us k) \<Longrightarrow> P c"
  shows "set inc \<subseteq> set (follow_replies us inc queue) \<and> (\<forall>k \<in> set (follow_replies us inc queue). P k) \<and>
    (\<forall>k \<in> set (follow_replies us inc queue). set (children_of us k) \<subseteq> set (follow_replies us inc queue))"
  using assms
proof (induction us inc queue rule: follow_replies.induct)
  case (1 us inc queue)
  show ?case
  proof (cases "queue = []")
    case True
    with "1.prems" show ?thesis by (simp add: follow_replies.simps [of us inc "[]"])
  next
    case False
    let ?new = "fresh_keys inc (children_of us (last queue))"
    have q: "set queue = insert (last queue) (set (butlast queue))"
      using False by (metis append_butlast_last_id list.simps(15) rotate1.simps(2) set_rotate1)
    have "set (butlast queue @ ?new) \<subseteq> set (inc @ ?new)" using "1.prems"(1) q by auto
    moreover have "\<forall>k \<in> set (inc @ ?new). P k"
    proof -
      have "last queue \<in> set inc" using "1.prems"(1) last_in_set [OF False] by (rule subsetD)
      with "1.prems"(2) have "P (last queue)" by (rule bspec)
      have "P c" if "c \<in> set ?new" for c
      proof -
        from that have "c \<in> set (children_of us (last queue))" unfolding fresh_keys_spec(2) by (rule DiffD1)
        with \<open>P (last queue)\<close> show ?thesis by (rule "1.prems"(4))
      qed
      with "1.prems"(2) show ?thesis unfolding set_append by (intro ballI) (elim UnE, auto)
    qed
    moreover have "\<forall>k \<in> set (inc @ ?new) - set (butlast queue @ ?new). set (children_of us k) \<subseteq> set (inc @ ?new)"
    proof
      fix k assume k: "k \<in> set (inc @ ?new) - set (butlast queue @ ?new)"
      then consider "k = last queue" | "k \<in> set inc - set queue" using q by auto
      then show "set (children_of us k) \<subseteq> set (inc @ ?new)"
        by cases (use "1.prems"(3) in \<open>auto simp: fresh_keys_spec(2)\<close>)
    qed
    ultimately have "set (inc @ ?new) \<subseteq> set (follow_replies us (inc @ ?new) (butlast queue @ ?new)) \<and>
        (\<forall>k \<in> set (follow_replies us (inc @ ?new) (butlast queue @ ?new)). P k) \<and>
        (\<forall>k \<in> set (follow_replies us (inc @ ?new) (butlast queue @ ?new)).
          set (children_of us k) \<subseteq> set (follow_replies us (inc @ ?new) (butlast queue @ ?new)))"
      using "1.prems"(4) by (rule "1.IH" [OF False refl])
    with False show ?thesis by (simp add: follow_replies.simps [of us inc queue] Let_def)
  qed
qed

lemma started: "k \<in> set (thread_start pe topic us) \<longleftrightarrow>
    (\<exists>u \<in> set us. \<exists>s \<in> set us. is_seed pe topic s \<and> thread_key u = thread_key s \<and> k = post_key u)"
  by (auto simp: thread_start_def)

lemma followed:
  "k \<in> set (follow_replies us (thread_start pe topic us) (thread_start pe topic us)) \<longleftrightarrow> in_broadcast pe topic us k"
proof -
  let ?s = "thread_start pe topic us"
  have step: "in_broadcast pe topic us k \<Longrightarrow> c \<in> set (children_of us k) \<Longrightarrow> in_broadcast pe topic us c" for k c
    by (auto simp: children_of_def intro: in_broadcast.reply)
  have "\<forall>k \<in> set ?s. in_broadcast pe topic us k" 
  proof
    fix k assume "k \<in> set ?s"
    then obtain u s where "u \<in> set us" "s \<in> set us" "is_seed pe topic s" "thread_key u = thread_key s" "k = post_key u"
      unfolding started by blast
    then show "in_broadcast pe topic us k" by (simp only: in_broadcast.seed)
  qed
  from follow_replies_spec [OF subset_refl this _ step] have spec: "set ?s \<subseteq> set (follow_replies us ?s ?s)"
    "\<forall>k \<in> set (follow_replies us ?s ?s). in_broadcast pe topic us k"
    "\<forall>k \<in> set (follow_replies us ?s ?s). set (children_of us k) \<subseteq> set (follow_replies us ?s ?s)" by auto
  have "k \<in> set (follow_replies us ?s ?s)" if "in_broadcast pe topic us k" for k
    using that
  proof induction
    case (seed u s)
    with spec(1) started show ?case by blast
  next
    case (reply k u)
    then have "post_key u \<in> set (children_of us k)" by (auto simp: children_of_def)
    with spec(3) reply.IH show ?case by blast
  qed
  with spec(2) show ?thesis by blast
qed

lemma update_keyed:
  "\<exists>ws. AList.update (upd_id u) u (map (\<lambda>v. (upd_id v, v)) vs) = map (\<lambda>v. (upd_id v, v)) ws \<and> set ws \<subseteq> insert u (set vs)"
proof (induction vs)
  case Nil
  have "AList.update (upd_id u) u (map (\<lambda>v. (upd_id v, v)) []) = map (\<lambda>v. (upd_id v, v)) [u]" by simp
  then show ?case by (intro exI [of _ "[u]"]) simp
next
  case (Cons v vs)
  then obtain ws where ws: "AList.update (upd_id u) u (map (\<lambda>v. (upd_id v, v)) vs) = map (\<lambda>v. (upd_id v, v)) ws"
    "set ws \<subseteq> insert u (set vs)" by blast
  show ?case
  proof (cases "upd_id v = upd_id u")
    case True
    then show ?thesis by (intro exI [of _ "u # vs"]) auto
  next
    case False
    with ws show ?thesis by (intro exI [of _ "v # ws"]) auto
  qed
qed

lemma by_id_spec:
  "distinct (map upd_id (by_id us)) \<and> upd_id ` set (by_id us) = upd_id ` set us \<and> set (by_id us) \<subseteq> set us"
proof -
  let ?f = "\<lambda>us. fold (\<lambda>u. AList.update (upd_id u) u) us []"
  have "\<exists>ws. ?f us = map (\<lambda>v. (upd_id v, v)) ws \<and> set ws \<subseteq> set us \<and> distinct (map upd_id ws) \<and> upd_id ` set ws = upd_id ` set us"
  proof (induction us rule: rev_induct)
    case (snoc u us)
    then obtain ws where ws: "?f us = map (\<lambda>v. (upd_id v, v)) ws" "set ws \<subseteq> set us" "distinct (map upd_id ws)"
      "upd_id ` set ws = upd_id ` set us" by blast
    obtain xs where xs: "AList.update (upd_id u) u (map (\<lambda>v. (upd_id v, v)) ws) = map (\<lambda>v. (upd_id v, v)) xs"
      "set xs \<subseteq> insert u (set ws)" using update_keyed by blast
    have keys: "map fst (map (\<lambda>v. (upd_id v, v)) ys) = map upd_id ys" for ys :: "update list" by simp
    have "distinct (map fst (AList.update (upd_id u) u (map (\<lambda>v. (upd_id v, v)) ws)))"
      by (rule distinct_update) (simp only: keys ws(3))
    then have "distinct (map upd_id xs)" unfolding xs(1) keys .
    moreover have "upd_id ` set xs = insert (upd_id u) (upd_id ` set ws)"
      using update_fst [of "upd_id u" u "map (\<lambda>v. (upd_id v, v)) ws"] unfolding xs(1) by (simp add: image_image)
    ultimately show ?case using ws xs by (intro exI [of _ xs]) auto
  qed simp
  then obtain ws where ws: "?f us = map (\<lambda>v. (upd_id v, v)) ws" "set ws \<subseteq> set us" "distinct (map upd_id ws)"
      "upd_id ` set ws = upd_id ` set us" by blast
  have "by_id us = ws" unfolding by_id_def ws(1) by (simp add: comp_def)
  with ws(2-4) show ?thesis by simp
qed

lemma translation_recategorised: "translation_source pe (u\<lparr>category := c\<rparr>) = translation_source pe u"
  by (cases "body u"; cases "quoted_text u") (simp_all add: translation_source_def Let_def)

lemma broadcast_recategorised:
  "in_broadcast pe topic (map (\<lambda>u. u\<lparr>category := f u\<rparr>) us) k \<longleftrightarrow> in_broadcast pe topic us k"
proof -
  let ?c = "\<lambda>u. u\<lparr>category := f u\<rparr>"
  let ?vs = "map ?c us"
  have same: "post_key (?c u) = post_key u" "thread_key (?c u) = thread_key u" "is_seed pe topic (?c u) = is_seed pe topic u"
    "parent_key (?c u) = parent_key u" for u
    by (simp_all add: post_key_def thread_key_def is_seed_def source_text_def translation_recategorised parent_key_def)
  have up: "in_broadcast pe topic ?vs k" if "in_broadcast pe topic us k" for k
    using that
  proof induction
    case (seed u s)
    from in_broadcast.seed [of "?c u" ?vs "?c s" pe topic] seed show ?case unfolding same by simp
  next
    case (reply k u)
    from in_broadcast.reply [OF reply.IH, of "?c u"] reply show ?case unfolding same by simp
  qed
  have down: "in_broadcast pe topic us k" if "in_broadcast pe topic ?vs k" for k
    using that
  proof induction
    case (seed u s)
    then obtain x y where "u = ?c x" "x \<in> set us" "s = ?c y" "y \<in> set us" by auto
    with seed show ?case using in_broadcast.seed [of x us y pe topic] by (simp add: same)
  next
    case (reply k u)
    then obtain x where "u = ?c x" "x \<in> set us" by auto
    with reply show ?case using in_broadcast.reply [of pe topic us k x] by (simp add: same)
  qed
  from up down show ?thesis by blast
qed

text \<open>
  C15: For a live request exactly the posts of the broadcast are selected, each id once, in the order
  of time and id: the threads of the seeds and, however the work list is walked, all replies of the
  same author reachable from them. Nothing is selected without a seed.
\<close>

theorem live_selection:
  assumes "topic = ''live'' \<or> topic = birthday_live"
  shows "set (map upd_id (select_updates pe us topic)) = {upd_id u |u. u \<in> set us \<and> in_broadcast pe topic us (post_key u)} \<and>
    distinct (map upd_id (select_updates pe us topic)) \<and>
    sorted (map (\<lambda>u. (created_at u, upd_id u)) (select_updates pe us topic))"
proof -
  let ?c = "\<lambda>u. u\<lparr>category := JStr (detect_category u)\<rparr>"
  let ?vs = "map ?c us"
  let ?fs = "filter (\<lambda>u. post_key u \<in> set (follow_replies ?vs (thread_start pe topic ?vs) (thread_start pe topic ?vs))) ?vs"
  have sel: "select_updates pe us topic = sort_key (\<lambda>u. (created_at u, upd_id u)) (by_id ?fs)"
    using assms by (simp add: select_updates_def Let_def)
  have fs: "?fs = map ?c (filter (\<lambda>u. in_broadcast pe topic us (post_key u)) us)"
    unfolding followed filter_map comp_def broadcast_recategorised by (simp add: post_key_def)
  have "upd_id ` set ?fs = {upd_id u |u. u \<in> set us \<and> in_broadcast pe topic us (post_key u)}"
    unfolding fs by (auto simp: image_image)
  moreover have "distinct (map upd_id (sort_key (\<lambda>u. (created_at u, upd_id u)) (by_id ?fs)))"
    using by_id_spec [of ?fs] by (simp add: distinct_map)
  ultimately show ?thesis unfolding sel using by_id_spec [of ?fs] by (simp add: image_set [symmetric])
qed

section \<open>A request that is handled ends\<close>

definition open_work :: "date_job \<Rightarrow> nat" where
  "open_work j = length (j_pending j) + (if j_status j = Collecting then 1 else 0)"

definition left_work :: "date_job \<Rightarrow> nat" where
  "left_work j = (if live_job j then 1 else 0) + sum_list (map (\<lambda>i. 4 - min 3 (tries j i)) (remaining j))"

lemma load_local_frame:
  assumes "load_local de wd w = Some (e, v)"
  shows "j_pending (w_job v) = j_pending (w_job w) \<and> j_status (w_job v) = j_status (w_job w) \<and> left_work (w_job v) = left_work (w_job w)"
proof -
  let ?P = "\<lambda>j. j_pending j = j_pending (w_job w) \<and> j_status j = j_status (w_job w) \<and> j_selected j = j_selected (w_job w) \<and>
    j_delivered j = j_delivered (w_job w) \<and> j_attempts j = j_attempts (w_job w)"
  have "safe ?P (bindA (observe_all us w) (\<lambda>v. Some (None, on_job (\<lambda>j. j\<lparr>j_local := True\<rparr>) v)))" for us
    by (rule safe_bindA [of ?P], rule observe_all_safe) (simp_all add: observing_def)
  then have "safe ?P (load_local de wd w)"
    by (simp add: load_local_def Let_def split: option.split sum.split)
  with assms have "?P (w_job v)" by simp
  then show ?thesis by (simp add: left_work_def live_job_def remaining_def tries_def)
qed

lemma collect_one_frame:
  assumes "collect_one de wd w = Some (e, v)" "j_pending (w_job w) \<noteq> []"
  shows "open_work (w_job v) < open_work (w_job w)"
proof -
  let ?P = "\<lambda>j. j_pending j = j_pending (w_job w) \<and> j_status j = j_status (w_job w)"
  let ?Q = "\<lambda>j. j_status j = j_status (w_job w) \<and> (j_pending j = j_pending (w_job w) \<or> j_pending j = tl (j_pending (w_job w)))"
  have cover: "safe ?P (cover_source de wd (hd (j_pending (w_job w))) w)" by (rule cover_source_frame) simp_all
  have never: "cover_source de wd h w = Some (r, x) \<Longrightarrow> r = None" for h r x
    by (auto simp: cover_source_def recover_search_def Let_def split: if_splits sum.splits option.splits prod.splits)
  from assms(1) obtain r x where x: "cover_source de wd (hd (j_pending (w_job w))) w = Some (r, x)"
    by (auto simp: collect_one_def bindA_def split: option.splits)
  with never have "r = None" by blast
  with x assms(1) have "v = on_job (\<lambda>j. j\<lparr>j_pending := tl (j_pending j)\<rparr>) x" by (simp add: collect_one_def bindA_def)
  moreover have "?P (w_job x)" using cover x by simp
  ultimately show ?thesis using assms(2) by (cases "j_pending (w_job w)") (simp_all add: open_work_def)
qed

lemma sum_less:
  fixes f g :: "'a \<Rightarrow> nat"
  shows "i \<in> set xs \<Longrightarrow> (\<And>x. x \<in> set xs \<Longrightarrow> f x \<le> g x) \<Longrightarrow> f i < g i \<Longrightarrow> sum_list (map f xs) < sum_list (map g xs)"
proof (induction xs)
  case (Cons a xs)
  have "sum_list (map f xs) \<le> sum_list (map g xs)" by (rule sum_list_mono) (use Cons.prems(2) in auto)
  then show ?case using Cons by (cases "i = a") (auto simp: add_less_le_mono add_le_less_mono)
qed simp

lemma sum_filter_less:
  fixes f :: "'a \<Rightarrow> nat"
  shows "i \<in> set xs \<Longrightarrow> 0 < f i \<Longrightarrow> \<not> P i \<Longrightarrow> sum_list (map f (filter P xs)) < sum_list (map f xs)"
proof (induction xs)
  case (Cons a xs)
  have "sum_list (map f (filter P xs)) \<le> sum_list (map f xs)" by (induction xs) auto
  then show ?case using Cons by (cases "i = a") (auto simp: add_less_le_mono)
qed simp

lemma remaining_in: "remaining j \<noteq> [] \<Longrightarrow> hd (remaining j) \<in> set (remaining j)"
  by (rule hd_in_set)

lemma after_attempt_frame:
  assumes "after_attempt de wd k i w = Some (None, v)" "i \<in> set (remaining (w_job w))" "live_job (w_job w)" "j_status (w_job w) \<noteq> Collecting"
  shows "open_work (w_job v) = open_work (w_job w) \<and> left_work (w_job v) < left_work (w_job w)"
proof (cases "draft_delivered de k i (w_state w)")
  case True
  let ?j = "(w_job w)\<lparr>j_delivered := j_delivered (w_job w) @ [i], j_retry := None\<rparr>"
  have "remaining ?j = filter (\<lambda>x. x \<noteq> i) (remaining (w_job w))" by (auto simp: remaining_def intro: filter_cong)
  moreover have "sum_list (map (\<lambda>x. 4 - min 3 (tries (w_job w) x)) (filter (\<lambda>x. x \<noteq> i) (remaining (w_job w))))
      < sum_list (map (\<lambda>x. 4 - min 3 (tries (w_job w) x)) (remaining (w_job w)))"
    using assms(2) by (intro sum_filter_less) auto
  ultimately show ?thesis using True assms(1)
    by (auto simp: after_attempt_def open_work_def left_work_def live_job_def tries_def)
next
  case False
  let ?n = "Suc (tries (w_job w) i)"
  have t: "tries (j\<lparr>j_attempts := AList.update i n (j_attempts j)\<rparr>) x = (if x = i then n else tries j x)" for j n x
    by (simp add: tries_def update_conv')
  define j where "j = (w_job w)\<lparr>j_attempts := AList.update i ?n (j_attempts (w_job w)),
    j_retry := Some (sw_late wd + minutes (min 30 (2 ^ ?n)))\<rparr>"
  have tj: "tries j x = (if x = i then ?n else tries (w_job w) x)" for x by (simp add: j_def tries_def update_conv')
  have rj: "remaining j = remaining (w_job w)" "j_pending j = j_pending (w_job w)" "j_status j = j_status (w_job w)"
    by (simp_all add: j_def remaining_def)
  show ?thesis
  proof (cases "3 \<le> ?n")
    case True
    let ?s = "j\<lparr>j_status := TranslationPending\<rparr>"
    have "w_job v = ?s" using assms(1) False True
      by (auto simp: after_attempt_def Let_def notify_def j_def on_job_def split: if_splits)
    moreover have "sum_list (map (\<lambda>x. 4 - min 3 (tries ?s x)) (remaining ?s)) \<le>
        sum_list (map (\<lambda>x. 4 - min 3 (tries (w_job w) x)) (remaining (w_job w)))"
    proof -
      have "tries ?s = tries j" "remaining ?s = remaining (w_job w)" using rj(1) by (simp_all add: tries_def remaining_def fun_eq_iff)
      then show ?thesis by (simp only:) (rule sum_list_mono, auto simp: tj min_def)
    qed
    ultimately show ?thesis using assms(3,4) rj by (simp add: open_work_def left_work_def live_job_def)
  next
    case small: False
    then have "w_job v = j" using assms(1) False by (auto simp: after_attempt_def Let_def j_def on_job_def)
    moreover have "sum_list (map (\<lambda>x. 4 - min 3 (tries j x)) (remaining j)) <
        sum_list (map (\<lambda>x. 4 - min 3 (tries (w_job w) x)) (remaining j))"
      by (rule sum_less [of i]) (use assms(2) small rj(1) in \<open>auto simp: tj\<close>)
    ultimately show ?thesis using rj by (simp add: open_work_def left_work_def live_job_def)
  qed
qed

lemma notify_none: "notify wd key w = Some (None, v) \<Longrightarrow> w_job v = w_job w"
  by (auto simp: notify_def split: if_splits)

definition less_work :: "date_job \<Rightarrow> date_job \<Rightarrow> bool" where
  "less_work j i \<longleftrightarrow> open_work j < open_work i \<or> open_work j = open_work i \<and> left_work j < left_work i"

lemma deliver_one_frame:
  assumes "deliver_one de wd k w = Some (None, v)" "remaining (w_job w) \<noteq> []" "j_status (w_job w) = Delivering"
  shows "less_work (w_job v) (w_job w)"
proof -
  let ?i = "hd (remaining (w_job w))"
  have i: "?i \<in> set (remaining (w_job w))" using assms(2) by (rule hd_in_set)
  have live: "live_job (w_job w)" "j_status (w_job w) \<noteq> Collecting" using assms(3) by (simp_all add: live_job_def)
  let ?drop = "\<lambda>a. cover a CoverDisabled (on_job (\<lambda>j. j\<lparr>j_selected := remove1 ?i (j_selected j)\<rparr>) w)"
  have "sum_list (map f (filter P (remove1 x xs))) < sum_list (map f (filter P xs))"
    if "x \<in> set xs" "P x" "0 < f x" for f :: "pystr \<Rightarrow> nat" and P x xs
    using that by (induction xs) auto
  from this [of ?i "j_selected (w_job w)" "\<lambda>i. i \<notin> set (j_delivered (w_job w))" "\<lambda>i. 4 - min 3 (tries (w_job w) i)"]
  have drop: "less_work (w_job (?drop a)) (w_job w)" for a
    using i live by (simp add: less_work_def open_work_def left_work_def cover_def remaining_def tries_def live_job_def)
  have part: "less_work ((w_job w)\<lparr>j_status := JobPartial\<rparr>) (w_job w)"
    using live by (simp add: less_work_def open_work_def left_work_def remaining_def tries_def live_job_def)
  have att: "less_work (w_job v) (w_job w)" if "after_attempt de wd k ?i (w\<lparr>w_state := st, w_index := ix\<rparr>) = Some (None, v)" for st ix
    using after_attempt_frame [OF that] i live by (simp add: less_work_def)
  show ?thesis
  proof (cases "job_update de (sw_now wd) ?i w")
    case (Inl e)
    with assms(1) show ?thesis by (simp add: deliver_one_def Let_def)
  next
    case (Inr r)
    show ?thesis
    proof (cases r)
      case None
      with Inr assms(1) part show ?thesis by (auto simp: deliver_one_def Let_def on_job_def)
    next
      case (Some u)
      have "v = ?drop (author u) \<or> (\<exists>st ix. after_attempt de wd k ?i (w\<lparr>w_state := st, w_index := ix\<rparr>) = Some (None, v))"
      proof (cases "from_source (w_job w) u")
        case False
        with Some Inr assms(1) show ?thesis by (simp add: deliver_one_def Let_def)
      next
        case True
        show ?thesis
        proof (cases "configured_only (de_cs de) [u]")
          case None
          with True Some Inr assms(1) show ?thesis by (simp add: deliver_one_def Let_def)
        next
          case conf: (Some ps)
          obtain r st ix where d: "sw_deliver wd k ps (w_state w, w_index w) = (r, st, ix)" by (cases "sw_deliver wd k ps (w_state w, w_index w)")
          show ?thesis
          proof (cases "ps = []")
            case True
            with conf \<open>from_source (w_job w) u\<close> Some Inr assms(1) show ?thesis by (simp add: deliver_one_def Let_def)
          next
            case False
            then obtain p qs where "ps = p # qs" by (cases ps) auto
            with d conf True Some Inr assms(1) show ?thesis by (cases r) (auto simp: deliver_one_def Let_def)
          qed
        qed
      qed
      then consider (drop) "v = ?drop (author u)" | (ask) st ix where "after_attempt de wd k ?i (w\<lparr>w_state := st, w_index := ix\<rparr>) = Some (None, v)"
        by blast
      then show ?thesis using drop att by cases simp_all
    qed
  qed
qed

lemma finish_job_frame:
  assumes "finish_job wd k w = Some (None, v)" "j_status (w_job w) = Delivering"
  shows "less_work (w_job v) (w_job w)"
proof -
  have "left_work ((w_job w)\<lparr>j_provisional := b, j_status := st\<rparr>) < left_work (w_job w)" if "st = JobComplete \<or> st = JobPartial" for b st
    using assms(2) that by (auto simp: left_work_def live_job_def remaining_def tries_def)
  then show ?thesis using notify_none [OF assms(1) [unfolded finish_job_def Let_def]] assms(2)
    by (auto simp: less_work_def open_work_def)
qed

lemma begin_delivery_frame:
  assumes "begin_delivery de wd k w = Some (None, v)" "j_status (w_job w) = Collecting"
  shows "j_status (w_job v) = Delivering \<and> open_work (w_job v) < open_work (w_job w)"
proof -
  obtain us ps where "notify wd (notice_key k (''overview:'' @ nat_text (j_generation (w_job w))))
                 (on_job (\<lambda>j. j\<lparr>j_selected := map upd_id (select_updates (de_pe de) ps (j_topic j)), j_status := Delivering\<rparr>) w) = Some (None, v)"
    using assms(1) by (auto simp: begin_delivery_def Let_def split: sum.splits option.splits)
  from notify_none [OF this] assms(2) show ?thesis by (simp add: open_work_def)
qed

lemma handle_job_progress:
  assumes "live_job (w_job w)" "handle_job de wd k w = Some (None, v)"
  shows "less_work (w_job v) (w_job w)"
proof -
  let ?stop = "\<lambda>x. if remaining (w_job x) \<noteq> [] then deliver_one de wd k x else finish_job wd k x"
  from assms(2) obtain x where x: "load_local de wd w = Some (None, x)" and rest:
    "(if j_pending (w_job x) \<noteq> [] then collect_one de wd x
      else bindA (if j_status (w_job x) = Collecting then begin_delivery de wd k x else Some (None, x)) ?stop) = Some (None, v)"
    by (auto simp: handle_job_def bindA_def split: option.splits)
  from load_local_frame [OF x] have same: "open_work (w_job x) = open_work (w_job w)" "left_work (w_job x) = left_work (w_job w)"
    "live_job (w_job x)" using assms(1) by (simp_all add: open_work_def live_job_def)
  have stop: "less_work (w_job v) (w_job y)" if "?stop y = Some (None, v)" "j_status (w_job y) = Delivering" for y
    using that deliver_one_frame [of de wd k y v] finish_job_frame [of wd k y v] by (simp split: if_splits)
  have "less_work (w_job v) (w_job x)"
  proof (cases "j_pending (w_job x) = []")
    case False
    with rest collect_one_frame [of de wd x None v] show ?thesis by (simp add: less_work_def)
  next
    case pending: True
    show ?thesis
    proof (cases "j_status (w_job x) = Collecting")
      case True
      with rest pending obtain y where "begin_delivery de wd k x = Some (None, y)" "?stop y = Some (None, v)"
        by (auto simp: bindA_def split: option.splits)
      with begin_delivery_frame [OF _ True] stop [of y] show ?thesis by (fastforce simp: less_work_def)
    next
      case False
      with rest pending have "?stop x = Some (None, v)" by (simp add: bindA_def)
      moreover have "j_status (w_job x) = Delivering" using False same(3) by (simp add: live_job_def)
      ultimately show ?thesis by (rule stop)
    qed
  qed
  then show ?thesis by (simp add: less_work_def same)
qed

text \<open>
  C25: A request ends: there is no infinite run of steps that handle a job without an exception,
  whatever the collector, the search, the delivery and the translation answer in each of them. The
  sources that are left, then the tries that are left, decrease in every step.
\<close>

theorem handled_request_ends:
  "wf {(v, w). live_job (w_job w) \<and> (\<exists>de wd k. handle_job de wd k w = Some (None, v))}"
proof (rule wf_subset)
  show "wf (inv_image (measure id <*lex*> measure id) (\<lambda>w :: work. (open_work (w_job w), left_work (w_job w))))"
    by (intro wf_inv_image wf_lex_prod wf_measure)
  show "{(v, w). live_job (w_job w) \<and> (\<exists>de wd k. handle_job de wd k w = Some (None, v))} \<subseteq>
      inv_image (measure id <*lex*> measure id) (\<lambda>w. (open_work (w_job w), left_work (w_job w)))"
    using handle_job_progress by (fastforce simp: less_work_def)
qed

section \<open>What stops all requests\<close>

lemma archive_posts_raises:
  assumes "\<forall>v \<in> set rs. \<exists>r u. v = JObj r \<and> update_from_dict pe now r = Inr u" "update_from_dict pe now d = Inl e"
  shows "archive_posts pe now (rs @ JObj d # vs) = Some (Inl e)"
  using assms(1)
proof (induction rs)
  case (Cons v rs)
  then obtain r u where "v = JObj r" "update_from_dict pe now r = Inr u" by auto
  with Cons show ?case by simp
qed (simp add: assms(2))

lemma update_same: "map_of xs k = Some v \<Longrightarrow> AList.update k v xs = xs"
  by (induction xs) auto

lemma put_same: "map_of (d_jobs a) k = Some j \<Longrightarrow>
    put_work k \<lparr>w_state = d_state a, w_index = d_index a, w_notices = d_notices a, w_job = j\<rparr> a = a"
  by (simp add: put_work_def update_same)

lemma first_source_job:
  assumes "source_jobs js = (k, j) # rest" "j_retry j = None" "distinct (map fst js)"
  shows "next_job now js = Some (k, j)" "map_of js k = Some j"
proof -
  have "(k, j) \<in> set (source_jobs js)" using assms(1) by simp
  then have j: "(k, j) \<in> set js" "live_job j" by (auto simp: source_jobs_def)
  with assms show "next_job now js = Some (k, j)" by (simp add: next_job_def due_job_def)
  show "map_of js k = Some j" using map_of_is_SomeI [OF assms(3) j(1)] .
qed


text \<open>
  An entry of the repository queue whose source is null ends the whole wake with
  \<open>AttributeError\<close>: no later entry is read and no request is worked on.
\<close>

theorem null_source_blocks_queue:
  assumes "de_bridge de" "case d_checked a of None \<Rightarrow> True | Some t \<Rightarrow> minutes 5 \<le> now - t"
    and "entry_id i" "i \<notin> set (d_accepted a)" "entry_date day" "topic_known topic"
    and "de_window de day = Some (start, until)" "start \<le> now" "length vs < 50"
  shows "process_requests de now send
      (Inr (JList (JObj [(''id'', JStr i), (''date'', JStr day), (''topic'', JStr topic), (''source'', JNull)] # vs))) wds a =
    Some (a\<lparr>d_checked := Some now, d_last_error := Some ''AttributeError''\<rparr>)"
proof -
  let ?d = "[(''id'', JStr i), (''date'', JStr day), (''topic'', JStr topic), (''source'', JNull)]"
  have "entry_keys ?d" by (auto simp: entry_keys_def)
  then have "plan_entry (d_accepted a) (JObj ?d) = AskOddSource i day topic"
    using assms(3-6) by (simp add: plan_entry_def dict_get_def)
  moreover have "\<not> (case d_checked a of None \<Rightarrow> False | Some t \<Rightarrow> now - t < minutes 5)"
    using assms(2) by (cases "d_checked a") auto
  ultimately have "sync_bridge de now send (Inr (JList (JObj ?d # vs))) a = (Some ''AttributeError'', a\<lparr>d_checked := Some now\<rparr>)"
    using assms(1,7-9) by (simp add: sync_bridge_def Let_def)
  then show ?thesis by (simp add: process_requests_def)
qed

section \<open>Witnesses\<close>

definition demo_dates :: date_env where
  "demo_dates = \<lparr>de_cs = [fan_source], de_pe = plain_env, de_sha = (\<lambda>s. s), de_short = (\<lambda>s. s), de_zone = ''UTC'',
     de_window = (\<lambda>s. Some (0, 50)), de_bridge = False\<rparr>"

definition quiet_world :: step_world where
  "quiet_world = \<lparr>sw_now = 60, sw_late = 60, sw_collect = (\<lambda>h s t. Inr ([], [])), sw_search = (\<lambda>h s t. None),
     sw_cookies = True, sw_send = (\<lambda>k. True), sw_deliver = (\<lambda>k us s. (None, s))\<rparr>"

definition no_requests :: date_app where
  "no_requests = \<lparr>d_state = fresh_state, d_index = empty_index, d_notices = [], d_jobs = [], d_checked = None,
     d_accepted = [], d_bridge_error = None, d_last_error = None\<rparr>"

definition demo_job :: date_job where
  "demo_job = fresh_job demo_dates ''d'' ''all'' [] 0 50 [''fan'']"

definition demo_key :: pystr where "demo_key = ''d:UTC:all::''"

lemma demo_ask: "enqueue demo_dates 60 None ''d'' ''all'' [] [] no_requests = (Inr demo_key, no_requests\<lparr>d_jobs := [(demo_key, demo_job)]\<rparr>)"
proof -
  have e: "enabled_handles [fan_source] = [''fan'']" by (simp add: enabled_handles_def fan_handles first_copies_def demo_fan)
  have "py_casefold [] = []" by code_simp
  with e show ?thesis
    by (simp add: enqueue_def plan_request_def no_requests_def acknowledge_def demo_dates_def topic_known_def
      request_key_def demo_job_def demo_key_def accepted_handles_def)
qed

definition covered_job :: date_job where
  "covered_job = demo_job\<lparr>j_local := True, j_pending := [], j_coverage := [(''fan'', CoverComplete)]\<rparr>"

definition ended_job :: date_job where
  "ended_job = covered_job\<lparr>j_status := JobComplete\<rparr>"

lemma demo_local: "load_local demo_dates quiet_world \<lparr>w_state = fresh_state, w_index = empty_index, w_notices = [], w_job = demo_job\<rparr> =
    Some (None, \<lparr>w_state = fresh_state, w_index = empty_index, w_notices = [], w_job = demo_job\<lparr>j_local := True\<rparr>\<rparr>)"
proof -
  have "configured_only cs [] = Some []" for cs by (simp add: configured_only_def best_posts_def by_authors_def)
  moreover have "date_window pe now a b empty_index = Inr []" for pe now a b
    by (simp add: date_window_def window_rows_def empty_index_def)
  ultimately show ?thesis
    by (simp add: load_local_def demo_job_def fresh_job_def fresh_state_def bindA_def on_job_def)
qed

lemma demo_first: "date_step demo_dates quiet_world (no_requests\<lparr>d_jobs := [(demo_key, demo_job)]\<rparr>) =
    Some (None, no_requests\<lparr>d_jobs := [(demo_key, covered_job)]\<rparr>)"
proof -
  have conf: "configured_only cs [] = Some []" for cs by (simp add: configured_only_def best_posts_def by_authors_def)
  have keys: "enabled_keys [fan_source] = [''fan'']" by (simp add: enabled_keys_def fan_handles demo_fan)
  have job: "next_job 60 [(demo_key, demo_job)] = Some (demo_key, demo_job)"
    by (simp add: next_job_def source_jobs_def due_job_def live_job_def demo_job_def fresh_job_def)
  let ?w = "\<lparr>w_state = fresh_state, w_index = empty_index, w_notices = [], w_job = demo_job\<lparr>j_local := True\<rparr>\<rparr>"
  have "collect_one demo_dates quiet_world ?w = Some (None, ?w\<lparr>w_job := covered_job\<rparr>)"
    using conf keys by (simp add: collect_one_def cover_source_def observe_mine_def quiet_world_def demo_dates_def demo_fan
      demo_job_def fresh_job_def cover_def on_job_def bindA_def covered_job_def)
  moreover have "j_pending demo_job \<noteq> []" by (simp add: demo_job_def fresh_job_def)
  ultimately have "handle_job demo_dates quiet_world demo_key \<lparr>w_state = fresh_state, w_index = empty_index, w_notices = [], w_job = demo_job\<rparr> =
      Some (None, ?w\<lparr>w_job := covered_job\<rparr>)"
    unfolding handle_job_def demo_local by (simp add: bindA_def)
  with job show ?thesis by (simp add: date_step_def no_requests_def put_work_def quiet_world_def)
qed

definition demo_notices :: "pystr list" where
  "demo_notices = [notice_key demo_key (''overview:'' @ nat_text 1), notice_key demo_key (''finished:'' @ nat_text 1 @ '':'' @ nat_text 0)]"

lemma demo_second: "date_step demo_dates quiet_world (no_requests\<lparr>d_jobs := [(demo_key, covered_job)]\<rparr>) =
    Some (None, no_requests\<lparr>d_jobs := [(demo_key, ended_job)], d_notices := demo_notices\<rparr>)"
proof -
  have conf: "configured_only cs [] = Some []" for cs by (simp add: configured_only_def best_posts_def by_authors_def)
  have sel: "select_updates pe [] t = []" for pe t
    by (simp add: select_updates_def thread_start_def follow_replies.simps by_id_def)
  have job: "next_job 60 [(demo_key, covered_job)] = Some (demo_key, covered_job)"
    by (simp add: next_job_def source_jobs_def due_job_def live_job_def covered_job_def demo_job_def fresh_job_def)
  let ?w = "\<lparr>w_state = fresh_state, w_index = empty_index, w_notices = [], w_job = covered_job\<rparr>"
  have keys: "notice_key demo_key (''finished:'' @ nat_text 1 @ '':'' @ nat_text 0) \<noteq> notice_key demo_key (''overview:'' @ nat_text 1)"
    by (simp add: notice_key_def)
  have "handle_job demo_dates quiet_world demo_key ?w =
      Some (None, ?w\<lparr>w_job := ended_job, w_notices := demo_notices\<rparr>)"
    using conf sel keys
    by (simp add: handle_job_def load_local_def covered_job_def demo_job_def fresh_job_def bindA_def begin_delivery_def
      notify_def quiet_world_def demo_dates_def on_job_def remaining_def finish_job_def all_covered_def ended_job_def demo_notices_def)
  with job show ?thesis by (simp add: date_step_def no_requests_def put_work_def quiet_world_def)
qed


text \<open>Two live posts of one author; the reply has no conversation of its own thread but names its parent.\<close>

definition live_post :: update where "live_post = demo_post ''1'' ''live now'' 10 ''1''"

definition reply_post :: update where
  "reply_post = (demo_post ''2'' ''hello'' 40 ''2'')\<lparr>reply_to_id := JStr ''1''\<rparr>"

lemma live_seed: "is_seed plain_env ''live'' live_post"
proof -
  have "live_text_found ''live now''" "py_strip ''live now'' = ''live now''" "py_strip [] = []" "''live'' \<noteq> birthday_live" by code_simp+
  then show ?thesis by (simp add: is_seed_def source_text_def translation_source_def live_post_def demo_post_def)
qed

theorem live_selection_witness:
  "{''1'', ''2''} \<subseteq> set (map upd_id (select_updates plain_env [reply_post, live_post] ''live''))"
proof -
  let ?us = "[reply_post, live_post]"
  have one: "in_broadcast plain_env ''live'' ?us (post_key live_post)"
    by (rule in_broadcast.seed [of live_post _ live_post]) (simp_all add: live_seed)
  have two: "in_broadcast plain_env ''live'' ?us (post_key reply_post)"
    by (rule in_broadcast.reply [OF one]) (simp_all add: reply_post_def live_post_def demo_post_def parent_key_def post_key_def)
  have "set (map upd_id (select_updates plain_env ?us ''live'')) = {upd_id u |u. u \<in> set ?us \<and> in_broadcast plain_env ''live'' ?us (post_key u)}"
    using live_selection [of "''live''" plain_env ?us] by blast
  moreover have "upd_id u \<in> {upd_id u |u. u \<in> set ?us \<and> in_broadcast plain_env ''live'' ?us (post_key u)}"
    if "u \<in> set ?us" "in_broadcast plain_env ''live'' ?us (post_key u)" for u
    using that by blast
  from this [OF _ one] this [OF _ two] have "upd_id live_post \<in> {upd_id u |u. u \<in> set ?us \<and> in_broadcast plain_env ''live'' ?us (post_key u)}"
    "upd_id reply_post \<in> {upd_id u |u. u \<in> set ?us \<and> in_broadcast plain_env ''live'' ?us (post_key u)}" by simp_all
  ultimately have "{upd_id live_post, upd_id reply_post} \<subseteq> set (map upd_id (select_updates plain_env ?us ''live''))" by simp
  then show ?thesis by (simp add: live_post_def reply_post_def demo_post_def)
qed

definition stalled :: date_app where
  "stalled = no_requests\<lparr>d_state := fresh_state\<lparr>archive := [(''7'', JObj [(''author'', JInt 1)])]\<rparr>,
     d_jobs := [(demo_key, demo_job\<lparr>j_source := ''fan''\<rparr>)]\<rparr>"


theorem null_source_blocks_queue_witness:
  "process_requests (demo_dates\<lparr>de_bridge := True\<rparr>) 60 (\<lambda>k. True)
      (Inr (JList [JObj [(''id'', JStr ''a''), (''date'', JStr ''2026-10-04''), (''topic'', JStr ''live''), (''source'', JNull)]]))
      [quiet_world] no_requests = Some (no_requests\<lparr>d_checked := Some 60, d_last_error := Some ''AttributeError''\<rparr>)"
proof (rule null_source_blocks_queue [where start = 0 and until = 50])
  show "entry_id ''a''" "entry_date ''2026-10-04''" "topic_known ''live''" by code_simp+
qed (simp_all add: demo_dates_def no_requests_def)

end
