(* ===== verification/PrivateStores.thy ===== *)
theory PrivateStores
  imports Scan "HOL-Library.Sublist"
begin

text \<open>
  The small tables of the private database: reminders of drafts (\<open>app/reminder_queue.py\<close> with the
  pass that sends them, \<open>app/reminder_runtime.py\<close>), the health of the sources
  (\<open>app/source_health.py\<close>), what is known of each work (\<open>app/fic_state.py\<close>), Telegram's file ids
  (\<open>app/media_file_cache.py\<close>) and the receipts of delivered media (\<open>app/media_delivery.py\<close>). A table is
  the list of its rows; the clock, random ids, SHA-256 and what Telegram answers are arguments.
\<close>

section \<open>Reminders\<close>

record reminder =
  rm_id :: pystr
  rm_draft :: pystr
  rm_due :: pystr
  rm_status :: pystr
  rm_label :: pystr
  rm_created :: pystr
  rm_reminded :: pystr

definition add_reminder :: "pystr \<Rightarrow> pystr \<Rightarrow> instant option \<Rightarrow> pystr \<Rightarrow> instant \<Rightarrow> reminder list \<Rightarrow> py_exc + reminder list" where
  "add_reminder job_id draft_id due_at label now t =
     (let due = (case due_at of None \<Rightarrow> [] | Some d \<Rightarrow> isoformat d) in
      if job_id \<in> set (map rm_id t) then Inl IntegrityError
      else Inr (t @ [\<lparr>rm_id = job_id, rm_draft = draft_id, rm_due = due,
        rm_status = (if due = [] then ''pinned'' else ''pending''), rm_label = take 100 label,
        rm_created = isoformat now, rm_reminded = []\<rparr>]))"

definition get_reminder :: "pystr \<Rightarrow> reminder list \<Rightarrow> reminder option" where
  "get_reminder job_id t = row_by rm_id job_id t"

definition reminder_due :: "instant \<Rightarrow> reminder \<Rightarrow> bool" where
  "reminder_due now r \<longleftrightarrow> rm_status r = ''pending'' \<and> rm_due r \<noteq> [] \<and> rm_due r \<le> isoformat now"

definition due_reminders :: "instant \<Rightarrow> int \<Rightarrow> reminder list \<Rightarrow> reminder list" where
  "due_reminders now limit t = take (nat (max 1 (min limit 100))) (sort_key rm_due (filter (reminder_due now) t))"

definition active_reminders :: "int \<Rightarrow> reminder list \<Rightarrow> reminder list" where
  "active_reminders limit t = take (nat (max 1 (min limit 100)))
     (sort_key (\<lambda>r. (rm_due r = [], rm_due r, rm_created r))
       (filter (\<lambda>r. rm_status r = ''pending'' \<or> rm_status r = ''pinned'') t))"

definition mark_sent :: "pystr \<Rightarrow> instant \<Rightarrow> reminder list \<Rightarrow> reminder list" where
  "mark_sent job_id at t = update_where (\<lambda>r. rm_id r = job_id \<and> rm_status r = ''pending'')
     (\<lambda>r. r\<lparr>rm_status := ''sent'', rm_reminded := isoformat at\<rparr>) t"

definition cancel_reminder :: "pystr \<Rightarrow> reminder list \<Rightarrow> bool \<times> reminder list" where
  "cancel_reminder job_id t =
     (let P = (\<lambda>r. rm_id r = job_id \<and> (rm_status r = ''pending'' \<or> rm_status r = ''pinned''))
      in (0 < rowcount P t, update_where P (\<lambda>r. r\<lparr>rm_status := ''cancelled''\<rparr>) t))"

text \<open>
  \<open>process_due_reminders\<close>: \<open>send\<close> is the keyed send with its exception. A caption that is no text
  cannot be joined to the heading.
\<close>

datatype send_result = Accepted | SendFailed

datatype pass_error = SendError | PassRaised py_exc

fun remind_all :: "state_data \<Rightarrow> instant \<Rightarrow> (pystr \<Rightarrow> pystr \<Rightarrow> send_result) \<Rightarrow> reminder list \<Rightarrow> reminder list \<Rightarrow>
    pass_error option \<times> reminder list" where
  "remind_all st now send [] t = (None, t)"
| "remind_all st now send (r # rs) t = (case get_draft (rm_draft r) st of
       None \<Rightarrow> remind_all st now send rs (snd (cancel_reminder (rm_id r) t))
     | Some d \<Rightarrow> (case caption d of
           JStr s \<Rightarrow> (case send (''reminder:'' @ rm_id r) s of
               SendFailed \<Rightarrow> (Some SendError, t)
             | Accepted \<Rightarrow> remind_all st now send rs (mark_sent (rm_id r) now t))
         | _ \<Rightarrow> (Some (PassRaised TypeError), t)))"

definition process_due :: "state_data \<Rightarrow> instant \<Rightarrow> (pystr \<Rightarrow> pystr \<Rightarrow> send_result) \<Rightarrow> reminder list \<Rightarrow>
    pass_error option \<times> reminder list" where
  "process_due st now send t = remind_all st now send (due_reminders now 20 t) t"

text \<open>The operations on the table; an id that is taken changes nothing.\<close>

datatype reminder_op =
    AddReminder pystr pystr "instant option" pystr instant
  | CancelReminder pystr
  | RemindPass state_data instant "pystr \<Rightarrow> pystr \<Rightarrow> send_result"

fun reminder_step :: "reminder_op \<Rightarrow> reminder list \<Rightarrow> reminder list" where
  "reminder_step (AddReminder i d due l now) t = (case add_reminder i d due l now t of Inl e \<Rightarrow> t | Inr u \<Rightarrow> u)"
| "reminder_step (CancelReminder i) t = snd (cancel_reminder i t)"
| "reminder_step (RemindPass st now send) t = snd (process_due st now send t)"

fun reminder_legal :: "reminder_op \<Rightarrow> bool" where
  "reminder_legal (AddReminder i d due l now) = (case due of None \<Rightarrow> True | Some x \<Rightarrow> valid_instant x)"
| "reminder_legal _ = True"

definition reminder_ok :: "reminder list \<Rightarrow> bool" where
  "reminder_ok t \<longleftrightarrow> unique_on rm_id t \<and> (\<forall>r \<in> set t.
     rm_status r \<in> {''pending'', ''pinned'', ''sent'', ''cancelled''} \<and>
     (rm_due r = [] \<longrightarrow> rm_status r \<noteq> ''pending'') \<and>
     (rm_due r \<noteq> [] \<longrightarrow> (\<exists>d. valid_instant d \<and> rm_due r = isoformat d)))"

section \<open>The health of a source\<close>

record source_health =
  sh_source :: pystr
  sh_success :: pystr
  sh_failure :: pystr
  sh_failures :: nat
  sh_results :: int
  sh_latency :: int
  sh_code :: pystr

text \<open>
  The first run of letters, digits and underscores that starts with an ASCII letter, at most 64
  characters of it, unless it holds a word of a secret.
\<close>

definition ascii_letter :: "char \<Rightarrow> bool" where
  "ascii_letter c \<longleftrightarrow> (CHR ''a'' \<le> c \<and> c \<le> CHR ''z'') \<or> (CHR ''A'' \<le> c \<and> c \<le> CHR ''Z'')"

definition name_char :: "char \<Rightarrow> bool" where
  "name_char c \<longleftrightarrow> ascii_letter c \<or> is_digit c \<or> c = CHR ''_''"

definition first_name :: "pystr \<Rightarrow> pystr" where
  "first_name s = take 64 (takeWhile name_char (dropWhile (\<lambda>c. \<not> ascii_letter c) s))"

definition secret_words :: "pystr list" where
  "secret_words = [''token'', ''cookie'', ''secret'', ''auth'', ''password'', ''credential'']"

definition safe_error_code :: "pystr \<Rightarrow> pystr" where
  "safe_error_code s = (let n = first_name s in
     if n = [] \<or> (\<exists>w \<in> set secret_words. sublist w (py_casefold n)) then ''Error'' else n)"

definition health_success :: "instant \<Rightarrow> pystr \<Rightarrow> int \<Rightarrow> int \<Rightarrow> source_health list \<Rightarrow> source_health list" where
  "health_success now source n ms t = upsert sh_source
     \<lparr>sh_source = py_lower source, sh_success = isoformat now, sh_failure = [], sh_failures = 0,
      sh_results = max 0 n, sh_latency = max 0 ms, sh_code = []\<rparr>
     (\<lambda>r. r\<lparr>sh_success := isoformat now, sh_failures := 0, sh_results := max 0 n, sh_latency := max 0 ms, sh_code := []\<rparr>) t"

definition health_failure :: "instant \<Rightarrow> pystr \<Rightarrow> pystr \<Rightarrow> int \<Rightarrow> source_health list \<Rightarrow> source_health list" where
  "health_failure now source code ms t = upsert sh_source
     \<lparr>sh_source = py_lower source, sh_success = [], sh_failure = isoformat now, sh_failures = 1,
      sh_results = 0, sh_latency = max 0 ms, sh_code = safe_error_code code\<rparr>
     (\<lambda>r. r\<lparr>sh_failure := isoformat now, sh_failures := Suc (sh_failures r), sh_results := 0,
       sh_latency := max 0 ms, sh_code := safe_error_code code\<rparr>) t"

definition health_get :: "pystr \<Rightarrow> source_health list \<Rightarrow> source_health option" where
  "health_get source t = row_by sh_source (py_lower source) t"

definition health_list :: "source_health list \<Rightarrow> source_health list" where
  "health_list t = sort_key sh_source t"

datatype health = Unhealthy | UnknownHealth | Stale | Healthy

definition health_status :: "instant \<Rightarrow> source_health \<Rightarrow> health" where
  "health_status now r =
     (if 3 \<le> sh_failures r then Unhealthy
      else if sh_success r = [] then UnknownHealth
      else (case fromisoformat (replace_Z (sh_success r)) of
          None \<Rightarrow> UnknownHealth
        | Some p \<Rightarrow> if hours 24 < now - as_utc p then Stale else Healthy))"

datatype health_op = HealthSuccess instant pystr int int | HealthFailure instant pystr pystr int

fun health_step :: "health_op \<Rightarrow> source_health list \<Rightarrow> source_health list" where
  "health_step (HealthSuccess now s n ms) t = health_success now s n ms t"
| "health_step (HealthFailure now s c ms) t = health_failure now s c ms t"

section \<open>What is known of a work\<close>

record work_state =
  ws_id :: pystr
  ws_chapters :: pystr
  ws_updated :: pystr
  ws_first :: pystr
  ws_last :: pystr

datatype work_change = NewWork | UpdatedWork | UnchangedWork

definition classify_work :: "instant \<Rightarrow> pystr \<Rightarrow> pystr \<Rightarrow> pystr \<Rightarrow> work_state list \<Rightarrow> work_change \<times> work_state list" where
  "classify_work now i chapters updated t = (case row_by ws_id i t of
       None \<Rightarrow> (NewWork, t @ [\<lparr>ws_id = i, ws_chapters = chapters, ws_updated = updated,
         ws_first = isoformat now, ws_last = isoformat now\<rparr>])
     | Some r \<Rightarrow> (if (ws_chapters r, ws_updated r) \<noteq> (chapters, updated) then UpdatedWork else UnchangedWork,
         update_where (\<lambda>r. ws_id r = i)
           (\<lambda>r. r\<lparr>ws_chapters := chapters, ws_updated := updated, ws_last := isoformat now\<rparr>) t))"

section \<open>Media\<close>

text \<open>An item whose kind and url are text.\<close>

record media_ref =
  mf_kind :: pystr
  mf_url :: pystr

definition video_version :: pystr where "video_version = ''telegram-hq-video-v4''"

definition media_payload :: "media_ref \<Rightarrow> pystr" where
  "media_payload m = (if mf_kind m = ''video'' then video_version @ [CHR 0x0A] else []) @ mf_kind m @ [CHR 0x0A] @ mf_url m"

record cached_media =
  cm_key :: pystr
  cm_kind :: pystr
  cm_url :: pystr
  cm_file :: pystr
  cm_unique :: pystr

definition cache_get :: "(pystr \<Rightarrow> pystr) \<Rightarrow> media_ref \<Rightarrow> cached_media list \<Rightarrow> cached_media option" where
  "cache_get sha m t = row_by cm_key (sha (media_payload m)) t"

fun cache_get_all :: "(pystr \<Rightarrow> pystr) \<Rightarrow> media_ref list \<Rightarrow> cached_media list \<Rightarrow> cached_media list option" where
  "cache_get_all sha [] t = Some []"
| "cache_get_all sha (m # ms) t = (case cache_get sha m t of
       None \<Rightarrow> None
     | Some c \<Rightarrow> if cm_kind c \<noteq> mf_kind m then None else map_option ((#) c) (cache_get_all sha ms t))"

definition cache_put :: "(pystr \<Rightarrow> pystr) \<Rightarrow> media_ref \<Rightarrow> pystr \<Rightarrow> pystr \<Rightarrow> cached_media list \<Rightarrow> cached_media list" where
  "cache_put sha m file unique t =
     (if file = [] then t
      else upsert cm_key \<lparr>cm_key = sha (media_payload m), cm_kind = mf_kind m, cm_url = mf_url m, cm_file = file, cm_unique = unique\<rparr>
        (\<lambda>r. r\<lparr>cm_kind := mf_kind m, cm_url := mf_url m, cm_file := file, cm_unique := unique\<rparr>) t)"

definition cache_delete :: "(pystr \<Rightarrow> pystr) \<Rightarrow> media_ref \<Rightarrow> cached_media list \<Rightarrow> cached_media list" where
  "cache_delete sha m t = filter (\<lambda>r. cm_key r \<noteq> sha (media_payload m)) t"

text \<open>Receipts: \<open>hours_kept\<close> is the window in which a delivered identity is not sent again.\<close>

record receipt =
  rc_identity :: pystr
  rc_kind :: pystr
  rc_update :: pystr
  rc_at :: pystr

definition url_identity :: "(pystr \<Rightarrow> pystr) \<Rightarrow> media_ref \<Rightarrow> pystr" where
  "url_identity sha m = ''url:'' @ sha (media_payload m)"

definition telegram_identity :: "pystr \<Rightarrow> pystr" where
  "telegram_identity u = (let v = py_strip u in if v = [] then [] else ''telegram:'' @ v)"

definition identities_for :: "(pystr \<Rightarrow> pystr) \<Rightarrow> media_ref \<Rightarrow> pystr \<Rightarrow> pystr \<Rightarrow> pystr list" where
  "identities_for sha m content unique = rev (remdups (rev
     (url_identity sha m # (if content = [] then [] else [content]) @
       (let v = telegram_identity unique in if v = [] then [] else [v]))))"

definition any_recent :: "int \<Rightarrow> instant \<Rightarrow> pystr list \<Rightarrow> receipt list \<Rightarrow> bool" where
  "any_recent hours_kept now ids t \<longleftrightarrow>
     (\<exists>r \<in> set t. rc_identity r \<in> set (filter (\<lambda>i. i \<noteq> []) ids) \<and> isoformat (now - hours hours_kept) \<le> rc_at r)"

definition mark_media :: "pystr list \<Rightarrow> pystr \<Rightarrow> pystr \<Rightarrow> instant \<Rightarrow> receipt list \<Rightarrow> receipt list" where
  "mark_media ids knd u at t = fold (\<lambda>i. upsert rc_identity
       \<lparr>rc_identity = i, rc_kind = knd, rc_update = u, rc_at = isoformat at\<rparr>
       (\<lambda>r. r\<lparr>rc_kind := knd, rc_update := u, rc_at := isoformat at\<rparr>))
     (filter (\<lambda>i. i \<noteq> []) ids) t"

definition prune_media :: "instant \<Rightarrow> receipt list \<Rightarrow> receipt list" where
  "prune_media now t = filter (\<lambda>r. \<not> rc_at r < isoformat (now - days 30)) t"

datatype media_op = MarkMedia "pystr list" pystr pystr instant | PruneMedia instant

fun media_op_time :: "media_op \<Rightarrow> instant" where
  "media_op_time (MarkMedia ids knd u at) = at"
| "media_op_time (PruneMedia now) = now"

fun media_step :: "media_op \<Rightarrow> receipt list \<Rightarrow> receipt list" where
  "media_step (MarkMedia ids knd u at) t = mark_media ids knd u at t"
| "media_step (PruneMedia now) t = prune_media now t"

section \<open>A pass over the reminders\<close>

definition settle :: "state_data \<Rightarrow> instant \<Rightarrow> reminder \<Rightarrow> reminder" where
  "settle st now r = (case get_draft (rm_draft r) st of
       None \<Rightarrow> r\<lparr>rm_status := ''cancelled''\<rparr>
     | Some d \<Rightarrow> r\<lparr>rm_status := ''sent'', rm_reminded := isoformat now\<rparr>)"

definition was_accepted :: "state_data \<Rightarrow> (pystr \<Rightarrow> pystr \<Rightarrow> send_result) \<Rightarrow> reminder \<Rightarrow> bool" where
  "was_accepted st send r \<longleftrightarrow> (case get_draft (rm_draft r) st of
       None \<Rightarrow> True
     | Some d \<Rightarrow> (\<exists>s. caption d = JStr s \<and> send (''reminder:'' @ rm_id r) s = Accepted))"

lemma settle_id [simp]: "rm_id (settle st now r) = rm_id r"
  by (simp add: settle_def split: option.split)

lemma one_settled:
  assumes "unique_on rm_id t" "r \<in> set t" "rm_status r = ''pending''"
  shows "get_draft (rm_draft r) st = None \<Longrightarrow> snd (cancel_reminder (rm_id r) t) = map (\<lambda>x. if x = r then settle st now x else x) t"
    "get_draft (rm_draft r) st = Some d \<Longrightarrow> mark_sent (rm_id r) now t = map (\<lambda>x. if x = r then settle st now x else x) t"
proof -
  have same: "x \<in> set t \<Longrightarrow> rm_id x = rm_id r \<longleftrightarrow> x = r" for x
    using assms(1,2) by (auto simp: unique_on_def distinct_map inj_on_def)
  show "get_draft (rm_draft r) st = None \<Longrightarrow> snd (cancel_reminder (rm_id r) t) = map (\<lambda>x. if x = r then settle st now x else x) t"
    using same assms(3) by (auto simp: cancel_reminder_def Let_def update_where_def settle_def)
  show "get_draft (rm_draft r) st = Some d \<Longrightarrow> mark_sent (rm_id r) now t = map (\<lambda>x. if x = r then settle st now x else x) t"
    using same assms(3) by (auto simp: mark_sent_def update_where_def settle_def)
qed

lemma remind_all_settles:
  assumes "unique_on rm_id t" "distinct (map rm_id rs)" "set rs \<subseteq> set t" "\<forall>r \<in> set rs. rm_status r = ''pending''"
    "remind_all st now send rs t = (None, u)"
  shows "u = map (\<lambda>x. if x \<in> set rs then settle st now x else x) t \<and> (\<forall>r \<in> set rs. was_accepted st send r)"
  using assms
proof (induction rs arbitrary: t)
  case Nil
  then show ?case by simp
next
  case (Cons r rs)
  let ?t = "map (\<lambda>x. if x = r then settle st now x else x) t"
  have ids: "map rm_id ?t = map rm_id t" by auto
  have r: "r \<in> set t" "rm_status r = ''pending''" using Cons.prems by auto
  have rest: "remind_all st now send rs ?t = (None, u)" and acc: "was_accepted st send r"
    using Cons.prems(5) one_settled(1) [OF Cons.prems(1) r, of st now] one_settled(2) [OF Cons.prems(1) r, of st _ now]
    by (auto simp: was_accepted_def split: option.splits json.splits send_result.splits)
  have new: "r \<notin> set rs" "settle st now r \<notin> set rs" using Cons.prems(2) by (auto simp: image_iff)
  have "unique_on rm_id ?t" using Cons.prems(1) unfolding unique_on_def ids .
  moreover have "set rs \<subseteq> set ?t" using Cons.prems(3) new(1) by force
  ultimately have ih: "u = map (\<lambda>x. if x \<in> set rs then settle st now x else x) ?t" "\<forall>r \<in> set rs. was_accepted st send r"
    using Cons.IH [of ?t] Cons.prems(2,4) rest by auto
  have "u = map (\<lambda>x. if x \<in> set (r # rs) then settle st now x else x) t"
    unfolding ih(1) map_map comp_def by (rule map_cong) (use new in auto)
  with ih(2) acc show ?case by simp
qed

lemma cancel_ok: "reminder_ok t \<Longrightarrow> reminder_ok (snd (cancel_reminder i t))"
  by (auto simp: reminder_ok_def cancel_reminder_def Let_def set_update_where intro: update_where_unique)

lemma mark_sent_ok: "reminder_ok t \<Longrightarrow> reminder_ok (mark_sent i now t)"
  by (auto simp: reminder_ok_def mark_sent_def set_update_where intro: update_where_unique)

lemma remind_all_ok: "reminder_ok t \<Longrightarrow> reminder_ok (snd (remind_all st now send rs t))"
  by (induction rs arbitrary: t) (auto simp: cancel_ok mark_sent_ok split: option.split json.split send_result.split)

interpretation reminders: guarded_machine reminder_step reminder_ok reminder_legal
proof
  fix op t
  assume "reminder_legal op" "reminder_ok t"
  then show "reminder_ok (reminder_step op t)"
  proof (cases op)
    case (AddReminder i d due l now)
    with \<open>reminder_legal op\<close> \<open>reminder_ok t\<close> show ?thesis
      by (auto simp: add_reminder_def Let_def reminder_ok_def unique_on_def split: option.splits)
  qed (simp_all add: cancel_ok remind_all_ok process_due_def)
qed

text \<open>
  C19: A pass over the reminders that returns has settled every reminder whose time had come, as long
  as there were at most twenty: each was sent, as Telegram accepted the text of its draft under its
  key, or cancelled, as its draft is gone; no other reminder changed. Due times are compared as text.
\<close>

theorem due_reminders_settled:
  assumes "list_all reminder_legal ops" "valid_instant now"
    and "length (filter (reminder_due now) (fold reminder_step ops [])) \<le> 20"
    and "process_due st now send (fold reminder_step ops []) = (None, u)"
  shows "u = map (\<lambda>r. if reminder_due now r then settle st now r else r) (fold reminder_step ops []) \<and>
    (\<forall>r \<in> set (fold reminder_step ops []).
      (reminder_due now r \<longleftrightarrow> rm_status r = ''pending'' \<and> (\<exists>d. valid_instant d \<and> rm_due r = isoformat d \<and> d \<le> now)) \<and>
      (reminder_due now r \<longrightarrow> was_accepted st send r))"
proof -
  let ?t = "fold reminder_step ops []"
  have ok: "reminder_ok ?t" by (rule reminders.legal_run [OF assms(1)]) (simp add: reminder_ok_def)
  let ?rs = "due_reminders now 20 ?t"
  have rs: "?rs = sort_key rm_due (filter (reminder_due now) ?t)" using assms(3) by (simp add: due_reminders_def)
  then have set: "set ?rs = {r \<in> set ?t. reminder_due now r}" by simp
  have "distinct (map rm_id (filter (reminder_due now) ?t))"
    using ok by (simp add: reminder_ok_def unique_on_def distinct_map_filter)
  then have "distinct (map rm_id ?rs)" unfolding rs by (simp add: distinct_map)
  moreover have "unique_on rm_id ?t" using ok by (simp add: reminder_ok_def)
  moreover have "set ?rs \<subseteq> set ?t" "\<forall>r \<in> set ?rs. rm_status r = ''pending''" unfolding set by (auto simp: reminder_due_def)
  moreover have "remind_all st now send ?rs ?t = (None, u)" using assms(4) unfolding process_due_def .
  ultimately have "u = map (\<lambda>x. if x \<in> set ?rs then settle st now x else x) ?t \<and> (\<forall>r \<in> set ?rs. was_accepted st send r)"
    by (intro remind_all_settles)
  then have u: "u = map (\<lambda>x. if x \<in> set ?rs then settle st now x else x) ?t" and acc: "\<forall>r \<in> set ?rs. was_accepted st send r"
    by simp_all
  have "u = map (\<lambda>r. if reminder_due now r then settle st now r else r) ?t"
    unfolding u set by (rule map_cong) simp_all
  moreover have "\<forall>r \<in> set ?t. reminder_due now r \<longrightarrow> was_accepted st send r" using acc unfolding set by simp
  moreover
  have "reminder_due now r \<longleftrightarrow> rm_status r = ''pending'' \<and> (\<exists>d. valid_instant d \<and> rm_due r = isoformat d \<and> d \<le> now)"
    if "r \<in> set ?t" for r
  proof -
    from ok that have "rm_due r = [] \<or> (\<exists>d. valid_instant d \<and> rm_due r = isoformat d)" by (auto simp: reminder_ok_def)
    then show ?thesis using isoformat_order(2) [OF _ assms(2)] unfolding reminder_due_def by (metis isoformat_nonempty(1))
  qed
  ultimately show ?thesis by blast
qed

section \<open>Failures since the last success\<close>

fun op_source :: "health_op \<Rightarrow> pystr" where
  "op_source (HealthSuccess now s n ms) = py_lower s"
| "op_source (HealthFailure now s c ms) = py_lower s"

fun is_failure :: "health_op \<Rightarrow> bool" where
  "is_failure (HealthFailure now s c ms) = True"
| "is_failure (HealthSuccess now s n ms) = False"

fun op_now :: "health_op \<Rightarrow> instant" where
  "op_now (HealthSuccess now s n ms) = now"
| "op_now (HealthFailure now s c ms) = now"

definition latest_at :: "(health_op \<Rightarrow> bool) \<Rightarrow> health_op list \<Rightarrow> pystr" where
  "latest_at P es = (case filter P (rev es) of [] \<Rightarrow> [] | e # x \<Rightarrow> isoformat (op_now e))"

text \<open>The specification: what the calls for a source amount to.\<close>

definition health_summary :: "pystr \<Rightarrow> health_op list \<Rightarrow> source_health option" where
  "health_summary s ops = (let es = filter (\<lambda>op. op_source op = s) ops in
     if es = [] then None
     else Some \<lparr>sh_source = s, sh_success = latest_at (\<lambda>e. \<not> is_failure e) es, sh_failure = latest_at is_failure es,
       sh_failures = length (takeWhile is_failure (rev es)),
       sh_results = (case last es of HealthSuccess now x n ms \<Rightarrow> max 0 n | HealthFailure now x c ms \<Rightarrow> 0),
       sh_latency = (case last es of HealthSuccess now x n ms \<Rightarrow> max 0 ms | HealthFailure now x c ms \<Rightarrow> max 0 ms),
       sh_code = (case last es of HealthSuccess now x n ms \<Rightarrow> [] | HealthFailure now x c ms \<Rightarrow> safe_error_code c)\<rparr>)"

definition harmless :: "pystr \<Rightarrow> bool" where
  "harmless c \<longleftrightarrow> length c \<le> 64 \<and> list_all name_char c \<and> (\<forall>w \<in> set secret_words. \<not> sublist w (py_casefold c))"

lemma safe_code_harmless: "harmless (safe_error_code s)"
proof (cases "safe_error_code s = ''Error''")
  case True
  have "list_all name_char ''Error''" by code_simp
  moreover have "\<forall>w \<in> set secret_words. \<not> sublist w (py_casefold ''Error'')" by code_simp
  ultimately show ?thesis using True by (simp add: harmless_def)
next
  case False
  then have "safe_error_code s = first_name s" "\<forall>w \<in> set secret_words. \<not> sublist w (py_casefold (first_name s))"
    by (auto simp: safe_error_code_def Let_def split: if_splits)
  moreover have "list_all name_char (first_name s)"
    unfolding list_all_iff first_name_def by (auto dest: in_set_takeD set_takeWhileD)
  moreover have "length (first_name s) \<le> 64" by (simp add: first_name_def)
  ultimately show ?thesis by (simp add: harmless_def)
qed

text \<open>
  The row of a source is the summary of all calls for it: the failures since its last success, the
  times of its last success and failure, and the figures of its last call. No stored code is longer
  than 64 characters, holds anything but letters, digits and underscores, or a word of a secret.
\<close>

theorem health_summarises_calls:
  "row_by sh_source s (fold health_step ops []) = health_summary s ops \<and>
   (\<forall>r \<in> set (fold health_step ops []). harmless (sh_code r))"
proof (induction ops rule: rev_induct)
  case Nil
  then show ?case by (simp add: health_summary_def)
next
  case (snoc op ops)
  have empty: "harmless []" by code_simp
  let ?t = "fold health_step ops []"
  have codes: "\<forall>r \<in> set (health_step op ?t). harmless (sh_code r)"
  proof (cases op)
    case (HealthSuccess now x n ms)
    then show ?thesis using snoc empty by (auto simp: health_success_def dest!: set_upsert)
  next
    case (HealthFailure now x c ms)
    then show ?thesis using snoc safe_code_harmless by (auto simp: health_failure_def dest!: set_upsert)
  qed
  have "row_by sh_source s (health_step op ?t) = health_summary s (ops @ [op])"
  proof (cases op)
    case (HealthSuccess now x n ms)
    then show ?thesis using snoc
      by (auto simp: health_success_def row_by_upsert health_summary_def Let_def latest_at_def split: option.splits if_splits)
  next
    case (HealthFailure now x c ms)
    then show ?thesis using snoc
      by (auto simp: health_failure_def row_by_upsert health_summary_def Let_def latest_at_def split: option.splits if_splits)
  qed
  with codes show ?case by simp
qed

section \<open>Media is not sent twice\<close>

text \<open>A receipt of the identity from the given time on.\<close>

definition has_receipt :: "pystr \<Rightarrow> instant \<Rightarrow> instant \<Rightarrow> receipt list \<Rightarrow> bool" where
  "has_receipt i lo hi t \<longleftrightarrow> (\<exists>r \<in> set t. rc_identity r = i \<and> (\<exists>x. lo \<le> x \<and> x \<le> hi \<and> rc_at r = isoformat x))"

lemma mark_one:
  fixes knd u :: pystr and at :: instant
  defines "f \<equiv> \<lambda>j. upsert rc_identity \<lparr>rc_identity = j, rc_kind = knd, rc_update = u, rc_at = isoformat at\<rparr>
       (\<lambda>r. r\<lparr>rc_kind := knd, rc_update := u, rc_at := isoformat at\<rparr>)"
  assumes "lo \<le> at" "at \<le> hi"
  shows "has_receipt i lo hi t \<Longrightarrow> has_receipt i lo hi (f j t)" "has_receipt i lo hi (f i t)"
proof -
  let ?n = "\<lambda>j. \<lparr>rc_identity = j, rc_kind = knd, rc_update = u, rc_at = isoformat at\<rparr>"
  let ?m = "\<lambda>r. r\<lparr>rc_kind := knd, rc_update := u, rc_at := isoformat at\<rparr>"
  have fresh: "has_receipt i lo hi v" if "r \<in> set v" "rc_identity r = i" "rc_at r = isoformat at" for r v
    using that assms(2,3) unfolding has_receipt_def by blast
  show "has_receipt i lo hi (f j t)" if "has_receipt i lo hi t"
  proof -
    from that obtain r x where r: "r \<in> set t" "rc_identity r = i" "lo \<le> x" "x \<le> hi" "rc_at r = isoformat x"
      by (auto simp: has_receipt_def)
    show ?thesis
    proof (cases "j = i \<and> i \<in> set (map rc_identity t)")
      case True
      then have "?m r \<in> set (f j t)" using r(1,2) by (auto simp: f_def upsert_def set_update_where)
      then show ?thesis by (rule fresh) (simp_all add: r(2))
    next
      case False
      then have "r \<in> set (f j t)" using r(1,2) by (auto simp: f_def upsert_def set_update_where)
      with r show ?thesis unfolding has_receipt_def by blast
    qed
  qed
  show "has_receipt i lo hi (f i t)"
  proof (cases "i \<in> set (map rc_identity t)")
    case True
    then obtain r where r: "r \<in> set t" "rc_identity r = i" by auto
    then have "?m r \<in> set (f i t)" by (auto simp: f_def upsert_def set_update_where)
    then show ?thesis by (rule fresh) (simp_all add: r(2))
  next
    case False
    then have "?n i \<in> set (f i t)" by (simp add: f_def upsert_def)
    then show ?thesis by (rule fresh) simp_all
  qed
qed

lemma mark_media_receipts:
  assumes "lo \<le> at" "at \<le> hi"
  shows "has_receipt i lo hi t \<Longrightarrow> has_receipt i lo hi (mark_media ids knd u at t)"
    "i \<in> set ids \<Longrightarrow> i \<noteq> [] \<Longrightarrow> has_receipt i lo hi (mark_media ids knd u at t)"
proof -
  let ?f = "\<lambda>j. upsert rc_identity \<lparr>rc_identity = j, rc_kind = knd, rc_update = u, rc_at = isoformat at\<rparr>
       (\<lambda>r. r\<lparr>rc_kind := knd, rc_update := u, rc_at := isoformat at\<rparr>)"
  have keep: "has_receipt i lo hi (fold ?f js t)" if "has_receipt i lo hi t" for js t
    using that by (induction js arbitrary: t) (simp_all add: mark_one(1) [OF assms])
  have add: "i \<in> set js \<Longrightarrow> has_receipt i lo hi (fold ?f js t)" for js t
    by (induction js arbitrary: t) (auto intro: keep mark_one(2) [OF assms])
  show "has_receipt i lo hi t \<Longrightarrow> has_receipt i lo hi (mark_media ids knd u at t)"
    unfolding mark_media_def by (rule keep)
  show "i \<in> set ids \<Longrightarrow> i \<noteq> [] \<Longrightarrow> has_receipt i lo hi (mark_media ids knd u at t)"
    unfolding mark_media_def by (rule add) simp
qed

lemma prune_receipts:
  assumes "has_receipt i lo hi t" "now \<le> lo + days 30" "days 30 \<le> now" "0 \<le> lo" "valid_instant hi" "valid_instant now"
  shows "has_receipt i lo hi (prune_media now t)"
proof -
  from assms(1) obtain r x where r: "r \<in> set t" "rc_identity r = i" "lo \<le> x" "x \<le> hi" "rc_at r = isoformat x"
    by (auto simp: has_receipt_def)
  have "valid_instant x" "valid_instant (now - days 30)"
    using r assms by (auto simp: valid_instant_def days_def us_per_day_def)
  then have "\<not> rc_at r < isoformat (now - days 30)" using isoformat_order(1) r assms(2) by simp
  with r show ?thesis by (auto simp: prune_media_def has_receipt_def)
qed

text \<open>
  C21: Media that was delivered is recognised under any of its identities for the whole window, as
  long as the window is at most the thirty days the table is kept and the clock does not run
  backwards, whatever else is delivered or pruned in between.
\<close>

theorem delivered_media_recognised:
  assumes "i \<in> set ids" "i \<noteq> []" "i \<in> set asked"
    and "hours_kept \<le> 720" "now \<le> at + hours hours_kept"
    and "\<forall>op \<in> set ops. at \<le> media_op_time op \<and> media_op_time op \<le> now"
    and "days 30 \<le> at" "hours hours_kept \<le> now" "at \<le> now" "0 \<le> hours_kept" "valid_instant now"
  shows "any_recent hours_kept now asked (fold media_step ops (mark_media ids knd u at t))"
proof -
  have at: "0 \<le> at" using assms(7) by (simp add: days_def us_per_day_def)
  have window: "hours hours_kept \<le> days 30" using assms(4) by (simp add: hours_def days_def us_per_day_def us_per_s_def)
  have "has_receipt i at now (fold media_step os (mark_media ids knd u at t))"
    if "set os \<subseteq> set ops" for os
    using that
  proof (induction os rule: rev_induct)
    case Nil
    show ?case using mark_media_receipts(2) [of at at now i ids] assms(1,2,9) by simp
  next
    case (snoc op os)
    then have ih: "has_receipt i at now (fold media_step os (mark_media ids knd u at t))"
      and op: "at \<le> media_op_time op" "media_op_time op \<le> now" using assms(6) by auto
    show ?case
    proof (cases op)
      case (MarkMedia js k v x)
      with ih op mark_media_receipts(1) [of at x now i] show ?thesis by simp
    next
      case (PruneMedia x)
      have "valid_instant x" using op PruneMedia at assms(11) by (simp add: valid_instant_def)
      with PruneMedia ih op window assms(5,7,11) at prune_receipts [of i at now _ x] show ?thesis by simp
    qed
  qed
  from this [OF subset_refl] obtain r x where r: "r \<in> set (fold media_step ops (mark_media ids knd u at t))" "rc_identity r = i"
    "at \<le> x" "x \<le> now" "rc_at r = isoformat x" unfolding has_receipt_def by blast
  have "0 \<le> hours hours_kept" using assms(10) by (simp add: hours_def us_per_s_def)
  then have "valid_instant x" "valid_instant (now - hours hours_kept)"
    using r(3,4) at assms(8,11) by (auto simp: valid_instant_def)
  with r assms(2,3,5) isoformat_order(2) show ?thesis by (auto simp: any_recent_def intro!: bexI [of _ r])
qed

section \<open>A work changes when its text does\<close>

lemma classify_exact:
  "fst (classify_work now i c v t) = (case row_by ws_id i t of None \<Rightarrow> NewWork
     | Some r \<Rightarrow> if ws_chapters r = c \<and> ws_updated r = v then UnchangedWork else UpdatedWork) \<and>
   (\<exists>r. row_by ws_id i (snd (classify_work now i c v t)) = Some r \<and> ws_chapters r = c \<and> ws_updated r = v)"
proof (cases "row_by ws_id i t")
  case (Some r)
  with row_by_Some [OF Some] show ?thesis by (simp add: classify_work_def row_by_update_where)
qed (simp add: classify_work_def row_by_append)

section \<open>Witnesses\<close>

definition demo_reminders :: "reminder_op list" where
  "demo_reminders = [AddReminder ''a'' ''d1'' (Some 10) ''x'' 0, AddReminder ''b'' ''d2'' (Some 99) ''y'' 0, AddReminder ''c'' ''d3'' None ''z'' 0]"

theorem due_reminders_settled_witness:
  "snd (process_due fresh_state 50 (\<lambda>k s. Accepted) (fold reminder_step demo_reminders [])) =
    map (\<lambda>r. if reminder_due 50 r then settle fresh_state 50 r else r) (fold reminder_step demo_reminders [])"
proof -
  let ?t = "fold reminder_step demo_reminders []"
  have legal: "list_all reminder_legal demo_reminders"
    by (simp add: demo_reminders_def valid_instant_def us_per_day_def)
  have now: "valid_instant 50" by (simp add: valid_instant_def us_per_day_def)
  have "length ?t \<le> 20" by (simp add: demo_reminders_def add_reminder_def Let_def split: if_splits)
  then have few: "length (filter (reminder_due 50) ?t) \<le> 20" using length_filter_le [of "reminder_due 50" ?t] by linarith
  have "fst (remind_all fresh_state 50 (\<lambda>k s. Accepted) rs v) = None" for rs v
    by (induction rs arbitrary: v) (simp_all add: get_draft_def fresh_state_def)
  then have "process_due fresh_state 50 (\<lambda>k s. Accepted) ?t = (None, snd (process_due fresh_state 50 (\<lambda>k s. Accepted) ?t))"
    by (simp add: process_due_def prod_eq_iff)
  from due_reminders_settled [OF legal now few this] show ?thesis by blast
qed

theorem delivered_media_recognised_witness:
  "any_recent 72 (days 31 + hours 71) [''url:x'']
    (fold media_step [PruneMedia (days 31 + hours 70), MarkMedia [''url:y''] ''photo'' ''2'' (days 31 + hours 71)]
      (mark_media [''url:x'', ''sha256:z''] ''photo'' ''1'' (days 31) []))"
  by (rule delivered_media_recognised [of "''url:x''"])
    (simp_all add: days_def hours_def us_per_day_def us_per_s_def valid_instant_def)

end
