(* ===== verification/LegacyWindow.thy ===== *)
theory LegacyWindow
  imports Collector PrivateStores
begin

text \<open>
  \<open>app/x_completeness.py\<close>: the timeline reading that takes over where the provider gives no raw
  pages, and \<open>HealthTrackingXCollector\<close> of \<open>app/source_health.py\<close> around it. The generator of the
  provider is the list of the tweets it yields, with the exception that ends it, if any; a tweet the
  conversion drops has no post. The time a reading takes is an argument.
\<close>

record legacy_tweet =
  lt_post :: "update option"
  lt_retweet :: bool

datatype legacy_error = UnprovenWindow | CollectionFailed

text \<open>The posts kept, the tweets seen, and whether the lower bound was crossed.\<close>

fun read_tweets :: "instant \<Rightarrow> instant \<Rightarrow> legacy_tweet list \<Rightarrow> update list \<Rightarrow> nat \<Rightarrow> update list \<times> nat \<times> bool" where
  "read_tweets start until [] us n = (us, n, False)"
| "read_tweets start until (t # ts) us n = (case lt_post t of
       None \<Rightarrow> read_tweets start until ts us (Suc n)
     | Some u \<Rightarrow>
         if created_at u < start then (us, Suc n, True)
         else if lt_retweet t then read_tweets start until ts us (Suc n)
         else if created_at u < until then read_tweets start until ts (us @ [u]) (Suc n)
         else read_tweets start until ts us (Suc n))"

text \<open>
  An exception of the provider ends the reading unless the lower bound was crossed before; a missing
  profile is one of them.
\<close>

definition legacy_timeline :: "instant \<Rightarrow> instant \<Rightarrow> int \<Rightarrow> legacy_tweet list \<times> bool \<Rightarrow> legacy_error + update list" where
  "legacy_timeline start until limit answer =
     (let l = max 1 limit; (us, n, crossed) = read_tweets start until (fst answer) [] 0
      in if snd answer \<and> \<not> crossed then Inl CollectionFailed
         else if l \<le> int n \<and> \<not> crossed then Inl UnprovenWindow
         else Inr (best_posts search_rank us))"

text \<open>\<open>collect_source\<close>: every failure is reported as an unproven window.\<close>

definition legacy_collect :: "(pystr \<Rightarrow> legacy_tweet list \<times> bool) \<Rightarrow> pystr \<Rightarrow> instant \<Rightarrow> instant \<Rightarrow> legacy_error + update list" where
  "legacy_collect provider h start until =
     (let k = normalize_handle h in
      if k = [] then Inl CollectionFailed
      else (case legacy_timeline start until 1000 (provider k) of
          Inl e \<Rightarrow> Inl UnprovenWindow
        | Inr us \<Rightarrow> Inr us))"

fun legacy_name :: "legacy_error \<Rightarrow> pystr" where
  "legacy_name UnprovenWindow = ''XCompletenessError''"
| "legacy_name CollectionFailed = ''XCollectionError''"

definition tracked_timeline :: "instant \<Rightarrow> int \<Rightarrow> pystr \<Rightarrow> instant \<Rightarrow> instant \<Rightarrow> int \<Rightarrow> legacy_tweet list \<times> bool \<Rightarrow>
    source_health list \<Rightarrow> (legacy_error + update list) \<times> source_health list" where
  "tracked_timeline now ms h start until limit answer t = (case legacy_timeline start until limit answer of
       Inl e \<Rightarrow> (Inl e, health_failure now h (legacy_name e) ms t)
     | Inr us \<Rightarrow> (Inr us, health_success now h (int (length us)) ms t))"

section \<open>A window that is returned is complete\<close>

definition newest_first_tweets :: "legacy_tweet list \<Rightarrow> bool" where
  "newest_first_tweets ts \<longleftrightarrow> sorted_wrt (\<lambda>a b. \<forall>u v. lt_post a = Some u \<longrightarrow> lt_post b = Some v \<longrightarrow> created_at v \<le> created_at u) ts"

definition own_post :: "instant \<Rightarrow> instant \<Rightarrow> legacy_tweet list \<Rightarrow> update \<Rightarrow> bool" where
  "own_post start until ts u \<longleftrightarrow> (\<exists>t \<in> set ts. lt_post t = Some u \<and> \<not> lt_retweet t) \<and> start \<le> created_at u \<and> created_at u < until"

lemma read_tweets_spec:
  assumes "newest_first_tweets ts" "read_tweets start until ts us n = (vs, m, crossed)"
  shows "set vs = set us \<union> {u. own_post start until ts u}" "\<not> crossed \<Longrightarrow> m = n + length ts"
proof -
  have "set vs = set us \<union> {u. own_post start until ts u} \<and> (\<not> crossed \<longrightarrow> m = n + length ts)"
    using assms
  proof (induction ts arbitrary: us n)
    case Nil
    then show ?case by (simp add: own_post_def)
  next
    case (Cons t ts)
    have sorted: "newest_first_tweets ts" using Cons.prems(1) by (simp add: newest_first_tweets_def)
    show ?case
    proof (cases "lt_post t")
      case None
      then have "own_post start until (t # ts) u = own_post start until ts u" for u by (simp add: own_post_def)
      with Cons.IH [OF sorted, of us "Suc n"] Cons.prems(2) None show ?thesis by simp
    next
      case (Some x)
      show ?thesis
      proof (cases "created_at x < start")
        case True
        have "created_at u < start" if "t' \<in> set ts" "lt_post t' = Some u" for t' u
          using Cons.prems(1) Some that True unfolding newest_first_tweets_def by fastforce
        then have "\<not> own_post start until (t # ts) u" for u using True Some by (fastforce simp: own_post_def)
        with True Some Cons.prems(2) show ?thesis by simp
      next
        case False
        let ?ws = "if \<not> lt_retweet t \<and> created_at x < until then us @ [x] else us"
        from False Some Cons.prems(2) have "read_tweets start until ts ?ws (Suc n) = (vs, m, crossed)" by (simp split: if_splits)
        from Cons.IH [OF sorted this] have ih: "set vs = set ?ws \<union> {u. own_post start until ts u}" "\<not> crossed \<longrightarrow> m = Suc n + length ts" by auto
        have "{u. own_post start until (t # ts) u} = {u. own_post start until ts u} \<union>
            (if \<not> lt_retweet t \<and> created_at x < until then {x} else {})"
          using Some False by (auto simp: own_post_def)
        with ih show ?thesis by auto
      qed
    qed
  qed
  then show "set vs = set us \<union> {u. own_post start until ts u}" "\<not> crossed \<Longrightarrow> m = n + length ts" by blast+
qed

lemma own_post_prefix:
  assumes "newest_first_tweets (ts @ rest)" "u \<in> {u. own_post start until (ts @ rest) u}"
    "t \<in> set ts" "lt_post t = Some x" "created_at x < start"
  shows "own_post start until ts u"
proof -
  have "created_at v < start" if "t' \<in> set rest" "lt_post t' = Some v" for t' v
    using assms(1,3-5) that unfolding newest_first_tweets_def sorted_wrt_append by fastforce
  with assms(2) show ?thesis by (fastforce simp: own_post_def)
qed

lemma crossed_old: "read_tweets start until ts us n = (vs, m, True) \<Longrightarrow> \<exists>t \<in> set ts. \<exists>x. lt_post t = Some x \<and> created_at x < start"
  by (induction ts arbitrary: us n) (auto split: option.splits if_splits)

text \<open>
  A window the legacy reading returns is complete, whatever the limit cuts off: of a timeline that
  is newest first, of which the provider yields all, or a first part as long as the limit or cut
  off by a failure, every original post within the window is there by its id, each id once, and nothing else.
\<close>

theorem legacy_window_complete:
  assumes "newest_first_tweets (ts @ rest)" "rest \<noteq> [] \<longrightarrow> failed \<or> limit \<le> int (length ts)" "0 < limit"
    and "legacy_timeline start until limit (ts, failed) = Inr us"
  shows "upd_id ` set us = upd_id ` {u. own_post start until (ts @ rest) u} \<and> distinct (map upd_id us)"
proof -
  obtain vs m crossed where r: "read_tweets start until ts [] 0 = (vs, m, crossed)" by (cases "read_tweets start until ts [] 0")
  with assms(4) have us: "us = best_posts search_rank vs" and ok: "crossed \<or> \<not> failed \<and> \<not> max 1 limit \<le> int m"
    by (auto simp: legacy_timeline_def Let_def split: if_splits)
  have "newest_first_tweets ts" using assms(1) by (simp add: newest_first_tweets_def sorted_wrt_append)
  from read_tweets_spec [OF this r] have vs: "set vs = {u. own_post start until ts u}" "\<not> crossed \<Longrightarrow> m = length ts" by auto
  have "own_post start until (ts @ rest) u \<longleftrightarrow> own_post start until ts u" for u
  proof
    show "own_post start until ts u \<Longrightarrow> own_post start until (ts @ rest) u" by (auto simp: own_post_def)
    assume whole: "own_post start until (ts @ rest) u"
    show "own_post start until ts u"
    proof (cases crossed)
      case True
      with crossed_old [of start until ts "[]" 0 vs m] r obtain t x where "t \<in> set ts" "lt_post t = Some x" "created_at x < start" by auto
      with own_post_prefix [OF assms(1)] whole show ?thesis by blast
    next
      case False
      with vs(2) ok assms(2,3) have "rest = []" by auto
      with whole show ?thesis by simp
    qed
  qed
  moreover have "upd_id ` set us = upd_id ` set vs"
  proof
    show "upd_id ` set us \<subseteq> upd_id ` set vs" unfolding us by (rule image_mono) (rule best_posts_spec(2))
    show "upd_id ` set vs \<subseteq> upd_id ` set us"
    proof
      fix i assume "i \<in> upd_id ` set vs"
      then obtain w where "w \<in> set vs" "i = upd_id w" by blast
      with best_posts_spec(3) [of w vs search_rank] show "i \<in> upd_id ` set us" unfolding us by (metis image_eqI)
    qed
  qed
  ultimately show ?thesis using best_posts_spec(1) vs(1) us by simp
qed

text \<open>
  A tweet older than the window at the head of the timeline, as a pinned post is, ends the reading
  at once: the window is returned as complete without a single post, whatever follows.
\<close>

theorem old_head_empties_window:
  assumes "lt_post t = Some x" "created_at x < start"
  shows "legacy_timeline start until limit (t # ts, failed) = Inr []"
  using assms by (simp add: legacy_timeline_def best_posts_def)

section \<open>Witnesses\<close>

definition demo_tweets :: "legacy_tweet list" where
  "demo_tweets = [\<lparr>lt_post = Some (demo_post ''2'' ''b'' 40 ''2''), lt_retweet = False\<rparr>, \<lparr>lt_post = None, lt_retweet = False\<rparr>,
     \<lparr>lt_post = Some (demo_post ''1'' ''a'' 10 ''1''), lt_retweet = False\<rparr>]"

theorem legacy_window_complete_witness:
  "upd_id ` set (best_posts search_rank [demo_post ''2'' ''b'' 40 ''2'', demo_post ''1'' ''a'' 10 ''1'']) =
     upd_id ` {u. own_post 0 50 (demo_tweets @ []) u}"
proof -
  have "newest_first_tweets (demo_tweets @ [])" by (simp add: newest_first_tweets_def demo_tweets_def demo_post_def)
  moreover have "legacy_timeline 0 50 9 (demo_tweets, False) =
      Inr (best_posts search_rank [demo_post ''2'' ''b'' 40 ''2'', demo_post ''1'' ''a'' 10 ''1''])"
    by (simp add: legacy_timeline_def demo_tweets_def demo_post_def)
  ultimately show ?thesis using legacy_window_complete [where ts = demo_tweets and rest = "[]" and failed = False and limit = 9 and start = 0 and until = 50] by simp
qed

theorem old_head_empties_window_witness:
  "legacy_timeline 20 50 9 (\<lparr>lt_post = Some (demo_post ''1'' ''a'' 10 ''1''), lt_retweet = False\<rparr> # demo_tweets, False) = Inr []"
  by (rule old_head_empties_window [of _ "demo_post ''1'' ''a'' 10 ''1''"]) (simp_all add: demo_post_def)

end
