(* ===== verification/EventFusion.thy ===== *)
theory EventFusion
  imports Scan
begin

text \<open>
  \<open>app/event_fusion.py\<close>: the shadow grouping of posts into events. Fingerprints are compared pair by
  pair, an event is created by two posts that match and joined by others, and every post has at most
  one membership. The features the regular expressions draw from a text (type, references, topics,
  anchors, participants) and SHA-256 are arguments; all clock readings of a call are one instant.
  Confidences are sums of decimals with two places, which the code rounds to three: they are kept
  as thousandths, and comparisons of the rounded floats with literals are comparisons of these. The
  stored state is the one the code writes; its reading keeps the limits and cross checks. Ids are
  the short numbers of X, which the bounds on stored text leave as they are.
\<close>

section \<open>Fingerprints\<close>

record text_features =
  tx_type :: pystr
  tx_refs :: "pystr list"
  tx_topics :: "pystr list"
  tx_anchors :: "pystr list"
  tx_people :: "pystr list"

record fingerprint =
  fp_id :: pystr
  fp_source :: pystr
  fp_created :: instant
  fp_type :: pystr
  fp_conv :: pystr
  fp_reply :: pystr
  fp_quoted :: pystr
  fp_refs :: "pystr list"
  fp_topics :: "pystr list"
  fp_anchors :: "pystr list"
  fp_people :: "pystr list"

definition build_fingerprint :: "(update \<Rightarrow> text_features) \<Rightarrow> update \<Rightarrow> fingerprint" where
  "build_fingerprint features u = (let f = features u in
     \<lparr>fp_id = upd_id u, fp_source = py_casefold (py_lstrip_at (author u)), fp_created = created_at u,
      fp_type = tx_type f, fp_conv = conversation_id u, fp_reply = jtext (reply_to_id u),
      fp_quoted = jtext (quoted_id u), fp_refs = tx_refs f, fp_topics = tx_topics f,
      fp_anchors = tx_anchors f, fp_people = tx_people f\<rparr>)"

section \<open>Comparing two posts\<close>

datatype event_decision = Confident | Probable | Ambiguous | Separate

record event_candidate =
  ec_left :: pystr
  ec_right :: pystr
  ec_conf :: int
  ec_signals :: "pystr list"
  ec_conflicts :: "pystr list"
  ec_decision :: event_decision

definition generic_types :: "pystr list" where
  "generic_types = [''unknown'', ''official_content'', ''social_update'', ''other'']"

definition strong_signals :: "pystr list" where
  "strong_signals = [''direct_reply_relation'', ''same_conversation'', ''shared_quoted_reference'', ''shared_external_reference'']"

definition semantic_signals :: "pystr list" where
  "semantic_signals = [''shared_context_anchor'', ''topic_overlap'', ''shared_participants'']"

definition overlap :: "pystr list \<Rightarrow> pystr list \<Rightarrow> bool" where
  "overlap xs ys \<longleftrightarrow> set xs \<inter> set ys \<noteq> {}"

definition replies_to :: "fingerprint \<Rightarrow> fingerprint \<Rightarrow> bool" where
  "replies_to l r \<longleftrightarrow> fp_reply l \<noteq> [] \<and> fp_reply l = fp_id r"

definition threaded :: "fingerprint \<Rightarrow> bool" where
  "threaded f \<longleftrightarrow> fp_conv f \<noteq> [] \<and> fp_conv f \<noteq> fp_id f"

definition quotes_shared :: "fingerprint \<Rightarrow> fingerprint \<Rightarrow> bool" where
  "quotes_shared l r \<longleftrightarrow> fp_quoted l \<noteq> [] \<and> (fp_quoted l = fp_quoted r \<or> fp_quoted l = fp_id r) \<or>
     fp_quoted r \<noteq> [] \<and> fp_quoted r = fp_id l"

text \<open>Each signal with its weight in hundredths.\<close>

definition topic_weight :: "fingerprint \<Rightarrow> fingerprint \<Rightarrow> int" where
  "topic_weight l r = (let shared = card (set (fp_topics l) \<inter> set (fp_topics r));
       whole = max 1 (card (set (fp_topics l) \<union> set (fp_topics r)))
     in if 3 \<le> shared \<and> 28 * whole \<le> 100 * shared then 30
        else if 2 \<le> shared \<and> 22 * whole \<le> 100 * shared then 22 else 0)"

definition time_apart :: "fingerprint \<Rightarrow> fingerprint \<Rightarrow> int" where
  "time_apart l r = \<bar>fp_created l - fp_created r\<bar>"

definition near_weight :: "int \<Rightarrow> int" where
  "near_weight d = (if d \<le> hours 2 then 10 else if d \<le> hours 8 then 6 else if d \<le> hours 24 then 3 else 0)"

definition weighed_signals :: "fingerprint \<Rightarrow> fingerprint \<Rightarrow> (pystr \<times> int) list" where
  "weighed_signals l r = filter (\<lambda>(s, w). w \<noteq> 0)
     [(''direct_reply_relation'', if replies_to l r \<or> replies_to r l then 96 else 0),
      (''same_conversation'', if threaded l \<and> threaded r \<and> fp_conv l = fp_conv r then 94 else 0),
      (''shared_quoted_reference'', if quotes_shared l r then 92 else 0),
      (''shared_external_reference'', if overlap (fp_refs l) (fp_refs r) then 88 else 0),
      (''shared_context_anchor'', if overlap (fp_anchors l) (fp_anchors r) then 35 else 0),
      (''topic_overlap'', topic_weight l r),
      (''shared_participants'', if overlap (fp_people l) (fp_people r) then 12 else 0),
      (''compatible_event_type'', if fp_type l = fp_type r \<and> fp_type l \<notin> set generic_types then 6 else 0),
      (''temporal_proximity'', near_weight (time_apart l r))]"

definition weighed_conflicts :: "fingerprint \<Rightarrow> fingerprint \<Rightarrow> (pystr \<times> int) list" where
  "weighed_conflicts l r = filter (\<lambda>(s, w). w \<noteq> 0)
     [(''large_temporal_gap'', if hours 168 < time_apart l r then 30 else 0),
      (''temporal_gap'', if hours 72 < time_apart l r \<and> time_apart l r \<le> hours 168 then 18 else 0),
      (''event_type_conflict'', if fp_type l \<notin> set generic_types \<and> fp_type r \<notin> set generic_types \<and> fp_type l \<noteq> fp_type r then 20 else 0)]"

definition clamped :: "int \<Rightarrow> int" where "clamped s = max 0 (min 100 s)"

definition decide :: "pystr list \<Rightarrow> pystr list \<Rightarrow> int \<Rightarrow> event_decision" where
  "decide signals conflicts sc =
     (let strong = list_ex (\<lambda>s. s \<in> set strong_signals) signals;
          semantic = length (filter (\<lambda>s. s \<in> set semantic_signals) signals)
      in if strong \<and> 85 \<le> sc \<and> conflicts = [] then Confident
         else if strong \<and> 65 \<le> sc then Probable
         else if 72 \<le> sc \<and> 2 \<le> semantic \<and> ''event_type_conflict'' \<notin> set conflicts then Probable
         else if 45 \<le> sc then Ambiguous else Separate)"

definition match_fingerprints :: "fingerprint \<Rightarrow> fingerprint \<Rightarrow> event_candidate" where
  "match_fingerprints l r =
     (if fp_id l = fp_id r
      then \<lparr>ec_left = fp_id l, ec_right = fp_id r, ec_conf = 1000, ec_signals = [''same_update_identity''],
        ec_conflicts = [], ec_decision = Confident\<rparr>
      else (let s = weighed_signals l r; c = weighed_conflicts l r;
                sc = clamped (sum_list (map snd s) - sum_list (map snd c))
            in \<lparr>ec_left = fp_id l, ec_right = fp_id r, ec_conf = 10 * sc, ec_signals = map fst s,
                 ec_conflicts = map fst c, ec_decision = decide (map fst s) (map fst c) sc\<rparr>))"

section \<open>The stored state\<close>

record fused_event =
  fe_id :: pystr
  fe_type :: pystr
  fe_created :: pystr
  fe_updated :: pystr
  fe_members :: "pystr list"
  fe_conf :: int
  fe_subject :: pystr

record membership =
  mb_event :: pystr
  mb_conf :: int
  mb_signals :: "pystr list"
  mb_conflicts :: "pystr list"
  mb_decision :: event_decision
  mb_updated :: pystr

record decision_row =
  dc_update :: pystr
  dc_candidate :: pystr
  dc_event :: pystr
  dc_decision :: pystr
  dc_conf :: int
  dc_signals :: "pystr list"
  dc_conflicts :: "pystr list"
  dc_created :: pystr

record fusion =
  fu_events :: "(pystr \<times> fused_event) list"
  fu_members :: "(pystr \<times> membership) list"
  fu_prints :: "(pystr \<times> fingerprint) list"
  fu_log :: "decision_row list"

definition fresh_fusion :: fusion where
  "fresh_fusion = \<lparr>fu_events = [], fu_members = [], fu_prints = [], fu_log = []\<rparr>"

definition max_fingerprints :: nat where "max_fingerprints = 5000"
definition max_events :: nat where "max_events = 2000"
definition max_decisions :: nat where "max_decisions = 2000"

text \<open>\<open>_event_state\<close>: what is read back before every operation.\<close>

definition event_kept :: "pystr \<times> fused_event \<Rightarrow> bool" where
  "event_kept p \<longleftrightarrow> fe_id (snd p) = fst p \<and> take 4 (fst p) = ''evt:'' \<and> fe_members (snd p) \<noteq> []"

definition sanitize_fusion :: "fusion \<Rightarrow> fusion" where
  "sanitize_fusion s =
     (let es = map (\<lambda>(k, e). (k, e\<lparr>fe_members := take 500 (sort (remdups (fe_members e)))\<rparr>))
           (filter event_kept (last_n max_events (fu_events s)))
      in \<lparr>fu_events = es,
          fu_members = filter (\<lambda>(i, m). case map_of es (mb_event m) of None \<Rightarrow> False | Some e \<Rightarrow> i \<in> set (fe_members e)) (fu_members s),
          fu_prints = filter (\<lambda>(k, f). fp_id f \<noteq> [] \<and> fp_id f = k) (last_n max_fingerprints (fu_prints s)),
          fu_log = last_n max_decisions (fu_log s)\<rparr>)"

definition record_decision :: "instant \<Rightarrow> pystr \<Rightarrow> pystr \<Rightarrow> pystr \<Rightarrow> pystr \<Rightarrow> int \<Rightarrow> pystr list \<Rightarrow> pystr list \<Rightarrow> fusion \<Rightarrow> fusion" where
  "record_decision now i decision candidate event conf signals conflicts s =
     s\<lparr>fu_log := last_n max_decisions (fu_log s @ [\<lparr>dc_update = i, dc_candidate = candidate, dc_event = event,
        dc_decision = decision, dc_conf = conf, dc_signals = signals, dc_conflicts = conflicts, dc_created = isoformat now\<rparr>])\<rparr>"

fun decision_name :: "event_decision \<Rightarrow> pystr" where
  "decision_name Confident = ''confident_same_event''"
| "decision_name Probable = ''probable_same_event''"
| "decision_name Ambiguous = ''ambiguous''"
| "decision_name Separate = ''separate_event''"

text \<open>The separator of the hashed texts is the unit separator.\<close>

fun join_units :: "pystr list \<Rightarrow> pystr" where
  "join_units [] = []"
| "join_units [x] = x"
| "join_units (x # xs) = x @ [CHR 0x1F] @ join_units xs"

definition event_hash :: "(pystr \<Rightarrow> pystr) \<Rightarrow> pystr \<Rightarrow> pystr \<Rightarrow> nat \<Rightarrow> pystr" where
  "event_hash sha namespace v n = take n (sha (namespace @ [CHR 0x1F] @ v))"

definition make_event_id :: "(pystr \<Rightarrow> pystr) \<Rightarrow> pystr list \<Rightarrow> pystr" where
  "make_event_id sha ids = ''evt:'' @ event_hash sha ''event-v1'' (join_units (sort (remdups ids))) 24"

definition shared_of :: "pystr list \<Rightarrow> pystr list \<Rightarrow> pystr list" where
  "shared_of xs ys = sort (remdups (filter (\<lambda>x. x \<in> set ys) xs))"

definition subject_key :: "(pystr \<Rightarrow> pystr) \<Rightarrow> fingerprint \<Rightarrow> fingerprint \<Rightarrow> pystr" where
  "subject_key sha l r =
     (let a = shared_of (fp_anchors l) (fp_anchors r); b = shared_of (fp_refs l) (fp_refs r);
          shared = (if a \<noteq> [] then a else if b \<noteq> [] then b else shared_of (fp_topics l) (fp_topics r));
          raw = or_default (join_units (take 8 shared)) (join_units (sort [fp_id l, fp_id r]))
      in ''subject:'' @ event_hash sha ''event-subject-v1'' raw 20)"

definition pair_type :: "fingerprint \<Rightarrow> fingerprint \<Rightarrow> pystr" where
  "pair_type l r =
     (if fp_type l = fp_type r then fp_type l
      else if fp_type l \<in> set generic_types \<and> fp_type r \<notin> set generic_types then fp_type r
      else if fp_type r \<in> set generic_types \<and> fp_type l \<notin> set generic_types then fp_type l
      else ''unknown'')"

definition put_membership :: "instant \<Rightarrow> pystr \<Rightarrow> pystr \<Rightarrow> event_candidate \<Rightarrow> fusion \<Rightarrow> fusion" where
  "put_membership now event i c s = s\<lparr>fu_members := AList.update i
     \<lparr>mb_event = event, mb_conf = ec_conf c, mb_signals = ec_signals c, mb_conflicts = ec_conflicts c,
      mb_decision = ec_decision c, mb_updated = isoformat now\<rparr> (fu_members s)\<rparr>"

definition create_event :: "(pystr \<Rightarrow> pystr) \<Rightarrow> instant \<Rightarrow> fingerprint \<Rightarrow> fingerprint \<Rightarrow> event_candidate \<Rightarrow> fusion \<Rightarrow> pystr \<times> fusion" where
  "create_event sha now l r c s =
     (let k = make_event_id sha [fp_id l, fp_id r];
          e = \<lparr>fe_id = k, fe_type = pair_type l r, fe_created = isoformat now, fe_updated = isoformat now,
               fe_members = sort (remdups [fp_id l, fp_id r]), fe_conf = ec_conf c, fe_subject = subject_key sha l r\<rparr>
      in (k, put_membership now k (fp_id r) c (put_membership now k (fp_id l) c
           (s\<lparr>fu_events := AList.update k e (fu_events s)\<rparr>))))"

definition attach_event :: "instant \<Rightarrow> pystr \<Rightarrow> fused_event \<Rightarrow> fingerprint \<Rightarrow> event_candidate \<Rightarrow> fusion \<Rightarrow> fusion" where
  "attach_event now k e f c s = put_membership now k (fp_id f) c
     (s\<lparr>fu_events := AList.update k (e\<lparr>fe_members := sort (remdups (fe_members e @ [fp_id f])),
        fe_updated := isoformat now, fe_conf := min (fe_conf e) (ec_conf c),
        fe_type := (if fe_type e \<in> set generic_types \<and> fp_type f \<notin> set generic_types then fp_type f else fe_type e)\<rparr>) (fu_events s)\<rparr>)"

definition prune_fusion :: "fusion \<Rightarrow> fusion" where
  "prune_fusion s =
     (let ps = (if max_fingerprints < length (fu_prints s)
                then take max_fingerprints (rev (sort_key (\<lambda>(k, f). isoformat (fp_created f)) (rev (fu_prints s)))) else fu_prints s);
          t = (if max_events < length (fu_events s)
               then (let es = take max_events (rev (sort_key (\<lambda>(k, e). fe_updated e) (rev (fu_events s))))
                     in s\<lparr>fu_events := es, fu_members := filter (\<lambda>(i, m). mb_event m \<in> set (map fst es)) (fu_members s)\<rparr>)
               else s)
      in t\<lparr>fu_prints := ps, fu_log := last_n max_decisions (fu_log t)\<rparr>)"

section \<open>Grouping\<close>

definition decision_rank :: "event_decision \<Rightarrow> nat" where
  "decision_rank d = (case d of Confident \<Rightarrow> 3 | Probable \<Rightarrow> 2 | Ambiguous \<Rightarrow> 1 | Separate \<Rightarrow> 0)"

definition same_event :: "event_decision \<Rightarrow> bool" where
  "same_event d \<longleftrightarrow> d = Confident \<or> d = Probable"

definition event_of :: "fusion \<Rightarrow> pystr \<Rightarrow> pystr" where
  "event_of s i = (case map_of (fu_members s) i of None \<Rightarrow> [] | Some m \<Rightarrow> mb_event m)"

text \<open>The candidates, the best first: by rank, confidence and id.\<close>

definition ranked_matches :: "fingerprint \<Rightarrow> (pystr \<times> fingerprint) list \<Rightarrow> (event_candidate \<times> fingerprint) list" where
  "ranked_matches f prints = rev (sort_key (\<lambda>(c, o'). (decision_rank (ec_decision c), ec_conf c, fp_id o'))
     (rev (map (\<lambda>(i, o'). (match_fingerprints f o', o')) (filter (\<lambda>(i, o'). i \<noteq> fp_id f) prints))))"

definition plausible_events :: "fusion \<Rightarrow> (event_candidate \<times> fingerprint) list \<Rightarrow> pystr list" where
  "plausible_events s ms = remdups (filter (\<lambda>k. k \<noteq> [])
     (map (\<lambda>(c, o'). event_of s (fp_id o')) (filter (\<lambda>(c, o'). same_event (ec_decision c)) ms)))"

definition group_one :: "(pystr \<Rightarrow> pystr) \<Rightarrow> instant \<Rightarrow> (pystr \<times> fingerprint) list \<Rightarrow> pystr \<Rightarrow> fusion \<Rightarrow> fusion" where
  "group_one sha now prints i s = (case map_of prints i of
       None \<Rightarrow> s
     | Some f \<Rightarrow>
         if i \<in> set (map fst (fu_members s)) then s
         else (case ranked_matches f prints of
             [] \<Rightarrow> record_decision now i (decision_name Separate) [] [] 0 [] [] s
           | (c, o') # rest \<Rightarrow>
               (let best = (if 1 < length (plausible_events s ((c, o') # rest))
                      then c\<lparr>ec_conflicts := sort (remdups (ec_conflicts c @ [''competing_event_candidates''])), ec_decision := Ambiguous\<rparr>
                      else c);
                    (k, t) = (if \<not> same_event (ec_decision best) then ([], s)
                      else (case map_of (fu_events s) (event_of s (fp_id o')) of
                          Some e \<Rightarrow> (event_of s (fp_id o'), attach_event now (event_of s (fp_id o')) e f best s)
                        | None \<Rightarrow> create_event sha now f o' best s))
                in record_decision now i (decision_name (ec_decision best)) (fp_id o') k (ec_conf best) (ec_signals best) (ec_conflicts best) t)))"

definition note_post :: "(update \<Rightarrow> text_features) \<Rightarrow> instant \<Rightarrow> pystr list \<Rightarrow> update \<Rightarrow> fusion \<Rightarrow> fusion" where
  "note_post features now allowed u s =
     (let f = build_fingerprint features u
      in if fp_source f \<notin> set allowed then record_decision now (upd_id u) ''source_blocked'' [] [] 0 [] [] s
         else s\<lparr>fu_prints := AList.update (fp_id f) f (fu_prints s)\<rparr>)"

definition allowed_sources :: "pystr list \<Rightarrow> pystr list" where
  "allowed_sources hs = map (\<lambda>h. py_casefold (py_strip (py_lstrip_at h))) (filter (\<lambda>h. py_strip h \<noteq> []) hs)"

definition shadow_group :: "(pystr \<Rightarrow> pystr) \<Rightarrow> (update \<Rightarrow> text_features) \<Rightarrow> instant \<Rightarrow> pystr list \<Rightarrow> update list \<Rightarrow> fusion \<Rightarrow> fusion" where
  "shadow_group sha features now handles us s =
     (let allowed = allowed_sources handles;
          incoming = sort_key (\<lambda>u. (created_at u, upd_id u)) us;
          t = fold (note_post features now allowed) incoming (sanitize_fusion s);
          configured = filter (\<lambda>u. fp_source (build_fingerprint features u) \<in> set allowed) incoming
      in prune_fusion (fold (\<lambda>u. group_one sha now (fu_prints t) (upd_id u)) configured t))"

section \<open>Corrections by hand\<close>

definition remove_membership :: "instant \<Rightarrow> pystr \<Rightarrow> pystr \<Rightarrow> fusion \<Rightarrow> bool \<times> fusion" where
  "remove_membership now i reason s =
     (let t = sanitize_fusion s in
      case map_of (fu_members t) i of
        None \<Rightarrow> (False, t)
      | Some m \<Rightarrow>
          (let k = mb_event m;
               v = t\<lparr>fu_members := AList.delete i (fu_members t)\<rparr>;
               x = (case map_of (fu_events v) k of
                   None \<Rightarrow> v
                 | Some e \<Rightarrow>
                     (let ms = sort (remdups (filter (\<lambda>j. j \<noteq> i) (fe_members e)))
                      in if ms = [] then v\<lparr>fu_events := AList.delete k (fu_events v)\<rparr>
                         else v\<lparr>fu_events := AList.update k (e\<lparr>fe_members := ms, fe_updated := isoformat now\<rparr>) (fu_events v)\<rparr>))
           in (True, record_decision now i ''membership_removed'' [] k 0 [] [take 80 reason] x)))"

text \<open>A target that is unknown, or gone once the post is removed, raises \<open>KeyError\<close>.\<close>

datatype key_error = KeyError pystr

definition reclassify :: "instant \<Rightarrow> pystr \<Rightarrow> pystr \<Rightarrow> int \<Rightarrow> fusion \<Rightarrow> key_error option \<times> fusion" where
  "reclassify now i target conf s =
     (let t = sanitize_fusion s in
      if target \<notin> set (map fst (fu_events t)) then (Some (KeyError target), t)
      else (let v = sanitize_fusion (snd (remove_membership now i ''manual_reclassification'' t)) in
        case map_of (fu_events v) target of
          None \<Rightarrow> (Some (KeyError target), v)
        | Some e \<Rightarrow>
            (let c = \<lparr>ec_left = i, ec_right = [], ec_conf = max 0 (min 1000 conf), ec_signals = [''manual_reclassification''],
                   ec_conflicts = [], ec_decision = Probable\<rparr>
             in (None, record_decision now i ''membership_reclassified'' [] target (ec_conf c) (ec_signals c) []
                  (put_membership now target i c (v\<lparr>fu_events := AList.update target
                     (e\<lparr>fe_members := sort (remdups (fe_members e @ [i])), fe_updated := isoformat now\<rparr>) (fu_events v)\<rparr>))))))"

datatype fusion_op =
    GroupPosts "update \<Rightarrow> text_features" instant "pystr list" "update list"
  | RemoveMembership instant pystr pystr
  | Reclassify instant pystr pystr int
  | PruneFusion

fun fusion_step :: "(pystr \<Rightarrow> pystr) \<Rightarrow> fusion_op \<Rightarrow> fusion \<Rightarrow> fusion" where
  "fusion_step sha (GroupPosts features now handles us) s = shadow_group sha features now handles us s"
| "fusion_step sha (RemoveMembership now i reason) s = snd (remove_membership now i reason s)"
| "fusion_step sha (Reclassify now i target conf) s = snd (reclassify now i target conf s)"
| "fusion_step sha PruneFusion s = prune_fusion s"

section \<open>When two posts belong together\<close>

definition linked :: "fingerprint \<Rightarrow> fingerprint \<Rightarrow> bool" where
  "linked l r \<longleftrightarrow> replies_to l r \<or> replies_to r l \<or> (threaded l \<and> threaded r \<and> fp_conv l = fp_conv r) \<or>
     quotes_shared l r \<or> overlap (fp_refs l) (fp_refs r)"

definition types_clash :: "fingerprint \<Rightarrow> fingerprint \<Rightarrow> bool" where
  "types_clash l r \<longleftrightarrow> fp_type l \<notin> set generic_types \<and> fp_type r \<notin> set generic_types \<and> fp_type l \<noteq> fp_type r"

lemma weights_nonneg: "0 \<le> topic_weight l r" "0 \<le> near_weight d"
  by (simp_all add: topic_weight_def near_weight_def Let_def)

lemma topic_commute: "topic_weight l r = topic_weight r l"
  by (simp add: topic_weight_def Int_commute Un_commute)

lemma time_commute: "time_apart l r = time_apart r l"
  by (simp add: time_apart_def abs_minus_commute)

lemma quotes_commute: "quotes_shared l r = quotes_shared r l"
  by (auto simp: quotes_shared_def)

lemma overlap_commute: "overlap xs ys = overlap ys xs"
  by (auto simp: overlap_def)

lemma symmetric_parts:
  "weighed_signals l r = weighed_signals r l" "weighed_conflicts l r = weighed_conflicts r l"
proof -
  have eqs: "(replies_to l r \<or> replies_to r l) = (replies_to r l \<or> replies_to l r)"
    "(threaded l \<and> threaded r \<and> fp_conv l = fp_conv r) = (threaded r \<and> threaded l \<and> fp_conv r = fp_conv l)"
    "(fp_type l = fp_type r \<and> fp_type l \<notin> set generic_types) = (fp_type r = fp_type l \<and> fp_type r \<notin> set generic_types)"
    by auto
  show "weighed_signals l r = weighed_signals r l"
    unfolding weighed_signals_def eqs topic_commute [of l r] time_commute [of l r] quotes_commute [of l r]
      overlap_commute [of "fp_refs l" "fp_refs r"] overlap_commute [of "fp_anchors l" "fp_anchors r"]
      overlap_commute [of "fp_people l" "fp_people r"] ..
  show "weighed_conflicts l r = weighed_conflicts r l"
    unfolding weighed_conflicts_def
    by (rule arg_cong [where f = "filter (\<lambda>(s, w). w \<noteq> 0)"]) (auto simp: time_commute [of l r])
qed

lemma sum_nonneg_filter: "\<forall>(s, w) \<in> set xs. (0 :: int) \<le> w \<Longrightarrow> (s, w) \<in> set xs \<Longrightarrow> w \<le> sum_list (map snd (filter (\<lambda>(s, w). w \<noteq> 0) xs))"
proof (induction xs)
  case (Cons x xs)
  have "0 \<le> sum_list (map snd (filter (\<lambda>(s, w). w \<noteq> 0) xs))"
    by (rule sum_list_nonneg) (use Cons.prems(1) in auto)
  with Cons show ?case by (cases "x = (s, w)") (auto split: prod.splits)
qed simp

lemma strong_linked:
  "list_ex (\<lambda>s. s \<in> set strong_signals) (map fst (weighed_signals l r)) \<longleftrightarrow> linked l r"
  by (auto simp: weighed_signals_def strong_signals_def linked_def)

lemma linked_score: "linked l r \<Longrightarrow> 88 \<le> sum_list (map snd (weighed_signals l r))"
proof -
  assume "linked l r"
  let ?all = "[(''direct_reply_relation'', if replies_to l r \<or> replies_to r l then 96 else 0),
      (''same_conversation'', if threaded l \<and> threaded r \<and> fp_conv l = fp_conv r then 94 else 0),
      (''shared_quoted_reference'', if quotes_shared l r then 92 else 0),
      (''shared_external_reference'', if overlap (fp_refs l) (fp_refs r) then 88 else 0),
      (''shared_context_anchor'', if overlap (fp_anchors l) (fp_anchors r) then 35 else 0),
      (''topic_overlap'', topic_weight l r),
      (''shared_participants'', if overlap (fp_people l) (fp_people r) then 12 else 0),
      (''compatible_event_type'', if fp_type l = fp_type r \<and> fp_type l \<notin> set generic_types then 6 else 0),
      (''temporal_proximity'', near_weight (time_apart l r))] :: (pystr \<times> int) list"
  have all: "\<forall>(s, w) \<in> set ?all. 0 \<le> w" by (simp add: weights_nonneg)
  have bound: "w \<le> sum_list (map snd (weighed_signals l r))" if "(s, w) \<in> set ?all" for s w
    using sum_nonneg_filter [OF all that] by (simp only: weighed_signals_def)
  have "(if replies_to l r \<or> replies_to r l then 96 else 0) \<le> sum_list (map snd (weighed_signals l r))"
    by (rule bound [of "''direct_reply_relation''"]) simp
  moreover have "(if threaded l \<and> threaded r \<and> fp_conv l = fp_conv r then 94 else 0) \<le> sum_list (map snd (weighed_signals l r))"
    by (rule bound [of "''same_conversation''"]) simp
  moreover have "(if quotes_shared l r then 92 else 0) \<le> sum_list (map snd (weighed_signals l r))"
    by (rule bound [of "''shared_quoted_reference''"]) simp
  moreover have "(if overlap (fp_refs l) (fp_refs r) then 88 else 0) \<le> sum_list (map snd (weighed_signals l r))"
    by (rule bound [of "''shared_external_reference''"]) simp
  ultimately show ?thesis using \<open>linked l r\<close> unfolding linked_def by (auto split: if_splits)
qed

lemma decide_confident: "decide s c n = Confident \<longleftrightarrow> list_ex (\<lambda>x. x \<in> set strong_signals) s \<and> 85 \<le> n \<and> c = []"
  by (simp add: decide_def Let_def)

lemma no_conflicts: "map fst (weighed_conflicts l r) = [] \<longleftrightarrow> time_apart l r \<le> hours 72 \<and> \<not> types_clash l r"
  by (auto simp: weighed_conflicts_def types_clash_def hours_def us_per_s_def)

text \<open>
  C20: The comparison does not depend on the order of the two posts, and is confident exactly when it
  is one post, or a reply, conversation, quote or reference links them, they are at most three days
  apart and their types do not clash: no similarity of topics or people alone ever makes it confident.
\<close>

theorem confident_exactly_linked:
  "(ec_decision (match_fingerprints l r) = Confident) =
     (fp_id l = fp_id r \<or> linked l r \<and> time_apart l r \<le> hours 72 \<and> \<not> types_clash l r) \<and>
   ec_conf (match_fingerprints l r) = ec_conf (match_fingerprints r l) \<and>
   ec_signals (match_fingerprints l r) = ec_signals (match_fingerprints r l) \<and>
   ec_conflicts (match_fingerprints l r) = ec_conflicts (match_fingerprints r l) \<and>
   ec_decision (match_fingerprints l r) = ec_decision (match_fingerprints r l)"
proof -
  have sym: "ec_conf (match_fingerprints l r) = ec_conf (match_fingerprints r l) \<and>
   ec_signals (match_fingerprints l r) = ec_signals (match_fingerprints r l) \<and>
   ec_conflicts (match_fingerprints l r) = ec_conflicts (match_fingerprints r l) \<and>
   ec_decision (match_fingerprints l r) = ec_decision (match_fingerprints r l)"
    by (simp add: match_fingerprints_def Let_def symmetric_parts [of l r])
  let ?sc = "clamped (sum_list (map snd (weighed_signals l r)) - sum_list (map snd (weighed_conflicts l r)))"
  have "decide (map fst (weighed_signals l r)) (map fst (weighed_conflicts l r)) ?sc = Confident \<longleftrightarrow>
      linked l r \<and> 85 \<le> ?sc \<and> map fst (weighed_conflicts l r) = []"
    unfolding decide_confident strong_linked ..
  moreover have "85 \<le> ?sc" if "linked l r" "map fst (weighed_conflicts l r) = []"
    using linked_score [OF that(1)] that(2) by (simp add: clamped_def)
  ultimately have "decide (map fst (weighed_signals l r)) (map fst (weighed_conflicts l r)) ?sc = Confident \<longleftrightarrow>
      linked l r \<and> time_apart l r \<le> hours 72 \<and> \<not> types_clash l r"
    using no_conflicts by blast
  then have "(ec_decision (match_fingerprints l r) = Confident) =
     (fp_id l = fp_id r \<or> linked l r \<and> time_apart l r \<le> hours 72 \<and> \<not> types_clash l r)"
    by (simp add: match_fingerprints_def Let_def)
  with sym show ?thesis by blast
qed

section \<open>A post has one event\<close>

definition listed_ok :: "fusion \<Rightarrow> bool" where
  "listed_ok s \<longleftrightarrow> distinct (map fst (fu_events s)) \<and> distinct (map fst (fu_members s)) \<and>
     (\<forall>(k, e) \<in> set (fu_events s). distinct (fe_members e) \<and>
        (\<forall>i \<in> set (fe_members e). map_option mb_event (map_of (fu_members s) i) = Some k))"

lemma listed_okI:
  assumes "distinct (map fst (fu_events s))" "distinct (map fst (fu_members s))"
    "\<And>k e. (k, e) \<in> set (fu_events s) \<Longrightarrow> distinct (fe_members e) \<and>
      (\<forall>i \<in> set (fe_members e). map_option mb_event (map_of (fu_members s) i) = Some k)"
  shows "listed_ok s"
  unfolding listed_ok_def using assms by blast

lemma listed_event: "listed_ok s \<Longrightarrow> (k, e) \<in> set (fu_events s) \<Longrightarrow> i \<in> set (fe_members e) \<Longrightarrow> event_of s i = k"
  by (fastforce simp: listed_ok_def event_of_def split: option.splits)

lemma listed_member: "listed_ok s \<Longrightarrow> (k, e) \<in> set (fu_events s) \<Longrightarrow> i \<in> set (fe_members e) \<Longrightarrow> i \<in> set (map fst (fu_members s))"
proof -
  assume "listed_ok s" "(k, e) \<in> set (fu_events s)" "i \<in> set (fe_members e)"
  then have "map_option mb_event (map_of (fu_members s) i) = Some k" unfolding listed_ok_def by blast
  then have "map_of (fu_members s) i \<noteq> None" by auto
  then show ?thesis unfolding map_of_eq_None_iff by simp
qed

lemma map_of_filter_key: "distinct (map fst xs) \<Longrightarrow> map_of xs i = Some v \<Longrightarrow> P (i, v) \<Longrightarrow> map_of (filter P xs) i = Some v"
  by (induction xs) (auto split: if_splits dest: map_of_SomeD)

lemma last_n_subset: "set (last_n n xs) \<subseteq> set xs"
  by (simp add: last_n_def set_drop_subset)

lemma last_n_distinct: "distinct (map f xs) \<Longrightarrow> distinct (map f (last_n n xs))"
  by (simp add: last_n_def drop_map [symmetric] distinct_drop)

lemma distinct_filter_fst: "distinct (map fst xs) \<Longrightarrow> distinct (map fst (filter P xs))"
  by (simp add: distinct_map_filter)

lemma sanitize_ok:
  assumes "listed_ok s"
  shows "listed_ok (sanitize_fusion s)"
proof -
  let ?g = "\<lambda>(k, e). (k, e\<lparr>fe_members := take 500 (sort (remdups (fe_members e)))\<rparr>)"
  let ?es = "map ?g (filter event_kept (last_n max_events (fu_events s)))"
  have "map fst ?es = map fst (filter event_kept (last_n max_events (fu_events s)))" by (auto simp: comp_def case_prod_unfold)
  then have dist: "distinct (map fst ?es)"
    using assms distinct_filter_fst last_n_distinct unfolding listed_ok_def by metis
  have "distinct (fe_members e) \<and> (\<forall>i \<in> set (fe_members e). map_option mb_event (map_of (fu_members (sanitize_fusion s)) i) = Some k)"
    if e: "(k, e) \<in> set ?es" for k e
  proof -
    from e obtain d where d: "(k, d) \<in> set (fu_events s)" "e = d\<lparr>fe_members := take 500 (sort (remdups (fe_members d)))\<rparr>"
      using last_n_subset by fastforce
    have sub: "set (fe_members e) \<subseteq> set (fe_members d)" unfolding d(2) by (auto dest: in_set_takeD)
    have "map_option mb_event (map_of (fu_members (sanitize_fusion s)) i) = Some k" if i: "i \<in> set (fe_members e)" for i
    proof -
      from i sub d(1) assms have "map_option mb_event (map_of (fu_members s) i) = Some k" by (fastforce simp: listed_ok_def)
      then obtain m where m: "map_of (fu_members s) i = Some m" "mb_event m = k" by auto
      have "map_of ?es k = Some e" using map_of_is_SomeI [OF dist e] .
      with m i have "map_of (fu_members (sanitize_fusion s)) i = Some m"
        unfolding sanitize_fusion_def Let_def using assms by (simp add: listed_ok_def map_of_filter_key)
      with m show ?thesis by simp
    qed
    moreover have "distinct (fe_members e)" unfolding d(2) by simp
    ultimately show ?thesis by blast
  qed
  moreover have "distinct (map fst (fu_members (sanitize_fusion s)))"
    using assms by (simp add: sanitize_fusion_def Let_def listed_ok_def distinct_filter_fst)
  moreover have es: "fu_events (sanitize_fusion s) = ?es" by (simp add: sanitize_fusion_def Let_def)
  ultimately show ?thesis using dist unfolding es [symmetric] by (intro listed_okI)
qed

lemma entries_of_update:
  "distinct (map fst xs) \<Longrightarrow> p \<in> set (AList.update k v xs) \<Longrightarrow> p = (k, v) \<or> (p \<in> set xs \<and> fst p \<noteq> k)"
  by (induction xs) (auto split: if_splits)

text \<open>Putting an event whose new members are listed by no other one.\<close>

lemma assign_ok:
  assumes "listed_ok s" "fu_events t = AList.update k e (fu_events s)" "distinct (map fst (fu_members t))"
    "\<And>i. i \<notin> N \<Longrightarrow> map_of (fu_members t) i = map_of (fu_members s) i"
    "\<And>i. i \<in> N \<Longrightarrow> map_option mb_event (map_of (fu_members t) i) = Some k"
    "\<And>i. i \<in> set (fe_members e) \<Longrightarrow> i \<in> N \<or> map_option mb_event (map_of (fu_members s) i) = Some k"
    "distinct (fe_members e)"
    "\<And>i k' d. i \<in> N \<Longrightarrow> (k', d) \<in> set (fu_events s) \<Longrightarrow> k' \<noteq> k \<Longrightarrow> i \<notin> set (fe_members d)"
  shows "listed_ok t"
proof -
  have entries: "p = (k, e) \<or> (p \<in> set (fu_events s) \<and> fst p \<noteq> k)" if "p \<in> set (fu_events t)" for p
  proof -
    have "distinct (map fst (fu_events s))" using assms(1) by (simp add: listed_ok_def)
    with that show ?thesis unfolding assms(2) by (intro entries_of_update)
  qed
  have "distinct (fe_members d) \<and> (\<forall>i \<in> set (fe_members d). map_option mb_event (map_of (fu_members t) i) = Some k')"
    if "(k', d) \<in> set (fu_events t)" for k' d
    using entries [OF that]
  proof
    assume "(k', d) = (k, e)"
    moreover have "map_option mb_event (map_of (fu_members t) i) = Some k" if "i \<in> set (fe_members e)" for i
      using assms(4) [of i] assms(5) [of i] assms(6) [OF that] by (cases "i \<in> N") simp_all
    ultimately show ?thesis using assms(7) by simp
  next
    assume old: "(k', d) \<in> set (fu_events s) \<and> fst (k', d) \<noteq> k"
    then have "distinct (fe_members d)" "\<forall>i \<in> set (fe_members d). map_option mb_event (map_of (fu_members s) i) = Some k'"
      using assms(1) by (auto simp: listed_ok_def)
    moreover have "i \<notin> N" if "i \<in> set (fe_members d)" for i using assms(8) old that by auto
    ultimately show ?thesis using assms(4) by simp
  qed
  moreover have "distinct (map fst (fu_events t))" unfolding assms(2) using assms(1) by (simp add: listed_ok_def distinct_update)
  ultimately show ?thesis using assms(3) by (intro listed_okI)
qed

lemma record_frame [simp]:
  "fu_events (record_decision now i d c k n x y s) = fu_events s" "fu_members (record_decision now i d c k n x y s) = fu_members s"
  "fu_prints (record_decision now i d c k n x y s) = fu_prints s"
  by (simp_all add: record_decision_def)

lemma listed_frame:
  assumes "fu_events t = fu_events s" "fu_members t = fu_members s" "listed_ok s"
  shows "listed_ok t"
  using assms(3) unfolding listed_ok_def assms(1,2) .

lemma listed_of: "listed_ok s \<Longrightarrow> (k, e) \<in> set (fu_events s) \<Longrightarrow> i \<in> set (fe_members e) \<Longrightarrow>
    map_option mb_event (map_of (fu_members s) i) = Some k"
  unfolding listed_ok_def by blast

lemma record_ok [simp]: "listed_ok (record_decision now i d c k n x y s) \<longleftrightarrow> listed_ok s"
  unfolding listed_ok_def record_frame ..

lemma put_frame [simp]:
  "fu_events (put_membership now k i c s) = fu_events s"
  "map_option mb_event (map_of (fu_members (put_membership now k i c s)) j) =
     (if j = i then Some k else map_option mb_event (map_of (fu_members s) j))"
  by (simp_all add: put_membership_def update_conv')

lemma put_distinct: "distinct (map fst (fu_members s)) \<Longrightarrow> distinct (map fst (fu_members (put_membership now k i c s)))"
  by (simp add: put_membership_def distinct_update)

lemma put_other: "j \<noteq> i \<Longrightarrow> map_of (fu_members (put_membership now k i c s)) j = map_of (fu_members s) j"
  by (simp add: put_membership_def update_conv')

lemma create_ok:
  assumes "listed_ok s" "fp_id l \<notin> set (map fst (fu_members s))" "event_of s (fp_id r) \<notin> set (map fst (fu_events s))"
  shows "listed_ok (snd (create_event sha now l r c s))"
proof (rule assign_ok [OF assms(1), of _ "make_event_id sha [fp_id l, fp_id r]" _ "{fp_id l, fp_id r}"])
  let ?k = "make_event_id sha [fp_id l, fp_id r]"
  let ?e = "\<lparr>fe_id = ?k, fe_type = pair_type l r, fe_created = isoformat now, fe_updated = isoformat now,
    fe_members = sort (remdups [fp_id l, fp_id r]), fe_conf = ec_conf c, fe_subject = subject_key sha l r\<rparr>"
  show "fu_events (snd (create_event sha now l r c s)) = AList.update ?k ?e (fu_events s)"
    by (simp add: create_event_def Let_def)
  show "distinct (map fst (fu_members (snd (create_event sha now l r c s))))"
    using assms(1) by (simp add: create_event_def Let_def put_distinct listed_ok_def)
  show "map_of (fu_members (snd (create_event sha now l r c s))) i = map_of (fu_members s) i" if "i \<notin> {fp_id l, fp_id r}" for i
    using that by (simp add: create_event_def Let_def put_other)
  show "map_option mb_event (map_of (fu_members (snd (create_event sha now l r c s))) i) = Some ?k" if "i \<in> {fp_id l, fp_id r}" for i
    using that by (auto simp: create_event_def Let_def simp del: map_option_eq_Some)
  show "i \<in> {fp_id l, fp_id r} \<or> map_option mb_event (map_of (fu_members s) i) = Some ?k" if "i \<in> set (fe_members ?e)" for i
    using that by (simp del: remdups.simps)
  show "distinct (fe_members ?e)" by simp
  show "i \<notin> set (fe_members d)" if "i \<in> {fp_id l, fp_id r}" "(k', d) \<in> set (fu_events s)" for i k' d
  proof
    assume i: "i \<in> set (fe_members d)"
    from listed_member [OF assms(1) that(2) i] assms(2) have "i \<noteq> fp_id l" by blast
    with that(1) have "i = fp_id r" by simp
    with listed_event [OF assms(1) that(2) i] assms(3) that(2) show False by force
  qed
qed

lemma join_ok:
  assumes "listed_ok s" "map_of (fu_events s) k = Some e" "i \<notin> set (map fst (fu_members s))"
    "set (fe_members d) = insert i (set (fe_members e))" "distinct (fe_members d)"
  shows "listed_ok (put_membership now k i c (s\<lparr>fu_events := AList.update k d (fu_events s)\<rparr>))"
proof (rule assign_ok [OF assms(1), of _ k d "{i}"])
  from assms(2) have e: "(k, e) \<in> set (fu_events s)" by (rule map_of_SomeD)
  show "j \<in> {i} \<or> map_option mb_event (map_of (fu_members s) j) = Some k" if "j \<in> set (fe_members d)" for j
    using that assms(4) listed_of [OF assms(1) e, of j] by (cases "j = i") simp_all
  show "j \<notin> set (fe_members x)" if "j \<in> {i}" "(k', x) \<in> set (fu_events s)" for j k' x
    using that assms(3) listed_member [OF assms(1) that(2), of j] by auto
qed (use assms(1,5) in \<open>simp_all add: put_distinct put_other listed_ok_def\<close>)

lemma attach_ok:
  assumes "listed_ok s" "map_of (fu_events s) k = Some e" "fp_id f \<notin> set (map fst (fu_members s))"
  shows "listed_ok (attach_event now k e f c s)"
  unfolding attach_event_def by (rule join_ok [OF assms]) auto

lemma group_one_ok:
  assumes "listed_ok s" "\<forall>(k, f) \<in> set prints. fp_id f = k"
  shows "listed_ok (group_one sha now prints i s)"
proof (cases "map_of prints i")
  case None
  with assms(1) show ?thesis by (simp add: group_one_def)
next
  case (Some f)
  then have f: "fp_id f = i" using assms(2) by (auto dest: map_of_SomeD)
  show ?thesis
  proof (cases "i \<in> set (map fst (fu_members s))")
    case True
    with Some assms(1) show ?thesis by (simp add: group_one_def)
  next
    case new: False
    show ?thesis
    proof (cases "ranked_matches f prints")
      case Nil
      with Some new assms(1) show ?thesis by (simp add: group_one_def)
    next
      case (Cons p rest)
      obtain c o' where p: "p = (c, o')" by (cases p)
      define best where "best = (if 1 < length (plausible_events s ((c, o') # rest))
        then c\<lparr>ec_conflicts := sort (remdups (ec_conflicts c @ [''competing_event_candidates''])), ec_decision := Ambiguous\<rparr> else c)"
      let ?k = "event_of s (fp_id o')"
      have new': "fp_id f \<notin> set (map fst (fu_members s))" using new f by simp
      have at: "listed_ok (attach_event now ?k e f best s)" if "map_of (fu_events s) ?k = Some e" for e
        using attach_ok [OF assms(1) that new'] .
      have cr: "listed_ok (snd (create_event sha now f o' best s))" if "map_of (fu_events s) ?k = None"
        using create_ok [OF assms(1) new', of o'] that by (simp add: map_of_eq_None_iff)
      have "group_one sha now prints i s = (let (k, t) = (if \<not> same_event (ec_decision best) then ([], s)
                      else (case map_of (fu_events s) ?k of
                          Some e \<Rightarrow> (?k, attach_event now ?k e f best s)
                        | None \<Rightarrow> create_event sha now f o' best s))
                in record_decision now i (decision_name (ec_decision best)) (fp_id o') k (ec_conf best) (ec_signals best) (ec_conflicts best) t)"
        unfolding group_one_def Some option.case Cons list.case p prod.case best_def [symmetric] using new
        by (simp only: if_False Let_def best_def)
      then show ?thesis using at cr assms(1)
        by (cases "same_event (ec_decision best)"; cases "map_of (fu_events s) ?k") (auto simp: Let_def split: prod.split)
    qed
  qed
qed

lemma note_frame [simp]:
  "fu_events (note_post features now allowed u s) = fu_events s" "fu_members (note_post features now allowed u s) = fu_members s"
  by (simp_all add: note_post_def Let_def)

definition keyed_prints :: "(pystr \<times> fingerprint) list \<Rightarrow> bool" where
  "keyed_prints ps \<longleftrightarrow> (\<forall>(k, f) \<in> set ps. fp_id f = k)"

lemma update_entry: "p \<in> set (AList.update k v xs) \<Longrightarrow> p = (k, v) \<or> p \<in> set xs"
  by (induction xs) (auto split: if_splits)

lemma note_keyed: "keyed_prints (fu_prints s) \<Longrightarrow> keyed_prints (fu_prints (note_post features now allowed u s))"
  unfolding note_post_def Let_def keyed_prints_def by (auto dest: update_entry)

lemma notes_frame: "fu_events (fold (note_post features now allowed) us s) = fu_events s \<and>
    fu_members (fold (note_post features now allowed) us s) = fu_members s \<and>
    (keyed_prints (fu_prints s) \<longrightarrow> keyed_prints (fu_prints (fold (note_post features now allowed) us s)))"
  by (induction us arbitrary: s) (auto intro: note_keyed)

lemma sanitize_keyed: "keyed_prints (fu_prints (sanitize_fusion s))"
  by (auto simp: sanitize_fusion_def Let_def keyed_prints_def)

lemma sort_entries: "set (take n (rev (sort_key f (rev xs)))) \<subseteq> set xs" 
  "distinct (map g xs) \<Longrightarrow> distinct (map g (take n (rev (sort_key f (rev xs)))))"
proof -
  show "set (take n (rev (sort_key f (rev xs)))) \<subseteq> set xs" by (auto dest: in_set_takeD)
  assume "distinct (map g xs)"
  then have "distinct (map g (rev (sort_key f (rev xs))))" by (simp add: distinct_map)
  then show "distinct (map g (take n (rev (sort_key f (rev xs)))))" unfolding take_map [symmetric] by (rule distinct_take)
qed

lemma prune_ok:
  assumes "listed_ok s"
  shows "listed_ok (prune_fusion s)"
proof (cases "max_events < length (fu_events s)")
  case False
  then show ?thesis by (intro listed_frame [OF _ _ assms]) (simp_all add: prune_fusion_def Let_def)
next
  case True
  let ?es = "take max_events (rev (sort_key (\<lambda>(k, e). fe_updated e) (rev (fu_events s))))"
  have t: "fu_events (prune_fusion s) = ?es" "fu_members (prune_fusion s) = filter (\<lambda>(i, m). mb_event m \<in> set (map fst ?es)) (fu_members s)"
    using True by (simp_all add: prune_fusion_def Let_def)
  show ?thesis
  proof (rule listed_okI)
    show "distinct (map fst (fu_events (prune_fusion s)))" unfolding t
      by (rule sort_entries(2)) (use assms in \<open>simp add: listed_ok_def\<close>)
    show "distinct (map fst (fu_members (prune_fusion s)))" unfolding t
      by (rule distinct_filter_fst) (use assms in \<open>simp add: listed_ok_def\<close>)
    fix k e assume e: "(k, e) \<in> set (fu_events (prune_fusion s))"
    then have old: "(k, e) \<in> set (fu_events s)" unfolding t by (rule subsetD [OF sort_entries(1)])
    have "map_option mb_event (map_of (fu_members (prune_fusion s)) i) = Some k" if "i \<in> set (fe_members e)" for i
    proof -
      from listed_of [OF assms old that] obtain m where m: "map_of (fu_members s) i = Some m" "mb_event m = k" by auto
      have "k \<in> set (map fst ?es)" using e unfolding t by force
      with m have "map_of (fu_members (prune_fusion s)) i = Some m" unfolding t
        by (intro map_of_filter_key) (use assms in \<open>simp_all add: listed_ok_def\<close>)
      with m show ?thesis by simp
    qed
    moreover have "distinct (fe_members e)" using assms old unfolding listed_ok_def by blast
    ultimately show "distinct (fe_members e) \<and> (\<forall>i \<in> set (fe_members e). map_option mb_event (map_of (fu_members (prune_fusion s)) i) = Some k)" by blast
  qed
qed

lemma shadow_group_ok:
  assumes "listed_ok s"
  shows "listed_ok (shadow_group sha features now handles us s)"
proof -
  let ?t = "fold (note_post features now (allowed_sources handles)) (sort_key (\<lambda>u. (created_at u, upd_id u)) us) (sanitize_fusion s)"
  have t: "listed_ok ?t" "keyed_prints (fu_prints ?t)"
    using notes_frame [of features now "allowed_sources handles" "sort_key (\<lambda>u. (created_at u, upd_id u)) us" "sanitize_fusion s"]
      sanitize_keyed [of s] listed_frame [OF _ _ sanitize_ok [OF assms], of ?t] by simp_all
  have "listed_ok v \<Longrightarrow> listed_ok (fold (\<lambda>u. group_one sha now (fu_prints ?t) (upd_id u)) vs v)" for vs v
    by (induction vs arbitrary: v) (use t(2) in \<open>simp_all add: group_one_ok keyed_prints_def\<close>)
  from this [OF t(1)] show ?thesis unfolding shadow_group_def Let_def by (rule prune_ok)
qed

lemma remove_ok:
  assumes "listed_ok s"
  shows "listed_ok (snd (remove_membership now i reason s))"
    "i \<notin> set (map fst (fu_members (snd (remove_membership now i reason s))))"
proof -
  let ?t = "sanitize_fusion s"
  have t: "listed_ok ?t" by (rule sanitize_ok [OF assms])
  have both: "listed_ok (snd (remove_membership now i reason s)) \<and> i \<notin> set (map fst (fu_members (snd (remove_membership now i reason s))))"
  proof (cases "map_of (fu_members ?t) i")
    case None
    then have "remove_membership now i reason s = (False, ?t)" by (simp add: remove_membership_def Let_def)
    moreover have "i \<notin> set (map fst (fu_members ?t))" using None by (simp add: map_of_eq_None_iff)
    ultimately show ?thesis using t by simp
  next
    case (Some m)
    let ?k = "mb_event m"
    let ?v = "?t\<lparr>fu_members := AList.delete i (fu_members ?t)\<rparr>"
    define es where "es = (case map_of (fu_events ?t) ?k of None \<Rightarrow> fu_events ?t
      | Some e \<Rightarrow> (let ms = sort (remdups (filter (\<lambda>j. j \<noteq> i) (fe_members e)))
          in if ms = [] then AList.delete ?k (fu_events ?t)
             else AList.update ?k (e\<lparr>fe_members := ms, fe_updated := isoformat now\<rparr>) (fu_events ?t)))"
    let ?r = "snd (remove_membership now i reason s)"
    have r: "fu_members ?r = AList.delete i (fu_members ?t)" "fu_events ?r = es"
      unfolding remove_membership_def Let_def es_def Some option.case snd_conv record_frame
      by (simp_all split: option.split)
    have dk: "distinct (map fst (fu_events ?t))" "distinct (map fst (fu_members ?t))" using t by (simp_all add: listed_ok_def)
    have entry: "\<exists>d. (k', d) \<in> set (fu_events ?t) \<and> set (fe_members e) \<subseteq> set (fe_members d) - {i} \<and> distinct (fe_members e)"
      if "(k', e) \<in> set es" for k' e
    proof -
      have other: "?thesis" if "(k', e) \<in> set (fu_events ?t)" "k' \<noteq> ?k"
      proof -
        have "i \<notin> set (fe_members e)" using listed_event [OF t that(1), of i] that(2) Some by (auto simp: event_of_def)
        moreover have "distinct (fe_members e)" using t that(1) unfolding listed_ok_def by blast
        ultimately show ?thesis using that(1) by blast
      qed
      show ?thesis
      proof (cases "map_of (fu_events ?t) ?k")
        case None
        then have "?k \<notin> fst ` set (fu_events ?t)" by (simp add: map_of_eq_None_iff)
        with that None other show ?thesis by (force simp: es_def)
      next
        case own: (Some d)
        let ?ms = "sort (remdups (filter (\<lambda>j. j \<noteq> i) (fe_members d)))"
        have del: "(k', e) \<in> set (AList.delete ?k (fu_events ?t)) \<Longrightarrow> (k', e) \<in> set (fu_events ?t) \<and> k' \<noteq> ?k"
          by (auto simp: AList.delete_eq)
        from own that consider (away) "(k', e) \<in> set (fu_events ?t)" "k' \<noteq> ?k"
          | (own) "k' = ?k" "e = d\<lparr>fe_members := ?ms, fe_updated := isoformat now\<rparr>"
          using del entries_of_update [OF dk(1), of "(k', e)" ?k] by (fastforce simp: es_def Let_def split: if_splits)
        then show ?thesis
        proof cases
          case away
          then show ?thesis by (rule other)
        next
          case own': own
          from own have "(k', d) \<in> set (fu_events ?t)" unfolding own'(1) by (rule map_of_SomeD)
          with own'(2) show ?thesis by auto
        qed
      qed
    qed
    have "listed_ok ?r"
    proof (rule listed_okI)
      show "distinct (map fst (fu_events ?r))" unfolding r es_def Let_def using dk(1)
        by (auto simp: distinct_update distinct_delete split: option.split)
      show "distinct (map fst (fu_members ?r))" unfolding r using dk(2) by (rule distinct_delete)
      fix k e assume "(k, e) \<in> set (fu_events ?r)"
      then obtain d where d: "(k, d) \<in> set (fu_events ?t)" "set (fe_members e) \<subseteq> set (fe_members d) - {i}" "distinct (fe_members e)"
        using entry unfolding r by blast
      have "map_option mb_event (map_of (fu_members ?r) j) = Some k" if "j \<in> set (fe_members e)" for j
        using listed_of [OF t d(1), of j] d(2) that unfolding r by (auto simp: delete_conv')
      with d(3) show "distinct (fe_members e) \<and> (\<forall>j \<in> set (fe_members e). map_option mb_event (map_of (fu_members ?r) j) = Some k)" by blast
    qed
    moreover have "i \<notin> set (map fst (fu_members ?r))" unfolding r by (simp add: delete_keys)
    ultimately show ?thesis by blast
  qed
  then show "listed_ok (snd (remove_membership now i reason s))"
    "i \<notin> set (map fst (fu_members (snd (remove_membership now i reason s))))" by blast+
qed

lemma reclassify_ok:
  assumes "listed_ok s"
  shows "listed_ok (snd (reclassify now i target conf s))"
proof -
  let ?t = "sanitize_fusion s"
  let ?v = "sanitize_fusion (snd (remove_membership now i ''manual_reclassification'' ?t))"
  have t: "listed_ok ?t" by (rule sanitize_ok [OF assms])
  have v: "listed_ok ?v" by (rule sanitize_ok [OF remove_ok(1) [OF t]])
  have "set (map fst (fu_members ?v)) \<subseteq> set (map fst (fu_members (snd (remove_membership now i ''manual_reclassification'' ?t))))"
    by (auto simp: sanitize_fusion_def Let_def)
  with remove_ok(2) [OF t] have i: "i \<notin> set (map fst (fu_members ?v))" by blast
  show ?thesis
  proof (cases "target \<in> set (map fst (fu_events ?t))")
    case False
    with t show ?thesis by (simp add: reclassify_def Let_def)
  next
    case True
    show ?thesis
    proof (cases "map_of (fu_events ?v) target")
      case None
      with True v show ?thesis by (simp add: reclassify_def Let_def)
    next
      case (Some e)
      have "listed_ok (put_membership now target i c (?v\<lparr>fu_events := AList.update target
          (e\<lparr>fe_members := sort (remdups (fe_members e @ [i])), fe_updated := isoformat now\<rparr>) (fu_events ?v)\<rparr>))" for c
        by (rule join_ok [OF v Some i]) auto
      with True Some show ?thesis by (simp add: reclassify_def Let_def)
    qed
  qed
qed

interpretation fusion_store: invariant_machine "fusion_step sha" listed_ok
proof
  fix s op
  assume "listed_ok s"
  then show "listed_ok (fusion_step sha op s)"
    by (cases op) (simp_all add: shadow_group_ok remove_ok reclassify_ok prune_ok)
qed

text \<open>
  C10: Whatever posts are grouped, with whatever features and hash, and whatever is corrected by hand or
  pruned, no post is listed twice, neither in one event nor in two, and the membership of every
  listed post names the event that lists it.
\<close>

theorem post_has_one_event:
  "distinct (concat (map (\<lambda>(k, e). fe_members e) (fu_events (fold (fusion_step sha) ops fresh_fusion)))) \<and>
   list_all (\<lambda>(k, e). list_all (\<lambda>i. map_option mb_event (map_of (fu_members (fold (fusion_step sha) ops fresh_fusion)) i) = Some k)
     (fe_members e)) (fu_events (fold (fusion_step sha) ops fresh_fusion))"
proof -
  let ?s = "fold (fusion_step sha) ops fresh_fusion"
  have ok: "listed_ok ?s"
    by (rule fusion_store.run_inv) (simp add: fresh_fusion_def listed_ok_def)
  have "distinct (concat (map (\<lambda>(k, e). fe_members e) es))" if "set es \<subseteq> set (fu_events ?s)" "distinct (map fst es)" for es
    using that
  proof (induction es)
    case (Cons p es)
    obtain k e where p: "p = (k, e)" by (cases p)
    have "set (fe_members e) \<inter> (\<Union>(k', d) \<in> set es. set (fe_members d)) = {}"
    proof -
      have False if "i \<in> set (fe_members e)" "(k', d) \<in> set es" "i \<in> set (fe_members d)" for i k' d
        using that Cons.prems p listed_event [OF ok, of k e i] listed_event [OF ok, of k' d i] by force
      then show ?thesis by blast
    qed
    moreover have "distinct (fe_members e)" using ok Cons.prems(1) p unfolding listed_ok_def by fastforce
    ultimately show ?case using Cons p by auto
  qed simp
  from this [OF subset_refl] have "distinct (concat (map (\<lambda>(k, e). fe_members e) (fu_events ?s)))"
    using ok by (simp add: listed_ok_def)
  moreover have "list_all (\<lambda>(k, e). list_all (\<lambda>i. map_option mb_event (map_of (fu_members ?s) i) = Some k) (fe_members e)) (fu_events ?s)"
    using ok unfolding listed_ok_def list_all_iff by blast
  ultimately show ?thesis by blast
qed

text \<open>
  Moving a post to the event it is the only member of raises \<open>KeyError\<close>, and the post has lost its
  event.
\<close>

theorem reclassify_loses_only_member:
  assumes "sanitize_fusion s = s" "map_of (fu_members s) i = Some m" "map_of (fu_events s) (mb_event m) = Some e"
    "fe_members e = [i]" "distinct (map fst (fu_events s))"
  shows "fst (reclassify now i (mb_event m) conf s) = Some (KeyError (mb_event m)) \<and>
    map_of (fu_members (snd (reclassify now i (mb_event m) conf s))) i = None"
proof -
  let ?k = "mb_event m"
  let ?r = "snd (remove_membership now i ''manual_reclassification'' s)"
  have r: "fu_members ?r = AList.delete i (fu_members s)" "fu_events ?r = AList.delete ?k (fu_events s)"
    using assms(1-4) by (simp_all add: remove_membership_def Let_def)
  have "set (map fst (fu_events (sanitize_fusion ?r))) \<subseteq> set (map fst (fu_events ?r))"
    using last_n_subset by (force simp: sanitize_fusion_def Let_def)
  then have gone: "map_of (fu_events (sanitize_fusion ?r)) ?k = None"
    unfolding r map_of_eq_None_iff by (auto simp: delete_keys)
  have "set (map fst (fu_members (sanitize_fusion ?r))) \<subseteq> set (map fst (fu_members ?r))"
    by (auto simp: sanitize_fusion_def Let_def)
  then have lost: "map_of (fu_members (sanitize_fusion ?r)) i = None"
    unfolding r map_of_eq_None_iff by (auto simp: delete_keys)
  have "?k \<in> set (map fst (fu_events s))" using assms(3) by (force dest: map_of_SomeD)
  with gone lost assms(1) show ?thesis by (simp add: reclassify_def Let_def)
qed

definition demo_event :: fused_event where
  "demo_event = \<lparr>fe_id = ''evt:a'', fe_type = ''live'', fe_created = [], fe_updated = [], fe_members = [''1''], fe_conf = 900, fe_subject = []\<rparr>"

definition demo_membership :: membership where
  "demo_membership = \<lparr>mb_event = ''evt:a'', mb_conf = 900, mb_signals = [], mb_conflicts = [], mb_decision = Confident, mb_updated = []\<rparr>"

definition demo_fusion :: fusion where
  "demo_fusion = \<lparr>fu_events = [(''evt:a'', demo_event)], fu_members = [(''1'', demo_membership)], fu_prints = [], fu_log = []\<rparr>"

theorem reclassify_loses_only_member_witness:
  "fst (reclassify 5 ''1'' (mb_event demo_membership) 1000 demo_fusion) = Some (KeyError (mb_event demo_membership))"
proof -
  have "sanitize_fusion demo_fusion = demo_fusion"
    by (simp add: sanitize_fusion_def demo_fusion_def demo_event_def demo_membership_def last_n_def event_kept_def
      max_events_def max_fingerprints_def max_decisions_def)
  then show ?thesis
    using reclassify_loses_only_member [of demo_fusion "''1''" demo_membership demo_event 5 1000]
    by (simp add: demo_fusion_def demo_event_def demo_membership_def)
qed

end
