(* ===== verification/EventTimeline.thy ===== *)
theory EventTimeline
  imports EventFusion
begin

text \<open>
  \<open>app/event_timeline.py\<close> with \<open>app/event_timeline_state_compat.py\<close>: the segments of an event. The
  posts of an event are compared pair by pair, a post joins the segment of its best counterpart or
  starts one, and the segments of the event are numbered. The state is that of \<open>EventFusion\<close> with the
  tables of the segments beside it; every operation reads both back first. What the regular
  expressions draw from a text, the normal form of media addresses, SHA-256 and the archive are
  arguments, and all clock readings of a call are one instant. Confidences are thousandths.
\<close>

section \<open>Fingerprints of posts within an event\<close>

record segment_features =
  sf_time :: "int option"
  sf_time_kind :: pystr
  sf_questions :: "pystr list"
  sf_media :: "pystr list"
  sf_anchors :: "pystr list"
  sf_numbers :: "pystr list"
  sf_negation :: bool

record moment =
  mo_id :: pystr
  mo_event :: pystr
  mo_source :: pystr
  mo_created :: instant
  mo_type :: pystr
  mo_lang :: pystr
  mo_conv :: pystr
  mo_reply :: pystr
  mo_quoted :: pystr
  mo_refs :: "pystr list"
  mo_topics :: "pystr list"
  mo_people :: "pystr list"
  mo_time :: "int option"
  mo_time_kind :: pystr
  mo_part :: "nat option"
  mo_questions :: "pystr list"
  mo_media :: "pystr list"
  mo_anchors :: "pystr list"
  mo_numbers :: "pystr list"
  mo_negation :: bool

definition build_moment :: "(update \<Rightarrow> text_features) \<Rightarrow> (pystr \<Rightarrow> update \<Rightarrow> segment_features) \<Rightarrow> pystr \<Rightarrow> update \<Rightarrow> moment" where
  "build_moment features details event u =
     (let f = build_fingerprint features u; txt = jtext (body u) @ [CHR 0x0A] @ jtext (quoted_text u);
          d = details txt u
      in \<lparr>mo_id = upd_id u, mo_event = event, mo_source = fp_source f, mo_created = fp_created f,
          mo_type = fp_type f, mo_lang = py_casefold (jtext (lang u)), mo_conv = fp_conv f, mo_reply = fp_reply f,
          mo_quoted = fp_quoted f, mo_refs = fp_refs f, mo_topics = fp_topics f, mo_people = fp_people f,
          mo_time = sf_time d, mo_time_kind = sf_time_kind d, mo_part = extract_part_number txt,
          mo_questions = sf_questions d, mo_media = sf_media d, mo_anchors = sf_anchors d,
          mo_numbers = sf_numbers d, mo_negation = sf_negation d\<rparr>)"

section \<open>Comparing two posts of an event\<close>

datatype relation = SameMoment | Complementary | Continuation | Conflicting | AmbiguousMoment | SeparateMoment

fun relation_name :: "relation \<Rightarrow> pystr" where
  "relation_name SameMoment = ''same_moment''"
| "relation_name Complementary = ''complementary''"
| "relation_name Continuation = ''continuation''"
| "relation_name Conflicting = ''conflicting''"
| "relation_name AmbiguousMoment = ''ambiguous''"
| "relation_name SeparateMoment = ''separate''"

record segment_candidate =
  sc_left :: pystr
  sc_right :: pystr
  sc_conf :: int
  sc_signals :: "pystr list"
  sc_conflicts :: "pystr list"
  sc_relation :: relation
  sc_same :: bool

definition answers :: "moment \<Rightarrow> moment \<Rightarrow> bool" where
  "answers l r \<longleftrightarrow> mo_reply l \<noteq> [] \<and> mo_reply l = mo_id r"

definition direct_reply :: "moment \<Rightarrow> moment \<Rightarrow> bool" where
  "direct_reply l r \<longleftrightarrow> answers l r \<or> answers r l"

definition quotes_same :: "moment \<Rightarrow> moment \<Rightarrow> bool" where
  "quotes_same l r \<longleftrightarrow> mo_quoted l \<noteq> [] \<and> (mo_quoted l = mo_quoted r \<or> mo_quoted l = mo_id r) \<or>
     mo_quoted r \<noteq> [] \<and> mo_quoted r = mo_id l"

definition in_thread :: "moment \<Rightarrow> bool" where
  "in_thread m \<longleftrightarrow> mo_conv m \<noteq> [] \<and> mo_conv m \<noteq> mo_id m"

definition gap_of :: "int option \<Rightarrow> int option \<Rightarrow> int option" where
  "gap_of a b = (case (a, b) of (Some x, Some y) \<Rightarrow> Some \<bar>x - y\<bar> | _ \<Rightarrow> None)"

definition gap_is :: "(int \<Rightarrow> bool) \<Rightarrow> int option \<Rightarrow> bool" where
  "gap_is P g \<longleftrightarrow> (case g of None \<Rightarrow> False | Some d \<Rightarrow> P d)"

definition time_gap :: "moment \<Rightarrow> moment \<Rightarrow> int option" where
  "time_gap l r = gap_of (mo_time l) (mo_time r)"

definition part_gap :: "moment \<Rightarrow> moment \<Rightarrow> int option" where
  "part_gap l r = gap_of (map_option int (mo_part l)) (map_option int (mo_part r))"

definition moment_refs :: "pystr list \<Rightarrow> moment \<Rightarrow> moment \<Rightarrow> bool" where
  "moment_refs containers l r \<longleftrightarrow> set (mo_refs l) \<inter> set (mo_refs r) - set containers \<noteq> {}"

definition topic_points :: "moment \<Rightarrow> moment \<Rightarrow> int" where
  "topic_points l r = (let shared = card (set (mo_topics l) \<inter> set (mo_topics r));
       whole = max 1 (card (set (mo_topics l) \<union> set (mo_topics r)))
     in if 3 \<le> shared \<and> 28 * whole \<le> 100 * shared then 28
        else if 2 \<le> shared \<and> 20 * whole \<le> 100 * shared then 18 else 0)"

definition posted_apart :: "moment \<Rightarrow> moment \<Rightarrow> int" where
  "posted_apart l r = \<bar>mo_created l - mo_created r\<bar>"

text \<open>Each signal and each conflict with its weight in hundredths and its condition.\<close>

definition chosen :: "(pystr \<times> int \<times> bool) list \<Rightarrow> (pystr \<times> int) list" where
  "chosen xs = map (\<lambda>(n, w, b). (n, w)) (filter (\<lambda>(n, w, b). b) xs)"

definition moment_signals :: "pystr list \<Rightarrow> moment \<Rightarrow> moment \<Rightarrow> (pystr \<times> int) list" where
  "moment_signals containers l r = chosen
     [(''direct_reply_relation'', 94, direct_reply l r),
      (''shared_quoted_reference'', 98, quotes_same l r),
      (''shared_media_reference'', 97, overlap (mo_media l) (mo_media r)),
      (''same_content_timestamp'', 95, gap_is (\<lambda>d. d \<le> 15) (time_gap l r)),
      (''near_content_timestamp'', 22, gap_is (\<lambda>d. 15 < d \<and> d \<le> 120) (time_gap l r)),
      (''shared_clip_reference'', 90, moment_refs containers l r),
      (''shared_container_reference'', 4, \<not> moment_refs containers l r \<and> overlap (mo_refs l) (mo_refs r)),
      (''same_question_anchor'', 90, overlap (mo_questions l) (mo_questions r)),
      (''same_part_number'', 62, gap_is (\<lambda>d. d = 0) (part_gap l r)),
      (''adjacent_part_sequence'', 48, gap_is (\<lambda>d. d = 1) (part_gap l r)),
      (''same_conversation'', 50, in_thread l \<and> in_thread r \<and> mo_conv l = mo_conv r),
      (''topic_overlap'', topic_points l r, topic_points l r \<noteq> 0),
      (''shared_spoken_text_anchor'', 30, overlap (mo_anchors l) (mo_anchors r)),
      (''shared_participants'', 10, overlap (mo_people l) (mo_people r)),
      (''temporal_proximity'', if posted_apart l r \<le> minutes 15 then 8 else 4, posted_apart l r \<le> hours 2),
      (''same_event_type'', 2, mo_type l = mo_type r)]"

definition moment_conflicts :: "moment \<Rightarrow> moment \<Rightarrow> (pystr \<times> int) list" where
  "moment_conflicts l r = chosen
     [(''content_timestamp_mismatch'', 35, gap_is (\<lambda>d. 120 < d) (time_gap l r)),
      (''different_question'', 30, \<not> overlap (mo_questions l) (mo_questions r) \<and> mo_questions l \<noteq> [] \<and> mo_questions r \<noteq> []),
      (''distant_part_sequence'', 18, gap_is (\<lambda>d. 2 < d) (part_gap l r)),
      (''large_source_time_gap'', 20, hours 24 < posted_apart l r)]"

definition strong_moments :: "pystr list" where
  "strong_moments = [''shared_quoted_reference'', ''shared_media_reference'', ''same_content_timestamp'',
     ''shared_clip_reference'', ''same_question_anchor'']"

definition same_anchor :: "pystr list \<Rightarrow> bool" where
  "same_anchor signals \<longleftrightarrow> list_ex (\<lambda>s. s \<in> set strong_moments) signals"

text \<open>Conflicts of fact, which need an anchor and have no weight.\<close>

definition fact_conflicts :: "pystr list \<Rightarrow> moment \<Rightarrow> moment \<Rightarrow> pystr list" where
  "fact_conflicts signals l r =
     (if same_anchor signals \<and> mo_numbers l \<noteq> [] \<and> mo_numbers r \<noteq> [] \<and> \<not> overlap (mo_numbers l) (mo_numbers r)
      then [''fact_value_conflict''] else []) @
     (if same_anchor signals \<and> mo_negation l \<noteq> mo_negation r \<and>
        (''topic_overlap'' \<in> set signals \<or> ''shared_spoken_text_anchor'' \<in> set signals)
      then [''polarity_conflict''] else [])"

definition supporting_signals :: "pystr list" where
  "supporting_signals = [''topic_overlap'', ''shared_participants'', ''temporal_proximity'', ''shared_spoken_text_anchor'', ''same_part_number'']"

definition relate :: "bool \<Rightarrow> pystr list \<Rightarrow> pystr list \<Rightarrow> int \<Rightarrow> relation \<times> bool" where
  "relate direct signals conflicts sc =
     (let anchor = same_anchor signals;
          continues = direct \<or> ''adjacent_part_sequence'' \<in> set signals \<or> ''same_conversation'' \<in> set signals;
          supported = list_ex (\<lambda>s. s \<in> set supporting_signals) signals;
          unresolved = ''fact_value_conflict'' \<in> set conflicts \<or> ''polarity_conflict'' \<in> set conflicts;
          elsewhere = ''content_timestamp_mismatch'' \<in> set conflicts;
          asked = ''different_question'' \<in> set conflicts
      in if anchor \<and> unresolved \<and> \<not> elsewhere then (Conflicting, True)
         else if anchor \<and> 78 \<le> sc \<and> \<not> elsewhere \<and> \<not> asked then (SameMoment, True)
         else if direct \<and> 80 \<le> sc \<and> \<not> elsewhere then (Continuation, True)
         else if continues \<and> supported \<and> 82 \<le> sc \<and> \<not> asked \<and> \<not> elsewhere then (Continuation, True)
         else if continues \<and> supported \<and> 55 \<le> sc then (Complementary, False)
         else if 45 \<le> sc \<or> anchor then (AmbiguousMoment, False)
         else (SeparateMoment, False))"

definition match_moments :: "pystr list \<Rightarrow> moment \<Rightarrow> moment \<Rightarrow> segment_candidate" where
  "match_moments containers l r =
     (if mo_event l \<noteq> mo_event r
      then \<lparr>sc_left = mo_id l, sc_right = mo_id r, sc_conf = 0, sc_signals = [], sc_conflicts = [''different_event''],
        sc_relation = SeparateMoment, sc_same = False\<rparr>
      else if mo_id l = mo_id r
      then \<lparr>sc_left = mo_id l, sc_right = mo_id r, sc_conf = 1000, sc_signals = [''same_update_identity''], sc_conflicts = [],
        sc_relation = SameMoment, sc_same = True\<rparr>
      else (let s = moment_signals containers l r; c = moment_conflicts l r;
                sc = clamped (sum_list (map snd s) - sum_list (map snd c));
                signals = map fst s; conflicts = map fst c @ fact_conflicts signals l r;
                (rel, same) = relate (direct_reply l r) signals conflicts sc
            in \<lparr>sc_left = mo_id l, sc_right = mo_id r, sc_conf = 10 * sc, sc_signals = sort (remdups signals),
                 sc_conflicts = sort (remdups conflicts), sc_relation = rel, sc_same = same\<rparr>))"

section \<open>The stored state\<close>

datatype order_evidence = NoEvidence | ByTime int | ByPart nat | ByCreated pystr | ByFallback pystr

record segment =
  sg_id :: pystr
  sg_event :: pystr
  sg_created :: pystr
  sg_updated :: pystr
  sg_members :: "pystr list"
  sg_conf :: int
  sg_index :: nat
  sg_order :: order_evidence

record segment_row =
  sm_event :: pystr
  sm_segment :: pystr
  sm_conf :: int
  sm_relation :: pystr
  sm_signals :: "pystr list"
  sm_conflicts :: "pystr list"
  sm_updated :: pystr

record moment_link =
  ml_id :: pystr
  ml_event :: pystr
  ml_left :: pystr
  ml_right :: pystr
  ml_left_segment :: pystr
  ml_right_segment :: pystr
  ml_relation :: relation
  ml_conf :: int
  ml_signals :: "pystr list"
  ml_conflicts :: "pystr list"
  ml_open :: bool
  ml_updated :: pystr

record segment_decision =
  sd_decision :: pystr
  sd_event :: pystr
  sd_segment :: pystr
  sd_update :: pystr
  sd_candidate :: pystr
  sd_relation :: pystr
  sd_conf :: int
  sd_signals :: "pystr list"
  sd_conflicts :: "pystr list"
  sd_created :: pystr

record timeline =
  tl_segments :: "(pystr \<times> segment) list"
  tl_rows :: "(pystr \<times> segment_row) list"
  tl_prints :: "(pystr \<times> moment) list"
  tl_links :: "(pystr \<times> moment_link) list"
  tl_log :: "segment_decision list"

definition fresh_timeline :: timeline where
  "fresh_timeline = \<lparr>tl_segments = [], tl_rows = [], tl_prints = [], tl_links = [], tl_log = []\<rparr>"

definition max_moments :: nat where "max_moments = 5000"
definition max_segments :: nat where "max_segments = 4000"
definition max_links :: nat where "max_links = 6000"
definition max_segment_decisions :: nat where "max_segment_decisions = 4000"

text \<open>What is read back, against the events and memberships as they are stored.\<close>

definition event_ids :: "fusion \<Rightarrow> pystr list" where
  "event_ids f = filter (\<lambda>k. take 4 k = ''evt:'') (map fst (fu_events f))"

definition segment_kept :: "fusion \<Rightarrow> pystr \<times> segment \<Rightarrow> bool" where
  "segment_kept f p \<longleftrightarrow> sg_id (snd p) = fst p \<and> take 4 (fst p) = ''seg:'' \<and> sg_event (snd p) \<in> set (event_ids f) \<and> sg_members (snd p) \<noteq> []"

definition row_kept :: "fusion \<Rightarrow> (pystr \<times> segment) list \<Rightarrow> pystr \<times> segment_row \<Rightarrow> bool" where
  "row_kept f segs p \<longleftrightarrow> (case map_of segs (sm_segment (snd p)) of
       None \<Rightarrow> False
     | Some g \<Rightarrow> sm_event (snd p) = sg_event g \<and> event_of f (fst p) = sm_event (snd p) \<and> fst p \<in> set (sg_members g))"

definition link_kept :: "fusion \<Rightarrow> pystr \<times> moment_link \<Rightarrow> bool" where
  "link_kept f p \<longleftrightarrow> ml_id (snd p) = fst p \<and> take 4 (fst p) = ''rel:'' \<and> ml_event (snd p) \<in> set (event_ids f) \<and>
     ml_left (snd p) \<noteq> [] \<and> ml_right (snd p) \<noteq> []"

definition link_open :: "relation \<Rightarrow> bool" where
  "link_open r \<longleftrightarrow> r = Conflicting \<or> r = AmbiguousMoment"

definition load_timeline :: "fusion \<Rightarrow> timeline \<Rightarrow> timeline" where
  "load_timeline f t =
     (let segs = map (\<lambda>(k, g). (k, g\<lparr>sg_members := take 500 (sort (remdups (sg_members g)))\<rparr>))
           (filter (segment_kept f) (last_n max_segments (tl_segments t)));
          known = (\<lambda>k. if k \<in> set (map fst segs) then k else [])
      in \<lparr>tl_segments = segs,
          tl_rows = filter (row_kept f segs) (tl_rows t),
          tl_prints = filter (\<lambda>(k, m). mo_id m = k \<and> mo_event m \<in> set (event_ids f)) (last_n max_moments (tl_prints t)),
          tl_links = map (\<lambda>(k, l). (k, l\<lparr>ml_left_segment := known (ml_left_segment l), ml_right_segment := known (ml_right_segment l),
              ml_open := link_open (ml_relation l)\<rparr>))
            (filter (link_kept f) (last_n max_links (tl_links t))),
          tl_log = last_n max_segment_decisions (tl_log t)\<rparr>)"

definition record_segment :: "instant \<Rightarrow> pystr \<Rightarrow> pystr \<Rightarrow> pystr \<Rightarrow> pystr \<Rightarrow> pystr \<Rightarrow> segment_candidate option \<Rightarrow> timeline \<Rightarrow> timeline" where
  "record_segment now decision event k i candidate c t =
     t\<lparr>tl_log := last_n max_segment_decisions (tl_log t @ [\<lparr>sd_decision = decision, sd_event = event, sd_segment = k,
        sd_update = i, sd_candidate = candidate,
        sd_relation = (case c of None \<Rightarrow> [] | Some d \<Rightarrow> relation_name (sc_relation d)),
        sd_conf = (case c of None \<Rightarrow> 0 | Some d \<Rightarrow> sc_conf d),
        sd_signals = (case c of None \<Rightarrow> [] | Some d \<Rightarrow> sc_signals d),
        sd_conflicts = (case c of None \<Rightarrow> [] | Some d \<Rightarrow> sc_conflicts d),
        sd_created = isoformat now\<rparr>])\<rparr>"

text \<open>\<open>_reconcile\<close>: rows whose post left the event, or whose segment is gone, are dropped.\<close>

definition drop_member :: "instant \<Rightarrow> pystr \<Rightarrow> pystr \<Rightarrow> (pystr \<times> segment) list \<Rightarrow> (pystr \<times> segment) list" where
  "drop_member now k i segs = (case map_of segs k of
       None \<Rightarrow> segs
     | Some g \<Rightarrow> AList.update k (g\<lparr>sg_members := filter (\<lambda>j. j \<noteq> i) (sg_members g), sg_updated := isoformat now\<rparr>) segs)"

definition reconcile_row :: "instant \<Rightarrow> fusion \<Rightarrow> pystr \<times> segment_row \<Rightarrow> timeline \<Rightarrow> timeline" where
  "reconcile_row now f p t =
     (if event_of f (fst p) = [] \<or> event_of f (fst p) \<noteq> sm_event (snd p) \<or> sm_segment (snd p) \<notin> set (map fst (tl_segments t))
      then record_segment now ''event_membership_reconciled'' [] (sm_segment (snd p)) (fst p) [] None
        (t\<lparr>tl_rows := AList.delete (fst p) (tl_rows t), tl_segments := drop_member now (sm_segment (snd p)) (fst p) (tl_segments t)\<rparr>)
      else t)"

definition reconcile :: "instant \<Rightarrow> fusion \<Rightarrow> timeline \<Rightarrow> timeline" where
  "reconcile now f t =
     (let u = fold (reconcile_row now f) (tl_rows t) t;
          segs = filter (\<lambda>(k, g). sg_members g \<noteq> []) (tl_segments u);
          fine = (\<lambda>k. k = [] \<or> k \<in> set (map fst segs))
      in u\<lparr>tl_segments := segs, tl_links := filter (\<lambda>(k, l).
           ml_left l \<in> set (map fst (tl_rows u)) \<and> ml_right l \<in> set (map fst (tl_rows u)) \<and>
           fine (ml_left_segment l) \<and> fine (ml_right_segment l)) (tl_links u)\<rparr>)"

definition make_segment_id :: "(pystr \<Rightarrow> pystr) \<Rightarrow> pystr \<Rightarrow> pystr list \<Rightarrow> pystr" where
  "make_segment_id sha event ids =
     ''seg:'' @ event_hash sha ''segment-v1'' (event @ [CHR 0x1F] @ join_units (sort (remdups ids))) 24"

definition link_id :: "(pystr \<Rightarrow> pystr) \<Rightarrow> pystr \<Rightarrow> pystr \<Rightarrow> pystr \<Rightarrow> pystr" where
  "link_id sha event l r = ''rel:'' @ event_hash sha ''segment-relation-v1'' (event @ [CHR 0x1F] @ join_units (sort [l, r])) 22"

definition create_segment :: "(pystr \<Rightarrow> pystr) \<Rightarrow> instant \<Rightarrow> pystr \<Rightarrow> pystr \<Rightarrow> timeline \<Rightarrow> pystr \<times> timeline" where
  "create_segment sha now event i t =
     (let k = make_segment_id sha event [i]
      in (k, t\<lparr>tl_segments := AList.update k \<lparr>sg_id = k, sg_event = event, sg_created = isoformat now, sg_updated = isoformat now,
               sg_members = [i], sg_conf = 1000, sg_index = 0, sg_order = NoEvidence\<rparr> (tl_segments t),
             tl_rows := AList.update i \<lparr>sm_event = event, sm_segment = k, sm_conf = 1000, sm_relation = ''seed'',
               sm_signals = [], sm_conflicts = [], sm_updated = isoformat now\<rparr> (tl_rows t)\<rparr>))"

definition conf_or_one :: "int \<Rightarrow> int" where
  "conf_or_one c = (if c = 0 then 1000 else c)"

definition attach_segment :: "instant \<Rightarrow> pystr \<Rightarrow> segment \<Rightarrow> moment \<Rightarrow> segment_candidate \<Rightarrow> timeline \<Rightarrow> timeline" where
  "attach_segment now k g m c t =
     t\<lparr>tl_segments := AList.update k (g\<lparr>sg_members := sort (remdups (sg_members g @ [mo_id m])), sg_updated := isoformat now,
          sg_conf := min (conf_or_one (sg_conf g)) (sc_conf c)\<rparr>) (tl_segments t),
       tl_rows := AList.update (mo_id m) \<lparr>sm_event = mo_event m, sm_segment = k, sm_conf = sc_conf c,
          sm_relation = relation_name (sc_relation c), sm_signals = sc_signals c, sm_conflicts = sc_conflicts c,
          sm_updated = isoformat now\<rparr> (tl_rows t)\<rparr>"

definition segment_of :: "timeline \<Rightarrow> pystr \<Rightarrow> pystr" where
  "segment_of t i = (case map_of (tl_rows t) i of None \<Rightarrow> [] | Some r \<Rightarrow> sm_segment r)"

definition store_link :: "(pystr \<Rightarrow> pystr) \<Rightarrow> instant \<Rightarrow> moment \<Rightarrow> moment \<Rightarrow> segment_candidate \<Rightarrow> timeline \<Rightarrow> timeline" where
  "store_link sha now l r c t =
     (let k = link_id sha (mo_event l) (mo_id l) (mo_id r)
      in t\<lparr>tl_links := AList.update k \<lparr>ml_id = k, ml_event = mo_event l, ml_left = mo_id l, ml_right = mo_id r,
           ml_left_segment = segment_of t (mo_id l), ml_right_segment = segment_of t (mo_id r), ml_relation = sc_relation c,
           ml_conf = sc_conf c, ml_signals = sc_signals c, ml_conflicts = sc_conflicts c, ml_open = link_open (sc_relation c),
           ml_updated = isoformat now\<rparr> (tl_links t)\<rparr>)"

section \<open>Segmenting the events of a pass\<close>

definition long_form_types :: "pystr list" where
  "long_form_types = [''live'', ''interview'', ''going_seventeen'', ''variety'', ''reality'', ''award_show'', ''brand_event'', ''official_content'']"

definition segmentable_types :: "pystr list" where
  "segmentable_types = [''live'', ''interview'', ''going_seventeen'', ''variety'', ''reality'', ''fansign_or_video_call'',
     ''concert'', ''award_show'', ''brand_event'', ''official_content'', ''other'', ''unknown'']"

definition container_refs :: "moment list \<Rightarrow> pystr \<Rightarrow> pystr list" where
  "container_refs ms knd =
     (let count = (\<lambda>v. length (filter (\<lambda>m. v \<in> set (mo_refs m)) ms));
          common = filter (\<lambda>v. max 2 ((3 * length ms + 4) div 5) \<le> count v) (remdups (concat (map mo_refs ms)))
      in if length ms < 2 then []
         else if knd \<in> set long_form_types then common else filter (\<lambda>v. 3 \<le> count v) common)"

definition moment_key :: "moment \<Rightarrow> nat \<times> int \<times> pystr \<times> pystr" where
  "moment_key m = (case mo_time m of
       Some s \<Rightarrow> (0, s, isoformat (mo_created m), mo_id m)
     | None \<Rightarrow> (case mo_part m of
         Some p \<Rightarrow> (1, int p, isoformat (mo_created m), mo_id m)
       | None \<Rightarrow> (2, 0, isoformat (mo_created m), mo_id m)))"

definition segment_evidence :: "(pystr \<times> moment) list \<Rightarrow> segment \<Rightarrow> order_evidence" where
  "segment_evidence fps g =
     (let ms = List.map_filter (map_of fps) (sg_members g);
          times = List.map_filter mo_time ms; parts = List.map_filter mo_part ms;
          created = sort (map (\<lambda>m. isoformat (mo_created m)) ms)
      in if times \<noteq> [] then ByTime (Min (set times))
         else if parts \<noteq> [] then ByPart (Min (set parts))
         else if created \<noteq> [] then ByCreated (hd created)
         else ByFallback (sg_id g))"

fun evidence_key :: "pystr \<Rightarrow> order_evidence \<Rightarrow> nat \<times> int \<times> pystr \<times> pystr" where
  "evidence_key k (ByTime s) = (0, s, [], k)"
| "evidence_key k (ByPart p) = (1, int p, [], k)"
| "evidence_key k (ByCreated c) = (2, 0, c, k)"
| "evidence_key k e = (3, 0, [], k)"

definition segment_key :: "(pystr \<times> moment) list \<Rightarrow> segment \<Rightarrow> nat \<times> int \<times> pystr \<times> pystr" where
  "segment_key fps g = evidence_key (sg_id g) (segment_evidence fps g)"

definition segments_of :: "pystr \<Rightarrow> timeline \<Rightarrow> (pystr \<times> segment) list" where
  "segments_of event t = filter (\<lambda>(k, g). sg_event g = event) (tl_segments t)"

definition segment_order :: "pystr \<Rightarrow> (pystr \<times> moment) list \<Rightarrow> timeline \<Rightarrow> pystr list" where
  "segment_order event fps t = map fst (sort_key (\<lambda>(k, g). segment_key fps g) (segments_of event t))"

definition reorder :: "pystr \<Rightarrow> (pystr \<times> moment) list \<Rightarrow> timeline \<Rightarrow> timeline" where
  "reorder event fps t =
     (let order = segment_order event fps t
      in t\<lparr>tl_segments := map (\<lambda>(k, g). (k, if sg_event g = event
           then g\<lparr>sg_index := the (map_of (zip order [1..<Suc (length order)]) k), sg_order := segment_evidence fps g\<rparr>
           else g)) (tl_segments t)\<rparr>)"

definition relation_rank :: "relation \<Rightarrow> nat" where
  "relation_rank r = (case r of Conflicting \<Rightarrow> 6 | SameMoment \<Rightarrow> 5 | Continuation \<Rightarrow> 4 | Complementary \<Rightarrow> 3
     | AmbiguousMoment \<Rightarrow> 2 | SeparateMoment \<Rightarrow> 1)"

definition attaching :: "relation \<Rightarrow> bool" where
  "attaching r \<longleftrightarrow> r = SameMoment \<or> r = Continuation \<or> r = Conflicting"

definition best_candidate :: "moment \<Rightarrow> segment \<Rightarrow> (pystr \<times> moment) list \<Rightarrow> pystr list \<Rightarrow> (segment_candidate \<times> moment) option" where
  "best_candidate m g fps containers =
     (let others = filter (\<lambda>o'. mo_id o' \<noteq> mo_id m) (List.map_filter (map_of fps) (sg_members g));
          pairs = map (\<lambda>o'. (match_moments containers m o', o')) others
      in case rev (sort_key (\<lambda>(c, o'). (sc_same c, relation_rank (sc_relation c), sc_conf c, mo_id o')) (rev pairs)) of
           [] \<Rightarrow> None
         | p # ps \<Rightarrow> Some p)"

text \<open>The segments of the event with their best counterpart, the best first.\<close>

definition segment_choices :: "moment \<Rightarrow> (pystr \<times> moment) list \<Rightarrow> pystr list \<Rightarrow> (pystr \<times> segment) list \<Rightarrow> (segment_candidate \<times> moment \<times> segment) list" where
  "segment_choices m fps containers segs =
     rev (sort_key (\<lambda>(c, o', g). (sc_same c, relation_rank (sc_relation c), sc_conf c, sg_id g, mo_id o'))
       (rev (List.map_filter (\<lambda>(k, g). map_option (\<lambda>(c, o'). (c, o', g)) (best_candidate m g fps containers)) segs)))"

definition segment_one :: "(pystr \<Rightarrow> pystr) \<Rightarrow> instant \<Rightarrow> pystr \<Rightarrow> (pystr \<times> moment) list \<Rightarrow> pystr list \<Rightarrow> moment \<Rightarrow> timeline \<Rightarrow> timeline" where
  "segment_one sha now event fps containers m t =
     (if mo_id m \<in> set (map fst (tl_rows t)) then t
      else if segments_of event t = []
      then (let (k, u) = create_segment sha now event (mo_id m) t in record_segment now ''segment_seeded'' event k (mo_id m) [] None u)
      else (case segment_choices m fps containers (segments_of event t) of
          [] \<Rightarrow> snd (create_segment sha now event (mo_id m) t)
        | (c, o', g) # rest \<Rightarrow>
            (let joins = sc_same c \<and> attaching (sc_relation c);
                 (k, u) = (if joins then (sg_id g, attach_segment now (sg_id g) g m c t) else create_segment sha now event (mo_id m) t)
             in record_segment now (if joins then ''segment_attached'' else ''segment_separated'') event k (mo_id m) (mo_id o') (Some c)
                  (store_link sha now m o' c u))))"

text \<open>
  The posts of the event that are known: a stored fingerprint of this event, or else the archived post
  if its author is configured.
\<close>

definition post_source :: "update \<Rightarrow> pystr" where
  "post_source u = py_casefold (py_strip (py_lstrip_at (author u)))"

definition known_moment :: "(update \<Rightarrow> text_features) \<Rightarrow> (pystr \<Rightarrow> update \<Rightarrow> segment_features) \<Rightarrow> (pystr \<Rightarrow> update option) \<Rightarrow> pystr list \<Rightarrow>
    pystr \<Rightarrow> pystr \<Rightarrow> (pystr \<times> moment) list \<times> timeline \<Rightarrow> (pystr \<times> moment) list \<times> timeline" where
  "known_moment features details stored allowed event i st =
     (let (fps, t) = st in
      case map_of (tl_prints t) i of
        Some m \<Rightarrow> if mo_event m = event then (fps @ [(i, m)], t)
          else (case stored i of
              Some u \<Rightarrow> if post_source u \<in> set allowed
                then (fps @ [(i, build_moment features details event u)], t\<lparr>tl_prints := AList.update i (build_moment features details event u) (tl_prints t)\<rparr>)
                else (fps, t)
            | None \<Rightarrow> (fps, t))
      | None \<Rightarrow> (case stored i of
              Some u \<Rightarrow> if post_source u \<in> set allowed
                then (fps @ [(i, build_moment features details event u)], t\<lparr>tl_prints := AList.update i (build_moment features details event u) (tl_prints t)\<rparr>)
                else (fps, t)
            | None \<Rightarrow> (fps, t)))"

definition segment_event :: "(pystr \<Rightarrow> pystr) \<Rightarrow> (update \<Rightarrow> text_features) \<Rightarrow> (pystr \<Rightarrow> update \<Rightarrow> segment_features) \<Rightarrow> (pystr \<Rightarrow> update option) \<Rightarrow> pystr list \<Rightarrow>
    instant \<Rightarrow> fusion \<Rightarrow> pystr \<Rightarrow> timeline \<Rightarrow> timeline" where
  "segment_event sha features details stored allowed now f event t = (case map_of (fu_events f) event of
       None \<Rightarrow> t
     | Some e \<Rightarrow>
         (let members = sort (remdups (fe_members e)) in
          if fe_type e \<notin> set segmentable_types \<or> length members < 2 then t
          else (let (fps, u) = fold (known_moment features details stored allowed event) members ([], t) in
            if length fps < 2 then u
            else (let ms = map snd fps; containers = container_refs ms (fe_type e)
                  in reorder event fps (fold (segment_one sha now event fps containers) (sort_key moment_key ms) u)))))"

definition note_moment :: "(update \<Rightarrow> text_features) \<Rightarrow> (pystr \<Rightarrow> update \<Rightarrow> segment_features) \<Rightarrow> pystr list \<Rightarrow> fusion \<Rightarrow> update \<Rightarrow> timeline \<Rightarrow> timeline" where
  "note_moment features details allowed f u t =
     (if post_source u \<notin> set allowed \<or> event_of f (upd_id u) = [] then t
      else t\<lparr>tl_prints := AList.update (upd_id u) (build_moment features details (event_of f (upd_id u)) u) (tl_prints t)\<rparr>)"

definition touched_events :: "pystr list \<Rightarrow> fusion \<Rightarrow> update list \<Rightarrow> pystr list" where
  "touched_events allowed f us = sort (remdups (map (\<lambda>u. event_of f (upd_id u))
     (filter (\<lambda>u. post_source u \<in> set allowed \<and> event_of f (upd_id u) \<noteq> []) us)))"

definition newest :: "nat \<Rightarrow> ('a \<Rightarrow> pystr) \<Rightarrow> (pystr \<times> 'a) list \<Rightarrow> (pystr \<times> 'a) list" where
  "newest n stamp xs = take n (rev (sort_key (\<lambda>(k, x). stamp x) (rev xs)))"

definition prune_timeline :: "timeline \<Rightarrow> timeline" where
  "prune_timeline t =
     (let ps = (if max_moments < length (tl_prints t) then newest max_moments (\<lambda>m. isoformat (mo_created m)) (tl_prints t) else tl_prints t);
          u = (if max_segments < length (tl_segments t)
               then (let segs = newest max_segments sg_updated (tl_segments t)
                     in t\<lparr>tl_segments := segs, tl_rows := filter (\<lambda>(i, r). sm_segment r \<in> set (map fst segs)) (tl_rows t)\<rparr>)
               else t);
          ls = (if max_links < length (tl_links t) then newest max_links ml_updated (tl_links t) else tl_links t)
      in u\<lparr>tl_prints := ps, tl_links := ls, tl_log := last_n max_segment_decisions (tl_log u)\<rparr>)"

definition read_back :: "instant \<Rightarrow> fusion \<times> timeline \<Rightarrow> fusion \<times> timeline" where
  "read_back now s = (let f = sanitize_fusion (fst s) in (f, reconcile now f (load_timeline (fst s) (snd s))))"

definition segment_pass :: "(pystr \<Rightarrow> pystr) \<Rightarrow> (update \<Rightarrow> text_features) \<Rightarrow> (pystr \<Rightarrow> update \<Rightarrow> segment_features) \<Rightarrow> (pystr \<Rightarrow> update option) \<Rightarrow>
    instant \<Rightarrow> pystr list \<Rightarrow> update list \<Rightarrow> fusion \<times> timeline \<Rightarrow> fusion \<times> timeline" where
  "segment_pass sha features details stored now handles us s =
     (let allowed = allowed_sources handles;
          incoming = sort_key (\<lambda>u. (created_at u, upd_id u)) us;
          (f, t) = read_back now s;
          noted = fold (note_moment features details allowed f) incoming t
      in (f, prune_timeline (fold (segment_event sha features details stored allowed now f) (touched_events allowed f incoming) noted)))"

section \<open>Corrections by hand\<close>

datatype segment_error = SegmentKeyError pystr | SegmentValueError

text \<open>
  The target is changed where it is; when it was the old segment of the post and was left empty, it has
  been removed from the table before.
\<close>

definition move_member :: "instant \<Rightarrow> pystr \<Rightarrow> pystr \<Rightarrow> int \<Rightarrow> fusion \<times> timeline \<Rightarrow> segment_error option \<times> fusion \<times> timeline" where
  "move_member now i target conf s =
     (let (f, t) = read_back now s in
      case map_of (tl_segments t) target of
        None \<Rightarrow> (Some (SegmentKeyError target), f, t)
      | Some g \<Rightarrow>
          if event_of f i = [] \<or> event_of f i \<noteq> sg_event g then (Some SegmentValueError, f, t)
          else (let old = segment_of t i;
                    left = (if i \<in> set (map fst (tl_rows t)) then drop_member now old i (tl_segments t) else tl_segments t);
                    segs = (if i \<in> set (map fst (tl_rows t))
                      then filter (\<lambda>(k, h). k \<noteq> old \<or> sg_members h \<noteq> []) left else left);
                    h = the (map_of left target);
                    moved = h\<lparr>sg_members := sort (remdups (sg_members h @ [i])), sg_updated := isoformat now\<rparr>
                in (None, f, record_segment now ''segment_membership_reclassified'' (sg_event g) target i [] None
                     (t\<lparr>tl_segments := (if target \<in> set (map fst segs) then AList.update target moved segs else segs),
                        tl_rows := AList.update i \<lparr>sm_event = sg_event g, sm_segment = target, sm_conf = max 0 (min 1000 conf),
                          sm_relation = ''reclassified'', sm_signals = [''manual_reclassification''], sm_conflicts = [],
                          sm_updated = isoformat now\<rparr> (tl_rows t)\<rparr>))))"

definition relabel_rows :: "instant \<Rightarrow> pystr \<Rightarrow> pystr \<Rightarrow> pystr list \<Rightarrow> (pystr \<times> segment_row) list \<Rightarrow> (pystr \<times> segment_row) list" where
  "relabel_rows now k rel moved rows = map (\<lambda>(i, r). (i, if i \<in> set moved
     then r\<lparr>sm_segment := k, sm_relation := rel, sm_updated := isoformat now\<rparr> else r)) rows"

definition split_segment :: "(pystr \<Rightarrow> pystr) \<Rightarrow> instant \<Rightarrow> pystr \<Rightarrow> pystr list \<Rightarrow> fusion \<times> timeline \<Rightarrow> (segment_error + pystr) \<times> fusion \<times> timeline" where
  "split_segment sha now k ids s =
     (let (f, t) = read_back now s in
      case map_of (tl_segments t) k of
        None \<Rightarrow> (Inl (SegmentKeyError k), f, t)
      | Some g \<Rightarrow>
          (let moved = sort (remdups (filter (\<lambda>i. i \<noteq> []) ids)); n = make_segment_id sha (sg_event g) moved in
           if moved = [] \<or> \<not> set moved \<subseteq> set (sg_members g) \<or> set moved = set (sg_members g) \<or> n = k then (Inl SegmentValueError, f, t)
           else (let rest = sort (remdups (filter (\<lambda>i. i \<notin> set moved) (sg_members g)));
                     kept = AList.update k (g\<lparr>sg_members := rest, sg_updated := isoformat now\<rparr>) (tl_segments t)
                 in (Inr n, f, record_segment now ''segment_split'' (sg_event g) n [] [] None
                      (t\<lparr>tl_segments := AList.update n \<lparr>sg_id = n, sg_event = sg_event g, sg_created = isoformat now,
                           sg_updated = isoformat now, sg_members = moved, sg_conf = conf_or_one (sg_conf g), sg_index = 0,
                           sg_order = NoEvidence\<rparr> kept,
                         tl_rows := relabel_rows now n ''split_reclassified'' moved (tl_rows t)\<rparr>)))))"

definition merge_segments :: "(pystr \<Rightarrow> pystr) \<Rightarrow> instant \<Rightarrow> pystr \<Rightarrow> pystr \<Rightarrow> fusion \<times> timeline \<Rightarrow> (segment_error + pystr) \<times> fusion \<times> timeline" where
  "merge_segments sha now a b s =
     (let (f, t) = read_back now s in
      case (map_of (tl_segments t) a, map_of (tl_segments t) b) of
        (None, _) \<Rightarrow> (Inl (SegmentKeyError a), f, t)
      | (Some g, None) \<Rightarrow> (Inl (SegmentKeyError b), f, t)
      | (Some g, Some h) \<Rightarrow>
          if sg_event g \<noteq> sg_event h then (Inl SegmentValueError, f, t)
          else (let ms = sort (remdups (sg_members g @ sg_members h)); n = make_segment_id sha (sg_event g) ms
                in (Inr n, f, record_segment now ''segments_merged'' (sg_event g) n [] [] None
                     (t\<lparr>tl_segments := AList.update n \<lparr>sg_id = n, sg_event = sg_event g, sg_created = isoformat now,
                          sg_updated = isoformat now, sg_members = ms, sg_conf = min (conf_or_one (sg_conf g)) (conf_or_one (sg_conf h)),
                          sg_index = 0, sg_order = NoEvidence\<rparr> (AList.delete b (AList.delete a (tl_segments t))),
                        tl_rows := relabel_rows now n ''merge_reclassified'' ms (tl_rows t)\<rparr>))))"

section \<open>The operations on events, as the installed layer reads and prunes both tables\<close>

definition group_posts :: "(pystr \<Rightarrow> pystr) \<Rightarrow> (update \<Rightarrow> text_features) \<Rightarrow> instant \<Rightarrow> pystr list \<Rightarrow> update list \<Rightarrow> fusion \<times> timeline \<Rightarrow> fusion \<times> timeline" where
  "group_posts sha features now handles us s =
     (shadow_group sha features now handles us (fst s), prune_timeline (load_timeline (fst s) (snd s)))"

definition leave_event :: "instant \<Rightarrow> pystr \<Rightarrow> pystr \<Rightarrow> fusion \<times> timeline \<Rightarrow> fusion \<times> timeline" where
  "leave_event now i reason s = (snd (remove_membership now i reason (fst s)), load_timeline (fst s) (snd s))"

definition change_event :: "instant \<Rightarrow> pystr \<Rightarrow> pystr \<Rightarrow> int \<Rightarrow> fusion \<times> timeline \<Rightarrow> fusion \<times> timeline" where
  "change_event now i target conf s =
     (let t = load_timeline (fst s) (snd s); f = sanitize_fusion (fst s)
      in (snd (reclassify now i target conf (fst s)),
          if target \<notin> set (map fst (fu_events f)) then t
          else load_timeline (snd (remove_membership now i ''manual_reclassification'' f)) (load_timeline f t)))"


section \<open>When two posts share a segment\<close>

definition moments_linked :: "pystr list \<Rightarrow> moment \<Rightarrow> moment \<Rightarrow> bool" where
  "moments_linked containers l r \<longleftrightarrow> direct_reply l r \<or> quotes_same l r \<or> overlap (mo_media l) (mo_media r) \<or>
     gap_is (\<lambda>d. d \<le> 15) (time_gap l r) \<or> moment_refs containers l r \<or> overlap (mo_questions l) (mo_questions r) \<or>
     gap_is (\<lambda>d. d = 1) (part_gap l r) \<or> (in_thread l \<and> in_thread r \<and> mo_conv l = mo_conv r)"

lemma chosen_names: "n \<in> set (map fst (chosen xs)) \<longleftrightarrow> (\<exists>w. (n, w, True) \<in> set xs)"
  by (force simp: chosen_def)

lemma gap_commute: "gap_of a b = gap_of b a"
  by (auto simp: gap_of_def abs_minus_commute split: option.split)

lemma moment_commute:
  "direct_reply l r = direct_reply r l" "quotes_same l r = quotes_same r l"
  "time_gap l r = time_gap r l" "part_gap l r = part_gap r l"
  "topic_points l r = topic_points r l" "posted_apart l r = posted_apart r l"
  by (auto simp: direct_reply_def quotes_same_def time_gap_def part_gap_def gap_commute
      topic_points_def posted_apart_def abs_minus_commute Int_commute Un_commute)

lemma refs_commute: "moment_refs cs l r = moment_refs cs r l"
  by (auto simp: moment_refs_def)

lemma match_symmetric:
  "sc_conf (match_moments cs l r) = sc_conf (match_moments cs r l) \<and> sc_signals (match_moments cs l r) = sc_signals (match_moments cs r l) \<and>
   sc_conflicts (match_moments cs l r) = sc_conflicts (match_moments cs r l) \<and> sc_relation (match_moments cs l r) = sc_relation (match_moments cs r l) \<and>
   sc_same (match_moments cs l r) = sc_same (match_moments cs r l)"
proof -
  have s: "moment_signals cs l r = moment_signals cs r l"
    unfolding moment_signals_def moment_commute [of l r] refs_commute [of cs l r]
      overlap_commute [of "mo_media l"] overlap_commute [of "mo_refs l"] overlap_commute [of "mo_questions l"]
      overlap_commute [of "mo_anchors l"] overlap_commute [of "mo_people l"] eq_commute [of "mo_conv l"] eq_commute [of "mo_type l"]
      conj_left_commute [of "in_thread l"] by (rule refl)
  have c: "moment_conflicts l r = moment_conflicts r l"
    unfolding moment_conflicts_def moment_commute [of l r] overlap_commute [of "mo_questions l"] conj_commute [of "mo_questions l \<noteq> []"] ..
  have f: "fact_conflicts ss l r = fact_conflicts ss r l" for ss
    unfolding fact_conflicts_def overlap_commute [of "mo_numbers l"] by auto
  show ?thesis
    by (simp add: match_moments_def Let_def s c f moment_commute(1) [of l r] case_prod_unfold)
qed


lemma relate_same:
  assumes "snd (relate d ss cs sc)"
  shows "''content_timestamp_mismatch'' \<notin> set cs"
    "same_anchor ss \<or> d \<or> ''adjacent_part_sequence'' \<in> set ss \<or> ''same_conversation'' \<in> set ss"
  using assms by (auto simp: relate_def Let_def split: if_splits)

lemma anchors_linked:
  "same_anchor (map fst (moment_signals cs l r)) \<longleftrightarrow> quotes_same l r \<or> overlap (mo_media l) (mo_media r) \<or>
     gap_is (\<lambda>d. d \<le> 15) (time_gap l r) \<or> moment_refs cs l r \<or> overlap (mo_questions l) (mo_questions r)"
proof -
  have "same_anchor (map fst (moment_signals cs l r)) \<longleftrightarrow> (\<exists>n \<in> set strong_moments. n \<in> set (map fst (moment_signals cs l r)))"
    by (auto simp: same_anchor_def list_ex_iff)
  also have "\<dots> \<longleftrightarrow> quotes_same l r \<or> overlap (mo_media l) (mo_media r) \<or>
     gap_is (\<lambda>d. d \<le> 15) (time_gap l r) \<or> moment_refs cs l r \<or> overlap (mo_questions l) (mo_questions r)"
    unfolding moment_signals_def chosen_names strong_moments_def by simp
  finally show ?thesis .
qed

lemma continuing_signals:
  "''adjacent_part_sequence'' \<in> set (map fst (moment_signals cs l r)) \<longleftrightarrow> gap_is (\<lambda>d. d = 1) (part_gap l r)"
  "''same_conversation'' \<in> set (map fst (moment_signals cs l r)) \<longleftrightarrow> in_thread l \<and> in_thread r \<and> mo_conv l = mo_conv r"
  unfolding moment_signals_def chosen_names by simp_all

lemma mismatch_conflict:
  "''content_timestamp_mismatch'' \<in> set (map fst (moment_conflicts l r)) \<longleftrightarrow> gap_is (\<lambda>d. 120 < d) (time_gap l r)"
  unfolding moment_conflicts_def chosen_names by simp

text \<open>
  Two posts are only ever put into one segment when they are of one event and something explicit
  links them (a reply, quote, medium, clip, question, the next part, a conversation, or the same moment
  of the content), and never when their content timestamps are more than two minutes apart; common
  topics, people and times of posting alone are not enough, and the order of the two does not matter.
\<close>

theorem segment_mates_linked:
  assumes "sc_same (match_moments cs l r)"
  shows "mo_event l = mo_event r \<and> sc_same (match_moments cs r l) \<and>
    (mo_id l = mo_id r \<or> moments_linked cs l r \<and> \<not> gap_is (\<lambda>d. 120 < d) (time_gap l r))"
proof -
  have same: "sc_same (match_moments cs r l)" using assms match_symmetric [of cs l r] by simp
  have event: "mo_event l = mo_event r" using assms by (auto simp: match_moments_def split: if_splits)
  show ?thesis
  proof (cases "mo_id l = mo_id r")
    case False
    let ?ss = "map fst (moment_signals cs l r)"
    let ?cs = "map fst (moment_conflicts l r) @ fact_conflicts ?ss l r"
    have "snd (relate (direct_reply l r) ?ss ?cs (clamped (sum_list (map snd (moment_signals cs l r)) - sum_list (map snd (moment_conflicts l r)))))"
      using assms event False by (simp add: match_moments_def Let_def case_prod_unfold)
    from relate_same [OF this] show ?thesis
      unfolding anchors_linked continuing_signals using same event mismatch_conflict [of l r] by (auto simp: moments_linked_def)
  qed (use same event in simp)
qed

section \<open>Reading back\<close>

definition rows_listed :: "timeline \<Rightarrow> bool" where
  "rows_listed t \<longleftrightarrow> (\<forall>(i, r) \<in> set (tl_rows t). \<exists>g. map_of (tl_segments t) (sm_segment r) = Some g \<and> i \<in> set (sg_members g))"

lemma record_segment_frame [simp]:
  "tl_segments (record_segment now d e k i j c t) = tl_segments t" "tl_rows (record_segment now d e k i j c t) = tl_rows t"
  "tl_prints (record_segment now d e k i j c t) = tl_prints t" "tl_links (record_segment now d e k i j c t) = tl_links t"
  by (simp_all add: record_segment_def)

lemma load_rows: "rows_listed (load_timeline f t)"
  by (auto simp: rows_listed_def load_timeline_def Let_def row_kept_def split: option.splits)

lemma load_row_event: "(i, r) \<in> set (tl_rows (load_timeline f t)) \<Longrightarrow> event_of f i = sm_event r \<and> sm_event r \<in> set (event_ids f)"
  by (auto simp: load_timeline_def Let_def row_kept_def segment_kept_def dest!: map_of_SomeD split: option.splits)

lemma drop_member_conv: "map_of (drop_member now k i segs) k' = (if k' = k
    then map_option (\<lambda>g. g\<lparr>sg_members := filter (\<lambda>j. j \<noteq> i) (sg_members g), sg_updated := isoformat now\<rparr>) (map_of segs k) else map_of segs k')"
  by (auto simp: drop_member_def update_conv' split: option.split)

lemma reconcile_row_listed:
  assumes "rows_listed t"
  shows "rows_listed (reconcile_row now f p t)"
proof -
  let ?u = "t\<lparr>tl_rows := AList.delete (fst p) (tl_rows t), tl_segments := drop_member now (sm_segment (snd p)) (fst p) (tl_segments t)\<rparr>"
  have "rows_listed ?u" unfolding rows_listed_def
  proof (safe)
    fix i r assume "(i, r) \<in> set (tl_rows ?u)"
    then have r: "(i, r) \<in> set (tl_rows t)" "i \<noteq> fst p" by (auto simp: AList.delete_eq)
    then obtain g where g: "map_of (tl_segments t) (sm_segment r) = Some g" "i \<in> set (sg_members g)"
      using assms unfolding rows_listed_def by blast
    show "\<exists>g. map_of (tl_segments ?u) (sm_segment r) = Some g \<and> i \<in> set (sg_members g)"
      using g r(2) by (cases "sm_segment r = sm_segment (snd p)") (simp_all add: drop_member_conv)
  qed
  with assms show ?thesis unfolding reconcile_row_def by (simp add: rows_listed_def)
qed

lemma map_of_filter_first: "map_of xs k = Some v \<Longrightarrow> P (k, v) \<Longrightarrow> map_of (filter P xs) k = Some v"
  by (induction xs) (auto split: if_splits)

lemma reconcile_listed:
  assumes "rows_listed t"
  shows "rows_listed (reconcile now f t)"
proof -
  have "rows_listed (fold (reconcile_row now f) ps v)" if "rows_listed v" for ps v
    using that by (induction ps arbitrary: v) (simp_all add: reconcile_row_listed)
  from this [OF assms] have u: "rows_listed (fold (reconcile_row now f) (tl_rows t) t)" .
  show ?thesis unfolding rows_listed_def
  proof (safe)
    fix i r assume "(i, r) \<in> set (tl_rows (reconcile now f t))"
    then have "(i, r) \<in> set (tl_rows (fold (reconcile_row now f) (tl_rows t) t))" by (simp add: reconcile_def Let_def)
    with u obtain g where g: "map_of (tl_segments (fold (reconcile_row now f) (tl_rows t) t)) (sm_segment r) = Some g" "i \<in> set (sg_members g)"
      unfolding rows_listed_def by blast
    then have "map_of (tl_segments (reconcile now f t)) (sm_segment r) = Some g"
      unfolding reconcile_def Let_def by (auto intro!: map_of_filter_first)
    with g(2) show "\<exists>g. map_of (tl_segments (reconcile now f t)) (sm_segment r) = Some g \<and> i \<in> set (sg_members g)" by blast
  qed
qed

lemma read_back_listed: "rows_listed (snd (read_back now s))"
  by (simp add: read_back_def Let_def reconcile_listed load_rows)


section \<open>A post that leaves its event\<close>

lemma clean_members: "take 500 (sort (remdups (take 500 (sort (remdups xs))))) = take 500 (sort (remdups xs))"
proof -
  let ?m = "take 500 (sort (remdups xs))"
  have "sorted ?m" "distinct ?m" by (simp_all add: sorted_wrt_take)
  then show ?thesis by (simp add: sorted_sort_id distinct_remdups_id)
qed

lemma map_of_values: "map_of (map (\<lambda>(k, x). (k, h x)) xs) k = map_option h (map_of xs k)"
  by (induction xs) auto

lemma load_keeps:
  assumes "map_of (tl_segments (load_timeline f t)) k = Some g" "sg_event g \<in> set (event_ids f')"
  shows "map_of (tl_segments (load_timeline f' (load_timeline f t))) k = Some g"
proof -
  let ?t = "load_timeline f t"
  have g: "(k, g) \<in> set (tl_segments ?t)" using assms(1) by (rule map_of_SomeD)
  then obtain h where h: "segment_kept f (k, h)" "g = h\<lparr>sg_members := take 500 (sort (remdups (sg_members h)))\<rparr>"
    by (auto simp: load_timeline_def Let_def)
  have "set (sort (remdups (sg_members h))) \<noteq> {}" using h(1) by (simp add: segment_kept_def)
  then have "sort (remdups (sg_members h)) \<noteq> []" by (simp only: set_empty not_False_eq_True)
  then have "segment_kept f' (k, g)" using h assms(2) by (simp add: segment_kept_def)
  moreover have "length (tl_segments ?t) \<le> max_segments"
    by (simp add: load_timeline_def Let_def last_n_def le_trans [OF length_filter_le])
  moreover have "g\<lparr>sg_members := take 500 (sort (remdups (sg_members g)))\<rparr> = g" unfolding h(2) by (simp add: clean_members)
  ultimately show ?thesis
    using assms(1) by (simp add: load_timeline_def [of f'] Let_def last_n_all map_of_values map_of_filter_first)
qed

lemma reconcile_rows_keep:
  assumes "i \<notin> fst ` set ps" "map_of (tl_segments t) k = Some g" "i \<in> set (sg_members g)"
  shows "\<exists>h. map_of (tl_segments (fold (reconcile_row now f) ps t)) k = Some h \<and> i \<in> set (sg_members h)"
  using assms
proof (induction ps arbitrary: t g)
  case (Cons p ps)
  have "\<exists>h. map_of (tl_segments (reconcile_row now f p t)) k = Some h \<and> i \<in> set (sg_members h)"
    using Cons.prems by (auto simp: reconcile_row_def drop_member_conv)
  with Cons show ?case by auto
qed simp

lemma reconcile_rows_subset: "set (tl_rows (fold (reconcile_row now f) ps t)) \<subseteq> set (tl_rows t)"
proof (induction ps arbitrary: t)
  case (Cons p ps)
  have "set (tl_rows (reconcile_row now f p t)) \<subseteq> set (tl_rows t)" by (auto simp: reconcile_row_def AList.delete_eq)
  with Cons show ?case by auto
qed simp

lemma left_event: "event_of (snd (remove_membership now i reason f)) i = []"
proof -
  have "map_of (fu_members (snd (remove_membership now i reason f))) i = None"
    by (auto simp: remove_membership_def Let_def delete_conv' split: option.split)
  then show ?thesis by (simp add: event_of_def)
qed

lemma sanitize_event_of: "event_of f i = [] \<Longrightarrow> i \<notin> fst ` set (fu_members f) \<Longrightarrow> event_of (sanitize_fusion f) i = []"
proof -
  assume "i \<notin> fst ` set (fu_members f)"
  then have "i \<notin> fst ` set (fu_members (sanitize_fusion f))" by (auto simp: sanitize_fusion_def Let_def)
  then show ?thesis by (simp add: event_of_def map_of_eq_None_iff [THEN iffD2])
qed

text \<open>
  C35: A post that is taken out of its event stays listed by its segment: the sanitizer drops the row of
  the post as soon as the state is read, so the clean-up, which goes through the rows, never meets it,
  and no later reading finds a row that would remove the post from the segment.
\<close>

theorem removed_post_stays_listed:
  assumes "map_of (tl_segments (snd (leave_event now i reason s))) k = Some g" "i \<in> set (sg_members g)"
    and "sg_event g \<in> set (event_ids (fst (leave_event now i reason s)))"
  shows "(\<exists>h. map_of (tl_segments (snd (read_back later (leave_event now i reason s)))) k = Some h \<and> i \<in> set (sg_members h)) \<and>
    event_of (fst (read_back later (leave_event now i reason s))) i = [] \<and>
    i \<notin> fst ` set (tl_rows (snd (read_back later (leave_event now i reason s))))"
proof -
  let ?f = "fst (leave_event now i reason s)"
  let ?t = "load_timeline ?f (snd (leave_event now i reason s))"
  have f: "?f = snd (remove_membership now i reason (fst s))" by (simp add: leave_event_def)
  have gone: "i \<notin> fst ` set (fu_members ?f)"
  proof -
    have "map_of (fu_members ?f) i = None" unfolding f
      by (auto simp: remove_membership_def Let_def delete_conv' split: option.split)
    then show ?thesis by (simp add: map_of_eq_None_iff)
  qed
  have ev: "event_of ?f i = []" unfolding f by (rule left_event)
  have seg: "map_of (tl_segments ?t) k = Some g"
    using load_keeps [of "fst s" "snd s" k g ?f] assms(1,3) by (simp add: leave_event_def)
  have "[] \<notin> set (event_ids ?f)" by (simp add: event_ids_def)
  then have norow: "i \<notin> fst ` set (tl_rows ?t)" using ev load_row_event [of i _ ?f] by fastforce
  let ?u = "fold (reconcile_row later (sanitize_fusion ?f)) (tl_rows ?t) ?t"
  from reconcile_rows_keep [OF norow seg assms(2)] obtain h where h: "map_of (tl_segments ?u) k = Some h" "i \<in> set (sg_members h)" by blast
  then have "map_of (tl_segments (reconcile later (sanitize_fusion ?f) ?t)) k = Some h"
    unfolding reconcile_def Let_def by (auto intro!: map_of_filter_first)
  moreover have "i \<notin> fst ` set (tl_rows (reconcile later (sanitize_fusion ?f) ?t))"
    using norow reconcile_rows_subset by (fastforce simp: reconcile_def Let_def)
  ultimately show ?thesis using h(2) sanitize_event_of [OF ev gone] by (auto simp: read_back_def Let_def)
qed


section \<open>A pass gives every known post of a touched event a segment\<close>

text \<open>What the steps of a pass keep: rows name stored segments, fingerprints are stored under their id.\<close>

definition placed :: "timeline \<Rightarrow> bool" where
  "placed t \<longleftrightarrow> (\<forall>(i, r) \<in> set (tl_rows t). sm_segment r \<in> fst ` set (tl_segments t)) \<and> (\<forall>(k, m) \<in> set (tl_prints t). mo_id m = k)"

definition grows :: "timeline \<Rightarrow> timeline \<Rightarrow> bool" where
  "grows t u \<longleftrightarrow> placed u \<and> fst ` set (tl_rows t) \<subseteq> fst ` set (tl_rows u)"

lemma grows_placed: "grows t u \<Longrightarrow> placed u"
  by (simp add: grows_def)

lemma placed_row:
  assumes "placed t" "i \<in> fst ` set (tl_rows t)"
  shows "\<exists>r. map_of (tl_rows t) i = Some r \<and> sm_segment r \<in> fst ` set (tl_segments t)"
proof -
  obtain r where r: "map_of (tl_rows t) i = Some r" using assms(2) by (cases "map_of (tl_rows t) i") (auto simp: map_of_eq_None_iff)
  from map_of_SomeD [OF this] assms(1) show ?thesis unfolding placed_def using r by blast
qed

lemma grows_trans: "grows t u \<Longrightarrow> grows u v \<Longrightarrow> grows t v"
  by (auto simp: grows_def)

lemma grows_fold:
  assumes "\<And>x t. x \<in> set xs \<Longrightarrow> placed t \<Longrightarrow> grows t (step x t)" "placed t"
  shows "grows t (fold step xs t)"
  using assms
proof (induction xs arbitrary: t)
  case Nil
  then show ?case by (simp add: grows_def)
next
  case (Cons x xs)
  then have "grows t (step x t)" by simp
  moreover from this Cons have "grows (step x t) (fold step xs (step x t))" by (simp add: grows_def)
  ultimately show ?case by (auto intro: grows_trans)
qed

lemma placed_put:
  assumes "placed t" "tl_segments u = AList.update k g (tl_segments t)" "tl_rows u = AList.update i r (tl_rows t)"
    "tl_prints u = tl_prints t" "sm_segment r = k"
  shows "grows t u \<and> i \<in> fst ` set (tl_rows u)"
proof -
  have "\<forall>(j, q) \<in> set (tl_rows u). sm_segment q \<in> fst ` set (tl_segments u)"
    using assms(1,5) unfolding placed_def assms(2,3) dom_update by (fastforce dest: update_entry)
  with assms(1) show ?thesis unfolding grows_def placed_def assms(3,4) dom_update by auto
qed

lemma create_placed: "placed t \<Longrightarrow> grows t (snd (create_segment sha now event i t)) \<and> i \<in> fst ` set (tl_rows (snd (create_segment sha now event i t)))"
  by (rule placed_put) (simp_all add: create_segment_def Let_def)

lemma attach_placed: "placed t \<Longrightarrow> grows t (attach_segment now k g m c t) \<and> mo_id m \<in> fst ` set (tl_rows (attach_segment now k g m c t))"
  by (rule placed_put) (simp_all add: attach_segment_def)

lemma placed_frame:
  assumes "grows t u \<and> i \<in> fst ` set (tl_rows u)" "tl_segments v = tl_segments u" "tl_rows v = tl_rows u" "tl_prints v = tl_prints u"
  shows "grows t v \<and> i \<in> fst ` set (tl_rows v)"
  using assms(1) unfolding grows_def placed_def assms(2-4) .

lemma store_link_frame [simp]:
  "tl_segments (store_link sha now l r c t) = tl_segments t" "tl_rows (store_link sha now l r c t) = tl_rows t"
  "tl_prints (store_link sha now l r c t) = tl_prints t"
  by (simp_all add: store_link_def Let_def)

lemma segment_one_placed:
  assumes "placed t"
  shows "grows t (segment_one sha now event fps containers m t) \<and> mo_id m \<in> fst ` set (tl_rows (segment_one sha now event fps containers m t))"
proof (cases "mo_id m \<in> set (map fst (tl_rows t))")
  case True
  with assms show ?thesis by (simp add: segment_one_def grows_def)
next
  case False
  note create = create_placed [OF assms, of sha now event "mo_id m"]
  show ?thesis
  proof (cases "segments_of event t = []")
    case True
    with False show ?thesis
      by (intro placed_frame [OF create]) (simp_all add: segment_one_def case_prod_unfold Let_def)
  next
    case some: False
    show ?thesis
    proof (cases "segment_choices m fps containers (segments_of event t)")
      case Nil
      with False some create show ?thesis by (simp add: segment_one_def)
    next
      case (Cons p rest)
      obtain c o' g where p: "p = (c, o', g)" by (cases p)
      note attach = attach_placed [OF assms, of now "sg_id g" g m c]
      show ?thesis
      proof (cases "sc_same c \<and> attaching (sc_relation c)")
        case True
        with False some Cons p show ?thesis
          by (intro placed_frame [OF attach]) (simp_all add: segment_one_def Let_def)
      next
        case no: False
        with False some Cons p show ?thesis
          by (intro placed_frame [OF create]) (auto simp: segment_one_def Let_def case_prod_unfold)
      qed
    qed
  qed
qed

lemma segment_ones_placed:
  assumes "placed t"
  shows "grows t (fold (segment_one sha now event fps containers) ms t) \<and>
    mo_id ` set ms \<subseteq> fst ` set (tl_rows (fold (segment_one sha now event fps containers) ms t))"
  using assms
proof (induction ms arbitrary: t)
  case Nil
  then show ?case by (simp add: grows_def)
next
  case (Cons m ms)
  let ?u = "segment_one sha now event fps containers m t"
  have u: "grows t ?u" "mo_id m \<in> fst ` set (tl_rows ?u)" using segment_one_placed [OF Cons.prems] by blast+
  with Cons.IH [of ?u] have v: "grows ?u (fold (segment_one sha now event fps containers) ms ?u)"
    "mo_id ` set ms \<subseteq> fst ` set (tl_rows (fold (segment_one sha now event fps containers) ms ?u))" by (simp_all add: grows_def)
  then have "mo_id m \<in> fst ` set (tl_rows (fold (segment_one sha now event fps containers) ms ?u))" using u(2) by (auto simp: grows_def)
  with v grows_trans [OF u(1) v(1)] show ?case by simp
qed

lemma reorder_frame:
  "fst ` set (tl_segments (reorder event fps t)) = fst ` set (tl_segments t)" "tl_rows (reorder event fps t) = tl_rows t"
  "tl_prints (reorder event fps t) = tl_prints t"
  by (force simp: reorder_def Let_def)+

lemma reorder_grows: "grows t u \<Longrightarrow> grows t (reorder event fps u)"
  by (simp add: grows_def placed_def reorder_frame)


text \<open>The known posts: those of the archive are among them.\<close>

definition keyed :: "(pystr \<times> moment) list \<Rightarrow> bool" where
  "keyed fps \<longleftrightarrow> (\<forall>(k, m) \<in> set fps. mo_id m = k)"

lemma build_id [simp]: "mo_id (build_moment features details event u) = upd_id u"
  by (simp add: build_moment_def Let_def)

lemma print_grows: "placed t \<Longrightarrow> mo_id m = i \<Longrightarrow> grows t (t\<lparr>tl_prints := AList.update i m (tl_prints t)\<rparr>)"
  by (auto simp: grows_def placed_def dest!: update_entry)

lemma known_moment_grows:
  assumes "placed t" "keyed fps" "\<forall>j v. stored j = Some v \<longrightarrow> upd_id v = j"
    and "known_moment features details stored allowed event i (fps, t) = (ks, u)"
  shows "grows t u \<and> keyed ks \<and> set fps \<subseteq> set ks \<and> length fps \<le> length ks \<and>
    (\<forall>v. stored i = Some v \<longrightarrow> post_source v \<in> set allowed \<longrightarrow> i \<in> fst ` set ks)"
proof -
  have same: "grows t t" using assms(1) by (simp add: grows_def)
  have kept: ?thesis if "map_of (tl_prints t) i = Some m" "mo_event m = event" for m
  proof -
    have "mo_id m = i" using that(1) assms(1) by (auto simp: placed_def dest!: map_of_SomeD)
    with that assms(2,4) same show ?thesis by (auto simp: known_moment_def keyed_def)
  qed
  have new: ?thesis if "\<not> (\<exists>m. map_of (tl_prints t) i = Some m \<and> mo_event m = event)"
  proof (cases "\<exists>v. stored i = Some v \<and> post_source v \<in> set allowed")
    case True
    then obtain v where v: "stored i = Some v" "post_source v \<in> set allowed" by blast
    let ?m = "build_moment features details event v"
    have "(ks, u) = (fps @ [(i, ?m)], t\<lparr>tl_prints := AList.update i ?m (tl_prints t)\<rparr>)"
      using that v assms(4) by (auto simp: known_moment_def split: option.splits)
    moreover have "mo_id ?m = i" using v(1) assms(3) by simp
    ultimately show ?thesis using print_grows [OF assms(1), of ?m i] assms(2) by (auto simp: keyed_def)
  next
    case False
    then have "(ks, u) = (fps, t)" using that assms(4) by (auto simp: known_moment_def split: option.splits if_splits)
    with False assms(2) same show ?thesis by auto
  qed
  show ?thesis using kept new by blast
qed

lemma known_moments_grow:
  assumes "placed t" "keyed fps" "\<forall>j v. stored j = Some v \<longrightarrow> upd_id v = j"
    and "fold (known_moment features details stored allowed event) is (fps, t) = (ks, u)"
  shows "grows t u \<and> keyed ks \<and> set fps \<subseteq> set ks \<and>
    (\<forall>i \<in> set is. \<forall>v. stored i = Some v \<longrightarrow> post_source v \<in> set allowed \<longrightarrow> i \<in> fst ` set ks)"
  using assms(1,2,4)
proof (induction "is" arbitrary: fps t)
  case Nil
  then show ?case by (simp add: grows_def)
next
  case (Cons i "is")
  obtain ls v where lv: "known_moment features details stored allowed event i (fps, t) = (ls, v)" by fastforce
  note step = known_moment_grows [OF Cons.prems(1,2) assms(3) lv]
  with Cons.prems(3) lv have rest: "grows v u" "keyed ks" "set ls \<subseteq> set ks"
    "\<forall>i \<in> set is. \<forall>v. stored i = Some v \<longrightarrow> post_source v \<in> set allowed \<longrightarrow> i \<in> fst ` set ks"
    using Cons.IH [of v ls] by (simp_all add: grows_def)
  have "grows t u" using step rest(1) grows_trans by blast
  moreover have "set fps \<subseteq> set ks" using step rest(3) by blast
  moreover have "i \<in> fst ` set ks" if "stored i = Some w" "post_source w \<in> set allowed" for w
    using step that rest(3) by blast
  ultimately show ?case using rest(2,4) by simp
qed

definition archived :: "(pystr \<Rightarrow> update option) \<Rightarrow> pystr list \<Rightarrow> pystr \<Rightarrow> bool" where
  "archived stored allowed i \<longleftrightarrow> (\<exists>v. stored i = Some v \<and> post_source v \<in> set allowed)"

lemma segment_event_placed:
  assumes "placed t" "\<forall>j v. stored j = Some v \<longrightarrow> upd_id v = j"
  shows "grows t (segment_event sha features details stored allowed now f event t)"
    "map_of (fu_events f) event = Some e \<Longrightarrow> fe_type e \<in> set segmentable_types \<Longrightarrow> i \<in> set (fe_members e) \<Longrightarrow> j \<in> set (fe_members e) \<Longrightarrow>
      i \<noteq> j \<Longrightarrow> archived stored allowed i \<Longrightarrow> archived stored allowed j \<Longrightarrow>
      i \<in> fst ` set (tl_rows (segment_event sha features details stored allowed now f event t))"
proof -
  have both: "grows t (segment_event sha features details stored allowed now f event t) \<and>
    (\<forall>i j. fe_type e \<in> set segmentable_types \<longrightarrow> i \<in> set (fe_members e) \<longrightarrow> j \<in> set (fe_members e) \<longrightarrow> i \<noteq> j \<longrightarrow>
      archived stored allowed i \<longrightarrow> archived stored allowed j \<longrightarrow>
      i \<in> fst ` set (tl_rows (segment_event sha features details stored allowed now f event t)))"
    if e: "map_of (fu_events f) event = Some e" for e
  proof (cases "fe_type e \<notin> set segmentable_types \<or> length (sort (remdups (fe_members e))) < 2")
    case True
    have "i = j" if "i \<in> set (fe_members e)" "j \<in> set (fe_members e)" "length (sort (remdups (fe_members e))) < 2" for i j
    proof -
      have "card (set (fe_members e)) \<le> 1" using that(3) by (simp add: length_remdups_card_conv)
      with that(1,2) show ?thesis by (metis List.finite_set card_le_Suc0_iff_eq One_nat_def)
    qed
    with True e assms(1) show ?thesis by (auto simp: segment_event_def grows_def)
  next
    case False
    obtain fps u where fu: "fold (known_moment features details stored allowed event) (sort (remdups (fe_members e))) ([], t) = (fps, u)" by fastforce
    have k: "grows t u" "keyed fps" "i \<in> set (fe_members e) \<Longrightarrow> archived stored allowed i \<Longrightarrow> i \<in> fst ` set fps" for i
      using known_moments_grow [OF assms(1) _ assms(2) fu] by (auto simp: keyed_def archived_def)
    let ?v = "fold (segment_one sha now event fps (container_refs (map snd fps) (fe_type e))) (sort_key moment_key (map snd fps)) u"
    have v: "grows u ?v" "mo_id ` set (map snd fps) \<subseteq> fst ` set (tl_rows ?v)"
      using segment_ones_placed [of u sha now event fps _ "sort_key moment_key (map snd fps)"] k(1) by (simp_all add: grows_def)
    have r: "segment_event sha features details stored allowed now f event t = (if length fps < 2 then u else reorder event fps ?v)"
      using False e fu by (simp add: segment_event_def Let_def)
    have "2 \<le> length fps" if "i \<in> fst ` set fps" "j \<in> fst ` set fps" "i \<noteq> j" for i j
    proof (rule ccontr)
      assume "\<not> 2 \<le> length fps"
      then have "card (fst ` set fps) \<le> 1" using card_length [of "map fst fps"] by simp
      with that show False by (metis List.finite_set finite_imageI card_le_Suc0_iff_eq One_nat_def)
    qed
    moreover have "i \<in> fst ` set (tl_rows ?v)" if "i \<in> fst ` set fps" for i
      using that v(2) k(2) by (force simp: keyed_def)
    ultimately have "i \<in> fst ` set (tl_rows (segment_event sha features details stored allowed now f event t))"
      if "i \<in> set (fe_members e)" "j \<in> set (fe_members e)" "i \<noteq> j" "archived stored allowed i" "archived stored allowed j" for i j
      using k(3) that unfolding r by (fastforce simp: reorder_frame)
    moreover have "grows t (segment_event sha features details stored allowed now f event t)"
      unfolding r using k(1) grows_trans [OF k(1) reorder_grows [OF v(1)]] by simp
    ultimately show ?thesis by blast
  qed
  show "grows t (segment_event sha features details stored allowed now f event t)"
  proof (cases "map_of (fu_events f) event")
    case None
    with assms(1) show ?thesis by (simp add: segment_event_def grows_def)
  qed (use both in blast)
  show "i \<in> fst ` set (tl_rows (segment_event sha features details stored allowed now f event t))"
    if "map_of (fu_events f) event = Some e" "fe_type e \<in> set segmentable_types" "i \<in> set (fe_members e)" "j \<in> set (fe_members e)"
      "i \<noteq> j" "archived stored allowed i" "archived stored allowed j"
    using both [OF that(1)] that(2-) by blast
qed


lemma reconcile_prints: "tl_prints (reconcile now f t) = tl_prints t"
proof -
  have "tl_prints (fold (reconcile_row now f) ps u) = tl_prints u" for ps u
    by (induction ps arbitrary: u) (simp_all add: reconcile_row_def)
  then show ?thesis by (simp add: reconcile_def Let_def)
qed

lemma read_back_placed: "placed (snd (read_back now s))"
proof -
  have "\<forall>(k, m) \<in> set (tl_prints (snd (read_back now s))). mo_id m = k"
    by (auto simp: read_back_def Let_def reconcile_prints load_timeline_def)
  moreover have "sm_segment r \<in> fst ` set (tl_segments (snd (read_back now s)))" if "(i, r) \<in> set (tl_rows (snd (read_back now s)))" for i r
  proof -
    from read_back_listed [of now s] that obtain g where "map_of (tl_segments (snd (read_back now s))) (sm_segment r) = Some g"
      unfolding rows_listed_def by blast
    from map_of_SomeD [OF this] show ?thesis by force
  qed
  ultimately show ?thesis unfolding placed_def by blast
qed

lemma note_grows: "placed t \<Longrightarrow> grows t (note_moment features details allowed f u t)"
  using print_grows [of t "build_moment features details (event_of f (upd_id u)) u" "upd_id u"] by (auto simp: note_moment_def grows_def)

lemma fold_reaches:
  assumes "\<And>y u. placed u \<Longrightarrow> grows u (step y u)" "\<And>u. placed u \<Longrightarrow> i \<in> fst ` set (tl_rows (step x u))" "placed t" "x \<in> set xs"
  shows "i \<in> fst ` set (tl_rows (fold step xs t))"
  using assms(3,4)
proof (induction xs arbitrary: t)
  case (Cons y xs)
  have y: "placed (step y t)" using assms(1) [OF Cons.prems(1)] by (simp add: grows_def)
  show ?case
  proof (cases "x = y")
    case True
    then have "i \<in> fst ` set (tl_rows (step y t))" using assms(2) Cons.prems(1) by simp
    moreover have "grows (step y t) (fold step xs (step y t))" using assms(1) y by (intro grows_fold)
    ultimately show ?thesis by (auto simp: grows_def)
  next
    case False
    with Cons y show ?thesis by simp
  qed
qed simp

lemma prune_small:
  assumes "length (tl_segments (prune_timeline t)) < max_segments"
  shows "tl_segments (prune_timeline t) = tl_segments t" "tl_rows (prune_timeline t) = tl_rows t"
  using assms by (auto simp: prune_timeline_def Let_def newest_def split: if_splits)



section \<open>The numbers of the segments\<close>

lemma sort_key_image: "(\<And>x. key (h x) = key x) \<Longrightarrow> sort_key key (map h xs) = map h (sort_key key xs)"
proof -
  assume k: "\<And>x. key (h x) = key x"
  have "insort_key key (h x) (map h ys) = map h (insort_key key x ys)" for x ys by (induction ys) (simp_all add: k)
  then show ?thesis by (induction xs) simp_all
qed

lemma numbers_in_order:
  assumes "distinct (map fst ss)" "length ns = length ss"
  shows "map (\<lambda>(k, g). the (map_of (zip (map fst ss) ns) k)) ss = take (length ss) ns"
proof (rule nth_equalityI)
  fix n assume "n < length (map (\<lambda>(k, g). the (map_of (zip (map fst ss) ns) k)) ss)"
  then have n: "n < length ss" by simp
  then have "map_of (zip (map fst ss) ns) (map fst ss ! n) = Some (ns ! n)" using assms by (intro map_of_zip_nth) simp_all
  with n show "map (\<lambda>(k, g). the (map_of (zip (map fst ss) ns) k)) ss ! n = take (length ss) ns ! n" by (simp add: case_prod_unfold)
qed (simp add: assms(2))

text \<open>
  The segments of an event are numbered from one in the order of their evidence: the earliest content
  timestamp, or else part, or else time of posting of their known members.
\<close>

lemma segments_numbered:
  assumes "distinct (map fst (tl_segments t))"
  shows "map (\<lambda>(k, g). sg_index g) (sort_key (\<lambda>(k, g). segment_key fps g) (segments_of event (reorder event fps t))) =
    [1..<Suc (length (segments_of event t))]"
proof -
  let ?key = "\<lambda>(k, g). segment_key fps g"
  let ?ss = "sort_key ?key (segments_of event t)"
  let ?ns = "[1..<Suc (length ?ss)]"
  let ?h = "\<lambda>(k, g). (k, g\<lparr>sg_index := the (map_of (zip (map fst ?ss) ?ns) k), sg_order := segment_evidence fps g\<rparr>)"
  have "segments_of event (reorder event fps t) = map ?h (segments_of event t)"
    unfolding segments_of_def reorder_def segment_order_def Let_def
    by (simp add: filter_map comp_def case_prod_unfold)
  moreover have "?key (?h x) = ?key x" for x by (cases x) (simp add: segment_key_def segment_evidence_def Let_def)
  ultimately have "sort_key ?key (segments_of event (reorder event fps t)) = map ?h ?ss" by (simp only: sort_key_image)
  then have "map (\<lambda>(k, g). sg_index g) (sort_key ?key (segments_of event (reorder event fps t))) =
      map (\<lambda>(k, g). the (map_of (zip (map fst ?ss) ?ns) k)) ?ss"
    by (simp add: comp_def case_prod_unfold)
  also have "\<dots> = take (length ?ss) ?ns"
  proof (rule numbers_in_order)
    have "distinct (map fst (segments_of event t))" using assms by (simp add: segments_of_def distinct_filter_fst)
    then show "distinct (map fst ?ss)" by (simp add: distinct_map)
  qed (simp add: Suc_le_eq)
  also have "\<dots> = [1..<Suc (length (segments_of event t))]" by (simp del: upt_Suc)
  finally show ?thesis .
qed

section \<open>Instances\<close>

definition demo_moment :: "pystr \<Rightarrow> pystr \<Rightarrow> moment" where
  "demo_moment i reply = \<lparr>mo_id = i, mo_event = ''evt:a'', mo_source = ''a'', mo_created = 0, mo_type = ''live'', mo_lang = [],
     mo_conv = [], mo_reply = reply, mo_quoted = [], mo_refs = [], mo_topics = [], mo_people = [], mo_time = None, mo_time_kind = [],
     mo_part = None, mo_questions = [], mo_media = [], mo_anchors = [], mo_numbers = [], mo_negation = False\<rparr>"

theorem segment_mates_linked_witness:
  "moments_linked [] (demo_moment ''2'' ''1'') (demo_moment ''1'' []) \<and>
   \<not> gap_is (\<lambda>d. 120 < d) (time_gap (demo_moment ''2'' ''1'') (demo_moment ''1'' []))"
proof -
  have "sc_same (match_moments [] (demo_moment ''2'' ''1'') (demo_moment ''1'' []))" by code_simp
  from segment_mates_linked [OF this] show ?thesis by (simp add: demo_moment_def)
qed

definition demo_segment :: segment where
  "demo_segment = \<lparr>sg_id = ''seg:a'', sg_event = ''evt:a'', sg_created = [], sg_updated = [], sg_members = [''1'', ''2''], sg_conf = 900,
     sg_index = 1, sg_order = NoEvidence\<rparr>"

definition pair_fusion :: fusion where
  "pair_fusion = \<lparr>fu_events = [(''evt:a'', demo_event\<lparr>fe_members := [''1'', ''2'']\<rparr>)],
     fu_members = [(''1'', demo_membership), (''2'', demo_membership)], fu_prints = [], fu_log = []\<rparr>"

definition demo_timeline :: timeline where
  "demo_timeline = fresh_timeline\<lparr>tl_segments := [(''seg:a'', demo_segment)]\<rparr>"

lemmas demo_defs = demo_segment_def pair_fusion_def demo_timeline_def fresh_timeline_def demo_event_def demo_membership_def
  last_n_def max_events_def max_fingerprints_def max_decisions_def max_segments_def max_moments_def max_links_def max_segment_decisions_def

lemma demo_leaves:
  "map_of (tl_segments (snd (leave_event 5 ''1'' [] (pair_fusion, demo_timeline)))) ''seg:a'' = Some demo_segment"
  "''evt:a'' \<in> set (event_ids (fst (leave_event 5 ''1'' [] (pair_fusion, demo_timeline))))"
proof -
  have "sort [''1'', ''2''] = [''1'', ''2'']" "sort [''2''] = [''2'']" by simp_all
  then show "map_of (tl_segments (snd (leave_event 5 ''1'' [] (pair_fusion, demo_timeline)))) ''seg:a'' = Some demo_segment"
    by (simp add: leave_event_def load_timeline_def segment_kept_def event_ids_def demo_defs del: sort_key_simps)
  have "''evt:a'' \<in> set (map fst (fu_events (snd (remove_membership 5 ''1'' [] pair_fusion))))"
    by (simp add: remove_membership_def sanitize_fusion_def event_kept_def demo_defs Let_def)
  then show "''evt:a'' \<in> set (event_ids (fst (leave_event 5 ''1'' [] (pair_fusion, demo_timeline))))"
    by (simp add: leave_event_def event_ids_def)
qed

theorem removed_post_stays_listed_witness:
  "\<exists>h. map_of (tl_segments (snd (read_back 9 (leave_event 5 ''1'' [] (pair_fusion, demo_timeline))))) ''seg:a'' = Some h \<and> ''1'' \<in> set (sg_members h)"
  using removed_post_stays_listed [OF demo_leaves(1), of 9] demo_leaves(2) by (simp add: demo_segment_def)


lemma segment_one_length: "length (tl_segments (segment_one sha now event fps cs m t)) \<le> Suc (length (tl_segments t))"
proof -
  have len: "length (AList.update k v xs) \<le> Suc (length xs)" for k :: pystr and v :: segment and xs by (induction xs) auto
  show ?thesis
    by (auto simp: segment_one_def create_segment_def attach_segment_def Let_def len split: list.split)
qed

lemma segment_event_length:
  assumes "map_of (fu_events f) event = Some e"
  shows "length (tl_segments (segment_event sha features details stored allowed now f event t)) \<le> length (tl_segments t) + length (fe_members e)"
proof -
  have ones: "length (tl_segments (fold (segment_one sha now event fps cs) ms v)) \<le> length (tl_segments v) + length ms" for fps cs ms v
  proof (induction ms arbitrary: v)
    case (Cons m ms)
    show ?case using Cons.IH [of "segment_one sha now event fps cs m v"] segment_one_length [of sha now event fps cs m v] by simp
  qed simp
  have known: "tl_segments (snd (fold (known_moment features details stored allowed event) is p)) = tl_segments (snd p) \<and>
      length (fst (fold (known_moment features details stored allowed event) is p)) \<le> length (fst p) + length is" for "is" p
  proof (induction "is" arbitrary: p)
    case (Cons i "is")
    have "tl_segments (snd (known_moment features details stored allowed event i p)) = tl_segments (snd p) \<and>
      length (fst (known_moment features details stored allowed event i p)) \<le> Suc (length (fst p))"
      by (cases p) (auto simp: known_moment_def split: option.split)
    with Cons.IH [of "known_moment features details stored allowed event i p"] show ?case by auto
  qed simp
  obtain fps u where fu: "fold (known_moment features details stored allowed event) (sort (remdups (fe_members e))) ([], t) = (fps, u)" by fastforce
  have fl: "tl_segments u = tl_segments t" "length fps \<le> length (fe_members e)"
    using known [of "sort (remdups (fe_members e))" "([], t)"] fu le_trans [OF _ length_remdups_leq [of "fe_members e"]] by simp_all
  have "length (tl_segments (reorder event fps v)) = length (tl_segments v)" for v by (simp add: reorder_def Let_def)
  with ones [of fps "container_refs (map snd fps) (fe_type e)" "sort_key moment_key (map snd fps)" u] fl fu assms show ?thesis
    by (simp add: segment_event_def Let_def)
qed

definition demo_stored :: "pystr \<Rightarrow> update option" where
  "demo_stored i = (if i = ''1'' \<or> i = ''2'' then Some (demo_post i ''hello'' 10 i) else None)"

definition segmented_demo :: "fusion \<times> timeline" where
  "segmented_demo = segment_pass id (\<lambda>u. \<lparr>tx_type = ''live'', tx_refs = [], tx_topics = [], tx_anchors = [], tx_people = []\<rparr>)
     (\<lambda>t u. \<lparr>sf_time = None, sf_time_kind = [], sf_questions = [], sf_media = [], sf_anchors = [], sf_numbers = [], sf_negation = False\<rparr>)
     demo_stored 9 [''fan''] [demo_post ''1'' ''hello'' 10 ''1''] (pair_fusion, fresh_timeline)"

lemma pair_clean: "sanitize_fusion pair_fusion = pair_fusion"
  by (simp add: sanitize_fusion_def event_kept_def demo_defs)

lemma demo_event_of: "event_of pair_fusion ''1'' = ''evt:a''"
  by (simp add: event_of_def demo_defs)

lemma demo_allowed: "allowed_sources [''fan''] = [''fan'']" "post_source (demo_post i t at c) = ''fan''"
  by (simp_all add: allowed_sources_def post_source_def demo_post_def) code_simp+

lemma demo_members: "map_of (fu_events pair_fusion) ''evt:a'' = Some (demo_event\<lparr>fe_members := [''1'', ''2'']\<rparr>)"
  by (simp add: pair_fusion_def)

lemma demo_few: "length (tl_segments (snd segmented_demo)) < max_segments"
proof -
  have touched: "touched_events [''fan''] pair_fusion [demo_post ''1'' ''hello'' 10 ''1''] = [''evt:a'']"
    by (simp add: touched_events_def demo_allowed demo_event_of) (simp add: demo_post_def demo_event_of)
  have noted: "tl_segments (note_moment features details al pair_fusion u t) = tl_segments t" for features details al u t
    by (simp add: note_moment_def)
  have start: "tl_segments (snd (read_back 9 (pair_fusion, fresh_timeline))) = []"
    by (simp add: read_back_def Let_def reconcile_def load_timeline_def fresh_timeline_def last_n_def)
  have clean: "fst (read_back 9 (pair_fusion, fresh_timeline)) = pair_fusion"
    by (simp add: read_back_def Let_def pair_clean)
  have prune: "length (tl_segments (prune_timeline t)) \<le> length (tl_segments t)" for t
    by (simp add: prune_timeline_def Let_def newest_def)
  have two: "length (tl_segments (prune_timeline (segment_event sha features details stored al 9 pair_fusion ''evt:a'' t))) \<le> length (tl_segments t) + 2"
    for sha features details stored al t
    using le_trans [OF prune segment_event_length [OF demo_members]] by simp
  have "length (tl_segments (snd segmented_demo)) \<le> 2"
    unfolding segmented_demo_def segment_pass_def Let_def demo_allowed sort_key_simps fold_simps
    by (simp add: case_prod_unfold touched clean) (rule le_trans [OF two], simp add: noted start)
  then show ?thesis by (simp add: max_segments_def)
qed


end
