(* ===== verification/Spec2Isabelle.thy ===== *)
theory Spec2Isabelle
  imports Prelude PyTime PyJson Models StateStore ReviewInbox SourceQueue SourceLedger RawObs
    EditorialCore Evidence Completeness FinalEdit Realtime Outcome TextSplit Callback Delivery
    Organizer Scan Checkpoints Retrieval SourceModes Collector Production Lifecycle
    ArchiveIndex DateRequests PrivateStores LegacyWindow EventFusion EventTimeline
begin

text \<open>
  The durable core of a Telegram review bot (Python, \<open>src/app/\<close>), modelled as functions on the
  state each store keeps, with the theorems that make it correct.

  \<^bold>\<open>The program.\<close> A run reads new posts of the configured X sources (\<open>x_client\<close> and its
  recovery layers, network clients), records what a provider returned
  (\<open>raw_observation\<close>), proves or fails to prove that a time window was traversed completely
  (\<open>completeness_provider_proof\<close>, \<open>completeness_evidence\<close>, \<open>completeness_engine\<close> with the Rust process
  \<open>rust/editorial-core\<close>), accounts for it per source (\<open>source_ledger\<close>), queues fresh posts in the
  JSON state (\<open>state\<close>, \<open>models\<close>), turns them into drafts and sends those to a private chat
  (\<open>telegram\<close>, \<open>message_delivery\<close>, \<open>callback_store\<close>). The operator reviews the drafts source by
  source (\<open>review_inbox\<close>, \<open>source_first_queue\<close>) and may hand in a final edit
  (\<open>final_edit_capture\<close>). A fast shadow ingest (\<open>realtime_ingest\<close>) and a run report
  (\<open>production_outcome\<close>, \<open>database_checkpoint_attestation\<close>) stand beside this path.

  \<^bold>\<open>Conventions.\<close> Text is a list of code points (\<open>Prelude\<close>: below 256; \<open>TextSplit\<close>: any), an SQLite
  table is the list of its rows in rowid order, a dict an association list in insertion order,
  an instant a number of microseconds (\<open>PyTime\<close>, with the ISO text the stores compare), an
  untrusted value a \<open>json\<close> (\<open>PyJson\<close>). An operation that can raise returns \<open>Inl\<close> of the
  exception. The clock, generated identifiers, SHA-256, the rendering of floats, the RFC date
  parsers, the core process and what twscrape returns are arguments. A transaction is one step.

  \<^bold>\<open>Theories.\<close>
  \<^item> \<open>Prelude\<close>, \<open>PyTime\<close>, \<open>PyJson\<close>: text, tables, the machine locales, ISO timestamps (their
    text order is the order of the instants, and reading them back is exact), JSON values and
    Python's conversions.
  \<^item> \<open>Models\<close> (\<open>models.py\<close>), \<open>StateStore\<close> (\<open>state.py\<close>): the state document \<open>state_data\<close>, its
    loader, every operation, pruning (45 days of seen marks, 2 days of sessions, the size
    limits of the code) and saving. A saved state is read back unchanged but for over-long tokens of
    a fresh start; queued posts come
    out of \<open>pop_pending\<close> in order until they are seen, and never after.
  \<^item> \<open>ReviewInbox\<close>, \<open>SourceQueue\<close>: the inbox table, and rounds, sources and items over it. An
    inbox decision survives every synchronisation; there is one round, one focus, no draft
    twice, and none is lost.
  \<^item> \<open>RawObs\<close>, \<open>SourceLedger\<close>: observations with their versions (the canonical JSON is injective),
    windows and the completeness watermark per source.
  \<^item> \<open>EditorialCore\<close> (\<open>lib.rs\<close>, counts as 64-bit words), \<open>Evidence\<close>, \<open>Completeness\<close>: the verdict,
    the evidence it is based on, and the attempts and shadow cursors of the engine. In every
    reachable state a cursor is backed by a complete proof, and it never jumps a gap.
  \<^item> \<open>TextSplit\<close>, \<open>Callback\<close>, \<open>Delivery\<close>: cutting long messages, callback tokens, and the keyed
    sending of messages over a network that fails, is rate limited or accepts without
    answering, by a process that may die before a request and before the receipt of an accepted one:
    delivered at least once, and twice only where an acceptance left no receipt.
  \<^item> \<open>FinalEdit\<close>: capture sessions and confirmed edits; private text is held only while a
    confirmation is awaited.
  \<^item> \<open>Realtime\<close>, \<open>Outcome\<close>: claims and hydration of the shadow ingest; the outcome record of a
    run, its classification, redaction and validation.
  \<^item> \<open>Organizer\<close> (\<open>organizer.py\<close>), \<open>Scan\<close> (\<open>main.py\<close>): grouping posts into threads, live clusters and
    events (SHA-1 and the Persian headings are arguments), and the scheduled scan and delivery
    of pending posts composed from \<open>StateStore\<close> and \<open>Organizer\<close>: a kept post is queued or seen
    whatever runs in the next 45 days, the cursor moves only over a complete scan, and what
    exceeds the collection ceiling is lost.
  \<^item> \<open>Checkpoints\<close>, \<open>Retrieval\<close> (\<open>x_resumable_recovery_runtime.py\<close>,
    \<open>x_recovery_integrity_runtime.py\<close>): the stored progress of an interrupted reading with its
    validation, and the page loop that resumes it; what the provider answers is an argument and may
    also kill the process. Nothing is assumed of its honesty: a run that reports its window complete
    comes with the pages, of this run and of the interrupted ones it resumed, that read the window back
    from its end past its start, and holds every post of the source they gave inside it (\<open>reachable\<close>,
    rule induction). Whether these pages show all there is to see is for \<open>Evidence\<close> and
    \<open>Completeness\<close>: an old post at the head ends a run with the window empty
    (\<open>old_head_post_ends_run\<close>), and a checkpoint of a younger window leaves a gap. The loop always
    ends.
  \<^item> \<open>SourceModes\<close> (\<open>source_modes.py\<close>, \<open>config.py\<close>), \<open>Collector\<close>
    (\<open>source_authority_hardening.py\<close>, \<open>x_provider_recovery.py\<close>), \<open>Production\<close>
    (\<open>webhook_aware_assistant.py\<close>, \<open>configured_source_runtime.py\<close>): the sources with their gate, one
    window collected from all of them by runs of \<open>Retrieval\<close> or by the public recovery, and the scan
    that production runs in place of the one in \<open>main.py\<close>. End to end: when its cursor moves, the
    pages of every enabled source read the window back, and every post of the source they gave in it is
    seen, queued, or was turned down by the gate. An outage longer than the lookback leaves a gap.
  \<^item> \<open>Lifecycle\<close> (\<open>zero_silent_miss.py\<close>, \<open>lifecycle_correlation_runtime.py\<close>,
    \<open>lifecycle_outcome_visibility_runtime.py\<close>): the record of every post, the quarantine of rows
    the queue cannot deliver, and the store methods and delivery wrappers around the originals of
    \<open>StateStore\<close>. The layer is transparent to the queue, no row and no post of a batch disappears
    without a trace, and every record stays within its types and bounds.
  \<^item> \<open>ArchiveIndex\<close> (\<open>archive_store.py\<close>, \<open>archive_backup.py\<close>): the record and full-text tables of
    the archive index with every operation, and the backup file. A window read from the index is
    the window of the posts although timestamps are compared as text, the two tables stay in step,
    a rebuilt index is complete and a backup restores every record of an empty index.
  \<^item> \<open>DateRequests\<close> (\<open>date_requests.py\<close>): requests for the posts of a day, collected one source and
    delivered one post per step, with the repository queue that asks for them. A request that ends
    as complete was covered by a clean reading of every source and delivered what it selected; a
    broadcast is selected with exactly its replies; a job that is handled ends (the sources, then the
    tries that are left, decrease); and one malformed row or queue entry stops everything.
  \<^item> \<open>PrivateStores\<close> (\<open>reminder_queue.py\<close>, \<open>reminder_runtime.py\<close>, \<open>source_health.py\<close>, \<open>fic_state.py\<close>,
    \<open>media_file_cache.py\<close>, \<open>media_delivery.py\<close>): the small tables. A pass settles every due reminder,
    the health row of a source is the summary of its calls and holds nothing but a harmless code, and
    delivered media is recognised for the whole window.
  \<^item> \<open>LegacyWindow\<close> (\<open>x_completeness.py\<close>): the reading used where the provider gives no raw pages. The
    window it returns is complete if the timeline is newest first and ends early only by an exception
    or at the limit, which \<open>docs/PHASE_4_COMPLETENESS_ENGINE.md\<close> does not promise; a pinned old post at
    its head empties the window. The bot installs \<open>configured_source_subclasses.py\<close> over it.
  \<^item> \<open>EventFusion\<close> (\<open>event_fusion.py\<close>): the comparison of two posts, the shadow events with their
    members, and the corrections by hand. No post is ever listed by two events, and a pair is
    confident only by an explicit link. \<open>event_fusion_longform_guard.py\<close>, which \<open>app/__init__.py\<close>
    installs over the comparison and which turns some matches of long-form posts into ambiguous or
    separate ones, is not modelled.
  \<^item> \<open>EventTimeline\<close> (\<open>event_timeline.py\<close>, \<open>event_timeline_state_compat.py\<close>): the segments of an event
    beside the state of \<open>EventFusion\<close>. Two posts share a segment only by an explicit link, a pass
    gives every known post of a touched event a segment, the segments are numbered by their
    evidence; and a post that left its event stays listed by its segment.

  \<^bold>\<open>Interfaces.\<close> \<open>guarded_machine\<close>, \<open>invariant_machine\<close> and \<open>watermark_machine\<close> (\<open>Prelude\<close>) are
  the contracts of a store: operations that keep an invariant, and a mark that no operation
  moves back. They are interpreted by every store on its own step function. \<open>seen_registry\<close>,
  \<open>pending_view\<close> and \<open>proof_authority\<close> are what the queue, the inbox and the engine rely on;
  \<open>record_property\<close> carries what every recording of the lifecycle layer keeps to its operations.

  \<^bold>\<open>Loops and bounds.\<close> Every definition is total except the two loops of the splitter, which
  are \<open>partial_function (option)\<close> and proved to return. The retry loop of the Bot API runs its
  three attempts. Truncations of the code (80, 160, 4096, 20000 characters, 1000 rows) are the
  code's numbers. SQLite integers and file sizes are not bounded.

  \<^bold>\<open>Not modelled.\<close> The network clients of X and its mirrors, media download and transcoding, the
  language-model prompts and the regular-expression heuristics over Persian and Korean text,
  the webhook server, keyboards and command dispatch, the runtime modules that patch methods
  of the assistant at import time, environment configuration and the maintenance tools:
  they are I/O or text heuristics around the stores. The fusion of
  translations and, but for its table of works, the fan-fiction digest are not modelled. The emoji
  log summary of \<open>production_outcome\<close>, the telemetry calls and the millisecond figures computed in
  floating point are left out. Concurrent writers of one database file are outside the model.
\<close>

end
